(* ===== verification/Kad_Prelude.thy ===== *)
theory Kad_Prelude
  imports Main "HOL-Library.Word" "HOL-Library.Monad_Syntax" "HOL-Library.AList"
    "HOL-Library.Multiset"
begin

text \<open>
  Shared ground of the development: the lemma collections, Go's times and durations, Go maps
  as association lists, and bit strings.

  \<^item> A computation that may panic has an \<open>option\<close> result: \<open>None\<close> is a panic (an explicit
    \<open>panic\<close>, a nil dereference, an index out of range) or, for the two loops whose end depends
    on the key type, no return at all. Bind is Go's sequencing.
  \<^item> A Go map is an association list with distinct keys: \<open>map_of\<close> reads it, \<open>AList.update\<close>
    writes it, \<open>AList.delete\<close> is Go's \<open>delete\<close> and \<open>length\<close> is Go's \<open>len\<close>.
  \<^item> A bit string (most significant bit first) is a \<open>bool list\<close>; \<open>bval\<close> is its numeric value,
    \<open>cpl_bits\<close> the length of the common prefix of two of them, \<open>xor_bits\<close> their bitwise XOR.
\<close>

named_theorems key_laws \<open>laws of the kad.Key interface\<close>
named_theorems inv_intros \<open>operations that keep an invariant\<close>
named_theorems go_defs \<open>definitions of plain (branch-free) Go helpers\<close>

section \<open>Times and durations\<close>

text \<open>
  A \<open>time.Time\<close> is its distance in nanoseconds from Go's zero time, so \<open>IsZero\<close> is a comparison
  with 0. A \<open>time.Duration\<close> is an int64 count of nanoseconds; \<open>Time.Sub\<close> (which
  \<open>Clock.Since\<close> calls) saturates at its two ends.
\<close>

type_synonym time = int
type_synonym duration = int

definition IsZero :: "time \<Rightarrow> bool" where
  [go_defs]: "IsZero t = (t = 0)"

definition maxDuration :: duration where
  [go_defs]: "maxDuration = 2 ^ 63 - 1"

definition minDuration :: duration where
  [go_defs]: "minDuration = - (2 ^ 63)"

definition Since :: "time \<Rightarrow> time \<Rightarrow> duration" where
  [go_defs]: "Since now t = max minDuration (min maxDuration (now - t))"

definition Second :: duration where
  [go_defs]: "Second = 1000000000"

definition Minute :: duration where
  [go_defs]: "Minute = 60 * Second"

definition Hour :: duration where
  [go_defs]: "Hour = 60 * Minute"

section \<open>Bit strings\<close>

fun bval :: "bool list \<Rightarrow> nat" where
  "bval [] = 0"
| "bval (b # bs) = (if b then 2 ^ length bs else 0) + bval bs"

fun cpl_bits :: "'a list \<Rightarrow> 'a list \<Rightarrow> nat" where
  "cpl_bits (x # xs) (y # ys) = (if x = y then Suc (cpl_bits xs ys) else 0)"
| "cpl_bits _ _ = 0"

definition xor_bits :: "bool list \<Rightarrow> bool list \<Rightarrow> bool list" where
  "xor_bits xs ys = map2 (\<noteq>) xs ys"

lemma bval_less: "bval bs < 2 ^ length bs"
  by (induction bs) auto

lemma bval_replicate_False [simp]: "bval (replicate n False) = 0"
  by (induction n) auto

lemma bval_eq_iff: "length xs = length ys \<Longrightarrow> bval xs = bval ys \<longleftrightarrow> xs = ys"
proof (induction xs ys rule: list_induct2)
  case Nil
  then show ?case by simp
next
  case (Cons x xs y ys)
  then show ?case
    using bval_less [of xs] bval_less [of ys] by (cases x; cases y) auto
qed

lemma bval_append: "bval (xs @ ys) = bval xs * 2 ^ length ys + bval ys"
  by (induction xs) (auto simp: algebra_simps power_add)

lemma bval_common_prefix: "bval (p @ xs) < bval (p @ ys) \<longleftrightarrow> bval xs < bval ys"
  if "length xs = length ys"
  using that by (simp add: bval_append)

lemma bval_False_True:
  "length xs = length ys \<Longrightarrow> bval (False # xs) < bval (True # ys)"
  using bval_less [of xs] by simp

lemma cpl_commute: "cpl_bits xs ys = cpl_bits ys xs"
  by (induction xs ys rule: cpl_bits.induct) auto

lemma cpl_le: "cpl_bits xs ys \<le> length xs" "cpl_bits xs ys \<le> length ys"
  by (induction xs ys rule: cpl_bits.induct) auto

lemma cpl_self [simp]: "cpl_bits xs xs = length xs"
  by (induction xs) auto

lemma cpl_append [simp]: "cpl_bits (p @ xs) (p @ ys) = length p + cpl_bits xs ys"
  by (induction p) auto

lemma cpl_full_iff: "length xs = length ys \<Longrightarrow> cpl_bits xs ys = length xs \<longleftrightarrow> xs = ys"
  by (induction xs ys rule: list_induct2) auto

lemma take_cpl: "take (cpl_bits xs ys) xs = take (cpl_bits xs ys) ys"
  by (induction xs ys rule: cpl_bits.induct) auto

lemma cpl_ge_iff:
  assumes "n \<le> length xs" "n \<le> length ys"
  shows "n \<le> cpl_bits xs ys \<longleftrightarrow> take n xs = take n ys"
  using assms
proof (induction xs ys arbitrary: n rule: cpl_bits.induct)
  case (1 x xs y ys)
  then show ?case by (cases n) auto
qed auto

lemma nth_cpl_neq:
  assumes "cpl_bits xs ys < length xs" "cpl_bits xs ys < length ys"
  shows "xs ! cpl_bits xs ys \<noteq> ys ! cpl_bits xs ys"
  using assms by (induction xs ys rule: cpl_bits.induct) auto

lemma length_xor_bits [simp]: "length (xor_bits xs ys) = min (length xs) (length ys)"
  by (simp add: xor_bits_def)

lemma xor_bits_nth:
  "i < length xs \<Longrightarrow> i < length ys \<Longrightarrow> xor_bits xs ys ! i = (xs ! i \<noteq> ys ! i)"
  by (simp add: xor_bits_def)

lemma xor_bits_Cons [simp]:
  "xor_bits (x # xs) (y # ys) = (x \<noteq> y) # xor_bits xs ys"
  by (simp add: xor_bits_def)

lemma xor_bits_Nil [simp]: "xor_bits [] ys = []" "xor_bits xs [] = []"
  by (simp_all add: xor_bits_def)

lemma xor_bits_append:
  "length xs = length ys \<Longrightarrow>
   xor_bits (xs @ xs') (ys @ ys') = xor_bits xs ys @ xor_bits xs' ys'"
  by (induction xs ys rule: list_induct2) auto

lemma xor_bits_split:
  "n < length xs \<Longrightarrow> length ys = length xs \<Longrightarrow>
   xor_bits xs ys = xor_bits (take n xs) (take n ys) @ (xs ! n \<noteq> ys ! n) #
     xor_bits (drop (Suc n) xs) (drop (Suc n) ys)"
proof (induction n arbitrary: xs ys)
  case 0
  then show ?case by (cases xs; cases ys) auto
next
  case (Suc n)
  then show ?case by (cases xs; cases ys) auto
qed

lemma xor_bits_commute: "xor_bits xs ys = xor_bits ys xs"
  by (induction xs ys rule: list_induct2') auto

lemma xor_bits_cancel:
  "length xs = length ys \<Longrightarrow> length ys = length t \<Longrightarrow>
   xor_bits xs t = xor_bits ys t \<longleftrightarrow> xs = ys"
  by (induction xs ys t rule: list_induct3) auto

lemma xor_bits_self: "xor_bits xs xs = replicate (length xs) False"
  by (induction xs) auto

text \<open>
  The XOR metric and the common prefix agree: a longer common prefix with the target is a
  strictly smaller distance.
\<close>

lemma xor_closer_if_longer_prefix:
  assumes "length x = length t" "length y = length t" "cpl_bits y t < cpl_bits x t"
  shows "bval (xor_bits x t) < bval (xor_bits y t)"
  using assms
proof (induction t arbitrary: x y)
  case Nil
  then show ?case by simp
next
  case (Cons c cs)
  then obtain a as b bs where x: "x = a # as" and y: "y = b # bs"
    by (metis length_Suc_conv length_Cons)
  from Cons.prems have len: "length as = length cs" "length bs = length cs"
    by (auto simp: x y)
  from Cons.prems(3) have a: "a = c" by (auto simp: x y split: if_splits)
  show ?case
  proof (cases "b = c")
    case True
    with Cons.prems(3) a have "cpl_bits bs cs < cpl_bits as cs" by (simp add: x y)
    with Cons.IH [OF len] True a show ?thesis by (simp add: x y len)
  next
    case False
    then show ?thesis
      using a len bval_less [of "xor_bits as cs"] by (auto simp: x y)
  qed
qed

section \<open>Go maps\<close>

lemma delete_notin [simp]: "k \<notin> fst ` set m \<Longrightarrow> AList.delete k m = m"
  by (induction m) auto

lemma update_new: "k \<notin> fst ` set m \<Longrightarrow> AList.update k v m = m @ [(k, v)]"
  by (induction m) auto

lemma set_delete: "set (AList.delete k m) = {e \<in> set m. fst e \<noteq> k}"
  by (induction m) auto

lemma length_update:
  "length (AList.update k v m) = (if k \<in> fst ` set m then length m else Suc (length m))"
  by (induction m) auto

lemma length_delete_distinct:
  assumes "distinct (map fst m)"
  shows "length (AList.delete k m) = (if k \<in> fst ` set m then length m - 1 else length m)"
  using assms
proof (induction m)
  case Nil
  then show ?case by simp
next
  case (Cons kv m)
  then show ?case
    by (cases "fst kv = k"; cases m) (auto simp: image_iff)
qed

lemma distinct_delete_keys: "distinct (map fst m) \<Longrightarrow> distinct (map fst (AList.delete k m))"
  by (rule distinct_delete)

lemma keys_update: "fst ` set (AList.update k v m) = insert k (fst ` set m)"
  by (simp add: dom_update)

lemma keys_delete: "fst ` set (AList.delete k m) = fst ` set m - {k}"
  by (induction m) auto

lemmas gomap = update_conv' delete_conv' keys_update keys_delete length_update
  length_delete_distinct distinct_update distinct_delete_keys

section \<open>Options and lists\<close>

lemma bind_eq_Some: "Option.bind m f = Some y \<longleftrightarrow> (\<exists>x. m = Some x \<and> f x = Some y)"
  by (cases m) auto

lemma map_of_filter_neq: "map_of (filter (\<lambda>e. fst e \<noteq> k) xs) = (map_of xs)(k := None)"
  by (induction xs) (auto simp: fun_eq_iff)

lemma map_of_mset_eq:
  assumes "distinct (map fst xs)" "distinct (map fst ys)" "set xs = set ys"
  shows "map_of xs = map_of ys"
proof
  show "map_of xs k = map_of ys k" for k
    using assms map_of_eq_Some_iff [of xs k] map_of_eq_Some_iff [of ys k]
    by (cases "map_of xs k"; cases "map_of ys k") auto
qed

lemma sort_key_append_less:
  fixes f :: "'a \<Rightarrow> 'b::linorder"
  assumes "\<forall>x \<in> set xs. \<forall>y \<in> set ys. f x < f y"
  shows "sort_key f (xs @ ys) = sort_key f xs @ sort_key f ys"
    and "sort_key f (ys @ xs) = sort_key f xs @ sort_key f ys"
proof -
  have s: "sorted (map f (sort_key f xs @ sort_key f ys))"
    using assms by (auto simp: sorted_append less_imp_le)
  have none: "filter (\<lambda>x. f k = f x) ys = []" if "k \<in> set xs" for k
    using assms that by (metis (mono_tags, lifting) filter_False less_irrefl)
  have none': "filter (\<lambda>x. f k = f x) xs = []" if "k \<in> set ys" for k
    using assms that by (metis (mono_tags, lifting) filter_False less_irrefl)
  have st: "filter (\<lambda>x. f k = f x) (sort_key f zs) = filter (\<lambda>x. f k = f x) zs" for k zs
    using sort_key_stable [of f "f k" zs] by (simp add: eq_commute)
  show "sort_key f (xs @ ys) = sort_key f xs @ sort_key f ys"
    by (rule properties_for_sort_key [OF _ _ s]) (auto simp: st)
  show "sort_key f (ys @ xs) = sort_key f xs @ sort_key f ys"
    by (rule properties_for_sort_key [OF _ _ s]) (auto simp: st none none' dest: none none')
qed

end
