(* ===== verification/Kad_Key.thy ===== *)
theory Kad_Key
  imports Kad_Prelude
begin

unbundle bit_operations_syntax

text \<open>
  The interfaces of \<open>kad/kad.go\<close> and the generic key operations of \<open>key/op.go\<close>.

  Go's type parameter \<open>K kad.Key[K]\<close> becomes a dictionary: a value of the record \<open>Key\<close> holds the
  methods of the key type and is the first argument of every generic definition. A method that
  can panic has an \<open>option\<close> result. The locale \<open>kad_key\<close> states what \<open>kad/kad.go\<close> promises of
  the methods, in terms of the bit string of a key, for the keys that satisfy \<open>valid\<close>; the
  theory \<open>Key_Types\<close> interprets it for the key types of \<open>key/key.go\<close>.
\<close>

section \<open>The interfaces of kad.go\<close>

text \<open>
  \<open>BitLen\<close>, \<open>Bit\<close>, \<open>Xor\<close>, \<open>CommonPrefixLength\<close> and \<open>Compare\<close> are the methods of the interface;
  \<open>bitStringM\<close> and \<open>hexStringM\<close> are the optional methods that \<open>key/op.go\<close> looks for with a type
  assertion (\<open>None\<close>: the key type does not have the method).
\<close>

record 'k Key =
  BitLen :: "'k \<Rightarrow> int"
  Bit :: "'k \<Rightarrow> int \<Rightarrow> nat option"
  Xor :: "'k \<Rightarrow> 'k \<Rightarrow> 'k"
  CommonPrefixLength :: "'k \<Rightarrow> 'k \<Rightarrow> int"
  Compare :: "'k \<Rightarrow> 'k \<Rightarrow> int option"
  bitStringM :: "('k \<Rightarrow> string) option"
  hexStringM :: "('k \<Rightarrow> string) option"

text \<open>
  A \<open>NodeID\<close> is observed through its two methods only, a \<open>NodeInfo\<close> through \<open>ID\<close> and
  \<open>Addresses\<close>, a \<open>Response\<close> through \<open>CloserNodes\<close>; each is the record of what they return.
\<close>

record 'k NodeID =
  nodeKey :: 'k
  nodeString :: string

record ('k, 'a) NodeInfo =
  infoID :: "'k NodeID"
  infoAddresses :: "'a list"

record ('k, 'a) Response =
  CloserNodes :: "('k, 'a) NodeInfo list"

text \<open>The error of \<open>kaderr/errors.go\<close> that a configuration fails its validation with; the error it
  wraps is its message, or nil.\<close>

datatype ConfigurationError = ConfigurationError (errComponent: string) (errErr: "string option")

definition ConfigurationError_Error :: "ConfigurationError \<Rightarrow> string" where
  "ConfigurationError_Error e =
     (case errErr e of
        None \<Rightarrow> ''configuration error: '' @ errComponent e
      | Some m \<Rightarrow> ''configuration error: '' @ errComponent e @ '': '' @ m)"

definition ConfigurationError_Unwrap :: "ConfigurationError \<Rightarrow> string option" where
  "ConfigurationError_Unwrap e = errErr e"

text \<open>A clock is opaque: its reading is the argument \<open>now\<close> of the operations that read it.\<close>

datatype Clock = Clock

section \<open>The operations of op.go\<close>

definition Equal :: "'k Key \<Rightarrow> 'k \<Rightarrow> 'k \<Rightarrow> bool option" where
  "Equal K a b = do { c \<leftarrow> Compare K a b; Some (c = 0) }"

definition NodeEqual :: "'k Key \<Rightarrow> 'k NodeID \<Rightarrow> 'k NodeID \<Rightarrow> bool option" where
  "NodeEqual K this that = do { c \<leftarrow> Compare K (nodeKey this) (nodeKey that); Some (c = 0) }"

text \<open>The loop of \<open>BitString\<close>, from index \<open>i\<close>.\<close>

function bitStringLoop :: "'k Key \<Rightarrow> 'k \<Rightarrow> int \<Rightarrow> string option" where
  "bitStringLoop K k i =
     (if i < BitLen K k then do {
        b \<leftarrow> Bit K k i;
        rest \<leftarrow> bitStringLoop K k (i + 1);
        Some ((if b = 0 then CHR ''0'' else CHR ''1'') # rest)
      } else Some [])"
  by pat_completeness auto
termination
  by (relation "measure (\<lambda>(K, k, i). nat (BitLen K k - i))") auto

declare bitStringLoop.simps [simp del]

definition BitString :: "'k Key \<Rightarrow> 'k \<Rightarrow> string option" where
  "BitString K k =
     (case bitStringM K of Some bs \<Rightarrow> Some (bs k) | None \<Rightarrow> bitStringLoop K k 0)"

definition hexTable :: string where
  "hexTable = ''0123456789abcdef''"

definition hexDigit :: "8 word \<Rightarrow> char option" where
  "hexDigit n = (if unat n < 16 then Some (hexTable ! unat n) else None)"

text \<open>The initial nibble: \<open>n <<= 1; n |= byte(k.Bit(i))\<close> for the given indices.\<close>

fun hexPrefixLoop :: "'k Key \<Rightarrow> 'k \<Rightarrow> int list \<Rightarrow> 8 word \<Rightarrow> 8 word option" where
  "hexPrefixLoop K k [] n = Some n"
| "hexPrefixLoop K k (i # is) n = do {
     b \<leftarrow> Bit K k i;
     hexPrefixLoop K k is (push_bit 1 n OR word_of_nat b)
   }"

text \<open>The whole nibbles, four bits at a time.\<close>

function hexLoop :: "'k Key \<Rightarrow> 'k \<Rightarrow> int \<Rightarrow> string option" where
  "hexLoop K k i =
     (if i < BitLen K k then do {
        b3 \<leftarrow> Bit K k i;
        b2 \<leftarrow> Bit K k (i + 1);
        b1 \<leftarrow> Bit K k (i + 2);
        b0 \<leftarrow> Bit K k (i + 3);
        let n = ((push_bit 3 (word_of_nat b3) OR push_bit 2 (word_of_nat b2)
                 OR push_bit 1 (word_of_nat b1) OR word_of_nat b0) :: 8 word);
        c \<leftarrow> hexDigit n;
        rest \<leftarrow> hexLoop K k (i + 4);
        Some (c # rest)
      } else Some [])"
  by pat_completeness auto
termination
  by (relation "measure (\<lambda>(K, k, i). nat (BitLen K k - i))") auto

declare hexLoop.simps [simp del]

definition HexString :: "'k Key \<Rightarrow> 'k \<Rightarrow> string option" where
  "HexString K k =
     (case hexStringM K of
        Some hs \<Rightarrow> Some (hs k)
      | None \<Rightarrow>
          let prebits = BitLen K k mod 4 in
          if prebits > 0 then do {
            b \<leftarrow> Bit K k 0;
            n \<leftarrow> hexPrefixLoop K k [1..prebits - 1] (0 OR word_of_nat b);
            c \<leftarrow> hexDigit n;
            rest \<leftarrow> hexLoop K k prebits;
            Some (c # rest)
          } else hexLoop K k prebits)"

text \<open>
  \<open>sort.IsSorted\<close> over \<open>KeyList\<close>: from the last index down to 1, fail when an element is less
  than the one before it.
\<close>

definition KeyListLess :: "'k Key \<Rightarrow> 'k list \<Rightarrow> nat \<Rightarrow> nat \<Rightarrow> bool option" where
  "KeyListLess K ks i j =
     (if i < length ks \<and> j < length ks then do { c \<leftarrow> Compare K (ks ! i) (ks ! j); Some (c < 0) }
      else None)"

fun isSortedFrom :: "'k Key \<Rightarrow> 'k list \<Rightarrow> nat \<Rightarrow> bool option" where
  "isSortedFrom K ks 0 = Some True"
| "isSortedFrom K ks (Suc i) = do {
     lt \<leftarrow> KeyListLess K ks (Suc i) i;
     if lt then Some False else isSortedFrom K ks i
   }"

definition IsSorted :: "'k Key \<Rightarrow> 'k list \<Rightarrow> bool option" where
  "IsSorted K ks = isSortedFrom K ks (length ks - 1)"

section \<open>The contract of a key type\<close>

locale kad_key =
  fixes K :: "'k Key"
    and valid :: "'k \<Rightarrow> bool"
    and len :: nat
    and bits :: "'k \<Rightarrow> bool list"
  assumes BitLen_law [key_laws]: "valid k \<Longrightarrow> BitLen K k = int len"
    and length_bits [key_laws]: "valid k \<Longrightarrow> length (bits k) = len"
    and Bit_law: "valid k \<Longrightarrow> i < len \<Longrightarrow> Bit K k (int i) = Some (of_bool (bits k ! i))"
    and Bit_panic: "valid k \<Longrightarrow> j < 0 \<or> int len \<le> j \<Longrightarrow> Bit K k j = None"
    and Xor_valid [key_laws]: "valid a \<Longrightarrow> valid b \<Longrightarrow> valid (Xor K a b)"
    and Xor_law [key_laws]:
      "valid a \<Longrightarrow> valid b \<Longrightarrow> bits (Xor K a b) = xor_bits (bits a) (bits b)"
    and CommonPrefixLength_law [key_laws]:
      "valid a \<Longrightarrow> valid b \<Longrightarrow> CommonPrefixLength K a b = int (cpl_bits (bits a) (bits b))"
    and Compare_law [key_laws]:
      "valid a \<Longrightarrow> valid b \<Longrightarrow>
       Compare K a b = Some (sgn (int (bval (bits a)) - int (bval (bits b))))"
    and bits_inj: "valid a \<Longrightarrow> valid b \<Longrightarrow> bits a = bits b \<Longrightarrow> a = b"
begin

text \<open>The numeric value of a key and the XOR distance of two keys.\<close>

definition kval :: "'k \<Rightarrow> nat" where
  "kval k = bval (bits k)"

definition dist :: "'k \<Rightarrow> 'k \<Rightarrow> nat" where
  "dist a b = bval (xor_bits (bits a) (bits b))"

lemma kval_eq_iff: "valid a \<Longrightarrow> valid b \<Longrightarrow> kval a = kval b \<longleftrightarrow> a = b"
  using bits_inj by (auto simp: kval_def bval_eq_iff length_bits)

lemma Equal_law [key_laws]: "valid a \<Longrightarrow> valid b \<Longrightarrow> Equal K a b = Some (a = b)"
  using kval_eq_iff by (auto simp: Equal_def Compare_law kval_def sgn_if)

lemma bits_eq_iff: "valid a \<Longrightarrow> valid b \<Longrightarrow> bits a = bits b \<longleftrightarrow> a = b"
  using bits_inj by auto

lemma dist_eq_kval_Xor: "valid a \<Longrightarrow> valid b \<Longrightarrow> dist a b = kval (Xor K a b)"
  by (simp add: dist_def kval_def Xor_law)

lemma dist_zero_iff: "valid a \<Longrightarrow> valid b \<Longrightarrow> dist a b = 0 \<longleftrightarrow> a = b"
proof -
  assume v: "valid a" "valid b"
  have "dist a b = 0 \<longleftrightarrow> bval (xor_bits (bits a) (bits b)) = bval (xor_bits (bits b) (bits b))"
    by (simp add: dist_def xor_bits_self)
  also have "\<dots> \<longleftrightarrow> a = b"
    using v by (simp add: bval_eq_iff length_bits xor_bits_cancel bits_eq_iff)
  finally show ?thesis .
qed

lemma dist_commute: "dist a b = dist b a"
  by (simp add: dist_def xor_bits_commute)

text \<open>Distinct keys have distinct distances to any target.\<close>

lemma dist_inj: "valid a \<Longrightarrow> valid b \<Longrightarrow> valid t \<Longrightarrow> dist a t = dist b t \<longleftrightarrow> a = b"
  by (simp add: dist_def bval_eq_iff length_bits xor_bits_cancel bits_eq_iff)

lemma dist_less_if_cpl:
  "valid a \<Longrightarrow> valid b \<Longrightarrow> valid t \<Longrightarrow> cpl_bits (bits b) (bits t) < cpl_bits (bits a) (bits t) \<Longrightarrow>
   dist a t < dist b t"
  by (simp add: dist_def xor_closer_if_longer_prefix length_bits)

lemma Bit_cases:
  "valid k \<Longrightarrow> i < len \<Longrightarrow> Bit K k (int i) = Some (if bits k ! i then 1 else 0)"
  by (simp add: Bit_law)

lemma bitStringLoop_law:
  assumes "valid k" "i \<le> len"
  shows "bitStringLoop K k (int i) =
    Some (map (\<lambda>b. if b then CHR ''1'' else CHR ''0'') (drop i (bits k)))"
  using assms(2)
proof (induction rule: inc_induct)
  case base
  then show ?case
    using assms(1) by (subst bitStringLoop.simps) (simp add: key_laws)
next
  case (step i)
  then have "drop i (bits k) = bits k ! i # drop (Suc i) (bits k)"
    using assms(1) by (simp add: Cons_nth_drop_Suc length_bits)
  with step assms(1) show ?case
    by (subst bitStringLoop.simps) (simp add: key_laws Bit_law add.commute)
qed

lemma isSortedFrom_law:
  assumes "\<forall>k \<in> set ks. valid k" "i < length ks"
  shows "isSortedFrom K ks i = Some (sorted (map kval (take (Suc i) ks)))"
  using assms(2)
proof (induction i)
  case 0
  then show ?case by (cases ks) auto
next
  case (Suc i)
  then have v: "valid (ks ! Suc i)" "valid (ks ! i)" and i: "i < length ks"
    using assms(1) by auto
  have tk: "take (Suc (Suc i)) ks = take (Suc i) ks @ [ks ! Suc i]"
    using Suc.prems by (rule take_Suc_conv_app_nth)
  have last: "ks ! i \<in> set (take (Suc i) ks)"
    using i by (auto simp: in_set_conv_nth intro: exI [of _ i])
  have hd: "sorted (map kval (take (Suc i) ks)) \<Longrightarrow> x \<in> set (take (Suc i) ks) \<Longrightarrow>
      kval x \<le> kval (ks ! i)" for x
  proof -
    assume s: "sorted (map kval (take (Suc i) ks))" and x: "x \<in> set (take (Suc i) ks)"
    from x obtain j where "j < Suc i" "j < length ks" "x = ks ! j"
      by (auto simp: in_set_conv_nth)
    with s i show "kval x \<le> kval (ks ! i)"
      using sorted_nth_mono [OF s, of j i] by simp
  qed
  have "sorted (map kval (take (Suc (Suc i)) ks)) \<longleftrightarrow> sorted (map kval (take (Suc i) ks)) \<and>
      (\<forall>x \<in> set (take (Suc i) ks). kval x \<le> kval (ks ! Suc i))"
    unfolding tk map_append sorted_append by simp
  then have eq: "sorted (map kval (take (Suc (Suc i)) ks)) \<longleftrightarrow>
      sorted (map kval (take (Suc i) ks)) \<and> kval (ks ! i) \<le> kval (ks ! Suc i)"
    using hd last by (meson order_trans)
  show ?case
    unfolding eq using Suc.IH [OF i] v Suc.prems i
    by (auto simp: KeyListLess_def Compare_law kval_def [symmetric] sgn_if simp del: take_Suc)
qed

end

text \<open>
  Some components use the hexadecimal string of a key as the key of a Go map. They rely on it
  being defined and injective.
\<close>

locale kad_key_hex = kad_key K valid len bits
  for K :: "'k Key" and valid len bits +
  assumes HexString_defined: "valid k \<Longrightarrow> \<exists>s. HexString K k = Some s"
    and HexString_inj:
      "valid a \<Longrightarrow> valid b \<Longrightarrow> HexString K a = HexString K b \<Longrightarrow> a = b"
begin

definition hex :: "'k \<Rightarrow> string" where
  "hex k = the (HexString K k)"

lemma HexString_hex [key_laws]: "valid k \<Longrightarrow> HexString K k = Some (hex k)"
  using HexString_defined by (force simp: hex_def)

lemma HexString_eq_hex: "valid k \<Longrightarrow> HexString K k = Some s \<longleftrightarrow> s = hex k"
  by (auto simp: HexString_hex)

lemma hex_inj: "valid a \<Longrightarrow> valid b \<Longrightarrow> hex a = hex b \<longleftrightarrow> a = b"
  using HexString_inj by (auto simp: HexString_hex)

end

end
