(* ===== verification/Key_Types.thy ===== *)
theory Key_Types
  imports Kad_Key
begin

unbundle bit_operations_syntax

text \<open>
  The key types of \<open>key/key.go\<close>: \<open>Key8\<close> and \<open>Key32\<close> (machine words) and \<open>Key256\<close> (a pointer,
  possibly nil, to 32 bytes), each with the dictionary of its methods and an interpretation of
  the locale \<open>kad_key_hex\<close>. Every \<open>Key8\<close> and every \<open>Key32\<close> satisfies the contract; a \<open>Key256\<close>
  does when its pointer is not nil.
\<close>

section \<open>The standard library that key.go uses\<close>

text \<open>\<open>fmt\<close>'s verbs \<open>x\<close> and \<open>b\<close> on unsigned numbers, and padding with zeros to a width.\<close>

fun digitsBase :: "nat \<Rightarrow> nat \<Rightarrow> string" where
  "digitsBase b n =
     (if b < 2 \<or> n < b then [hexTable ! (n mod 16)]
      else digitsBase b (n div b) @ [hexTable ! (n mod b)])"

declare digitsBase.simps [simp del]

definition padZero :: "nat \<Rightarrow> string \<Rightarrow> string" where
  "padZero w s = replicate (w - length s) CHR ''0'' @ s"

text \<open>\<open>hex.EncodeToString\<close>: two digits for a byte.\<close>

definition EncodeToString :: "8 word list \<Rightarrow> string" where
  "EncodeToString bs =
     concat (map (\<lambda>b. [hexTable ! (unat b div 16), hexTable ! (unat b mod 16)]) bs)"

text \<open>\<open>bytes.Compare\<close>: lexicographic.\<close>

fun bytesCompare :: "8 word list \<Rightarrow> 8 word list \<Rightarrow> int" where
  "bytesCompare [] [] = 0"
| "bytesCompare [] (y # ys) = -1"
| "bytesCompare (x # xs) [] = 1"
| "bytesCompare (x # xs) (y # ys) =
     (if x < y then -1 else if y < x then 1 else bytesCompare xs ys)"

text \<open>\<open>int(math.Log2(float64(x)))\<close> for \<open>0 < x\<close>: the floor of the binary logarithm.\<close>

fun floorLog2 :: "nat \<Rightarrow> nat" where
  "floorLog2 n = (if n < 2 then 0 else Suc (floorLog2 (n div 2)))"

declare floorLog2.simps [simp del]

section \<open>Key8 and Key32\<close>

type_synonym key8 = "8 word"
type_synonym key32 = "32 word"

text \<open>The loop of both \<open>CommonPrefixLength\<close> methods, with \<open>i\<close> counting down.\<close>

fun cplLoop :: "nat \<Rightarrow> 'w::len word \<Rightarrow> 'w word \<Rightarrow> nat" where
  "cplLoop 0 a b = 0"
| "cplLoop (Suc i) a b =
     (if a = b then Suc i else cplLoop i (drop_bit 1 a) (drop_bit 1 b))"

definition Key8_BitLen :: "key8 \<Rightarrow> int" where
  "Key8_BitLen k = 8"

definition Key8_Bit :: "key8 \<Rightarrow> int \<Rightarrow> nat option" where
  "Key8_Bit k i =
     (if i < 0 \<or> i > 7 then None else Some (unat (drop_bit (nat (7 - i)) k AND 1)))"

definition Key8_Xor :: "key8 \<Rightarrow> key8 \<Rightarrow> key8" where
  "Key8_Xor k o' = k XOR o'"

definition Key8_CommonPrefixLength :: "key8 \<Rightarrow> key8 \<Rightarrow> int" where
  "Key8_CommonPrefixLength k o' = int (cplLoop 8 k o')"

definition Key8_Compare :: "key8 \<Rightarrow> key8 \<Rightarrow> int option" where
  "Key8_Compare k o' = Some (if k < o' then -1 else if k > o' then 1 else 0)"

definition Key8_HexString :: "key8 \<Rightarrow> string" where
  "Key8_HexString k = digitsBase 16 (unat k)"

definition Key8_BitString :: "key8 \<Rightarrow> string" where
  "Key8_BitString k = padZero 8 (digitsBase 2 (unat k))"

definition Key8 :: "key8 Key" where
  "Key8 = \<lparr>BitLen = Key8_BitLen, Bit = Key8_Bit, Xor = Key8_Xor,
     CommonPrefixLength = Key8_CommonPrefixLength, Compare = Key8_Compare,
     bitStringM = Some Key8_BitString, hexStringM = Some Key8_HexString\<rparr>"

definition Key32_BitLen :: "key32 \<Rightarrow> int" where
  "Key32_BitLen k = 32"

definition Key32_Bit :: "key32 \<Rightarrow> int \<Rightarrow> nat option" where
  "Key32_Bit k i =
     (if i < 0 \<or> i > 31 then None else Some (unat (drop_bit (nat (31 - i)) k AND 1)))"

definition Key32_Xor :: "key32 \<Rightarrow> key32 \<Rightarrow> key32" where
  "Key32_Xor k o' = k XOR o'"

definition Key32_CommonPrefixLength :: "key32 \<Rightarrow> key32 \<Rightarrow> int" where
  "Key32_CommonPrefixLength k o' = int (cplLoop 32 k o')"

definition Key32_Compare :: "key32 \<Rightarrow> key32 \<Rightarrow> int option" where
  "Key32_Compare k o' = Some (if k < o' then -1 else if k > o' then 1 else 0)"

definition Key32_HexString :: "key32 \<Rightarrow> string" where
  "Key32_HexString k = padZero 4 (digitsBase 16 (unat k))"

definition Key32_BitString :: "key32 \<Rightarrow> string" where
  "Key32_BitString k = padZero 32 (digitsBase 2 (unat k))"

definition Key32 :: "key32 Key" where
  "Key32 = \<lparr>BitLen = Key32_BitLen, Bit = Key32_Bit, Xor = Key32_Xor,
     CommonPrefixLength = Key32_CommonPrefixLength, Compare = Key32_Compare,
     bitStringM = Some Key32_BitString, hexStringM = Some Key32_HexString\<rparr>"

section \<open>Key256\<close>

text \<open>The struct holds a pointer to an array of 32 bytes; \<open>None\<close> is the nil pointer.\<close>

datatype key256 = Key256Ptr (key256_b: "8 word list option")

definition NewKey256 :: "8 word list \<Rightarrow> key256 option" where
  "NewKey256 data = (if length data \<noteq> 32 then None else Some (Key256Ptr (Some data)))"

definition ZeroKey256 :: key256 where
  "ZeroKey256 = Key256Ptr (Some (replicate 32 0))"

definition Key256_BitLen :: "key256 \<Rightarrow> int" where
  "Key256_BitLen k = 256"

definition Key256_Bit :: "key256 \<Rightarrow> int \<Rightarrow> nat option" where
  "Key256_Bit k i =
     (if i < 0 \<or> i > 255 then None
      else (case key256_b k of
              None \<Rightarrow> Some 0
            | Some b \<Rightarrow>
                if (b ! nat (i div 8)) AND push_bit (nat (7 - i mod 8)) 1 = 0
                then Some 0 else Some 1))"

definition Key256_Xor :: "key256 \<Rightarrow> key256 \<Rightarrow> key256" where
  "Key256_Xor k o' = Key256Ptr (Some
     (case (key256_b k, key256_b o') of
        (Some x, Some y) \<Rightarrow> map2 (XOR) x y
      | (Some x, None) \<Rightarrow> x
      | (None, Some y) \<Rightarrow> y
      | (None, None) \<Rightarrow> replicate 32 0))"

fun cplBytes :: "nat \<Rightarrow> 8 word list \<Rightarrow> 8 word list \<Rightarrow> int" where
  "cplBytes i (k # ks) (p # ps) =
     (let x = k XOR p in
      if x \<noteq> 0 then int (i * 8 + 7) - int (floorLog2 (unat x)) else cplBytes (Suc i) ks ps)"
| "cplBytes i _ _ = 256"

definition Key256_CommonPrefixLength :: "key256 \<Rightarrow> key256 \<Rightarrow> int" where
  "Key256_CommonPrefixLength k o' =
     (case (key256_b k, key256_b o') of
        (Some x, Some y) \<Rightarrow> cplBytes 0 x y
      | _ \<Rightarrow> 256)"

definition Key256_Compare :: "key256 \<Rightarrow> key256 \<Rightarrow> int option" where
  "Key256_Compare k o' =
     (case (key256_b k, key256_b o') of
        (Some x, Some y) \<Rightarrow> Some (bytesCompare x y)
      | (None, Some y) \<Rightarrow> Some (bytesCompare (replicate 32 0) y)
      | (None, None) \<Rightarrow> None
      | (Some x, None) \<Rightarrow> Some (bytesCompare (replicate 32 0) x))"

definition Key256_HexString :: "key256 \<Rightarrow> string" where
  "Key256_HexString k = (case key256_b k of None \<Rightarrow> [] | Some b \<Rightarrow> EncodeToString b)"

definition Key256_MarshalBinary :: "key256 \<Rightarrow> 8 word list" where
  "Key256_MarshalBinary k = (case key256_b k of None \<Rightarrow> replicate 32 0 | Some b \<Rightarrow> b)"

definition Key256 :: "key256 Key" where
  "Key256 = \<lparr>BitLen = Key256_BitLen, Bit = Key256_Bit, Xor = Key256_Xor,
     CommonPrefixLength = Key256_CommonPrefixLength, Compare = Key256_Compare,
     bitStringM = None, hexStringM = Some Key256_HexString\<rparr>"

text \<open>A key made by \<open>NewKey256\<close>, \<open>ZeroKey256\<close> or \<open>Xor\<close>: its pointer is not nil.\<close>

definition valid256 :: "key256 \<Rightarrow> bool" where
  "valid256 k = (case key256_b k of None \<Rightarrow> False | Some b \<Rightarrow> length b = 32)"

section \<open>The bit string of a word\<close>

definition word_bits :: "'w::len word \<Rightarrow> bool list" where
  "word_bits w = rev (map (bit w) [0..<LENGTH('w)])"

definition bits256 :: "key256 \<Rightarrow> bool list" where
  "bits256 k = (case key256_b k of None \<Rightarrow> [] | Some b \<Rightarrow> concat (map word_bits b))"

lemma length_word_bits [simp]: "length (word_bits (w :: 'w::len word)) = LENGTH('w)"
  by (simp add: word_bits_def)

lemma word_bits_nth:
  "i < LENGTH('w) \<Longrightarrow> word_bits (w :: 'w::len word) ! i = bit w (LENGTH('w) - Suc i)"
  by (simp add: word_bits_def rev_nth)

lemma bval_bits_nat: "bval (rev (map (bit (m::nat)) [0..<n])) = take_bit n m"
  by (induction n) (auto simp: take_bit_Suc_from_most)

lemma bval_word_bits [simp]: "bval (word_bits (w :: 'w::len word)) = unat w"
proof -
  have "word_bits w = rev (map (bit (unat w)) [0..<LENGTH('w)])"
    by (auto simp: word_bits_def bit_unsigned_iff)
  then show ?thesis by (simp add: bval_bits_nat take_bit_nat_eq_self)
qed

lemma word_bits_inj: "word_bits v = word_bits (w :: 'w::len word) \<longleftrightarrow> v = w"
  by (metis bval_word_bits word_unat_eq_iff)

lemma word_bits_xor:
  "word_bits (v XOR w) = xor_bits (word_bits v) (word_bits (w :: 'w::len word))"
  by (rule nth_equalityI) (auto simp: word_bits_nth xor_bits_nth bit_xor_iff)

lemma drop_bit_eq_iff_take_word_bits:
  assumes "i \<le> LENGTH('w)"
  shows "drop_bit (LENGTH('w) - i) v = drop_bit (LENGTH('w) - i) (w :: 'w::len word) \<longleftrightarrow>
    take i (word_bits v) = take i (word_bits w)"
    (is "?L \<longleftrightarrow> ?R")
proof
  assume ?L
  then have "bit v (LENGTH('w) - i + j) = bit w (LENGTH('w) - i + j)" for j
    by (metis bit_drop_bit_eq comp_apply)
  then have "bit v m = bit w m" if "LENGTH('w) - i \<le> m" for m
    using that by (metis le_add_diff_inverse)
  with assms show ?R
    by (auto intro!: nth_equalityI simp: word_bits_nth)
next
  assume R: ?R
  have "bit v m = bit w m" if "LENGTH('w) - i \<le> m" "m < LENGTH('w)" for m
  proof -
    let ?j = "LENGTH('w) - Suc m"
    have "?j < i" using that assms by auto
    then have "word_bits v ! ?j = word_bits w ! ?j"
      using R by (metis nth_take)
    with that show ?thesis by (simp add: word_bits_nth)
  qed
  then have "bit v (LENGTH('w) - i + n) = bit w (LENGTH('w) - i + n)" for n
    by (metis bit_imp_le_length le_add1)
  then show ?L
    by (intro bit_word_eqI) (auto simp: bit_drop_bit_eq)
qed

lemma cplLoop_shifted:
  fixes v w :: "'w::len word"
  assumes "i \<le> LENGTH('w)" "cpl_bits (word_bits v) (word_bits w) \<le> i"
  shows "cplLoop i (drop_bit (LENGTH('w) - i) v) (drop_bit (LENGTH('w) - i) w) =
    cpl_bits (word_bits v) (word_bits w)"
  using assms
proof (induction i)
  case 0
  then show ?case by simp
next
  case (Suc i)
  have eq: "drop_bit (LENGTH('w) - Suc i) v = drop_bit (LENGTH('w) - Suc i) w \<longleftrightarrow>
      Suc i \<le> cpl_bits (word_bits v) (word_bits w)"
    using Suc.prems(1) by (subst drop_bit_eq_iff_take_word_bits) (auto simp: cpl_ge_iff)
  have shift: "drop_bit (Suc 0) (drop_bit (LENGTH('w) - Suc i) u) = drop_bit (LENGTH('w) - i) u"
    for u :: "'w word"
    using Suc.prems(1) by (simp add: Suc_diff_Suc)
  show ?case
    using Suc.prems Suc.IH by (simp add: eq shift del: drop_bit_drop_bit)
qed

lemma cplLoop_word_bits:
  "cplLoop (LENGTH('w)) v w = cpl_bits (word_bits v) (word_bits (w :: 'w::len word))"
  using cplLoop_shifted [of "LENGTH('w)" v w] cpl_le(1) [of "word_bits v" "word_bits w"] by simp

lemma unat_drop_bit_and_1: "unat (drop_bit n w AND 1) = of_bool (bit (w :: 'w::len word) n)"
  by (simp add: and_one_eq mod_2_eq_odd bit_iff_odd_drop_bit)

lemma word_Bit_law:
  fixes w :: "'w::len word"
  assumes "i < LENGTH('w)" "n = LENGTH('w) - Suc i"
  shows "unat (drop_bit n w AND 1) = of_bool (word_bits w ! i)"
  using assms by (simp add: unat_drop_bit_and_1 word_bits_nth)

lemma word_Compare_law:
  "(if v < w then -1 else if v > w then 1 else 0 :: int) =
   sgn (int (bval (word_bits v)) - int (bval (word_bits (w :: 'w::len word))))"
  by (auto simp: word_less_def sgn_if word_uint_eq_iff)

section \<open>Strings of digits\<close>

definition digitVal :: "char \<Rightarrow> nat" where
  "digitVal c = length (takeWhile (\<lambda>x. x \<noteq> c) hexTable)"

text \<open>The number a string of digits denotes: the inverse of the formatting verbs.\<close>

definition parseBase :: "nat \<Rightarrow> string \<Rightarrow> nat" where
  "parseBase b s = foldl (\<lambda>n c. n * b + digitVal c) 0 s"

lemma digitVal_hexTable [simp]: "n < 16 \<Longrightarrow> digitVal (hexTable ! n) = n"
proof -
  have "\<forall>n < 16. digitVal (hexTable ! n) = n" by code_simp
  then show "n < 16 \<Longrightarrow> ?thesis" by blast
qed

lemma parseBase_snoc [simp]: "parseBase b (s @ [c]) = parseBase b s * b + digitVal c"
  by (simp add: parseBase_def)

lemma parse_digitsBase:
  assumes "2 \<le> b" "b \<le> 16"
  shows "parseBase b (digitsBase b n) = n"
proof (induction n rule: less_induct)
  case (less n)
  show ?case
  proof (cases "n < b")
    case True
    with assms have "n < 16" by simp
    with True show ?thesis
      by (subst digitsBase.simps) (simp add: parseBase_def)
  next
    case False
    with assms have "n div b < n" "n mod b < 16"
      by (auto intro: less_le_trans [OF mod_less_divisor])
    with False assms less show ?thesis
      by (subst digitsBase.simps) simp
  qed
qed

lemma digitVal_0 [simp]: "digitVal CHR ''0'' = 0"
  by code_simp

lemma parse_padZero [simp]: "parseBase b (padZero w s) = parseBase b s"
proof -
  have "foldl (\<lambda>n c. n * b + digitVal c) 0 (replicate m CHR ''0'') = 0" for m
    by (induction m) auto
  then show ?thesis by (simp add: parseBase_def padZero_def)
qed

lemma EncodeToString_Cons:
  "EncodeToString (x # xs) =
     [hexTable ! (unat x div 16), hexTable ! (unat x mod 16)] @ EncodeToString xs"
  by (simp add: EncodeToString_def)

lemma EncodeToString_inj: "EncodeToString xs = EncodeToString ys \<Longrightarrow> xs = ys"
proof (induction xs ys rule: list_induct2')
  case (4 x xs y ys)
  have lt: "unat (b :: 8 word) div 16 < 16" for b
    using bval_less [of "word_bits b"] by (simp add: less_mult_imp_div_less)
  from 4(2) have "hexTable ! (unat x div 16) = hexTable ! (unat y div 16)"
    "hexTable ! (unat x mod 16) = hexTable ! (unat y mod 16)"
    and "EncodeToString xs = EncodeToString ys"
    by (simp_all add: EncodeToString_Cons)
  moreover from this lt have "unat x div 16 = unat y div 16" "unat x mod 16 = unat y mod 16"
    by (metis digitVal_hexTable, metis digitVal_hexTable mod_less_divisor zero_less_numeral)
  ultimately show ?case
    using 4(1) by (metis div_mult_mod_eq word_unat_eq_iff)
qed (auto simp: EncodeToString_def)

section \<open>Key8 and Key32 satisfy the contract\<close>

interpretation key8: kad_key_hex Key8 "\<lambda>_. True" 8 word_bits
proof
  fix k :: key8 and i :: nat
  assume "i < 8"
  moreover from this have "nat (7 - int i) = 8 - Suc i" by linarith
  ultimately show "Bit Key8 k (int i) = Some (of_bool (word_bits k ! i))"
    using word_Bit_law [of i "8 - Suc i" k] by (simp add: Key8_def Key8_Bit_def)
next
  fix a b :: key8
  show "CommonPrefixLength Key8 a b = int (cpl_bits (word_bits a) (word_bits b))"
    using cplLoop_word_bits [of a b] by (simp add: Key8_def Key8_CommonPrefixLength_def)
  show "Compare Key8 a b = Some (sgn (int (bval (word_bits a)) - int (bval (word_bits b))))"
    using word_Compare_law [of a b] by (simp add: Key8_def Key8_Compare_def)
  show "HexString Key8 a = HexString Key8 b \<Longrightarrow> a = b"
    using parse_digitsBase [of 16]
    by (auto simp: HexString_def Key8_def Key8_HexString_def) (metis word_unat_eq_iff order_refl)
qed (auto simp: Key8_def Key8_BitLen_def Key8_Bit_def Key8_Xor_def HexString_def
    word_bits_xor word_bits_inj)

interpretation key32: kad_key_hex Key32 "\<lambda>_. True" 32 word_bits
proof
  fix k :: key32 and i :: nat
  assume "i < 32"
  moreover from this have "nat (31 - int i) = 32 - Suc i" by linarith
  ultimately show "Bit Key32 k (int i) = Some (of_bool (word_bits k ! i))"
    using word_Bit_law [of i "32 - Suc i" k] by (simp add: Key32_def Key32_Bit_def)
next
  fix a b :: key32
  show "CommonPrefixLength Key32 a b = int (cpl_bits (word_bits a) (word_bits b))"
    using cplLoop_word_bits [of a b] by (simp add: Key32_def Key32_CommonPrefixLength_def)
  show "Compare Key32 a b = Some (sgn (int (bval (word_bits a)) - int (bval (word_bits b))))"
    using word_Compare_law [of a b] by (simp add: Key32_def Key32_Compare_def)
  show "HexString Key32 a = HexString Key32 b \<Longrightarrow> a = b"
    using parse_digitsBase [of 16]
    by (auto simp: HexString_def Key32_def Key32_HexString_def)
      (metis parse_padZero word_unat_eq_iff)
qed (auto simp: Key32_def Key32_BitLen_def Key32_Bit_def Key32_Xor_def HexString_def
    word_bits_xor word_bits_inj)

section \<open>Key256 satisfies the contract where its pointer is not nil\<close>

lemma length_concat_word_bits [simp]:
  "length (concat (map word_bits (bs :: 8 word list))) = 8 * length bs"
  by (induction bs) auto

lemma concat_word_bits_nth:
  "i < 8 * length bs \<Longrightarrow>
   concat (map word_bits (bs :: 8 word list)) ! i = word_bits (bs ! (i div 8)) ! (i mod 8)"
proof (induction bs arbitrary: i)
  case Nil
  then show ?case by simp
next
  case (Cons b bs)
  show ?case
  proof (cases "i < 8")
    case True
    then show ?thesis by (simp add: nth_append)
  next
    case False
    then have "i div 8 = Suc ((i - 8) div 8)" "i mod 8 = (i - 8) mod 8"
      by (auto simp: div_if mod_if)
    with False Cons show ?thesis by (simp add: nth_append)
  qed
qed

lemma concat_word_bits_inj:
  "length xs = length ys \<Longrightarrow>
   concat (map word_bits (xs :: 8 word list)) = concat (map word_bits ys) \<longleftrightarrow> xs = ys"
  by (induction xs ys rule: list_induct2) (auto simp: word_bits_inj)

lemma concat_word_bits_xor:
  "length xs = length ys \<Longrightarrow>
   concat (map word_bits (map2 (XOR) xs (ys :: 8 word list))) =
     xor_bits (concat (map word_bits xs)) (concat (map word_bits ys))"
  by (induction xs ys rule: list_induct2) (auto simp: word_bits_xor xor_bits_append)

lemma bytesCompare_law:
  "length xs = length ys \<Longrightarrow>
   bytesCompare xs ys =
     sgn (int (bval (concat (map word_bits xs))) - int (bval (concat (map word_bits ys))))"
proof (induction xs ys rule: list_induct2)
  case Nil
  then show ?case by simp
next
  case (Cons x xs y ys)
  let ?X = "concat (map word_bits xs)" and ?Y = "concat (map word_bits ys)"
  have less: "bval (word_bits u @ U) < bval (word_bits v @ V)"
    if "u < v" "length U = length V" for u v :: "8 word" and U V
  proof -
    have "bval (word_bits u @ U) < (Suc (unat u)) * 2 ^ length U"
      using bval_less [of U] by (simp add: bval_append)
    also have "\<dots> \<le> unat v * 2 ^ length V"
      unfolding that(2) using that(1) by (intro mult_right_mono) (auto simp: word_less_nat_alt)
    also have "\<dots> \<le> bval (word_bits v @ V)" by (simp add: bval_append)
    finally show ?thesis .
  qed
  consider "x < y" | "y < x" | "x = y" by fastforce
  then show ?case
  proof cases
    case 1
    then show ?thesis using less [of x y ?X ?Y] Cons.hyps by (simp add: sgn_if)
  next
    case 2
    then show ?thesis using less [of y x ?Y ?X] Cons.hyps by (auto simp: sgn_if)
  next
    case 3
    then show ?thesis using Cons by (simp add: bval_append)
  qed
qed

lemma floorLog2_eq: "2 ^ n \<le> m \<Longrightarrow> m < 2 ^ Suc n \<Longrightarrow> floorLog2 m = n"
proof (induction n arbitrary: m)
  case 0
  then show ?case by (subst floorLog2.simps) auto
next
  case (Suc n)
  then have "2 ^ n \<le> m div 2" "m div 2 < 2 ^ Suc n" "2 \<le> m"
    by (auto intro: order_trans [of _ "2 ^ Suc n"])
  with Suc.IH [of "m div 2"] show ?case by (subst floorLog2.simps) auto
qed

text \<open>The position of the highest set bit, from the floor of the logarithm.\<close>

lemma floorLog2_xor_bits:
  "length xs = length ys \<Longrightarrow> xs \<noteq> ys \<Longrightarrow>
   floorLog2 (bval (xor_bits xs ys)) + cpl_bits xs ys + 1 = length xs"
proof (induction xs ys rule: list_induct2)
  case Nil
  then show ?case by simp
next
  case (Cons x xs y ys)
  show ?case
  proof (cases "x = y")
    case True
    with Cons show ?thesis by auto
  next
    case False
    then have "floorLog2 (bval (xor_bits (x # xs) (y # ys))) = length xs"
      using bval_less [of "xor_bits xs ys"] Cons.hyps by (intro floorLog2_eq) auto
    with False show ?thesis by simp
  qed
qed

lemma cplBytes_law:
  "length xs = length ys \<Longrightarrow> i + length xs = 32 \<Longrightarrow>
   cplBytes i xs ys =
     int (8 * i + cpl_bits (concat (map word_bits xs)) (concat (map word_bits ys)))"
proof (induction xs ys arbitrary: i rule: list_induct2)
  case Nil
  then show ?case by simp
next
  case (Cons x xs y ys)
  show ?case
  proof (cases "x = y")
    case True
    with Cons show ?thesis by simp
  next
    case False
    then have ne: "word_bits x \<noteq> word_bits y" by (simp add: word_bits_inj)
    have diff: "cpl_bits (a @ u) (b @ v) = cpl_bits a b"
      if "length a = length b" "a \<noteq> b" for a b u v :: "bool list"
      using that by (induction a b rule: list_induct2) auto
    have "x XOR y \<noteq> 0"
    proof
      assume "x XOR y = 0"
      then have "(x XOR y) XOR y = 0 XOR y" by simp
      with False show False by (simp add: xor.assoc)
    qed
    moreover have "unat (x XOR y) = bval (xor_bits (word_bits x) (word_bits y))"
      by (simp flip: word_bits_xor)
    ultimately show ?thesis
      using floorLog2_xor_bits [of "word_bits x" "word_bits y"] ne diff [of "word_bits x"]
      by (simp add: Let_def)
  qed
qed

lemma Key256_Bit_law:
  assumes "length b = 32" "i < 256"
  shows "Key256_Bit (Key256Ptr (Some b)) (int i) =
    Some (of_bool (concat (map word_bits b) ! i))"
proof -
  have 1: "nat (int i div 8) = i div 8" by (simp add: nat_div_distrib)
  have "int i mod 8 = int (i mod 8)" by (simp add: zmod_int)
  then have 2: "nat (7 - int i mod 8) = 8 - Suc (i mod 8)" by linarith
  show ?thesis
    using assms
    by (auto simp: Key256_Bit_def 1 2 concat_word_bits_nth word_bits_nth
        bit_iff_and_push_bit_not_eq_0)
qed

interpretation key256: kad_key_hex Key256 valid256 256 bits256
proof
  fix k i
  assume "valid256 k" "i < (256 :: nat)"
  then show "Bit Key256 k (int i) = Some (of_bool (bits256 k ! i))"
    using Key256_Bit_law
    by (cases k) (auto simp: Key256_def valid256_def bits256_def split: option.splits)
next
  fix a b
  assume v: "valid256 a" "valid256 b"
  then obtain x y where ab: "a = Key256Ptr (Some x)" "b = Key256Ptr (Some y)"
    and len: "length x = 32" "length y = 32"
    by (cases a; cases b) (auto simp: valid256_def split: option.splits)
  show "bits256 (Xor Key256 a b) = xor_bits (bits256 a) (bits256 b)"
    by (simp add: ab len Key256_def Key256_Xor_def bits256_def concat_word_bits_xor
        del: map_map)
  show "CommonPrefixLength Key256 a b = int (cpl_bits (bits256 a) (bits256 b))"
    by (simp add: ab len Key256_def Key256_CommonPrefixLength_def bits256_def cplBytes_law)
  show "Compare Key256 a b = Some (sgn (int (bval (bits256 a)) - int (bval (bits256 b))))"
    by (simp add: ab len Key256_def Key256_Compare_def bits256_def bytesCompare_law)
  show "bits256 a = bits256 b \<Longrightarrow> a = b"
    by (simp add: ab len bits256_def concat_word_bits_inj)
  show "HexString Key256 a = HexString Key256 b \<Longrightarrow> a = b"
    by (auto simp: ab HexString_def Key256_def Key256_HexString_def dest: EncodeToString_inj)
qed (auto simp: Key256_def Key256_BitLen_def Key256_Bit_def Key256_Xor_def HexString_def
    valid256_def bits256_def split: option.splits)

end
