(* ===== verification/Kad_Trie.thy ===== *)
theory Kad_Trie
  imports Key_Types
begin

text \<open>
  The XOR trie of \<open>key/trie/trie.go\<close>: the struct, the destructive methods \<open>Add\<close> and \<open>Remove\<close>, the
  functions \<open>Add\<close> and \<open>Remove\<close> that share structure with their argument, \<open>Equal\<close>, \<open>Find\<close>,
  \<open>Locate\<close> and \<open>Closest\<close>.

  A nil pointer is \<open>None\<close>; calling a method through it is a panic, so a missing branch makes the
  caller \<open>None\<close>. The zero value of the data type is \<open>None\<close> in the field \<open>trieData\<close>. The
  non-destructive functions return either the very pointer they were given or a new node, and the
  code compares pointers to tell the two apart: their results are \<open>Same\<close> and \<open>Fresh t\<close>.
\<close>

section \<open>The struct and its observers\<close>

datatype ('k, 'd) Trie =
  Trie (branch0: "('k, 'd) Trie option") (branch1: "('k, 'd) Trie option")
    (trieKey: "'k option") (trieData: "'d option")

type_synonym ('k, 'd) Entry = "'k \<times> 'd"

definition New :: "('k, 'd) Trie" where
  "New = Trie None None None None"

text \<open>\<open>tr.branch[dir]\<close>: an index other than 0 and 1 is a panic.\<close>

definition Branch :: "('k, 'd) Trie \<Rightarrow> nat \<Rightarrow> ('k, 'd) Trie option" where
  "Branch tr dir = (if dir = 0 then branch0 tr else if dir = 1 then branch1 tr else None)"

definition HasKey :: "('k, 'd) Trie \<Rightarrow> bool" where
  "HasKey tr = (trieKey tr \<noteq> None)"

definition IsLeaf :: "('k, 'd) Trie \<Rightarrow> bool" where
  "IsLeaf tr = (branch0 tr = None \<and> branch1 tr = None)"

definition IsEmptyLeaf :: "('k, 'd) Trie \<Rightarrow> bool" where
  "IsEmptyLeaf tr = (\<not> HasKey tr \<and> IsLeaf tr)"

definition IsNonEmptyLeaf :: "('k, 'd) Trie \<Rightarrow> bool" where
  "IsNonEmptyLeaf tr = (HasKey tr \<and> IsLeaf tr)"

text \<open>
  \<open>sizeAtDepth\<close> carries the depth without using it. A node with one branch only is a nil
  dereference in the code.
\<close>

fun sizeAtDepth :: "('k, 'd) Trie \<Rightarrow> nat \<Rightarrow> nat option" where
  "sizeAtDepth (Trie None None k d) n = Some (if k = None then 0 else 1)"
| "sizeAtDepth (Trie (Some l) (Some r) k d) n = do {
     a \<leftarrow> sizeAtDepth l (n + 1);
     b \<leftarrow> sizeAtDepth r (n + 1);
     Some (a + b)
   }"
| "sizeAtDepth _ _ = None"

definition Size :: "('k, 'd) Trie \<Rightarrow> nat option" where
  "Size tr = sizeAtDepth tr 0"

fun Copy :: "('k, 'd) Trie \<Rightarrow> ('k, 'd) Trie option" where
  "Copy (Trie None None k d) = Some (Trie None None k d)"
| "Copy (Trie (Some l) (Some r) k d) = do {
     l' \<leftarrow> Copy l;
     r' \<leftarrow> Copy r;
     Some (Trie (Some l') (Some r') None None)
   }"
| "Copy _ = None"

section \<open>Building and shrinking nodes\<close>

text \<open>Assignment to \<open>tr.branch[dir]\<close>, and a new node whose branches in direction \<open>dir\<close> and
  \<open>1 - dir\<close> are given.\<close>

definition setBranch :: "('k, 'd) Trie \<Rightarrow> nat \<Rightarrow> ('k, 'd) Trie \<Rightarrow> ('k, 'd) Trie option" where
  "setBranch tr dir c =
     (if dir = 0 then Some (Trie (Some c) (branch1 tr) (trieKey tr) (trieData tr))
      else if dir = 1 then Some (Trie (branch0 tr) (Some c) (trieKey tr) (trieData tr))
      else None)"

definition newNode ::
  "nat \<Rightarrow> ('k, 'd) Trie option \<Rightarrow> ('k, 'd) Trie option \<Rightarrow> ('k, 'd) Trie option" where
  "newNode dir c other =
     (if dir = 0 then Some (Trie c other None None)
      else if dir = 1 then Some (Trie other c None None)
      else None)"

definition shrink :: "('k, 'd) Trie \<Rightarrow> ('k, 'd) Trie option" where
  "shrink tr = do {
     b0 \<leftarrow> branch0 tr;
     if \<not> IsLeaf b0 then Some tr
     else do {
       b1 \<leftarrow> branch1 tr;
       Some (if IsEmptyLeaf b0 \<and> IsEmptyLeaf b1 then Trie None None (trieKey tr) (trieData tr)
             else if IsEmptyLeaf b0 \<and> IsNonEmptyLeaf b1 then Trie None None (trieKey b1) (trieData b1)
             else if IsNonEmptyLeaf b0 \<and> IsEmptyLeaf b1 then Trie None None (trieKey b0) (trieData b0)
             else tr)
     }
   }"

section \<open>The destructive methods\<close>

text \<open>
  The recursion of \<open>addAtDepth\<close> ends because the bits of two different keys differ somewhere; for
  a key type without that property it would not. The result \<open>None\<close> covers that case.
\<close>

partial_function (option) Trie_addAtDepth ::
  "'k Key \<Rightarrow> nat \<Rightarrow> ('k, 'd) Trie \<Rightarrow> 'k \<Rightarrow> 'd \<Rightarrow> (('k, 'd) Trie \<times> bool) option" where
  "Trie_addAtDepth K depth tr kk data =
     (if IsEmptyLeaf tr then Some (Trie (branch0 tr) (branch1 tr) (Some kk) (Some data), True)
      else if IsNonEmptyLeaf tr then do {
        p \<leftarrow> trieKey tr;
        eq \<leftarrow> Equal K p kk;
        if eq then Some (tr, False)
        else do {
          pDir \<leftarrow> Bit K p (int depth);
          split \<leftarrow> newNode pDir (Some (Trie None None (Some p) (trieData tr))) (Some New);
          dir \<leftarrow> Bit K kk (int depth);
          c \<leftarrow> Branch split dir;
          res \<leftarrow> Trie_addAtDepth K (Suc depth) c kk data;
          tr' \<leftarrow> setBranch split dir (fst res);
          Some (tr', snd res)
        }
      }
      else do {
        dir \<leftarrow> Bit K kk (int depth);
        c \<leftarrow> Branch tr dir;
        res \<leftarrow> Trie_addAtDepth K (Suc depth) c kk data;
        tr' \<leftarrow> setBranch tr dir (fst res);
        Some (tr', snd res)
      })"

definition Trie_Add ::
  "'k Key \<Rightarrow> ('k, 'd) Trie \<Rightarrow> 'k \<Rightarrow> 'd \<Rightarrow> (('k, 'd) Trie \<times> bool) option" where
  "Trie_Add K tr kk data = Trie_addAtDepth K 0 tr kk data"

lemma size_Branch [simp]: "Branch tr dir = Some c \<Longrightarrow> size c < size tr"
  by (cases tr) (auto simp: Branch_def split: if_splits)

function Trie_removeAtDepth ::
  "'k Key \<Rightarrow> nat \<Rightarrow> ('k, 'd) Trie \<Rightarrow> 'k \<Rightarrow> (('k, 'd) Trie \<times> bool) option" where
  "Trie_removeAtDepth K depth tr kk =
     (if IsEmptyLeaf tr then Some (tr, False)
      else if IsNonEmptyLeaf tr then do {
        p \<leftarrow> trieKey tr;
        eq \<leftarrow> Equal K p kk;
        if \<not> eq then Some (tr, False)
        else Some (Trie (branch0 tr) (branch1 tr) None None, True)
      }
      else do {
        dir \<leftarrow> Bit K kk (int depth);
        case Branch tr dir of
          None \<Rightarrow> None
        | Some c \<Rightarrow> do {
            (c', removed) \<leftarrow> Trie_removeAtDepth K (Suc depth) c kk;
            tr1 \<leftarrow> setBranch tr dir c';
            if removed then do { tr2 \<leftarrow> shrink tr1; Some (tr2, True) } else Some (tr1, False)
          }
      })"
  by pat_completeness auto
termination
  by (relation "measure (\<lambda>(K, depth, tr, kk). size tr)") auto

declare Trie_removeAtDepth.simps [simp del]

definition Trie_Remove ::
  "'k Key \<Rightarrow> ('k, 'd) Trie \<Rightarrow> 'k \<Rightarrow> (('k, 'd) Trie \<times> bool) option" where
  "Trie_Remove K tr kk = Trie_removeAtDepth K 0 tr kk"

section \<open>The functions that return a new trie\<close>

datatype 't ret = Same | Fresh 't

fun deref :: "'t \<Rightarrow> 't ret \<Rightarrow> 't" where
  "deref t Same = t"
| "deref t (Fresh t') = t'"

partial_function (option) trieForTwo ::
  "'k Key \<Rightarrow> nat \<Rightarrow> 'k \<Rightarrow> 'd option \<Rightarrow> 'k \<Rightarrow> 'd option \<Rightarrow> ('k, 'd) Trie option" where
  "trieForTwo K depth p pdata q qdata = do {
     pDir \<leftarrow> Bit K p (int depth);
     qDir \<leftarrow> Bit K q (int depth);
     if qDir = pDir then do {
       c \<leftarrow> trieForTwo K (Suc depth) p pdata q qdata;
       newNode pDir (Some c) (Some New)
     } else do {
       s \<leftarrow> newNode pDir (Some (Trie None None (Some p) pdata)) None;
       setBranch s qDir (Trie None None (Some q) qdata)
     }
   }"

function addAtDepth ::
  "'k Key \<Rightarrow> nat \<Rightarrow> ('k, 'd) Trie \<Rightarrow> 'k \<Rightarrow> 'd \<Rightarrow> ('k, 'd) Trie ret option" where
  "addAtDepth K depth tr kk data =
     (if IsEmptyLeaf tr then Some (Fresh (Trie None None (Some kk) (Some data)))
      else if IsNonEmptyLeaf tr then do {
        p \<leftarrow> trieKey tr;
        eq \<leftarrow> Equal K p kk;
        if eq then Some Same
        else do { t \<leftarrow> trieForTwo K depth p (trieData tr) kk (Some data); Some (Fresh t) }
      }
      else do {
        dir \<leftarrow> Bit K kk (int depth);
        case Branch tr dir of
          None \<Rightarrow> None
        | Some c \<Rightarrow> do {
            r \<leftarrow> addAtDepth K (Suc depth) c kk data;
            s \<leftarrow> newNode dir (Some (deref c r)) (Branch tr (1 - dir));
            Some (Fresh s)
          }
      })"
  by pat_completeness auto
termination
  by (relation "measure (\<lambda>(K, depth, tr, kk, data). size tr)") auto

declare addAtDepth.simps [simp del]

definition Add :: "'k Key \<Rightarrow> ('k, 'd) Trie \<Rightarrow> 'k \<Rightarrow> 'd \<Rightarrow> ('k, 'd) Trie ret option" where
  "Add K tr kk data = addAtDepth K 0 tr kk data"

function removeAtDepth ::
  "'k Key \<Rightarrow> nat \<Rightarrow> ('k, 'd) Trie \<Rightarrow> 'k \<Rightarrow> ('k, 'd) Trie ret option" where
  "removeAtDepth K depth tr kk =
     (if IsEmptyLeaf tr then Some Same
      else if IsNonEmptyLeaf tr then do {
        p \<leftarrow> trieKey tr;
        eq \<leftarrow> Equal K p kk;
        if \<not> eq then Some Same else Some (Fresh New)
      }
      else do {
        dir \<leftarrow> Bit K kk (int depth);
        case Branch tr dir of
          None \<Rightarrow> None
        | Some c \<Rightarrow> do {
            afterDelete \<leftarrow> removeAtDepth K (Suc depth) c kk;
            case afterDelete of
              Same \<Rightarrow> Some Same
            | Fresh c' \<Rightarrow> do {
                copy \<leftarrow> newNode dir (Some c') (Branch tr (1 - dir));
                s \<leftarrow> shrink copy;
                Some (Fresh s)
              }
          }
      })"
  by pat_completeness auto
termination
  by (relation "measure (\<lambda>(K, depth, tr, kk). size tr)") auto

declare removeAtDepth.simps [simp del]

definition Remove :: "'k Key \<Rightarrow> ('k, 'd) Trie \<Rightarrow> 'k \<Rightarrow> ('k, 'd) Trie ret option" where
  "Remove K tr kk = removeAtDepth K 0 tr kk"

section \<open>Queries\<close>

function Trie_Equal :: "'k Key \<Rightarrow> ('k, 'd) Trie \<Rightarrow> ('k, 'd) Trie \<Rightarrow> bool option" where
  "Trie_Equal K a b =
     (if IsEmptyLeaf a \<and> IsEmptyLeaf b then Some True
      else if IsNonEmptyLeaf a \<and> IsNonEmptyLeaf b then do {
        ka \<leftarrow> trieKey a;
        kb \<leftarrow> trieKey b;
        Equal K ka kb
      }
      else if \<not> IsLeaf a \<and> \<not> IsLeaf b then
        (case (Branch a 0, Branch b 0) of
           (Some a0, Some b0) \<Rightarrow> do {
             e \<leftarrow> Trie_Equal K a0 b0;
             if e then (case (Branch a 1, Branch b 1) of
                          (Some a1, Some b1) \<Rightarrow> Trie_Equal K a1 b1
                        | _ \<Rightarrow> None)
             else Some False
           }
         | _ \<Rightarrow> None)
      else Some False)"
  by pat_completeness auto
termination
  by (relation "measure (\<lambda>(K, a, b). size a)") auto

declare Trie_Equal.simps [simp del]

text \<open>The pointer to the leaf found (\<open>None\<close> for nil) and the depth reached.\<close>

function findFromDepth ::
  "'k Key \<Rightarrow> ('k, 'd) Trie \<Rightarrow> nat \<Rightarrow> 'k \<Rightarrow> (('k, 'd) Trie option \<times> nat) option" where
  "findFromDepth K tr depth target =
     (if IsEmptyLeaf tr then Some (None, depth)
      else if IsNonEmptyLeaf tr then do {
        p \<leftarrow> trieKey tr;
        eq \<leftarrow> Equal K p target;
        if \<not> eq then Some (None, depth) else Some (Some tr, depth)
      }
      else do {
        dir \<leftarrow> Bit K target (int depth);
        case Branch tr dir of
          None \<Rightarrow> None
        | Some c \<Rightarrow> findFromDepth K c (Suc depth) target
      })"
  by pat_completeness auto
termination
  by (relation "measure (\<lambda>(K, tr, depth, target). size tr)") auto

declare findFromDepth.simps [simp del]

definition Find :: "'k Key \<Rightarrow> ('k, 'd) Trie \<Rightarrow> 'k \<Rightarrow> (bool \<times> 'd option) option" where
  "Find K tr kk = do {
     (f, _) \<leftarrow> findFromDepth K tr 0 kk;
     case f of None \<Rightarrow> Some (False, None) | Some t \<Rightarrow> Some (True, trieData t)
   }"

definition Locate :: "'k Key \<Rightarrow> ('k, 'd) Trie \<Rightarrow> 'k \<Rightarrow> (bool \<times> nat) option" where
  "Locate K tr target = do {
     (f, depth) \<leftarrow> findFromDepth K tr 0 target;
     case f of None \<Rightarrow> Some (False, depth) | Some t \<Rightarrow> Some (True, depth)
   }"

function closestAtDepth ::
  "'k Key \<Rightarrow> ('k, 'd) Trie \<Rightarrow> 'k \<Rightarrow> int \<Rightarrow> nat \<Rightarrow> ('k, 'd option) Entry list option" where
  "closestAtDepth K t target n depth =
     (if IsLeaf t then
        (case trieKey t of Some k \<Rightarrow> Some [(k, trieData t)] | None \<Rightarrow> Some [])
      else if int depth > BitLen K target then Some []
      else do {
        dir \<leftarrow> Bit K target (int depth);
        case Branch t dir of
          None \<Rightarrow> None
        | Some c \<Rightarrow> do {
            found \<leftarrow> closestAtDepth K c target n (Suc depth);
            if int (length found) = n then Some found
            else (case Branch t (1 - dir) of
                    None \<Rightarrow> None
                  | Some c' \<Rightarrow> do {
                      more \<leftarrow> closestAtDepth K c' target (n - int (length found)) (Suc depth);
                      Some (found @ more)
                    })
          }
      })"
  by pat_completeness auto
termination
  by (relation "measure (\<lambda>(K, t, target, n, depth). size t)") auto

declare closestAtDepth.simps [simp del]

definition Closest ::
  "'k Key \<Rightarrow> ('k, 'd) Trie \<Rightarrow> 'k \<Rightarrow> int \<Rightarrow> ('k, 'd option) Entry list option" where
  "Closest K tr target n = closestAtDepth K tr target n 0"

section \<open>The contents of a trie and its invariant\<close>

text \<open>The entries from left to right.\<close>

fun entries :: "('k, 'd) Trie \<Rightarrow> ('k, 'd option) Entry list" where
  "entries (Trie l r k d) =
     (case l of None \<Rightarrow> [] | Some t \<Rightarrow> entries t) @
     (case k of None \<Rightarrow> [] | Some x \<Rightarrow> [(x, d)]) @
     (case r of None \<Rightarrow> [] | Some t \<Rightarrow> entries t)"

text \<open>
  The three invariants of the comment above the struct, with what they are for: the keys below a
  node have the node's path as the prefix of their bits. An empty node holds no data, a key always
  has data.
\<close>

fun trie_inv :: "('k \<Rightarrow> bool) \<Rightarrow> ('k \<Rightarrow> bool list) \<Rightarrow> bool list \<Rightarrow> ('k, 'd) Trie \<Rightarrow> bool" where
  "trie_inv valid bits p (Trie None None None d) = (d = None)"
| "trie_inv valid bits p (Trie None None (Some k) d) =
     (valid k \<and> take (length p) (bits k) = p \<and> d \<noteq> None)"
| "trie_inv valid bits p (Trie (Some l) (Some r) k d) =
     (k = None \<and> d = None \<and>
      trie_inv valid bits (p @ [False]) l \<and> trie_inv valid bits (p @ [True]) r \<and>
      (IsLeaf l \<and> IsLeaf r \<longrightarrow> HasKey l \<and> HasKey r))"
| "trie_inv valid bits p _ = False"

section \<open>Correctness of the trie\<close>

definition trie_keys :: "('k, 'd) Trie \<Rightarrow> 'k set" where
  "trie_keys tr = fst ` set (entries tr)"

lemmas leaf_defs = IsEmptyLeaf_def IsNonEmptyLeaf_def IsLeaf_def HasKey_def

lemma entries_New [simp]: "entries New = []"
  by (simp add: New_def)

lemma trie_keys_simps [simp]:
  "trie_keys New = {}"
  "trie_keys (Trie None None (Some k) d) = {k}"
  "trie_keys (Trie (Some l) (Some r) None e) = trie_keys l \<union> trie_keys r"
  by (auto simp: trie_keys_def New_def)

lemma map_of_eq_None_keys: "map_of (entries tr) k = None \<longleftrightarrow> k \<notin> trie_keys tr"
  by (simp add: trie_keys_def map_of_eq_None_iff)

lemma leaf_one_entry: "IsLeaf tr \<Longrightarrow> HasKey tr \<Longrightarrow> length (entries tr) = Suc 0"
  by (cases tr) (auto simp: leaf_defs)

lemma trie_inv_cases [consumes 1, case_names empty leaf node]:
  assumes "trie_inv valid bits p tr"
  obtains "tr = New"
  | k d where "tr = Trie None None (Some k) (Some d)" "valid k" "take (length p) (bits k) = p"
  | l r where "tr = Trie (Some l) (Some r) None None"
      "trie_inv valid bits (p @ [False]) l" "trie_inv valid bits (p @ [True]) r"
      "IsLeaf l \<and> IsLeaf r \<longrightarrow> HasKey l \<and> HasKey r"
  using assms by (cases "(valid, bits, p, tr)" rule: trie_inv.cases) (auto simp: New_def)

lemma trie_inv_induct [consumes 1, case_names empty leaf node]:
  assumes "trie_inv valid bits p tr"
    and "\<And>p. P p New"
    and "\<And>p k d. valid k \<Longrightarrow> take (length p) (bits k) = p \<Longrightarrow>
      P p (Trie None None (Some k) (Some d))"
    and "\<And>p l r. trie_inv valid bits (p @ [False]) l \<Longrightarrow> trie_inv valid bits (p @ [True]) r \<Longrightarrow>
      (IsLeaf l \<and> IsLeaf r \<longrightarrow> HasKey l \<and> HasKey r) \<Longrightarrow>
      P (p @ [False]) l \<Longrightarrow> P (p @ [True]) r \<Longrightarrow> P p (Trie (Some l) (Some r) None None)"
  shows "P p tr"
  using assms(1)
proof (induction "size tr" arbitrary: p tr rule: less_induct)
  case less
  from less.prems show ?case
  proof (cases rule: trie_inv_cases)
    case (node l r)
    then show ?thesis using less.hyps assms(4) by simp
  qed (use assms in auto)
qed

context kad_key
begin

abbreviation tinv :: "bool list \<Rightarrow> ('k, 'd) Trie \<Rightarrow> bool" where
  "tinv \<equiv> trie_inv valid bits"

lemma tinv_New [simp]: "tinv p New"
  by (simp add: New_def)

lemma prefix_snoc:
  assumes "valid k"
  shows "take (length (p @ [b])) (bits k) = p @ [b] \<longleftrightarrow>
    length p < len \<and> take (length p) (bits k) = p \<and> bits k ! length p = b"
proof (cases "length p < len")
  case True
  with assms show ?thesis
    by (simp add: take_Suc_conv_app_nth length_bits)
next
  case False
  with assms have "length (take (length (p @ [b])) (bits k)) \<noteq> length (p @ [b])"
    by (simp add: length_bits)
  with False show ?thesis by metis
qed

lemma tinv_keys:
  "tinv p tr \<Longrightarrow> k \<in> trie_keys tr \<Longrightarrow> valid k \<and> take (length p) (bits k) = p"
proof (induction rule: trie_inv_induct)
  case (node p l r)
  then show ?case using prefix_snoc by (metis UnE trie_keys_simps(3))
qed auto

lemma tinv_branch_keys:
  assumes "tinv (p @ [b]) tr" "k \<in> trie_keys tr"
  shows "valid k" "length p < len" "take (length p) (bits k) = p" "bits k ! length p = b"
  using tinv_keys [OF assms] prefix_snoc by auto

lemma tinv_data: "tinv p tr \<Longrightarrow> (k, d) \<in> set (entries tr) \<Longrightarrow> d \<noteq> None"
  by (induction rule: trie_inv_induct) (auto simp: New_def)

lemma tinv_two_keys: "tinv p tr \<Longrightarrow> \<not> IsLeaf tr \<Longrightarrow> 2 \<le> length (entries tr)"
proof (induction rule: trie_inv_induct)
  case (node p l r)
  show ?case
  proof (cases "IsLeaf l \<and> IsLeaf r")
    case True
    with node(3) have "length (entries l) = 1" "length (entries r) = 1"
      by (auto simp: leaf_one_entry)
    then show ?thesis by simp
  next
    case False
    with node show ?thesis by auto
  qed
qed (auto simp: leaf_defs New_def)

lemma tinv_node_depth:
  assumes "tinv p (Trie (Some l) (Some r) None None)"
  shows "length p < len"
proof -
  have "2 \<le> length (entries (Trie (Some l) (Some r) None None))"
    by (rule tinv_two_keys [OF assms]) (simp add: IsLeaf_def)
  then obtain k where "k \<in> trie_keys l \<or> k \<in> trie_keys r"
    by (cases "entries l"; cases "entries r") (auto simp: trie_keys_def)
  with assms show ?thesis using tinv_branch_keys(2) by auto
qed

lemma tinv_distinct: "tinv p tr \<Longrightarrow> distinct (map fst (entries tr))"
proof (induction rule: trie_inv_induct)
  case (node p l r)
  then have "k \<notin> trie_keys r" if "k \<in> trie_keys l" for k
    using that tinv_branch_keys(4) by metis
  with node show ?case by (auto simp: trie_keys_def)
qed (auto simp: New_def)

text \<open>The branch in the direction of a key holds it, if the trie does.\<close>

lemma map_of_branch:
  assumes "tinv p (Trie (Some l) (Some r) None None)" "valid kk"
  shows "map_of (entries (Trie (Some l) (Some r) None None)) kk =
    map_of (entries (if bits kk ! length p then r else l)) kk"
proof -
  from assms(1) have l: "kk \<in> trie_keys l \<Longrightarrow> \<not> bits kk ! length p"
    and r: "kk \<in> trie_keys r \<Longrightarrow> bits kk ! length p"
    using tinv_branch_keys(4) by auto
  show ?thesis
    using l r map_of_eq_None_keys [of l kk] map_of_eq_None_keys [of r kk]
    by (auto simp: map_add_def split: option.splits)
qed

lemma trie_keys_branch:
  assumes "tinv p (Trie (Some l) (Some r) None None)" "valid kk"
  shows "kk \<in> trie_keys (Trie (Some l) (Some r) None None) \<longleftrightarrow>
    kk \<in> trie_keys (if bits kk ! length p then r else l)"
  using map_of_branch [OF assms] by (metis map_of_eq_None_keys)

text \<open>
  The direction a node at path \<open>p\<close> sends a key to: \<open>Bit\<close> does not panic there, and the branch
  exists.
\<close>

lemma node_dir:
  assumes "tinv p (Trie (Some l) (Some r) None None)" "valid kk"
  shows "Bit K kk (int (length p)) = Some (of_bool (bits kk ! length p))"
    "Branch (Trie (Some l) (Some r) None None) (of_bool (bits kk ! length p)) =
      Some (if bits kk ! length p then r else l)"
    "Branch (Trie (Some l) (Some r) None None) (1 - of_bool (bits kk ! length p)) =
      Some (if bits kk ! length p then l else r)"
  using assms(2) tinv_node_depth [OF assms(1)] by (auto simp: Bit_law Branch_def)

lemma node_child:
  assumes "tinv p (Trie (Some l) (Some r) None None)" "valid kk" "take (length p) (bits kk) = p"
  shows "tinv (p @ [bits kk ! length p]) (if bits kk ! length p then r else l)"
    "take (length (p @ [bits kk ! length p])) (bits kk) = p @ [bits kk ! length p]"
  using assms(1) prefix_snoc [OF assms(2), of p "bits kk ! length p"] assms(3)
    tinv_node_depth [OF assms(1)] by auto

lemma sizeAtDepth_law: "tinv p tr \<Longrightarrow> sizeAtDepth tr n = Some (length (entries tr))"
  by (induction arbitrary: n rule: trie_inv_induct) (auto simp: New_def)

lemma Copy_law: "tinv p tr \<Longrightarrow> Copy tr = Some tr"
  by (induction rule: trie_inv_induct) (auto simp: New_def)

lemma findFromDepth_law:
  "tinv p tr \<Longrightarrow> valid kk \<Longrightarrow> take (length p) (bits kk) = p \<Longrightarrow>
   \<exists>f depth. findFromDepth K tr (length p) kk = Some (f, depth) \<and>
     map_of (entries tr) kk = map_option trieData f"
proof (induction rule: trie_inv_induct)
  case (empty p)
  then show ?case by (subst findFromDepth.simps) (auto simp: leaf_defs New_def)
next
  case (leaf p k d)
  then show ?case by (subst findFromDepth.simps) (auto simp: leaf_defs key_laws)
next
  case (node p l r)
  then have inv: "tinv p (Trie (Some l) (Some r) None None)" by simp
  note dir = node_dir [OF inv node.prems(1)] node_child(2) [OF inv node.prems]
  have "findFromDepth K (Trie (Some l) (Some r) None None) (length p) kk =
      findFromDepth K (if bits kk ! length p then r else l)
        (length (p @ [bits kk ! length p])) kk"
    by (subst findFromDepth.simps) (simp add: leaf_defs dir)
  then show ?case
    using node.IH [OF node.prems(1)] dir map_of_branch [OF inv node.prems(1)]
    by (auto split: if_splits)
qed


text \<open>Two different keys below the path \<open>p\<close> differ at or after position \<open>length p\<close>.\<close>

lemma common_prefix_depth:
  assumes "valid a" "valid b" "a \<noteq> b" "take n (bits a) = take n (bits b)"
  shows "n < len"
  using assms bits_inj length_bits by (metis linorder_not_less take_all)

lemma trieForTwo_law:
  assumes "valid a" "valid b" "a \<noteq> b" "take n (bits a) = p" "take n (bits b) = p"
    and "da \<noteq> None" "db \<noteq> None"
  shows "\<exists>t. trieForTwo K n a da b db = Some t \<and> tinv p t \<and> \<not> IsLeaf t \<and>
    mset (entries t) = {#(a, da), (b, db)#}"
  using assms
proof (induction "len - n" arbitrary: n p rule: less_induct)
  case less
  have n: "n < len" using common_prefix_depth [of a b n] less.prems by auto
  then have len: "length p = n" using less.prems(1,4) by (auto simp: length_bits)
  note snoc = prefix_snoc [OF less.prems(1), of p] prefix_snoc [OF less.prems(2), of p]
  let ?x = "bits a ! n" and ?y = "bits b ! n"
  have pre: "take (length (p @ [?x])) (bits a) = p @ [?x]"
    "take (length (p @ [?y])) (bits b) = p @ [?y]"
    using snoc(1) [of ?x] snoc(2) [of ?y] n len less.prems(4,5) by auto
  have dec: "len - Suc n < len - n" using n by simp
  show ?case
  proof (cases "?x = ?y")
    case True
    then obtain t where t: "trieForTwo K (Suc n) a da b db = Some t" "tinv (p @ [?x]) t"
      "\<not> IsLeaf t" "mset (entries t) = {#(a, da), (b, db)#}"
      using less.hyps [OF dec, of "p @ [?x]"] less.prems(1-3,6,7) pre len by auto
    from True n less.prems(1,2) t show ?thesis
      by (subst trieForTwo.simps)
        (auto simp: Bit_law newNode_def IsLeaf_def New_def)
  next
    case False
    with n less.prems pre show ?thesis
      by (subst trieForTwo.simps)
        (auto simp: Bit_law newNode_def setBranch_def IsLeaf_def HasKey_def)
  qed
qed

lemma Trie_addAtDepth_leaf:
  assumes "valid a" "valid b" "a \<noteq> b" "take n (bits a) = take n (bits b)"
  shows "Trie_addAtDepth K n (Trie None None (Some a) da) b db =
    map_option (\<lambda>t. (t, True)) (trieForTwo K n a da b (Some db))"
  using assms
proof (induction "len - n" arbitrary: n rule: less_induct)
  case less
  from less.prems have n: "n < len" by (rule common_prefix_depth)
  show ?case
  proof (cases "bits a ! n = bits b ! n")
    case True
    then have "take (Suc n) (bits a) = take (Suc n) (bits b)"
      using n less.prems by (simp add: take_Suc_conv_app_nth length_bits)
    then have "Trie_addAtDepth K (Suc n) (Trie None None (Some a) da) b db =
        map_option (\<lambda>t. (t, True)) (trieForTwo K (Suc n) a da b (Some db))"
      using less.hyps [of "Suc n"] less.prems(1-3) n by auto
    with True n less.prems(1-3) show ?thesis
      by (subst Trie_addAtDepth.simps, subst trieForTwo.simps)
        (auto simp: leaf_defs key_laws Bit_law newNode_def setBranch_def Branch_def New_def
          split: option.splits bind_splits)
  next
    case False
    have "Trie_addAtDepth K (Suc n) New b db = Some (Trie None None (Some b) (Some db), True)"
      by (subst Trie_addAtDepth.simps) (simp add: leaf_defs New_def)
    with False n less.prems(1-3) show ?thesis
      by (subst Trie_addAtDepth.simps, subst trieForTwo.simps)
        (auto simp: leaf_defs key_laws Bit_law newNode_def setBranch_def Branch_def New_def)
  qed
qed

text \<open>What adding a key does to the trie below the path \<open>p\<close>.\<close>

definition add_post ::
  "bool list \<Rightarrow> ('k, 'd) Trie \<Rightarrow> 'k \<Rightarrow> 'd \<Rightarrow> ('k, 'd) Trie ret \<Rightarrow> bool" where
  "add_post p tr kk d r \<longleftrightarrow>
     tinv p (deref tr r) \<and>
     (kk \<in> trie_keys tr \<longrightarrow> deref tr r = tr) \<and>
     (kk \<notin> trie_keys tr \<longrightarrow>
        mset (entries (deref tr r)) = add_mset (kk, Some d) (mset (entries tr))) \<and>
     (r = Same \<longleftrightarrow> IsLeaf tr \<and> kk \<in> trie_keys tr) \<and>
     (\<not> IsLeaf tr \<longrightarrow> \<not> IsLeaf (deref tr r)) \<and>
     (IsLeaf (deref tr r) \<longrightarrow> HasKey (deref tr r))"

lemma add_post_node:
  assumes inv: "tinv p (Trie (Some l) (Some r) None None)" and kk: "valid kk"
    and post: "add_post (p @ [b]) (if b then r else l) kk d res"
    and b: "b = bits kk ! length p"
    and new: "t = (if b then Trie (Some l) (Some (deref r res)) None None
                   else Trie (Some (deref l res)) (Some r) None None)"
  shows "add_post p (Trie (Some l) (Some r) None None) kk d (Fresh t)"
proof -
  note mem = trie_keys_branch [OF inv kk, folded b]
  have leaf: "IsLeaf l \<and> IsLeaf r \<longrightarrow> HasKey l \<and> HasKey r" using inv by simp
  show ?thesis
    using inv post mem leaf unfolding add_post_def new
    by (cases b) (auto simp: IsLeaf_def [of "Trie _ _ _ _"])
qed

lemma addAtDepth_law:
  "tinv p tr \<Longrightarrow> valid kk \<Longrightarrow> take (length p) (bits kk) = p \<Longrightarrow>
   \<exists>r. addAtDepth K (length p) tr kk d = Some r \<and> add_post p tr kk d r \<and>
     Trie_addAtDepth K (length p) tr kk d = Some (deref tr r, kk \<notin> trie_keys tr)"
proof (induction rule: trie_inv_induct)
  case (empty p)
  then show ?case
    by (subst addAtDepth.simps, subst Trie_addAtDepth.simps)
      (auto simp: leaf_defs New_def add_post_def trie_keys_def)
next
  case (leaf p k e)
  show ?case
  proof (cases "k = kk")
    case True
    with leaf show ?thesis
      by (subst addAtDepth.simps, subst Trie_addAtDepth.simps)
        (auto simp: leaf_defs add_post_def key_laws)
  next
    case False
    with leaf obtain t where t: "trieForTwo K (length p) k (Some e) kk (Some d) = Some t"
      "tinv p t" "\<not> IsLeaf t" "mset (entries t) = {#(k, Some e), (kk, Some d)#}"
      using trieForTwo_law [of k kk "length p" p "Some e" "Some d"] by auto
    moreover have "Trie_addAtDepth K (length p) (Trie None None (Some k) (Some e)) kk d =
        Some (t, True)"
      using Trie_addAtDepth_leaf [of k kk "length p" "Some e" d] leaf False t(1) by simp
    ultimately show ?thesis
      using leaf False
      by (subst addAtDepth.simps)
        (auto simp: leaf_defs add_post_def key_laws add_mset_commute)
  qed
next
  case (node p l r)
  then have inv: "tinv p (Trie (Some l) (Some r) None None)" by simp
  let ?b = "bits kk ! length p"
  note dir = node_dir [OF inv node.prems(1)] node_child [OF inv node.prems]
  have "\<exists>res. addAtDepth K (length (p @ [?b])) (if ?b then r else l) kk d = Some res \<and>
      add_post (p @ [?b]) (if ?b then r else l) kk d res \<and>
      Trie_addAtDepth K (length (p @ [?b])) (if ?b then r else l) kk d =
        Some (deref (if ?b then r else l) res, kk \<notin> trie_keys (if ?b then r else l))"
    using node.IH [OF node.prems(1)] dir(5) by (cases ?b) auto
  then obtain res where res:
    "addAtDepth K (Suc (length p)) (if ?b then r else l) kk d = Some res"
    "add_post (p @ [?b]) (if ?b then r else l) kk d res"
    "Trie_addAtDepth K (Suc (length p)) (if ?b then r else l) kk d =
        Some (deref (if ?b then r else l) res, kk \<notin> trie_keys (if ?b then r else l))"
    by auto
  let ?t = "if ?b then Trie (Some l) (Some (deref r res)) None None
     else Trie (Some (deref l res)) (Some r) None None"
  have "addAtDepth K (length p) (Trie (Some l) (Some r) None None) kk d = Some (Fresh ?t)"
    by (subst addAtDepth.simps) (use res in \<open>auto simp: leaf_defs dir newNode_def Branch_def\<close>)
  moreover have "Trie_addAtDepth K (length p) (Trie (Some l) (Some r) None None) kk d =
      Some (?t, kk \<notin> trie_keys (Trie (Some l) (Some r) None None))"
    unfolding trie_keys_branch [OF inv node.prems(1)]
    by (subst Trie_addAtDepth.simps) (use res in \<open>simp add: leaf_defs dir setBranch_def\<close>)
  ultimately show ?case
    using add_post_node [OF inv node.prems(1) res(2) refl refl] by auto
qed

lemma shrink_law:
  assumes "tinv (p @ [False]) l" "tinv (p @ [True]) r"
  shows "\<exists>s. shrink (Trie (Some l) (Some r) None None) = Some s \<and> tinv p s \<and>
    entries s = entries l @ entries r"
  using assms(1)
proof (cases rule: trie_inv_cases)
  case empty
  then have l: "l = Trie None None None None" by (simp add: New_def)
  from assms(2) show ?thesis
  proof (cases rule: trie_inv_cases)
    case (leaf k d)
    then show ?thesis using prefix_snoc [of k p True] by (auto simp: l shrink_def leaf_defs)
  next
    case (node l' r')
    with assms(2) show ?thesis by (auto simp: l shrink_def leaf_defs)
  qed (auto simp: l shrink_def leaf_defs New_def)
next
  case (leaf k d)
  note l = this
  from assms(2) show ?thesis
    by (cases rule: trie_inv_cases)
      (use l assms(2) prefix_snoc [of k p False] in \<open>auto simp: shrink_def leaf_defs New_def\<close>)
next
  case (node l' r')
  with assms show ?thesis by (auto simp: shrink_def leaf_defs)
qed

definition remove_post ::
  "bool list \<Rightarrow> ('k, 'd) Trie \<Rightarrow> 'k \<Rightarrow> ('k, 'd) Trie ret \<Rightarrow> bool" where
  "remove_post p tr kk r \<longleftrightarrow>
     tinv p (deref tr r) \<and>
     (r = Same \<longleftrightarrow> kk \<notin> trie_keys tr) \<and>
     entries (deref tr r) = filter (\<lambda>e. fst e \<noteq> kk) (entries tr)"

lemma filter_other_branch:
  "kk \<notin> trie_keys tr \<Longrightarrow> filter (\<lambda>e. fst e \<noteq> kk) (entries tr) = entries tr"
  by (auto simp: trie_keys_def intro!: filter_True)

lemma removeAtDepth_law:
  "tinv p tr \<Longrightarrow> valid kk \<Longrightarrow> take (length p) (bits kk) = p \<Longrightarrow>
   \<exists>r. removeAtDepth K (length p) tr kk = Some r \<and> remove_post p tr kk r \<and>
     Trie_removeAtDepth K (length p) tr kk = Some (deref tr r, kk \<in> trie_keys tr)"
proof (induction rule: trie_inv_induct)
  case (empty p)
  then show ?case
    by (subst removeAtDepth.simps, subst Trie_removeAtDepth.simps)
      (auto simp: leaf_defs New_def remove_post_def trie_keys_def)
next
  case (leaf p k e)
  then show ?case
    by (subst removeAtDepth.simps, subst Trie_removeAtDepth.simps)
      (auto simp: leaf_defs New_def remove_post_def key_laws)
next
  case (node p l r)
  then have inv: "tinv p (Trie (Some l) (Some r) None None)" by simp
  let ?b = "bits kk ! length p" and ?t = "Trie (Some l) (Some r) None None"
  let ?c = "if ?b then r else l"
  note dir = node_dir [OF inv node.prems(1)] node_child [OF inv node.prems]
  note mem = trie_keys_branch [OF inv node.prems(1)]
  have "\<exists>res. removeAtDepth K (length (p @ [?b])) ?c kk = Some res \<and>
      remove_post (p @ [?b]) ?c kk res \<and>
      Trie_removeAtDepth K (length (p @ [?b])) ?c kk =
        Some (deref ?c res, kk \<in> trie_keys ?c)"
    using node.IH [OF node.prems(1)] dir(5) by (cases ?b) auto
  then obtain res where res:
    "removeAtDepth K (Suc (length p)) ?c kk = Some res"
    "remove_post (p @ [?b]) ?c kk res"
    "Trie_removeAtDepth K (Suc (length p)) ?c kk = Some (deref ?c res, kk \<in> trie_keys ?c)"
    by auto
  show ?case
  proof (cases "kk \<in> trie_keys ?c")
    case False
    then have same: "res = Same" and notin: "kk \<notin> trie_keys ?t"
      using res(2) mem by (auto simp: remove_post_def)
    have "removeAtDepth K (length p) ?t kk = Some Same"
      by (subst removeAtDepth.simps) (use res same in \<open>simp add: leaf_defs dir\<close>)
    moreover have "Trie_removeAtDepth K (length p) ?t kk = Some (?t, False)"
      by (subst Trie_removeAtDepth.simps)
        (use res same False in \<open>auto simp: leaf_defs dir setBranch_def\<close>)
    ultimately show ?thesis
      using inv notin filter_other_branch [OF notin] by (simp add: remove_post_def)
  next
    case True
    then obtain c' where fresh: "res = Fresh c'" and c': "tinv (p @ [?b]) c'"
      "entries c' = filter (\<lambda>e. fst e \<noteq> kk) (entries ?c)"
      using res(2) by (cases res) (auto simp: remove_post_def)
    let ?l = "if ?b then l else c'" and ?r = "if ?b then c' else r"
    have sub: "tinv (p @ [False]) ?l" "tinv (p @ [True]) ?r"
      using c'(1) inv by (auto split: if_splits)
    obtain s where s: "shrink (Trie (Some ?l) (Some ?r) None None) = Some s" "tinv p s"
      "entries s = entries ?l @ entries ?r"
      using shrink_law [OF sub] by blast
    have other: "kk \<notin> trie_keys (if ?b then l else r)"
      using inv tinv_branch_keys(4) by (auto split: if_splits)
    have ents: "entries s = filter (\<lambda>e. fst e \<noteq> kk) (entries ?t)"
      using s(3) c'(2) filter_other_branch [OF other] by (auto split: if_splits)
    have "removeAtDepth K (length p) ?t kk = Some (Fresh s)"
      by (subst removeAtDepth.simps)
        (use res fresh s in \<open>auto simp: leaf_defs dir newNode_def Branch_def\<close>)
    moreover have "Trie_removeAtDepth K (length p) ?t kk = Some (s, True)"
      by (subst Trie_removeAtDepth.simps)
        (use res fresh s True in \<open>auto simp: leaf_defs dir setBranch_def split: if_splits\<close>)
    ultimately show ?thesis
      using s(2) ents mem True by (auto simp: remove_post_def)
  qed
qed

text \<open>Entries in the direction of the target are closer than those in the other direction.\<close>

lemma near_branch_closer:
  assumes v: "valid a" "valid b" "valid t"
    and pre: "take n (bits a) = take n (bits b)" "n < len"
    and near: "bits a ! n = bits t ! n" and far: "bits b ! n \<noteq> bits t ! n"
  shows "dist a t < dist b t"
proof -
  have a: "xor_bits (bits a) (bits t) = xor_bits (take n (bits a)) (take n (bits t)) @
      False # xor_bits (drop (Suc n) (bits a)) (drop (Suc n) (bits t))"
    using v pre near by (subst xor_bits_split [of n]) (auto simp: length_bits)
  have b: "xor_bits (bits b) (bits t) = xor_bits (take n (bits b)) (take n (bits t)) @
      True # xor_bits (drop (Suc n) (bits b)) (drop (Suc n) (bits t))"
    using v pre far by (subst xor_bits_split [of n]) (auto simp: length_bits)
  show ?thesis
    unfolding dist_def a b pre(1)
    by (subst bval_common_prefix) (use v in \<open>auto simp: length_bits simp del: bval.simps intro!: bval_False_True\<close>)
qed

end

text \<open>The reference for \<open>Closest\<close>: all entries ordered by their distance to the target.\<close>

definition by_distance ::
  "('k \<Rightarrow> bool list) \<Rightarrow> 'k \<Rightarrow> ('k, 'e) Entry list \<Rightarrow> ('k, 'e) Entry list" where
  "by_distance bits target es =
     sort_key (\<lambda>e. bval (xor_bits (bits (fst e)) (bits target))) es"

lemma set_by_distance [simp]: "set (by_distance bits t es) = set es"
  by (simp add: by_distance_def)

lemma length_by_distance [simp]: "length (by_distance bits t es) = length es"
  by (simp add: by_distance_def)

context kad_key
begin

lemma by_distance_node:
  assumes inv: "tinv p (Trie (Some l) (Some r) None None)" and t: "valid t"
  shows "by_distance bits t (entries (Trie (Some l) (Some r) None None)) =
    (if bits t ! length p
     then by_distance bits t (entries r) @ by_distance bits t (entries l)
     else by_distance bits t (entries l) @ by_distance bits t (entries r))"
proof -
  have lr: "dist (fst x) t < dist (fst y) t" if "\<not> bits t ! length p"
    "x \<in> set (entries l)" "y \<in> set (entries r)" for x y
    using that inv t near_branch_closer [of "fst x" "fst y" t "length p"]
      tinv_branch_keys [of p False l "fst x"] tinv_branch_keys [of p True r "fst y"]
    by (auto simp: trie_keys_def)
  have rl: "dist (fst y) t < dist (fst x) t" if "bits t ! length p"
    "x \<in> set (entries l)" "y \<in> set (entries r)" for x y
    using that inv t near_branch_closer [of "fst y" "fst x" t "length p"]
      tinv_branch_keys [of p False l "fst x"] tinv_branch_keys [of p True r "fst y"]
    by (auto simp: trie_keys_def)
  show ?thesis
    using lr rl sort_key_append_less [of "entries l" "entries r" "\<lambda>e. dist (fst e) t"]
      sort_key_append_less [of "entries r" "entries l" "\<lambda>e. dist (fst e) t"]
    by (auto simp: by_distance_def dist_def)
qed

lemma closestAtDepth_law:
  assumes "valid t"
  shows "tinv p tr \<Longrightarrow> n \<noteq> 0 \<Longrightarrow>
   closestAtDepth K tr t n (length p) =
     Some (if n < 0 then by_distance bits t (entries tr)
           else take (nat n) (by_distance bits t (entries tr)))"
proof (induction arbitrary: n rule: trie_inv_induct)
  case (empty p)
  then show ?case
    by (subst closestAtDepth.simps) (simp add: leaf_defs New_def by_distance_def)
next
  case (leaf p k d)
  then show ?case
    by (subst closestAtDepth.simps) (auto simp: leaf_defs by_distance_def take_Cons')
next
  case (node p l r)
  then have inv: "tinv p (Trie (Some l) (Some r) None None)" by simp
  note dir = node_dir [OF inv assms] tinv_node_depth [OF inv]
  let ?near = "if bits t ! length p then r else l" and ?far = "if bits t ! length p then l else r"
  obtain A B where A: "A = by_distance bits t (entries ?near)"
    and B: "B = by_distance bits t (entries ?far)" by blast
  have near: "closestAtDepth K ?near t m (Suc (length p)) =
      Some (if m < 0 then A else take (nat m) A)"
    and far: "closestAtDepth K ?far t m (Suc (length p)) =
      Some (if m < 0 then B else take (nat m) B)" if "m \<noteq> 0" for m
    using node.IH [OF that] by (auto simp: A B split: if_splits)
  have AB: "by_distance bits t (entries (Trie (Some l) (Some r) None None)) = A @ B"
    using by_distance_node [OF inv assms] by (auto simp: A B)
  let ?found = "if n < 0 then A else take (nat n) A"
  have "closestAtDepth K (Trie (Some l) (Some r) None None) t n (length p) =
      (if int (length ?found) = n then Some ?found
       else do { more \<leftarrow> closestAtDepth K ?far t (n - int (length ?found)) (Suc (length p));
                 Some (?found @ more) })"
    using assms dir near [OF node.prems]
    by (subst closestAtDepth.simps) (auto simp: leaf_defs key_laws)
  moreover have "closestAtDepth K ?far t (n - int (length ?found)) (Suc (length p)) =
      Some (if n - int (length ?found) < 0 then B else take (nat (n - int (length ?found))) B)"
    if "int (length ?found) \<noteq> n"
    using that by (intro far) simp
  ultimately show ?case
    unfolding AB by (auto simp: min_def nat_diff_distrib' split: if_splits)
qed

lemma card_trie_keys: "tinv p tr \<Longrightarrow> card (trie_keys tr) = length (entries tr)"
  using tinv_distinct distinct_card by (fastforce simp: trie_keys_def)

text \<open>The set of keys determines the shape of a trie.\<close>

lemma Trie_Equal_law:
  "tinv p a \<Longrightarrow> tinv p b \<Longrightarrow> Trie_Equal K a b = Some (trie_keys a = trie_keys b)"
proof (induction arbitrary: b rule: trie_inv_induct)
  case (empty p)
  have "\<not> IsLeaf b \<Longrightarrow> trie_keys b \<noteq> {}"
    using tinv_two_keys [OF empty] by (auto simp: trie_keys_def)
  with empty show ?case
    by (subst Trie_Equal.simps, cases rule: trie_inv_cases)
      (auto simp: leaf_defs New_def trie_keys_def)
next
  case (leaf p k d)
  have "\<not> IsLeaf b \<Longrightarrow> trie_keys b \<noteq> {k}"
    using tinv_two_keys [OF leaf.prems] card_trie_keys [OF leaf.prems] by auto
  with leaf.prems leaf.hyps show ?case
    by (subst Trie_Equal.simps, cases rule: trie_inv_cases)
      (auto simp: leaf_defs New_def key_laws trie_keys_def)
next
  case (node p l r)
  let ?a = "Trie (Some l) (Some r) None None"
  from node.hyps have inv: "tinv p ?a" by simp
  have two: "2 \<le> card (trie_keys ?a)"
    using tinv_two_keys [OF inv] card_trie_keys [OF inv] by (simp add: IsLeaf_def)
  from node.prems show ?case
  proof (cases rule: trie_inv_cases)
    case empty
    with two show ?thesis
      by (subst Trie_Equal.simps) (auto simp: leaf_defs New_def trie_keys_def)
  next
    case (leaf k d)
    with two show ?thesis by (subst Trie_Equal.simps) (auto simp: leaf_defs)
  next
    case b: (node l2 r2)
    have "trie_keys l \<inter> trie_keys r2 = {}" "trie_keys r \<inter> trie_keys l2 = {}"
      "trie_keys l \<inter> trie_keys r = {}" "trie_keys l2 \<inter> trie_keys r2 = {}"
      using node.hyps(1,2) b(2,3) tinv_branch_keys(4) by blast+
    then have "trie_keys ?a = trie_keys b \<longleftrightarrow>
        trie_keys l = trie_keys l2 \<and> trie_keys r = trie_keys r2"
      unfolding b(1) trie_keys_simps by blast
    then show ?thesis
      using node.IH(1) [OF b(2)] node.IH(2) [OF b(3)]
      by (subst Trie_Equal.simps) (simp add: b(1) leaf_defs Branch_def)
  qed
qed


section \<open>The trie as a map\<close>

lemma add_post_map:
  assumes "tinv p tr" "add_post p tr kk d r"
  shows "map_of (entries (deref tr r)) =
    (if kk \<in> trie_keys tr then map_of (entries tr) else (map_of (entries tr))(kk \<mapsto> Some d))"
proof (cases "kk \<in> trie_keys tr")
  case False
  with assms(2) have m: "mset (entries (deref tr r)) = mset ((kk, Some d) # entries tr)"
    and inv: "tinv p (deref tr r)"
    by (auto simp: add_post_def)
  from m have "set (entries (deref tr r)) = set ((kk, Some d) # entries tr)"
    by (metis set_mset_mset)
  then have "map_of (entries (deref tr r)) = map_of ((kk, Some d) # entries tr)"
    using False tinv_distinct [OF inv] tinv_distinct [OF assms(1)]
    by (intro map_of_mset_eq) (auto simp: trie_keys_def)
  with False show ?thesis by simp
qed (use assms in \<open>auto simp: add_post_def\<close>)

lemma remove_post_map:
  assumes "remove_post p tr kk r"
  shows "map_of (entries (deref tr r)) = (map_of (entries tr))(kk := None)"
  using assms by (simp add: remove_post_def map_of_filter_neq)

lemma Add_law:
  assumes "tinv [] tr" "valid kk"
  obtains r where "Add K tr kk d = Some r" "add_post [] tr kk d r"
    "Trie_Add K tr kk d = Some (deref tr r, kk \<notin> trie_keys tr)"
  using addAtDepth_law [OF assms, of d] by (auto simp: Add_def Trie_Add_def)

lemma Remove_law:
  assumes "tinv [] tr" "valid kk"
  obtains r where "Remove K tr kk = Some r" "remove_post [] tr kk r"
    "Trie_Remove K tr kk = Some (deref tr r, kk \<in> trie_keys tr)"
  using removeAtDepth_law [OF assms] by (auto simp: Remove_def Trie_Remove_def)

lemma Find_law:
  assumes "tinv [] tr" "valid kk"
  shows "Find K tr kk =
    Some (case map_of (entries tr) kk of None \<Rightarrow> (False, None) | Some d \<Rightarrow> (True, d))"
proof -
  obtain f depth where "findFromDepth K tr 0 kk = Some (f, depth)"
    "map_of (entries tr) kk = map_option trieData f"
    using findFromDepth_law [OF assms] by auto
  then show ?thesis by (cases f) (auto simp: Find_def)
qed

lemma Size_law: "tinv [] tr \<Longrightarrow> Size tr = Some (length (entries tr))"
  by (simp add: Size_def sizeAtDepth_law)

lemma Closest_law:
  assumes "tinv [] tr" "valid t" "n \<noteq> 0"
  shows "Closest K tr t n =
    Some (if n < 0 then by_distance bits t (entries tr)
          else take (nat n) (by_distance bits t (entries tr)))"
  using closestAtDepth_law [OF assms(2,1,3)] by (simp add: Closest_def)

lemma by_distance_sorted:
  assumes "tinv [] tr" "valid t"
  shows "sorted_wrt (\<lambda>e e'. dist (fst e) t < dist (fst e') t) (by_distance bits t (entries tr))"
proof -
  let ?es = "by_distance bits t (entries tr)" and ?f = "\<lambda>e. dist (fst e) t"
  have s: "sorted (map ?f ?es)" by (simp add: by_distance_def dist_def)
  have "inj_on ?f (set (entries tr))"
  proof
    fix x y
    assume xy: "x \<in> set (entries tr)" "y \<in> set (entries tr)" "?f x = ?f y"
    then have "fst x = fst y"
      using tinv_keys [OF assms(1)] assms(2) dist_inj by (auto simp: trie_keys_def)
    with xy tinv_distinct [OF assms(1)] show "x = y"
      by (metis (no_types, lifting) distinct_map inj_onD)
  qed
  moreover have "distinct ?es"
    using tinv_distinct [OF assms(1)] by (simp add: by_distance_def distinct_map)
  ultimately have "distinct (map ?f ?es)" by (simp add: distinct_map)
  with s have "sorted_wrt (<) (map ?f ?es)" by (simp add: strict_sorted_iff)
  then show ?thesis by (simp add: sorted_wrt_map)
qed

lemma Add_correct:
  assumes "tinv [] tr" "valid kk"
  shows "\<exists>r. Add K tr kk d = Some r \<and> tinv [] (deref tr r) \<and>
    map_of (entries (deref tr r)) =
      (if kk \<in> trie_keys tr then map_of (entries tr) else (map_of (entries tr))(kk \<mapsto> Some d)) \<and>
    Trie_Add K tr kk d = Some (deref tr r, kk \<notin> trie_keys tr)"
proof (rule Add_law [OF assms, of d])
  fix r
  assume r: "Add K tr kk d = Some r" "add_post [] tr kk d r"
    "Trie_Add K tr kk d = Some (deref tr r, kk \<notin> trie_keys tr)"
  from r(2) have "tinv [] (deref tr r)" by (simp add: add_post_def)
  with r add_post_map [OF assms(1) r(2)] show ?thesis by blast
qed

lemma Remove_correct:
  assumes "tinv [] tr" "valid kk"
  shows "\<exists>r. Remove K tr kk = Some r \<and> tinv [] (deref tr r) \<and>
    map_of (entries (deref tr r)) = (map_of (entries tr))(kk := None) \<and>
    (r = Same \<longleftrightarrow> kk \<notin> trie_keys tr) \<and>
    Trie_Remove K tr kk = Some (deref tr r, kk \<in> trie_keys tr)"
proof (rule Remove_law [OF assms])
  fix r
  assume r: "Remove K tr kk = Some r" "remove_post [] tr kk r"
    "Trie_Remove K tr kk = Some (deref tr r, kk \<in> trie_keys tr)"
  with remove_post_map [OF r(2)] show ?thesis by (auto simp: remove_post_def)
qed

lemma Find_after_Add:
  assumes inv: "tinv [] tr" and v: "valid kk" "valid k" and add: "Add K tr kk d = Some r"
  shows "Find K (deref tr r) k =
    (if k = kk \<and> kk \<notin> trie_keys tr then Some (True, Some d) else Find K tr k)"
proof -
  obtain r' where r: "Add K tr kk d = Some r'" "tinv [] (deref tr r')"
    "map_of (entries (deref tr r')) =
      (if kk \<in> trie_keys tr then map_of (entries tr) else (map_of (entries tr))(kk \<mapsto> Some d))"
    using Add_correct [OF inv v(1)] by blast
  with add have "r' = r" by simp
  with r Find_law [OF inv v(2)] Find_law [OF r(2) v(2)] show ?thesis by auto
qed

lemma Find_after_Remove:
  assumes inv: "tinv [] tr" and v: "valid kk" "valid k" and rem: "Remove K tr kk = Some r"
  shows "Find K (deref tr r) k = (if k = kk then Some (False, None) else Find K tr k)"
proof -
  obtain r' where r: "Remove K tr kk = Some r'" "tinv [] (deref tr r')"
    "map_of (entries (deref tr r')) = (map_of (entries tr))(kk := None)"
    using Remove_correct [OF inv v(1)] by blast
  with rem have "r' = r" by simp
  with r Find_law [OF inv v(2)] Find_law [OF r(2) v(2)] show ?thesis by auto
qed

lemma Closest_correct:
  assumes "tinv [] tr" "valid t" "0 < n"
  shows "Closest K tr t n = Some (take (nat n) (by_distance bits t (entries tr)))"
    and "sorted_wrt (\<lambda>e e'. bval (xor_bits (bits (fst e)) (bits t)) < bval (xor_bits (bits (fst e')) (bits t)))
      (by_distance bits t (entries tr))"
  using Closest_law [OF assms(1,2), of n] by_distance_sorted [OF assms(1,2)] assms(3)
  by (simp_all add: dist_def)

end

section \<open>Properties\<close>

definition trie8 :: "(key8, nat) Trie" where
  "trie8 = Trie (Some (Trie None None (Some 3) (Some 30)))
     (Some (Trie None None (Some 130) (Some 40))) None None"

lemma trie8_inv: "trie_inv (\<lambda>_. True) word_bits [] trie8"
  by code_simp

text \<open>C14: \<open>trie.Add\<close> and the method \<open>Trie.Add\<close> agree: both return (the recursion ends), the trie
  keeps its invariant, the key is bound to the data unless it was bound before, no other binding
  changes, and the method reports whether the key is new.\<close>

theorem trie_add_correct:
  assumes "kad_key K valid len bits"
    and "trie_inv valid bits [] tr" and "valid kk"
  shows "\<exists>r. Add K tr kk d = Some r \<and> trie_inv valid bits [] (deref tr r) \<and>
    map_of (entries (deref tr r)) =
      (if kk \<in> trie_keys tr then map_of (entries tr) else (map_of (entries tr))(kk \<mapsto> Some d)) \<and>
    Trie_Add K tr kk d = Some (deref tr r, kk \<notin> trie_keys tr)"
  by (rule kad_key.Add_correct [OF assms])

theorem trie_add_correct_witness:
  "\<exists>r. Add Key8 trie8 7 70 = Some r \<and>
     trie_inv (\<lambda>_. True) word_bits [] (deref trie8 r) \<and>
     map_of (entries (deref trie8 r)) = (map_of (entries trie8))(7 \<mapsto> Some 70) \<and>
     Trie_Add Key8 trie8 7 70 = Some (deref trie8 r, True)"
proof -
  have "7 \<notin> trie_keys trie8" by code_simp
  with trie_add_correct [OF key8.kad_key_axioms trie8_inv, of 7 70] show ?thesis by simp
qed

text \<open>C16: \<open>trie.Remove\<close> and the method \<open>Trie.Remove\<close> agree: both return, exactly the given key is
  unbound, the invariant (with its shrinking of branches) is kept, and the result is the very
  trie given exactly when the key is not there.\<close>

theorem trie_remove_correct:
  assumes "kad_key K valid len bits"
    and "trie_inv valid bits [] tr" and "valid kk"
  shows "\<exists>r. Remove K tr kk = Some r \<and> trie_inv valid bits [] (deref tr r) \<and>
    map_of (entries (deref tr r)) = (map_of (entries tr))(kk := None) \<and>
    (r = Same \<longleftrightarrow> kk \<notin> trie_keys tr) \<and>
    Trie_Remove K tr kk = Some (deref tr r, kk \<in> trie_keys tr)"
  by (rule kad_key.Remove_correct [OF assms])

theorem trie_remove_correct_witness:
  "\<exists>r. Remove Key8 trie8 3 = Some (Fresh r) \<and> trie_inv (\<lambda>_. True) word_bits [] r \<and>
     map_of (entries r) 3 = None \<and> Trie_Remove Key8 trie8 3 = Some (r, True)"
proof -
  have "3 \<in> trie_keys trie8" by code_simp
  then obtain r where r: "Remove Key8 trie8 3 = Some r" "r \<noteq> Same"
    "trie_inv (\<lambda>_. True) word_bits [] (deref trie8 r)"
    "map_of (entries (deref trie8 r)) = (map_of (entries trie8))(3 := None)"
    "Trie_Remove Key8 trie8 3 = Some (deref trie8 r, True)"
    using trie_remove_correct [OF key8.kad_key_axioms trie8_inv TrueI, of 3] by auto
  then obtain t where "r = Fresh t" by (cases r) auto
  with r show ?thesis by auto
qed

text \<open>Lookup after insert. After \<open>trie.Add\<close> of a new key, \<open>trie.Find\<close> returns its data; every
  other lookup, and every lookup after adding a key that was there, is unchanged.\<close>

theorem trie_find_after_add:
  assumes "kad_key K valid len bits"
    and "trie_inv valid bits [] tr" and "valid kk" and "valid k"
    and "Add K tr kk d = Some r"
  shows "Find K (deref tr r) k =
    (if k = kk \<and> kk \<notin> trie_keys tr then Some (True, Some d) else Find K tr k)"
  by (rule kad_key.Find_after_Add [OF assms])

theorem trie_find_after_add_witness:
  "\<exists>r. Add Key8 trie8 7 70 = Some r \<and> Find Key8 (deref trie8 r) 7 = Some (True, Some 70) \<and>
     Find Key8 (deref trie8 r) 3 = Some (True, Some 30)"
proof -
  obtain r where r: "Add Key8 trie8 7 70 = Some r"
    using key8.Add_correct [OF trie8_inv] by blast
  note find = trie_find_after_add [OF key8.kad_key_axioms trie8_inv TrueI TrueI r]
  have "Find Key8 (deref trie8 r) 7 = Some (True, Some 70)"
    unfolding find by code_simp
  moreover have "Find Key8 (deref trie8 r) 3 = Some (True, Some 30)"
    unfolding find by code_simp
  ultimately show ?thesis using r by blast
qed

text \<open>C1: \<open>trie.Closest\<close> is the reference that sorts all entries by XOR distance: for a positive
  count it returns the closest entries, in strictly increasing distance.\<close>

theorem trie_closest_correct:
  assumes "kad_key K valid len bits"
    and "trie_inv valid bits [] tr" and "valid t" and "0 < n"
  shows "Closest K tr t n = Some (take (nat n) (by_distance bits t (entries tr))) \<and>
    sorted_wrt (\<lambda>e e'. bval (xor_bits (bits (fst e)) (bits t)) <
        bval (xor_bits (bits (fst e')) (bits t))) (by_distance bits t (entries tr))"
  using kad_key.Closest_correct [OF assms] by blast

theorem trie_closest_correct_witness:
  "Closest Key8 trie8 128 1 = Some [(130, Some 40)]"
proof -
  have "by_distance word_bits 128 (entries trie8) = [(130, Some 40), (3, Some 30)]"
    by code_simp
  with trie_closest_correct [OF key8.kad_key_axioms trie8_inv TrueI, of 1 128] show ?thesis by simp
qed

text \<open>C23: \<open>trie.Equal\<close> decides whether two tries hold the same set of keys, although it compares
  their shapes: the shape of a well-formed trie is determined by its keys.\<close>

theorem trie_equal_iff_same_keys:
  assumes "kad_key K valid len bits"
    and "trie_inv valid bits [] a" and "trie_inv valid bits [] b"
  shows "Trie_Equal K a b = Some (trie_keys a = trie_keys b)"
  by (rule kad_key.Trie_Equal_law [OF assms])

theorem trie_equal_iff_same_keys_witness:
  "Trie_Equal Key8 trie8 New = Some False"
proof -
  have "trie_keys trie8 \<noteq> trie_keys (New :: (key8, nat) Trie)" by code_simp
  with trie_equal_iff_same_keys [OF key8.kad_key_axioms trie8_inv key8.tinv_New] show ?thesis
    by simp
qed

end
