(* ===== verification/Routing_Table.thy ===== *)
theory Routing_Table
  imports Kad_Trie
begin

text \<open>
  The interface \<open>RoutingTable\<close> of \<open>kad/kad.go\<close> and its extension \<open>RoutingTableCpl\<close> of
  \<open>routing/probe.go\<close>, as dictionaries of methods, and their contracts as locales. The state of a
  table is a value of type \<open>'rt\<close> that the methods take and return; \<open>contents\<close> is the map from
  Kademlia keys to nodes that it stands for.

  \<^item> \<open>routing_table\<close>: what both tables of the repository do.
  \<^item> \<open>routing_table_strict\<close>: \<open>AddNode\<close> reports \<open>true\<close> only for a node that was not there before.
  \<^item> \<open>routing_table_nearest\<close>: \<open>NearestNodes\<close> returns the closest nodes of the whole table.
\<close>

section \<open>The interfaces\<close>

text \<open>\<open>GetNode\<close> returns a node and a boolean: \<open>Some None\<close> is the pair of the zero value and
  \<open>false\<close>. The outer \<open>None\<close> of every method is a panic.\<close>

record ('k, 'rt) RoutingTable =
  AddNode :: "'rt \<Rightarrow> 'k NodeID \<Rightarrow> ('rt \<times> bool) option"
  RemoveKey :: "'rt \<Rightarrow> 'k \<Rightarrow> ('rt \<times> bool) option"
  NearestNodes :: "'rt \<Rightarrow> 'k \<Rightarrow> int \<Rightarrow> 'k NodeID list option"
  GetNode :: "'rt \<Rightarrow> 'k \<Rightarrow> 'k NodeID option option"

record ('k, 'rt) RoutingTableCpl = "('k, 'rt) RoutingTable" +
  Cpl :: "'rt \<Rightarrow> 'k \<Rightarrow> int"
  CplSize :: "'rt \<Rightarrow> int \<Rightarrow> int option"

text \<open>The XOR distance of two keys, from their bit strings.\<close>

definition bdist :: "('k \<Rightarrow> bool list) \<Rightarrow> 'k \<Rightarrow> 'k \<Rightarrow> nat" where
  "bdist bits a b = bval (xor_bits (bits a) (bits b))"

section \<open>The contracts\<close>

locale routing_table =
  fixes RT :: "('k, 'rt, 'z) RoutingTable_scheme"
    and valid :: "'k \<Rightarrow> bool"
    and bits :: "'k \<Rightarrow> bool list"
    and inv :: "'rt \<Rightarrow> bool"
    and contents :: "'rt \<Rightarrow> 'k \<rightharpoonup> 'k NodeID"
  assumes finite_contents: "inv rt \<Longrightarrow> finite (dom (contents rt))"
    and contents_key: "inv rt \<Longrightarrow> contents rt k = Some n \<Longrightarrow> nodeKey n = k \<and> valid k"
    and AddNode_law:
      "inv rt \<Longrightarrow> valid (nodeKey n) \<Longrightarrow>
       \<exists>rt' added. AddNode RT rt n = Some (rt', added) \<and> inv rt' \<and>
         contents rt' = (if added \<and> nodeKey n \<notin> dom (contents rt)
           then (contents rt)(nodeKey n \<mapsto> n) else contents rt)"
    and RemoveKey_law:
      "inv rt \<Longrightarrow> valid k \<Longrightarrow>
       \<exists>rt'. RemoveKey RT rt k = Some (rt', k \<in> dom (contents rt)) \<and> inv rt' \<and>
         contents rt' = (contents rt)(k := None)"
    and GetNode_law: "inv rt \<Longrightarrow> valid k \<Longrightarrow> GetNode RT rt k = Some (contents rt k)"
    and NearestNodes_law:
      "inv rt \<Longrightarrow> valid k \<Longrightarrow> 0 < m \<Longrightarrow>
       \<exists>ns. NearestNodes RT rt k m = Some ns \<and> int (length ns) \<le> m \<and>
         set ns \<subseteq> ran (contents rt) \<and>
         sorted_wrt (\<lambda>a b. bdist bits (nodeKey a) k < bdist bits (nodeKey b) k) ns"
begin

lemma AddNode_cases:
  assumes "inv rt" "valid (nodeKey n)"
  obtains rt' added where "AddNode RT rt n = Some (rt', added)" "inv rt'"
    "contents rt' = (if added \<and> nodeKey n \<notin> dom (contents rt)
      then (contents rt)(nodeKey n \<mapsto> n) else contents rt)"
  using AddNode_law [OF assms] by blast

lemma RemoveKey_cases:
  assumes "inv rt" "valid k"
  obtains rt' where "RemoveKey RT rt k = Some (rt', k \<in> dom (contents rt))" "inv rt'"
    "contents rt' = (contents rt)(k := None)"
  using RemoveKey_law [OF assms] by blast

text \<open>A node that \<open>AddNode\<close> reports as added is in the table, and can be found there.\<close>

lemma AddNode_found:
  assumes "inv rt" "valid (nodeKey n)" "AddNode RT rt n = Some (rt', True)"
  shows "\<exists>n'. GetNode RT rt' (nodeKey n) = Some (Some n') \<and> nodeKey n' = nodeKey n"
  using assms(1,2)
proof (cases rule: AddNode_cases)
  case (1 rt'' added)
  with assms(3) have eq: "rt'' = rt'" "added" by auto
  with 1(2,3) have "contents rt' (nodeKey n) \<noteq> None" by auto
  then obtain n' where n': "contents rt' (nodeKey n) = Some n'" by blast
  with 1(2) eq assms(2) show ?thesis
    using GetNode_law [of rt' "nodeKey n"] contents_key [of rt' "nodeKey n" n'] by simp
qed

lemma RemoveKey_gone:
  assumes "inv rt" "valid k" "RemoveKey RT rt k = Some (rt', removed)"
  shows "GetNode RT rt' k = Some None"
  using assms(1,2)
proof (cases rule: RemoveKey_cases)
  case (1 rt'')
  with assms(3) have "rt'' = rt'" by simp
  with 1 assms(2) show ?thesis using GetNode_law by simp
qed

end

locale routing_table_strict = routing_table RT valid bits inv contents
  for RT :: "('k, 'rt, 'z) RoutingTable_scheme" and valid bits inv contents +
  assumes AddNode_strict:
    "inv rt \<Longrightarrow> valid (nodeKey n) \<Longrightarrow> AddNode RT rt n = Some (rt', True) \<Longrightarrow>
     nodeKey n \<notin> dom (contents rt)"
begin

lemma AddNode_strict_contents:
  assumes "inv rt" "valid (nodeKey n)" "AddNode RT rt n = Some (rt', True)"
  shows "contents rt' = (contents rt)(nodeKey n \<mapsto> n)"
  using assms(1,2) by (cases rule: AddNode_cases) (use assms AddNode_strict in auto)

end

locale routing_table_nearest = routing_table RT valid bits inv contents
  for RT :: "('k, 'rt, 'z) RoutingTable_scheme" and valid bits inv contents +
  assumes NearestNodes_count:
    "inv rt \<Longrightarrow> valid k \<Longrightarrow> 0 < m \<Longrightarrow> NearestNodes RT rt k m = Some ns \<Longrightarrow>
     length ns = min (nat m) (card (dom (contents rt)))"
    and NearestNodes_closest:
    "inv rt \<Longrightarrow> valid k \<Longrightarrow> 0 < m \<Longrightarrow> NearestNodes RT rt k m = Some ns \<Longrightarrow>
     n \<in> set ns \<Longrightarrow> contents rt k' = Some n' \<Longrightarrow> n' \<notin> set ns \<Longrightarrow>
     bdist bits (nodeKey n) k < bdist bits (nodeKey n') k"
begin

text \<open>The nodes returned are those that have fewer than \<open>m\<close> nodes of the table before them.\<close>

lemma ran_contents: "inv rt \<Longrightarrow> n \<in> ran (contents rt) \<longleftrightarrow> contents rt (nodeKey n) = Some n"
  using contents_key by (fastforce simp: ran_def)

lemma card_ran_contents:
  assumes "inv rt"
  shows "card (ran (contents rt)) = card (dom (contents rt))" "finite (ran (contents rt))"
proof -
  have "ran (contents rt) = (\<lambda>k. the (contents rt k)) ` dom (contents rt)" by (force simp: ran_def dom_def)
  moreover have "inj_on (\<lambda>k. the (contents rt k)) (dom (contents rt))"
    using contents_key [OF assms] by (auto simp: inj_on_def dom_def) metis
  ultimately show "card (ran (contents rt)) = card (dom (contents rt))" "finite (ran (contents rt))"
    using finite_contents [OF assms] by (simp_all add: card_image)
qed

definition nearer :: "'rt \<Rightarrow> 'k \<Rightarrow> 'k NodeID \<Rightarrow> 'k NodeID set" where
  "nearer rt k n = {p \<in> ran (contents rt). bdist bits (nodeKey p) k < bdist bits (nodeKey n) k}"

lemma NearestNodes_rank:
  assumes "inv rt" "valid k" "0 < m"
  shows "\<exists>ns. NearestNodes RT rt k m = Some ns \<and> int (length ns) \<le> m \<and>
    sorted_wrt (\<lambda>a b. bdist bits (nodeKey a) k < bdist bits (nodeKey b) k) ns \<and>
    set ns = {n \<in> ran (contents rt). int (card (nearer rt k n)) < m}"
proof -
  obtain ns where ns: "NearestNodes RT rt k m = Some ns" "int (length ns) \<le> m" "set ns \<subseteq> ran (contents rt)"
    "sorted_wrt (\<lambda>a b. bdist bits (nodeKey a) k < bdist bits (nodeKey b) k) ns"
    using NearestNodes_law [OF assms] by blast
  have count: "length ns = min (nat m) (card (ran (contents rt)))"
    using NearestNodes_count [OF assms ns(1)] card_ran_contents(1) [OF assms(1)] by simp
  have d: "card (set ns) = length ns"
    using ns(4) by (intro distinct_card, induction ns) auto
  have "int (card (nearer rt k n)) < m" if n: "n \<in> set ns" for n
  proof -
    have "nearer rt k n \<subseteq> set ns - {n}"
    proof
      fix p assume p: "p \<in> nearer rt k n"
      then have "contents rt (nodeKey p) = Some p" using ran_contents [OF assms(1)] by (simp add: nearer_def)
      with p NearestNodes_closest [OF assms ns(1) n] show "p \<in> set ns - {n}" by (fastforce simp: nearer_def)
    qed
    then have "card (nearer rt k n) \<le> card (set ns - {n})" by (simp add: card_mono)
    also have "\<dots> < card (set ns)" using n by (intro card_Diff1_less) auto
    finally show ?thesis using d ns(2) by simp
  qed
  moreover have "n \<in> set ns" if n: "n \<in> ran (contents rt)" "int (card (nearer rt k n)) < m" for n
  proof (rule ccontr)
    assume out: "n \<notin> set ns"
    have "contents rt (nodeKey n) = Some n" using n(1) ran_contents [OF assms(1)] by simp
    with out ns(3) NearestNodes_closest [OF assms ns(1)] have "set ns \<subseteq> nearer rt k n" by (auto simp: nearer_def)
    moreover have fin: "finite (nearer rt k n)" using card_ran_contents(2) [OF assms(1)] by (simp add: nearer_def)
    ultimately have "length ns \<le> card (nearer rt k n)" using d by (metis card_mono)
    with n(2) have "length ns = card (ran (contents rt))" using count by linarith
    with d ns(3) card_ran_contents(2) [OF assms(1)] have "set ns = ran (contents rt)"
      by (metis card_subset_eq)
    with out n(1) show False by simp
  qed
  ultimately show ?thesis using ns by (intro exI [of _ ns]) auto
qed

end

end
