(* ===== verification/TrieRT.thy ===== *)
theory TrieRT
  imports Routing_Table
begin

text \<open>
  The routing table of \<open>routing/triert\<close>: a trie of nodes, replaced atomically, with an optional
  filter that is asked before a key is added. The filter receives the table; it can read the
  local key and the current trie, the two fields of \<open>TableView\<close>, of which \<open>TrieRT\<close> is an
  extension. What is done under the mutex or by one access to the atomic value is one step, a
  function on the record. \<open>AddNode\<close> asks the filter before it takes the mutex and so has two steps,
  \<open>TrieRT_filter\<close> and \<open>TrieRT_insert\<close>; \<open>TrieRT_AddNode\<close> is their composition, a call that no other disturbs.
\<close>

section \<open>The table\<close>

record 'k TableView =
  rt_self :: 'k
  rt_trie :: "('k, 'k NodeID) Trie"

type_synonym 'k KeyFilterFunc = "'k TableView \<Rightarrow> 'k \<Rightarrow> bool option"

record 'k TrieRT = "'k TableView" +
  keyFilter :: "'k KeyFilterFunc option"

record 'k TrieRTConfig =
  KeyFilter :: "'k KeyFilterFunc option"

definition TrieRT_DefaultConfig :: "'k TrieRTConfig" where
  "TrieRT_DefaultConfig = \<lparr>KeyFilter = None\<rparr>"

definition TrieRT_apply :: "'k TrieRT \<Rightarrow> 'k TrieRTConfig option \<Rightarrow> 'k TrieRT" where
  "TrieRT_apply rt cfg =
     (let c = (case cfg of None \<Rightarrow> TrieRT_DefaultConfig | Some c \<Rightarrow> c)
      in rt\<lparr>keyFilter := KeyFilter c\<rparr>)"

definition TrieRT_New :: "'k NodeID \<Rightarrow> 'k TrieRTConfig option \<Rightarrow> 'k TrieRT" where
  "TrieRT_New self cfg =
     TrieRT_apply \<lparr>rt_self = nodeKey self, rt_trie = New, keyFilter = None\<rparr> cfg"

text \<open>\<open>AddNode\<close> evaluates the filter before it takes the lock; only the insertion is atomic.\<close>

definition TrieRT_filter :: "'k TrieRT \<Rightarrow> 'k NodeID \<Rightarrow> bool option" where
  "TrieRT_filter rt node =
     (case keyFilter rt of
        None \<Rightarrow> Some True
      | Some f \<Rightarrow> f (TableView.truncate rt) (nodeKey node))"

definition TrieRT_insert :: "'k Key \<Rightarrow> 'k TrieRT \<Rightarrow> 'k NodeID \<Rightarrow> ('k TrieRT \<times> bool) option" where
  "TrieRT_insert K rt node = do {
     next \<leftarrow> Add K (rt_trie rt) (nodeKey node) node;
     case next of
       Same \<Rightarrow> Some (rt, False)
     | Fresh t \<Rightarrow> Some (rt\<lparr>rt_trie := t\<rparr>, True)
   }"

definition TrieRT_AddNode ::
  "'k Key \<Rightarrow> 'k TrieRT \<Rightarrow> 'k NodeID \<Rightarrow> ('k TrieRT \<times> bool) option" where
  "TrieRT_AddNode K rt node = do {
     accept \<leftarrow> TrieRT_filter rt node;
     if \<not> accept then Some (rt, False) else TrieRT_insert K rt node
   }"

definition TrieRT_RemoveKey :: "'k Key \<Rightarrow> 'k TrieRT \<Rightarrow> 'k \<Rightarrow> ('k TrieRT \<times> bool) option" where
  "TrieRT_RemoveKey K rt kk = do {
     next \<leftarrow> Remove K (rt_trie rt) kk;
     case next of
       Same \<Rightarrow> Some (rt, False)
     | Fresh t \<Rightarrow> Some (rt\<lparr>rt_trie := t\<rparr>, True)
   }"

text \<open>The nodes of the entries; an entry without data would be a nil node.\<close>

fun entryNodes :: "('k, 'd option) Entry list \<Rightarrow> 'd list option" where
  "entryNodes [] = Some []"
| "entryNodes ((k, d) # es) = do { n \<leftarrow> d; ns \<leftarrow> entryNodes es; Some (n # ns) }"

definition TrieRT_NearestNodes ::
  "'k Key \<Rightarrow> 'k TrieRT \<Rightarrow> 'k \<Rightarrow> int \<Rightarrow> 'k NodeID list option" where
  "TrieRT_NearestNodes K rt target n = do {
     closestEntries \<leftarrow> Closest K (rt_trie rt) target n;
     if closestEntries = [] then Some [] else entryNodes closestEntries
   }"

definition TrieRT_GetNode :: "'k Key \<Rightarrow> 'k TrieRT \<Rightarrow> 'k \<Rightarrow> 'k NodeID option option" where
  "TrieRT_GetNode K rt kk = do {
     (found, node) \<leftarrow> Find K (rt_trie rt) kk;
     if \<not> found then Some None else Some node
   }"

definition TrieRT_Size :: "'k TrieRT \<Rightarrow> nat option" where
  "TrieRT_Size rt = Size (rt_trie rt)"

definition TrieRT_Cpl :: "'k Key \<Rightarrow> ('k, 'z) TableView_scheme \<Rightarrow> 'k \<Rightarrow> int" where
  "TrieRT_Cpl K rt kk = CommonPrefixLength K (rt_self rt) kk"

function countCpl :: "'k Key \<Rightarrow> ('k, 'd) Trie \<Rightarrow> 'k \<Rightarrow> int \<Rightarrow> nat \<Rightarrow> int option" where
  "countCpl K t kk cpl depth =
     (if IsLeaf t then
        (case trieKey t of
           None \<Rightarrow> Some 0
         | Some k \<Rightarrow> if CommonPrefixLength K kk k = cpl then Some 1 else Some 0)
      else if int depth > BitLen K kk then Some 0
      else if int depth = cpl then do {
        dir \<leftarrow> Bit K kk (int depth);
        c \<leftarrow> Branch t (1 - dir);
        s \<leftarrow> Size c;
        Some (int s)
      }
      else do {
        dir \<leftarrow> Bit K kk (int depth);
        case Branch t dir of
          None \<Rightarrow> None
        | Some c \<Rightarrow> countCpl K c kk cpl (Suc depth)
      })"
  by pat_completeness auto
termination
  by (relation "measure (\<lambda>(K, t, kk, cpl, depth). size t)") auto

declare countCpl.simps [simp del]

definition TrieRT_CplSize :: "'k Key \<Rightarrow> ('k, 'z) TableView_scheme \<Rightarrow> int \<Rightarrow> int option" where
  "TrieRT_CplSize K rt cpl = countCpl K (rt_trie rt) (rt_self rt) cpl 0"

definition BucketLimit20 :: "'k Key \<Rightarrow> 'k KeyFilterFunc" where
  "BucketLimit20 K rt kk = do {
     let cpl = TrieRT_Cpl K rt kk;
     n \<leftarrow> TrieRT_CplSize K rt cpl;
     Some (n < 20)
   }"

text \<open>The dictionary of the methods.\<close>

definition TrieRT_methods :: "'k Key \<Rightarrow> ('k, 'k TrieRT) RoutingTableCpl" where
  "TrieRT_methods K = \<lparr>AddNode = TrieRT_AddNode K, RemoveKey = TrieRT_RemoveKey K,
     NearestNodes = TrieRT_NearestNodes K, GetNode = TrieRT_GetNode K,
     Cpl = TrieRT_Cpl K, CplSize = TrieRT_CplSize K\<rparr>"

section \<open>Invariant and contents\<close>

definition view_inv ::
  "('k \<Rightarrow> bool) \<Rightarrow> ('k \<Rightarrow> bool list) \<Rightarrow> ('k, 'z) TableView_scheme \<Rightarrow> bool" where
  "view_inv valid bits rt \<longleftrightarrow>
     valid (rt_self rt) \<and> trie_inv valid bits [] (rt_trie rt) \<and>
     (\<forall>(k, d) \<in> set (entries (rt_trie rt)). \<forall>n. d = Some n \<longrightarrow> nodeKey n = k)"

text \<open>The filter must not panic on a well-formed table.\<close>

definition trie_rt_inv :: "('k \<Rightarrow> bool) \<Rightarrow> ('k \<Rightarrow> bool list) \<Rightarrow> 'k TrieRT \<Rightarrow> bool" where
  "trie_rt_inv valid bits rt \<longleftrightarrow>
     view_inv valid bits rt \<and>
     (\<forall>f. keyFilter rt = Some f \<longrightarrow>
        (\<forall>v kk. view_inv valid bits v \<and> valid kk \<longrightarrow> f v kk \<noteq> None))"

definition trie_rt_contents :: "('k, 'z) TableView_scheme \<Rightarrow> 'k \<rightharpoonup> 'k NodeID" where
  "trie_rt_contents rt k = Option.bind (map_of (entries (rt_trie rt)) k) id"

section \<open>Correctness\<close>

text \<open>The number of entries at a given common prefix length with a key.\<close>

definition bucket_count :: "('k \<Rightarrow> bool list) \<Rightarrow> 'k \<Rightarrow> ('k, 'd) Trie \<Rightarrow> int \<Rightarrow> int" where
  "bucket_count bits kk t c =
     int (length (filter (\<lambda>e. int (cpl_bits (bits kk) (bits (fst e))) = c) (entries t)))"

lemma entryNodes_eq:
  "(\<forall>e \<in> set es. snd e \<noteq> None) \<Longrightarrow> entryNodes es = Some (map (\<lambda>e. the (snd e)) es)"
  by (induction es rule: entryNodes.induct) auto

context kad_key
begin

lemma cpl_diff_at:
  assumes "valid a" "valid b" "n < len" "take n (bits a) = take n (bits b)"
  shows "bits a ! n \<noteq> bits b ! n \<Longrightarrow> cpl_bits (bits a) (bits b) = n"
    and "bits a ! n = bits b ! n \<Longrightarrow> n < cpl_bits (bits a) (bits b)"
proof -
  have le: "n \<le> cpl_bits (bits a) (bits b)"
    using assms by (simp add: cpl_ge_iff length_bits)
  have suc: "Suc n \<le> cpl_bits (bits a) (bits b) \<longleftrightarrow> bits a ! n = bits b ! n"
    using assms by (simp add: cpl_ge_iff length_bits take_Suc_conv_app_nth)
  from le suc show "bits a ! n \<noteq> bits b ! n \<Longrightarrow> cpl_bits (bits a) (bits b) = n"
    "bits a ! n = bits b ! n \<Longrightarrow> n < cpl_bits (bits a) (bits b)"
    by auto
qed

lemma bucket_count_node:
  assumes inv: "tinv p (Trie (Some l) (Some r) None None)"
    and kk: "valid kk" "take (length p) (bits kk) = p"
  shows "bucket_count bits kk (Trie (Some l) (Some r) None None) c =
    (if c = int (length p) then int (length (entries (if bits kk ! length p then l else r)))
     else bucket_count bits kk (if bits kk ! length p then r else l) c)"
proof -
  note depth = tinv_node_depth [OF inv]
  have far: "cpl_bits (bits kk) (bits (fst e)) = length p"
    if "e \<in> set (entries (if bits kk ! length p then l else r))" for e
    using that inv kk depth tinv_branch_keys [of p False l "fst e"]
      tinv_branch_keys [of p True r "fst e"] cpl_diff_at(1) [of kk "fst e" "length p"]
    by (auto simp: trie_keys_def split: if_splits)
  have near: "length p < cpl_bits (bits kk) (bits (fst e))"
    if "e \<in> set (entries (if bits kk ! length p then r else l))" for e
    using that inv kk depth tinv_branch_keys [of p False l "fst e"]
      tinv_branch_keys [of p True r "fst e"] cpl_diff_at(2) [of kk "fst e" "length p"]
    by (auto simp: trie_keys_def split: if_splits)
  let ?near = "if bits kk ! length p then r else l" and ?far = "if bits kk ! length p then l else r"
  let ?P = "\<lambda>e. int (cpl_bits (bits kk) (bits (fst e))) = c"
  have f: "length (filter ?P (entries ?far)) = (if c = int (length p) then length (entries ?far) else 0)"
  proof (cases "c = int (length p)")
    case True
    then have "filter ?P (entries ?far) = entries ?far" using far by (intro filter_True) auto
    with True show ?thesis by simp
  next
    case False
    then have "filter ?P (entries ?far) = []" using far by (intro filter_False) auto
    with False show ?thesis by simp
  qed
  have n: "filter ?P (entries ?near) = []" if "c = int (length p)"
    using that near by (intro filter_False) fastforce
  have "length (filter ?P (entries (Trie (Some l) (Some r) None None))) =
      length (filter ?P (entries ?near)) + length (filter ?P (entries ?far))"
    by simp
  then show ?thesis
    unfolding bucket_count_def f using n by simp
qed

lemma countCpl_law:
  "tinv p t \<Longrightarrow> valid kk \<Longrightarrow> take (length p) (bits kk) = p \<Longrightarrow>
   countCpl K t kk c (length p) = Some (bucket_count bits kk t c)"
proof (induction rule: trie_inv_induct)
  case (empty p)
  then show ?case by (subst countCpl.simps) (simp add: leaf_defs New_def bucket_count_def)
next
  case (leaf p k d)
  then show ?case by (subst countCpl.simps) (simp add: leaf_defs bucket_count_def key_laws)
next
  case (node p l r)
  then have inv: "tinv p (Trie (Some l) (Some r) None None)" by simp
  note dir = node_dir [OF inv node.prems(1)] node_child [OF inv node.prems]
    tinv_node_depth [OF inv]
  have IH: "countCpl K (if bits kk ! length p then r else l) kk c (Suc (length p)) =
      Some (bucket_count bits kk (if bits kk ! length p then r else l) c)"
    using node.IH [OF node.prems(1)] dir(5) by (auto split: if_splits)
  have size: "Size (if bits kk ! length p then l else r) =
      Some (length (entries (if bits kk ! length p then l else r)))"
    using inv sizeAtDepth_law by (auto simp: Size_def)
  show ?case
    unfolding bucket_count_node [OF inv node.prems]
    by (subst countCpl.simps)
      (use node.prems IH size dir in \<open>auto simp: leaf_defs key_laws\<close>)
qed

lemma CplSize_law:
  assumes "view_inv valid bits rt"
  shows "TrieRT_CplSize K rt c = Some (bucket_count bits (rt_self rt) (rt_trie rt) c)"
  using assms countCpl_law [of "[]" "rt_trie rt" "rt_self rt" c]
  by (simp add: view_inv_def TrieRT_CplSize_def)

lemma Cpl_law:
  assumes "view_inv valid bits rt" "valid kk"
  shows "TrieRT_Cpl K rt kk = int (cpl_bits (bits (rt_self rt)) (bits kk))"
  using assms by (simp add: view_inv_def TrieRT_Cpl_def key_laws)

lemma BucketLimit20_law:
  assumes "view_inv valid bits rt" "valid kk"
  shows "BucketLimit20 K rt kk =
    Some (bucket_count bits (rt_self rt) (rt_trie rt)
      (int (cpl_bits (bits (rt_self rt)) (bits kk))) < 20)"
  using assms by (simp add: BucketLimit20_def CplSize_law Cpl_law)

lemma view_inv_truncate [simp]:
  "view_inv valid bits (TableView.truncate rt) = view_inv valid bits rt"
  by (simp add: view_inv_def TableView.defs)

lemma contents_eq_Some:
  assumes "view_inv valid bits rt"
  shows "trie_rt_contents rt k = Some n \<longleftrightarrow> (k, Some n) \<in> set (entries (rt_trie rt))"
  using assms tinv_distinct [of "[]" "rt_trie rt"]
  by (auto simp: trie_rt_contents_def view_inv_def bind_eq_Some)

lemma dom_contents:
  assumes "view_inv valid bits rt"
  shows "dom (trie_rt_contents rt) = trie_keys (rt_trie rt)"
proof -
  from assms have inv: "tinv [] (rt_trie rt)" by (simp add: view_inv_def)
  have "k \<in> dom (trie_rt_contents rt)" if "k \<in> trie_keys (rt_trie rt)" for k
  proof -
    from that obtain d where "(k, d) \<in> set (entries (rt_trie rt))"
      by (auto simp: trie_keys_def)
    with tinv_data [OF inv this] show ?thesis
      using contents_eq_Some [OF assms] by blast
  qed
  moreover have "k \<in> trie_keys (rt_trie rt)" if d: "k \<in> dom (trie_rt_contents rt)" for k
  proof -
    from d obtain n where "trie_rt_contents rt k = Some n" by blast
    then have "(k, Some n) \<in> set (entries (rt_trie rt))" by (simp add: contents_eq_Some [OF assms])
    then show ?thesis unfolding trie_keys_def by (rule image_eqI [rotated]) simp
  qed
  ultimately show ?thesis by blast
qed

lemma view_inv_trie:
  assumes "view_inv valid bits rt" "tinv [] t"
    and "\<And>k n. (k, Some n) \<in> set (entries t) \<Longrightarrow> nodeKey n = k"
  shows "view_inv valid bits (rt\<lparr>rt_trie := t\<rparr>)"
  using assms by (auto simp: view_inv_def)

text \<open>The insertion of a node: it reports \<open>true\<close> for a new one, and for one that is present already
  if the table holds two nodes or more.\<close>

lemma TrieRT_insert_law:
  assumes inv: "trie_rt_inv valid bits rt" and n: "valid (nodeKey n)"
  shows "\<exists>rt'. TrieRT_insert K rt n = Some (rt', nodeKey n \<in> dom (trie_rt_contents rt) \<longrightarrow> \<not> IsLeaf (rt_trie rt)) \<and>
    trie_rt_inv valid bits rt' \<and> rt_self rt' = rt_self rt \<and> keyFilter rt' = keyFilter rt \<and>
    trie_rt_contents rt' = (if nodeKey n \<in> dom (trie_rt_contents rt) then trie_rt_contents rt
      else (trie_rt_contents rt)(nodeKey n \<mapsto> n))"
proof -
  from inv have v: "view_inv valid bits rt" and t: "tinv [] (rt_trie rt)"
    by (simp_all add: trie_rt_inv_def view_inv_def)
  obtain r where r: "Add K (rt_trie rt) (nodeKey n) n = Some r"
    "add_post [] (rt_trie rt) (nodeKey n) n r"
    using Add_law [OF t n, of n] by blast
  have map: "map_of (entries (deref (rt_trie rt) r)) =
      (if nodeKey n \<in> trie_keys (rt_trie rt) then map_of (entries (rt_trie rt))
       else (map_of (entries (rt_trie rt)))(nodeKey n \<mapsto> Some n))"
    by (rule add_post_map [OF t r(2)])
  have ti: "tinv [] (deref (rt_trie rt) r)" using r(2) by (simp add: add_post_def)
  have keyed: "nodeKey m = k" if "(k, Some m) \<in> set (entries (deref (rt_trie rt) r))" for k m
  proof -
    from that have "map_of (entries (deref (rt_trie rt) r)) k = Some (Some m)"
      using tinv_distinct [OF ti] by simp
    with v map show ?thesis
      by (auto simp: view_inv_def split: if_splits dest!: map_of_SomeD)
  qed
  have vi: "view_inv valid bits (rt\<lparr>rt_trie := deref (rt_trie rt) r\<rparr>)"
    using view_inv_trie [OF v ti keyed] by blast
  have c: "trie_rt_contents (rt\<lparr>rt_trie := deref (rt_trie rt) r\<rparr>) =
      (if nodeKey n \<in> dom (trie_rt_contents rt) then trie_rt_contents rt
       else (trie_rt_contents rt)(nodeKey n \<mapsto> n))"
    unfolding dom_contents [OF v] by (auto simp: trie_rt_contents_def map fun_eq_iff)
  have "TrieRT_insert K rt n = Some (rt\<lparr>rt_trie := deref (rt_trie rt) r\<rparr>,
      nodeKey n \<in> dom (trie_rt_contents rt) \<longrightarrow> \<not> IsLeaf (rt_trie rt))"
    using r unfolding dom_contents [OF v]
    by (cases r) (auto simp: TrieRT_insert_def add_post_def)
  then show ?thesis using inv vi c by (auto simp: trie_rt_inv_def)
qed

lemma TrieRT_filter_total:
  "trie_rt_inv valid bits rt \<Longrightarrow> valid (nodeKey n) \<Longrightarrow> \<exists>accept. TrieRT_filter rt n = Some accept"
  by (force simp: TrieRT_filter_def trie_rt_inv_def split: option.splits)

lemma TrieRT_AddNode_law:
  assumes inv: "trie_rt_inv valid bits rt" and n: "valid (nodeKey n)"
  shows "\<exists>rt' added. TrieRT_AddNode K rt n = Some (rt', added) \<and> trie_rt_inv valid bits rt' \<and>
    rt_self rt' = rt_self rt \<and> keyFilter rt' = keyFilter rt \<and>
    (added \<longleftrightarrow> TrieRT_filter rt n = Some True \<and>
       (nodeKey n \<in> dom (trie_rt_contents rt) \<longrightarrow> \<not> IsLeaf (rt_trie rt))) \<and>
    trie_rt_contents rt' = (if TrieRT_filter rt n = Some True \<and> nodeKey n \<notin> dom (trie_rt_contents rt)
      then (trie_rt_contents rt)(nodeKey n \<mapsto> n) else trie_rt_contents rt)"
proof -
  obtain accept where a: "TrieRT_filter rt n = Some accept" using TrieRT_filter_total [OF assms] by blast
  show ?thesis
  proof (cases accept)
    case True
    with a TrieRT_insert_law [OF assms] show ?thesis by (auto simp: TrieRT_AddNode_def)
  next
    case False
    with a inv show ?thesis by (intro exI [of _ rt] exI [of _ False]) (simp add: TrieRT_AddNode_def)
  qed
qed

text \<open>A trie that is not a leaf has two entries at least.\<close>

lemma leaf_card:
  assumes "view_inv valid bits rt"
  shows "IsLeaf (rt_trie rt) \<longleftrightarrow> card (dom (trie_rt_contents rt)) < 2"
proof -
  from assms have t: "tinv [] (rt_trie rt)" by (simp add: view_inv_def)
  have c: "card (dom (trie_rt_contents rt)) = length (entries (rt_trie rt))"
    using card_trie_keys [OF t] by (simp add: dom_contents [OF assms])
  show ?thesis
  proof
    assume leaf: "IsLeaf (rt_trie rt)"
    from t have "length (entries (rt_trie rt)) \<le> 1"
      by (cases rule: trie_inv_cases) (use leaf in \<open>auto simp: leaf_defs New_def\<close>)
    then show "card (dom (trie_rt_contents rt)) < 2" by (simp add: c)
  next
    assume "card (dom (trie_rt_contents rt)) < 2"
    then show "IsLeaf (rt_trie rt)" using tinv_two_keys [OF t] c by linarith
  qed
qed

lemma TrieRT_RemoveKey_law:
  assumes inv: "trie_rt_inv valid bits rt" and k: "valid k"
  shows "\<exists>rt'. TrieRT_RemoveKey K rt k = Some (rt', k \<in> dom (trie_rt_contents rt)) \<and>
    trie_rt_inv valid bits rt' \<and> rt_self rt' = rt_self rt \<and> keyFilter rt' = keyFilter rt \<and>
    trie_rt_contents rt' = (trie_rt_contents rt)(k := None)"
proof -
  from inv have v: "view_inv valid bits rt" and t: "tinv [] (rt_trie rt)"
    by (simp_all add: trie_rt_inv_def view_inv_def)
  obtain r where r: "Remove K (rt_trie rt) k = Some r" "remove_post [] (rt_trie rt) k r"
    using Remove_law [OF t k] by blast
  have vi: "view_inv valid bits (rt\<lparr>rt_trie := deref (rt_trie rt) r\<rparr>)"
    using v r(2) by (auto simp: view_inv_def remove_post_def)
  have c: "trie_rt_contents (rt\<lparr>rt_trie := deref (rt_trie rt) r\<rparr>) =
      (trie_rt_contents rt)(k := None)"
    by (auto simp: trie_rt_contents_def remove_post_map [OF r(2)] fun_eq_iff)
  show ?thesis
    using inv r vi c dom_contents [OF v]
    by (cases r) (auto simp: TrieRT_RemoveKey_def trie_rt_inv_def remove_post_def)
qed

lemma TrieRT_GetNode_law:
  assumes "view_inv valid bits rt" "valid k"
  shows "TrieRT_GetNode K rt k = Some (trie_rt_contents rt k)"
  using assms Find_law [of "rt_trie rt" k]
  by (auto simp: TrieRT_GetNode_def trie_rt_contents_def view_inv_def split: option.splits)

lemma TrieRT_NearestNodes_law:
  assumes "view_inv valid bits rt" "valid k" "n \<noteq> 0"
  shows "TrieRT_NearestNodes K rt k n =
    Some (map (\<lambda>e. the (snd e))
      (if n < 0 then by_distance bits k (entries (rt_trie rt))
       else take (nat n) (by_distance bits k (entries (rt_trie rt)))))"
proof -
  from assms have t: "tinv [] (rt_trie rt)" by (simp add: view_inv_def)
  let ?es = "if n < 0 then by_distance bits k (entries (rt_trie rt))
       else take (nat n) (by_distance bits k (entries (rt_trie rt)))"
  have "snd e \<noteq> None" if "e \<in> set ?es" for e
  proof -
    from that have "e \<in> set (entries (rt_trie rt))" by (auto dest: in_set_takeD split: if_splits)
    with tinv_data [OF t, of "fst e" "snd e"] show ?thesis by auto
  qed
  then have "entryNodes ?es = Some (map (\<lambda>e. the (snd e)) ?es)" by (intro entryNodes_eq) blast
  with Closest_law [OF t assms(2,3)] show ?thesis
    by (simp add: TrieRT_NearestNodes_def del: if_split_asm)
qed

lemma nearest_nodes:
  assumes v: "view_inv valid bits rt" and k: "valid k"
  defines "ns \<equiv> map (\<lambda>e. the (snd e)) (by_distance bits k (entries (rt_trie rt)))"
  shows "set ns = ran (trie_rt_contents rt)"
    and "length ns = card (dom (trie_rt_contents rt))"
    and "sorted_wrt (\<lambda>a b. bdist bits (nodeKey a) k < bdist bits (nodeKey b) k) ns"
proof -
  from v have t: "tinv [] (rt_trie rt)" by (simp add: view_inv_def)
  have e: "snd e = Some (the (snd e)) \<and> nodeKey (the (snd e)) = fst e"
    if "e \<in> set (entries (rt_trie rt))" for e
    using that v tinv_data [OF t, of "fst e" "snd e"] by (cases e) (auto simp: view_inv_def)
  show "set ns = ran (trie_rt_contents rt)"
  proof (intro set_eqI iffI)
    fix n assume "n \<in> set ns"
    then obtain x where x: "x \<in> set (entries (rt_trie rt))" "n = the (snd x)"
      by (auto simp: ns_def)
    with e [OF x(1)] have "(fst x, Some n) \<in> set (entries (rt_trie rt))"
      by (cases x) auto
    then show "n \<in> ran (trie_rt_contents rt)"
      by (auto simp: ran_def contents_eq_Some [OF v])
  next
    fix n assume "n \<in> ran (trie_rt_contents rt)"
    then obtain x where "(x, Some n) \<in> set (entries (rt_trie rt))"
      by (auto simp: ran_def contents_eq_Some [OF v])
    then show "n \<in> set ns" by (force simp: ns_def)
  qed
  show "length ns = card (dom (trie_rt_contents rt))"
    using card_trie_keys [OF t] by (simp add: ns_def dom_contents [OF v])
  have "sorted_wrt (\<lambda>x y. bdist bits (nodeKey (the (snd x))) k < bdist bits (nodeKey (the (snd y))) k)
     (by_distance bits k (entries (rt_trie rt)))"
    by (rule sorted_wrt_mono_rel [OF _ by_distance_sorted [OF t k]])
      (use e in \<open>auto simp: bdist_def dist_def\<close>)
  then show "sorted_wrt (\<lambda>a b. bdist bits (nodeKey a) k < bdist bits (nodeKey b) k) ns"
    by (simp add: ns_def sorted_wrt_map)
qed

end

lemma sorted_wrt_take_drop:
  assumes "sorted_wrt P xs" "x \<in> set (take n xs)" "y \<in> set xs" "y \<notin> set (take n xs)"
  shows "P x y"
proof -
  have xs: "xs = take n xs @ drop n xs" by simp
  with assms(3,4) have "y \<in> set (drop n xs)" by (metis Un_iff set_append)
  with assms(1,2) xs show ?thesis by (metis sorted_wrt_append)
qed

sublocale kad_key \<subseteq> trt: routing_table_nearest "TrieRT_methods K" valid bits
  "trie_rt_inv valid bits" trie_rt_contents
proof
  fix rt :: "'k TrieRT"
  assume inv: "trie_rt_inv valid bits rt"
  then have v: "view_inv valid bits rt" and t: "tinv [] (rt_trie rt)"
    by (simp_all add: trie_rt_inv_def view_inv_def)
  show "finite (dom (trie_rt_contents rt))"
    by (simp add: dom_contents [OF v] trie_keys_def)
  show "nodeKey n = k \<and> valid k" if "trie_rt_contents rt k = Some n" for k n
  proof -
    from that have "(k, Some n) \<in> set (entries (rt_trie rt))"
      by (simp add: contents_eq_Some [OF v])
    with v tinv_keys [OF t] show ?thesis by (force simp: view_inv_def trie_keys_def)
  qed
  show "\<exists>rt' added. AddNode (TrieRT_methods K) rt n = Some (rt', added) \<and>
      trie_rt_inv valid bits rt' \<and> trie_rt_contents rt' =
        (if added \<and> nodeKey n \<notin> dom (trie_rt_contents rt)
         then (trie_rt_contents rt)(nodeKey n \<mapsto> n) else trie_rt_contents rt)"
    if n: "valid (nodeKey n)" for n
  proof -
    obtain rt' added where "TrieRT_AddNode K rt n = Some (rt', added)" "trie_rt_inv valid bits rt'"
      "added \<longleftrightarrow> TrieRT_filter rt n = Some True \<and> (nodeKey n \<in> dom (trie_rt_contents rt) \<longrightarrow> \<not> IsLeaf (rt_trie rt))"
      "trie_rt_contents rt' = (if TrieRT_filter rt n = Some True \<and> nodeKey n \<notin> dom (trie_rt_contents rt)
         then (trie_rt_contents rt)(nodeKey n \<mapsto> n) else trie_rt_contents rt)"
      using TrieRT_AddNode_law [OF inv n] by blast
    then show ?thesis by (intro exI [of _ rt'] exI [of _ added]) (auto simp: TrieRT_methods_def)
  qed
  show "\<exists>rt'. RemoveKey (TrieRT_methods K) rt k = Some (rt', k \<in> dom (trie_rt_contents rt)) \<and>
      trie_rt_inv valid bits rt' \<and> trie_rt_contents rt' = (trie_rt_contents rt)(k := None)"
    if "valid k" for k
    using TrieRT_RemoveKey_law [OF inv that] by (auto simp: TrieRT_methods_def)
  show "GetNode (TrieRT_methods K) rt k = Some (trie_rt_contents rt k)" if "valid k" for k
    using TrieRT_GetNode_law [OF v that] by (simp add: TrieRT_methods_def)
  fix k :: 'k and m :: int
  assume k: "valid k" and m: "0 < m"
  define all where "all = map (\<lambda>e. the (snd e)) (by_distance bits k (entries (rt_trie rt)))"
  note near = nearest_nodes [OF v k, folded all_def]
  have eq: "NearestNodes (TrieRT_methods K) rt k m = Some (take (nat m) all)"
    using TrieRT_NearestNodes_law [OF v k, of m] m
    by (simp add: TrieRT_methods_def all_def take_map)
  show "\<exists>ns. NearestNodes (TrieRT_methods K) rt k m = Some ns \<and> int (length ns) \<le> m \<and>
      set ns \<subseteq> ran (trie_rt_contents rt) \<and>
      sorted_wrt (\<lambda>a b. bdist bits (nodeKey a) k < bdist bits (nodeKey b) k) ns"
    using near m by (auto simp: eq sorted_wrt_take dest: in_set_takeD)
  fix ns
  assume ns: "NearestNodes (TrieRT_methods K) rt k m = Some ns"
  with eq near show "length ns = min (nat m) (card (dom (trie_rt_contents rt)))" by auto
  show "bdist bits (nodeKey n) k < bdist bits (nodeKey n') k"
    if "n \<in> set ns" "trie_rt_contents rt k' = Some n'" "n' \<notin> set ns" for n n' k'
    using that ns eq near sorted_wrt_take_drop [OF near(3), of n "nat m" n'] by (auto intro: ranI)
qed

context kad_key
begin

lemma TrieRT_New_inv:
  assumes "valid (nodeKey self)"
    and "\<And>c f v kk. cfg = Some c \<Longrightarrow> KeyFilter c = Some f \<Longrightarrow> view_inv valid bits v \<Longrightarrow>
      valid kk \<Longrightarrow> f v kk \<noteq> None"
  shows "trie_rt_inv valid bits (TrieRT_New self cfg)"
    and "trie_rt_contents (TrieRT_New self cfg) = Map.empty"
  using assms
  by (auto simp: trie_rt_inv_def TrieRT_New_def TrieRT_apply_def TrieRT_DefaultConfig_def
      view_inv_def New_def trie_rt_contents_def Let_def split: option.splits)

lemma BucketLimit20_total:
  "view_inv valid bits v \<Longrightarrow> valid kk \<Longrightarrow> BucketLimit20 K v kk \<noteq> None"
  using BucketLimit20_law by simp

text \<open>What an insertion and a removal do to the size of a bucket.\<close>

lemma bucket_count_add:
  "mset (entries t') = add_mset (k, d) (mset (entries t)) \<Longrightarrow>
   bucket_count bits kk t' c =
     bucket_count bits kk t c + (if int (cpl_bits (bits kk) (bits k)) = c then 1 else 0)"
  unfolding bucket_count_def size_mset [symmetric] mset_filter by simp

lemma insert_bucket_count:
  assumes inv: "trie_rt_inv valid bits rt" and n: "valid (nodeKey n)"
    and add: "TrieRT_insert K rt n = Some (rt', b)"
  shows "bucket_count bits kk (rt_trie rt') c \<le>
    bucket_count bits kk (rt_trie rt) c + of_bool (int (cpl_bits (bits kk) (bits (nodeKey n))) = c)"
proof -
  from inv have t: "tinv [] (rt_trie rt)" by (simp add: trie_rt_inv_def view_inv_def)
  obtain r where r: "Add K (rt_trie rt) (nodeKey n) n = Some r"
    "add_post [] (rt_trie rt) (nodeKey n) n r"
    using Add_law [OF t n, of n] by blast
  have rt': "rt' = rt\<lparr>rt_trie := deref (rt_trie rt) r\<rparr>"
    using add r(1) by (cases r) (auto simp: TrieRT_insert_def)
  show ?thesis
  proof (cases "nodeKey n \<in> trie_keys (rt_trie rt)")
    case True
    with r(2) rt' show ?thesis by (simp add: add_post_def)
  next
    case False
    with r(2) have "mset (entries (deref (rt_trie rt) r)) =
        add_mset (nodeKey n, Some n) (mset (entries (rt_trie rt)))"
      by (simp add: add_post_def)
    from bucket_count_add [OF this, of kk c] show ?thesis by (simp add: rt')
  qed
qed

lemma RemoveKey_bucket_count:
  assumes inv: "trie_rt_inv valid bits rt" and k: "valid k"
    and rem: "TrieRT_RemoveKey K rt k = Some (rt', b)"
  shows "bucket_count bits (rt_self rt') (rt_trie rt') c \<le> bucket_count bits (rt_self rt) (rt_trie rt) c"
proof -
  from inv have t: "tinv [] (rt_trie rt)" by (simp add: trie_rt_inv_def view_inv_def)
  obtain r where r: "Remove K (rt_trie rt) k = Some r" "remove_post [] (rt_trie rt) k r"
    using Remove_law [OF t k] by blast
  with rem have rt': "rt_trie rt' = deref (rt_trie rt) r" "rt_self rt' = rt_self rt"
    by (cases r; auto simp: TrieRT_RemoveKey_def)+
  have "length (filter P (filter Q xs)) \<le> length (filter P xs)" for P Q and xs :: "'z list"
    by (induction xs) auto
  with r(2) show ?thesis by (simp add: bucket_count_def rt' remove_post_def)
qed

end

section \<open>Properties\<close>

context kad_key
begin

lemma bucket_count_card:
  assumes "view_inv valid bits rt"
  shows "bucket_count bits kk (rt_trie rt) c =
    int (card {k \<in> dom (trie_rt_contents rt). int (cpl_bits (bits kk) (bits k)) = c})"
proof -
  from assms have t: "tinv [] (rt_trie rt)" by (simp add: view_inv_def)
  let ?P = "\<lambda>k. int (cpl_bits (bits kk) (bits k)) = c"
  have "{k \<in> dom (trie_rt_contents rt). ?P k} =
      set (map fst (filter (\<lambda>e. ?P (fst e)) (entries (rt_trie rt))))"
    unfolding dom_contents [OF assms] trie_keys_def by auto
  moreover have "distinct (map fst (filter (\<lambda>e. ?P (fst e)) (entries (rt_trie rt))))"
    using tinv_distinct [OF t] by (rule distinct_map_filter)
  ultimately show ?thesis
    unfolding bucket_count_def using distinct_card by fastforce
qed

lemma CplSize_card:
  assumes "trie_rt_inv valid bits rt"
  shows "TrieRT_CplSize K rt c =
    Some (int (card {k \<in> dom (trie_rt_contents rt). int (cpl_bits (bits (rt_self rt)) (bits k)) = c}))"
proof -
  from assms have v: "view_inv valid bits rt" by (simp add: trie_rt_inv_def)
  then show ?thesis by (simp add: CplSize_law bucket_count_card)
qed

end

text \<open>
  A table in use by several goroutines. \<open>AddNode\<close> is two steps, the filter and the insertion under the
  lock, and \<open>tr_adding\<close> holds the nodes that have passed the filter and are not inserted yet; at most
  \<open>c\<close> calls of \<open>AddNode\<close> are in progress at a time. \<open>RemoveKey\<close> is one step, under the lock.
\<close>

record 'k SharedTable =
  tr_table :: "'k TrieRT"
  tr_adding :: "'k NodeID list"

datatype 'k RTOp = FilterOp "'k NodeID" | InsertOp "'k NodeID" | RemoveOp 'k

fun op_valid :: "('k \<Rightarrow> bool) \<Rightarrow> 'k RTOp \<Rightarrow> bool" where
  "op_valid valid (FilterOp n) = valid (nodeKey n)"
| "op_valid valid (InsertOp n) = valid (nodeKey n)"
| "op_valid valid (RemoveOp k) = valid k"

fun rt_enabled :: "nat \<Rightarrow> 'k RTOp \<Rightarrow> 'k SharedTable \<Rightarrow> bool" where
  "rt_enabled c (FilterOp n) s = (length (tr_adding s) < c)"
| "rt_enabled c (InsertOp n) s = (n \<in> set (tr_adding s))"
| "rt_enabled c (RemoveOp k) s = True"

fun rt_exec :: "'k Key \<Rightarrow> 'k RTOp \<Rightarrow> 'k SharedTable \<Rightarrow> 'k SharedTable option" where
  "rt_exec K (FilterOp n) s = do {
     accept \<leftarrow> TrieRT_filter (tr_table s) n;
     Some (s\<lparr>tr_adding := (if accept then tr_adding s @ [n] else tr_adding s)\<rparr>)
   }"
| "rt_exec K (InsertOp n) s = do {
     (rt, _) \<leftarrow> TrieRT_insert K (tr_table s) n;
     Some (s\<lparr>tr_table := rt, tr_adding := remove1 n (tr_adding s)\<rparr>)
   }"
| "rt_exec K (RemoveOp k) s = do {
     (rt, _) \<leftarrow> TrieRT_RemoveKey K (tr_table s) k;
     Some (s\<lparr>tr_table := rt\<rparr>)
   }"

text \<open>The states of a table that its users can reach.\<close>

inductive rt_reach :: "'k Key \<Rightarrow> ('k \<Rightarrow> bool) \<Rightarrow> nat \<Rightarrow> 'k SharedTable \<Rightarrow> 'k SharedTable \<Rightarrow> bool"
  for K valid c s0 where
  rt_start: "rt_reach K valid c s0 s0"
| rt_step: "rt_reach K valid c s0 s \<Longrightarrow> op_valid valid op \<Longrightarrow> rt_enabled c op s \<Longrightarrow>
    rt_exec K op s = Some s' \<Longrightarrow> rt_reach K valid c s0 s'"

definition limited_table :: "'k Key \<Rightarrow> 'k NodeID \<Rightarrow> 'k SharedTable" where
  "limited_table K self =
     \<lparr>tr_table = TrieRT_New self (Some \<lparr>KeyFilter = Some (BucketLimit20 K)\<rparr>), tr_adding = []\<rparr>"

text \<open>The nodes of a bucket and the nodes about to be inserted into it.\<close>

definition adding_count :: "('k \<Rightarrow> bool list) \<Rightarrow> 'k \<Rightarrow> 'k NodeID list \<Rightarrow> int \<Rightarrow> int" where
  "adding_count bits kk ns b = int (length (filter (\<lambda>n. int (cpl_bits (bits kk) (bits (nodeKey n))) = b) ns))"

definition shared_inv :: "'k Key \<Rightarrow> ('k \<Rightarrow> bool) \<Rightarrow> ('k \<Rightarrow> bool list) \<Rightarrow> nat \<Rightarrow> 'k \<Rightarrow> 'k SharedTable \<Rightarrow> bool" where
  "shared_inv K valid bits c self s \<longleftrightarrow>
     trie_rt_inv valid bits (tr_table s) \<and> rt_self (tr_table s) = self \<and>
     keyFilter (tr_table s) = Some (BucketLimit20 K) \<and>
     (\<forall>n \<in> set (tr_adding s). valid (nodeKey n)) \<and> length (tr_adding s) \<le> c \<and>
     (\<forall>b. bucket_count bits self (rt_trie (tr_table s)) b + adding_count bits self (tr_adding s) b \<le> 19 + int c)"

lemma adding_count_simps [simp]:
  "adding_count bits kk [] b = 0"
  "adding_count bits kk (ns @ [n]) b =
     adding_count bits kk ns b + of_bool (int (cpl_bits (bits kk) (bits (nodeKey n))) = b)"
  "0 \<le> adding_count bits kk ns b" "adding_count bits kk ns b \<le> int (length ns)"
  by (simp_all add: adding_count_def)

lemma adding_count_remove1:
  "n \<in> set ns \<Longrightarrow> adding_count bits kk (remove1 n ns) b =
     adding_count bits kk ns b - of_bool (int (cpl_bits (bits kk) (bits (nodeKey n))) = b)"
proof (induction ns)
  case (Cons m ns)
  then show ?case by (cases "m = n") (auto simp: adding_count_def)
qed simp

context kad_key
begin

lemma rt_exec_law:
  assumes inv: "shared_inv K valid bits c self s" and op: "op_valid valid op" "rt_enabled c op s"
  shows "\<exists>s'. rt_exec K op s = Some s' \<and> shared_inv K valid bits c self s'"
proof -
  let ?rt = "tr_table s"
  from inv have I: "trie_rt_inv valid bits ?rt" "rt_self ?rt = self" "keyFilter ?rt = Some (BucketLimit20 K)"
    "\<And>n. n \<in> set (tr_adding s) \<Longrightarrow> valid (nodeKey n)" "length (tr_adding s) \<le> c"
    "\<And>b. bucket_count bits self (rt_trie ?rt) b + adding_count bits self (tr_adding s) b \<le> 19 + int c"
    by (auto simp: shared_inv_def)
  show ?thesis
  proof (cases op)
    case (FilterOp n)
    then have n: "valid (nodeKey n)" and l: "length (tr_adding s) < c" using op by simp_all
    have f: "TrieRT_filter ?rt n = Some (bucket_count bits self (rt_trie ?rt)
        (int (cpl_bits (bits self) (bits (nodeKey n)))) < 20)"
      using I(1-3) n BucketLimit20_law [of "TableView.truncate ?rt" "nodeKey n"]
      unfolding view_inv_truncate by (simp add: TrieRT_filter_def trie_rt_inv_def TableView.defs)
    have "bucket_count bits self (rt_trie ?rt) b + adding_count bits self (tr_adding s @ [n]) b \<le> 19 + int c"
      if "bucket_count bits self (rt_trie ?rt) (int (cpl_bits (bits self) (bits (nodeKey n)))) < 20" for b
      using that I(6) [of b] l adding_count_simps(4) [of bits self "tr_adding s" b]
      by (cases "int (cpl_bits (bits self) (bits (nodeKey n))) = b") (simp_all del: adding_count_simps(4))
    then show ?thesis using FilterOp f I n l by (auto simp: shared_inv_def)
  next
    case (InsertOp n)
    then have n: "valid (nodeKey n)" "n \<in> set (tr_adding s)" using op by simp_all
    obtain rt' b where i: "TrieRT_insert K ?rt n = Some (rt', b)" "trie_rt_inv valid bits rt'"
      "rt_self rt' = rt_self ?rt" "keyFilter rt' = keyFilter ?rt"
      using TrieRT_insert_law [OF I(1) n(1)] by blast
    have "bucket_count bits self (rt_trie rt') b + adding_count bits self (remove1 n (tr_adding s)) b \<le> 19 + int c" for b
      using insert_bucket_count [OF I(1) n(1) i(1), of self b] I(6) [of b] by (simp add: adding_count_remove1 [OF n(2)])
    moreover have "length (remove1 n (tr_adding s)) \<le> c" using I(5) n(2) by (simp add: length_remove1)
    moreover have "valid (nodeKey m)" if "m \<in> set (remove1 n (tr_adding s))" for m
      using that I(4) by (meson notin_set_remove1)
    ultimately show ?thesis using InsertOp i I by (simp add: shared_inv_def)
  next
    case (RemoveOp k)
    then obtain rt' b where i: "TrieRT_RemoveKey K ?rt k = Some (rt', b)" "trie_rt_inv valid bits rt'"
      "rt_self rt' = rt_self ?rt" "keyFilter rt' = keyFilter ?rt"
      using TrieRT_RemoveKey_law [OF I(1), of k] op by auto
    have "bucket_count bits self (rt_trie rt') b \<le> bucket_count bits self (rt_trie ?rt) b" for b
      using RemoveKey_bucket_count [OF I(1) _ i(1), of b] op RemoveOp I(2) i(3) by simp
    then show ?thesis using RemoveOp i I by (fastforce simp: shared_inv_def intro: order_trans [OF add_right_mono])
  qed
qed

lemma rt_reach_inv:
  "rt_reach K valid c s0 s \<Longrightarrow> shared_inv K valid bits c self s0 \<Longrightarrow> shared_inv K valid bits c self s"
  by (induction rule: rt_reach.induct) (use rt_exec_law in fastforce)+

lemma limited_table_inv:
  assumes "valid (nodeKey self)"
  shows "shared_inv K valid bits c (nodeKey self) (limited_table K self)"
proof -
  have "trie_rt_inv valid bits (tr_table (limited_table K self))"
    unfolding limited_table_def SharedTable.simps
    by (rule TrieRT_New_inv(1) [OF assms]) (use BucketLimit20_total in auto)
  then show ?thesis
    by (simp add: shared_inv_def limited_table_def TrieRT_New_def TrieRT_apply_def bucket_count_def)
qed

lemma TrieRT_NearestNodes_closest:
  assumes "trie_rt_inv valid bits rt" "valid k" "0 < m"
  shows "\<exists>ns. TrieRT_NearestNodes K rt k m = Some ns \<and>
    length ns = min (nat m) (card (dom (trie_rt_contents rt))) \<and>
    set ns \<subseteq> ran (trie_rt_contents rt) \<and>
    sorted_wrt (\<lambda>a b. bdist bits (nodeKey a) k < bdist bits (nodeKey b) k) ns \<and>
    (\<forall>n n' k'. n \<in> set ns \<and> trie_rt_contents rt k' = Some n' \<and> n' \<notin> set ns \<longrightarrow>
       bdist bits (nodeKey n) k < bdist bits (nodeKey n') k)"
  using trt.NearestNodes_law [OF assms] trt.NearestNodes_count [OF assms]
    trt.NearestNodes_closest [OF assms]
  unfolding TrieRT_methods_def RoutingTable.simps by blast

end

text \<open>C18: \<open>TrieRT.AddNode\<close> (undisturbed by other calls), \<open>RemoveKey\<close> and \<open>GetNode\<close> implement a
  partial map from keys to nodes: \<open>AddNode\<close> adds the node exactly if the filter accepts it and its key
  is not in the table, and never replaces a node; \<open>RemoveKey\<close> removes exactly the key and reports
  whether it was there; \<open>GetNode\<close> reads the map. \<open>AddNode\<close> reports \<open>true\<close> for a node that it added, and
  also for one that is accepted and present already if the table holds two nodes or more.\<close>

theorem triert_refines_map:
  assumes "kad_key K valid len bits"
    and "trie_rt_inv valid bits rt" and "valid (nodeKey n)" and "valid k"
  shows "(\<exists>accept rt'. (case keyFilter rt of None \<Rightarrow> accept | Some f \<Rightarrow> f (TableView.truncate rt) (nodeKey n) = Some accept) \<and>
      TrieRT_AddNode K rt n = Some (rt', accept \<and>
        (nodeKey n \<notin> dom (trie_rt_contents rt) \<or> 2 \<le> card (dom (trie_rt_contents rt)))) \<and>
      trie_rt_inv valid bits rt' \<and>
      trie_rt_contents rt' = (if accept \<and> nodeKey n \<notin> dom (trie_rt_contents rt)
        then (trie_rt_contents rt)(nodeKey n \<mapsto> n) else trie_rt_contents rt)) \<and>
    (\<exists>rt'. TrieRT_RemoveKey K rt k = Some (rt', k \<in> dom (trie_rt_contents rt)) \<and>
      trie_rt_inv valid bits rt' \<and> trie_rt_contents rt' = (trie_rt_contents rt)(k := None)) \<and>
    TrieRT_GetNode K rt k = Some (trie_rt_contents rt k)"
proof -
  have v: "view_inv valid bits rt" using assms(2) by (simp add: trie_rt_inv_def)
  obtain accept where a: "TrieRT_filter rt n = Some accept"
    using kad_key.TrieRT_filter_total [OF assms(1-3)] by blast
  then have f: "case keyFilter rt of None \<Rightarrow> accept | Some f \<Rightarrow> f (TableView.truncate rt) (nodeKey n) = Some accept"
    by (auto simp: TrieRT_filter_def split: option.splits)
  obtain rt' where "TrieRT_AddNode K rt n = Some (rt', accept \<and>
        (nodeKey n \<notin> dom (trie_rt_contents rt) \<or> 2 \<le> card (dom (trie_rt_contents rt))))"
      "trie_rt_inv valid bits rt'"
      "trie_rt_contents rt' = (if accept \<and> nodeKey n \<notin> dom (trie_rt_contents rt)
        then (trie_rt_contents rt)(nodeKey n \<mapsto> n) else trie_rt_contents rt)"
    using kad_key.TrieRT_AddNode_law [OF assms(1-3)] kad_key.leaf_card [OF assms(1) v] a
    by (auto simp: not_less)
  with f kad_key.TrieRT_RemoveKey_law [OF assms(1,2,4)] kad_key.TrieRT_GetNode_law [OF assms(1) v assms(4)]
  show ?thesis by blast
qed

definition node8 :: "key8 \<Rightarrow> key8 NodeID" where
  "node8 k = \<lparr>nodeKey = k, nodeString = []\<rparr>"

definition triert8 :: "key8 TrieRT" where
  "triert8 = TrieRT_New (node8 0) None\<lparr>rt_trie :=
     Trie (Some (Trie None None (Some 3) (Some (node8 3))))
          (Some (Trie None None (Some 130) (Some (node8 130)))) None None\<rparr>"

lemma triert8_inv: "trie_rt_inv (\<lambda>_. True) word_bits triert8"
proof -
  have "trie_inv (\<lambda>_. True) word_bits [] (rt_trie triert8)" by code_simp
  then have "view_inv (\<lambda>_. True) word_bits triert8"
    by (simp add: view_inv_def triert8_def node8_def)
  then show ?thesis
    by (simp add: trie_rt_inv_def triert8_def TrieRT_New_def TrieRT_apply_def TrieRT_DefaultConfig_def)
qed
lemma triert8_contents: "trie_rt_contents triert8 = [3 \<mapsto> node8 3, 130 \<mapsto> node8 130]"
  by (auto simp: trie_rt_contents_def triert8_def fun_eq_iff)

theorem triert_refines_map_witness:
  "\<exists>rt1 rt2 rt3. TrieRT_AddNode Key8 triert8 (node8 5) = Some (rt1, True) \<and>
     trie_rt_contents rt1 = [3 \<mapsto> node8 3, 130 \<mapsto> node8 130, 5 \<mapsto> node8 5] \<and>
     TrieRT_AddNode Key8 triert8 (node8 3) = Some (rt2, True) \<and> trie_rt_contents rt2 = trie_rt_contents triert8 \<and>
     TrieRT_RemoveKey Key8 triert8 3 = Some (rt3, True) \<and> trie_rt_contents rt3 = [130 \<mapsto> node8 130]"
proof -
  have k: "nodeKey (node8 k) = k" for k by (simp add: node8_def)
  have f: "keyFilter triert8 = None"
    by (simp add: triert8_def TrieRT_New_def TrieRT_apply_def TrieRT_DefaultConfig_def)
  have d: "dom (trie_rt_contents triert8) = {3, 130}" by (auto simp: triert8_contents)
  note law = triert_refines_map [OF key8.kad_key_axioms triert8_inv TrueI TrueI]
  obtain rt1 where 1: "TrieRT_AddNode Key8 triert8 (node8 5) = Some (rt1, True)"
    "trie_rt_contents rt1 = (trie_rt_contents triert8)(5 \<mapsto> node8 5)"
    using law [of "node8 5" 3] unfolding d f k by auto
  obtain rt2 where 2: "TrieRT_AddNode Key8 triert8 (node8 3) = Some (rt2, True)"
    "trie_rt_contents rt2 = trie_rt_contents triert8"
    using law [of "node8 3" 3] unfolding d f k by auto
  obtain rt3 where 3: "TrieRT_RemoveKey Key8 triert8 3 = Some (rt3, True)"
    "trie_rt_contents rt3 = (trie_rt_contents triert8)(3 := None)"
    using law [of "node8 3" 3] unfolding d by auto
  show ?thesis using 1 2 3 by (simp add: triert8_contents fun_upd_twist)
qed

text \<open>C15: \<open>TrieRT.NearestNodes\<close> returns the closest nodes of the table: as many as asked for or
  all, in strictly increasing distance, and every node left out is farther than every node
  returned.\<close>

theorem triert_nearest_nodes:
  assumes "kad_key K valid len bits"
    and "trie_rt_inv valid bits rt" and "valid k" and "0 < m"
  shows "\<exists>ns. TrieRT_NearestNodes K rt k m = Some ns \<and>
    length ns = min (nat m) (card (dom (trie_rt_contents rt))) \<and>
    set ns \<subseteq> ran (trie_rt_contents rt) \<and>
    sorted_wrt (\<lambda>a b. bdist bits (nodeKey a) k < bdist bits (nodeKey b) k) ns \<and>
    (\<forall>n n' k'. n \<in> set ns \<and> trie_rt_contents rt k' = Some n' \<and> n' \<notin> set ns \<longrightarrow>
       bdist bits (nodeKey n) k < bdist bits (nodeKey n') k)"
  by (rule kad_key.TrieRT_NearestNodes_closest [OF assms])

theorem triert_nearest_nodes_witness:
  "\<exists>ns. TrieRT_NearestNodes Key8 triert8 128 5 = Some ns \<and> length ns = 2"
  using triert_nearest_nodes [OF key8.kad_key_axioms triert8_inv TrueI, of 5 128]
  by (auto simp: triert8_contents)

text \<open>\<open>TrieRT.CplSize\<close> counts the nodes whose common prefix with the local key has the given
  length, although it reads the sizes of branches off the trie.\<close>

theorem triert_cpl_size:
  assumes "kad_key K valid len bits" and "trie_rt_inv valid bits rt"
  shows "TrieRT_CplSize K rt c =
    Some (int (card {k \<in> dom (trie_rt_contents rt). int (cpl_bits (bits (rt_self rt)) (bits k)) = c}))"
  by (rule kad_key.CplSize_card [OF assms])

theorem triert_cpl_size_witness: "TrieRT_CplSize Key8 triert8 6 = Some 1"
proof -
  have "{k \<in> dom (trie_rt_contents triert8).
      int (cpl_bits (word_bits (rt_self triert8)) (word_bits k)) = 6} = {3}"
  proof -
    have "rt_self triert8 = 0"
      by (simp add: triert8_def TrieRT_New_def TrieRT_apply_def node8_def)
    moreover have "cpl_bits (word_bits (0 :: key8)) (word_bits (3 :: key8)) = 6"
      "cpl_bits (word_bits (0 :: key8)) (word_bits (130 :: key8)) = 0" by code_simp+
    ultimately show ?thesis unfolding triert8_contents by auto
  qed
  with triert_cpl_size [OF key8.kad_key_axioms triert8_inv, of 6] show ?thesis by simp
qed

text \<open>C19: A table with the filter \<open>BucketLimit20\<close>, used by several goroutines: with at most \<open>c\<close> calls
  of \<open>AddNode\<close> in progress at a time, in every interleaving of the calls no bucket (the nodes that share
  a prefix of a given length with the local key) ever holds more than \<open>19 + c\<close> nodes, and no operation
  panics. With one call at a time this is the limit of twenty nodes; two calls can pass the filter
  together and exceed it.\<close>

theorem triert_bucket_limit:
  assumes "kad_key K valid len bits" and "valid (nodeKey self)"
    and "rt_reach K valid c (limited_table K self) s"
  shows "trie_rt_inv valid bits (tr_table s) \<and>
    card {k \<in> dom (trie_rt_contents (tr_table s)). cpl_bits (bits (nodeKey self)) (bits k) = b} \<le> 19 + c \<and>
    (\<forall>op. op_valid valid op \<and> rt_enabled c op s \<longrightarrow> rt_exec K op s \<noteq> None)"
proof -
  have inv: "shared_inv K valid bits c (nodeKey self) s"
    using kad_key.rt_reach_inv [OF assms(1,3)] kad_key.limited_table_inv [OF assms(1,2)] by blast
  then have v: "view_inv valid bits (tr_table s)" and
    l: "bucket_count bits (nodeKey self) (rt_trie (tr_table s)) (int b) \<le> 19 + int c"
    using adding_count_simps(3) [of bits "nodeKey self" "tr_adding s" "int b"]
    by (auto simp: shared_inv_def trie_rt_inv_def elim!: allE [of _ "int b"] simp del: adding_count_simps(3))
  have "card {k \<in> dom (trie_rt_contents (tr_table s)). cpl_bits (bits (nodeKey self)) (bits k) = b} \<le> 19 + c"
    using l kad_key.bucket_count_card [OF assms(1) v, of "nodeKey self" "int b"] by simp
  moreover have "rt_exec K op s \<noteq> None" if "op_valid valid op" "rt_enabled c op s" for op
    using kad_key.rt_exec_law [OF assms(1) inv that] by auto
  ultimately show ?thesis using inv by (simp add: shared_inv_def)
qed

text \<open>Nineteen nodes are added one by one; then two calls pass the filter before either inserts its
  node, and the bucket holds twenty-one nodes.\<close>

fun rt_run :: "'k Key \<Rightarrow> nat \<Rightarrow> 'k SharedTable \<Rightarrow> 'k RTOp list \<Rightarrow> 'k SharedTable option" where
  "rt_run K c s [] = Some s"
| "rt_run K c s (op # ops) = (if rt_enabled c op s then do { s' \<leftarrow> rt_exec K op s; rt_run K c s' ops } else None)"

lemma rt_run_reach:
  "rt_run K c s ops = Some s' \<Longrightarrow> list_all (op_valid valid) ops \<Longrightarrow> rt_reach K valid c s0 s \<Longrightarrow> rt_reach K valid c s0 s'"
proof (induction ops arbitrary: s)
  case (Cons op ops)
  then show ?case by (auto split: if_splits bind_splits intro: rt_step)
qed simp

declare trieForTwo.simps [code]

definition crowd8 :: "key8 RTOp list" where
  "crowd8 = concat (map (\<lambda>k. [FilterOp (node8 k), InsertOp (node8 k)])
       [128, 129, 130, 131, 132, 133, 134, 135, 136, 137, 138, 139, 140, 141, 142, 143, 144, 145, 146]) @
     [FilterOp (node8 200), FilterOp (node8 201), InsertOp (node8 200), InsertOp (node8 201)]"

theorem triert_bucket_limit_witness:
  "\<exists>s. rt_reach Key8 (\<lambda>_. True) 2 (limited_table Key8 (node8 0)) s \<and>
     card {k \<in> dom (trie_rt_contents (tr_table s)). cpl_bits (word_bits (0 :: key8)) (word_bits k) = 0} = 21"
proof -
  have "map_option (\<lambda>s. TrieRT_CplSize Key8 (tr_table s) 0) (rt_run Key8 2 (limited_table Key8 (node8 0)) crowd8) =
      Some (Some 21)" by code_simp
  then obtain s where s: "rt_run Key8 2 (limited_table Key8 (node8 0)) crowd8 = Some s"
    "TrieRT_CplSize Key8 (tr_table s) 0 = Some 21" by auto
  have "op_valid (\<lambda>_. True) op" for op :: "key8 RTOp" by (cases op) simp_all
  then have r: "rt_reach Key8 (\<lambda>_. True) 2 (limited_table Key8 (node8 0)) s"
    by (intro rt_run_reach [OF s(1) _ rt_start]) (simp add: list_all_iff)
  have inv: "trie_rt_inv (\<lambda>_. True) word_bits (tr_table s)" and
    le: "card {k \<in> dom (trie_rt_contents (tr_table s)). cpl_bits (word_bits (nodeKey (node8 0))) (word_bits k) = 0} \<le> 21"
    using triert_bucket_limit [OF key8.kad_key_axioms TrueI r, of 0] by simp_all
  have self: "rt_self (tr_table s) = 0"
    using key8.rt_reach_inv [OF r key8.limited_table_inv [OF TrueI]] by (simp add: shared_inv_def node8_def)
  have "card {k \<in> dom (trie_rt_contents (tr_table s)). cpl_bits (word_bits (0 :: key8)) (word_bits k) = 0} = 21"
    using key8.CplSize_card [OF inv, of 0] s(2) self by simp
  with r show ?thesis by blast
qed

end
