(* ===== verification/Node_Iter.thy ===== *)
theory Node_Iter
  imports TrieRT
begin

text \<open>
  The node states of \<open>query/node.go\<close> and the iterators of \<open>query/iter.go\<close>.

  A \<open>*NodeStatus\<close> is shared between a query and its iterator, and the query changes the state of a
  node through the pointer. The objects live in a store (a list that only grows) and a pointer is
  an index into it. The iterators read the \<open>NodeID\<close> field only, which no code changes. \<open>Each\<close>
  visits the entries in an order that is fixed when it starts: it is \<open>eachLoop\<close> over the list
  that \<open>iterOrder\<close> returns.
\<close>

section \<open>Node states and the store\<close>

datatype NodeState =
    StateNodeNotContacted
  | StateNodeWaiting (Deadline: time)
  | StateNodeUnresponsive
  | StateNodeFailed
  | StateNodeSucceeded

record 'k NodeStatus =
  nsNodeID :: "'k NodeID"
  nsState :: NodeState

type_synonym 'k store = "'k NodeStatus list"
type_synonym ref = nat

definition keyAt :: "'k store \<Rightarrow> ref \<Rightarrow> 'k" where
  "keyAt h r = nodeKey (nsNodeID (h ! r))"

text \<open>\<open>ni.State = st\<close>.\<close>

definition setState :: "'k store \<Rightarrow> ref \<Rightarrow> NodeState \<Rightarrow> 'k store" where
  "setState h r st = h[r := (h ! r)\<lparr>nsState := st\<rparr>]"

section \<open>The iterators\<close>

record ('k, 'it) NodeIter =
  iterAdd :: "'k store \<Rightarrow> 'it \<Rightarrow> ref \<Rightarrow> 'it option"
  iterFind :: "'k store \<Rightarrow> 'it \<Rightarrow> 'k \<Rightarrow> ref option option"
  iterOrder :: "'it \<Rightarrow> ref list option"

fun eachLoop :: "('s \<Rightarrow> ref \<Rightarrow> ('s \<times> bool) option) \<Rightarrow> 's \<Rightarrow> ref list \<Rightarrow> ('s \<times> bool) option" where
  "eachLoop fn s [] = Some (s, False)"
| "eachLoop fn s (r # rs) = do {
     (s', stop) \<leftarrow> fn s r;
     if stop then Some (s', True) else eachLoop fn s' rs
   }"

text \<open>\<open>Each\<close> of the interface.\<close>

definition Each ::
  "('k, 'it) NodeIter \<Rightarrow> 'it \<Rightarrow> ('s \<Rightarrow> ref \<Rightarrow> ('s \<times> bool) option) \<Rightarrow> 's \<Rightarrow> ('s \<times> bool) option" where
  "Each IT it fn s = do { rs \<leftarrow> iterOrder IT it; eachLoop fn s rs }"

record 'k ClosestNodesIter =
  cni_target :: 'k
  cni_nodes :: "('k, ref) Trie"

definition NewClosestNodesIter :: "'k \<Rightarrow> 'k ClosestNodesIter" where
  "NewClosestNodesIter target = \<lparr>cni_target = target, cni_nodes = New\<rparr>"

definition ClosestNodesIter_Add ::
  "'k Key \<Rightarrow> 'k store \<Rightarrow> 'k ClosestNodesIter \<Rightarrow> ref \<Rightarrow> 'k ClosestNodesIter option" where
  "ClosestNodesIter_Add K h it ni = do {
     (nodes, _) \<leftarrow> Trie_Add K (cni_nodes it) (keyAt h ni) ni;
     Some (it\<lparr>cni_nodes := nodes\<rparr>)
   }"

definition ClosestNodesIter_Find ::
  "'k Key \<Rightarrow> 'k store \<Rightarrow> 'k ClosestNodesIter \<Rightarrow> 'k \<Rightarrow> ref option option" where
  "ClosestNodesIter_Find K h it k = do {
     (found, ni) \<leftarrow> Find K (cni_nodes it) k;
     Some (if found then ni else None)
   }"

definition ClosestNodesIter_Order :: "'k Key \<Rightarrow> 'k ClosestNodesIter \<Rightarrow> ref list option" where
  "ClosestNodesIter_Order K it = do {
     n \<leftarrow> Size (cni_nodes it);
     es \<leftarrow> Closest K (cni_nodes it) (cni_target it) (int n);
     entryNodes es
   }"

definition ClosestNodesIter_methods :: "'k Key \<Rightarrow> ('k, 'k ClosestNodesIter) NodeIter" where
  "ClosestNodesIter_methods K = \<lparr>iterAdd = ClosestNodesIter_Add K,
     iterFind = ClosestNodesIter_Find K, iterOrder = ClosestNodesIter_Order K\<rparr>"

record SequentialIter =
  si_nodes :: "ref list"

definition NewSequentialIter :: SequentialIter where
  "NewSequentialIter = \<lparr>si_nodes = []\<rparr>"

definition SequentialIter_Add ::
  "'k store \<Rightarrow> SequentialIter \<Rightarrow> ref \<Rightarrow> SequentialIter option" where
  "SequentialIter_Add h it ni = Some (it\<lparr>si_nodes := si_nodes it @ [ni]\<rparr>)"

fun seqFindLoop :: "'k Key \<Rightarrow> 'k store \<Rightarrow> 'k \<Rightarrow> ref list \<Rightarrow> ref option option" where
  "seqFindLoop K h k [] = Some None"
| "seqFindLoop K h k (r # rs) = do {
     eq \<leftarrow> Equal K k (keyAt h r);
     if eq then Some (Some r) else seqFindLoop K h k rs
   }"

definition SequentialIter_Find ::
  "'k Key \<Rightarrow> 'k store \<Rightarrow> SequentialIter \<Rightarrow> 'k \<Rightarrow> ref option option" where
  "SequentialIter_Find K h it k = seqFindLoop K h k (si_nodes it)"

definition SequentialIter_methods :: "'k Key \<Rightarrow> ('k, SequentialIter) NodeIter" where
  "SequentialIter_methods K = \<lparr>iterAdd = SequentialIter_Add,
     iterFind = SequentialIter_Find K, iterOrder = (\<lambda>it. Some (si_nodes it))\<rparr>"

section \<open>The contract of an iterator\<close>

text \<open>
  \<open>refs it\<close> are the entries in iteration order. \<open>Add\<close> adds an entry somewhere in the order; an
  iterator may ignore an entry whose key it has already.
\<close>

definition same_nodes :: "'k store \<Rightarrow> 'k store \<Rightarrow> bool" where
  "same_nodes h h' \<longleftrightarrow> length h \<le> length h' \<and> (\<forall>r < length h. nsNodeID (h' ! r) = nsNodeID (h ! r))"

lemma same_nodes_refl [simp]: "same_nodes h h"
  by (simp add: same_nodes_def)

lemma same_nodes_trans: "same_nodes h h' \<Longrightarrow> same_nodes h' h'' \<Longrightarrow> same_nodes h h''"
  by (auto simp: same_nodes_def)

lemma same_nodes_append [simp]: "same_nodes h (h @ xs)"
  by (simp add: same_nodes_def nth_append)

lemma length_setState [simp]: "length (setState h r st) = length h"
  by (simp add: setState_def)

lemma setState_nth:
  "i < length h \<Longrightarrow> setState h r st ! i = (if i = r then (h ! r)\<lparr>nsState := st\<rparr> else h ! i)"
  by (auto simp: setState_def)

lemma same_nodes_setState [simp]: "same_nodes h (setState h r st)"
  by (auto simp: same_nodes_def setState_nth)

lemma keyAt_same: "same_nodes h h' \<Longrightarrow> r < length h \<Longrightarrow> keyAt h' r = keyAt h r"
  by (simp add: same_nodes_def keyAt_def)

lemma sorted_wrt_neq: "sorted_wrt (\<noteq>) xs \<longleftrightarrow> distinct xs"
  by (induction xs) auto

locale node_iter =
  fixes IT :: "('k, 'it) NodeIter"
    and valid :: "'k \<Rightarrow> bool"
    and inv :: "'k store \<Rightarrow> 'it \<Rightarrow> bool"
    and refs :: "'it \<Rightarrow> ref list"
  assumes Order_law: "inv h it \<Longrightarrow> iterOrder IT it = Some (refs it)"
    and refs_ok: "inv h it \<Longrightarrow> r \<in> set (refs it) \<Longrightarrow> r < length h \<and> valid (keyAt h r)"
    and refs_distinct: "inv h it \<Longrightarrow> distinct (refs it)"
    and inv_same: "inv h it \<Longrightarrow> same_nodes h h' \<Longrightarrow> inv h' it"
    and Add_law:
      "inv h it \<Longrightarrow> r < length h \<Longrightarrow> valid (keyAt h r) \<Longrightarrow> r \<notin> set (refs it) \<Longrightarrow>
       \<exists>it'. iterAdd IT h it r = Some it' \<and> inv h it' \<and>
         (set (refs it') = insert r (set (refs it)) \<or>
          it' = it \<and> (\<exists>r' \<in> set (refs it). keyAt h r' = keyAt h r))"
    and Find_law:
      "inv h it \<Longrightarrow> valid k \<Longrightarrow>
       \<exists>f. iterFind IT h it k = Some f \<and>
         (case f of None \<Rightarrow> \<forall>r \<in> set (refs it). keyAt h r \<noteq> k
          | Some r \<Rightarrow> r \<in> set (refs it) \<and> keyAt h r = k)"
begin

lemma Add_cases:
  assumes "inv h it" "r < length h" "valid (keyAt h r)" "r \<notin> set (refs it)"
  obtains it' where "iterAdd IT h it r = Some it'" "inv h it'"
    "set (refs it) \<subseteq> set (refs it')" "set (refs it') \<subseteq> insert r (set (refs it))"
    "\<exists>r' \<in> set (refs it'). keyAt h r' = keyAt h r"
  using Add_law [OF assms] by blast

lemma Find_cases [consumes 2, case_names missing found]:
  assumes "inv h it" "valid k"
  obtains "iterFind IT h it k = Some None" "\<forall>r \<in> set (refs it). keyAt h r \<noteq> k"
  | r where "iterFind IT h it k = Some (Some r)" "r \<in> set (refs it)" "r < length h" "keyAt h r = k"
proof -
  obtain f where f: "iterFind IT h it k = Some f"
    "case f of None \<Rightarrow> \<forall>r \<in> set (refs it). keyAt h r \<noteq> k
      | Some r \<Rightarrow> r \<in> set (refs it) \<and> keyAt h r = k"
    using Find_law [OF assms] by blast
  with that refs_ok [OF assms(1)] show ?thesis by (cases f) auto
qed

lemma Each_law: "inv h it \<Longrightarrow> Each IT it fn s = eachLoop fn s (refs it)"
  by (simp add: Each_def Order_law)

end

text \<open>An iterator that visits each key once, in increasing distance from a target.\<close>

locale node_iter_closest = node_iter IT valid inv refs
  for IT :: "('k, 'it) NodeIter" and valid inv refs +
  fixes bits :: "'k \<Rightarrow> bool list" and target :: "'it \<Rightarrow> 'k"
  assumes refs_sorted:
    "inv h it \<Longrightarrow> sorted_wrt (\<lambda>a b. bdist bits (keyAt h a) (target it) < bdist bits (keyAt h b) (target it)) (refs it)"

section \<open>The iterators meet the contract\<close>

definition closest_refs :: "('k \<Rightarrow> bool list) \<Rightarrow> 'k ClosestNodesIter \<Rightarrow> ref list" where
  "closest_refs bits it =
     map (\<lambda>e. the (snd e)) (by_distance bits (cni_target it) (entries (cni_nodes it)))"

definition closest_inv ::
  "('k \<Rightarrow> bool) \<Rightarrow> ('k \<Rightarrow> bool list) \<Rightarrow> 'k store \<Rightarrow> 'k ClosestNodesIter \<Rightarrow> bool" where
  "closest_inv valid bits h it \<longleftrightarrow>
     valid (cni_target it) \<and> trie_inv valid bits [] (cni_nodes it) \<and>
     (\<forall>(k, d) \<in> set (entries (cni_nodes it)). \<exists>r. d = Some r \<and> r < length h \<and> keyAt h r = k)"

definition seq_inv :: "('k \<Rightarrow> bool) \<Rightarrow> 'k store \<Rightarrow> SequentialIter \<Rightarrow> bool" where
  "seq_inv valid h it \<longleftrightarrow>
     distinct (si_nodes it) \<and> (\<forall>r \<in> set (si_nodes it). r < length h \<and> valid (keyAt h r))"

context kad_key
begin

lemma closest_entry:
  assumes "closest_inv valid bits h it" "e \<in> set (entries (cni_nodes it))"
  shows "snd e = Some (the (snd e))" "the (snd e) < length h" "keyAt h (the (snd e)) = fst e"
    "valid (fst e)"
proof -
  from assms show "snd e = Some (the (snd e))" "the (snd e) < length h" "keyAt h (the (snd e)) = fst e"
    by (auto simp: closest_inv_def)
  show "valid (fst e)" using assms tinv_keys [of "[]" "cni_nodes it" "fst e"]
    by (auto simp: closest_inv_def trie_keys_def)
qed

lemma set_closest_refs:
  assumes "closest_inv valid bits h it"
  shows "set (closest_refs bits it) = {r. \<exists>k. (k, Some r) \<in> set (entries (cni_nodes it))}"
  using closest_entry [OF assms] by (force simp: closest_refs_def)

lemma closest_order:
  assumes inv: "closest_inv valid bits h it"
  shows "ClosestNodesIter_Order K it = Some (closest_refs bits it)"
proof -
  let ?es = "by_distance bits (cni_target it) (entries (cni_nodes it))"
  from inv have t: "tinv [] (cni_nodes it)" and v: "valid (cni_target it)"
    by (simp_all add: closest_inv_def)
  have nodes: "entryNodes ?es = Some (map (\<lambda>e. the (snd e)) ?es)"
    using closest_entry(1) [OF inv] by (intro entryNodes_eq) (metis option.distinct(1) set_by_distance)
  show ?thesis
  proof (cases "entries (cni_nodes it) = []")
    case True
    then have "cni_nodes it = New"
      using tinv_two_keys [OF t] by (cases rule: trie_inv_cases [OF t]) (auto simp: IsLeaf_def)
    then show ?thesis
      by (simp add: ClosestNodesIter_Order_def closest_refs_def New_def by_distance_def Size_def
          Closest_def closestAtDepth.simps leaf_defs)
  next
    case False
    then show ?thesis
      using Closest_law [OF t v, of "int (length (entries (cni_nodes it)))"] Size_law [OF t] nodes
      by (simp add: ClosestNodesIter_Order_def closest_refs_def)
  qed
qed

lemma closest_refs_sorted:
  assumes inv: "closest_inv valid bits h it"
  shows "sorted_wrt (\<lambda>a b. bdist bits (keyAt h a) (cni_target it) < bdist bits (keyAt h b) (cni_target it))
    (closest_refs bits it)"
proof -
  from inv have t: "tinv [] (cni_nodes it)" and v: "valid (cni_target it)"
    by (simp_all add: closest_inv_def)
  have "sorted_wrt (\<lambda>x y. bdist bits (keyAt h (the (snd x))) (cni_target it) <
      bdist bits (keyAt h (the (snd y))) (cni_target it))
     (by_distance bits (cni_target it) (entries (cni_nodes it)))"
    by (rule sorted_wrt_mono_rel [OF _ by_distance_sorted [OF t v]])
      (use closest_entry(3) [OF inv] in \<open>auto simp: bdist_def dist_def\<close>)
  then show ?thesis by (simp add: closest_refs_def sorted_wrt_map)
qed

lemma closest_add:
  assumes inv: "closest_inv valid bits h it" and r: "r < length h" "valid (keyAt h r)"
  shows "\<exists>it'. ClosestNodesIter_Add K h it r = Some it' \<and> closest_inv valid bits h it' \<and>
    cni_target it' = cni_target it \<and>
    (set (closest_refs bits it') = insert r (set (closest_refs bits it)) \<or>
     it' = it \<and> (\<exists>r' \<in> set (closest_refs bits it). keyAt h r' = keyAt h r))"
proof -
  from inv have t: "tinv [] (cni_nodes it)" by (simp add: closest_inv_def)
  obtain x where x: "add_post [] (cni_nodes it) (keyAt h r) r x"
    "Trie_Add K (cni_nodes it) (keyAt h r) r =
      Some (deref (cni_nodes it) x, keyAt h r \<notin> trie_keys (cni_nodes it))"
    using Add_law [OF t r(2), of r] by blast
  define it' where "it' = it\<lparr>cni_nodes := deref (cni_nodes it) x\<rparr>"
  have add: "ClosestNodesIter_Add K h it r = Some it'"
    by (simp add: ClosestNodesIter_Add_def x(2) it'_def)
  show ?thesis
  proof (cases "keyAt h r \<in> trie_keys (cni_nodes it)")
    case True
    with x(1) have "it' = it" by (simp add: it'_def add_post_def)
    moreover from True obtain e where e: "e \<in> set (entries (cni_nodes it))" "fst e = keyAt h r"
      by (auto simp: trie_keys_def)
    have "\<exists>r' \<in> set (closest_refs bits it). keyAt h r' = keyAt h r"
    proof
      show "keyAt h (the (snd e)) = keyAt h r" using closest_entry(3) [OF inv e(1)] e(2) by simp
      have "(keyAt h r, Some (the (snd e))) = e" using closest_entry(1) [OF inv e(1)] e(2)
        by (simp add: prod_eq_iff)
      with e(1) show "the (snd e) \<in> set (closest_refs bits it)"
        unfolding set_closest_refs [OF inv] by (metis (mono_tags, lifting) mem_Collect_eq)
    qed
    ultimately show ?thesis using add inv by auto
  next
    case False
    with x(1) have m: "mset (entries (cni_nodes it')) =
        add_mset (keyAt h r, Some r) (mset (entries (cni_nodes it)))"
      by (simp add: it'_def add_post_def)
    then have s: "set (entries (cni_nodes it')) = insert (keyAt h r, Some r) (set (entries (cni_nodes it)))"
      by (metis set_mset_add_mset_insert set_mset_mset)
    have inv': "closest_inv valid bits h it'"
      using inv x(1) r unfolding closest_inv_def s by (auto simp: it'_def add_post_def)
    have "set (closest_refs bits it') = insert r (set (closest_refs bits it))"
      unfolding set_closest_refs [OF inv] set_closest_refs [OF inv'] s by auto
    with add inv' show ?thesis by (auto simp: it'_def)
  qed
qed

lemma closest_find:
  assumes inv: "closest_inv valid bits h it" and k: "valid k"
  shows "\<exists>f. ClosestNodesIter_Find K h it k = Some f \<and>
    (case f of None \<Rightarrow> \<forall>r \<in> set (closest_refs bits it). keyAt h r \<noteq> k
     | Some r \<Rightarrow> r \<in> set (closest_refs bits it) \<and> keyAt h r = k)"
proof -
  from inv have t: "tinv [] (cni_nodes it)" by (simp add: closest_inv_def)
  note find = Find_law [OF t k] and set = set_closest_refs [OF inv]
  show ?thesis
  proof (cases "map_of (entries (cni_nodes it)) k")
    case None
    have "keyAt h r \<noteq> k" if "r \<in> set (closest_refs bits it)" for r
    proof -
      from that obtain k' where e: "(k', Some r) \<in> set (entries (cni_nodes it))" by (auto simp: set)
      with closest_entry(3) [OF inv e] None show ?thesis by (auto simp: map_of_eq_None_iff image_iff)
    qed
    with None find show ?thesis by (simp add: ClosestNodesIter_Find_def)
  next
    case (Some d)
    then have e: "(k, d) \<in> set (entries (cni_nodes it))" by (rule map_of_SomeD)
    with closest_entry [OF inv e] obtain r where "d = Some r" "keyAt h r = k" by auto
    with e Some find show ?thesis by (auto simp: ClosestNodesIter_Find_def set)
  qed
qed

lemma seq_find:
  assumes "valid k" "\<forall>r \<in> set rs. valid (keyAt h r)"
  shows "\<exists>f. seqFindLoop K h k rs = Some f \<and>
    (case f of None \<Rightarrow> \<forall>r \<in> set rs. keyAt h r \<noteq> k | Some r \<Rightarrow> r \<in> set rs \<and> keyAt h r = k)"
  using assms(2)
proof (induction rs)
  case (Cons r rs)
  then show ?case
    using assms(1) by (cases "k = keyAt h r") (auto simp: Equal_law split: option.splits)
qed simp

end

sublocale kad_key \<subseteq> cni: node_iter_closest "ClosestNodesIter_methods K" valid
  "closest_inv valid bits" "closest_refs bits" bits cni_target
proof
  fix h :: "'k store" and it
  assume inv: "closest_inv valid bits h it"
  show "iterOrder (ClosestNodesIter_methods K) it = Some (closest_refs bits it)"
    using closest_order [OF inv] by (simp add: ClosestNodesIter_methods_def)
  show "r < length h \<and> valid (keyAt h r)" if "r \<in> set (closest_refs bits it)" for r
    using that closest_entry [OF inv] by (auto simp: closest_refs_def)
  show sorted: "sorted_wrt (\<lambda>a b. bdist bits (keyAt h a) (cni_target it) <
      bdist bits (keyAt h b) (cni_target it)) (closest_refs bits it)"
    by (rule closest_refs_sorted [OF inv])
  then have "sorted_wrt (\<noteq>) (closest_refs bits it)"
    by (rule sorted_wrt_mono_rel [rotated]) auto
  then show "distinct (closest_refs bits it)" by (simp add: sorted_wrt_neq)
  show "closest_inv valid bits h' it" if "same_nodes h h'" for h'
    using inv that by (fastforce simp: closest_inv_def keyAt_same same_nodes_def)
  show "\<exists>it'. iterAdd (ClosestNodesIter_methods K) h it r = Some it' \<and> closest_inv valid bits h it' \<and>
      (set (closest_refs bits it') = insert r (set (closest_refs bits it)) \<or>
       it' = it \<and> (\<exists>r' \<in> set (closest_refs bits it). keyAt h r' = keyAt h r))"
    if "r < length h" "valid (keyAt h r)" for r
    using closest_add [OF inv that] by (auto simp: ClosestNodesIter_methods_def)
  show "\<exists>f. iterFind (ClosestNodesIter_methods K) h it k = Some f \<and>
      (case f of None \<Rightarrow> \<forall>r \<in> set (closest_refs bits it). keyAt h r \<noteq> k
       | Some r \<Rightarrow> r \<in> set (closest_refs bits it) \<and> keyAt h r = k)" if "valid k" for k
    using closest_find [OF inv that] by (simp add: ClosestNodesIter_methods_def)
qed

sublocale kad_key \<subseteq> sqi: node_iter "SequentialIter_methods K" valid "seq_inv valid" si_nodes
proof
  fix h :: "'k store" and it
  assume inv: "seq_inv valid h it"
  show "iterOrder (SequentialIter_methods K) it = Some (si_nodes it)"
    by (simp add: SequentialIter_methods_def)
  show "r < length h \<and> valid (keyAt h r)" if "r \<in> set (si_nodes it)" for r
    using inv that by (simp add: seq_inv_def)
  show "distinct (si_nodes it)" using inv by (simp add: seq_inv_def)
  show "seq_inv valid h' it" if "same_nodes h h'" for h'
    using inv that by (auto simp: seq_inv_def keyAt_same same_nodes_def)
  show "\<exists>it'. iterAdd (SequentialIter_methods K) h it r = Some it' \<and> seq_inv valid h it' \<and>
      (set (si_nodes it') = insert r (set (si_nodes it)) \<or>
       it' = it \<and> (\<exists>r' \<in> set (si_nodes it). keyAt h r' = keyAt h r))"
    if "r < length h" "valid (keyAt h r)" "r \<notin> set (si_nodes it)" for r
    using inv that by (auto simp: SequentialIter_methods_def SequentialIter_Add_def seq_inv_def)
  show "\<exists>f. iterFind (SequentialIter_methods K) h it k = Some f \<and>
      (case f of None \<Rightarrow> \<forall>r \<in> set (si_nodes it). keyAt h r \<noteq> k
       | Some r \<Rightarrow> r \<in> set (si_nodes it) \<and> keyAt h r = k)" if "valid k" for k
    using seq_find [OF that, of "si_nodes it" h] inv
    by (simp add: SequentialIter_methods_def SequentialIter_Find_def seq_inv_def)
qed

end
