(* ===== verification/Query.thy ===== *)
theory Query
  imports Node_Iter
begin

text \<open>
  The query state machine of \<open>query/query.go\<close>. \<open>Query_Advance\<close> is one step: it takes the reading
  of the clock (constant during the step) and an event and returns the new query and the state
  it reports. The iterator is a dictionary of the methods of \<open>NodeIter\<close>; the objects it shares
  with the query are in the store of the query.
\<close>

section \<open>States, events and configuration\<close>

type_synonym QueryID = string
type_synonym ProtocolID = string

definition InvalidQueryID :: QueryID where
  "InvalidQueryID = ''''"

record QueryStats =
  Start :: time
  End :: time
  Requests :: int
  Success :: int
  Failure :: int

definition zeroStats :: QueryStats where
  "zeroStats = \<lparr>Start = 0, End = 0, Requests = 0, Success = 0, Failure = 0\<rparr>"

datatype ('k, 'm) QueryState =
    StateQueryFinished QueryID QueryStats
  | StateQueryWaitingMessage QueryID QueryStats "'k NodeID" ProtocolID 'm
  | StateQueryWaitingAtCapacity QueryID QueryStats
  | StateQueryWaitingWithCapacity QueryID QueryStats

text \<open>\<open>QueryEventNil\<close> is the nil interface, \<open>None\<close> in a response the nil response.\<close>

datatype ('k, 'a) QueryEvent =
    EventQueryCancel
  | EventQueryMessageResponse "'k NodeID" "('k, 'a) Response option"
  | EventQueryMessageFailure "'k NodeID"
  | QueryEventNil

record QueryConfig =
  qcConcurrency :: int
  qcNumResults :: int
  qcRequestTimeout :: duration
  qcClock :: "Clock option"

definition QueryConfig_Validate :: "QueryConfig \<Rightarrow> ConfigurationError option" where
  "QueryConfig_Validate cfg =
     (if qcClock cfg = None then
        Some (ConfigurationError ''QueryConfig'' (Some ''clock must not be nil''))
      else if qcConcurrency cfg < 1 then
        Some (ConfigurationError ''QueryConfig'' (Some ''concurrency must be greater than zero''))
      else if qcNumResults cfg < 1 then
        Some (ConfigurationError ''QueryConfig'' (Some ''num results must be greater than zero''))
      else if qcRequestTimeout cfg < 1 then
        Some (ConfigurationError ''QueryConfig'' (Some ''request timeout must be greater than zero''))
      else None)"

definition DefaultQueryConfig :: QueryConfig where
  "DefaultQueryConfig = \<lparr>qcConcurrency = 3, qcNumResults = 20, qcRequestTimeout = Minute,
     qcClock = Some Clock\<rparr>"

record ('k, 'm, 'it) Query =
  q_self :: "'k NodeID"
  q_id :: QueryID
  q_cfg :: QueryConfig
  q_iter :: 'it
  q_store :: "'k store"
  q_protocolID :: ProtocolID
  q_msg :: 'm
  q_stats :: QueryStats
  q_finished :: bool
  q_inFlight :: int

section \<open>Creating a query\<close>

text \<open>
  The loop that adds nodes to the iterator, in \<open>NewQuery\<close> and in \<open>onMessageResponse\<close>: the node
  itself is skipped, for every other node a new status is allocated.
\<close>

fun addNodes ::
  "'k Key \<Rightarrow> ('k, 'it) NodeIter \<Rightarrow> 'k NodeID \<Rightarrow> 'k store \<Rightarrow> 'it \<Rightarrow> 'k NodeID list \<Rightarrow>
   ('k store \<times> 'it) option" where
  "addNodes K IT self h it [] = Some (h, it)"
| "addNodes K IT self h it (node # nodes) = do {
     eq \<leftarrow> Equal K (nodeKey node) (nodeKey self);
     if eq then addNodes K IT self h it nodes
     else do {
       let h' = h @ [\<lparr>nsNodeID = node, nsState = StateNodeNotContacted\<rparr>];
       it' \<leftarrow> iterAdd IT h' it (length h);
       addNodes K IT self h' it' nodes
     }
   }"

definition NewQuery ::
  "'k Key \<Rightarrow> ('k, 'it) NodeIter \<Rightarrow> 'k NodeID \<Rightarrow> QueryID \<Rightarrow> ProtocolID \<Rightarrow> 'm \<Rightarrow> 'it \<Rightarrow> 'k NodeID list \<Rightarrow>
   QueryConfig option \<Rightarrow> (ConfigurationError + ('k, 'm, 'it) Query) option" where
  "NewQuery K IT self qid protocolID msg it knownClosestNodes cfg =
     (let c = (case cfg of None \<Rightarrow> DefaultQueryConfig | Some c \<Rightarrow> c);
          err = (case cfg of None \<Rightarrow> None | Some c \<Rightarrow> QueryConfig_Validate c)
      in case err of
           Some e \<Rightarrow> Some (Inl e)
         | None \<Rightarrow> do {
             (h, it') \<leftarrow> addNodes K IT self [] it knownClosestNodes;
             Some (Inr \<lparr>q_self = self, q_id = qid, q_cfg = c, q_iter = it', q_store = h,
               q_protocolID = protocolID, q_msg = msg, q_stats = zeroStats,
               q_finished = False, q_inFlight = 0\<rparr>)
           })"

section \<open>Responses and failures\<close>

definition markFinished :: "time \<Rightarrow> ('k, 'm, 'it) Query \<Rightarrow> ('k, 'm, 'it) Query" where
  "markFinished now q =
     (let q1 = q\<lparr>q_finished := True\<rparr> in
      if IsZero (End (q_stats q1)) then q1\<lparr>q_stats := (q_stats q1)\<lparr>End := now\<rparr>\<rparr> else q1)"

definition incSuccess :: "('k, 'm, 'it) Query \<Rightarrow> ('k, 'm, 'it) Query" where
  "incSuccess q = q\<lparr>q_stats := (q_stats q)\<lparr>Success := Success (q_stats q) + 1\<rparr>\<rparr>"

definition incFailure :: "('k, 'm, 'it) Query \<Rightarrow> ('k, 'm, 'it) Query" where
  "incFailure q = q\<lparr>q_stats := (q_stats q)\<lparr>Failure := Failure (q_stats q) + 1\<rparr>\<rparr>"

definition decInFlight :: "('k, 'm, 'it) Query \<Rightarrow> ('k, 'm, 'it) Query" where
  "decInFlight q = q\<lparr>q_inFlight := q_inFlight q - 1\<rparr>"

text \<open>The end of \<open>onMessageResponse\<close>, for a response that counts.\<close>

definition addCloserNodes ::
  "'k Key \<Rightarrow> ('k, 'it) NodeIter \<Rightarrow> ('k, 'm, 'it) Query \<Rightarrow> ref \<Rightarrow> ('k, 'a) Response option \<Rightarrow>
   ('k, 'm, 'it) Query option" where
  "addCloserNodes K IT q ni resp = do {
     (h, it) \<leftarrow> (case resp of
        None \<Rightarrow> Some (q_store q, q_iter q)
      | Some rsp \<Rightarrow> addNodes K IT (q_self q) (q_store q) (q_iter q) (map infoID (CloserNodes rsp)));
     Some (q\<lparr>q_store := setState h ni StateNodeSucceeded, q_iter := it\<rparr>)
   }"

definition onMessageResponse ::
  "'k Key \<Rightarrow> ('k, 'it) NodeIter \<Rightarrow> ('k, 'm, 'it) Query \<Rightarrow> 'k NodeID \<Rightarrow> ('k, 'a) Response option \<Rightarrow>
   ('k, 'm, 'it) Query option" where
  "onMessageResponse K IT q node resp = do {
     f \<leftarrow> iterFind IT (q_store q) (q_iter q) (nodeKey node);
     case f of
       None \<Rightarrow> Some q
     | Some ni \<Rightarrow>
         (case nsState (q_store q ! ni) of
            StateNodeWaiting _ \<Rightarrow> addCloserNodes K IT (incSuccess (decInFlight q)) ni resp
          | StateNodeUnresponsive \<Rightarrow> addCloserNodes K IT (incSuccess q) ni resp
          | StateNodeNotContacted \<Rightarrow> Some q
          | StateNodeFailed \<Rightarrow> Some q
          | StateNodeSucceeded \<Rightarrow> Some q)
   }"

definition failNode :: "('k, 'm, 'it) Query \<Rightarrow> ref \<Rightarrow> ('k, 'm, 'it) Query" where
  "failNode q ni = q\<lparr>q_store := setState (q_store q) ni StateNodeFailed\<rparr>"

definition onMessageFailure ::
  "('k, 'it) NodeIter \<Rightarrow> ('k, 'm, 'it) Query \<Rightarrow> 'k NodeID \<Rightarrow> ('k, 'm, 'it) Query option" where
  "onMessageFailure IT q node = do {
     f \<leftarrow> iterFind IT (q_store q) (q_iter q) (nodeKey node);
     case f of
       None \<Rightarrow> Some q
     | Some ni \<Rightarrow>
         (case nsState (q_store q ! ni) of
            StateNodeWaiting _ \<Rightarrow> Some (failNode (incFailure (decInFlight q)) ni)
          | StateNodeUnresponsive \<Rightarrow> Some (failNode q ni)
          | StateNodeNotContacted \<Rightarrow> Some (failNode q ni)
          | StateNodeFailed \<Rightarrow> Some q
          | StateNodeSucceeded \<Rightarrow> Some q)
   }"

section \<open>Advance\<close>

definition atCapacity :: "('k, 'm, 'it) Query \<Rightarrow> bool" where
  "atCapacity q = (q_inFlight q \<ge> qcConcurrency (q_cfg q))"

text \<open>The variables of \<open>Advance\<close> that the closure passed to \<open>Each\<close> captures.\<close>

record ('k, 'm, 'it) Visit =
  v_q :: "('k, 'm, 'it) Query"
  v_successes :: int
  v_progressing :: bool
  v_return :: "('k, 'm) QueryState option"

text \<open>A message to a node that has not been contacted.\<close>

definition contact :: "time \<Rightarrow> ('k, 'm, 'it) Query \<Rightarrow> ref \<Rightarrow> ('k, 'm, 'it) Query" where
  "contact now q ni =
     (let deadline = now + qcRequestTimeout (q_cfg q);
          q1 = q\<lparr>q_store := setState (q_store q) ni (StateNodeWaiting deadline),
                 q_inFlight := q_inFlight q + 1,
                 q_stats := (q_stats q)\<lparr>Requests := Requests (q_stats q) + 1\<rparr>\<rparr>
      in if IsZero (Start (q_stats q1)) then q1\<lparr>q_stats := (q_stats q1)\<lparr>Start := now\<rparr>\<rparr> else q1)"

definition visitNode ::
  "time \<Rightarrow> ('k, 'm, 'it) Visit \<Rightarrow> ref \<Rightarrow> (('k, 'm, 'it) Visit \<times> bool) option" where
  "visitNode now v ni =
     (let q = v_q v in
      case nsState (q_store q ! ni) of
        StateNodeWaiting deadline \<Rightarrow>
          if now > deadline then
            Some (v\<lparr>v_q := incFailure (decInFlight
              (q\<lparr>q_store := setState (q_store q) ni StateNodeUnresponsive\<rparr>))\<rparr>, False)
          else if atCapacity q then
            Some (v\<lparr>v_return := Some (StateQueryWaitingAtCapacity (q_id q) (q_stats q))\<rparr>, True)
          else Some (v\<lparr>v_progressing := True\<rparr>, False)
      | StateNodeSucceeded \<Rightarrow>
          (let v1 = v\<lparr>v_successes := v_successes v + 1\<rparr> in
           if \<not> v_progressing v1 \<and> v_successes v1 \<ge> qcNumResults (q_cfg q) then
             (let q' = markFinished now q in
              Some (v1\<lparr>v_q := q', v_return := Some (StateQueryFinished (q_id q') (q_stats q'))\<rparr>, True))
           else Some (v1, False))
      | StateNodeNotContacted \<Rightarrow>
          if \<not> atCapacity q then
            (let q' = contact now q ni in
             Some (v\<lparr>v_q := q', v_return := Some (StateQueryWaitingMessage (q_id q') (q_stats q')
               (nsNodeID (q_store q' ! ni)) (q_protocolID q') (q_msg q'))\<rparr>, True))
          else Some (v\<lparr>v_return := Some (StateQueryWaitingAtCapacity (q_id q) (q_stats q))\<rparr>, True)
      | StateNodeUnresponsive \<Rightarrow> Some (v, False)
      | StateNodeFailed \<Rightarrow> Some (v, False))"

definition handleEvent ::
  "'k Key \<Rightarrow> ('k, 'it) NodeIter \<Rightarrow> ('k, 'm, 'it) Query \<Rightarrow> ('k, 'a) QueryEvent \<Rightarrow>
   ('k, 'm, 'it) Query option" where
  "handleEvent K IT q ev =
     (case ev of
        EventQueryMessageResponse node resp \<Rightarrow> onMessageResponse K IT q node resp
      | EventQueryMessageFailure node \<Rightarrow> onMessageFailure IT q node
      | _ \<Rightarrow> Some q)"

definition afterVisits ::
  "time \<Rightarrow> ('k, 'm, 'it) Visit \<Rightarrow> ('k, 'm, 'it) Query \<times> ('k, 'm) QueryState" where
  "afterVisits now v =
     (let q = v_q v in
      case v_return v of
        Some st \<Rightarrow> (q, st)
      | None \<Rightarrow>
          if q_inFlight q > 0 then (q, StateQueryWaitingWithCapacity (q_id q) (q_stats q))
          else (let q' = markFinished now q in (q', StateQueryFinished (q_id q') (q_stats q'))))"

definition Query_Advance ::
  "'k Key \<Rightarrow> ('k, 'it) NodeIter \<Rightarrow> time \<Rightarrow> ('k, 'm, 'it) Query \<Rightarrow> ('k, 'a) QueryEvent \<Rightarrow>
   (('k, 'm, 'it) Query \<times> ('k, 'm) QueryState) option" where
  "Query_Advance K IT now q ev =
     (if q_finished q then Some (q, StateQueryFinished (q_id q) (q_stats q))
      else if ev = EventQueryCancel then
        (let q' = markFinished now q in Some (q', StateQueryFinished (q_id q') (q_stats q')))
      else do {
        q1 \<leftarrow> handleEvent K IT q ev;
        (v, _) \<leftarrow> Each IT (q_iter q1) (visitNode now)
          \<lparr>v_q = q1, v_successes = 0, v_progressing = False, v_return = None\<rparr>;
        Some (afterVisits now v)
      })"


section \<open>Invariant\<close>

text \<open>
  A node moves forward only: from not contacted to waiting, to unresponsive, and to one of the
  two final states.
\<close>

fun node_rank :: "NodeState \<Rightarrow> nat" where
  "node_rank StateNodeNotContacted = 0"
| "node_rank (StateNodeWaiting _) = 1"
| "node_rank StateNodeUnresponsive = 2"
| "node_rank StateNodeFailed = 3"
| "node_rank StateNodeSucceeded = 3"

definition moved :: "NodeState \<Rightarrow> NodeState \<Rightarrow> bool" where
  "moved a b \<longleftrightarrow> a = b \<or> node_rank a < node_rank b"

lemma moved_refl [simp]: "moved a a"
  by (simp add: moved_def)

lemma moved_trans: "moved a b \<Longrightarrow> moved b c \<Longrightarrow> moved a c"
  by (auto simp: moved_def)

fun isWaiting :: "NodeState \<Rightarrow> bool" where
  "isWaiting (StateNodeWaiting _) = True"
| "isWaiting _ = False"

definition stateAt :: "'k store \<Rightarrow> ref \<Rightarrow> NodeState" where
  "stateAt h r = nsState (h ! r)"

definition waiting :: "'k store \<Rightarrow> nat" where
  "waiting h = length (filter (\<lambda>n. isWaiting (nsState n)) h)"

text \<open>The store only grows, node ids stay, states move forward.\<close>

definition store_le :: "'k store \<Rightarrow> 'k store \<Rightarrow> bool" where
  "store_le h h' \<longleftrightarrow> same_nodes h h' \<and> (\<forall>r < length h. moved (stateAt h r) (stateAt h' r))"

lemma store_le_refl [simp]: "store_le h h"
  by (simp add: store_le_def)

lemma store_le_trans: "store_le a b \<Longrightarrow> store_le b c \<Longrightarrow> store_le a c"
  unfolding store_le_def
  by (metis same_nodes_trans moved_trans order_less_le_trans same_nodes_def)

lemma store_le_append: "store_le h (h @ xs)"
  by (simp add: store_le_def stateAt_def nth_append)

lemma stateAt_setState:
  "i < length h \<Longrightarrow> stateAt (setState h r st) i = (if i = r then st else stateAt h i)"
  by (simp add: stateAt_def setState_nth)

lemma keyAt_setState: "i < length h \<Longrightarrow> keyAt (setState h r st) i = keyAt h i"
  by (simp add: keyAt_same)

lemma store_le_setState:
  "r < length h \<Longrightarrow> moved (stateAt h r) st \<Longrightarrow> store_le h (setState h r st)"
  by (auto simp: store_le_def stateAt_setState)

lemma waiting_append [simp]: "waiting (h @ xs) = waiting h + waiting xs"
  by (simp add: waiting_def)

lemma waiting_Cons [simp]: "waiting (x # xs) = of_bool (isWaiting (nsState x)) + waiting xs"
  by (simp add: waiting_def)

lemma waiting_setState:
  assumes "r < length h"
  shows "int (waiting (setState h r st)) =
    int (waiting h) - of_bool (isWaiting (stateAt h r)) + of_bool (isWaiting st)"
proof -
  have w: "waiting h = waiting (take r h) + of_bool (isWaiting (stateAt h r)) + waiting (drop (Suc r) h)"
    using arg_cong [OF id_take_nth_drop [OF assms], of waiting] by (simp add: stateAt_def)
  have "setState h r st = take r h @ (h ! r)\<lparr>nsState := st\<rparr> # drop (Suc r) h"
    using assms by (simp add: setState_def upd_conv_take_nth_drop)
  then have "waiting (setState h r st) = waiting (take r h) + of_bool (isWaiting st) + waiting (drop (Suc r) h)"
    by simp
  with w show ?thesis by simp
qed

lemma waiting_pos: "r < length h \<Longrightarrow> isWaiting (stateAt h r) \<Longrightarrow> 0 < waiting h"
  by (auto simp: waiting_def stateAt_def filter_empty_conv)

lemma waiting_exists:
  assumes "0 < waiting h"
  obtains r where "r < length h" "isWaiting (stateAt h r)"
  using assms by (auto simp: waiting_def stateAt_def filter_empty_conv in_set_conv_nth)

text \<open>The fields that no step changes.\<close>

definition same_query :: "('k, 'm, 'it) Query \<Rightarrow> ('k, 'm, 'it) Query \<Rightarrow> bool" where
  "same_query q q' \<longleftrightarrow> q_self q' = q_self q \<and> q_id q' = q_id q \<and> q_cfg q' = q_cfg q \<and>
     q_protocolID q' = q_protocolID q \<and> q_msg q' = q_msg q"

definition query_inv ::
  "('k \<Rightarrow> bool) \<Rightarrow> ('k store \<Rightarrow> 'it \<Rightarrow> bool) \<Rightarrow> ('it \<Rightarrow> ref list) \<Rightarrow> ('k, 'm, 'it) Query \<Rightarrow> bool" where
  "query_inv valid iinv refs q \<longleftrightarrow>
     iinv (q_store q) (q_iter q) \<and> valid (nodeKey (q_self q)) \<and>
     1 \<le> qcConcurrency (q_cfg q) \<and> 1 \<le> qcNumResults (q_cfg q) \<and>
     q_inFlight q = int (waiting (q_store q)) \<and> q_inFlight q \<le> qcConcurrency (q_cfg q) \<and>
     (\<forall>r < length (q_store q). valid (keyAt (q_store q) r) \<and>
        keyAt (q_store q) r \<noteq> nodeKey (q_self q) \<and>
        (stateAt (q_store q) r \<noteq> StateNodeNotContacted \<longrightarrow> r \<in> set (refs (q_iter q))))"

fun event_valid :: "('k \<Rightarrow> bool) \<Rightarrow> ('k, 'a) QueryEvent \<Rightarrow> bool" where
  "event_valid valid (EventQueryMessageResponse node resp) =
     (valid (nodeKey node) \<and> (\<forall>rsp. resp = Some rsp \<longrightarrow>
        (\<forall>i \<in> set (CloserNodes rsp). valid (nodeKey (infoID i)))))"
| "event_valid valid (EventQueryMessageFailure node) = valid (nodeKey node)"
| "event_valid valid _ = True"

lemma query_field_simps [simp]:
  "q_store (incSuccess q) = q_store q" "q_store (incFailure q) = q_store q"
  "q_store (decInFlight q) = q_store q" "q_store (markFinished t q) = q_store q"
  "q_iter (incSuccess q) = q_iter q" "q_iter (incFailure q) = q_iter q"
  "q_iter (decInFlight q) = q_iter q" "q_iter (markFinished t q) = q_iter q"
  "q_iter (failNode q r) = q_iter q" "q_iter (contact t q r) = q_iter q"
  "q_cfg (incSuccess q) = q_cfg q" "q_cfg (incFailure q) = q_cfg q"
  "q_cfg (decInFlight q) = q_cfg q" "q_cfg (markFinished t q) = q_cfg q"
  "q_cfg (failNode q r) = q_cfg q" "q_cfg (contact t q r) = q_cfg q"
  "q_self (incSuccess q) = q_self q" "q_self (incFailure q) = q_self q"
  "q_self (decInFlight q) = q_self q" "q_self (markFinished t q) = q_self q"
  "q_self (failNode q r) = q_self q" "q_self (contact t q r) = q_self q"
  "q_inFlight (incSuccess q) = q_inFlight q" "q_inFlight (incFailure q) = q_inFlight q"
  "q_inFlight (decInFlight q) = q_inFlight q - 1" "q_inFlight (markFinished t q) = q_inFlight q"
  "q_inFlight (failNode q r) = q_inFlight q" "q_inFlight (contact t q r) = q_inFlight q + 1"
  "q_finished (markFinished t q)" "q_finished (incSuccess q) = q_finished q"
  "q_finished (incFailure q) = q_finished q" "q_finished (decInFlight q) = q_finished q"
  "q_finished (failNode q r) = q_finished q" "q_finished (contact t q r) = q_finished q"
  "q_store (failNode q r) = setState (q_store q) r StateNodeFailed"
  "q_store (contact t q r) =
     setState (q_store q) r (StateNodeWaiting (t + qcRequestTimeout (q_cfg q)))"
  by (simp_all add: incSuccess_def incFailure_def decInFlight_def markFinished_def failNode_def
      contact_def Let_def)

lemma same_query_simps [simp]:
  "same_query q q" "same_query q (incSuccess q') = same_query q q'"
  "same_query q (incFailure q') = same_query q q'" "same_query q (decInFlight q') = same_query q q'"
  "same_query q (markFinished t q') = same_query q q'" "same_query q (failNode q' r) = same_query q q'"
  "same_query q (contact t q' r) = same_query q q'"
  "same_query q (q'\<lparr>q_store := h\<rparr>) = same_query q q'"
  "same_query q (q'\<lparr>q_iter := it\<rparr>) = same_query q q'"
  by (auto simp: same_query_def incSuccess_def incFailure_def decInFlight_def markFinished_def
      failNode_def contact_def Let_def)

lemma same_query_trans: "same_query a b \<Longrightarrow> same_query b c \<Longrightarrow> same_query a c"
  by (simp add: same_query_def)

text \<open>One step of a query on its own fields and store.\<close>

definition query_le :: "('k, 'm, 'it) Query \<Rightarrow> ('k, 'm, 'it) Query \<Rightarrow> bool" where
  "query_le q q' \<longleftrightarrow> same_query q q' \<and> store_le (q_store q) (q_store q')"

lemma query_le_refl [simp]: "query_le q q"
  by (simp add: query_le_def)

lemma query_le_trans: "query_le a b \<Longrightarrow> query_le b c \<Longrightarrow> query_le a c"
  using same_query_trans store_le_trans by (auto simp: query_le_def)

locale query_iter = kad_key K valid len bits + node_iter IT valid inv refs
  for K :: "'k Key" and valid len bits and IT :: "('k, 'it) NodeIter" and inv refs
begin

abbreviation qinv :: "('k, 'm, 'it) Query \<Rightarrow> bool" where
  "qinv \<equiv> query_inv valid inv refs"

lemma addNodes_law:
  assumes "valid (nodeKey self)"
  shows "inv h it \<Longrightarrow> \<forall>n \<in> set nodes. valid (nodeKey n) \<Longrightarrow>
    \<exists>xs it'. addNodes K IT self h it nodes = Some (h @ xs, it') \<and> inv (h @ xs) it' \<and>
      set (refs it) \<subseteq> set (refs it') \<and>
      (\<forall>x \<in> set xs. nsState x = StateNodeNotContacted \<and> valid (nodeKey (nsNodeID x)) \<and>
         nodeKey (nsNodeID x) \<noteq> nodeKey self) \<and>
      (\<forall>n \<in> set nodes. nodeKey n \<noteq> nodeKey self \<longrightarrow>
         (\<exists>r \<in> set (refs it'). keyAt (h @ xs) r = nodeKey n))"
proof (induction nodes arbitrary: h it)
  case Nil
  then show ?case by auto
next
  case (Cons n nodes)
  show ?case
  proof (cases "nodeKey n = nodeKey self")
    case True
    with Cons assms show ?thesis by (simp add: Equal_law)
  next
    case False
    let ?h = "h @ [\<lparr>nsNodeID = n, nsState = StateNodeNotContacted\<rparr>]"
    have key: "keyAt ?h (length h) = nodeKey n" by (simp add: keyAt_def)
    have inv': "inv ?h it" using Cons.prems(1) by (rule inv_same) simp
    have new: "length h \<notin> set (refs it)" using refs_ok [OF Cons.prems(1)] by blast
    have v: "valid (keyAt ?h (length h))" using Cons.prems(2) key by simp
    obtain it1 where 1: "iterAdd IT ?h it (length h) = Some it1" "inv ?h it1"
      "set (refs it) \<subseteq> set (refs it1)" "\<exists>r \<in> set (refs it1). keyAt ?h r = nodeKey n"
      by (rule Add_cases [OF inv' _ v new]) (use key in auto)
    obtain xs it' where 2: "addNodes K IT self ?h it1 nodes = Some (?h @ xs, it')" "inv (?h @ xs) it'"
      "set (refs it1) \<subseteq> set (refs it')"
      "\<forall>x \<in> set xs. nsState x = StateNodeNotContacted \<and> valid (nodeKey (nsNodeID x)) \<and>
         nodeKey (nsNodeID x) \<noteq> nodeKey self"
      "\<forall>n \<in> set nodes. nodeKey n \<noteq> nodeKey self \<longrightarrow>
         (\<exists>r \<in> set (refs it'). keyAt (?h @ xs) r = nodeKey n)"
      using Cons.IH [OF 1(2)] Cons.prems(2) by auto
    obtain r where r: "r \<in> set (refs it1)" "keyAt ?h r = nodeKey n" using 1(4) by blast
    then have "keyAt (?h @ xs) r = nodeKey n"
      using keyAt_same [OF same_nodes_append, of r ?h xs] refs_ok [OF 1(2)] by simp
    with r 2 1 False Cons.prems(2) assms show ?thesis
      by (intro exI [of _ "\<lparr>nsNodeID = n, nsState = StateNodeNotContacted\<rparr> # xs"] exI [of _ it'])
        (auto simp: Equal_law Let_def)
  qed
qed

lemma qinvD:
  assumes "qinv q"
  shows "inv (q_store q) (q_iter q)" "valid (nodeKey (q_self q))"
    "1 \<le> qcConcurrency (q_cfg q)" "1 \<le> qcNumResults (q_cfg q)"
    "q_inFlight q = int (waiting (q_store q))" "q_inFlight q \<le> qcConcurrency (q_cfg q)"
    "r < length (q_store q) \<Longrightarrow> valid (keyAt (q_store q) r)"
    "r < length (q_store q) \<Longrightarrow> keyAt (q_store q) r \<noteq> nodeKey (q_self q)"
    "r < length (q_store q) \<Longrightarrow> stateAt (q_store q) r \<noteq> StateNodeNotContacted \<Longrightarrow>
      r \<in> set (refs (q_iter q))"
  using assms by (auto simp: query_inv_def)

text \<open>A change of the state of one node, with the counter adjusted.\<close>

lemma qinv_setState:
  assumes q: "qinv q" and r: "r \<in> set (refs (q_iter q))"
    and q': "q_store q' = setState (q_store q) r st" "q_iter q' = q_iter q" "q_cfg q' = q_cfg q"
      "q_self q' = q_self q"
      "q_inFlight q' = q_inFlight q - of_bool (isWaiting (stateAt (q_store q) r)) + of_bool (isWaiting st)"
      "q_inFlight q' \<le> qcConcurrency (q_cfg q)"
  shows "qinv q'"
proof -
  note D = qinvD [OF q]
  have rl: "r < length (q_store q)" using refs_ok [OF D(1) r] by simp
  have "inv (q_store q') (q_iter q')" using inv_same [OF D(1)] by (simp add: q')
  moreover have "q_inFlight q' = int (waiting (q_store q'))"
    using waiting_setState [OF rl] D(5) by (simp add: q')
  moreover have "keyAt (q_store q') i = keyAt (q_store q) i" if "i < length (q_store q)" for i
    using that by (simp add: q' keyAt_same)
  ultimately show ?thesis
    using D(2-4,6-9) q' r by (auto simp: query_inv_def stateAt_setState)
qed

lemma qinv_counters:
  "qinv (incSuccess q) = qinv q" "qinv (incFailure q) = qinv q" "qinv (markFinished t q) = qinv q"
  by (simp_all add: query_inv_def)

lemma addCloserNodes_law:
  assumes q: "qinv q" and ni: "ni \<in> set (refs (q_iter q))"
    and st: "isWaiting (stateAt (q_store q) ni) \<or> stateAt (q_store q) ni = StateNodeUnresponsive"
    and resp: "\<And>rsp i. resp = Some rsp \<Longrightarrow> i \<in> set (CloserNodes rsp) \<Longrightarrow> valid (nodeKey (infoID i))"
    and q1: "q_store q1 = q_store q" "q_iter q1 = q_iter q" "same_query q q1"
      "q_inFlight q1 = q_inFlight q - of_bool (isWaiting (stateAt (q_store q) ni))"
  shows "\<exists>q'. addCloserNodes K IT q1 ni resp = Some q' \<and> qinv q' \<and> query_le q q' \<and>
    q_finished q' = q_finished q1 \<and> stateAt (q_store q') ni = StateNodeSucceeded \<and>
    (\<forall>rsp i. resp = Some rsp \<and> i \<in> set (CloserNodes rsp) \<and>
       nodeKey (infoID i) \<noteq> nodeKey (q_self q) \<longrightarrow>
       (\<exists>r \<in> set (refs (q_iter q')). keyAt (q_store q') r = nodeKey (infoID i)))"
proof -
  note D = qinvD [OF q]
  have same: "q_self q1 = q_self q" "q_cfg q1 = q_cfg q" using q1(3) by (simp_all add: same_query_def)
  have nl: "ni < length (q_store q)" using refs_ok [OF D(1) ni] by simp
  define nodes where "nodes = (case resp of None \<Rightarrow> [] | Some rsp \<Rightarrow> map infoID (CloserNodes rsp))"
  have "\<forall>n \<in> set nodes. valid (nodeKey n)" using resp by (auto simp: nodes_def split: option.splits)
  then obtain xs it' where a: "addNodes K IT (q_self q) (q_store q) (q_iter q) nodes = Some (q_store q @ xs, it')"
    "inv (q_store q @ xs) it'" "set (refs (q_iter q)) \<subseteq> set (refs it')"
    "\<forall>x \<in> set xs. nsState x = StateNodeNotContacted \<and> valid (nodeKey (nsNodeID x)) \<and>
       nodeKey (nsNodeID x) \<noteq> nodeKey (q_self q)"
    "\<forall>n \<in> set nodes. nodeKey n \<noteq> nodeKey (q_self q) \<longrightarrow>
       (\<exists>r \<in> set (refs it'). keyAt (q_store q @ xs) r = nodeKey n)"
    using addNodes_law [OF D(2) D(1)] by blast
  define q2 where "q2 = q\<lparr>q_store := q_store q @ xs, q_iter := it'\<rparr>"
  define q' where "q' = q1\<lparr>q_store := setState (q_store q @ xs) ni StateNodeSucceeded, q_iter := it'\<rparr>"
  have eq: "addCloserNodes K IT q1 ni resp = Some q'"
    using a(1) by (cases resp) (auto simp: addCloserNodes_def q1 same nodes_def q'_def)
  have wx: "waiting xs = 0" using a(4) by (simp add: waiting_def filter_empty_conv)
  have at: "i < length (q_store q) \<Longrightarrow> keyAt (q_store q @ xs) i = keyAt (q_store q) i"
    "i < length (q_store q) \<Longrightarrow> stateAt (q_store q @ xs) i = stateAt (q_store q) i" for i
    by (simp_all add: keyAt_def stateAt_def nth_append)
  have new: "valid (keyAt (q_store q @ xs) i)" "keyAt (q_store q @ xs) i \<noteq> nodeKey (q_self q)"
    "stateAt (q_store q @ xs) i = StateNodeNotContacted"
    if "\<not> i < length (q_store q)" "i < length (q_store q @ xs)" for i
    using that a(4) by (auto simp: keyAt_def stateAt_def nth_append)
  have "valid (keyAt (q_store q @ xs) i) \<and> keyAt (q_store q @ xs) i \<noteq> nodeKey (q_self q) \<and>
      (stateAt (q_store q @ xs) i \<noteq> StateNodeNotContacted \<longrightarrow> i \<in> set (refs it'))"
    if "i < length (q_store q @ xs)" for i
  proof (cases "i < length (q_store q)")
    case True
    then show ?thesis using D(7-9) [OF True] a(3) by (auto simp: at)
  next
    case False
    then show ?thesis using new [OF False that] by simp
  qed
  then have "qinv q2"
    unfolding query_inv_def q2_def using D(2-6) a(2) wx by simp
  moreover have "stateAt (q_store q2) ni = stateAt (q_store q) ni"
    using at(2) [OF nl] by (simp add: q2_def)
  ultimately have qi: "qinv q'"
    using q1 same ni a(3) D(6) st
    by (intro qinv_setState [of q2 ni q' StateNodeSucceeded]) (auto simp: q2_def q'_def)
  have le: "store_le (q_store q) (q_store q')"
  proof (rule store_le_trans [OF store_le_append])
    show "store_le (q_store q @ xs) (q_store q')"
      unfolding q'_def using st nl at(2) [OF nl]
      by (auto intro!: store_le_setState simp: moved_def elim!: isWaiting.elims)
  qed
  have close: "\<exists>r \<in> set (refs (q_iter q')). keyAt (q_store q') r = nodeKey n"
    if "n \<in> set nodes" "nodeKey n \<noteq> nodeKey (q_self q)" for n
  proof -
    from that a(5) obtain r where r: "r \<in> set (refs it')" "keyAt (q_store q @ xs) r = nodeKey n" by blast
    with refs_ok [OF a(2) r(1)] show ?thesis
      by (auto simp: q'_def keyAt_setState intro!: bexI [of _ r])
  qed
  have "\<exists>r \<in> set (refs (q_iter q')). keyAt (q_store q') r = nodeKey (infoID i)"
    if "resp = Some rsp" "i \<in> set (CloserNodes rsp)" "nodeKey (infoID i) \<noteq> nodeKey (q_self q)" for rsp i
    using that close by (auto simp: nodes_def)
  moreover have "stateAt (q_store q') ni = StateNodeSucceeded"
    using nl by (simp add: q'_def stateAt_setState)
  ultimately show ?thesis
    using eq qi le q1(3) by (auto simp: query_le_def q'_def)
qed

lemma onMessageResponse_law:
  assumes q: "qinv q" and node: "valid (nodeKey node)"
    and resp: "\<And>rsp i. resp = Some rsp \<Longrightarrow> i \<in> set (CloserNodes rsp) \<Longrightarrow> valid (nodeKey (infoID i))"
  shows "\<exists>q'. onMessageResponse K IT q node resp = Some q' \<and> qinv q' \<and> query_le q q' \<and>
    q_finished q' = q_finished q"
  using qinvD(1) [OF q] node
proof (cases rule: Find_cases)
  case missing
  then show ?thesis using q by (simp add: onMessageResponse_def)
next
  case (found r)
  have law: "isWaiting (stateAt (q_store q) r) \<or> stateAt (q_store q) r = StateNodeUnresponsive \<Longrightarrow>
      q_store q1 = q_store q \<Longrightarrow> q_iter q1 = q_iter q \<Longrightarrow> same_query q q1 \<Longrightarrow>
      q_inFlight q1 = q_inFlight q - of_bool (isWaiting (stateAt (q_store q) r)) \<Longrightarrow>
      \<exists>q'. addCloserNodes K IT q1 r resp = Some q' \<and> qinv q' \<and> query_le q q' \<and>
        q_finished q' = q_finished q1" for q1
    using addCloserNodes_law [OF q found(2), of resp q1] resp by blast
  show ?thesis
  proof (cases "nsState (q_store q ! r)")
    case (StateNodeWaiting d)
    then obtain q' where "addCloserNodes K IT (incSuccess (decInFlight q)) r resp = Some q'" "qinv q'"
      "query_le q q'" "q_finished q' = q_finished q"
      using law [of "incSuccess (decInFlight q)"] by (auto simp: stateAt_def)
    with StateNodeWaiting found(1) show ?thesis by (simp add: onMessageResponse_def)
  next
    case StateNodeUnresponsive
    then obtain q' where "addCloserNodes K IT (incSuccess q) r resp = Some q'" "qinv q'"
      "query_le q q'" "q_finished q' = q_finished q"
      using law [of "incSuccess q"] by (auto simp: stateAt_def)
    with StateNodeUnresponsive found(1) show ?thesis by (simp add: onMessageResponse_def)
  qed (use found(1) q in \<open>simp_all add: onMessageResponse_def\<close>)
qed

lemma failNode_law:
  assumes q: "qinv q" and r: "r \<in> set (refs (q_iter q))"
    and st: "node_rank (stateAt (q_store q) r) < 3"
    and q1: "q_store q1 = q_store q" "q_iter q1 = q_iter q" "same_query q q1"
      "q_inFlight q1 = q_inFlight q - of_bool (isWaiting (stateAt (q_store q) r))"
  shows "qinv (failNode q1 r)" "query_le q (failNode q1 r)"
proof -
  have r': "r < length (q_store q)" using refs_ok [OF qinvD(1) [OF q] r] by simp
  show "qinv (failNode q1 r)"
    using q1 qinvD(6) [OF q]
    by (intro qinv_setState [OF q r, of _ StateNodeFailed]) (auto simp: same_query_def)
  show "query_le q (failNode q1 r)"
    using q1 r' st by (auto simp: query_le_def moved_def intro!: store_le_setState)
qed

lemma onMessageFailure_law:
  assumes q: "qinv q" and node: "valid (nodeKey node)"
  shows "\<exists>q'. onMessageFailure IT q node = Some q' \<and> qinv q' \<and> query_le q q' \<and>
    q_finished q' = q_finished q"
  using qinvD(1) [OF q] node
proof (cases rule: Find_cases)
  case missing
  then show ?thesis using q by (simp add: onMessageFailure_def)
next
  case (found r)
  show ?thesis
    using failNode_law [OF q found(2), of "incFailure (decInFlight q)"]
      failNode_law [OF q found(2), of q] found(1) q
    by (cases "nsState (q_store q ! r)") (simp_all add: onMessageFailure_def stateAt_def)
qed

lemma handleEvent_law:
  assumes "qinv q" "event_valid valid ev"
  obtains q' where "handleEvent K IT q ev = Some q'" "qinv q'" "query_le q q'"
    "q_finished q' = q_finished q"
proof (cases ev)
  case (EventQueryMessageResponse node resp)
  with assms(2) that onMessageResponse_law [OF assms(1), of node resp] show ?thesis
    by (auto simp: handleEvent_def)
next
  case (EventQueryMessageFailure node)
  with assms(2) that onMessageFailure_law [OF assms(1), of node] show ?thesis
    by (auto simp: handleEvent_def)
qed (use that assms(1) in \<open>simp_all add: handleEvent_def\<close>)

end

text \<open>What the loop of \<open>Advance\<close> has done after it visited the nodes \<open>pre\<close> without stopping.\<close>

definition visited ::
  "time \<Rightarrow> ('k, 'm, 'it) Query \<Rightarrow> ref list \<Rightarrow> ('k, 'm, 'it) Visit \<Rightarrow> bool" where
  "visited now q0 pre v \<longleftrightarrow>
     (let q = v_q v in
      query_le q0 q \<and> length (q_store q) = length (q_store q0) \<and> q_iter q = q_iter q0 \<and>
      q_finished q = q_finished q0 \<and> v_return v = None \<and>
      (\<forall>r. r < length (q_store q) \<and> r \<notin> set pre \<longrightarrow> stateAt (q_store q) r = stateAt (q_store q0) r) \<and>
      (\<forall>r \<in> set pre. stateAt (q_store q) r \<noteq> StateNodeNotContacted) \<and>
      (\<forall>r \<in> set pre. \<forall>d. stateAt (q_store q) r = StateNodeWaiting d \<longrightarrow>
         now \<le> d \<and> v_progressing v) \<and>
      (v_progressing v \<longrightarrow> q_inFlight q < qcConcurrency (q_cfg q)) \<and>
      (v_progressing v \<longrightarrow> (\<exists>r \<in> set pre. isWaiting (stateAt (q_store q) r))) \<and>
      v_successes v = int (length (filter (\<lambda>r. stateAt (q_store q) r = StateNodeSucceeded) pre)))"

text \<open>The state that \<open>Advance\<close> returns and what it means for the query.\<close>

definition advanced ::
  "('it \<Rightarrow> ref list) \<Rightarrow> time \<Rightarrow> ('k, 'm, 'it) Query \<Rightarrow> ('k, 'm, 'it) Query \<Rightarrow> ('k, 'm) QueryState \<Rightarrow> bool" where
  "advanced refs now q q' st \<longleftrightarrow>
     (case st of
        StateQueryWaitingMessage i s n p m \<Rightarrow>
          \<not> q_finished q' \<and> i = q_id q \<and> s = q_stats q' \<and> p = q_protocolID q \<and> m = q_msg q \<and>
          (\<exists>pre r suf. refs (q_iter q') = pre @ r # suf \<and> r < length (q_store q') \<and>
             n = nsNodeID (q_store q' ! r) \<and>
             (r < length (q_store q) \<longrightarrow> stateAt (q_store q) r = StateNodeNotContacted) \<and>
             stateAt (q_store q') r = StateNodeWaiting (now + qcRequestTimeout (q_cfg q)) \<and>
             (\<forall>x \<in> set pre. stateAt (q_store q') x \<noteq> StateNodeNotContacted))
      | StateQueryWaitingAtCapacity i s \<Rightarrow>
          \<not> q_finished q' \<and> i = q_id q \<and> s = q_stats q' \<and> q_inFlight q' = qcConcurrency (q_cfg q)
      | StateQueryWaitingWithCapacity i s \<Rightarrow>
          \<not> q_finished q' \<and> i = q_id q \<and> s = q_stats q' \<and>
          0 < q_inFlight q' \<and> q_inFlight q' < qcConcurrency (q_cfg q) \<and>
          (\<forall>r \<in> set (refs (q_iter q')). stateAt (q_store q') r \<noteq> StateNodeNotContacted \<and>
             (\<forall>d. stateAt (q_store q') r = StateNodeWaiting d \<longrightarrow> now \<le> d))
      | StateQueryFinished i s \<Rightarrow>
          q_finished q' \<and> i = q_id q \<and> s = q_stats q' \<and>
          (q_inFlight q' = 0 \<and>
             (\<forall>r \<in> set (refs (q_iter q')). stateAt (q_store q') r \<noteq> StateNodeNotContacted) \<or>
           (\<exists>pre suf. refs (q_iter q') = pre @ suf \<and>
              qcNumResults (q_cfg q) \<le>
                int (length (filter (\<lambda>r. stateAt (q_store q') r = StateNodeSucceeded) pre)) \<and>
              (\<forall>r \<in> set pre. stateAt (q_store q') r \<noteq> StateNodeNotContacted \<and>
                 \<not> isWaiting (stateAt (q_store q') r)))))"

lemma moved_NotContacted: "moved a StateNodeNotContacted \<Longrightarrow> a = StateNodeNotContacted"
  by (simp add: moved_def)

lemma query_le_at:
  assumes "query_le q q'" "r < length (q_store q)"
  shows "r < length (q_store q')" "keyAt (q_store q') r = keyAt (q_store q) r"
    "stateAt (q_store q) r \<noteq> StateNodeNotContacted \<Longrightarrow> stateAt (q_store q') r \<noteq> StateNodeNotContacted"
proof -
  have sn: "same_nodes (q_store q) (q_store q')"
    and mv: "moved (stateAt (q_store q) r) (stateAt (q_store q') r)"
    using assms by (auto simp: query_le_def store_le_def)
  from sn assms(2) show "r < length (q_store q')" by (auto simp: same_nodes_def)
  from sn assms(2) show "keyAt (q_store q') r = keyAt (q_store q) r" by (rule keyAt_same)
  from mv show "stateAt (q_store q) r \<noteq> StateNodeNotContacted \<Longrightarrow>
      stateAt (q_store q') r \<noteq> StateNodeNotContacted"
    using moved_NotContacted by metis
qed

lemma advanced_le:
  assumes "query_le q q1" "advanced refs now q1 q' st"
  shows "advanced refs now q q' st"
proof -
  have sq: "same_query q q1" using assms(1) by (simp add: query_le_def)
  have nc: "stateAt (q_store q) r = StateNodeNotContacted"
    if "r < length (q_store q)" "r < length (q_store q1) \<longrightarrow> stateAt (q_store q1) r = StateNodeNotContacted" for r
  proof -
    have "r < length (q_store q1)" "moved (stateAt (q_store q) r) (stateAt (q_store q1) r)"
      using that(1) assms(1) by (auto simp: query_le_def store_le_def same_nodes_def)
    with that(2) moved_NotContacted show ?thesis by metis
  qed
  show ?thesis
  proof (cases st)
    case (StateQueryWaitingMessage i s n p m)
    have same: "q_id q1 = q_id q" "q_protocolID q1 = q_protocolID q" "q_msg q1 = q_msg q"
      "q_cfg q1 = q_cfg q" using sq by (simp_all add: same_query_def)
    note a = assms(2) [unfolded StateQueryWaitingMessage advanced_def QueryState.case same]
    then obtain pre r suf where r: "refs (q_iter q') = pre @ r # suf" "r < length (q_store q')"
      "n = nsNodeID (q_store q' ! r)"
      "r < length (q_store q1) \<longrightarrow> stateAt (q_store q1) r = StateNodeNotContacted"
      "stateAt (q_store q') r = StateNodeWaiting (now + qcRequestTimeout (q_cfg q))"
      "\<forall>x \<in> set pre. stateAt (q_store q') x \<noteq> StateNodeNotContacted" by blast
    have "r < length (q_store q) \<longrightarrow> stateAt (q_store q) r = StateNodeNotContacted"
      using nc r(4) by blast
    with r a show ?thesis
      unfolding StateQueryWaitingMessage advanced_def QueryState.case by blast
  qed (use assms(2) sq in \<open>simp_all add: advanced_def same_query_def\<close>)
qed

context query_iter
begin

lemma visited_setState:
  assumes vis: "visited now q0 pre v" and r: "r \<notin> set pre" "r < length (q_store q0)"
    and pre: "set pre \<subseteq> {..<length (q_store q0)}"
    and st: "st = StateNodeUnresponsive" "moved (stateAt (q_store q0) r) st"
    and q': "q_store q' = setState (q_store (v_q v)) r st" "q_iter q' = q_iter (v_q v)"
      "same_query q0 q'" "q_finished q' = q_finished (v_q v)"
      "q_inFlight q' \<le> q_inFlight (v_q v)"
  shows "visited now q0 (pre @ [r]) (v\<lparr>v_q := q'\<rparr>)"
proof -
  let ?h = "q_store (v_q v)"
  from vis have len: "length ?h = length (q_store q0)" and le: "query_le q0 (v_q v)"
    and same: "stateAt ?h r = stateAt (q_store q0) r"
    using r by (auto simp: visited_def Let_def)
  have at: "stateAt (q_store q') x = stateAt ?h x" if "x \<in> set pre" for x
    using that r(1) pre len by (auto simp: q' stateAt_setState)
  have atr: "stateAt (q_store q') r = st" using r len by (simp add: q' stateAt_setState)
  have oth: "stateAt (q_store q') x = stateAt ?h x" if "x \<noteq> r" "x < length ?h" for x
    using that by (simp add: q' stateAt_setState)
  have le': "query_le q0 q'"
    using le q'(1,3) st(2) r len same unfolding query_le_def
    by (auto intro!: store_le_trans [of "q_store q0" ?h] store_le_setState)
  have cfg: "q_cfg q' = q_cfg (v_q v)" using le q'(3) by (simp add: query_le_def same_query_def)
  have f: "filter (\<lambda>x. stateAt (q_store q') x = StateNodeSucceeded) pre =
      filter (\<lambda>x. stateAt ?h x = StateNodeSucceeded) pre"
    using at by (intro filter_cong) auto
  show ?thesis
    using vis le' cfg q'(1,2,4,5) st(1) r(1) len at atr oth f
    unfolding visited_def Let_def by (auto simp: q'(1))
qed

lemma visit_step:
  assumes q0: "\<not> q_finished q0" and q: "qinv (v_q v)" and vis: "visited now q0 pre v"
    and refs: "refs (q_iter q0) = pre @ r # suf"
  shows "\<exists>v' stop. visitNode now v r = Some (v', stop) \<and> qinv (v_q v') \<and>
    (if stop then query_le q0 (v_q v') \<and> (\<exists>st. v_return v' = Some st \<and> advanced refs now q0 (v_q v') st)
     else visited now q0 (pre @ [r]) v')"
proof -
  let ?q = "v_q v" and ?h = "q_store (v_q v)"
  note D = qinvD [OF q]
  from vis have it: "q_iter ?q = q_iter q0" and le: "query_le q0 ?q" and fin: "\<not> q_finished ?q"
    and len: "length ?h = length (q_store q0)"
    using q0 by (auto simp: visited_def Let_def)
  from le have cfg: "q_cfg ?q = q_cfg q0" "q_id ?q = q_id q0" "q_protocolID ?q = q_protocolID q0"
    "q_msg ?q = q_msg q0" and sle: "store_le (q_store q0) ?h" and sq: "same_query q0 ?q"
    by (auto simp: query_le_def same_query_def)
  have rin: "r \<in> set (refs (q_iter ?q))" by (simp add: it refs)
  have rl: "r < length ?h" using refs_ok [OF D(1) rin] by simp
  have new: "r \<notin> set pre" using refs_distinct [OF D(1)] by (simp add: it refs)
  have pre: "set pre \<subseteq> {..<length (q_store q0)}"
    using refs_ok [OF D(1)] len by (auto simp: it refs)
  have same: "stateAt ?h r = stateAt (q_store q0) r" using vis new rl by (auto simp: visited_def Let_def)
  show ?thesis
  proof (cases "nsState (?h ! r)")
    case StateNodeNotContacted
    show ?thesis
    proof (cases "atCapacity ?q")
      case True
      with StateNodeNotContacted q D(6) fin le cfg show ?thesis
        by (auto simp: visitNode_def Let_def atCapacity_def advanced_def)
    next
      case False
      let ?q' = "contact now ?q r"
      have at: "stateAt (q_store ?q') x = stateAt ?h x" if "x \<in> set pre" for x
        using that new pre len by (auto simp: stateAt_setState)
      have "qinv ?q'"
        using False by (intro qinv_setState [OF q rin, of _ "StateNodeWaiting (now + qcRequestTimeout (q_cfg ?q))"])
          (auto simp: atCapacity_def stateAt_def StateNodeNotContacted)
      moreover have "query_le q0 ?q'"
        using sle sq rl StateNodeNotContacted unfolding query_le_def
        by (auto intro!: store_le_trans [OF sle] store_le_setState simp: moved_def stateAt_def)
      moreover have "advanced refs now q0 ?q' (StateQueryWaitingMessage (q_id ?q') (q_stats ?q')
          (nsNodeID (q_store ?q' ! r)) (q_protocolID ?q') (q_msg ?q'))"
      proof -
        have nc0: "stateAt (q_store q0) r = StateNodeNotContacted"
          unfolding same [symmetric] using StateNodeNotContacted by (simp add: stateAt_def)
        have "same_query ?q ?q'" by simp
        then have ids: "q_id ?q' = q_id q0" "q_protocolID ?q' = q_protocolID q0" "q_msg ?q' = q_msg q0"
          using cfg by (simp_all add: same_query_def)
        have "\<forall>x \<in> set pre. stateAt (q_store ?q') x \<noteq> StateNodeNotContacted"
          using vis at by (simp add: visited_def Let_def)
        then have "\<exists>pre r' suf. refs (q_iter ?q') = pre @ r' # suf \<and> r' < length (q_store ?q') \<and>
            nsNodeID (q_store ?q' ! r) = nsNodeID (q_store ?q' ! r') \<and>
            (r' < length (q_store q0) \<longrightarrow> stateAt (q_store q0) r' = StateNodeNotContacted) \<and>
            stateAt (q_store ?q') r' = StateNodeWaiting (now + qcRequestTimeout (q_cfg q0)) \<and>
            (\<forall>x \<in> set pre. stateAt (q_store ?q') x \<noteq> StateNodeNotContacted)"
          by (intro exI [of _ pre], intro exI [of _ r], intro exI [of _ suf])
            (use it refs rl cfg nc0 in \<open>simp add: stateAt_setState\<close>)
        then show ?thesis
          unfolding advanced_def using fin ids by simp
      qed
      ultimately show ?thesis
        using StateNodeNotContacted False by (auto simp: visitNode_def Let_def)
    qed
  next
    case (StateNodeWaiting d)
    show ?thesis
    proof (cases "now > d")
      case True
      let ?q' = "incFailure (decInFlight (?q\<lparr>q_store := setState ?h r StateNodeUnresponsive\<rparr>))"
      have "qinv ?q'"
        using D(6) by (intro qinv_setState [OF q rin, of _ StateNodeUnresponsive])
          (auto simp: stateAt_def StateNodeWaiting)
      moreover have mv: "moved (stateAt (q_store q0) r) StateNodeUnresponsive"
        unfolding same [symmetric] using StateNodeWaiting by (simp add: stateAt_def moved_def)
      have "visited now q0 (pre @ [r]) (v\<lparr>v_q := ?q'\<rparr>)"
        using sq rl len mv by (intro visited_setState [OF vis new _ pre refl]) auto
      ultimately show ?thesis using StateNodeWaiting True by (auto simp: visitNode_def Let_def)
    next
      case alive: False
      show ?thesis
      proof (cases "atCapacity ?q")
        case True
        with StateNodeWaiting alive q D(6) fin le cfg show ?thesis
          by (auto simp: visitNode_def Let_def atCapacity_def advanced_def)
      next
        case False
        with vis StateNodeWaiting alive rl have "visited now q0 (pre @ [r]) (v\<lparr>v_progressing := True\<rparr>)"
          by (auto simp: visited_def Let_def atCapacity_def stateAt_def)
        with StateNodeWaiting alive False q show ?thesis by (auto simp: visitNode_def Let_def)
      qed
    qed
  next
    case StateNodeSucceeded
    let ?v1 = "v\<lparr>v_successes := v_successes v + 1\<rparr>"
    have vis1: "visited now q0 (pre @ [r]) ?v1"
      using vis StateNodeSucceeded by (auto simp: visited_def Let_def stateAt_def)
    show ?thesis
    proof (cases "\<not> v_progressing v \<and> v_successes v + 1 \<ge> qcNumResults (q_cfg ?q)")
      case True
      let ?q' = "markFinished now ?q"
      have same': "same_query ?q ?q'" by simp
      have "\<not> isWaiting (stateAt (q_store ?q) x)" if "x \<in> set (pre @ [r])" for x
        using vis1 that True by (cases "stateAt (q_store ?q) x") (auto simp: visited_def Let_def)
      moreover have "stateAt (q_store ?q) x \<noteq> StateNodeNotContacted" if "x \<in> set (pre @ [r])" for x
        using vis1 that by (auto simp: visited_def Let_def)
      moreover have "qcNumResults (q_cfg q0) \<le>
          int (length (filter (\<lambda>r. stateAt (q_store ?q) r = StateNodeSucceeded) (pre @ [r])))"
        using vis1 True cfg(1) unfolding visited_def Let_def by simp
      moreover have "refs (q_iter ?q') = (pre @ [r]) @ suf" by (simp add: it refs)
      ultimately have "\<exists>pre suf. refs (q_iter ?q') = pre @ suf \<and>
          qcNumResults (q_cfg q0) \<le>
            int (length (filter (\<lambda>r. stateAt (q_store ?q') r = StateNodeSucceeded) pre)) \<and>
          (\<forall>r \<in> set pre. stateAt (q_store ?q') r \<noteq> StateNodeNotContacted \<and>
             \<not> isWaiting (stateAt (q_store ?q') r))"
        unfolding query_field_simps by blast
      moreover have "q_id ?q' = q_id q0" using same' cfg by (simp add: same_query_def)
      ultimately have "advanced refs now q0 ?q' (StateQueryFinished (q_id ?q') (q_stats ?q'))"
        unfolding advanced_def by simp
      with StateNodeSucceeded True q le show ?thesis
        by (auto simp: visitNode_def Let_def qinv_counters query_le_def)
    next
      case False
      with StateNodeSucceeded q vis1 show ?thesis by (auto simp: visitNode_def Let_def)
    qed
  next
    case StateNodeUnresponsive
    with vis q rl show ?thesis by (auto simp: visitNode_def Let_def visited_def stateAt_def)
  next
    case StateNodeFailed
    with vis q rl show ?thesis by (auto simp: visitNode_def Let_def visited_def stateAt_def)
  qed
qed

lemma visit_loop:
  assumes q0: "\<not> q_finished q0"
  shows "qinv (v_q v) \<Longrightarrow> visited now q0 pre v \<Longrightarrow> refs (q_iter q0) = pre @ rs \<Longrightarrow>
    \<exists>v' stop. eachLoop (visitNode now) v rs = Some (v', stop) \<and> qinv (v_q v') \<and>
      (if stop then query_le q0 (v_q v') \<and> (\<exists>st. v_return v' = Some st \<and> advanced refs now q0 (v_q v') st)
       else visited now q0 (refs (q_iter q0)) v')"
proof (induction rs arbitrary: pre v)
  case Nil
  then show ?case by auto
next
  case (Cons r rs)
  obtain v' stop where 1: "visitNode now v r = Some (v', stop)" "qinv (v_q v')"
    "if stop then query_le q0 (v_q v') \<and> (\<exists>st. v_return v' = Some st \<and> advanced refs now q0 (v_q v') st)
     else visited now q0 (pre @ [r]) v'"
    using visit_step [OF q0 Cons.prems] by blast
  show ?case
  proof (cases stop)
    case True
    with 1 show ?thesis by auto
  next
    case False
    with 1 Cons.IH [of v' "pre @ [r]"] Cons.prems(3) show ?thesis by simp
  qed
qed

lemma Advance_law:
  assumes q: "qinv q" and ev: "event_valid valid ev" and run: "\<not> q_finished q" "ev \<noteq> EventQueryCancel"
  shows "\<exists>q' st. Query_Advance K IT now q ev = Some (q', st) \<and> qinv q' \<and> query_le q q' \<and>
    advanced refs now q q' st"
proof -
  obtain q1 where 1: "handleEvent K IT q ev = Some q1" "qinv q1" "query_le q q1" "\<not> q_finished q1"
    using handleEvent_law [OF q ev] run(1) by metis
  let ?v = "\<lparr>v_q = q1, v_successes = 0, v_progressing = False, v_return = None\<rparr>"
  have "visited now q1 [] ?v" by (simp add: visited_def)
  then obtain v stop where 2: "eachLoop (visitNode now) ?v (refs (q_iter q1)) = Some (v, stop)"
    "qinv (v_q v)" "if stop then query_le q1 (v_q v) \<and>
       (\<exists>st. v_return v = Some st \<and> advanced refs now q1 (v_q v) st)
     else visited now q1 (refs (q_iter q1)) v"
    using visit_loop [OF 1(4), of ?v now "[]" "refs (q_iter q1)"] 1(2) by auto
  have adv: "Query_Advance K IT now q ev = Some (afterVisits now v)"
    using run 1(1) 2(1) by (simp add: Query_Advance_def Each_law [OF qinvD(1) [OF 1(2)]])
  have sq: "same_query q q1" using 1(3) by (simp add: query_le_def)
  note adv_same = advanced_le [OF 1(3)]
  show ?thesis
  proof (cases stop)
    case True
    with 2 obtain st where "v_return v = Some st" "advanced refs now q1 (v_q v) st" "query_le q1 (v_q v)"
      by auto
    with 1(3) 2(2) show ?thesis
      using query_le_trans adv adv_same by (auto simp: afterVisits_def Let_def)
  next
    case False
    with 2(3) have vis: "visited now q1 (refs (q_iter q1)) v" by simp
    then have le: "query_le q (v_q v)" and ret: "v_return v = None" and fin: "\<not> q_finished (v_q v)"
      and it: "q_iter (v_q v) = q_iter q1"
      using query_le_trans [OF 1(3)] 1(4) by (auto simp: visited_def Let_def)
    have ids: "q_id (v_q v) = q_id q" "q_cfg (v_q v) = q_cfg q"
      using le by (simp_all add: query_le_def same_query_def)
    show ?thesis
    proof (cases "q_inFlight (v_q v) > 0")
      case True
      then obtain r where r: "r < length (q_store (v_q v))" "isWaiting (stateAt (q_store (v_q v)) r)"
        using waiting_exists qinvD(5) [OF 2(2)] by (metis of_nat_0_less_iff)
      then have "r \<in> set (refs (q_iter q1))" "v_progressing v"
        using vis qinvD(9) [OF 2(2) r(1)] it
        by (cases "stateAt (q_store (v_q v)) r"; auto simp: visited_def Let_def)+
      with vis True ids it fin have "advanced refs now q (v_q v)
          (StateQueryWaitingWithCapacity (q_id (v_q v)) (q_stats (v_q v)))"
        by (auto simp: advanced_def visited_def Let_def)
      with adv ret True le 2(2) show ?thesis by (simp add: afterVisits_def Let_def)
    next
      case no: False
      then have zero: "q_inFlight (v_q v) = 0" using qinvD(5) [OF 2(2)] by simp
      let ?q' = "markFinished now (v_q v)"
      have "same_query (v_q v) ?q'" by simp
      then have "advanced refs now q ?q' (StateQueryFinished (q_id ?q') (q_stats ?q'))"
        using vis zero ids it by (auto simp: advanced_def visited_def Let_def same_query_def)
      with adv ret no le 2(2) show ?thesis
        by (auto simp: afterVisits_def Let_def qinv_counters query_le_def)
    qed
  qed
qed

end

text \<open>Both iterators of \<open>query/iter.go\<close> can drive a query.\<close>

sublocale kad_key \<subseteq> cq: query_iter K valid len bits "ClosestNodesIter_methods K"
  "closest_inv valid bits" "closest_refs bits" ..

sublocale kad_key \<subseteq> sq: query_iter K valid len bits "SequentialIter_methods K"
  "seq_inv valid" si_nodes ..

section \<open>Runs of a query\<close>

context query_iter
begin

lemma NewQuery_law:
  assumes "inv [] it" "refs it = []" "valid (nodeKey self)" "\<forall>n \<in> set known. valid (nodeKey n)"
    and "\<And>c. cfg = Some c \<Longrightarrow> QueryConfig_Validate c = None"
  shows "\<exists>q. NewQuery K IT self qid pid msg it known cfg = Some (Inr q) \<and> qinv q \<and>
    \<not> q_finished q \<and> q_self q = self \<and> q_id q = qid \<and> q_inFlight q = 0 \<and> q_stats q = zeroStats \<and>
    (\<forall>r < length (q_store q). stateAt (q_store q) r = StateNodeNotContacted)"
proof -
  obtain xs it' where a: "addNodes K IT self [] it known = Some (xs, it')" "inv xs it'"
    "\<forall>x \<in> set xs. nsState x = StateNodeNotContacted \<and> valid (nodeKey (nsNodeID x)) \<and>
       nodeKey (nsNodeID x) \<noteq> nodeKey self"
    using addNodes_law [OF assms(3,1,4)] by auto
  define c where "c = (case cfg of None \<Rightarrow> DefaultQueryConfig | Some c \<Rightarrow> c)"
  have c: "1 \<le> qcConcurrency c" "1 \<le> qcNumResults c"
    using assms(5) by (auto simp: c_def DefaultQueryConfig_def QueryConfig_Validate_def
        split: option.splits if_splits)
  have w: "waiting xs = 0" using a(3) by (simp add: waiting_def filter_empty_conv)
  have "NewQuery K IT self qid pid msg it known cfg =
      Some (Inr \<lparr>q_self = self, q_id = qid, q_cfg = c, q_iter = it', q_store = xs,
        q_protocolID = pid, q_msg = msg, q_stats = zeroStats, q_finished = False, q_inFlight = 0\<rparr>)"
    using a(1) assms(5) by (auto simp: NewQuery_def c_def Let_def split: option.splits)
  then show ?thesis
    using a(2,3) c w assms(3) by (simp add: query_inv_def keyAt_def stateAt_def)
qed

lemma Advance_inv:
  assumes q: "qinv q" and ev: "event_valid valid ev"
  shows "\<exists>q' st. Query_Advance K IT now q ev = Some (q', st) \<and> qinv q' \<and> query_le q q'"
proof (cases "q_finished q \<or> ev = EventQueryCancel")
  case True
  then show ?thesis using q by (auto simp: Query_Advance_def Let_def qinv_counters query_le_def)
next
  case False
  then show ?thesis using Advance_law [OF q ev] by blast
qed

end

text \<open>A run: the steps of a query at the given times with the given events, and the nodes that
  it asked to send a message to, the last one first.\<close>

fun query_run ::
  "'k Key \<Rightarrow> ('k, 'it) NodeIter \<Rightarrow> ('k, 'm, 'it) Query \<Rightarrow> 'k NodeID list \<Rightarrow>
   (time \<times> ('k, 'a) QueryEvent) list \<Rightarrow> (('k, 'm, 'it) Query \<times> 'k NodeID list) option" where
  "query_run K IT q sent [] = Some (q, sent)"
| "query_run K IT q sent ((now, ev) # evs) = do {
     (q', st) \<leftarrow> Query_Advance K IT now q ev;
     (case st of
        StateQueryWaitingMessage _ _ n _ _ \<Rightarrow> query_run K IT q' (n # sent) evs
      | _ \<Rightarrow> query_run K IT q' sent evs)
   }"

text \<open>The nodes contacted so far: known to the iterator, contacted, not the node itself, distinct.\<close>

definition sent_ok ::
  "('it \<Rightarrow> ref list) \<Rightarrow> ('k, 'm, 'it) Query \<Rightarrow> 'k NodeID list \<Rightarrow> bool" where
  "sent_ok refs q sent \<longleftrightarrow>
     distinct (map nodeKey sent) \<and>
     (\<forall>n \<in> set sent. \<exists>r < length (q_store q). keyAt (q_store q) r = nodeKey n \<and>
        stateAt (q_store q) r \<noteq> StateNodeNotContacted)"

context query_iter
begin

lemma sent_ok_le:
  assumes "sent_ok refs q sent" "query_le q q'"
  shows "sent_ok refs q' sent"
proof -
  have "\<exists>r < length (q_store q'). keyAt (q_store q') r = nodeKey n \<and>
      stateAt (q_store q') r \<noteq> StateNodeNotContacted" if "n \<in> set sent" for n
  proof -
    from that assms(1) obtain r where r: "r < length (q_store q)" "keyAt (q_store q) r = nodeKey n"
      "stateAt (q_store q) r \<noteq> StateNodeNotContacted" by (auto simp: sent_ok_def)
    with query_le_at [OF assms(2) r(1)] show ?thesis by auto
  qed
  with assms(1) show ?thesis by (simp add: sent_ok_def)
qed

lemma sent_ok_message:
  assumes keys: "\<And>a b. a \<in> set (refs (q_iter q')) \<Longrightarrow> b \<in> set (refs (q_iter q')) \<Longrightarrow>
      keyAt (q_store q') a = keyAt (q_store q') b \<Longrightarrow> a = b"
    and q': "qinv q'" and le: "query_le q q'" and ok: "sent_ok refs q sent"
    and adv: "advanced refs now q q' (StateQueryWaitingMessage i s n p m)"
  shows "sent_ok refs q' (n # sent)"
proof -
  from adv obtain r where r: "r \<in> set (refs (q_iter q'))" "r < length (q_store q')"
    "n = nsNodeID (q_store q' ! r)" "stateAt (q_store q') r \<noteq> StateNodeNotContacted"
    "r < length (q_store q) \<longrightarrow> stateAt (q_store q) r = StateNodeNotContacted"
    unfolding advanced_def QueryState.case
    by (metis NodeState.distinct(1) in_set_conv_decomp)
  have "nodeKey n \<noteq> nodeKey x" if x: "x \<in> set sent" for x
  proof
    assume eq: "nodeKey n = nodeKey x"
    from x ok obtain y where y: "y < length (q_store q)" "keyAt (q_store q) y = nodeKey x"
      "stateAt (q_store q) y \<noteq> StateNodeNotContacted" by (auto simp: sent_ok_def)
    from query_le_at [OF le y(1)] y have y': "y < length (q_store q')" "keyAt (q_store q') y = nodeKey x"
      "stateAt (q_store q') y \<noteq> StateNodeNotContacted" by auto
    have "keyAt (q_store q') r = keyAt (q_store q') y"
      using eq r(3) y'(2) by (simp add: keyAt_def)
    with keys [OF r(1) qinvD(9) [OF q' y'(1,3)]] have "r = y" by blast
    with r(5) y show False by simp
  qed
  then show ?thesis
    using sent_ok_le [OF ok le] r by (auto simp: sent_ok_def keyAt_def)
qed

lemma query_run_law:
  assumes keys: "\<And>h it a b. inv h it \<Longrightarrow> a \<in> set (refs it) \<Longrightarrow> b \<in> set (refs it) \<Longrightarrow>
      keyAt h a = keyAt h b \<Longrightarrow> a = b"
  shows "qinv q \<Longrightarrow> sent_ok refs q sent \<Longrightarrow> \<forall>(now, ev) \<in> set evs. event_valid valid ev \<Longrightarrow>
    \<exists>q' sent'. query_run K IT q sent evs = Some (q', sent') \<and> qinv q' \<and> query_le q q' \<and>
      sent_ok refs q' sent'"
proof (induction evs arbitrary: q sent)
  case (Cons e evs)
  obtain now ev where e: "e = (now, ev)" by force
  with Cons.prems(3) have ev: "event_valid valid ev" by simp
  obtain q1 st where 1: "Query_Advance K IT now q ev = Some (q1, st)" "qinv q1" "query_le q q1"
    using Advance_inv [OF Cons.prems(1) ev] by blast
  have "sent_ok refs q1 (n # sent)" if st: "st = StateQueryWaitingMessage i s n p m" for i s n p m
  proof -
    have "\<not> q_finished q \<and> ev \<noteq> EventQueryCancel"
      using 1(1) st by (auto simp: Query_Advance_def Let_def split: if_splits)
    then have "advanced refs now q q1 st"
      using Advance_law [OF Cons.prems(1) ev, of now] 1(1) by auto
    with st keys [OF qinvD(1) [OF 1(2)]] 1 Cons.prems(2) show ?thesis
      using sent_ok_message [of q1 q sent now] by blast
  qed
  then have "sent_ok refs q1 (case st of StateQueryWaitingMessage i s n p m \<Rightarrow> n # sent | _ \<Rightarrow> sent)"
    using sent_ok_le [OF Cons.prems(2) 1(3)] by (simp split: QueryState.split)
  then obtain q' sent' where "query_run K IT q1
      (case st of StateQueryWaitingMessage i s n p m \<Rightarrow> n # sent | _ \<Rightarrow> sent) evs = Some (q', sent')"
    "qinv q'" "query_le q1 q'" "sent_ok refs q' sent'"
    using Cons.IH [OF 1(2)] Cons.prems(3) by fastforce
  with 1 e query_le_trans [OF 1(3)] show ?case by (cases st) auto
qed auto

end

context kad_key
begin

lemma closest_keys_unique:
  assumes inv: "closest_inv valid bits h it"
    and ab: "a \<in> set (closest_refs bits it)" "b \<in> set (closest_refs bits it)" "keyAt h a = keyAt h b"
  shows "a = b"
proof -
  have "sorted_wrt (\<lambda>a b. bdist bits (keyAt h a) (cni_target it) < bdist bits (keyAt h b) (cni_target it))
      (closest_refs bits it)" by (rule cni.refs_sorted [OF inv])
  then have "sorted_wrt (<) (map (\<lambda>r. bdist bits (keyAt h r) (cni_target it)) (closest_refs bits it))"
    by (simp add: sorted_wrt_map)
  then have "distinct (map (\<lambda>r. bdist bits (keyAt h r) (cni_target it)) (closest_refs bits it))"
    by (simp add: strict_sorted_iff)
  with ab show ?thesis by (metis (no_types, lifting) distinct_map inj_onD)
qed

end

section \<open>Properties\<close>

lemma visit_settled:
  assumes "\<forall>x \<in> set pre. stateAt (q_store (v_q v)) x \<in>
      {StateNodeFailed, StateNodeUnresponsive, StateNodeSucceeded}"
    and "v_successes v + int (length (filter (\<lambda>x. stateAt (q_store (v_q v)) x = StateNodeSucceeded) pre))
      < qcNumResults (q_cfg (v_q v))"
  shows "\<exists>n. eachLoop (visitNode now) v (pre @ rs) = eachLoop (visitNode now) (v\<lparr>v_successes := n\<rparr>) rs"
  using assms
proof (induction pre arbitrary: v)
  case Nil
  show ?case by (rule exI [of _ "v_successes v"]) simp
next
  case (Cons x pre)
  show ?case
  proof (cases "stateAt (q_store (v_q v)) x = StateNodeSucceeded")
    case True
    with Cons.prems have "visitNode now v x = Some (v\<lparr>v_successes := v_successes v + 1\<rparr>, False)"
      by (simp add: visitNode_def stateAt_def Let_def)
    moreover have "\<exists>n. eachLoop (visitNode now) (v\<lparr>v_successes := v_successes v + 1\<rparr>) (pre @ rs) =
        eachLoop (visitNode now) (v\<lparr>v_successes := v_successes v + 1\<rparr>\<lparr>v_successes := n\<rparr>) rs"
      using Cons.prems True by (intro Cons.IH) simp_all
    ultimately show ?thesis by simp
  next
    case False
    with Cons.prems(1) have "visitNode now v x = Some (v, False)"
      by (auto simp: visitNode_def stateAt_def Let_def)
    moreover have "\<exists>n. eachLoop (visitNode now) v (pre @ rs) =
        eachLoop (visitNode now) (v\<lparr>v_successes := n\<rparr>) rs"
      using Cons.prems False by (intro Cons.IH) simp_all
    ultimately show ?thesis by simp
  qed
qed

context query_iter
begin

lemma Advance_stalled:
  assumes q: "qinv q" "\<not> q_finished q" and full: "q_inFlight q = qcConcurrency (q_cfg q)"
    and refs: "refs (q_iter q) = pre @ r # suf" and r: "stateAt (q_store q) r = StateNodeNotContacted"
    and pre: "\<forall>x \<in> set pre. stateAt (q_store q) x \<in>
      {StateNodeFailed, StateNodeUnresponsive, StateNodeSucceeded}"
      "int (length (filter (\<lambda>x. stateAt (q_store q) x = StateNodeSucceeded) pre)) < qcNumResults (q_cfg q)"
  shows "Query_Advance K IT now q QueryEventNil =
    Some (q, StateQueryWaitingAtCapacity (q_id q) (q_stats q))"
proof -
  let ?v = "\<lparr>v_q = q, v_successes = 0, v_progressing = False, v_return = None\<rparr>"
  obtain n where "eachLoop (visitNode now) ?v (pre @ r # suf) =
      eachLoop (visitNode now) (?v\<lparr>v_successes := n\<rparr>) (r # suf)"
    using visit_settled [of pre ?v now "r # suf"] pre by auto
  then have "eachLoop (visitNode now) ?v (refs (q_iter q)) =
      Some (\<lparr>v_q = q, v_successes = n, v_progressing = False,
        v_return = Some (StateQueryWaitingAtCapacity (q_id q) (q_stats q))\<rparr>, True)"
    using r full by (simp add: refs visitNode_def stateAt_def atCapacity_def)
  with q show ?thesis
    by (simp add: Query_Advance_def handleEvent_def Each_law [OF qinvD(1) [OF q(1)]]
        afterVisits_def)
qed

lemma onMessageResponse_effect:
  assumes q: "qinv q" and r: "r \<in> set (refs (q_iter q))" "keyAt (q_store q) r = nodeKey node"
    and uniq: "\<And>a. a \<in> set (refs (q_iter q)) \<Longrightarrow> keyAt (q_store q) a = nodeKey node \<Longrightarrow> a = r"
    and st: "stateAt (q_store q) r = StateNodeWaiting d"
    and resp: "\<forall>i \<in> set (CloserNodes rsp). valid (nodeKey (infoID i))"
  shows "\<exists>q'. onMessageResponse K IT q node (Some rsp) = Some q' \<and> qinv q' \<and>
    stateAt (q_store q') r = StateNodeSucceeded \<and> q_inFlight q' = q_inFlight q - 1 \<and>
    Success (q_stats q') = Success (q_stats q) + 1 \<and>
    (\<forall>i \<in> set (CloserNodes rsp). nodeKey (infoID i) \<noteq> nodeKey (q_self q) \<longrightarrow>
       (\<exists>a \<in> set (refs (q_iter q')). keyAt (q_store q') a = nodeKey (infoID i)))"
proof -
  have node: "valid (nodeKey node)" using refs_ok [OF qinvD(1) [OF q] r(1)] r(2) by simp
  have f: "iterFind IT (q_store q) (q_iter q) (nodeKey node) = Some (Some r)"
    using qinvD(1) [OF q] node
  proof (cases rule: Find_cases)
    case missing
    with r show ?thesis by blast
  next
    case (found a)
    with uniq [of a] show ?thesis by simp
  qed
  obtain q' where q': "addCloserNodes K IT (incSuccess (decInFlight q)) r (Some rsp) = Some q'" "qinv q'"
    "stateAt (q_store q') r = StateNodeSucceeded"
    "\<forall>i \<in> set (CloserNodes rsp). nodeKey (infoID i) \<noteq> nodeKey (q_self q) \<longrightarrow>
       (\<exists>a \<in> set (refs (q_iter q')). keyAt (q_store q') a = nodeKey (infoID i))"
    using addCloserNodes_law [OF q r(1), of "Some rsp" "incSuccess (decInFlight q)"] st resp by auto
  have "q_inFlight q' = q_inFlight q - 1 \<and> Success (q_stats q') = Success (q_stats q) + 1"
    using q'(1) by (auto simp: addCloserNodes_def bind_eq_Some incSuccess_def decInFlight_def)
  with q' f st show ?thesis by (simp add: onMessageResponse_def stateAt_def)
qed

end

text \<open>The invariant of a query over the iterator by distance.\<close>

definition closest_query_inv ::
  "('k \<Rightarrow> bool) \<Rightarrow> ('k \<Rightarrow> bool list) \<Rightarrow> ('k, 'm, 'k ClosestNodesIter) Query \<Rightarrow> bool" where
  "closest_query_inv valid bits = query_inv valid (closest_inv valid bits) (closest_refs bits)"

context kad_key
begin

lemma closest_first:
  assumes q: "closest_query_inv valid bits q" and ev: "event_valid valid ev"
    and adv: "Query_Advance K (ClosestNodesIter_methods K) now q ev =
      Some (q', StateQueryWaitingMessage i s n p m)"
  shows "\<exists>r \<in> set (closest_refs bits (q_iter q')). nsNodeID (q_store q' ! r) = n \<and>
    stateAt (q_store q') r = StateNodeWaiting (now + qcRequestTimeout (q_cfg q)) \<and>
    nodeKey n \<noteq> nodeKey (q_self q) \<and>
    (\<forall>x \<in> set (closest_refs bits (q_iter q')).
       bdist bits (keyAt (q_store q') x) (cni_target (q_iter q')) <
         bdist bits (nodeKey n) (cni_target (q_iter q')) \<longrightarrow>
       stateAt (q_store q') x \<noteq> StateNodeNotContacted)"
proof -
  note qi = q [unfolded closest_query_inv_def]
  have run: "\<not> q_finished q" "ev \<noteq> EventQueryCancel"
    using adv by (auto simp: Query_Advance_def Let_def split: if_splits)
  have law: "cq.qinv q'" "query_le q q'" "advanced (closest_refs bits) now q q' (StateQueryWaitingMessage i s n p m)"
    using cq.Advance_law [OF qi ev run, of now] adv by auto
  then obtain pre r suf where r: "closest_refs bits (q_iter q') = pre @ r # suf" "r < length (q_store q')"
    "n = nsNodeID (q_store q' ! r)"
    "stateAt (q_store q') r = StateNodeWaiting (now + qcRequestTimeout (q_cfg q))"
    "\<forall>x \<in> set pre. stateAt (q_store q') x \<noteq> StateNodeNotContacted"
    unfolding advanced_def QueryState.case by blast
  have s: "sorted_wrt (\<lambda>a b. bdist bits (keyAt (q_store q') a) (cni_target (q_iter q')) <
      bdist bits (keyAt (q_store q') b) (cni_target (q_iter q'))) (pre @ r # suf)"
    using cni.refs_sorted [OF cq.qinvD(1) [OF law(1)]] r(1) by simp
  have key: "keyAt (q_store q') r = nodeKey n" using r(3) by (simp add: keyAt_def)
  have "stateAt (q_store q') x \<noteq> StateNodeNotContacted"
    if "x \<in> set (closest_refs bits (q_iter q'))"
      "bdist bits (keyAt (q_store q') x) (cni_target (q_iter q')) <
        bdist bits (nodeKey n) (cni_target (q_iter q'))" for x
    using that s r(4,5) unfolding r(1) key [symmetric]
    by (auto simp: sorted_wrt_append)
  moreover have "nodeKey n \<noteq> nodeKey (q_self q)"
    using cq.qinvD(8) [OF law(1) r(2)] law(2) key by (simp add: query_le_def same_query_def)
  ultimately show ?thesis using r by auto
qed

lemma Advance_closest:
  assumes "closest_query_inv valid bits q" "event_valid valid ev"
  shows "\<exists>q' st. Query_Advance K (ClosestNodesIter_methods K) now q ev = Some (q', st) \<and>
    closest_query_inv valid bits q' \<and> query_le q q' \<and>
    (\<not> q_finished q \<and> ev \<noteq> EventQueryCancel \<longrightarrow> advanced (closest_refs bits) now q q' st)"
  using cq.Advance_inv [OF assms [unfolded closest_query_inv_def], of now]
    cq.Advance_law [OF assms [unfolded closest_query_inv_def], of now]
  unfolding closest_query_inv_def by (cases "q_finished q \<or> ev = EventQueryCancel") auto

lemma closest_response:
  assumes "closest_query_inv valid bits q" "r \<in> set (closest_refs bits (q_iter q))"
    "keyAt (q_store q) r = nodeKey node" "stateAt (q_store q) r = StateNodeWaiting d"
    "\<forall>i \<in> set (CloserNodes rsp). valid (nodeKey (infoID i))"
  shows "\<exists>q'. onMessageResponse K (ClosestNodesIter_methods K) q node (Some rsp) = Some q' \<and>
    closest_query_inv valid bits q' \<and>
    stateAt (q_store q') r = StateNodeSucceeded \<and> q_inFlight q' = q_inFlight q - 1 \<and>
    Success (q_stats q') = Success (q_stats q) + 1 \<and>
    (\<forall>i \<in> set (CloserNodes rsp). nodeKey (infoID i) \<noteq> nodeKey (q_self q) \<longrightarrow>
       (\<exists>a \<in> set (closest_refs bits (q_iter q')). keyAt (q_store q') a = nodeKey (infoID i)))"
proof -
  note q = assms(1) [unfolded closest_query_inv_def]
  have "a = r" if "a \<in> set (closest_refs bits (q_iter q))" "keyAt (q_store q) a = nodeKey node" for a
    using closest_keys_unique [OF cq.qinvD(1) [OF q] that(1) assms(2)] that(2) assms(3) by simp
  from cq.onMessageResponse_effect [OF q assms(2,3) this assms(4,5)] show ?thesis
    unfolding closest_query_inv_def by blast
qed

lemmas closest_stalled = cq.Advance_stalled [folded closest_query_inv_def]

lemma run_from_new:
  assumes self: "valid (nodeKey self)" and t: "valid target"
    and known: "\<forall>n \<in> set known. valid (nodeKey n)"
    and cfg: "\<And>c. cfg = Some c \<Longrightarrow> QueryConfig_Validate c = None"
    and evs: "\<forall>(now, ev) \<in> set evs. event_valid valid ev"
  shows "\<exists>q q' sent. NewQuery K (ClosestNodesIter_methods K) self qid pid msg
      (NewClosestNodesIter target) known cfg = Some (Inr q) \<and>
    query_run K (ClosestNodesIter_methods K) q [] evs = Some (q', sent) \<and>
    distinct (map nodeKey sent) \<and> nodeKey self \<notin> nodeKey ` set sent \<and>
    0 \<le> q_inFlight q' \<and> q_inFlight q' \<le> qcConcurrency (q_cfg q')"
proof -
  have inv: "closest_inv valid bits [] (NewClosestNodesIter target)"
    "closest_refs bits (NewClosestNodesIter target) = []"
    using t by (simp_all add: closest_inv_def NewClosestNodesIter_def closest_refs_def by_distance_def New_def)
  obtain q where q: "NewQuery K (ClosestNodesIter_methods K) self qid pid msg
      (NewClosestNodesIter target) known cfg = Some (Inr q)" "cq.qinv q" "q_self q = self"
    using cq.NewQuery_law [OF inv self known, of cfg qid pid msg] cfg by blast
  have "sent_ok (closest_refs bits) q []" by (simp add: sent_ok_def)
  then have "\<exists>q' sent. query_run K (ClosestNodesIter_methods K) q [] evs = Some (q', sent) \<and>
      cq.qinv q' \<and> query_le q q' \<and> sent_ok (closest_refs bits) q' sent"
    by (intro cq.query_run_law q(2) evs) (rule closest_keys_unique)
  then obtain q' sent where r: "query_run K (ClosestNodesIter_methods K) q [] evs = Some (q', sent)"
    "cq.qinv q'" "query_le q q'" "sent_ok (closest_refs bits) q' sent"
    by blast
  have "q_self q' = self" using r(3) q(3) by (simp add: query_le_def same_query_def)
  then have "nodeKey self \<notin> nodeKey ` set sent"
    using r(4) cq.qinvD(8) [OF r(2)] by (force simp: sent_ok_def)
  with q(1) r cq.qinvD(5,6) [OF r(2)] show ?thesis by (auto simp: sent_ok_def)
qed

end

text \<open>C17: One step of a query over the iterator by distance never panics and keeps the invariant: the
  in-flight counter equals the number of nodes waiting for a response and never exceeds the
  configured concurrency, the node itself is never among the nodes, every contacted node is
  known to the iterator. The configuration, the message and the node ids do not change, no node is
  dropped, and the state of every node only moves forward.\<close>

theorem query_advance_safe:
  assumes "kad_key K valid len bits"
    and "closest_query_inv valid bits q" and "event_valid valid ev"
  shows "\<exists>q' st. Query_Advance K (ClosestNodesIter_methods K) now q ev = Some (q', st) \<and>
    closest_query_inv valid bits q' \<and> query_le q q'"
  using kad_key.Advance_closest [OF assms] by blast

definition query8 :: "(key8, unit, key8 ClosestNodesIter) Query" where
  "query8 = \<lparr>q_self = node8 0, q_id = ''q'',
     q_cfg = \<lparr>qcConcurrency = 1, qcNumResults = 20, qcRequestTimeout = Minute, qcClock = Some Clock\<rparr>,
     q_iter = \<lparr>cni_target = 0, cni_nodes = Trie (Some (Trie None None (Some 1) (Some 1)))
       (Some (Trie None None (Some 128) (Some 0))) None None\<rparr>,
     q_store = [\<lparr>nsNodeID = node8 128, nsState = StateNodeWaiting 5\<rparr>,
       \<lparr>nsNodeID = node8 1, nsState = StateNodeNotContacted\<rparr>],
     q_protocolID = ''p'', q_msg = (), q_stats = zeroStats, q_finished = False, q_inFlight = 1\<rparr>"

lemma query8_refs: "closest_refs word_bits (q_iter query8) = [1, 0]"
  by code_simp

lemma query8_inv: "closest_query_inv (\<lambda>_. True) word_bits query8"
proof -
  have "trie_inv (\<lambda>_. True) word_bits [] (cni_nodes (q_iter query8))" by code_simp
  then show ?thesis
    using query8_refs
    by (simp add: closest_query_inv_def query_inv_def closest_inv_def query8_def keyAt_def stateAt_def
        node8_def less_Suc_eq waiting_def)
qed

theorem query_advance_safe_witness:
  "\<exists>q' st. Query_Advance Key8 (ClosestNodesIter_methods Key8) 3 query8
      (EventQueryMessageFailure (node8 128) :: (key8, unit) QueryEvent) = Some (q', st) \<and>
    closest_query_inv (\<lambda>_. True) word_bits q' \<and> query_le query8 q'"
  by (rule query_advance_safe [OF key8.kad_key_axioms query8_inv]) simp

text \<open>C6: What the state that a running query returns means. \<open>WaitingMessage\<close>: the node was not
  contacted before, it waits now with the deadline of this moment plus the request timeout, and all
  nodes before it in the order have been contacted. \<open>WaitingAtCapacity\<close>: the concurrency is used
  up. \<open>WaitingWithCapacity\<close>: some but not all of it is used, all nodes have been contacted, none of
  the waiting ones is overdue. \<open>Finished\<close>: nothing is in flight and all nodes have been contacted, or
  enough nodes have answered and no node closer than the last of them is waiting or uncontacted.\<close>

theorem query_advance_result:
  assumes "kad_key K valid len bits"
    and "closest_query_inv valid bits q" and "event_valid valid ev"
    and "\<not> q_finished q" and "ev \<noteq> EventQueryCancel"
  shows "\<exists>q' st. Query_Advance K (ClosestNodesIter_methods K) now q ev = Some (q', st) \<and>
    advanced (closest_refs bits) now q q' st"
  using kad_key.Advance_closest [OF assms(1-3)] assms(4,5) by blast

theorem query_advance_result_witness:
  "\<exists>q' st. Query_Advance Key8 (ClosestNodesIter_methods Key8) 3 query8
      (EventQueryMessageFailure (node8 128) :: (key8, unit) QueryEvent) = Some (q', st) \<and>
    advanced (closest_refs word_bits) 3 query8 q' st"
  by (rule query_advance_result [OF key8.kad_key_axioms query8_inv]) (simp_all add: query8_def)

text \<open>A query asks for a message to the closest node that it has not contacted: every node of the
  iterator closer to the target has been contacted before. The node is not the node itself and
  waits with the right deadline.\<close>

theorem query_contacts_closest_first:
  assumes "kad_key K valid len bits"
    and "closest_query_inv valid bits q" and "event_valid valid ev"
    and "Query_Advance K (ClosestNodesIter_methods K) now q ev =
      Some (q', StateQueryWaitingMessage i s n p m)"
  shows "\<exists>r \<in> set (closest_refs bits (q_iter q')). nsNodeID (q_store q' ! r) = n \<and>
    stateAt (q_store q') r = StateNodeWaiting (now + qcRequestTimeout (q_cfg q)) \<and>
    nodeKey n \<noteq> nodeKey (q_self q) \<and>
    (\<forall>x \<in> set (closest_refs bits (q_iter q')).
       bdist bits (keyAt (q_store q') x) (cni_target (q_iter q')) <
         bdist bits (nodeKey n) (cni_target (q_iter q')) \<longrightarrow>
       stateAt (q_store q') x \<noteq> StateNodeNotContacted)"
  by (rule kad_key.closest_first [OF assms])

definition query8' :: "(key8, unit, key8 ClosestNodesIter) Query" where
  "query8' = query8\<lparr>q_store := [\<lparr>nsNodeID = node8 128, nsState = StateNodeFailed\<rparr>,
       \<lparr>nsNodeID = node8 1, nsState = StateNodeWaiting (3 + Minute)\<rparr>],
     q_stats := \<lparr>Start = 3, End = 0, Requests = 1, Success = 0, Failure = 1\<rparr>\<rparr>"

lemma query8_step:
  "Query_Advance Key8 (ClosestNodesIter_methods Key8) 3 query8
     (EventQueryMessageFailure (node8 128) :: (key8, unit) QueryEvent) =
   Some (query8', StateQueryWaitingMessage ''q'' (q_stats query8') (node8 1) ''p'' ())"
  by code_simp

theorem query_contacts_closest_first_witness:
  "\<exists>r \<in> set (closest_refs word_bits (q_iter query8')). nsNodeID (q_store query8' ! r) = node8 1 \<and>
    stateAt (q_store query8') r = StateNodeWaiting (3 + Minute)"
  using query_contacts_closest_first [OF key8.kad_key_axioms query8_inv _ query8_step]
  by (auto simp: query8_def)

text \<open>C2: From \<open>NewQuery\<close> with the iterator by distance (\<open>ClosestNodesIter\<close>, the one of the pool and of
  the bootstrap) on, whatever events arrive at whatever times, a query never panics, never contacts a
  node twice, never contacts itself, and never has more requests in flight than configured.\<close>

theorem query_contacts_once:
  assumes "kad_key K valid len bits"
    and "valid (nodeKey self)" and "valid target" and "\<forall>n \<in> set known. valid (nodeKey n)"
    and "\<And>c. cfg = Some c \<Longrightarrow> QueryConfig_Validate c = None"
    and "\<forall>(now, ev) \<in> set evs. event_valid valid ev"
  shows "\<exists>q q' sent. NewQuery K (ClosestNodesIter_methods K) self qid pid msg
      (NewClosestNodesIter target) known cfg = Some (Inr q) \<and>
    query_run K (ClosestNodesIter_methods K) q [] evs = Some (q', sent) \<and>
    distinct (map nodeKey sent) \<and> nodeKey self \<notin> nodeKey ` set sent \<and>
    0 \<le> q_inFlight q' \<and> q_inFlight q' \<le> qcConcurrency (q_cfg q')"
  by (rule kad_key.run_from_new [OF assms])

theorem query_contacts_once_witness:
  "\<exists>q q' sent. NewQuery Key8 (ClosestNodesIter_methods Key8) (node8 0) ''q'' ''p'' ()
      (NewClosestNodesIter 1) [node8 1, node8 128] None = Some (Inr q) \<and>
    query_run Key8 (ClosestNodesIter_methods Key8) q []
      [(1, QueryEventNil :: (key8, unit) QueryEvent), (2, QueryEventNil),
       (3, EventQueryMessageFailure (node8 1))] = Some (q', sent) \<and>
    distinct (map nodeKey sent) \<and> nodeKey (node8 0) \<notin> nodeKey ` set sent \<and>
    0 \<le> q_inFlight q' \<and> q_inFlight q' \<le> qcConcurrency (q_cfg q')"
  by (rule query_contacts_once [OF key8.kad_key_axioms]) simp_all

text \<open>A response from a waiting node: the node has succeeded, one request less is in flight, one
  success more is counted, and every closer node of the response other than the node itself is
  known to the iterator.\<close>

theorem query_response_effect:
  assumes "kad_key K valid len bits"
    and "closest_query_inv valid bits q" and "r \<in> set (closest_refs bits (q_iter q))"
    and "keyAt (q_store q) r = nodeKey node" and "stateAt (q_store q) r = StateNodeWaiting d"
    and "\<forall>i \<in> set (CloserNodes rsp). valid (nodeKey (infoID i))"
  shows "\<exists>q'. onMessageResponse K (ClosestNodesIter_methods K) q node (Some rsp) = Some q' \<and>
    closest_query_inv valid bits q' \<and>
    stateAt (q_store q') r = StateNodeSucceeded \<and> q_inFlight q' = q_inFlight q - 1 \<and>
    Success (q_stats q') = Success (q_stats q) + 1 \<and>
    (\<forall>i \<in> set (CloserNodes rsp). nodeKey (infoID i) \<noteq> nodeKey (q_self q) \<longrightarrow>
       (\<exists>a \<in> set (closest_refs bits (q_iter q')). keyAt (q_store q') a = nodeKey (infoID i)))"
  by (rule kad_key.closest_response [OF assms])

theorem query_response_effect_witness:
  "\<exists>q'. onMessageResponse Key8 (ClosestNodesIter_methods Key8) query8 (node8 128)
      (Some \<lparr>CloserNodes = [\<lparr>infoID = node8 2, infoAddresses = [()]\<rparr>]\<rparr>) = Some q' \<and>
    stateAt (q_store q') 0 = StateNodeSucceeded \<and>
    (\<exists>a \<in> set (closest_refs word_bits (q_iter q')). keyAt (q_store q') a = 2)"
proof -
  have "0 \<in> set (closest_refs word_bits (q_iter query8))" by (simp add: query8_refs)
  from query_response_effect [OF key8.kad_key_axioms query8_inv this, of "node8 128" 5
      "\<lparr>CloserNodes = [\<lparr>infoID = node8 2, infoAddresses = [()]\<rparr>]\<rparr>"]
  show ?thesis by (auto simp: query8_def keyAt_def stateAt_def node8_def)
qed

text \<open>C22: A limit of the timeouts. The loop of \<open>Advance\<close> stops at the first node that it has not
  contacted when the concurrency is used up, before it looks at the nodes behind. If the waiting
  nodes are all farther than an uncontacted node, they are never timed out, however late it is:
  polling returns \<open>WaitingAtCapacity\<close> and changes nothing.\<close>

theorem query_stalls_at_capacity:
  assumes "kad_key K valid len bits"
    and "closest_query_inv valid bits q" and "\<not> q_finished q"
    and "q_inFlight q = qcConcurrency (q_cfg q)"
    and "closest_refs bits (q_iter q) = pre @ r # suf"
    and "stateAt (q_store q) r = StateNodeNotContacted"
    and "\<forall>x \<in> set pre. stateAt (q_store q) x \<in>
      {StateNodeFailed, StateNodeUnresponsive, StateNodeSucceeded}"
    and "int (length (filter (\<lambda>x. stateAt (q_store q) x = StateNodeSucceeded) pre)) < qcNumResults (q_cfg q)"
  shows "Query_Advance K (ClosestNodesIter_methods K) now q (QueryEventNil :: ('k, 'a) QueryEvent) =
    Some (q, StateQueryWaitingAtCapacity (q_id q) (q_stats q))"
  by (rule kad_key.closest_stalled [OF assms])

theorem query_stalls_at_capacity_witness:
  "stateAt (q_store query8) 0 = StateNodeWaiting 5 \<and>
   Query_Advance Key8 (ClosestNodesIter_methods Key8) 1000000 query8
      (QueryEventNil :: (key8, unit) QueryEvent) =
      Some (query8, StateQueryWaitingAtCapacity ''q'' zeroStats)"
  using query_stalls_at_capacity [OF key8.kad_key_axioms query8_inv, of "[]" 1 "[0]" 1000000] query8_refs
  by (simp add: query8_def stateAt_def)

text \<open>\<open>NewQuery\<close> refuses exactly the configurations that \<open>Validate\<close> refuses, with the error that
  \<open>Validate\<close> returns, and \<open>Validate\<close> accepts exactly a clock that is set and positive limits.\<close>

theorem new_query_config_errors:
  "(QueryConfig_Validate cfg = None \<longleftrightarrow> qcClock cfg \<noteq> None \<and> 0 < qcConcurrency cfg \<and>
      0 < qcNumResults cfg \<and> 0 < qcRequestTimeout cfg) \<and>
   (NewQuery K IT self qid pid msg it known (Some cfg) = Some (Inl e) \<longleftrightarrow>
      QueryConfig_Validate cfg = Some e)"
  by (auto simp: NewQuery_def QueryConfig_Validate_def Let_def bind_eq_Some split: option.splits)

end
