(* ===== verification/Query_Pool.thy ===== *)
theory Query_Pool
  imports Query
begin

text \<open>
  The query pool of \<open>query/pool.go\<close>. The pool reaches its queries through pointers, from the slice
  \<open>queries\<close> and from the map \<open>queryIndex\<close>; the queries live in a store and both hold indices into
  it. An advance of a query changes it in the store. A query of the pool runs over the iterator
  by distance.
\<close>

section \<open>Configuration, states and events\<close>

record PoolConfig =
  pcConcurrency :: int
  pcTimeout :: duration
  pcReplication :: int
  pcQueryConcurrency :: int
  pcRequestTimeout :: duration
  pcClock :: "Clock option"

definition PoolConfig_Validate :: "PoolConfig \<Rightarrow> ConfigurationError option" where
  "PoolConfig_Validate cfg =
     (if pcClock cfg = None then
        Some (ConfigurationError ''PoolConfig'' (Some ''clock must not be nil''))
      else if pcConcurrency cfg < 1 then
        Some (ConfigurationError ''PoolConfig'' (Some ''concurrency must be greater than zero''))
      else if pcTimeout cfg < 1 then
        Some (ConfigurationError ''PoolConfig'' (Some ''timeout must be greater than zero''))
      else if pcReplication cfg < 1 then
        Some (ConfigurationError ''PoolConfig'' (Some ''replication must be greater than zero''))
      else if pcQueryConcurrency cfg < 1 then
        Some (ConfigurationError ''PoolConfig'' (Some ''query concurrency must be greater than zero''))
      else if pcRequestTimeout cfg < 1 then
        Some (ConfigurationError ''PoolConfig'' (Some ''request timeout must be greater than zero''))
      else None)"

definition DefaultPoolConfig :: PoolConfig where
  "DefaultPoolConfig = \<lparr>pcConcurrency = 3, pcTimeout = 5 * Minute, pcReplication = 20,
     pcQueryConcurrency = 3, pcRequestTimeout = Minute, pcClock = Some Clock\<rparr>"

datatype ('k, 'm) PoolState =
    StatePoolIdle
  | StatePoolQueryMessage QueryID "'k NodeID" ProtocolID 'm QueryStats
  | StatePoolWaitingAtCapacity
  | StatePoolWaitingWithCapacity
  | StatePoolQueryFinished QueryID QueryStats
  | StatePoolQueryTimeout QueryID QueryStats

datatype ('k, 'a, 'm) PoolEvent =
    EventPoolAddQuery QueryID 'k ProtocolID 'm "'k NodeID list"
  | EventPoolStopQuery QueryID
  | EventPoolMessageResponse QueryID "'k NodeID" "('k, 'a) Response option"
  | EventPoolMessageFailure QueryID "'k NodeID"
  | EventPoolPoll
  | PoolEventNil

type_synonym ('k, 'm) ClosestQuery = "('k, 'm, 'k ClosestNodesIter) Query"

record ('k, 'm) Pool =
  p_self :: "'k NodeID"
  p_store :: "('k, 'm) ClosestQuery list"
  p_queries :: "nat list"
  p_queryIndex :: "(QueryID \<times> nat) list"
  p_cfg :: PoolConfig
  p_queriesInFlight :: int

definition NewPool :: "'k NodeID \<Rightarrow> PoolConfig option \<Rightarrow> ConfigurationError + ('k, 'm) Pool" where
  "NewPool self cfg =
     (let c = (case cfg of None \<Rightarrow> DefaultPoolConfig | Some c \<Rightarrow> c);
          err = (case cfg of None \<Rightarrow> None | Some c \<Rightarrow> PoolConfig_Validate c)
      in case err of
           Some e \<Rightarrow> Inl e
         | None \<Rightarrow> Inr \<lparr>p_self = self, p_store = [], p_queries = [], p_queryIndex = [],
             p_cfg = c, p_queriesInFlight = 0\<rparr>)"

section \<open>Operations\<close>

text \<open>Removal of the first query with the id from the slice, and of the id from the map.\<close>

fun removeFirst :: "('a \<Rightarrow> bool) \<Rightarrow> 'a list \<Rightarrow> 'a list" where
  "removeFirst P [] = []"
| "removeFirst P (x # xs) = (if P x then xs else x # removeFirst P xs)"

definition removeQuery :: "('k, 'm) Pool \<Rightarrow> QueryID \<Rightarrow> ('k, 'm) Pool" where
  "removeQuery p queryID =
     p\<lparr>p_queries := removeFirst (\<lambda>r. q_id (p_store p ! r) = queryID) (p_queries p),
       p_queryIndex := AList.delete queryID (p_queryIndex p)\<rparr>"

definition incQueriesInFlight :: "('k, 'm) Pool \<Rightarrow> ('k, 'm) Pool" where
  "incQueriesInFlight p = p\<lparr>p_queriesInFlight := p_queriesInFlight p + 1\<rparr>"

text \<open>The returned state is present exactly when the code's boolean \<open>terminal\<close> is true.\<close>

definition Pool_advanceQuery ::
  "'k Key \<Rightarrow> time \<Rightarrow> ('k, 'm) Pool \<Rightarrow> nat \<Rightarrow> ('k, 'a) QueryEvent \<Rightarrow>
   (('k, 'm) Pool \<times> ('k, 'm) PoolState option) option" where
  "Pool_advanceQuery K now p qry qev = do {
     (q, state) \<leftarrow> Query_Advance K (ClosestNodesIter_methods K) now (p_store p ! qry) qev;
     let p1 = p\<lparr>p_store := (p_store p)[qry := q]\<rparr>;
     Some (case state of
        StateQueryWaitingMessage qid stats n pid msg \<Rightarrow>
          (incQueriesInFlight p1, Some (StatePoolQueryMessage qid n pid msg stats))
      | StateQueryFinished qid stats \<Rightarrow>
          (removeQuery p1 (q_id q), Some (StatePoolQueryFinished qid stats))
      | StateQueryWaitingAtCapacity qid stats \<Rightarrow>
          (let elapsed = Since now (Start (q_stats q)) in
           if elapsed > pcTimeout (p_cfg p1) then
             (removeQuery p1 (q_id q), Some (StatePoolQueryTimeout qid stats))
           else (incQueriesInFlight p1, None))
      | StateQueryWaitingWithCapacity qid stats \<Rightarrow>
          (let elapsed = Since now (Start (q_stats q)) in
           if elapsed > pcTimeout (p_cfg p1) then
             (removeQuery p1 (q_id q), Some (StatePoolQueryTimeout qid stats))
           else (incQueriesInFlight p1, None)))
   }"

text \<open>\<open>addQuery\<close>; \<open>Advance\<close> ignores its error.\<close>

definition addQuery ::
  "'k Key \<Rightarrow> ('k, 'm) Pool \<Rightarrow> QueryID \<Rightarrow> 'k \<Rightarrow> ProtocolID \<Rightarrow> 'm \<Rightarrow> 'k NodeID list \<Rightarrow>
   (('k, 'm) Pool \<times> string option) option" where
  "addQuery K p queryID target protocolID msg knownClosestNodes =
     (if queryID \<in> fst ` set (p_queryIndex p) then Some (p, Some ''query id already in use'')
      else do {
        let iter = NewClosestNodesIter target;
        let qryCfg = DefaultQueryConfig\<lparr>qcClock := pcClock (p_cfg p),
              qcConcurrency := pcQueryConcurrency (p_cfg p),
              qcRequestTimeout := pcRequestTimeout (p_cfg p)\<rparr>;
        r \<leftarrow> NewQuery K (ClosestNodesIter_methods K) (p_self p) queryID protocolID msg iter
              knownClosestNodes (Some qryCfg);
        (case r of
           Inl err \<Rightarrow> Some (p, Some (''new query: '' @ ConfigurationError_Error err))
         | Inr qry \<Rightarrow>
             Some (p\<lparr>p_store := p_store p @ [qry],
                     p_queries := p_queries p @ [length (p_store p)],
                     p_queryIndex := AList.update queryID (length (p_store p)) (p_queryIndex p)\<rparr>, None))
      })"

text \<open>An event for one query: the query's id comes back when the query stays in the pool.\<close>

definition eventQuery ::
  "'k Key \<Rightarrow> time \<Rightarrow> ('k, 'm) Pool \<Rightarrow> QueryID \<Rightarrow> ('k, 'a) QueryEvent \<Rightarrow>
   (('k, 'm) Pool \<times> ('k, 'm) PoolState option \<times> QueryID) option" where
  "eventQuery K now p queryID qev =
     (case map_of (p_queryIndex p) queryID of
        None \<Rightarrow> Some (p, None, InvalidQueryID)
      | Some qry \<Rightarrow> do {
          (p', state) \<leftarrow> Pool_advanceQuery K now p qry qev;
          Some (p', state, q_id (p_store p' ! qry))
        })"

definition poolEvent ::
  "'k Key \<Rightarrow> time \<Rightarrow> ('k, 'm) Pool \<Rightarrow> ('k, 'a, 'm) PoolEvent \<Rightarrow>
   (('k, 'm) Pool \<times> ('k, 'm) PoolState option \<times> QueryID) option" where
  "poolEvent K now p ev =
     (case ev of
        EventPoolAddQuery qid target pid msg known \<Rightarrow> do {
          (p', _) \<leftarrow> addQuery K p qid target pid msg known;
          Some (p', None, InvalidQueryID)
        }
      | EventPoolStopQuery qid \<Rightarrow>
          eventQuery K now p qid (EventQueryCancel :: ('k, 'a) QueryEvent)
      | EventPoolMessageResponse qid node resp \<Rightarrow>
          eventQuery K now p qid (EventQueryMessageResponse node resp)
      | EventPoolMessageFailure qid node \<Rightarrow>
          eventQuery K now p qid (EventQueryMessageFailure node :: ('k, 'a) QueryEvent)
      | EventPoolPoll \<Rightarrow> Some (p, None, InvalidQueryID)
      | PoolEventNil \<Rightarrow> None)"

fun poolLoop ::
  "'k Key \<Rightarrow> time \<Rightarrow> QueryID \<Rightarrow> ('k, 'm) Pool \<Rightarrow> nat list \<Rightarrow>
   (('k, 'm) Pool \<times> ('k, 'm) PoolState option) option" where
  "poolLoop K now eventQueryID p [] = Some (p, None)"
| "poolLoop K now eventQueryID p (qry # qs) =
     (if eventQueryID = q_id (p_store p ! qry) then poolLoop K now eventQueryID p qs
      else do {
        (p', state) \<leftarrow> Pool_advanceQuery K now p qry (QueryEventNil :: ('k, unit) QueryEvent);
        (case state of
           Some st \<Rightarrow> Some (p', Some st)
         | None \<Rightarrow>
             if p_queriesInFlight p' \<ge> pcConcurrency (p_cfg p')
             then Some (p', Some StatePoolWaitingAtCapacity)
             else poolLoop K now eventQueryID p' qs)
      })"

definition Pool_Advance ::
  "'k Key \<Rightarrow> time \<Rightarrow> ('k, 'm) Pool \<Rightarrow> ('k, 'a, 'm) PoolEvent \<Rightarrow>
   (('k, 'm) Pool \<times> ('k, 'm) PoolState) option" where
  "Pool_Advance K now p ev = do {
     (p1, state, eventQueryID) \<leftarrow> poolEvent K now (p\<lparr>p_queriesInFlight := 0\<rparr>) ev;
     (case state of
        Some st \<Rightarrow> Some (p1, st)
      | None \<Rightarrow>
          if p_queries p1 = [] then Some (p1, StatePoolIdle)
          else do {
            (p2, state2) \<leftarrow> poolLoop K now eventQueryID p1 (p_queries p1);
            (case state2 of
               Some st \<Rightarrow> Some (p2, st)
             | None \<Rightarrow>
                 if p_queriesInFlight p2 > 0 then Some (p2, StatePoolWaitingWithCapacity)
                 else Some (p2, StatePoolIdle))
          })
   }"

section \<open>Invariant\<close>

text \<open>
  The slice and the map hold the same queries, under their ids; every query is well-formed and
  not finished.
\<close>

definition pool_inv :: "('k \<Rightarrow> bool) \<Rightarrow> ('k \<Rightarrow> bool list) \<Rightarrow> ('k, 'm) Pool \<Rightarrow> bool" where
  "pool_inv valid bits p \<longleftrightarrow>
     valid (nodeKey (p_self p)) \<and> PoolConfig_Validate (p_cfg p) = None \<and>
     (\<forall>r \<in> set (p_queries p). r < length (p_store p) \<and>
        closest_query_inv valid bits (p_store p ! r) \<and> \<not> q_finished (p_store p ! r)) \<and>
     distinct (map (\<lambda>r. q_id (p_store p ! r)) (p_queries p)) \<and>
     distinct (map fst (p_queryIndex p)) \<and>
     set (p_queryIndex p) = (\<lambda>r. (q_id (p_store p ! r), r)) ` set (p_queries p)"

fun pool_event_valid :: "('k \<Rightarrow> bool) \<Rightarrow> ('k, 'a, 'm) PoolEvent \<Rightarrow> bool" where
  "pool_event_valid valid (EventPoolAddQuery qid target pid msg known) =
     (valid target \<and> (\<forall>n \<in> set known. valid (nodeKey n)))"
| "pool_event_valid valid (EventPoolMessageResponse qid node resp) =
     event_valid valid (EventQueryMessageResponse node resp)"
| "pool_event_valid valid (EventPoolMessageFailure qid node) = valid (nodeKey node)"
| "pool_event_valid valid PoolEventNil = False"
| "pool_event_valid valid _ = True"


section \<open>Correctness\<close>

definition pool_ids :: "('k, 'm) Pool \<Rightarrow> QueryID set" where
  "pool_ids p = (\<lambda>r. q_id (p_store p ! r)) ` set (p_queries p)"

lemma removeFirst_filter:
  "distinct (map f xs) \<Longrightarrow> removeFirst (\<lambda>x. f x = v) xs = filter (\<lambda>x. f x \<noteq> v) xs"
proof (induction xs)
  case (Cons x xs)
  have "filter (\<lambda>y. f y \<noteq> v) xs = xs" if "f x = v"
    using Cons.prems that by (intro filter_True) (auto simp: image_iff)
  with Cons show ?case by simp
qed simp

lemma q_id_update:
  "q_id q = q_id (qs ! r) \<Longrightarrow> q_id (qs[r := q] ! x) = q_id (qs ! x)"
  by (cases "x = r"; cases "r < length qs") (auto simp: list_update_beyond)

text \<open>A query of the pool was advanced and returned the state \<open>st\<close>: it is at \<open>r\<close>, where the pool had the
  queries \<open>st0\<close> before (a query beyond them is new).\<close>

definition query_moved ::
  "('k \<Rightarrow> bool list) \<Rightarrow> time \<Rightarrow> ('k, 'm) ClosestQuery list \<Rightarrow> ('k, 'm) Pool \<Rightarrow> nat \<Rightarrow> ('k, 'm) QueryState \<Rightarrow> bool" where
  "query_moved bits now st0 p r st \<longleftrightarrow>
     (\<exists>q0. (r < length st0 \<longrightarrow> q0 = st0 ! r) \<and> query_le q0 (p_store p ! r) \<and>
       advanced (closest_refs bits) now q0 (p_store p ! r) st)"

text \<open>It waits for responses, and the time since its start is or is not more than the pool allows.\<close>

definition query_waits ::
  "('k \<Rightarrow> bool list) \<Rightarrow> time \<Rightarrow> ('k, 'm) ClosestQuery list \<Rightarrow> ('k, 'm) Pool \<Rightarrow> nat \<Rightarrow> QueryID \<Rightarrow> QueryStats \<Rightarrow> bool" where
  "query_waits bits now st0 p r qid s \<longleftrightarrow>
     query_moved bits now st0 p r (StateQueryWaitingAtCapacity qid s) \<or>
     query_moved bits now st0 p r (StateQueryWaitingWithCapacity qid s)"

definition pool_waits ::
  "('k \<Rightarrow> bool list) \<Rightarrow> time \<Rightarrow> ('k, 'm) ClosestQuery list \<Rightarrow> ('k, 'm) Pool \<Rightarrow> nat list \<Rightarrow> bool" where
  "pool_waits bits now st0 p vs \<longleftrightarrow>
     distinct vs \<and> set vs \<subseteq> set (p_queries p) \<and> p_queriesInFlight p = int (length vs) \<and>
     (\<forall>r \<in> set vs. \<exists>qid s. query_waits bits now st0 p r qid s \<and> Since now (Start s) \<le> pcTimeout (p_cfg p))"

text \<open>What one advance of a query does to the pool.\<close>

definition pool_step ::
  "('k \<Rightarrow> bool list) \<Rightarrow> time \<Rightarrow> bool \<Rightarrow> nat \<Rightarrow> ('k, 'm) Pool \<Rightarrow> ('k, 'm) Pool \<Rightarrow> ('k, 'm) PoolState option \<Rightarrow> bool" where
  "pool_step bits now cancel r p p' res \<longleftrightarrow>
     p_self p' = p_self p \<and> p_cfg p' = p_cfg p \<and> length (p_store p') = length (p_store p) \<and>
     (\<forall>x. q_id (p_store p' ! x) = q_id (p_store p ! x)) \<and> (\<forall>x. x \<noteq> r \<longrightarrow> p_store p' ! x = p_store p ! x) \<and>
     (case res of
        None \<Rightarrow> p_queries p' = p_queries p \<and> p_queriesInFlight p' = p_queriesInFlight p + 1 \<and>
          (\<exists>qid s. query_waits bits now (p_store p) p' r qid s \<and> Since now (Start s) \<le> pcTimeout (p_cfg p))
      | Some (StatePoolQueryMessage qid n pid msg s) \<Rightarrow>
          p_queries p' = p_queries p \<and> p_queriesInFlight p' = p_queriesInFlight p + 1 \<and>
          query_moved bits now (p_store p) p' r (StateQueryWaitingMessage qid s n pid msg)
      | Some (StatePoolQueryFinished qid s) \<Rightarrow>
          p_queriesInFlight p' = p_queriesInFlight p \<and> qid = q_id (p_store p ! r) \<and> pool_ids p' = pool_ids p - {qid} \<and>
          (if cancel then q_finished (p_store p' ! r) \<and> s = q_stats (p_store p' ! r)
           else query_moved bits now (p_store p) p' r (StateQueryFinished qid s))
      | Some (StatePoolQueryTimeout qid s) \<Rightarrow>
          p_queriesInFlight p' = p_queriesInFlight p \<and> qid = q_id (p_store p ! r) \<and> pool_ids p' = pool_ids p - {qid} \<and>
          query_waits bits now (p_store p) p' r qid s \<and> pcTimeout (p_cfg p) < Since now (Start s)
      | Some _ \<Rightarrow> False)"

context kad_key
begin

abbreviation pinv :: "('k, 'm) Pool \<Rightarrow> bool" where
  "pinv \<equiv> pool_inv valid bits"

lemma pinvD:
  assumes "pinv p"
  shows "valid (nodeKey (p_self p))" "PoolConfig_Validate (p_cfg p) = None"
    "r \<in> set (p_queries p) \<Longrightarrow> r < length (p_store p)"
    "r \<in> set (p_queries p) \<Longrightarrow> closest_query_inv valid bits (p_store p ! r)"
    "r \<in> set (p_queries p) \<Longrightarrow> \<not> q_finished (p_store p ! r)"
    "distinct (map (\<lambda>r. q_id (p_store p ! r)) (p_queries p))"
    "distinct (map fst (p_queryIndex p))"
    "set (p_queryIndex p) = (\<lambda>r. (q_id (p_store p ! r), r)) ` set (p_queries p)"
  using assms by (auto simp: pool_inv_def)

lemma index_iff:
  assumes "pinv p"
  shows "map_of (p_queryIndex p) qid = Some r \<longleftrightarrow> r \<in> set (p_queries p) \<and> q_id (p_store p ! r) = qid"
  using pinvD(7,8) [OF assms] by auto

lemma index_None:
  assumes "pinv p"
  shows "map_of (p_queryIndex p) qid = None \<longleftrightarrow> qid \<notin> pool_ids p"
    "qid \<in> fst ` set (p_queryIndex p) \<longleftrightarrow> qid \<in> pool_ids p"
  unfolding map_of_eq_None_iff pinvD(8) [OF assms] pool_ids_def by (auto simp: image_image)

text \<open>Writing back a query that stays, and removing one.\<close>

lemma pinv_update:
  assumes p: "pinv p" and r: "r \<in> set (p_queries p)"
    and q: "closest_query_inv valid bits q" "\<not> q_finished q" "q_id q = q_id (p_store p ! r)"
  shows "pinv (p\<lparr>p_store := (p_store p)[r := q]\<rparr>)"
proof -
  note D = pinvD [OF p]
  have ids: "q_id ((p_store p)[r := q] ! x) = q_id (p_store p ! x)" for x
    using q(3) by (rule q_id_update)
  have "closest_query_inv valid bits ((p_store p)[r := q] ! x) \<and> \<not> q_finished ((p_store p)[r := q] ! x)"
    if "x \<in> set (p_queries p)" for x
    using D(3-5) [OF that] q(1,2) by (cases "x = r") auto
  then show ?thesis
    unfolding pool_inv_def using D(1-3,6-8) by (simp add: ids)
qed

lemma pinv_remove:
  assumes p: "pinv p" and r: "r \<in> set (p_queries p)" and q: "q_id q = q_id (p_store p ! r)"
  defines "p' \<equiv> removeQuery (p\<lparr>p_store := (p_store p)[r := q]\<rparr>) (q_id q)"
  shows "pinv p'" "pool_ids p' = pool_ids p - {q_id q}"
proof -
  note D = pinvD [OF p]
  have ids: "q_id ((p_store p)[r := q] ! x) = q_id (p_store p ! x)" for x
    using q by (rule q_id_update)
  have qs: "p_queries p' = filter (\<lambda>x. q_id (p_store p ! x) \<noteq> q_id q) (p_queries p)"
    using removeFirst_filter [OF D(6)] by (simp add: p'_def removeQuery_def ids)
  have st: "p_store p' = (p_store p)[r := q]" "p_self p' = p_self p" "p_cfg p' = p_cfg p"
    "p_queryIndex p' = AList.delete (q_id q) (p_queryIndex p)"
    by (simp_all add: p'_def removeQuery_def)
  have other: "x \<noteq> r" if "x \<in> set (p_queries p')" for x using that q by (auto simp: qs)
  have at: "p_store p' ! x = p_store p ! x" if "x \<in> set (p_queries p')" for x
    using other [OF that] by (simp add: st)
  have sub: "set (p_queries p') \<subseteq> set (p_queries p)" by (auto simp: qs)
  have "distinct (map (\<lambda>x. q_id (p_store p' ! x)) (p_queries p'))"
    using D(6) by (simp add: st ids qs distinct_map_filter)
  moreover have "set (p_queryIndex p') = (\<lambda>x. (q_id (p_store p' ! x), x)) ` set (p_queries p')"
    unfolding st set_delete D(8) by (auto simp: qs ids)
  moreover have "distinct (map fst (p_queryIndex p'))"
    unfolding st using D(7) by (rule distinct_delete)
  ultimately show "pinv p'"
    unfolding pool_inv_def using D(1-5) sub at st(2,3) by (auto simp: st(1))
  show "pool_ids p' = pool_ids p - {q_id q}"
    unfolding pool_ids_def by (auto simp: qs st ids)
qed

lemma pinv_inFlight [simp]: "pinv (p\<lparr>p_queriesInFlight := n\<rparr>) = pinv p"
  by (simp add: pool_inv_def)

lemma advanceQuery_law:
  assumes p: "pinv p" and r: "r \<in> set (p_queries p)" and ev: "event_valid valid ev"
  shows "\<exists>p' res. Pool_advanceQuery K now p r ev = Some (p', res) \<and> pinv p' \<and>
    pool_step bits now (ev = EventQueryCancel) r p p' res"
proof -
  note D = pinvD [OF p]
  let ?q = "p_store p ! r"
  obtain q st where a: "Query_Advance K (ClosestNodesIter_methods K) now ?q ev = Some (q, st)"
    "closest_query_inv valid bits q" "query_le ?q q"
    "ev \<noteq> EventQueryCancel \<longrightarrow> advanced (closest_refs bits) now ?q q st"
    using Advance_closest [OF D(4) [OF r] ev, of now] D(5) [OF r] by blast
  have cancel: "st = StateQueryFinished (q_id q) (q_stats q) \<and> q_finished q" if "ev = EventQueryCancel"
    using a(1) that D(5) [OF r] by (auto simp: Query_Advance_def markFinished_def Let_def)
  have id: "q_id q = q_id ?q" using a(3) by (simp add: query_le_def same_query_def)
  have ids: "q_id ((p_store p)[r := q] ! x) = q_id (p_store p ! x)" for x
    using id by (rule q_id_update)
  have at: "(p_store p)[r := q] ! r = q" using D(3) [OF r] by simp
  have moved: "query_moved bits now (p_store p) p' r st" if "p_store p' = (p_store p)[r := q]" "ev \<noteq> EventQueryCancel" for p'
    unfolding query_moved_def that(1) at using a(3,4) that(2) by blast
  note upd = pinv_update [OF p r a(2) _ id] and rem = pinv_remove [OF p r id]
  have waits: ?thesis if "st = StateQueryWaitingAtCapacity i s \<or> st = StateQueryWaitingWithCapacity i s" for i s
  proof -
    from that cancel have nc: "ev \<noteq> EventQueryCancel" by auto
    from that a(4) nc id have q: "\<not> q_finished q" "i = q_id ?q" "s = q_stats q" by (auto simp: advanced_def)
    have w: "query_waits bits now (p_store p) p' r i s" if "p_store p' = (p_store p)[r := q]" for p'
      unfolding query_waits_def using moved [OF that nc] \<open>st = _ \<or> st = _\<close> by auto
    show ?thesis
    proof (cases "pcTimeout (p_cfg p) < Since now (Start (q_stats q))")
      case True
      define p' where "p' = removeQuery (p\<lparr>p_store := (p_store p)[r := q]\<rparr>) (q_id q)"
      have st: "p_store p' = (p_store p)[r := q]" "p_self p' = p_self p" "p_cfg p' = p_cfg p"
        "p_queriesInFlight p' = p_queriesInFlight p" by (simp_all add: p'_def removeQuery_def)
      have "Pool_advanceQuery K now p r ev = Some (p', Some (StatePoolQueryTimeout i s))"
        using a(1) that True by (auto simp: Pool_advanceQuery_def p'_def)
      moreover have "pool_step bits now (ev = EventQueryCancel) r p p' (Some (StatePoolQueryTimeout i s))"
        unfolding pool_step_def using rem(2) [folded p'_def] q id w [OF st(1)] True by (simp add: ids st)
      ultimately show ?thesis using rem(1) [folded p'_def] by blast
    next
      case False
      define p' where "p' = incQueriesInFlight (p\<lparr>p_store := (p_store p)[r := q]\<rparr>)"
      have st: "p_store p' = (p_store p)[r := q]" "p_self p' = p_self p" "p_cfg p' = p_cfg p"
        "p_queriesInFlight p' = p_queriesInFlight p + 1" "p_queries p' = p_queries p"
        by (simp_all add: p'_def incQueriesInFlight_def)
      have "Pool_advanceQuery K now p r ev = Some (p', None)"
        using a(1) that False by (auto simp: Pool_advanceQuery_def p'_def)
      moreover have "pool_step bits now (ev = EventQueryCancel) r p p' None"
        unfolding pool_step_def using w [OF st(1)] False q(3) by (auto simp: ids st not_less)
      moreover have "pinv p'" using upd [OF q(1)] by (simp add: p'_def incQueriesInFlight_def)
      ultimately show ?thesis by blast
    qed
  qed
  show ?thesis
  proof (cases st)
    case (StateQueryFinished i s)
    then have i: "i = q_id q" "s = q_stats q" "q_finished q"
      using cancel a(4) id by (cases "ev = EventQueryCancel"; auto simp: advanced_def)+
    define p' where "p' = removeQuery (p\<lparr>p_store := (p_store p)[r := q]\<rparr>) (q_id q)"
    have st: "p_store p' = (p_store p)[r := q]" "p_self p' = p_self p" "p_cfg p' = p_cfg p"
      "p_queriesInFlight p' = p_queriesInFlight p" by (simp_all add: p'_def removeQuery_def)
    have "Pool_advanceQuery K now p r ev = Some (p', Some (StatePoolQueryFinished i s))"
      using a(1) StateQueryFinished by (simp add: Pool_advanceQuery_def p'_def)
    moreover have "pool_step bits now (ev = EventQueryCancel) r p p' (Some (StatePoolQueryFinished i s))"
      unfolding pool_step_def using rem(2) [folded p'_def] i id moved [OF st(1)] StateQueryFinished
      by (simp add: ids at st)
    ultimately show ?thesis using rem(1) [folded p'_def] by blast
  next
    case (StateQueryWaitingMessage i s n pid m)
    with cancel have nc: "ev \<noteq> EventQueryCancel" by auto
    with a(4) StateQueryWaitingMessage have nf: "\<not> q_finished q" by (auto simp: advanced_def)
    let ?p = "incQueriesInFlight (p\<lparr>p_store := (p_store p)[r := q]\<rparr>)"
    have "Pool_advanceQuery K now p r ev = Some (?p, Some (StatePoolQueryMessage i n pid m s))"
      using a(1) StateQueryWaitingMessage by (simp add: Pool_advanceQuery_def)
    moreover have "pool_step bits now (ev = EventQueryCancel) r p ?p (Some (StatePoolQueryMessage i n pid m s))"
      unfolding pool_step_def using moved [of ?p] nc StateQueryWaitingMessage by (simp add: ids incQueriesInFlight_def)
    moreover have "pinv ?p" using upd [OF nf] by (simp add: incQueriesInFlight_def)
    ultimately show ?thesis by blast
  next
    case (StateQueryWaitingAtCapacity i s)
    then show ?thesis by (intro waits) simp
  next
    case (StateQueryWaitingWithCapacity i s)
    then show ?thesis by (intro waits) simp
  qed
qed

lemma addQuery_law:
  assumes p: "pinv p" and t: "valid target" and known: "\<forall>n \<in> set known. valid (nodeKey n)"
  shows "\<exists>p' err. addQuery K p qid target pid msg known = Some (p', err) \<and> pinv p' \<and>
    p_self p' = p_self p \<and> p_cfg p' = p_cfg p \<and> p_queriesInFlight p' = p_queriesInFlight p \<and>
    pool_ids p' = insert qid (pool_ids p) \<and> (\<forall>r < length (p_store p). p_store p' ! r = p_store p ! r) \<and>
    (qid \<in> pool_ids p \<longrightarrow> p' = p \<and> err = Some ''query id already in use'') \<and>
    (qid \<notin> pool_ids p \<longrightarrow> err = None)"
proof (cases "qid \<in> pool_ids p")
  case True
  with p show ?thesis by (auto simp: addQuery_def index_None(2) [OF p])
next
  case False
  note D = pinvD [OF p]
  define cfg where "cfg = DefaultQueryConfig\<lparr>qcClock := pcClock (p_cfg p),
    qcConcurrency := pcQueryConcurrency (p_cfg p), qcRequestTimeout := pcRequestTimeout (p_cfg p)\<rparr>"
  have cfg: "QueryConfig_Validate cfg = None"
    using D(2) by (auto simp: cfg_def QueryConfig_Validate_def PoolConfig_Validate_def
        DefaultQueryConfig_def split: if_splits)
  have inv: "closest_inv valid bits [] (NewClosestNodesIter target)"
    "closest_refs bits (NewClosestNodesIter target) = []"
    using t by (simp_all add: closest_inv_def NewClosestNodesIter_def closest_refs_def by_distance_def New_def)
  obtain q where q: "NewQuery K (ClosestNodesIter_methods K) (p_self p) qid pid msg
      (NewClosestNodesIter target) known (Some cfg) = Some (Inr q)"
    "closest_query_inv valid bits q" "\<not> q_finished q" "q_id q = qid"
    using cq.NewQuery_law [OF inv D(1) known, of "Some cfg" qid pid msg] cfg
    by (auto simp: closest_query_inv_def)
  let ?r = "length (p_store p)"
  define p' where "p' = p\<lparr>p_store := p_store p @ [q], p_queries := p_queries p @ [?r],
    p_queryIndex := AList.update qid ?r (p_queryIndex p)\<rparr>"
  have eq: "addQuery K p qid target pid msg known = Some (p', None)"
    using q(1) False by (simp add: addQuery_def index_None(2) [OF p] p'_def cfg_def Let_def)
  have at: "(p_store p @ [q]) ! x = p_store p ! x" if "x \<in> set (p_queries p)" for x
    using D(3) [OF that] by (simp add: nth_append)
  have ids: "map (\<lambda>r. q_id (p_store p' ! r)) (p_queries p') = map (\<lambda>r. q_id (p_store p ! r)) (p_queries p) @ [qid]"
    using at q(4) by (simp add: p'_def)
  have notin: "qid \<notin> fst ` set (p_queryIndex p)" using False index_None(2) [OF p] by blast
  then have upd: "AList.update qid ?r (p_queryIndex p) = p_queryIndex p @ [(qid, ?r)]"
    by (rule update_new)
  have "distinct (map (\<lambda>r. q_id (p_store p' ! r)) (p_queries p'))"
    unfolding ids using D(6) False by (auto simp: pool_ids_def)
  moreover have "set (p_queryIndex p') = (\<lambda>r. (q_id (p_store p' ! r), r)) ` set (p_queries p')"
    using D(8) at q(4) by (auto simp: p'_def upd)
  moreover have "distinct (map fst (p_queryIndex p'))"
    using D(7) notin by (simp add: p'_def upd)
  ultimately have "pinv p'"
    unfolding pool_inv_def using D(1-5) q(2,3) at by (auto simp: p'_def less_SucI)
  moreover have "pool_ids p' = insert qid (pool_ids p)"
    using arg_cong [OF ids, of set] by (simp add: pool_ids_def image_image)
  ultimately show ?thesis using eq False by (auto simp: p'_def nth_append)
qed

end

text \<open>What the state returned by the pool means. \<open>st0\<close> are the queries before the event, \<open>ids\<close> the ids in
  the pool after it was handled, \<open>stop\<close> is the id of a query that the event stops.\<close>

definition pool_result ::
  "('k \<Rightarrow> bool list) \<Rightarrow> time \<Rightarrow> ('k, 'm) ClosestQuery list \<Rightarrow> QueryID option \<Rightarrow> QueryID set \<Rightarrow> ('k, 'm) Pool \<Rightarrow>
   ('k, 'm) PoolState \<Rightarrow> bool" where
  "pool_result bits now st0 stop ids p st \<longleftrightarrow>
     (case st of
        StatePoolQueryMessage qid n pid msg s \<Rightarrow> pool_ids p = ids \<and>
          (\<exists>r \<in> set (p_queries p). query_moved bits now st0 p r (StateQueryWaitingMessage qid s n pid msg))
      | StatePoolQueryFinished qid s \<Rightarrow> qid \<in> ids \<and> pool_ids p = ids - {qid} \<and>
          (\<exists>r < length (p_store p). q_id (p_store p ! r) = qid \<and>
             (query_moved bits now st0 p r (StateQueryFinished qid s) \<or>
              stop = Some qid \<and> q_finished (p_store p ! r) \<and> s = q_stats (p_store p ! r)))
      | StatePoolQueryTimeout qid s \<Rightarrow> qid \<in> ids \<and> pool_ids p = ids - {qid} \<and>
          (\<exists>r < length (p_store p). query_waits bits now st0 p r qid s) \<and>
          pcTimeout (p_cfg p) < Since now (Start s)
      | StatePoolWaitingAtCapacity \<Rightarrow> pool_ids p = ids \<and>
          (\<exists>vs. pool_waits bits now st0 p vs \<and> pcConcurrency (p_cfg p) \<le> int (length vs))
      | StatePoolWaitingWithCapacity \<Rightarrow> pool_ids p = ids \<and>
          (\<exists>vs. pool_waits bits now st0 p vs \<and> vs \<noteq> [] \<and>
             (\<forall>r \<in> set (p_queries p). r \<in> set vs \<or> q_id (p_store p ! r) = InvalidQueryID))
      | StatePoolIdle \<Rightarrow> pool_ids p = ids \<and> p_queriesInFlight p = 0 \<and>
          (\<forall>r \<in> set (p_queries p). q_id (p_store p ! r) = InvalidQueryID))"

text \<open>The ids in the pool after the event was handled, and the id of a query that it stops.\<close>

fun event_ids :: "('k, 'a, 'm) PoolEvent \<Rightarrow> QueryID set \<Rightarrow> QueryID set" where
  "event_ids (EventPoolAddQuery qid target pid msg known) ids = insert qid ids"
| "event_ids _ ids = ids"

fun event_stop :: "('k, 'a, 'm) PoolEvent \<Rightarrow> QueryID option" where
  "event_stop (EventPoolStopQuery qid) = Some qid"
| "event_stop _ = None"

text \<open>The queries at \<open>rs\<close> are those of before.\<close>

definition untouched :: "('k, 'm) ClosestQuery list \<Rightarrow> ('k, 'm) Pool \<Rightarrow> nat set \<Rightarrow> bool" where
  "untouched st0 p R \<longleftrightarrow> (\<forall>r \<in> R. r < length st0 \<longrightarrow> p_store p ! r = st0 ! r)"

lemma query_moved_base:
  "query_moved bits now (p_store p) p' r st \<Longrightarrow> untouched st0 p {r} \<Longrightarrow> r < length (p_store p) \<Longrightarrow> query_moved bits now st0 p' r st"
  unfolding query_moved_def untouched_def by auto

lemma query_waits_base:
  "query_waits bits now (p_store p) p' r qid s \<Longrightarrow> untouched st0 p {r} \<Longrightarrow> r < length (p_store p) \<Longrightarrow> query_waits bits now st0 p' r qid s"
  unfolding query_waits_def using query_moved_base by blast

lemma query_waits_cong:
  "p_store p' ! r = p_store p ! r \<Longrightarrow> query_waits bits now st0 p' r qid s = query_waits bits now st0 p r qid s"
  by (simp add: query_waits_def query_moved_def)

lemma pool_step_frame:
  assumes "pool_step bits now c r p p' res"
  shows "p_cfg p' = p_cfg p" "p_self p' = p_self p" "length (p_store p') = length (p_store p)"
    "\<And>x. q_id (p_store p' ! x) = q_id (p_store p ! x)" "\<And>x. x \<noteq> r \<Longrightarrow> p_store p' ! x = p_store p ! x"
    "p_queriesInFlight p' = p_queriesInFlight p \<or> p_queriesInFlight p' = p_queriesInFlight p + 1"
  using assms by (auto simp: pool_step_def split: option.splits PoolState.splits)

lemma untouched_step:
  "untouched st0 p R \<Longrightarrow> pool_step bits now c r p p' res \<Longrightarrow> r \<notin> R \<Longrightarrow> untouched st0 p' R"
  unfolding untouched_def using pool_step_frame(5) by metis

lemma pool_step_result:
  assumes s: "pool_step bits now (stop = Some (q_id (p_store p ! r))) r p p' (Some st)" and r: "r \<in> set (p_queries p)"
    and u: "untouched st0 p {r}" and l: "r < length (p_store p)"
  shows "pool_result bits now st0 stop (pool_ids p) p' st"
proof -
  note F = pool_step_frame [OF s]
  have ids: "pool_ids p' = pool_ids p" if "p_queries p' = p_queries p"
    using that F(4) by (simp add: pool_ids_def)
  have mem: "q_id (p_store p ! r) \<in> pool_ids p" using r by (auto simp: pool_ids_def)
  show ?thesis
  proof (cases st)
    case (StatePoolQueryMessage qid n pid msg t)
    with s have "p_queries p' = p_queries p"
      "query_moved bits now (p_store p) p' r (StateQueryWaitingMessage qid t n pid msg)" by (simp_all add: pool_step_def)
    with query_moved_base [OF this(2) u l] ids r StatePoolQueryMessage show ?thesis by (auto simp: pool_result_def)
  next
    case (StatePoolQueryFinished qid t)
    with s F(4) [of r] have *: "qid = q_id (p_store p ! r)" "pool_ids p' = pool_ids p - {qid}" "q_id (p_store p' ! r) = qid"
      "if stop = Some qid then q_finished (p_store p' ! r) \<and> t = q_stats (p_store p' ! r)
       else query_moved bits now (p_store p) p' r (StateQueryFinished qid t)"
      by (auto simp: pool_step_def split: if_splits)
    then have "query_moved bits now st0 p' r (StateQueryFinished qid t) \<or>
        stop = Some qid \<and> q_finished (p_store p' ! r) \<and> t = q_stats (p_store p' ! r)"
      using query_moved_base [OF _ u l] by (auto split: if_splits)
    with * mem l F(3) StatePoolQueryFinished show ?thesis by (auto simp: pool_result_def)
  next
    case (StatePoolQueryTimeout qid t)
    with s have *: "qid = q_id (p_store p ! r)" "pool_ids p' = pool_ids p - {qid}"
      "query_waits bits now (p_store p) p' r qid t" "pcTimeout (p_cfg p) < Since now (Start t)" by (auto simp: pool_step_def)
    with query_waits_base [OF *(3) u l] mem l F(1,3) StatePoolQueryTimeout show ?thesis by (auto simp: pool_result_def)
  qed (use s in \<open>simp_all add: pool_step_def\<close>)
qed

text \<open>One more query waits.\<close>

lemma pool_step_waits:
  assumes s: "pool_step bits now c r p p' None" and r: "r \<in> set (p_queries p)" "r < length (p_store p)"
    and u: "untouched st0 p {r}" and vs: "pool_waits bits now st0 p vs" "r \<notin> set vs"
  shows "pool_waits bits now st0 p' (vs @ [r])" "p_queries p' = p_queries p" "pool_ids p' = pool_ids p"
proof -
  note F = pool_step_frame [OF s]
  obtain qid t where 1: "p_queries p' = p_queries p" "p_queriesInFlight p' = p_queriesInFlight p + 1"
    "query_waits bits now (p_store p) p' r qid t" "Since now (Start t) \<le> pcTimeout (p_cfg p)"
    using s by (auto simp: pool_step_def)
  have "\<exists>qid s. query_waits bits now st0 p' x qid s \<and> Since now (Start s) \<le> pcTimeout (p_cfg p')"
    if x: "x \<in> set (vs @ [r])" for x
  proof (cases "x = r")
    case True
    with query_waits_base [OF 1(3) u r(2)] 1(4) F(1) show ?thesis by auto
  next
    case False
    with x vs(1) query_waits_cong [OF F(5) [OF False]] F(1) show ?thesis by (auto simp: pool_waits_def)
  qed
  with vs r(1) 1(1,2) show "pool_waits bits now st0 p' (vs @ [r])" by (auto simp: pool_waits_def)
  show "p_queries p' = p_queries p" by (rule 1(1))
  then show "pool_ids p' = pool_ids p" using F(4) by (simp add: pool_ids_def)
qed

context kad_key
begin

text \<open>The loop over the queries, skipping the one of the event.\<close>

lemma poolLoop_law:
  "pinv p \<Longrightarrow> set qs \<subseteq> set (p_queries p) \<Longrightarrow> distinct qs \<Longrightarrow> pool_waits bits now st0 p vs \<Longrightarrow>
   \<forall>r \<in> set qs. q_id (p_store p ! r) \<noteq> e \<longrightarrow> r \<notin> set vs \<Longrightarrow>
   untouched st0 p {r \<in> set qs. q_id (p_store p ! r) \<noteq> e} \<Longrightarrow> stop = None \<or> stop = Some e \<or> the stop \<notin> pool_ids p \<Longrightarrow>
   \<exists>p' res. poolLoop K now e p qs = Some (p', res) \<and> pinv p' \<and>
     p_self p' = p_self p \<and> p_cfg p' = p_cfg p \<and>
     p_queriesInFlight p' \<le> max (pcConcurrency (p_cfg p)) (p_queriesInFlight p + 1) \<and>
     (case res of
        None \<Rightarrow> pool_ids p' = pool_ids p \<and> p_queries p' = p_queries p \<and> (\<forall>r. q_id (p_store p' ! r) = q_id (p_store p ! r)) \<and>
          (\<exists>vs'. pool_waits bits now st0 p' vs' \<and>
             set vs' = set vs \<union> {r \<in> set qs. q_id (p_store p ! r) \<noteq> e})
      | Some st \<Rightarrow> pool_result bits now st0 stop (pool_ids p) p' st)"
proof (induction qs arbitrary: p vs)
  case Nil
  then show ?case by (auto intro!: exI [of _ vs])
next
  case (Cons r qs)
  show ?case
  proof (cases "e = q_id (p_store p ! r)")
    case True
    then have eq: "poolLoop K now e p (r # qs) = poolLoop K now e p qs"
      "{x \<in> set (r # qs). q_id (p_store p ! x) \<noteq> e} = {x \<in> set qs. q_id (p_store p ! x) \<noteq> e}"
      by auto
    from Cons.prems have "set qs \<subseteq> set (p_queries p)" "distinct qs"
      "\<forall>r \<in> set qs. q_id (p_store p ! r) \<noteq> e \<longrightarrow> r \<notin> set vs" by auto
    from Cons.IH [OF Cons.prems(1) this(1,2) Cons.prems(4) this(3) Cons.prems(6) [unfolded eq(2)] Cons.prems(7)]
    show ?thesis unfolding eq .
  next
    case False
    have r: "r \<in> set (p_queries p)" "r \<notin> set qs" using Cons.prems(2,3) by auto
    have lr: "r < length (p_store p)" by (rule pinvD(3) [OF Cons.prems(1) r(1)])
    have rvs: "r \<notin> set vs" using Cons.prems(5) False by auto
    have u: "untouched st0 p {r}" using Cons.prems(6) False by (auto simp: untouched_def)
    obtain p1 res where 1: "Pool_advanceQuery K now p r (QueryEventNil :: ('k, unit) QueryEvent) = Some (p1, res)"
      "pinv p1" "pool_step bits now False r p p1 res"
      using advanceQuery_law [OF Cons.prems(1) r(1), of "QueryEventNil :: ('k, unit) QueryEvent" now] by auto
    note F = pool_step_frame [OF 1(3)]
    show ?thesis
    proof (cases res)
      case (Some st)
      have ns: "stop \<noteq> Some (q_id (p_store p ! r))" using Cons.prems(7) False r(1) by (auto simp: pool_ids_def)
      have "pool_result bits now st0 stop (pool_ids p) p1 st"
        by (rule pool_step_result [OF _ r(1) u lr]) (use 1(3) ns Some in simp)
      with Some 1(1,2) False F(1,2,6) show ?thesis by (auto simp: max_def)
    next
      case None
      with 1(3) have st: "pool_step bits now False r p p1 None" by simp
      note W = pool_step_waits [OF st r(1) lr u Cons.prems(4) rvs]
      have fl: "p_queriesInFlight p1 = p_queriesInFlight p + 1" using st by (simp add: pool_step_def)
      show ?thesis
      proof (cases "p_queriesInFlight p1 \<ge> pcConcurrency (p_cfg p1)")
        case True
        have "pool_result bits now st0 stop (pool_ids p) p1 StatePoolWaitingAtCapacity"
        proof -
          have "int (length (vs @ [r])) = p_queriesInFlight p1" using W(1) by (simp add: pool_waits_def)
          with W(1,3) True show ?thesis unfolding pool_result_def PoolState.case by metis
        qed
        with True 1(1,2) None False F(1,2) fl show ?thesis by simp
      next
        case lt: False
        have c: "{x \<in> set qs. q_id (p_store p1 ! x) \<noteq> e} = {x \<in> set qs. q_id (p_store p ! x) \<noteq> e}" using F(4) by simp
        have u1: "untouched st0 p1 {x \<in> set qs. q_id (p_store p1 ! x) \<noteq> e}"
          unfolding c by (rule untouched_step [OF _ 1(3)]) (use Cons.prems(6) r(2) in \<open>auto simp: untouched_def\<close>)
        have P: "set qs \<subseteq> set (p_queries p1)" "distinct qs"
          "\<forall>x \<in> set qs. q_id (p_store p1 ! x) \<noteq> e \<longrightarrow> x \<notin> set (vs @ [r])"
          "stop = None \<or> stop = Some e \<or> the stop \<notin> pool_ids p1"
          using Cons.prems(2,3,5,7) r(2) F(4) W(2,3) by auto
        obtain p2 res2 where 2: "poolLoop K now e p1 qs = Some (p2, res2)" "pinv p2"
          "p_self p2 = p_self p" "p_cfg p2 = p_cfg p"
          "p_queriesInFlight p2 \<le> max (pcConcurrency (p_cfg p)) (p_queriesInFlight p1 + 1)"
          "case res2 of
             None \<Rightarrow> pool_ids p2 = pool_ids p \<and> p_queries p2 = p_queries p \<and> (\<forall>r. q_id (p_store p2 ! r) = q_id (p_store p ! r)) \<and>
               (\<exists>vs'. pool_waits bits now st0 p2 vs' \<and>
                 set vs' = set (vs @ [r]) \<union> {x \<in> set qs. q_id (p_store p ! x) \<noteq> e})
           | Some st \<Rightarrow> pool_result bits now st0 stop (pool_ids p) p2 st"
          using Cons.IH [OF 1(2) P(1,2) W(1) P(3) u1 P(4)] unfolding F(1,2) F(4) W(2,3) by blast
        have loop: "poolLoop K now e p (r # qs) = Some (p2, res2)" using 1(1) None False lt 2(1) by simp
        have bound: "p_queriesInFlight p2 \<le> max (pcConcurrency (p_cfg p)) (p_queriesInFlight p + 1)"
          using 2(5) fl lt F(1) by simp
        have set: "set (vs @ [r]) \<union> {x \<in> set qs. q_id (p_store p ! x) \<noteq> e} =
            set vs \<union> {x \<in> set (r # qs). q_id (p_store p ! x) \<noteq> e}" using False by auto
        from loop 2(2-4) bound 2(6) [unfolded set] show ?thesis by blast
      qed
    qed
  qed
qed

text \<open>The event itself: what is known before the loop over the queries.\<close>

definition event_post ::
  "time \<Rightarrow> ('k, 'm) Pool \<Rightarrow> QueryID option \<Rightarrow> QueryID set \<Rightarrow> ('k, 'm) Pool \<Rightarrow> ('k, 'm) PoolState option \<Rightarrow> QueryID \<Rightarrow> bool" where
  "event_post now p stop ids p' res e \<longleftrightarrow> pinv p' \<and> p_self p' = p_self p \<and> p_cfg p' = p_cfg p \<and>
     p_queriesInFlight p' \<le> 1 \<and>
     (case res of
        None \<Rightarrow> pool_ids p' = ids \<and> (stop = None \<or> stop = Some e \<or> the stop \<notin> pool_ids p') \<and>
          (\<exists>vs. pool_waits bits now (p_store p) p' vs \<and>
            (\<forall>r \<in> set (p_queries p'). if q_id (p_store p' ! r) = e then r \<in> set vs \<or> e = InvalidQueryID else r \<notin> set vs) \<and>
            untouched (p_store p) p' {r \<in> set (p_queries p'). q_id (p_store p' ! r) \<noteq> e})
      | Some st \<Rightarrow> pool_result bits now (p_store p) stop ids p' st)"

lemma pool_waits_none: "p_queriesInFlight p = 0 \<Longrightarrow> pool_waits bits now st0 p []"
  by (simp add: pool_waits_def)

lemma untouched_refl: "untouched (p_store p) p R"
  by (simp add: untouched_def)

lemma eventQuery_law:
  assumes p: "pinv p" "p_queriesInFlight p = 0" and ev: "event_valid valid ev"
    and stop: "stop = (if ev = EventQueryCancel then Some qid else None)"
  shows "\<exists>p' res e. eventQuery K now p qid ev = Some (p', res, e) \<and>
    event_post now p stop (pool_ids p) p' res e"
proof (cases "map_of (p_queryIndex p) qid")
  case None
  then have "qid \<notin> pool_ids p" using index_None(1) [OF p(1)] by blast
  with None p stop show ?thesis
    by (auto simp: eventQuery_def event_post_def pool_waits_none untouched_refl intro!: exI [of _ "[]"])
next
  case (Some r)
  then have r: "r \<in> set (p_queries p)" and id: "q_id (p_store p ! r) = qid" using index_iff [OF p(1)] by blast+
  note lr = pinvD(3) [OF p(1) r]
  obtain p1 res where 1: "Pool_advanceQuery K now p r ev = Some (p1, res)" "pinv p1"
    "pool_step bits now (ev = EventQueryCancel) r p p1 res"
    using advanceQuery_law [OF p(1) r ev] by blast
  note F = pool_step_frame [OF 1(3)]
  have "event_post now p stop (pool_ids p) p1 res (q_id (p_store p1 ! r))"
  proof (cases res)
    case None
    with 1(3) have st: "pool_step bits now (ev = EventQueryCancel) r p p1 None" by simp
    note W = pool_step_waits [OF st r lr untouched_refl pool_waits_none [OF p(2)]]
    have same: "x = r" if "x \<in> set (p_queries p)" "q_id (p_store p ! x) = qid" for x
      using pinvD(6) [OF p(1)] that r id by (auto simp: distinct_map inj_on_def)
    have vs: "pool_waits bits now (p_store p) p1 [r]" using W(1) by simp
    have "untouched (p_store p) p1 {x \<in> set (p_queries p1). q_id (p_store p1 ! x) \<noteq> qid}"
      by (rule untouched_step [OF untouched_refl 1(3)]) (simp add: F(4) id)
    with vs W None F(1,2,4,6) 1(2) same id stop p(2) show ?thesis
      by (auto simp: event_post_def intro!: exI [of _ "[r]"])
  next
    case st: (Some st)
    have "(ev = EventQueryCancel) = (stop = Some (q_id (p_store p ! r)))" using stop id by simp
    with 1(3) st have "pool_step bits now (stop = Some (q_id (p_store p ! r))) r p p1 (Some st)" by simp
    from pool_step_result [OF this r untouched_refl lr] st 1(2) F(1,2,6) p(2) show ?thesis
      by (auto simp: event_post_def)
  qed
  with Some 1(1) show ?thesis by (simp add: eventQuery_def)
qed

lemma poolEvent_law:
  assumes p: "pinv p" "p_queriesInFlight p = 0" and ev: "pool_event_valid valid ev"
  shows "\<exists>p' res e. poolEvent K now p ev = Some (p', res, e) \<and>
    event_post now p (event_stop ev) (event_ids ev (pool_ids p)) p' res e"
proof (cases ev)
  case (EventPoolAddQuery qid target pid msg known)
  then obtain p' err where "addQuery K p qid target pid msg known = Some (p', err)" "pinv p'"
    "p_self p' = p_self p" "p_cfg p' = p_cfg p" "p_queriesInFlight p' = 0"
    "pool_ids p' = insert qid (pool_ids p)" "\<forall>r < length (p_store p). p_store p' ! r = p_store p ! r"
    using addQuery_law [OF p(1), of target known qid pid msg] ev p(2) by auto
  with EventPoolAddQuery show ?thesis
    by (auto simp: poolEvent_def event_post_def untouched_def pool_waits_none intro!: exI [of _ "[]"])
next
  case EventPoolPoll
  with p show ?thesis
    by (auto simp: poolEvent_def event_post_def untouched_refl pool_waits_none intro!: exI [of _ "[]"])
next
  case PoolEventNil
  with ev show ?thesis by simp
qed (use ev in \<open>simp_all add: poolEvent_def eventQuery_law [OF p]\<close>)

lemma Pool_Advance_law:
  assumes p: "pinv p" and ev: "pool_event_valid valid ev"
  shows "\<exists>p' st. Pool_Advance K now p ev = Some (p', st) \<and> pinv p' \<and>
    p_self p' = p_self p \<and> p_cfg p' = p_cfg p \<and>
    p_queriesInFlight p' \<le> max 2 (pcConcurrency (p_cfg p)) \<and>
    pool_result bits now (p_store p) (event_stop ev) (event_ids ev (pool_ids p)) p' st"
proof -
  define p0 where "p0 = p\<lparr>p_queriesInFlight := 0\<rparr>"
  have p0: "pinv p0" "p_queriesInFlight p0 = 0" "p_self p0 = p_self p" "p_cfg p0 = p_cfg p"
    "p_store p0 = p_store p" "pool_ids p0 = pool_ids p"
    using p by (simp_all add: p0_def pool_ids_def)
  obtain p1 res e where ev1: "poolEvent K now p0 ev = Some (p1, res, e)"
    "event_post now p0 (event_stop ev) (event_ids ev (pool_ids p)) p1 res e"
    using poolEvent_law [OF p0(1,2) ev] unfolding p0(6) by blast
  note 1 = ev1(1) ev1(2) [unfolded event_post_def p0(3-5)]
  note adv = Pool_Advance_def [of K now p ev, folded p0_def, unfolded 1(1)]
  show ?thesis
  proof (cases res)
    case (Some st)
    with 1(2) adv show ?thesis by (simp add: max_def)
  next
    case None
    with 1(2) obtain vs where pi: "pinv p1" "p_self p1 = p_self p" "p_cfg p1 = p_cfg p"
      and fl: "p_queriesInFlight p1 \<le> 1" and ids: "pool_ids p1 = event_ids ev (pool_ids p)"
      and stop: "event_stop ev = None \<or> event_stop ev = Some e \<or> the (event_stop ev) \<notin> pool_ids p1"
      and vs: "pool_waits bits now (p_store p) p1 vs"
        "\<forall>r \<in> set (p_queries p1). if q_id (p_store p1 ! r) = e then r \<in> set vs \<or> e = InvalidQueryID else r \<notin> set vs"
        "untouched (p_store p) p1 {r \<in> set (p_queries p1). q_id (p_store p1 ! r) \<noteq> e}"
      by auto
    show ?thesis
    proof (cases "p_queries p1 = []")
      case True
      with vs(1) have "p_queriesInFlight p1 = 0" by (simp add: pool_waits_def)
      with True None pi ids adv show ?thesis by (auto simp: pool_result_def)
    next
      case ne: False
      have d: "distinct (p_queries p1)" using pinvD(6) [OF pi(1)] by (simp add: distinct_map)
      have disj: "\<forall>r \<in> set (p_queries p1). q_id (p_store p1 ! r) \<noteq> e \<longrightarrow> r \<notin> set vs" using vs(2) by auto
      obtain p2 res2 where 2: "poolLoop K now e p1 (p_queries p1) = Some (p2, res2)" "pinv p2"
        "p_self p2 = p_self p" "p_cfg p2 = p_cfg p"
        "p_queriesInFlight p2 \<le> max (pcConcurrency (p_cfg p)) (p_queriesInFlight p1 + 1)"
        "case res2 of
           None \<Rightarrow> pool_ids p2 = pool_ids p1 \<and> p_queries p2 = p_queries p1 \<and>
             (\<forall>r. q_id (p_store p2 ! r) = q_id (p_store p1 ! r)) \<and>
             (\<exists>vs'. pool_waits bits now (p_store p) p2 vs' \<and>
                set vs' = set vs \<union> {r \<in> set (p_queries p1). q_id (p_store p1 ! r) \<noteq> e})
         | Some st \<Rightarrow> pool_result bits now (p_store p) (event_stop ev) (pool_ids p1) p2 st"
        using poolLoop_law [OF pi(1) order_refl d vs(1) disj vs(3) stop] unfolding pi(2,3) by blast
      have bound: "p_queriesInFlight p2 \<le> max 2 (pcConcurrency (p_cfg p))" using 2(5) fl by linarith
      show ?thesis
      proof (cases res2)
        case st: (Some st)
        with 2 None ne ids bound adv show ?thesis by simp
      next
        case none2: None
        from 2(6) [unfolded none2 option.case] obtain vs' where l: "pool_ids p2 = pool_ids p1" "p_queries p2 = p_queries p1"
          "\<And>r. q_id (p_store p2 ! r) = q_id (p_store p1 ! r)" "pool_waits bits now (p_store p) p2 vs'"
          "set vs' = set vs \<union> {r \<in> set (p_queries p1). q_id (p_store p1 ! r) \<noteq> e}" by blast
        have all: "r \<in> set vs' \<or> q_id (p_store p2 ! r) = InvalidQueryID" if "r \<in> set (p_queries p2)" for r
          using that vs(2) l(2,3,5) by (metis (mono_tags, lifting) Un_iff mem_Collect_eq)
        have fl2: "p_queriesInFlight p2 = int (length vs')" using l(4) by (simp add: pool_waits_def)
        define st where "st = (if p_queriesInFlight p2 > 0 then StatePoolWaitingWithCapacity else StatePoolIdle :: ('k, 'a) PoolState)"
        have "Pool_Advance K now p ev = Some (p2, st)" using adv None ne 2(1) none2 by (simp add: st_def)
        moreover have "pool_result bits now (p_store p) (event_stop ev) (event_ids ev (pool_ids p)) p2 st"
        proof (cases "vs' = []")
          case True
          then show ?thesis using all fl2 l(1) ids by (auto simp: pool_result_def st_def)
        next
          case False
          then show ?thesis using all fl2 l(1,4) ids by (auto simp: pool_result_def st_def)
        qed
        ultimately show ?thesis using 2(2-4) bound by blast
      qed
    qed
  qed
qed

end

section \<open>Properties\<close>

context kad_key
begin

lemma NewPool_law:
  assumes "valid (nodeKey self)" "NewPool self cfg = Inr p"
  shows "pinv p" "pool_ids p = {}"
  using assms by (auto simp: NewPool_def Let_def pool_inv_def pool_ids_def DefaultPoolConfig_def
      PoolConfig_Validate_def Minute_def Second_def split: option.splits if_splits)

end

text \<open>A run of a pool: events at times, and the states returned, the last one first.\<close>

fun pool_run ::
  "'k Key \<Rightarrow> ('k, 'm) Pool \<Rightarrow> ('k, 'm) PoolState list \<Rightarrow> (time \<times> ('k, 'a, 'm) PoolEvent) list \<Rightarrow>
   (('k, 'm) Pool \<times> ('k, 'm) PoolState list) option" where
  "pool_run K p out [] = Some (p, out)"
| "pool_run K p out ((now, ev) # evs) = do {
     (p', st) \<leftarrow> Pool_Advance K now p ev;
     pool_run K p' (st # out) evs
   }"

text \<open>C13: From \<open>NewPool\<close> on, whatever events arrive at whatever times, the pool never panics. At all
  times the slice and the map of the pool hold the same queries under distinct ids, each of
  them well-formed and running, and the number of queries counted in flight is at most the
  configured concurrency, or two.\<close>

theorem pool_run_safe:
  assumes "kad_key K valid len bits"
    and "valid (nodeKey self)" and "NewPool self cfg = Inr p"
    and "\<forall>(now, ev) \<in> set evs. pool_event_valid valid ev"
  shows "\<exists>p' out. pool_run K p [] evs = Some (p', out) \<and> pool_inv valid bits p' \<and>
    p_queriesInFlight p' \<le> max 2 (pcConcurrency (p_cfg p))"
proof -
  have "\<exists>p' out'. pool_run K p out evs = Some (p', out') \<and> pool_inv valid bits p' \<and>
      p_queriesInFlight p' \<le> max 2 (pcConcurrency (p_cfg p))"
    if "pool_inv valid bits p" "p_queriesInFlight p \<le> max 2 (pcConcurrency (p_cfg p))" for out
    using that assms(4)
  proof (induction evs arbitrary: p out)
    case (Cons e evs)
    obtain now ev where e: "e = (now, ev)" by force
    from Cons.prems(3) e obtain p1 st where "Pool_Advance K now p ev = Some (p1, st)"
      "pool_inv valid bits p1" "p_cfg p1 = p_cfg p" "p_queriesInFlight p1 \<le> max 2 (pcConcurrency (p_cfg p))"
      using kad_key.Pool_Advance_law [OF assms(1) Cons.prems(1), of ev now] by auto
    with Cons.IH [of p1 "st # out"] Cons.prems(3) e show ?case by simp
  qed simp
  moreover have "p_queriesInFlight p = 0"
    using assms(3) by (auto simp: NewPool_def Let_def split: option.splits)
  ultimately show ?thesis using kad_key.NewPool_law(1) [OF assms(1-3)] by simp
qed

definition pool8 :: "(key8, unit) Pool" where
  "pool8 = \<lparr>p_self = node8 0, p_store = [], p_queries = [], p_queryIndex = [],
     p_cfg = DefaultPoolConfig, p_queriesInFlight = 0\<rparr>"

lemma pool8_new: "NewPool (node8 0) None = Inr pool8"
  by (simp add: NewPool_def pool8_def)

theorem pool_run_safe_witness:
  "\<exists>p' out. pool_run Key8 pool8 []
      [(1, EventPoolAddQuery ''a'' 1 ''p'' () [node8 1] :: (key8, unit, unit) PoolEvent),
       (2, EventPoolPoll), (3, EventPoolStopQuery ''a'')] = Some (p', out) \<and>
    pool_inv (\<lambda>_. True) word_bits p' \<and> p_queriesInFlight p' \<le> max 2 (pcConcurrency (p_cfg pool8))"
  by (rule pool_run_safe [OF key8.kad_key_axioms TrueI pool8_new]) simp



text \<open>Adding a query under an id that is in use fails and changes nothing; under a new id it
  succeeds (the configuration built for the query is valid whenever the pool's is) and the pool
  then has exactly one query more.\<close>

theorem pool_add_query:
  assumes "kad_key K valid len bits"
    and "pool_inv valid bits p" and "valid target" and "\<forall>n \<in> set known. valid (nodeKey n)"
  shows "\<exists>p' err. addQuery K p qid target pid msg known = Some (p', err) \<and> pool_inv valid bits p' \<and>
    pool_ids p' = insert qid (pool_ids p) \<and>
    (qid \<in> pool_ids p \<longrightarrow> p' = p \<and> err = Some ''query id already in use'') \<and>
    (qid \<notin> pool_ids p \<longrightarrow> err = None)"
  using kad_key.addQuery_law [OF assms] by blast

theorem pool_add_query_witness:
  "\<exists>p'. addQuery Key8 pool8 ''a'' 1 ''p'' () [node8 1] = Some (p', None) \<and>
    pool_inv (\<lambda>_. True) word_bits p' \<and> pool_ids p' = {''a''}"
  using pool_add_query [OF key8.kad_key_axioms key8.NewPool_law(1) [OF TrueI pool8_new] TrueI,
      of "[node8 1]" "''a''" 1 "''p''" "()"]
  by (auto simp: pool_ids_def pool8_def)

end
