(* ===== verification/Bootstrap.thy ===== *)
theory Bootstrap
  imports Query
begin

text \<open>
  The bootstrap state machine of \<open>routing/bootstrap.go\<close>: one query for the local key, started by an
  event and advanced by the others.
\<close>

section \<open>Configuration, states and events\<close>

record BootstrapConfig =
  bcTimeout :: duration
  bcRequestConcurrency :: int
  bcRequestTimeout :: duration
  bcClock :: "Clock option"

definition BootstrapConfig_Validate :: "BootstrapConfig \<Rightarrow> ConfigurationError option" where
  "BootstrapConfig_Validate cfg =
     (if bcClock cfg = None then
        Some (ConfigurationError ''BootstrapConfig'' (Some ''clock must not be nil''))
      else if bcTimeout cfg < 1 then
        Some (ConfigurationError ''BootstrapConfig'' (Some ''timeout must be greater than zero''))
      else if bcRequestConcurrency cfg < 1 then
        Some (ConfigurationError ''BootstrapConfig'' (Some ''request concurrency must be greater than zero''))
      else if bcRequestTimeout cfg < 1 then
        Some (ConfigurationError ''BootstrapConfig'' (Some ''request timeout must be greater than zero''))
      else None)"

definition DefaultBootstrapConfig :: BootstrapConfig where
  "DefaultBootstrapConfig = \<lparr>bcTimeout = 5 * Minute, bcRequestConcurrency = 3,
     bcRequestTimeout = Minute, bcClock = Some Clock\<rparr>"

datatype ('k, 'm) BootstrapState =
    StateBootstrapMessage QueryID "'k NodeID" ProtocolID 'm QueryStats
  | StateBootstrapIdle
  | StateBootstrapFinished QueryStats
  | StateBootstrapTimeout QueryStats
  | StateBootstrapWaiting QueryStats

datatype ('k, 'a, 'm) BootstrapEvent =
    EventBootstrapPoll
  | EventBootstrapStart ProtocolID 'm "'k NodeID list"
  | EventBootstrapMessageResponse "'k NodeID" "('k, 'a) Response option"
  | EventBootstrapMessageFailure "'k NodeID"
  | BootstrapEventNil

record ('k, 'm) Bootstrap =
  b_self :: "'k NodeID"
  b_qry :: "('k, 'm, 'k ClosestNodesIter) Query option"
  b_cfg :: BootstrapConfig

definition NewBootstrap ::
  "'k NodeID \<Rightarrow> BootstrapConfig option \<Rightarrow> ConfigurationError + ('k, 'm) Bootstrap" where
  "NewBootstrap self cfg =
     (let c = (case cfg of None \<Rightarrow> DefaultBootstrapConfig | Some c \<Rightarrow> c);
          err = (case cfg of None \<Rightarrow> None | Some c \<Rightarrow> BootstrapConfig_Validate c)
      in case err of Some e \<Rightarrow> Inl e | None \<Rightarrow> Inr \<lparr>b_self = self, b_qry = None, b_cfg = c\<rparr>)"

section \<open>Advance\<close>

text \<open>Without a query, \<open>b.qry.Advance\<close> dereferences a nil pointer.\<close>

definition Bootstrap_advanceQuery ::
  "'k Key \<Rightarrow> time \<Rightarrow> ('k, 'm) Bootstrap \<Rightarrow> ('k, 'a) QueryEvent \<Rightarrow>
   (('k, 'm) Bootstrap \<times> ('k, 'm) BootstrapState) option" where
  "Bootstrap_advanceQuery K now b qev = do {
     qry \<leftarrow> b_qry b;
     (q, state) \<leftarrow> Query_Advance K (ClosestNodesIter_methods K) now qry qev;
     let b' = b\<lparr>b_qry := Some q\<rparr>;
     Some (b', case state of
        StateQueryWaitingMessage qid stats n pid msg \<Rightarrow> StateBootstrapMessage qid n pid msg stats
      | StateQueryFinished qid stats \<Rightarrow> StateBootstrapFinished stats
      | StateQueryWaitingAtCapacity qid stats \<Rightarrow>
          (let elapsed = Since now (Start stats) in
           if elapsed > bcTimeout (b_cfg b) then StateBootstrapTimeout stats
           else StateBootstrapWaiting stats)
      | StateQueryWaitingWithCapacity qid stats \<Rightarrow>
          (let elapsed = Since now (Start stats) in
           if elapsed > bcTimeout (b_cfg b) then StateBootstrapTimeout stats
           else StateBootstrapWaiting stats))
   }"

definition Bootstrap_Advance ::
  "'k Key \<Rightarrow> time \<Rightarrow> ('k, 'm) Bootstrap \<Rightarrow> ('k, 'a, 'm) BootstrapEvent \<Rightarrow>
   (('k, 'm) Bootstrap \<times> ('k, 'm) BootstrapState) option" where
  "Bootstrap_Advance K now b ev =
     (case ev of
        EventBootstrapStart protocolID msg known \<Rightarrow> do {
          let iter = NewClosestNodesIter (nodeKey (b_self b));
          let qryCfg = DefaultQueryConfig\<lparr>qcClock := bcClock (b_cfg b),
                qcConcurrency := bcRequestConcurrency (b_cfg b),
                qcRequestTimeout := bcRequestTimeout (b_cfg b)\<rparr>;
          r \<leftarrow> NewQuery K (ClosestNodesIter_methods K) (b_self b) ''bootstrap'' protocolID msg iter
                known (Some qryCfg);
          (case r of
             Inl err \<Rightarrow> None
           | Inr qry \<Rightarrow>
               Bootstrap_advanceQuery K now (b\<lparr>b_qry := Some qry\<rparr>) (QueryEventNil :: ('k, 'a) QueryEvent))
        }
      | EventBootstrapMessageResponse node resp \<Rightarrow>
          Bootstrap_advanceQuery K now b (EventQueryMessageResponse node resp)
      | EventBootstrapMessageFailure node \<Rightarrow>
          Bootstrap_advanceQuery K now b (EventQueryMessageFailure node :: ('k, 'a) QueryEvent)
      | EventBootstrapPoll \<Rightarrow>
          (if b_qry b \<noteq> None then
             Bootstrap_advanceQuery K now b (QueryEventNil :: ('k, 'a) QueryEvent)
           else Some (b, StateBootstrapIdle))
      | BootstrapEventNil \<Rightarrow> None)"

section \<open>Correctness\<close>

definition bootstrap_inv :: "('k \<Rightarrow> bool) \<Rightarrow> ('k \<Rightarrow> bool list) \<Rightarrow> ('k, 'm) Bootstrap \<Rightarrow> bool" where
  "bootstrap_inv valid bits b \<longleftrightarrow>
     valid (nodeKey (b_self b)) \<and> BootstrapConfig_Validate (b_cfg b) = None \<and>
     (\<forall>q. b_qry b = Some q \<longrightarrow> closest_query_inv valid bits q \<and> q_self q = b_self b \<and>
        q_id q = ''bootstrap'')"

text \<open>The events that arrive in order: a response or a failure only after a start.\<close>

fun bootstrap_event_ok ::
  "('k \<Rightarrow> bool) \<Rightarrow> ('k, 'm) Bootstrap \<Rightarrow> ('k, 'a, 'm) BootstrapEvent \<Rightarrow> bool" where
  "bootstrap_event_ok valid b EventBootstrapPoll = True"
| "bootstrap_event_ok valid b (EventBootstrapStart pid msg known) = (\<forall>n \<in> set known. valid (nodeKey n))"
| "bootstrap_event_ok valid b (EventBootstrapMessageResponse node resp) =
     (b_qry b \<noteq> None \<and> event_valid valid (EventQueryMessageResponse node resp))"
| "bootstrap_event_ok valid b (EventBootstrapMessageFailure node) =
     (b_qry b \<noteq> None \<and> valid (nodeKey node))"
| "bootstrap_event_ok valid b BootstrapEventNil = False"

text \<open>The query that an event advances: the one of a start event is new.\<close>

definition bootstrap_query ::
  "'k Key \<Rightarrow> ('k, 'm) Bootstrap \<Rightarrow> ('k, 'a, 'm) BootstrapEvent \<Rightarrow> ('k, 'm, 'k ClosestNodesIter) Query \<Rightarrow> bool" where
  "bootstrap_query K b ev q0 \<longleftrightarrow>
     (case ev of
        EventBootstrapStart pid msg known \<Rightarrow>
          NewQuery K (ClosestNodesIter_methods K) (b_self b) ''bootstrap'' pid msg
            (NewClosestNodesIter (nodeKey (b_self b))) known
            (Some (DefaultQueryConfig\<lparr>qcClock := bcClock (b_cfg b), qcConcurrency := bcRequestConcurrency (b_cfg b),
               qcRequestTimeout := bcRequestTimeout (b_cfg b)\<rparr>)) = Some (Inr q0)
      | _ \<Rightarrow> b_qry b = Some q0)"

text \<open>What the returned state says of this query, before (\<open>q0\<close>) and after (\<open>q\<close>) the step, if the query
  returned \<open>qst\<close>.\<close>

definition bootstrap_says ::
  "time \<Rightarrow> ('k, 'm) Bootstrap \<Rightarrow> ('k, 'm) QueryState \<Rightarrow> ('k, 'm) BootstrapState \<Rightarrow> bool" where
  "bootstrap_says now b qst st \<longleftrightarrow>
     (case st of
        StateBootstrapMessage qid n pid msg s \<Rightarrow>
          qst = StateQueryWaitingMessage qid s n pid msg \<and> nodeKey n \<noteq> nodeKey (b_self b)
      | StateBootstrapIdle \<Rightarrow> False
      | StateBootstrapFinished s \<Rightarrow> qst = StateQueryFinished ''bootstrap'' s
      | StateBootstrapTimeout s \<Rightarrow> bcTimeout (b_cfg b) < Since now (Start s) \<and>
          (qst = StateQueryWaitingAtCapacity ''bootstrap'' s \<or> qst = StateQueryWaitingWithCapacity ''bootstrap'' s)
      | StateBootstrapWaiting s \<Rightarrow> Since now (Start s) \<le> bcTimeout (b_cfg b) \<and>
          (qst = StateQueryWaitingAtCapacity ''bootstrap'' s \<or> qst = StateQueryWaitingWithCapacity ''bootstrap'' s))"

definition query_advanced ::
  "('k \<Rightarrow> bool list) \<Rightarrow> time \<Rightarrow> ('k, 'm, 'k ClosestNodesIter) Query \<Rightarrow> ('k, 'm, 'k ClosestNodesIter) Query \<Rightarrow>
   ('k, 'm) QueryState \<Rightarrow> bool" where
  "query_advanced bits now q0 q qst \<longleftrightarrow> q_id q0 = ''bootstrap'' \<and> query_le q0 q \<and>
     (if q_finished q0 then q = q0 \<and> qst = StateQueryFinished (q_id q0) (q_stats q0)
      else advanced (closest_refs bits) now q0 q qst)"

definition bootstrap_result ::
  "'k Key \<Rightarrow> ('k \<Rightarrow> bool list) \<Rightarrow> time \<Rightarrow> ('k, 'm) Bootstrap \<Rightarrow> ('k, 'a, 'm) BootstrapEvent \<Rightarrow> ('k, 'm) Bootstrap \<Rightarrow>
   ('k, 'm) BootstrapState \<Rightarrow> bool" where
  "bootstrap_result K bits now b ev b' st \<longleftrightarrow>
     (case b_qry b' of
        None \<Rightarrow> st = StateBootstrapIdle \<and> b_qry b = None \<and> ev = EventBootstrapPoll
      | Some q \<Rightarrow> \<exists>q0 qst. bootstrap_query K b ev q0 \<and> query_advanced bits now q0 q qst \<and>
          bootstrap_says now b qst st)"

context kad_key
begin

lemma Bootstrap_advanceQuery_law:
  assumes b: "bootstrap_inv valid bits b" and q: "b_qry b = Some q"
    and ev: "event_valid valid ev" "ev \<noteq> EventQueryCancel"
  shows "\<exists>b' st q' qst. Bootstrap_advanceQuery K now b ev = Some (b', st) \<and> bootstrap_inv valid bits b' \<and>
    b_self b' = b_self b \<and> b_cfg b' = b_cfg b \<and> b_qry b' = Some q' \<and> query_advanced bits now q q' qst \<and>
    bootstrap_says now b qst st"
proof -
  from b q have qi: "closest_query_inv valid bits q" "q_self q = b_self b" "q_id q = ''bootstrap''"
    by (simp_all add: bootstrap_inv_def)
  obtain q' st where a: "Query_Advance K (ClosestNodesIter_methods K) now q ev = Some (q', st)"
    "closest_query_inv valid bits q'" "query_le q q'"
    "\<not> q_finished q \<longrightarrow> advanced (closest_refs bits) now q q' st"
    using Advance_closest [OF qi(1) ev(1), of now] ev(2) by blast
  have fin: "q' = q \<and> st = StateQueryFinished (q_id q) (q_stats q)" if "q_finished q"
    using a(1) that by (auto simp: Query_Advance_def)
  have id: "q_self q' = b_self b" "q_id q' = ''bootstrap''" "q_cfg q' = q_cfg q"
    using a(3) qi by (simp_all add: query_le_def same_query_def)
  note D = cq.qinvD [OF a(2) [unfolded closest_query_inv_def]]
  have inv: "bootstrap_inv valid bits (b\<lparr>b_qry := Some q'\<rparr>)"
    using b a(2) id by (simp add: bootstrap_inv_def)
  have adv: "query_advanced bits now q q' st" using a(3,4) fin qi(3) by (auto simp: query_advanced_def)
  have sid: "i = ''bootstrap''"
    if "st \<in> {StateQueryFinished i s, StateQueryWaitingAtCapacity i s, StateQueryWaitingWithCapacity i s}" for i s
    using that a(4) fin qi(3) by (cases "q_finished q") (auto simp: advanced_def)
  have other: "nodeKey n \<noteq> nodeKey (b_self b)" if "st = StateQueryWaitingMessage i s n pid m" for i s n pid m
  proof -
    from that fin have nf: "\<not> q_finished q" by auto
    with a(4) that obtain r where r: "r < length (q_store q')" "n = nsNodeID (q_store q' ! r)"
      by (auto simp: advanced_def)
    then show ?thesis using D(8) [OF r(1)] id by (simp add: keyAt_def)
  qed
  obtain bst where bst: "Bootstrap_advanceQuery K now b ev = Some (b\<lparr>b_qry := Some q'\<rparr>, bst)" "bootstrap_says now b st bst"
  proof (cases st)
    case (StateQueryFinished i s)
    with a(1) q sid [of i s] that show thesis by (simp add: Bootstrap_advanceQuery_def bootstrap_says_def)
  next
    case (StateQueryWaitingMessage i s n pid m)
    with a(1) q other that show thesis by (simp add: Bootstrap_advanceQuery_def bootstrap_says_def)
  next
    case (StateQueryWaitingAtCapacity i s)
    with a(1) q sid [of i s] that show thesis
      by (cases "bcTimeout (b_cfg b) < Since now (Start s)")
        (simp_all add: Bootstrap_advanceQuery_def bootstrap_says_def Let_def not_less)
  next
    case (StateQueryWaitingWithCapacity i s)
    with a(1) q sid [of i s] that show thesis
      by (cases "bcTimeout (b_cfg b) < Since now (Start s)")
        (simp_all add: Bootstrap_advanceQuery_def bootstrap_says_def Let_def not_less)
  qed
  with inv adv show ?thesis
    by (intro exI [of _ "b\<lparr>b_qry := Some q'\<rparr>"] exI [of _ bst] exI [of _ q'] exI [of _ st]) simp
qed

lemma Bootstrap_start_law:
  assumes b: "bootstrap_inv valid bits b" and known: "\<forall>n \<in> set known. valid (nodeKey n)"
  shows "\<exists>q. NewQuery K (ClosestNodesIter_methods K) (b_self b) ''bootstrap'' pid msg
      (NewClosestNodesIter (nodeKey (b_self b))) known
      (Some (DefaultQueryConfig\<lparr>qcClock := bcClock (b_cfg b),
         qcConcurrency := bcRequestConcurrency (b_cfg b),
         qcRequestTimeout := bcRequestTimeout (b_cfg b)\<rparr>)) = Some (Inr q) \<and>
    bootstrap_inv valid bits (b\<lparr>b_qry := Some q\<rparr>)"
proof -
  let ?cfg = "DefaultQueryConfig\<lparr>qcClock := bcClock (b_cfg b),
    qcConcurrency := bcRequestConcurrency (b_cfg b), qcRequestTimeout := bcRequestTimeout (b_cfg b)\<rparr>"
  from b have v: "valid (nodeKey (b_self b))" and c: "BootstrapConfig_Validate (b_cfg b) = None"
    by (simp_all add: bootstrap_inv_def)
  have cfg: "QueryConfig_Validate ?cfg = None"
    using c by (auto simp: QueryConfig_Validate_def BootstrapConfig_Validate_def
        DefaultQueryConfig_def split: if_splits)
  have inv: "closest_inv valid bits [] (NewClosestNodesIter (nodeKey (b_self b)))"
    "closest_refs bits (NewClosestNodesIter (nodeKey (b_self b))) = []"
    using v by (simp_all add: closest_inv_def NewClosestNodesIter_def closest_refs_def by_distance_def New_def)
  show ?thesis
    using cq.NewQuery_law [OF inv v known, of "Some ?cfg" "''bootstrap''" pid msg] cfg b
    by (auto simp: closest_query_inv_def bootstrap_inv_def)
qed

lemma Bootstrap_Advance_law:
  assumes b: "bootstrap_inv valid bits b" and ev: "bootstrap_event_ok valid b ev"
  shows "\<exists>b' st. Bootstrap_Advance K now b ev = Some (b', st) \<and> bootstrap_inv valid bits b' \<and>
    b_self b' = b_self b \<and> b_cfg b' = b_cfg b \<and> bootstrap_result K bits now b ev b' st"
proof -
  have step: "\<exists>b' st. Bootstrap_advanceQuery K now b qev = Some (b', st) \<and> bootstrap_inv valid bits b' \<and>
      b_self b' = b_self b \<and> b_cfg b' = b_cfg b \<and> bootstrap_result K bits now b ev b' st"
    if h: "b_qry b = Some q0" "event_valid valid qev" "qev \<noteq> EventQueryCancel" "bootstrap_query K b ev q0"
    for q0 and qev :: "('k, 'c) QueryEvent"
  proof -
    obtain b' st q' qst where "Bootstrap_advanceQuery K now b qev = Some (b', st)" "bootstrap_inv valid bits b'"
      "b_self b' = b_self b" "b_cfg b' = b_cfg b" "b_qry b' = Some q'"
      "query_advanced bits now q0 q' qst" "bootstrap_says now b qst st"
      using Bootstrap_advanceQuery_law [OF b h(1-3), of now] by blast
    moreover from this h(4) have "bootstrap_result K bits now b ev b' st"
      unfolding bootstrap_result_def by (simp only: option.case) blast
    ultimately show ?thesis by blast
  qed
  show ?thesis
  proof (cases ev)
    case EventBootstrapPoll
    then show ?thesis using b step [of _ "QueryEventNil :: ('k, 'b) QueryEvent"]
      by (cases "b_qry b") (auto simp: Bootstrap_Advance_def bootstrap_result_def bootstrap_query_def)
  next
    case (EventBootstrapStart pid msg known)
    then have known: "\<forall>n \<in> set known. valid (nodeKey n)" using ev by simp
    from Bootstrap_start_law [OF b known, of pid msg] obtain q where
      q: "NewQuery K (ClosestNodesIter_methods K) (b_self b) ''bootstrap'' pid msg
        (NewClosestNodesIter (nodeKey (b_self b))) known
        (Some (DefaultQueryConfig\<lparr>qcClock := bcClock (b_cfg b),
           qcConcurrency := bcRequestConcurrency (b_cfg b),
           qcRequestTimeout := bcRequestTimeout (b_cfg b)\<rparr>)) = Some (Inr q)"
      "bootstrap_inv valid bits (b\<lparr>b_qry := Some q\<rparr>)" by blast
    obtain b' st q' qst where 1: "Bootstrap_advanceQuery K now (b\<lparr>b_qry := Some q\<rparr>) (QueryEventNil :: ('k, 'b) QueryEvent) =
        Some (b', st)" "bootstrap_inv valid bits b'" "b_self b' = b_self b" "b_cfg b' = b_cfg b" "b_qry b' = Some q'"
      "query_advanced bits now q q' qst" "bootstrap_says now (b\<lparr>b_qry := Some q\<rparr>) qst st"
      using Bootstrap_advanceQuery_law [OF q(2), of q "QueryEventNil :: ('k, 'b) QueryEvent" now] by auto
    have "bootstrap_query K b ev q" using q(1) EventBootstrapStart by (simp add: bootstrap_query_def)
    moreover have "bootstrap_says now b qst st"
      using 1(7) by (cases st) (simp_all add: bootstrap_says_def)
    ultimately have "bootstrap_result K bits now b ev b' st"
      using 1(5,6) unfolding bootstrap_result_def by (simp only: option.case) blast
    with EventBootstrapStart q(1) 1 show ?thesis by (simp add: Bootstrap_Advance_def Let_def)
  next
    case (EventBootstrapMessageResponse node resp)
    with ev obtain q where "b_qry b = Some q" by auto
    with EventBootstrapMessageResponse ev step [of q "EventQueryMessageResponse node resp"] show ?thesis
      by (auto simp: Bootstrap_Advance_def bootstrap_query_def)
  next
    case (EventBootstrapMessageFailure node)
    with ev obtain q where "b_qry b = Some q" by auto
    with EventBootstrapMessageFailure ev step [of q "EventQueryMessageFailure node :: ('k, 'b) QueryEvent"] show ?thesis
      by (auto simp: Bootstrap_Advance_def bootstrap_query_def)
  qed (use ev in simp)
qed

end

section \<open>Properties\<close>

text \<open>C25: A bootstrap that gets its events in order (responses and failures only after a start)
  never panics; the configuration that it builds for its query is always accepted. The state
  it returns says what the advance of its query returned, and the query is the new one of a start
  event or the one of before: idle exactly on a poll without a query; a message with the protocol and
  the message of the query, to its first node not contacted before, never the node itself; finished
  exactly when the query is. While the query waits for responses the state is a timeout or a wait,
  as more time than \<open>Timeout\<close> has passed since the start of the query or not, whatever progress it
  makes; a query that timed out goes on.\<close>

theorem bootstrap_advance_result:
  assumes "kad_key K valid len bits"
    and "bootstrap_inv valid bits b" and "bootstrap_event_ok valid b ev"
  shows "\<exists>b' st. Bootstrap_Advance K now b ev = Some (b', st) \<and> bootstrap_inv valid bits b' \<and>
    b_self b' = b_self b \<and> b_cfg b' = b_cfg b \<and> bootstrap_result K bits now b ev b' st"
  by (rule kad_key.Bootstrap_Advance_law [OF assms])

definition bootstrap8 :: "(key8, unit) Bootstrap" where
  "bootstrap8 = \<lparr>b_self = node8 0, b_qry = None, b_cfg = DefaultBootstrapConfig\<rparr>"

lemma bootstrap8_new: "NewBootstrap (node8 0) None = Inr bootstrap8"
  by (simp add: NewBootstrap_def bootstrap8_def)

lemma bootstrap8_inv: "bootstrap_inv (\<lambda>_. True) word_bits bootstrap8"
  by (simp add: bootstrap_inv_def bootstrap8_def DefaultBootstrapConfig_def
      BootstrapConfig_Validate_def Minute_def Second_def)

theorem bootstrap_advance_result_witness:
  "\<exists>b' st. Bootstrap_Advance Key8 7 bootstrap8
      (EventBootstrapStart ''p'' () [node8 1] :: (key8, unit, unit) BootstrapEvent) = Some (b', st) \<and>
    bootstrap_inv (\<lambda>_. True) word_bits b' \<and> b_self b' = b_self bootstrap8 \<and>
    b_cfg b' = b_cfg bootstrap8 \<and>
    bootstrap_result Key8 word_bits 7 bootstrap8 (EventBootstrapStart ''p'' () [node8 1] :: (key8, unit, unit) BootstrapEvent) b' st"
  by (rule bootstrap_advance_result [OF key8.kad_key_axioms bootstrap8_inv]) simp

text \<open>A response or a failure that reaches a bootstrap before any start is a nil dereference.\<close>

theorem bootstrap_panics_before_start:
  assumes "b_qry b = None"
  shows "Bootstrap_Advance K now b (EventBootstrapMessageResponse node resp) = None \<and>
    Bootstrap_Advance K now b (EventBootstrapMessageFailure node :: ('k, 'a, 'm) BootstrapEvent) = None"
  using assms by (simp add: Bootstrap_Advance_def Bootstrap_advanceQuery_def)

theorem bootstrap_panics_before_start_witness:
  "Bootstrap_Advance Key8 7 bootstrap8
     (EventBootstrapMessageResponse (node8 1) None :: (key8, unit, unit) BootstrapEvent) = None \<and>
   Bootstrap_Advance Key8 7 bootstrap8
     (EventBootstrapMessageFailure (node8 1) :: (key8, unit, unit) BootstrapEvent) = None"
  by (rule bootstrap_panics_before_start) (simp add: bootstrap8_def)

end
