(* ===== verification/SimpleRT.thy ===== *)
theory SimpleRT
  imports TrieRT
begin

text \<open>
  The routing table of \<open>routing/simplert\<close>: a list of buckets. Bucket \<open>i\<close> holds the nodes whose
  common prefix with the local key has length \<open>i\<close>, the last bucket all longer prefixes too; a full
  last bucket is split. The mutex makes every operation one step.
\<close>

section \<open>The table\<close>

record 'k peerInfo =
  peer_id :: "'k NodeID"
  peer_kadId :: 'k

record 'k SimpleRT =
  srt_self :: 'k
  bucketSize :: int
  buckets :: "'k peerInfo list list"

definition SimpleRT_New :: "'k NodeID \<Rightarrow> int \<Rightarrow> 'k SimpleRT" where
  "SimpleRT_New self bsize =
     \<lparr>srt_self = nodeKey self, bucketSize = bsize, buckets = [[]]\<rparr>"

definition SimpleRT_KeySize :: "'k Key \<Rightarrow> 'k SimpleRT \<Rightarrow> int" where
  "SimpleRT_KeySize K rt = BitLen K (srt_self rt) * 8"

definition bucketIdForKey :: "'k Key \<Rightarrow> 'k SimpleRT \<Rightarrow> 'k \<Rightarrow> int" where
  "bucketIdForKey K rt kadId =
     (let bid = CommonPrefixLength K (srt_self rt) kadId;
          nBuckets = int (length (buckets rt))
      in if bid \<ge> nBuckets then nBuckets - 1 else bid)"

text \<open>\<open>rt.buckets[i]\<close>, with Go's bounds check.\<close>

definition bucketAt :: "'k SimpleRT \<Rightarrow> int \<Rightarrow> 'k peerInfo list option" where
  "bucketAt rt i =
     (if 0 \<le> i \<and> i < int (length (buckets rt)) then Some (buckets rt ! nat i) else None)"

definition setBucket :: "'k SimpleRT \<Rightarrow> int \<Rightarrow> 'k peerInfo list \<Rightarrow> 'k SimpleRT" where
  "setBucket rt i b = rt\<lparr>buckets := (buckets rt)[nat i := b]\<rparr>"

definition SizeOfBucket :: "'k SimpleRT \<Rightarrow> int \<Rightarrow> int option" where
  "SizeOfBucket rt bucketId = do { b \<leftarrow> bucketAt rt bucketId; Some (int (length b)) }"

text \<open>The range loop over a bucket that stops at the first peer with the given key.\<close>

fun findPeer :: "'k Key \<Rightarrow> 'k \<Rightarrow> 'k peerInfo list \<Rightarrow> nat option option" where
  "findPeer K kadId [] = Some None"
| "findPeer K kadId (p # ps) = do {
     eq \<leftarrow> Equal K kadId (peer_kadId p);
     if eq then Some (Some 0)
     else do { r \<leftarrow> findPeer K kadId ps; Some (map_option Suc r) }
   }"

definition alreadyInBucket :: "'k Key \<Rightarrow> 'k SimpleRT \<Rightarrow> 'k \<Rightarrow> int \<Rightarrow> bool option" where
  "alreadyInBucket K rt kadId bucketId = do {
     b \<leftarrow> bucketAt rt bucketId;
     r \<leftarrow> findPeer K kadId b;
     Some (r \<noteq> None)
   }"

text \<open>
  The loop that splits the last bucket while it is full. The boolean is \<open>False\<close> when the code
  returns from inside the loop.
\<close>

partial_function (option) splitLoop ::
  "'k Key \<Rightarrow> 'k SimpleRT \<Rightarrow> 'k \<Rightarrow> int \<Rightarrow> ('k SimpleRT \<times> bool) option" where
  "splitLoop K rt kadId lastBucketId = do {
     b \<leftarrow> bucketAt rt lastBucketId;
     if int (length b) = bucketSize rt then do {
       let farBucket =
         filter (\<lambda>p. CommonPrefixLength K (peer_kadId p) (srt_self rt) = lastBucketId) b;
       let closeBucket =
         filter (\<lambda>p. CommonPrefixLength K (peer_kadId p) (srt_self rt) \<noteq> lastBucketId) b;
       if int (length farBucket) = bucketSize rt \<and>
          CommonPrefixLength K (srt_self rt) kadId = lastBucketId
       then Some (rt, False)
       else (let rt1 = setBucket rt lastBucketId farBucket in
             splitLoop K (rt1\<lparr>buckets := buckets rt1 @ [closeBucket]\<rparr>) kadId (lastBucketId + 1))
     } else Some (rt, True)
   }"

definition addPeer ::
  "'k Key \<Rightarrow> 'k SimpleRT \<Rightarrow> 'k \<Rightarrow> 'k NodeID \<Rightarrow> ('k SimpleRT \<times> bool) option" where
  "addPeer K rt kadId nid = do {
     let bid = bucketIdForKey K rt kadId;
     let lastBucketId = int (length (buckets rt)) - 1;
     present \<leftarrow> alreadyInBucket K rt kadId bid;
     if present then Some (rt, False)
     else if bid < lastBucketId then do {
       b \<leftarrow> bucketAt rt bid;
       if int (length b) \<ge> bucketSize rt then Some (rt, False)
       else Some (setBucket rt bid (b @ [\<lparr>peer_id = nid, peer_kadId = kadId\<rparr>]), True)
     }
     else do {
       lb \<leftarrow> bucketAt rt lastBucketId;
       if int (length lb) < bucketSize rt
       then Some (setBucket rt lastBucketId (lb @ [\<lparr>peer_id = nid, peer_kadId = kadId\<rparr>]), True)
       else do {
         (rt', goOn) \<leftarrow> splitLoop K rt kadId lastBucketId;
         if \<not> goOn then Some (rt', False)
         else do {
           let newBid = bucketIdForKey K rt' kadId;
           nb \<leftarrow> bucketAt rt' newBid;
           Some (setBucket rt' newBid (nb @ [\<lparr>peer_id = nid, peer_kadId = kadId\<rparr>]), True)
         }
       }
     }
   }"

definition SimpleRT_AddNode ::
  "'k Key \<Rightarrow> 'k SimpleRT \<Rightarrow> 'k NodeID \<Rightarrow> ('k SimpleRT \<times> bool) option" where
  "SimpleRT_AddNode K rt nid = addPeer K rt (nodeKey nid) nid"

text \<open>The last peer of the bucket takes the place of the one removed.\<close>

definition SimpleRT_RemoveKey ::
  "'k Key \<Rightarrow> 'k SimpleRT \<Rightarrow> 'k \<Rightarrow> ('k SimpleRT \<times> bool) option" where
  "SimpleRT_RemoveKey K rt kadId = do {
     let bid = bucketIdForKey K rt kadId;
     b \<leftarrow> bucketAt rt bid;
     r \<leftarrow> findPeer K kadId b;
     case r of
       None \<Rightarrow> Some (rt, False)
     | Some i \<Rightarrow>
         let b1 = b[i := b ! (length b - 1)] in
         Some (setBucket rt bid (take (length b1 - 1) b1), True)
   }"

definition SimpleRT_GetNode :: "'k Key \<Rightarrow> 'k SimpleRT \<Rightarrow> 'k \<Rightarrow> 'k NodeID option option" where
  "SimpleRT_GetNode K rt kadId = do {
     let bid = bucketIdForKey K rt kadId;
     b \<leftarrow> bucketAt rt bid;
     r \<leftarrow> findPeer K kadId b;
     Some (map_option (\<lambda>i. peer_id (b ! i)) r)
   }"

text \<open>\<open>sort.SliceStable\<close> with a comparison that may panic, by insertion.\<close>

fun insertStable :: "('a \<Rightarrow> 'a \<Rightarrow> bool option) \<Rightarrow> 'a \<Rightarrow> 'a list \<Rightarrow> 'a list option" where
  "insertStable lt x [] = Some [x]"
| "insertStable lt x (y # ys) = do {
     b \<leftarrow> lt y x;
     if b then do { zs \<leftarrow> insertStable lt x ys; Some (y # zs) } else Some (x # y # ys)
   }"

fun sliceStable :: "('a \<Rightarrow> 'a \<Rightarrow> bool option) \<Rightarrow> 'a list \<Rightarrow> 'a list option" where
  "sliceStable lt [] = Some []"
| "sliceStable lt (x # xs) = do { ys \<leftarrow> sliceStable lt xs; insertStable lt x ys }"

definition closerPeer ::
  "'k Key \<Rightarrow> 'k \<Rightarrow> 'k peerInfo \<Rightarrow> 'k peerInfo \<Rightarrow> bool option" where
  "closerPeer K kadId p q = do {
     let distI = Xor K (peer_kadId p) kadId;
     let distJ = Xor K (peer_kadId q) kadId;
     cmp \<leftarrow> Compare K distI distJ;
     Some (if cmp \<noteq> 0 then cmp < 0 else False)
   }"

fun notSelf :: "'k Key \<Rightarrow> 'k \<Rightarrow> 'k peerInfo list \<Rightarrow> 'k peerInfo list option" where
  "notSelf K self [] = Some []"
| "notSelf K self (p # ps) = do {
     eq \<leftarrow> Equal K self (peer_kadId p);
     rest \<leftarrow> notSelf K self ps;
     Some (if \<not> eq then p # rest else rest)
   }"

text \<open>\<open>make\<close> panics for a negative length.\<close>

definition SimpleRT_NearestNodes ::
  "'k Key \<Rightarrow> 'k SimpleRT \<Rightarrow> 'k \<Rightarrow> int \<Rightarrow> 'k NodeID list option" where
  "SimpleRT_NearestNodes K rt kadId n = do {
     let bid = bucketIdForKey K rt kadId;
     b \<leftarrow> bucketAt rt bid;
     peers \<leftarrow> (if int (length b) = n then Some b else notSelf K (srt_self rt) (concat (buckets rt)));
     sorted \<leftarrow> sliceStable (closerPeer K kadId) peers;
     let m = min n (int (length sorted));
     if m < 0 then None else Some (map peer_id (take (nat m) sorted))
   }"

definition SimpleRT_Cpl :: "'k Key \<Rightarrow> 'k SimpleRT \<Rightarrow> 'k \<Rightarrow> int" where
  "SimpleRT_Cpl K rt kk = CommonPrefixLength K (srt_self rt) kk"

definition SimpleRT_CplSize :: "'k SimpleRT \<Rightarrow> int \<Rightarrow> int option" where
  "SimpleRT_CplSize rt cpl = do {
     let nBuckets = int (length (buckets rt));
     let bid = (if cpl \<ge> nBuckets then nBuckets - 1 else cpl);
     b \<leftarrow> bucketAt rt bid;
     Some (int (length b))
   }"

definition SimpleRT_methods :: "'k Key \<Rightarrow> ('k, 'k SimpleRT) RoutingTableCpl" where
  "SimpleRT_methods K = \<lparr>AddNode = SimpleRT_AddNode K, RemoveKey = SimpleRT_RemoveKey K,
     NearestNodes = SimpleRT_NearestNodes K, GetNode = SimpleRT_GetNode K,
     Cpl = SimpleRT_Cpl K, CplSize = SimpleRT_CplSize\<rparr>"

section \<open>Invariant and contents\<close>

definition all_peers :: "'k SimpleRT \<Rightarrow> 'k peerInfo list" where
  "all_peers rt = concat (buckets rt)"

definition bucket_of :: "('k \<Rightarrow> bool list) \<Rightarrow> 'k SimpleRT \<Rightarrow> 'k \<Rightarrow> nat" where
  "bucket_of bits rt k =
     min (cpl_bits (bits (srt_self rt)) (bits k)) (length (buckets rt) - 1)"

definition peers_ok :: "('k \<Rightarrow> bool) \<Rightarrow> 'k peerInfo list \<Rightarrow> bool" where
  "peers_ok valid ps \<longleftrightarrow>
     (\<forall>p \<in> set ps. valid (peer_kadId p) \<and> nodeKey (peer_id p) = peer_kadId p) \<and>
     distinct (map peer_kadId ps)"

definition simple_rt_inv :: "('k \<Rightarrow> bool) \<Rightarrow> ('k \<Rightarrow> bool list) \<Rightarrow> 'k SimpleRT \<Rightarrow> bool" where
  "simple_rt_inv valid bits rt \<longleftrightarrow>
     valid (srt_self rt) \<and> 0 \<le> bucketSize rt \<and> buckets rt \<noteq> [] \<and>
     peers_ok valid (all_peers rt) \<and>
     (\<forall>i < length (buckets rt). int (length (buckets rt ! i)) \<le> bucketSize rt \<and>
        (\<forall>p \<in> set (buckets rt ! i). bucket_of bits rt (peer_kadId p) = i))"

definition simple_rt_contents :: "'k SimpleRT \<Rightarrow> 'k \<rightharpoonup> 'k NodeID" where
  "simple_rt_contents rt = map_of (map (\<lambda>p. (peer_kadId p, peer_id p)) (all_peers rt))"

text \<open>How many nodes of the table share exactly \<open>c\<close> leading bits with the local key.\<close>

definition cpl_count :: "('k \<Rightarrow> bool list) \<Rightarrow> 'k SimpleRT \<Rightarrow> nat \<Rightarrow> nat" where
  "cpl_count bits rt c = card {k \<in> dom (simple_rt_contents rt).
     cpl_bits (bits (srt_self rt)) (bits k) = c}"


section \<open>Correctness\<close>

lemma mset_concat_update:
  "i < length bs \<Longrightarrow> mset (concat (bs[i := b])) + mset (bs ! i) = mset (concat bs) + mset b"
proof (induction bs arbitrary: i)
  case (Cons x bs)
  then show ?case by (cases i) (auto simp: ac_simps union_assoc)
qed simp

lemma mset_concat_split:
  assumes "i < length bs"
  shows "mset (concat (bs[i := filter P (bs ! i)])) + mset (filter (\<lambda>x. \<not> P x) (bs ! i)) =
    mset (concat bs)"
proof -
  let ?A = "mset (concat (bs[i := filter P (bs ! i)]))" and ?F = "mset (filter P (bs ! i))"
    and ?G = "mset (filter (\<lambda>x. \<not> P x) (bs ! i))"
  have "mset (bs ! i) = ?F + ?G" unfolding mset_filter by (rule multiset_partition)
  with mset_concat_update [OF assms, of "filter P (bs ! i)"]
  have "?A + (?F + ?G) = mset (concat bs) + ?F" by (simp only:)
  then have "?F + (?A + ?G) = ?F + mset (concat bs)" by (simp only: ac_simps)
  then show ?thesis by (simp only: add_left_cancel)
qed

lemma peers_ok_mset:
  assumes "mset xs = mset ys"
  shows "peers_ok valid xs = peers_ok valid ys"
proof -
  have "set xs = set ys" using assms by (metis set_mset_mset)
  moreover have "distinct (map peer_kadId xs) = distinct (map peer_kadId ys)"
    using assms by (intro mset_eq_imp_distinct_iff) simp
  ultimately show ?thesis by (simp add: peers_ok_def)
qed

lemma contents_mset:
  assumes "mset (all_peers rt) = mset ps" "peers_ok valid ps"
  shows "simple_rt_contents rt = map_of (map (\<lambda>p. (peer_kadId p, peer_id p)) ps)"
proof -
  have "set (all_peers rt) = set ps" using assms(1) by (metis set_mset_mset)
  moreover have "peers_ok valid (all_peers rt)" using assms peers_ok_mset by blast
  ultimately show ?thesis
    unfolding simple_rt_contents_def using assms(2)
    by (intro map_of_mset_eq) (auto simp: peers_ok_def comp_def)
qed

lemma dom_simple_rt_contents:
  "dom (simple_rt_contents rt) = peer_kadId ` set (all_peers rt)"
  by (auto simp: simple_rt_contents_def dom_map_of_conv_image_fst image_image)

lemma bucketAt_nat [simp]:
  "i < length (buckets rt) \<Longrightarrow> bucketAt rt (int i) = Some (buckets rt ! i)"
  by (simp add: bucketAt_def)

lemma setBucket_simps [simp]:
  "srt_self (setBucket rt i b) = srt_self rt" "bucketSize (setBucket rt i b) = bucketSize rt"
  "buckets (setBucket rt (int j) b) = (buckets rt)[j := b]"
  "bucket_of bits (setBucket rt i b) = bucket_of bits rt"
  by (simp_all add: setBucket_def bucket_of_def fun_eq_iff)

lemma bucket_of_less: "buckets rt \<noteq> [] \<Longrightarrow> bucket_of bits rt k < length (buckets rt)"
  by (cases "buckets rt") (auto simp: bucket_of_def)

context kad_key
begin

abbreviation srt_inv :: "'k SimpleRT \<Rightarrow> bool" where
  "srt_inv \<equiv> simple_rt_inv valid bits"

lemma srt_invD:
  assumes "srt_inv rt"
  shows "valid (srt_self rt)" "0 \<le> bucketSize rt" "buckets rt \<noteq> []"
    "peers_ok valid (all_peers rt)"
    "i < length (buckets rt) \<Longrightarrow> int (length (buckets rt ! i)) \<le> bucketSize rt"
    "i < length (buckets rt) \<Longrightarrow> p \<in> set (buckets rt ! i) \<Longrightarrow> bucket_of bits rt (peer_kadId p) = i"
  using assms by (auto simp: simple_rt_inv_def)

lemma bucketIdForKey_law:
  assumes "valid (srt_self rt)" "buckets rt \<noteq> []" "valid k"
  shows "bucketIdForKey K rt k = int (bucket_of bits rt k)"
  using assms by (cases "buckets rt") (auto simp: bucketIdForKey_def bucket_of_def key_laws min_def)

lemma findPeer_law:
  assumes "valid k" "\<forall>p \<in> set ps. valid (peer_kadId p)"
  obtains "findPeer K k ps = Some None" "k \<notin> peer_kadId ` set ps"
  | i where "findPeer K k ps = Some (Some i)" "i < length ps" "peer_kadId (ps ! i) = k"
  using assms(2)
proof (induction ps arbitrary: thesis)
  case Nil
  then show ?case by simp
next
  case (Cons p ps)
  show ?case
  proof (cases "k = peer_kadId p")
    case True
    then show ?thesis using Cons.prems(2) [of 0] Cons.prems(3) assms(1) by (simp add: key_laws)
  next
    case False
    show ?thesis
    proof (rule Cons.IH)
      assume "findPeer K k ps = Some None" "k \<notin> peer_kadId ` set ps"
      then show ?thesis using Cons.prems(1,3) False assms(1) by (simp add: key_laws)
    next
      fix i assume "findPeer K k ps = Some (Some i)" "i < length ps" "peer_kadId (ps ! i) = k"
      then show ?thesis using Cons.prems(2) [of "Suc i"] Cons.prems(3) False assms(1)
        by (simp add: key_laws)
    qed (use Cons.prems(3) in simp)
  qed
qed

lemma peer_bucket:
  assumes inv: "srt_inv rt" and p: "p \<in> set (all_peers rt)"
  shows "p \<in> set (buckets rt ! bucket_of bits rt (peer_kadId p))"
proof -
  from p obtain b where "b \<in> set (buckets rt)" "p \<in> set b" by (auto simp: all_peers_def)
  then obtain i where "i < length (buckets rt)" "p \<in> set (buckets rt ! i)"
    by (auto simp: in_set_conv_nth [of b])
  with srt_invD(6) [OF inv] show ?thesis by simp
qed

lemma bucket_peers:
  assumes "srt_inv rt" "i < length (buckets rt)" "p \<in> set (buckets rt ! i)"
  shows "p \<in> set (all_peers rt)" "valid (peer_kadId p)"
proof -
  show "p \<in> set (all_peers rt)" using assms(2,3) by (auto simp: all_peers_def)
  then show "valid (peer_kadId p)" using srt_invD(4) [OF assms(1)] by (auto simp: peers_ok_def)
qed

text \<open>The bucket of a key decides whether the table has it.\<close>

lemma lookup_cases:
  assumes inv: "srt_inv rt" and k: "valid k"
  defines "b \<equiv> buckets rt ! bucket_of bits rt k"
  obtains "findPeer K k b = Some None" "simple_rt_contents rt k = None"
  | i where "findPeer K k b = Some (Some i)" "i < length b" "peer_kadId (b ! i) = k"
    "simple_rt_contents rt k = Some (peer_id (b ! i))"
proof -
  have lt: "bucket_of bits rt k < length (buckets rt)"
    using srt_invD(3) [OF inv] by (rule bucket_of_less)
  have "\<forall>p \<in> set b. valid (peer_kadId p)" using bucket_peers [OF inv lt] by (simp add: b_def)
  then show ?thesis
  proof (rule findPeer_law [OF k])
    assume 1: "findPeer K k b = Some None" "k \<notin> peer_kadId ` set b"
    then have "k \<notin> dom (simple_rt_contents rt)"
      unfolding dom_simple_rt_contents using peer_bucket [OF inv] by (auto simp: b_def)
    with 1 that(1) show ?thesis by blast
  next
    fix i assume 2: "findPeer K k b = Some (Some i)" "i < length b" "peer_kadId (b ! i) = k"
    then have "b ! i \<in> set (all_peers rt)" using bucket_peers [OF inv lt] by (simp add: b_def)
    then have "simple_rt_contents rt k = Some (peer_id (b ! i))"
      unfolding simple_rt_contents_def using 2 srt_invD(4) [OF inv]
      by (intro map_of_is_SomeI) (auto simp: peers_ok_def comp_def image_iff intro!: bexI [of _ "b ! i"])
    with 2 that(2) show ?thesis by blast
  qed
qed

lemma at_bucket_of:
  assumes "srt_inv rt" "valid k"
  shows "bucketIdForKey K rt k = int (bucket_of bits rt k)"
    "bucket_of bits rt k < length (buckets rt)"
  using srt_invD [OF assms(1)] assms(2) bucketIdForKey_law bucket_of_less by auto

lemma SimpleRT_GetNode_law:
  assumes "srt_inv rt" "valid k"
  shows "SimpleRT_GetNode K rt k = Some (simple_rt_contents rt k)"
  using lookup_cases [OF assms] by (cases rule: lookup_cases [OF assms])
    (simp_all add: SimpleRT_GetNode_def at_bucket_of [OF assms])

lemma alreadyInBucket_law:
  assumes "srt_inv rt" "valid k"
  shows "alreadyInBucket K rt k (int (bucket_of bits rt k)) =
    Some (k \<in> dom (simple_rt_contents rt))"
  by (cases rule: lookup_cases [OF assms])
    (auto simp: alreadyInBucket_def at_bucket_of [OF assms])

text \<open>Replacing a bucket.\<close>

lemma srt_inv_setBucket:
  assumes inv: "srt_inv rt" and i: "i < length (buckets rt)"
    and peers: "peers_ok valid (all_peers (setBucket rt (int i) b))"
    and len: "int (length b) \<le> bucketSize rt"
    and at: "\<forall>p \<in> set b. bucket_of bits rt (peer_kadId p) = i"
  shows "srt_inv (setBucket rt (int i) b)"
  unfolding simple_rt_inv_def
proof (intro conjI allI impI ballI)
  fix j p
  assume j: "j < length (buckets (setBucket rt (int i) b))"
  then show "int (length (buckets (setBucket rt (int i) b) ! j)) \<le> bucketSize (setBucket rt (int i) b)"
    using srt_invD(5) [OF inv, of j] len i by (cases "j = i") simp_all
  assume "p \<in> set (buckets (setBucket rt (int i) b) ! j)"
  with j show "bucket_of bits (setBucket rt (int i) b) (peer_kadId p) = j"
    using srt_invD(6) [OF inv, of j p] at i by (cases "j = i") simp_all
qed (use srt_invD [OF inv] peers in auto)

lemma mset_setBucket:
  "i < length (buckets rt) \<Longrightarrow>
   mset (all_peers (setBucket rt (int i) b)) + mset (buckets rt ! i) = mset (all_peers rt) + mset b"
  by (simp add: all_peers_def mset_concat_update)

lemma append_peer:
  assumes inv: "srt_inv rt" and k: "valid (nodeKey n)" "nodeKey n \<notin> dom (simple_rt_contents rt)"
    and room: "int (length (buckets rt ! bucket_of bits rt (nodeKey n))) < bucketSize rt"
  defines "rt' \<equiv> setBucket rt (int (bucket_of bits rt (nodeKey n)))
    (buckets rt ! bucket_of bits rt (nodeKey n) @ [\<lparr>peer_id = n, peer_kadId = nodeKey n\<rparr>])"
  shows "srt_inv rt'" "simple_rt_contents rt' = (simple_rt_contents rt)(nodeKey n \<mapsto> n)"
proof -
  let ?p = "\<lparr>peer_id = n, peer_kadId = nodeKey n\<rparr>"
  note lt = at_bucket_of(2) [OF inv k(1)]
  have m: "mset (all_peers rt') = mset (?p # all_peers rt)"
    using mset_setBucket [OF lt, of "buckets rt ! bucket_of bits rt (nodeKey n) @ [?p]"]
    by (simp add: rt'_def)
  have ok: "peers_ok valid (?p # all_peers rt)"
    using srt_invD(4) [OF inv] k unfolding dom_simple_rt_contents by (auto simp: peers_ok_def)
  show "srt_inv rt'"
    unfolding rt'_def
  proof (rule srt_inv_setBucket [OF inv lt])
    show "peers_ok valid (all_peers (setBucket rt (int (bucket_of bits rt (nodeKey n)))
      (buckets rt ! bucket_of bits rt (nodeKey n) @ [?p])))"
      using ok peers_ok_mset [OF m] by (simp add: rt'_def)
  qed (use room srt_invD(6) [OF inv lt] in auto)
  show "simple_rt_contents rt' = (simple_rt_contents rt)(nodeKey n \<mapsto> n)"
    using contents_mset [OF m ok] by (simp add: simple_rt_contents_def)
qed

lemma filter_concat_one:
  assumes "i < length bs" "\<And>j x. j < length bs \<Longrightarrow> j \<noteq> i \<Longrightarrow> x \<in> set (bs ! j) \<Longrightarrow> \<not> P x"
  shows "filter P (concat bs) = filter P (bs ! i)"
  using assms
proof (induction bs arbitrary: i)
  case (Cons b bs)
  show ?case
  proof (cases i)
    case 0
    have "\<not> P x" if "x \<in> set (concat bs)" for x
    proof -
      from that obtain c where "c \<in> set bs" "x \<in> set c" by auto
      then obtain j where "j < length bs" "x \<in> set (bs ! j)" by (auto simp: in_set_conv_nth [of c])
      with Cons.prems(2) [of "Suc j" x] 0 show ?thesis by simp
    qed
    then have "filter P (concat bs) = []" by (simp add: filter_empty_conv)
    with 0 show ?thesis by simp
  next
    case (Suc j)
    have "filter P b = []" using Cons.prems(2) [of 0] Suc by (auto simp: filter_empty_conv)
    moreover have "filter P (concat bs) = filter P (bs ! j)"
      using Cons.prems(1) Cons.prems(2) [of "Suc _"] Suc by (intro Cons.IH) auto
    ultimately show ?thesis using Suc by simp
  qed
qed simp

lemma cpl_count_bucket:
  assumes inv: "srt_inv rt" and k: "valid k"
  shows "cpl_count bits rt (cpl_bits (bits (srt_self rt)) (bits k)) =
    length (filter (\<lambda>p. cpl_bits (bits (srt_self rt)) (bits (peer_kadId p)) =
        cpl_bits (bits (srt_self rt)) (bits k)) (buckets rt ! bucket_of bits rt k))"
proof -
  let ?c = "\<lambda>k. cpl_bits (bits (srt_self rt)) (bits k)"
  let ?P = "\<lambda>p. ?c (peer_kadId p) = ?c k"
  have "{x \<in> dom (simple_rt_contents rt). ?c x = ?c k} =
      set (map peer_kadId (filter ?P (all_peers rt)))"
    unfolding dom_simple_rt_contents by auto
  moreover have "distinct (map peer_kadId (filter ?P (all_peers rt)))"
    using srt_invD(4) [OF inv] by (simp add: peers_ok_def distinct_map_filter)
  ultimately have "cpl_count bits rt (?c k) = length (filter ?P (all_peers rt))"
    unfolding cpl_count_def by (simp only: distinct_card length_map)
  also have "filter ?P (all_peers rt) = filter ?P (buckets rt ! bucket_of bits rt k)"
    unfolding all_peers_def
  proof (rule filter_concat_one [OF at_bucket_of(2) [OF assms]])
    fix j p assume "j < length (buckets rt)" "j \<noteq> bucket_of bits rt k" "p \<in> set (buckets rt ! j)"
    with srt_invD(6) [OF inv, of j p] show "\<not> ?P p" by (auto simp: bucket_of_def)
  qed
  finally show ?thesis .
qed

lemma cpl_count_mset:
  "mset (all_peers rt) = mset (all_peers rt') \<Longrightarrow> srt_self rt = srt_self rt' \<Longrightarrow>
   cpl_count bits rt c = cpl_count bits rt' c"
  unfolding cpl_count_def dom_simple_rt_contents by (metis set_mset_mset)

definition split_last :: "'k SimpleRT \<Rightarrow> 'k SimpleRT" where
  "split_last rt =
     (let l = length (buckets rt) - 1;
          far = (\<lambda>p. cpl_bits (bits (srt_self rt)) (bits (peer_kadId p)) = l)
      in rt\<lparr>buckets := (buckets rt)[l := filter far (buckets rt ! l)] @
           [filter (\<lambda>p. \<not> far p) (buckets rt ! l)]\<rparr>)"

lemma split_last_simps [simp]:
  "srt_self (split_last rt) = srt_self rt" "bucketSize (split_last rt) = bucketSize rt"
  "length (buckets (split_last rt)) = Suc (length (buckets rt))"
  by (simp_all add: split_last_def Let_def)

lemma mset_split_last:
  assumes "buckets rt \<noteq> []"
  shows "mset (all_peers (split_last rt)) = mset (all_peers rt)"
proof -
  let ?l = "length (buckets rt) - 1"
  let ?far = "\<lambda>p. cpl_bits (bits (srt_self rt)) (bits (peer_kadId p)) = ?l"
  let ?b = "buckets rt ! ?l"
  have "all_peers (split_last rt) =
      concat ((buckets rt)[?l := filter ?far ?b]) @ filter (\<lambda>p. \<not> ?far p) ?b"
    by (simp add: all_peers_def split_last_def Let_def)
  then show ?thesis
    using mset_concat_split [of ?l "buckets rt" ?far] assms
    by (simp only: mset_append all_peers_def) simp
qed

lemma srt_inv_split_last:
  assumes inv: "srt_inv rt"
  shows "srt_inv (split_last rt)"
  unfolding simple_rt_inv_def
proof (intro conjI allI impI ballI)
  let ?l = "length (buckets rt) - 1"
  from srt_invD(3) [OF inv] have ne: "buckets rt \<noteq> []" .
  then have l: "?l < length (buckets rt)" by simp
  show "peers_ok valid (all_peers (split_last rt))"
    using srt_invD(4) [OF inv] peers_ok_mset [OF mset_split_last [OF ne]] by simp
  fix i p
  let ?far = "\<lambda>p. cpl_bits (bits (srt_self rt)) (bits (peer_kadId p)) = ?l"
  let ?b = "buckets rt ! ?l"
  assume "i < length (buckets (split_last rt))"
  then have "i < ?l \<or> i = ?l \<or> i = length (buckets rt)" using l by auto
  then consider "i < ?l" "buckets (split_last rt) ! i = buckets rt ! i"
    | "i = ?l" "buckets (split_last rt) ! i = filter ?far ?b"
    | "i = length (buckets rt)" "buckets (split_last rt) ! i = filter (\<lambda>p. \<not> ?far p) ?b"
    using l by (elim disjE) (auto simp: split_last_def Let_def nth_append)
  note at = this
  have far: "length (filter P ?b) \<le> length ?b" for P by (rule length_filter_le)
  show "int (length (buckets (split_last rt) ! i)) \<le> bucketSize (split_last rt)"
    using at
  proof cases
    case 1
    then show ?thesis using srt_invD(5) [OF inv, of i] by simp
  qed (use far srt_invD(5) [OF inv l] in \<open>auto intro: order_trans [of _ "int (length ?b)"]\<close>)
  assume p: "p \<in> set (buckets (split_last rt) ! i)"
  show "bucket_of bits (split_last rt) (peer_kadId p) = i"
    using at
  proof cases
    case 1
    then have "min (cpl_bits (bits (srt_self rt)) (bits (peer_kadId p))) ?l = i"
      using p srt_invD(6) [OF inv, of i p] by (simp add: bucket_of_def)
    with 1(1) show ?thesis by (simp add: bucket_of_def)
  next
    case 2
    then show ?thesis using p by (simp add: bucket_of_def)
  next
    case 3
    with p have "p \<in> set ?b" and near: "\<not> ?far p" by simp_all
    then have "min (cpl_bits (bits (srt_self rt)) (bits (peer_kadId p))) ?l = ?l"
      using srt_invD(6) [OF inv l] by (simp add: bucket_of_def)
    with near l have "length (buckets rt) \<le> cpl_bits (bits (srt_self rt)) (bits (peer_kadId p))"
      by linarith
    with 3(1) show ?thesis by (simp add: bucket_of_def)
  qed
qed (use srt_invD [OF inv] in \<open>auto simp: split_last_def Let_def\<close>)

text \<open>The loop: it ends, and the new node is refused exactly when its own prefix length is full.\<close>

definition split_pre :: "'k SimpleRT \<Rightarrow> 'k \<Rightarrow> bool" where
  "split_pre rt k \<longleftrightarrow>
     (let c = cpl_bits (bits (srt_self rt)) (bits k); l = length (buckets rt) - 1
      in (c < l \<longrightarrow> int (length (buckets rt ! c)) < bucketSize rt) \<and>
         (bucketSize rt = 0 \<longrightarrow> l \<le> c))"

definition split_post :: "'k SimpleRT \<Rightarrow> 'k \<Rightarrow> ('k SimpleRT \<times> bool) option \<Rightarrow> bool" where
  "split_post rt k res \<longleftrightarrow> (\<exists>rt' ok. res = Some (rt', ok) \<and> srt_inv rt' \<and>
     srt_self rt' = srt_self rt \<and> bucketSize rt' = bucketSize rt \<and>
     mset (all_peers rt') = mset (all_peers rt) \<and>
     (ok \<longrightarrow> int (length (buckets rt' ! bucket_of bits rt' k)) < bucketSize rt) \<and>
     (\<not> ok \<longrightarrow> bucketSize rt \<le> int (cpl_count bits rt (cpl_bits (bits (srt_self rt)) (bits k)))))"

lemma splitLoop_unfold:
  assumes inv: "srt_inv rt" and k: "valid k"
  defines "l \<equiv> length (buckets rt) - 1"
  defines "far \<equiv> filter (\<lambda>p. cpl_bits (bits (srt_self rt)) (bits (peer_kadId p)) = l) (buckets rt ! l)"
  shows "splitLoop K rt k (int l) =
    (if int (length (buckets rt ! l)) = bucketSize rt then
       if int (length far) = bucketSize rt \<and> cpl_bits (bits (srt_self rt)) (bits k) = l
       then Some (rt, False)
       else splitLoop K (split_last rt) k (int l + 1)
     else Some (rt, True))"
proof -
  have l: "l < length (buckets rt)" using srt_invD(3) [OF inv] by (simp add: l_def)
  have cpl: "CommonPrefixLength K (peer_kadId p) (srt_self rt) =
      int (cpl_bits (bits (srt_self rt)) (bits (peer_kadId p)))"
    if "p \<in> set (buckets rt ! l)" for p
    using bucket_peers(2) [OF inv l that] srt_invD(1) [OF inv]
    by (simp add: CommonPrefixLength_law cpl_commute)
  have far: "filter (\<lambda>p. CommonPrefixLength K (peer_kadId p) (srt_self rt) = int l) (buckets rt ! l) = far"
    unfolding far_def using cpl by (intro filter_cong) auto
  have close: "filter (\<lambda>p. CommonPrefixLength K (peer_kadId p) (srt_self rt) \<noteq> int l) (buckets rt ! l) =
      filter (\<lambda>p. cpl_bits (bits (srt_self rt)) (bits (peer_kadId p)) \<noteq> l) (buckets rt ! l)"
    using cpl by (intro filter_cong) auto
  have split: "(setBucket rt (int l) far)\<lparr>buckets := (buckets rt)[l := far] @
      [filter (\<lambda>p. cpl_bits (bits (srt_self rt)) (bits (peer_kadId p)) \<noteq> l) (buckets rt ! l)]\<rparr> =
      split_last rt"
    by (simp add: split_last_def setBucket_def far_def l_def Let_def)
  show ?thesis
    by (subst splitLoop.simps)
      (simp add: l far close split Let_def CommonPrefixLength_law srt_invD(1) [OF inv] k)
qed

lemma splitLoop_law:
  assumes "valid k"
  shows "srt_inv rt \<Longrightarrow> split_pre rt k \<Longrightarrow>
    split_post rt k (splitLoop K rt k (int (length (buckets rt) - 1)))"
proof (induction "Suc (Suc len) - length (buckets rt)" arbitrary: rt rule: less_induct)
  case less
  note inv = less.prems(1)
  define l where "l = length (buckets rt) - 1"
  define c where "c = cpl_bits (bits (srt_self rt)) (bits k)"
  define far where "far = filter (\<lambda>p. cpl_bits (bits (srt_self rt)) (bits (peer_kadId p)) = l) (buckets rt ! l)"
  note unfold = splitLoop_unfold [OF inv assms, folded l_def, folded far_def c_def]
  note pre = less.prems(2) [unfolded split_pre_def Let_def, folded l_def c_def]
  have l: "l < length (buckets rt)" "length (buckets rt) = Suc l"
    using srt_invD(3) [OF inv] by (auto simp: l_def)
  have c_le: "c \<le> len" using cpl_le(2) [of "bits (srt_self rt)" "bits k"] assms
    by (simp add: c_def length_bits)
  have farle: "length far \<le> length (buckets rt ! l)" by (simp add: far_def)
  consider (exit) "int (length (buckets rt ! l)) \<noteq> bucketSize rt"
    | (refuse) "int (length (buckets rt ! l)) = bucketSize rt"
        "int (length far) = bucketSize rt" "c = l"
    | (step) "int (length (buckets rt ! l)) = bucketSize rt"
        "\<not> (int (length far) = bucketSize rt \<and> c = l)"
    by blast
  then have "split_post rt k (splitLoop K rt k (int l))"
  proof cases
    case exit
    then have lt: "int (length (buckets rt ! l)) < bucketSize rt"
      using srt_invD(5) [OF inv l(1)] by simp
    have bk: "bucket_of bits rt k = min c l" by (simp add: bucket_of_def c_def l_def)
    have "int (length (buckets rt ! bucket_of bits rt k)) < bucketSize rt"
      using lt pre by (cases "c < l") (simp_all add: bk min_def le_eq_less_or_eq)
    with exit inv show ?thesis by (auto simp: unfold split_post_def)
  next
    case refuse
    have "bucket_of bits rt k = l" using refuse(3) by (simp add: bucket_of_def c_def l_def)
    then have "cpl_count bits rt c = length far"
      using cpl_count_bucket [OF inv assms] refuse(3) by (simp add: far_def c_def)
    with refuse inv show ?thesis
      by (auto simp: unfold split_post_def c_def [symmetric])
  next
    case step
    have "l \<le> len"
    proof (cases "bucketSize rt = 0")
      case True
      with pre c_le show ?thesis by simp
    next
      case False
      with step(1) obtain p where p: "p \<in> set (buckets rt ! l)" by (cases "buckets rt ! l") auto
      have "l \<le> cpl_bits (bits (srt_self rt)) (bits (peer_kadId p))"
        using srt_invD(6) [OF inv l(1) p] by (simp add: bucket_of_def l_def [symmetric])
      also have "\<dots> \<le> len"
        using cpl_le(2) bucket_peers(2) [OF inv l(1) p] by (metis length_bits)
      finally show ?thesis .
    qed
    then have dec: "Suc (Suc len) - length (buckets (split_last rt)) < Suc (Suc len) - length (buckets rt)"
      using l(2) by simp
    have at: "buckets (split_last rt) ! c = (if c < l then buckets rt ! c else far)" if "c \<le> l"
    proof -
      have "buckets (split_last rt) = (buckets rt)[l := far] @
          [filter (\<lambda>p. \<not> cpl_bits (bits (srt_self rt)) (bits (peer_kadId p)) = l) (buckets rt ! l)]"
        unfolding split_last_def Let_def far_def l_def by simp
      with that l show ?thesis by (simp add: nth_append)
    qed
    have "int (length (buckets (split_last rt) ! c)) < bucketSize rt" if "c \<le> l"
    proof (cases "c < l")
      case True
      then show ?thesis using pre at [OF that] by simp
    next
      case False
      with that step(2) have "int (length far) \<noteq> bucketSize rt" by simp
      with False step(1) farle show ?thesis using at [OF that] by simp
    qed
    moreover have "Suc l \<le> c" if "bucketSize rt = 0"
      using pre step farle that by auto
    ultimately have pre': "split_pre (split_last rt) k"
      unfolding split_pre_def Let_def split_last_simps c_def [symmetric] l(2) by simp
    have "split_post (split_last rt) k (splitLoop K (split_last rt) k (int l + 1))"
      using less.hyps [OF dec srt_inv_split_last [OF inv] pre'] l by (simp add: add.commute)
    then have "split_post rt k (splitLoop K (split_last rt) k (int l + 1))"
      using mset_split_last [OF srt_invD(3) [OF inv]]
        cpl_count_mset [OF mset_split_last [OF srt_invD(3) [OF inv]]]
      by (simp add: split_post_def)
    moreover have "splitLoop K rt k (int l) = splitLoop K (split_last rt) k (int l + 1)"
      unfolding unfold using step by auto
    ultimately show ?thesis by simp
  qed
  then show ?case by (simp only: l_def)
qed

lemma SimpleRT_AddNode_law:
  assumes inv: "srt_inv rt" and k: "valid (nodeKey n)"
  defines "added \<equiv> nodeKey n \<notin> dom (simple_rt_contents rt) \<and>
    int (cpl_count bits rt (cpl_bits (bits (srt_self rt)) (bits (nodeKey n)))) < bucketSize rt"
  shows "\<exists>rt'. SimpleRT_AddNode K rt n = Some (rt', added) \<and> srt_inv rt' \<and>
    srt_self rt' = srt_self rt \<and> bucketSize rt' = bucketSize rt \<and>
    simple_rt_contents rt' =
      (if added then (simple_rt_contents rt)(nodeKey n \<mapsto> n) else simple_rt_contents rt)"
proof (cases "nodeKey n \<in> dom (simple_rt_contents rt)")
  case True
  then show ?thesis
    using inv alreadyInBucket_law [OF inv k] at_bucket_of(1) [OF inv k]
    by (simp add: SimpleRT_AddNode_def addPeer_def added_def)
next
  case False
  define l where "l = length (buckets rt) - 1"
  define c where "c = cpl_bits (bits (srt_self rt)) (bits (nodeKey n))"
  define b where "b = bucket_of bits rt (nodeKey n)"
  let ?p = "\<lparr>peer_id = n, peer_kadId = nodeKey n\<rparr>"
  have l: "l < length (buckets rt)" "int (length (buckets rt)) - 1 = int l"
    using srt_invD(3) [OF inv] by (auto simp: l_def of_nat_diff Suc_leI)
  have b: "b = min c l" "b < length (buckets rt)"
    using at_bucket_of [OF inv k] by (simp_all add: b_def bucket_of_def c_def l_def)
  have add: "SimpleRT_AddNode K rt n =
      (if b < l then
         if int (length (buckets rt ! b)) \<ge> bucketSize rt then Some (rt, False)
         else Some (setBucket rt (int b) (buckets rt ! b @ [?p]), True)
       else if int (length (buckets rt ! l)) < bucketSize rt
       then Some (setBucket rt (int l) (buckets rt ! l @ [?p]), True)
       else do {
         (rt', goOn) \<leftarrow> splitLoop K rt (nodeKey n) (int l);
         if \<not> goOn then Some (rt', False)
         else do {
           let newBid = bucketIdForKey K rt' (nodeKey n);
           nb \<leftarrow> bucketAt rt' newBid;
           Some (setBucket rt' newBid (nb @ [?p]), True)
         }
       })"
    using alreadyInBucket_law [OF inv k] at_bucket_of(1) [OF inv k] False l b(2)
    by (simp add: SimpleRT_AddNode_def addPeer_def b_def [symmetric] Let_def)
  note count = cpl_count_bucket [OF inv k, folded b_def c_def]
  let ?far = "\<lambda>p. cpl_bits (bits (srt_self rt)) (bits (peer_kadId p)) = c"
  have count_le: "cpl_count bits rt c \<le> length (buckets rt ! b)" by (simp add: count)
  have all: "cpl_count bits rt c = length (buckets rt ! b)" if "b < l"
  proof -
    have "filter ?far (buckets rt ! b) = buckets rt ! b"
    proof (rule filter_True, rule ballI)
      fix p assume "p \<in> set (buckets rt ! b)"
      then have "min (cpl_bits (bits (srt_self rt)) (bits (peer_kadId p))) l = min c l"
        using srt_invD(6) [OF inv b(2)] b(1) by (simp add: bucket_of_def l_def)
      with that b(1) show "?far p" by linarith
    qed
    then show ?thesis by (simp add: count)
  qed
  consider (full) "b < l" "bucketSize rt \<le> int (length (buckets rt ! b))"
    | (room) "int (length (buckets rt ! b)) < bucketSize rt"
    | (split) "b = l" "bucketSize rt \<le> int (length (buckets rt ! l))"
    using b(1) by (cases "b < l"; cases "int (length (buckets rt ! b)) < bucketSize rt") auto
  then show ?thesis
  proof cases
    case full
    with all inv show ?thesis by (simp add: add added_def c_def)
  next
    case room
    then have "added" using False count_le by (simp add: added_def c_def)
    moreover have "SimpleRT_AddNode K rt n = Some (setBucket rt (int b) (buckets rt ! b @ [?p]), True)"
    proof (cases "b < l")
      case True
      then show ?thesis using room unfolding add by simp
    next
      case False
      then have "b = l" using b(1) by simp
      then show ?thesis using room unfolding add by simp
    qed
    ultimately show ?thesis
      using append_peer [OF inv k False, folded b_def, OF room] by simp
  next
    case split
    have pre: "split_pre rt (nodeKey n)"
      unfolding split_pre_def Let_def c_def [symmetric] l_def [symmetric]
      using split(1) b(1) by (auto simp: min_def split: if_splits)
    obtain rt' ok where r: "splitLoop K rt (nodeKey n) (int l) = Some (rt', ok)" "srt_inv rt'"
      "srt_self rt' = srt_self rt" "bucketSize rt' = bucketSize rt"
      "mset (all_peers rt') = mset (all_peers rt)"
      "ok \<Longrightarrow> int (length (buckets rt' ! bucket_of bits rt' (nodeKey n))) < bucketSize rt"
      "\<not> ok \<Longrightarrow> bucketSize rt \<le> int (cpl_count bits rt c)"
      using splitLoop_law [OF k inv pre, folded l_def] by (auto simp: split_post_def c_def)
    have cont: "simple_rt_contents rt' = simple_rt_contents rt"
      using contents_mset [OF r(5) srt_invD(4) [OF inv]] by (simp add: simple_rt_contents_def)
    show ?thesis
    proof (cases ok)
      case True
      have "cpl_count bits rt c = cpl_count bits rt' c"
        using cpl_count_mset [OF r(5,3)] by simp
      then have "int (cpl_count bits rt c) < bucketSize rt"
        using cpl_count_bucket [OF r(2) k] r(3) r(6) [OF True]
        by (auto simp: c_def intro: le_less_trans [OF _ r(6) [OF True]])
      then have "added" using False by (simp add: added_def c_def)
      with True split append_peer [OF r(2) k] at_bucket_of [OF r(2) k] r cont False show ?thesis
        by (simp add: add Let_def)
    next
      case no: False
      with r(7) have "\<not> added" by (simp add: added_def c_def)
      with no split r cont show ?thesis by (simp add: add)
    qed
  qed
qed

lemma take_butlast_update:
  assumes "i < length b"
  shows "add_mset (b ! i) (mset (take (length b - 1) (b[i := b ! (length b - 1)]))) = mset b"
proof -
  from assms have "b \<noteq> []" by auto
  then obtain ys y where b: "b = ys @ [y]" by (metis rev_exhaust)
  show ?thesis
  proof (cases "i < length ys")
    case True
    then show ?thesis
      by (simp add: b list_update_append nth_append mset_update)
  next
    case False
    with assms b have "i = length ys" by simp
    then show ?thesis by (simp add: b)
  qed
qed

lemma SimpleRT_RemoveKey_law:
  assumes inv: "srt_inv rt" and k: "valid k"
  shows "\<exists>rt'. SimpleRT_RemoveKey K rt k = Some (rt', k \<in> dom (simple_rt_contents rt)) \<and>
    srt_inv rt' \<and> simple_rt_contents rt' = (simple_rt_contents rt)(k := None)"
proof -
  define b where "b = buckets rt ! bucket_of bits rt k"
  note lt = at_bucket_of(2) [OF inv k] and bid = at_bucket_of(1) [OF inv k]
  show ?thesis
  proof (cases rule: lookup_cases [OF inv k, folded b_def])
    case 1
    then show ?thesis using inv lt bid by (auto simp: SimpleRT_RemoveKey_def b_def [symmetric])
  next
    case (2 i)
    define b' where "b' = take (length b - 1) (b[i := b ! (length b - 1)])"
    define rt' where "rt' = setBucket rt (int (bucket_of bits rt k)) b'"
    note m = take_butlast_update [OF 2(2), folded b'_def]
    have "mset (all_peers rt') + mset b = mset (all_peers rt) + mset b'"
      using mset_setBucket [OF lt, of b'] by (simp add: rt'_def b_def)
    then have m': "mset (all_peers rt) = mset (b ! i # all_peers rt')"
      by (simp add: m [symmetric])
    have ok: "peers_ok valid (b ! i # all_peers rt')"
      using srt_invD(4) [OF inv] peers_ok_mset [OF m'] by blast
    have sub: "set b' \<subseteq> set b" using m by (metis set_mset_mset set_mset_add_mset_insert subset_insertI)
    have "length b' \<le> length b" by (simp add: b'_def)
    then have "srt_inv rt'"
      unfolding rt'_def
      using ok sub srt_invD(5,6) [OF inv lt]
      by (intro srt_inv_setBucket [OF inv lt]) (auto simp: peers_ok_def rt'_def b_def)
    moreover have "simple_rt_contents rt' = (simple_rt_contents rt)(k := None)"
    proof -
      have "simple_rt_contents rt = (simple_rt_contents rt')(k \<mapsto> peer_id (b ! i))"
        using contents_mset [OF m' ok] 2(3) by (simp add: simple_rt_contents_def)
      moreover have "k \<notin> dom (simple_rt_contents rt')"
        unfolding dom_simple_rt_contents using ok 2(3) by (auto simp: peers_ok_def)
      ultimately show ?thesis by (auto simp: fun_eq_iff dom_def)
    qed
    moreover have "SimpleRT_RemoveKey K rt k = Some (rt', True)"
      using 2 lt bid by (simp add: SimpleRT_RemoveKey_def Let_def b_def [symmetric] b'_def rt'_def)
    ultimately show ?thesis using 2(4) by auto
  qed
qed

lemma insertStable_insort:
  assumes "\<And>y. y \<in> set ys \<Longrightarrow> lt y x = Some (f y < f x)"
  shows "insertStable lt x ys = Some (insort_key f x ys)"
  using assms by (induction ys) (auto simp: not_less)

lemma sliceStable_sort_key:
  assumes "\<And>x y. x \<in> set xs \<Longrightarrow> y \<in> set xs \<Longrightarrow> lt x y = Some (f x < f y)"
  shows "sliceStable lt xs = Some (sort_key f xs)"
  using assms
proof (induction xs)
  case (Cons x xs)
  then have "insertStable lt x (sort_key f xs) = Some (insort_key f x (sort_key f xs))"
    by (intro insertStable_insort) simp
  with Cons show ?case by simp
qed simp

lemma notSelf_law:
  assumes "valid s" "\<forall>p \<in> set ps. valid (peer_kadId p)"
  shows "notSelf K s ps = Some (filter (\<lambda>p. peer_kadId p \<noteq> s) ps)"
  using assms(2) by (induction ps) (auto simp: Equal_law assms(1))

lemma closerPeer_law:
  assumes "valid k" "valid (peer_kadId p)" "valid (peer_kadId q)"
  shows "closerPeer K k p q = Some (dist (peer_kadId p) k < dist (peer_kadId q) k)"
  using assms by (auto simp: closerPeer_def Compare_law Xor_valid Xor_law dist_def Let_def sgn_if)

text \<open>The peers that \<open>NearestNodes\<close> sorts.\<close>

definition candidates :: "'k SimpleRT \<Rightarrow> 'k \<Rightarrow> int \<Rightarrow> 'k peerInfo list" where
  "candidates rt k n =
     (let b = buckets rt ! bucket_of bits rt k in
      if int (length b) = n then b
      else filter (\<lambda>p. peer_kadId p \<noteq> srt_self rt) (all_peers rt))"

lemma candidates_sub:
  assumes inv: "srt_inv rt" and k: "valid k"
  shows "set (candidates rt k n) \<subseteq> set (all_peers rt)" "distinct (map peer_kadId (candidates rt k n))"
proof -
  let ?b = "buckets rt ! bucket_of bits rt k"
  note lt = at_bucket_of(2) [OF inv k]
  show "set (candidates rt k n) \<subseteq> set (all_peers rt)"
    using bucket_peers(1) [OF inv lt] by (auto simp: candidates_def Let_def)
  have d: "distinct (map peer_kadId (all_peers rt))"
    using srt_invD(4) [OF inv] by (simp add: peers_ok_def)
  have "distinct (map peer_kadId ?b)"
    using d lt unfolding all_peers_def map_concat
    by (auto simp: distinct_concat_iff dest!: nth_mem)
  with d show "distinct (map peer_kadId (candidates rt k n))"
    by (simp add: candidates_def Let_def distinct_map_filter)
qed

lemma SimpleRT_NearestNodes_law:
  assumes inv: "srt_inv rt" and k: "valid k" and n: "0 \<le> n"
  shows "SimpleRT_NearestNodes K rt k n =
    Some (map peer_id (take (nat n) (sort_key (\<lambda>p. dist (peer_kadId p) k) (candidates rt k n))))"
proof -
  note lt = at_bucket_of(2) [OF inv k] and bid = at_bucket_of(1) [OF inv k]
  have v: "valid (peer_kadId p)" if "p \<in> set (all_peers rt)" for p
    using that srt_invD(4) [OF inv] by (simp add: peers_ok_def)
  have cand: "(if int (length (buckets rt ! bucket_of bits rt k)) = n
      then Some (buckets rt ! bucket_of bits rt k)
      else notSelf K (srt_self rt) (concat (buckets rt))) = Some (candidates rt k n)"
    using notSelf_law [OF srt_invD(1) [OF inv], of "all_peers rt"] v
    by (simp add: candidates_def Let_def all_peers_def)
  have sort: "sliceStable (closerPeer K k) (candidates rt k n) =
      Some (sort_key (\<lambda>p. dist (peer_kadId p) k) (candidates rt k n))"
    using candidates_sub(1) [OF inv k, of n] v k
    by (intro sliceStable_sort_key closerPeer_law) auto
  show ?thesis
    using n by (simp add: SimpleRT_NearestNodes_def bid lt cand sort Let_def min_def)
qed

lemma sorted_candidates:
  assumes inv: "srt_inv rt" and k: "valid k"
  shows "sorted_wrt (\<lambda>p q. dist (peer_kadId p) k < dist (peer_kadId q) k)
    (sort_key (\<lambda>p. dist (peer_kadId p) k) (candidates rt k n))"
proof -
  let ?f = "\<lambda>p. dist (peer_kadId p) k"
  note sub = candidates_sub [OF inv k, of n]
  have v: "valid (peer_kadId p)" if "p \<in> set (candidates rt k n)" for p
    using that sub(1) srt_invD(4) [OF inv] by (auto simp: peers_ok_def)
  have "inj_on ?f (set (candidates rt k n))"
    using sub(2) v k by (auto simp: inj_on_def dist_inj distinct_map)
  then have "distinct (map ?f (sort_key ?f (candidates rt k n)))"
    using sub(2) by (simp add: distinct_map)
  then have "sorted_wrt (<) (map ?f (sort_key ?f (candidates rt k n)))"
    by (simp add: strict_sorted_iff)
  then show ?thesis by (simp add: sorted_wrt_map)
qed

end

sublocale kad_key \<subseteq> srt: routing_table_strict "SimpleRT_methods K" valid bits
  "simple_rt_inv valid bits" simple_rt_contents
proof
  fix rt :: "'k SimpleRT"
  assume inv: "srt_inv rt"
  note ok = srt_invD(4) [OF inv]
  show "finite (dom (simple_rt_contents rt))" by (simp add: dom_simple_rt_contents)
  have contents: "\<exists>p \<in> set (all_peers rt). peer_kadId p = k \<and> peer_id p = n"
    if "simple_rt_contents rt k = Some n" for k n
    using that by (auto simp: simple_rt_contents_def dest!: map_of_SomeD)
  then show "nodeKey n = k \<and> valid k" if "simple_rt_contents rt k = Some n" for k n
    using that ok by (fastforce simp: peers_ok_def)
  show "\<exists>rt' added. AddNode (SimpleRT_methods K) rt n = Some (rt', added) \<and> srt_inv rt' \<and>
      simple_rt_contents rt' = (if added \<and> nodeKey n \<notin> dom (simple_rt_contents rt)
        then (simple_rt_contents rt)(nodeKey n \<mapsto> n) else simple_rt_contents rt)"
    if k: "valid (nodeKey n)" for n
  proof -
    obtain rt' added where r: "SimpleRT_AddNode K rt n = Some (rt', added)" "srt_inv rt'"
      "added \<Longrightarrow> nodeKey n \<notin> dom (simple_rt_contents rt)"
      "simple_rt_contents rt' =
        (if added then (simple_rt_contents rt)(nodeKey n \<mapsto> n) else simple_rt_contents rt)"
      using SimpleRT_AddNode_law [OF inv k] by blast
    show ?thesis
      by (intro exI [of _ rt'] exI [of _ added])
        (use r in \<open>cases added; simp add: SimpleRT_methods_def\<close>)
  qed
  show "nodeKey n \<notin> dom (simple_rt_contents rt)"
    if "valid (nodeKey n)" "AddNode (SimpleRT_methods K) rt n = Some (rt', True)" for n rt'
    using SimpleRT_AddNode_law [OF inv that(1)] that(2)
    unfolding SimpleRT_methods_def RoutingTable.simps by auto
  show "\<exists>rt'. RemoveKey (SimpleRT_methods K) rt k = Some (rt', k \<in> dom (simple_rt_contents rt)) \<and>
      srt_inv rt' \<and> simple_rt_contents rt' = (simple_rt_contents rt)(k := None)"
    if "valid k" for k
    using SimpleRT_RemoveKey_law [OF inv that] unfolding SimpleRT_methods_def RoutingTable.simps
    by blast
  show "GetNode (SimpleRT_methods K) rt k = Some (simple_rt_contents rt k)" if "valid k" for k
    using SimpleRT_GetNode_law [OF inv that] by (simp add: SimpleRT_methods_def)
  fix k :: 'k and m :: int
  assume k: "valid k" and m: "0 < m"
  define ps where "ps = take (nat m) (sort_key (\<lambda>p. dist (peer_kadId p) k) (candidates rt k m))"
  have sub: "set ps \<subseteq> set (all_peers rt)"
    unfolding ps_def using candidates_sub(1) [OF inv k, of m]
    by (intro order_trans [OF set_take_subset]) simp
  have key: "nodeKey (peer_id p) = peer_kadId p" if "p \<in> set ps" for p
    using that sub ok by (auto simp: peers_ok_def)
  have "sorted_wrt (\<lambda>p q. dist (peer_kadId p) k < dist (peer_kadId q) k) ps"
    using sorted_candidates [OF inv k] by (simp add: ps_def sorted_wrt_take)
  then have "sorted_wrt (\<lambda>p q. bdist bits (nodeKey (peer_id p)) k < bdist bits (nodeKey (peer_id q)) k) ps"
    by (rule sorted_wrt_mono_rel [rotated]) (use sub key in \<open>auto simp: bdist_def dist_def\<close>)
  moreover have "peer_id p \<in> ran (simple_rt_contents rt)" if "p \<in> set (all_peers rt)" for p
    using that ok by (auto simp: simple_rt_contents_def peers_ok_def comp_def ran_def
        intro!: exI [of _ "peer_kadId p"] map_of_is_SomeI)
  ultimately show "\<exists>ns. NearestNodes (SimpleRT_methods K) rt k m = Some ns \<and> int (length ns) \<le> m \<and>
      set ns \<subseteq> ran (simple_rt_contents rt) \<and>
      sorted_wrt (\<lambda>a b. bdist bits (nodeKey a) k < bdist bits (nodeKey b) k) ns"
    using SimpleRT_NearestNodes_law [OF inv k, of m, folded ps_def] m sub
    by (auto simp: SimpleRT_methods_def sorted_wrt_map ps_def)
qed

section \<open>Properties\<close>

text \<open>Of two bit strings, the one that leaves \<open>s\<close> where \<open>k\<close> does shares the longer prefix with \<open>k\<close>.\<close>

lemma three_cpl:
  fixes s k p q :: "bool list"
  assumes "length s = length k" "length k = length p" "length p = length q"
    and "min (cpl_bits s p) l = min (cpl_bits s k) l" "min (cpl_bits s q) l \<noteq> min (cpl_bits s k) l"
  shows "cpl_bits q k < cpl_bits p k"
  using assms
proof (induction s k p q arbitrary: l rule: list_induct4)
  case (Cons a s b k c p d q)
  then show ?case by (cases l) (auto split: if_splits)
qed simp

context kad_key
begin

lemma SimpleRT_New_inv:
  assumes "valid (nodeKey self)" "0 \<le> sz"
  shows "srt_inv (SimpleRT_New self sz)" "simple_rt_contents (SimpleRT_New self sz) = Map.empty"
  using assms by (simp_all add: simple_rt_inv_def SimpleRT_New_def all_peers_def peers_ok_def
      simple_rt_contents_def)

text \<open>The nodes in the bucket of a key are closer to it than all others.\<close>

lemma bucket_closer:
  assumes inv: "srt_inv rt" and k: "valid k" and p: "p \<in> set (buckets rt ! bucket_of bits rt k)"
    and q: "q \<in> set (all_peers rt)" "q \<notin> set (buckets rt ! bucket_of bits rt k)"
  shows "dist (peer_kadId p) k < dist (peer_kadId q) k"
proof -
  let ?s = "bits (srt_self rt)" and ?k = "bits k" and ?l = "length (buckets rt) - 1"
  let ?p = "bits (peer_kadId p)" and ?q = "bits (peer_kadId q)"
  note lt = at_bucket_of(2) [OF inv k]
  have vp: "valid (peer_kadId p)" by (rule bucket_peers(2) [OF inv lt p])
  have vq: "valid (peer_kadId q)" using q(1) srt_invD(4) [OF inv] by (simp add: peers_ok_def)
  have len: "length ?s = len" "length ?k = len" "length ?p = len" "length ?q = len"
    using srt_invD(1) [OF inv] k vp vq by (simp_all add: length_bits)
  have bp: "min (cpl_bits ?s ?p) ?l = min (cpl_bits ?s ?k) ?l"
    using srt_invD(6) [OF inv lt p] by (simp add: bucket_of_def)
  have bq: "min (cpl_bits ?s ?q) ?l \<noteq> min (cpl_bits ?s ?k) ?l"
  proof -
    obtain i where i: "i < length (buckets rt)" "q \<in> set (buckets rt ! i)"
      using q(1) unfolding all_peers_def set_concat by (metis UN_E in_set_conv_nth)
    with srt_invD(6) [OF inv i] q(2) show ?thesis unfolding bucket_of_def by metis
  qed
  have "cpl_bits ?q ?k < cpl_bits ?p ?k"
  proof (rule three_cpl)
    show "min (cpl_bits ?s ?p) ?l = min (cpl_bits ?s ?k) ?l" "min (cpl_bits ?s ?q) ?l \<noteq> min (cpl_bits ?s ?k) ?l"
      by (rule bp, rule bq)
  qed (simp_all add: len)
  then show ?thesis by (rule dist_less_if_cpl [OF vp vq k])
qed

lemma SimpleRT_NearestNodes_all:
  assumes inv: "srt_inv rt" and k: "valid k" and m: "0 < m"
  defines "X \<equiv> if SizeOfBucket rt (bucketIdForKey K rt k) = Some m then {} else {srt_self rt}"
  shows "\<exists>ns. SimpleRT_NearestNodes K rt k m = Some ns \<and>
    length ns = min (nat m) (card (dom (simple_rt_contents rt) - X)) \<and>
    set ns \<subseteq> ran (simple_rt_contents rt) \<and> (\<forall>n \<in> set ns. nodeKey n \<notin> X) \<and>
    sorted_wrt (\<lambda>a b. dist (nodeKey a) k < dist (nodeKey b) k) ns \<and>
    (\<forall>n n' k'. n \<in> set ns \<and> simple_rt_contents rt k' = Some n' \<and> k' \<notin> X \<and>
       n' \<notin> set ns \<longrightarrow> dist (nodeKey n) k < dist (nodeKey n') k)"
proof -
  define cs where "cs = candidates rt k m"
  define ps where "ps = sort_key (\<lambda>p. dist (peer_kadId p) k) cs"
  let ?b = "buckets rt ! bucket_of bits rt k"
  note lt = at_bucket_of(2) [OF inv k]
  have size: "SizeOfBucket rt (bucketIdForKey K rt k) = Some (int (length ?b))"
    using at_bucket_of [OF inv k] by (simp add: SizeOfBucket_def)
  have cs: "cs = (if X = {} then ?b else filter (\<lambda>p. peer_kadId p \<notin> X) (all_peers rt))"
    unfolding cs_def candidates_def X_def size by simp
  have eq: "SimpleRT_NearestNodes K rt k m = Some (map peer_id (take (nat m) ps))"
    using SimpleRT_NearestNodes_law [OF inv k, of m] m by (simp add: cs_def ps_def)
  have sub: "set ps \<subseteq> set (all_peers rt)" "distinct (map peer_kadId cs)"
    using candidates_sub [OF inv k, of m] by (simp_all add: ps_def cs_def)
  have ok: "valid (peer_kadId p)" "nodeKey (peer_id p) = peer_kadId p" if "p \<in> set (all_peers rt)" for p
    using that srt_invD(4) [OF inv] by (simp_all add: peers_ok_def)
  have out: "peer_kadId p \<notin> X" if "p \<in> set ps" for p
    using that by (auto simp: ps_def cs split: if_splits)
  have full: "length ps = nat m" if "X = {}"
    using that size by (auto simp: ps_def cs X_def split: if_splits)
  have "length (take (nat m) ps) = min (nat m) (card (dom (simple_rt_contents rt) - X))"
  proof (cases "X = {}")
    case False
    then have "dom (simple_rt_contents rt) - X = set (map peer_kadId cs)"
      unfolding dom_simple_rt_contents cs by auto
    then have "card (dom (simple_rt_contents rt) - X) = length ps"
      using sub(2) by (simp only: distinct_card length_map ps_def length_sort)
    then show ?thesis by (simp add: min.commute)
  next
    case True
    have "set (map peer_kadId cs) \<subseteq> dom (simple_rt_contents rt) - X"
      unfolding dom_simple_rt_contents using True bucket_peers(1) [OF inv lt] by (auto simp: cs)
    then have "card (set (map peer_kadId cs)) \<le> card (dom (simple_rt_contents rt) - X)"
      by (intro card_mono) (simp_all add: dom_simple_rt_contents)
    then have "length ps \<le> card (dom (simple_rt_contents rt) - X)"
      using sub(2) by (simp only: distinct_card length_map ps_def length_sort)
    then show ?thesis using full [OF True] by simp
  qed
  moreover have "dist (nodeKey n) k < dist (nodeKey n') k"
    if n: "n \<in> set (map peer_id (take (nat m) ps))" and n': "simple_rt_contents rt k' = Some n'"
      "k' \<notin> X" "n' \<notin> set (map peer_id (take (nat m) ps))" for n n' k'
  proof -
    from n obtain p where p: "p \<in> set (take (nat m) ps)" "n = peer_id p" by auto
    from n'(1) obtain q where q: "q \<in> set (all_peers rt)" "peer_kadId q = k'" "peer_id q = n'"
      by (auto simp: simple_rt_contents_def dest!: map_of_SomeD)
    have qn: "q \<notin> set (take (nat m) ps)" using n'(3) q(3) by auto
    have pp: "p \<in> set ps" using p(1) by (rule in_set_takeD)
    have "dist (peer_kadId p) k < dist (peer_kadId q) k"
    proof (cases "X = {}")
      case False
      then have "q \<in> set ps" using q n'(2) by (simp add: ps_def cs)
      then show ?thesis
        using sorted_wrt_take_drop [OF sorted_candidates [OF inv k, of m, folded cs_def, folded ps_def] p(1) _ qn] by blast
    next
      case True
      then show ?thesis using bucket_closer [OF inv k _ q(1), of p] pp qn full by (simp add: ps_def cs)
    qed
    with ok(2) sub(1) pp p(2) q show ?thesis by auto
  qed
  moreover have "nodeKey n \<notin> X" if "n \<in> set (map peer_id (take (nat m) ps))" for n
  proof -
    from that obtain p where p: "p \<in> set (take (nat m) ps)" "n = peer_id p" by auto
    from p(1) have "p \<in> set ps" by (rule in_set_takeD)
    with out sub(1) ok(2) p(2) show ?thesis by auto
  qed
  moreover have "set (map peer_id (take (nat m) ps)) \<subseteq> ran (simple_rt_contents rt)"
    "sorted_wrt (\<lambda>a b. dist (nodeKey a) k < dist (nodeKey b) k) (map peer_id (take (nat m) ps))"
    using srt.NearestNodes_law [OF inv k m] eq by (auto simp: SimpleRT_methods_def dist_def bdist_def)
  ultimately show ?thesis unfolding eq by (intro exI [of _ "map peer_id (take (nat m) ps)"]) auto
qed

end

definition simple8 :: "key8 SimpleRT" where
  "simple8 = \<lparr>srt_self = 0, bucketSize = 2, buckets =
     [[\<lparr>peer_id = node8 130, peer_kadId = 130\<rparr>],
      [\<lparr>peer_id = node8 3, peer_kadId = 3\<rparr>, \<lparr>peer_id = node8 64, peer_kadId = 64\<rparr>]]\<rparr>"

lemma simple8_inv: "simple_rt_inv (\<lambda>_. True) word_bits simple8"
proof -
  have "cpl_bits (word_bits (0 :: key8)) (word_bits (130 :: key8)) = 0"
    "cpl_bits (word_bits (0 :: key8)) (word_bits (3 :: key8)) = 6"
    "cpl_bits (word_bits (0 :: key8)) (word_bits (64 :: key8)) = 1" by code_simp+
  then show ?thesis
    by (simp add: simple_rt_inv_def simple8_def all_peers_def peers_ok_def node8_def bucket_of_def
        All_less_Suc)
qed

lemma simple8_dom: "dom (simple_rt_contents simple8) = {130, 3, 64}"
  by (auto simp: dom_simple_rt_contents all_peers_def simple8_def)

text \<open>C5: \<open>SimpleRT.AddNode\<close> returns (the loop that splits the last bucket ends), keeps the invariant
  of the buckets, and adds the node exactly when it is not there yet and fewer than the bucket
  size of nodes share as long a prefix with the local key as it does; nothing else changes.\<close>

theorem simplert_add_node:
  assumes "kad_key K valid len bits"
    and "simple_rt_inv valid bits rt" and "valid (nodeKey n)"
  shows "\<exists>rt' added. SimpleRT_AddNode K rt n = Some (rt', added) \<and> simple_rt_inv valid bits rt' \<and>
    (added \<longleftrightarrow> nodeKey n \<notin> dom (simple_rt_contents rt) \<and>
      int (cpl_count bits rt (cpl_bits (bits (srt_self rt)) (bits (nodeKey n)))) < bucketSize rt) \<and>
    simple_rt_contents rt' =
      (if added then (simple_rt_contents rt)(nodeKey n \<mapsto> n) else simple_rt_contents rt)"
  using kad_key.SimpleRT_AddNode_law [OF assms] by blast

theorem simplert_add_node_witness:
  "\<exists>rt'. SimpleRT_AddNode Key8 simple8 (node8 65) = Some (rt', True) \<and>
     simple_rt_inv (\<lambda>_. True) word_bits rt' \<and> simple_rt_contents rt' 65 = Some (node8 65)"
proof -
  have "{k \<in> {130, 3, 64 :: key8}. cpl_bits (word_bits (0 :: key8)) (word_bits k) =
      cpl_bits (word_bits (0 :: key8)) (word_bits (65 :: key8))} \<subseteq> {64}"
  proof -
    have "cpl_bits (word_bits (0 :: key8)) (word_bits (130 :: key8)) = 0"
      "cpl_bits (word_bits (0 :: key8)) (word_bits (3 :: key8)) = 6"
      "cpl_bits (word_bits (0 :: key8)) (word_bits (65 :: key8)) = 1" by code_simp+
    then show ?thesis by auto
  qed
  then have "card {k \<in> {130, 3, 64 :: key8}. cpl_bits (word_bits (0 :: key8)) (word_bits k) =
      cpl_bits (word_bits (0 :: key8)) (word_bits (65 :: key8))} \<le> card {64 :: key8}"
    by (intro card_mono) auto
  then have "int (cpl_count word_bits simple8
      (cpl_bits (word_bits (srt_self simple8)) (word_bits (nodeKey (node8 65))))) < bucketSize simple8"
    unfolding cpl_count_def simple8_dom by (simp add: simple8_def node8_def)
  moreover have "nodeKey (node8 65) \<notin> dom (simple_rt_contents simple8)"
    by (simp add: simple8_dom node8_def)
  ultimately show ?thesis
    using simplert_add_node [OF key8.kad_key_axioms simple8_inv TrueI, of "node8 65"]
    by (auto simp: node8_def)
qed

text \<open>C20: \<open>SimpleRT.RemoveKey\<close> and \<open>GetNode\<close>: exactly the key is removed, whether it was there is
  reported, the invariant is kept (the swap with the last peer loses no other peer), and a
  lookup reads the table as a map.\<close>

theorem simplert_remove_get:
  assumes "kad_key K valid len bits"
    and "simple_rt_inv valid bits rt" and "valid k" and "valid k'"
  shows "\<exists>rt'. SimpleRT_RemoveKey K rt k = Some (rt', k \<in> dom (simple_rt_contents rt)) \<and>
    simple_rt_inv valid bits rt' \<and> SimpleRT_GetNode K rt k' = Some (simple_rt_contents rt k') \<and>
    SimpleRT_GetNode K rt' k' = Some (if k' = k then None else simple_rt_contents rt k')"
proof -
  obtain rt' where r: "SimpleRT_RemoveKey K rt k = Some (rt', k \<in> dom (simple_rt_contents rt))"
    "simple_rt_inv valid bits rt'" "simple_rt_contents rt' = (simple_rt_contents rt)(k := None)"
    using kad_key.SimpleRT_RemoveKey_law [OF assms(1-3)] by blast
  moreover have "SimpleRT_GetNode K rt' k' = Some (if k' = k then None else simple_rt_contents rt k')"
    using kad_key.SimpleRT_GetNode_law [OF assms(1) r(2) assms(4)] r(3) by simp
  ultimately show ?thesis
    using kad_key.SimpleRT_GetNode_law [OF assms(1,2,4)] by blast
qed

theorem simplert_remove_get_witness:
  "\<exists>rt'. SimpleRT_RemoveKey Key8 simple8 3 = Some (rt', True) \<and> SimpleRT_GetNode Key8 rt' 3 = Some None"
  using simplert_remove_get [OF key8.kad_key_axioms simple8_inv TrueI TrueI, of 3 3]
  unfolding simple8_dom by auto

text \<open>C21: \<open>SimpleRT.NearestNodes\<close> returns the closest nodes of the whole table, in strictly increasing
  distance: as many as asked for or all, each of them a node of the table, and every one left out is
  farther than every one returned. The local key is left out, unless the bucket of the target holds
  exactly as many nodes as asked for.\<close>

theorem simplert_nearest_nodes:
  assumes "kad_key K valid len bits"
    and "simple_rt_inv valid bits rt" and "valid k" and "0 < m"
    and "X = (if SizeOfBucket rt (bucketIdForKey K rt k) = Some m then {} else {srt_self rt})"
  shows "\<exists>ns. SimpleRT_NearestNodes K rt k m = Some ns \<and>
    length ns = min (nat m) (card (dom (simple_rt_contents rt) - X)) \<and>
    set ns \<subseteq> ran (simple_rt_contents rt) \<and> (\<forall>n \<in> set ns. nodeKey n \<notin> X) \<and>
    sorted_wrt (\<lambda>a b. bdist bits (nodeKey a) k < bdist bits (nodeKey b) k) ns \<and>
    (\<forall>n n' k'. n \<in> set ns \<and> simple_rt_contents rt k' = Some n' \<and> k' \<notin> X \<and>
       n' \<notin> set ns \<longrightarrow> bdist bits (nodeKey n) k < bdist bits (nodeKey n') k)"
  using kad_key.SimpleRT_NearestNodes_all [OF assms(1-4)] unfolding assms(5) bdist_def kad_key.dist_def [OF assms(1)] .

theorem simplert_nearest_nodes_witness:
  "\<exists>ns. SimpleRT_NearestNodes Key8 simple8 2 2 = Some ns \<and> length ns = 2 \<and>
     sorted_wrt (\<lambda>a b. bdist word_bits (nodeKey a) 2 < bdist word_bits (nodeKey b) 2) ns"
proof -
  have b: "SizeOfBucket simple8 (bucketIdForKey Key8 simple8 2) = Some 2" by code_simp
  from simplert_nearest_nodes [OF key8.kad_key_axioms simple8_inv TrueI _ refl, of 2 2]
  show ?thesis unfolding simple8_dom b by auto
qed

end
