(* ===== verification/Include.thy ===== *)
theory Include
  imports Query SimpleRT
begin

text \<open>
  The include state machine of \<open>routing/include.go\<close>: candidate nodes wait in a bounded queue of
  unique nodes, are checked with a limited concurrency, and are added to the routing table when
  they answer with at least one closer node. The machine works on any routing table that meets
  the contract \<open>routing_table\<close>. Its two Go maps are keyed by the hexadecimal string of a node's
  key and are association lists here.
\<close>

section \<open>Configuration, states and events\<close>

record IncludeConfig =
  icQueueCapacity :: int
  icConcurrency :: int
  icTimeout :: duration
  icClock :: "Clock option"

definition IncludeConfig_Validate :: "IncludeConfig \<Rightarrow> ConfigurationError option" where
  "IncludeConfig_Validate cfg =
     (if icClock cfg = None then
        Some (ConfigurationError ''IncludeConfig'' (Some ''clock must not be nil''))
      else if icConcurrency cfg < 1 then
        Some (ConfigurationError ''IncludeConfig'' (Some ''concurrency must be greater than zero''))
      else if icTimeout cfg < 1 then
        Some (ConfigurationError ''IncludeConfig'' (Some ''timeout must be greater than zero''))
      else if icQueueCapacity cfg < 1 then
        Some (ConfigurationError ''IncludeConfig'' (Some ''queue size must be greater than zero''))
      else None)"

definition DefaultIncludeConfig :: IncludeConfig where
  "DefaultIncludeConfig = \<lparr>icQueueCapacity = 128, icConcurrency = 3, icTimeout = Minute,
     icClock = Some Clock\<rparr>"

datatype ('k, 'a) IncludeState =
    StateIncludeFindNodeMessage "('k, 'a) NodeInfo"
  | StateIncludeIdle
  | StateIncludeWaitingAtCapacity
  | StateIncludeWaitingWithCapacity
  | StateIncludeWaitingFull
  | StateIncludeRoutingUpdated "('k, 'a) NodeInfo"

datatype ('k, 'a) IncludeEvent =
    EventIncludePoll
  | EventIncludeAddCandidate "('k, 'a) NodeInfo"
  | EventIncludeMessageResponse "('k, 'a) NodeInfo" "('k, 'a) Response option"
  | EventIncludeMessageFailure "('k, 'a) NodeInfo"
  | IncludeEventNil

section \<open>The queue of candidates\<close>

record ('k, 'a) nodeQueue =
  nq_capacity :: int
  nq_nodes :: "('k, 'a) NodeInfo list"
  nq_keys :: "(string \<times> unit) list"

definition newNodeQueue :: "int \<Rightarrow> ('k, 'a) nodeQueue" where
  "newNodeQueue cap = \<lparr>nq_capacity = cap, nq_nodes = [], nq_keys = []\<rparr>"

definition Enqueue ::
  "'k Key \<Rightarrow> ('k, 'a) nodeQueue \<Rightarrow> ('k, 'a) NodeInfo \<Rightarrow> (('k, 'a) nodeQueue \<times> bool) option" where
  "Enqueue K q n =
     (if int (length (nq_nodes q)) = nq_capacity q then Some (q, False)
      else do {
        mk \<leftarrow> HexString K (nodeKey (infoID n));
        if map_of (nq_keys q) mk \<noteq> None then Some (q, False)
        else Some (q\<lparr>nq_nodes := nq_nodes q @ [n], nq_keys := AList.update mk () (nq_keys q)\<rparr>, True)
      })"

definition Dequeue ::
  "'k Key \<Rightarrow> ('k, 'a) nodeQueue \<Rightarrow> (('k, 'a) nodeQueue \<times> ('k, 'a) NodeInfo option) option" where
  "Dequeue K q =
     (case nq_nodes q of
        [] \<Rightarrow> Some (q, None)
      | n # ns \<Rightarrow> do {
          mk \<leftarrow> HexString K (nodeKey (infoID n));
          Some (q\<lparr>nq_nodes := ns, nq_keys := AList.delete mk (nq_keys q)\<rparr>, Some n)
        })"

definition HasCapacity :: "('k, 'a) nodeQueue \<Rightarrow> bool" where
  "HasCapacity q \<longleftrightarrow> int (length (nq_nodes q)) < nq_capacity q"

section \<open>The state machine\<close>

record ('k, 'a) check =
  chNodeInfo :: "('k, 'a) NodeInfo"
  chStarted :: time

record ('k, 'a, 'rt) Include =
  i_rt :: 'rt
  i_checks :: "(string \<times> ('k, 'a) check) list"
  i_candidates :: "('k, 'a) nodeQueue"
  i_cfg :: IncludeConfig

definition NewInclude ::
  "'rt \<Rightarrow> IncludeConfig option \<Rightarrow> ConfigurationError + ('k, 'a, 'rt) Include" where
  "NewInclude rt cfg =
     (let c = (case cfg of None \<Rightarrow> DefaultIncludeConfig | Some c \<Rightarrow> c);
          err = (case cfg of None \<Rightarrow> None | Some c \<Rightarrow> IncludeConfig_Validate c)
      in case err of
           Some e \<Rightarrow> Inl e
         | None \<Rightarrow> Inr \<lparr>i_rt = rt, i_checks = [], i_candidates = newNodeQueue (icQueueCapacity c),
             i_cfg = c\<rparr>)"

text \<open>The event: \<open>Some st\<close> when the code returns from inside the switch, \<open>None\<close> when it goes on
  behind it.\<close>

definition includeEvent ::
  "'k Key \<Rightarrow> ('k, 'rt, 'z) RoutingTable_scheme \<Rightarrow> ('k, 'a, 'rt) Include \<Rightarrow> ('k, 'a) IncludeEvent \<Rightarrow>
   (('k, 'a, 'rt) Include \<times> ('k, 'a) IncludeState option) option" where
  "includeEvent K RT b ev =
     (case ev of
        EventIncludeAddCandidate n \<Rightarrow> do {
          mk \<leftarrow> HexString K (nodeKey (infoID n));
          if map_of (i_checks b) mk \<noteq> None then Some (b, None)
          else do {
            found \<leftarrow> GetNode RT (i_rt b) (nodeKey (infoID n));
            if found \<noteq> None then Some (b, None)
            else if \<not> HasCapacity (i_candidates b) then Some (b, Some StateIncludeWaitingFull)
            else do {
              (q, _) \<leftarrow> Enqueue K (i_candidates b) n;
              Some (b\<lparr>i_candidates := q\<rparr>, None)
            }
          }
        }
      | EventIncludeMessageResponse n resp \<Rightarrow> do {
          mk \<leftarrow> HexString K (nodeKey (infoID n));
          (case map_of (i_checks b) mk of
             None \<Rightarrow> Some (b, None)
           | Some ch \<Rightarrow> do {
               let b1 = b\<lparr>i_checks := AList.delete mk (i_checks b)\<rparr>;
               (case resp of
                  None \<Rightarrow> Some (b1, None)
                | Some r \<Rightarrow>
                    if length (CloserNodes r) > 0 then do {
                      (rt, added) \<leftarrow> AddNode RT (i_rt b1) (infoID n);
                      let b2 = b1\<lparr>i_rt := rt\<rparr>;
                      if added then Some (b2, Some (StateIncludeRoutingUpdated (chNodeInfo ch)))
                      else Some (b2, None)
                    } else Some (b1, None))
             })
        }
      | EventIncludeMessageFailure n \<Rightarrow> do {
          mk \<leftarrow> HexString K (nodeKey (infoID n));
          Some (b\<lparr>i_checks := AList.delete mk (i_checks b)\<rparr>, None)
        }
      | EventIncludePoll \<Rightarrow> Some (b, None)
      | IncludeEventNil \<Rightarrow> None)"

definition Include_Advance ::
  "'k Key \<Rightarrow> ('k, 'rt, 'z) RoutingTable_scheme \<Rightarrow> time \<Rightarrow> ('k, 'a, 'rt) Include \<Rightarrow>
   ('k, 'a) IncludeEvent \<Rightarrow> (('k, 'a, 'rt) Include \<times> ('k, 'a) IncludeState) option" where
  "Include_Advance K RT now b ev = do {
     (b1, state) \<leftarrow> includeEvent K RT b ev;
     (case state of
        Some st \<Rightarrow> Some (b1, st)
      | None \<Rightarrow>
          if int (length (i_checks b1)) = icConcurrency (i_cfg b1) then
            (if \<not> HasCapacity (i_candidates b1) then Some (b1, StateIncludeWaitingFull)
             else Some (b1, StateIncludeWaitingAtCapacity))
          else do {
            (q, candidate) \<leftarrow> Dequeue K (i_candidates b1);
            let b2 = b1\<lparr>i_candidates := q\<rparr>;
            (case candidate of
               None \<Rightarrow>
                 if length (i_checks b2) > 0 then Some (b2, StateIncludeWaitingWithCapacity)
                 else Some (b2, StateIncludeIdle)
             | Some c \<Rightarrow> do {
                 mk \<leftarrow> HexString K (nodeKey (infoID c));
                 Some (b2\<lparr>i_checks := AList.update mk \<lparr>chNodeInfo = c, chStarted = now\<rparr> (i_checks b2)\<rparr>,
                       StateIncludeFindNodeMessage c)
               })
          })
   }"

section \<open>The abstract machine\<close>

text \<open>
  What the machine promises, without hexadecimal strings and without the second index of the
  queue: the contents of the table, the checks under way by key, and the queue. The table may
  refuse a node, so handling an event is a relation.
\<close>

record ('k, 'a) include_abs =
  a_table :: "'k \<rightharpoonup> 'k NodeID"
  a_checks :: "'k \<rightharpoonup> ('k, 'a) check"
  a_queue :: "('k, 'a) NodeInfo list"

abbreviation infoKey :: "('k, 'a) NodeInfo \<Rightarrow> 'k" where
  "infoKey n \<equiv> nodeKey (infoID n)"

inductive include_event ::
  "IncludeConfig \<Rightarrow> ('k, 'a) include_abs \<Rightarrow> ('k, 'a) IncludeEvent \<Rightarrow> ('k, 'a) include_abs \<Rightarrow>
   ('k, 'a) IncludeState option \<Rightarrow> bool" for cfg a where
  poll: "include_event cfg a EventIncludePoll a None"
| known: "infoKey n \<in> dom (a_checks a) \<union> dom (a_table a) \<Longrightarrow>
    include_event cfg a (EventIncludeAddCandidate n) a None"
| full: "infoKey n \<notin> dom (a_checks a) \<union> dom (a_table a) \<Longrightarrow>
    int (length (a_queue a)) = icQueueCapacity cfg \<Longrightarrow>
    include_event cfg a (EventIncludeAddCandidate n) a (Some StateIncludeWaitingFull)"
| queued: "infoKey n \<notin> dom (a_checks a) \<union> dom (a_table a) \<Longrightarrow>
    int (length (a_queue a)) < icQueueCapacity cfg \<Longrightarrow> infoKey n \<in> infoKey ` set (a_queue a) \<Longrightarrow>
    include_event cfg a (EventIncludeAddCandidate n) a None"
| enqueue: "infoKey n \<notin> dom (a_checks a) \<union> dom (a_table a) \<Longrightarrow>
    int (length (a_queue a)) < icQueueCapacity cfg \<Longrightarrow> infoKey n \<notin> infoKey ` set (a_queue a) \<Longrightarrow>
    include_event cfg a (EventIncludeAddCandidate n) (a\<lparr>a_queue := a_queue a @ [n]\<rparr>) None"
| unexpected: "infoKey n \<notin> dom (a_checks a) \<Longrightarrow>
    include_event cfg a (EventIncludeMessageResponse n resp) a None"
| useless: "infoKey n \<in> dom (a_checks a) \<Longrightarrow> resp = None \<or> CloserNodes (the resp) = [] \<Longrightarrow>
    include_event cfg a (EventIncludeMessageResponse n resp)
      (a\<lparr>a_checks := (a_checks a)(infoKey n := None)\<rparr>) None"
| refused: "infoKey n \<in> dom (a_checks a) \<Longrightarrow> CloserNodes r \<noteq> [] \<Longrightarrow>
    include_event cfg a (EventIncludeMessageResponse n (Some r))
      (a\<lparr>a_checks := (a_checks a)(infoKey n := None)\<rparr>) None"
| added: "a_checks a (infoKey n) = Some ch \<Longrightarrow> CloserNodes r \<noteq> [] \<Longrightarrow>
    include_event cfg a (EventIncludeMessageResponse n (Some r))
      (a\<lparr>a_checks := (a_checks a)(infoKey n := None), a_table := (a_table a)(infoKey n \<mapsto> infoID n)\<rparr>)
      (Some (StateIncludeRoutingUpdated (chNodeInfo ch)))"
| failed: "include_event cfg a (EventIncludeMessageFailure n)
      (a\<lparr>a_checks := (a_checks a)(infoKey n := None)\<rparr>) None"

definition include_next ::
  "IncludeConfig \<Rightarrow> time \<Rightarrow> ('k, 'a) include_abs \<Rightarrow> ('k, 'a) include_abs \<times> ('k, 'a) IncludeState" where
  "include_next cfg now a =
     (if int (card (dom (a_checks a))) = icConcurrency cfg then
        (a, if int (length (a_queue a)) = icQueueCapacity cfg then StateIncludeWaitingFull
            else StateIncludeWaitingAtCapacity)
      else case a_queue a of
        [] \<Rightarrow> (a, if a_checks a = Map.empty then StateIncludeIdle else StateIncludeWaitingWithCapacity)
      | n # ns \<Rightarrow> (a\<lparr>a_queue := ns,
            a_checks := (a_checks a)(infoKey n \<mapsto> \<lparr>chNodeInfo = n, chStarted = now\<rparr>)\<rparr>,
          StateIncludeFindNodeMessage n))"

definition include_step ::
  "IncludeConfig \<Rightarrow> time \<Rightarrow> ('k, 'a) include_abs \<Rightarrow> ('k, 'a) IncludeEvent \<Rightarrow>
   ('k, 'a) include_abs \<Rightarrow> ('k, 'a) IncludeState \<Rightarrow> bool" where
  "include_step cfg now a ev a' st \<longleftrightarrow>
     include_event cfg a ev a' (Some st) \<or>
     (\<exists>a1. include_event cfg a ev a1 None \<and> (a', st) = include_next cfg now a1)"

section \<open>Invariant and abstraction\<close>

definition abs_checks :: "(string \<times> ('k, 'a) check) list \<Rightarrow> 'k \<rightharpoonup> ('k, 'a) check" where
  "abs_checks cs = map_of (map (\<lambda>(s, c). (infoKey (chNodeInfo c), c)) cs)"

definition include_abs ::
  "('rt \<Rightarrow> 'k \<rightharpoonup> 'k NodeID) \<Rightarrow> ('k, 'a, 'rt) Include \<Rightarrow> ('k, 'a) include_abs" where
  "include_abs contents b =
     \<lparr>a_table = contents (i_rt b), a_checks = abs_checks (i_checks b),
      a_queue = nq_nodes (i_candidates b)\<rparr>"

definition queue_inv :: "'k Key \<Rightarrow> ('k \<Rightarrow> bool) \<Rightarrow> ('k, 'a) nodeQueue \<Rightarrow> bool" where
  "queue_inv K valid q \<longleftrightarrow>
     int (length (nq_nodes q)) \<le> nq_capacity q \<and>
     (\<forall>n \<in> set (nq_nodes q). valid (infoKey n)) \<and>
     distinct (map infoKey (nq_nodes q)) \<and> distinct (map fst (nq_keys q)) \<and>
     Some ` fst ` set (nq_keys q) = (\<lambda>n. HexString K (infoKey n)) ` set (nq_nodes q)"

definition checks_inv :: "'k Key \<Rightarrow> ('k \<Rightarrow> bool) \<Rightarrow> (string \<times> ('k, 'a) check) list \<Rightarrow> bool" where
  "checks_inv K valid cs \<longleftrightarrow>
     distinct (map fst cs) \<and>
     (\<forall>(s, c) \<in> set cs. valid (infoKey (chNodeInfo c)) \<and> HexString K (infoKey (chNodeInfo c)) = Some s)"

text \<open>No node is checked, queued or in the table at once: in particular a node whose check
  succeeds is new to the table.\<close>

definition include_inv ::
  "'k Key \<Rightarrow> ('k \<Rightarrow> bool) \<Rightarrow> ('rt \<Rightarrow> bool) \<Rightarrow> ('rt \<Rightarrow> 'k \<rightharpoonup> 'k NodeID) \<Rightarrow> ('k, 'a, 'rt) Include \<Rightarrow> bool" where
  "include_inv K valid rtinv contents b \<longleftrightarrow>
     rtinv (i_rt b) \<and> IncludeConfig_Validate (i_cfg b) = None \<and>
     queue_inv K valid (i_candidates b) \<and> nq_capacity (i_candidates b) = icQueueCapacity (i_cfg b) \<and>
     checks_inv K valid (i_checks b) \<and> int (length (i_checks b)) \<le> icConcurrency (i_cfg b) \<and>
     dom (abs_checks (i_checks b)) \<inter> infoKey ` set (nq_nodes (i_candidates b)) = {} \<and>
     dom (contents (i_rt b)) \<inter>
       (dom (abs_checks (i_checks b)) \<union> infoKey ` set (nq_nodes (i_candidates b))) = {}"

fun include_event_valid :: "('k \<Rightarrow> bool) \<Rightarrow> ('k, 'a) IncludeEvent \<Rightarrow> bool" where
  "include_event_valid valid EventIncludePoll = True"
| "include_event_valid valid (EventIncludeAddCandidate n) = valid (infoKey n)"
| "include_event_valid valid (EventIncludeMessageResponse n resp) = valid (infoKey n)"
| "include_event_valid valid (EventIncludeMessageFailure n) = valid (infoKey n)"
| "include_event_valid valid IncludeEventNil = False"


section \<open>Refinement\<close>

locale include_env = kad_key_hex K valid len bits + routing_table RT valid bits inv contents
  for K :: "'k Key" and valid :: "'k \<Rightarrow> bool" and len bits
    and RT :: "('k, 'rt, 'z) RoutingTable_scheme" and inv contents
begin

lemma checks_Cons:
  "checks_inv K valid ((s, c) # cs) \<longleftrightarrow> checks_inv K valid cs \<and> s \<notin> fst ` set cs \<and>
     valid (infoKey (chNodeInfo c)) \<and> s = hex (infoKey (chNodeInfo c))"
  by (auto simp: checks_inv_def HexString_eq_hex)

lemma checks_lookup:
  "checks_inv K valid cs \<Longrightarrow> valid k \<Longrightarrow> map_of cs (hex k) = abs_checks cs k"
  by (induction cs) (auto simp: checks_Cons abs_checks_def hex_inj)

lemma dom_abs_checks: "dom (abs_checks cs) = (\<lambda>c. infoKey (chNodeInfo (snd c))) ` set cs"
  by (force simp: abs_checks_def dom_map_of_conv_image_fst)

lemma checks_distinct:
  "checks_inv K valid cs \<Longrightarrow> distinct (map (\<lambda>c. infoKey (chNodeInfo (snd c))) cs)"
proof (induction cs)
  case (Cons e cs)
  obtain s c where e: "e = (s, c)" by force
  have "infoKey (chNodeInfo c) \<notin> dom (abs_checks cs)"
  proof
    assume "infoKey (chNodeInfo c) \<in> dom (abs_checks cs)"
    with Cons.prems e have "hex (infoKey (chNodeInfo c)) \<in> fst ` set cs"
      by (auto simp: checks_Cons simp flip: checks_lookup dest!: map_of_SomeD intro: rev_image_eqI)
    with Cons.prems e show False by (auto simp: checks_Cons)
  qed
  with Cons e show ?case by (auto simp: checks_Cons dom_abs_checks image_iff)
qed simp

lemma card_checks: "checks_inv K valid cs \<Longrightarrow> card (dom (abs_checks cs)) = length cs"
  using distinct_card [OF checks_distinct, of cs] by (simp add: dom_abs_checks)

lemma checks_delete:
  assumes "checks_inv K valid cs" "valid k"
  shows "abs_checks (AList.delete (hex k) cs) = (abs_checks cs)(k := None) \<and>
    checks_inv K valid (AList.delete (hex k) cs)"
  using assms
proof (induction cs)
  case (Cons e cs)
  then show ?case
    by (cases e) (auto simp: checks_Cons keys_delete hex_inj abs_checks_def fun_eq_iff)
qed (simp add: abs_checks_def checks_inv_def)

lemma checks_insert:
  assumes "checks_inv K valid cs" "valid (infoKey (chNodeInfo c))" "infoKey (chNodeInfo c) \<notin> dom (abs_checks cs)"
  shows "abs_checks (AList.update (hex (infoKey (chNodeInfo c))) c cs) =
      (abs_checks cs)(infoKey (chNodeInfo c) \<mapsto> c)"
    and "checks_inv K valid (AList.update (hex (infoKey (chNodeInfo c))) c cs)"
    and "length (AList.update (hex (infoKey (chNodeInfo c))) c cs) = Suc (length cs)"
proof -
  have new: "hex (infoKey (chNodeInfo c)) \<notin> fst ` set cs"
    using assms checks_lookup [OF assms(1,2)] by (simp add: domIff map_of_eq_None_iff)
  with assms show "abs_checks (AList.update (hex (infoKey (chNodeInfo c))) c cs) =
      (abs_checks cs)(infoKey (chNodeInfo c) \<mapsto> c)"
    by (auto simp: update_new abs_checks_def map_add_def fun_eq_iff domIff split: option.splits)
  show "checks_inv K valid (AList.update (hex (infoKey (chNodeInfo c))) c cs)"
    using assms(1,2) new by (auto simp: update_new checks_inv_def HexString_hex)
  show "length (AList.update (hex (infoKey (chNodeInfo c))) c cs) = Suc (length cs)"
    using new by (simp add: length_update)
qed

lemma queue_keys:
  assumes "queue_inv K valid q"
  shows "fst ` set (nq_keys q) = (\<lambda>n. hex (infoKey n)) ` set (nq_nodes q)"
proof -
  have "Some ` fst ` set (nq_keys q) = Some ` (\<lambda>n. hex (infoKey n)) ` set (nq_nodes q)"
    using assms by (auto simp: queue_inv_def HexString_hex image_image cong: image_cong_simp)
  then show ?thesis by (simp only: inj_image_eq_iff [OF inj_Some])
qed

lemma Enqueue_law:
  assumes "queue_inv K valid q" "valid (infoKey n)" "HasCapacity q"
  shows "\<exists>q' r. Enqueue K q n = Some (q', r) \<and> queue_inv K valid q' \<and> nq_capacity q' = nq_capacity q \<and>
    r = (infoKey n \<notin> infoKey ` set (nq_nodes q)) \<and>
    nq_nodes q' = (if r then nq_nodes q @ [n] else nq_nodes q)"
proof -
  have "hex (infoKey n) \<in> fst ` set (nq_keys q) \<longleftrightarrow> infoKey n \<in> infoKey ` set (nq_nodes q)"
    using assms queue_keys [OF assms(1)] by (force simp: queue_inv_def hex_inj)
  then show ?thesis
    using assms
    by (auto simp: Enqueue_def HasCapacity_def HexString_hex map_of_eq_None_iff queue_inv_def
        update_new)
qed

lemma Dequeue_law:
  assumes "queue_inv K valid q"
  shows "\<exists>q'. Dequeue K q = Some (q', case nq_nodes q of [] \<Rightarrow> None | n # _ \<Rightarrow> Some n) \<and>
    queue_inv K valid q' \<and> nq_capacity q' = nq_capacity q \<and> nq_nodes q' = tl (nq_nodes q)"
proof (cases "nq_nodes q")
  case Nil
  with assms show ?thesis by (simp add: Dequeue_def)
next
  case (Cons n ns)
  have v: "valid (infoKey n)" "\<And>m. m \<in> set ns \<Longrightarrow> valid (infoKey m)" "infoKey n \<notin> infoKey ` set ns"
    using assms Cons by (auto simp: queue_inv_def)
  have "fst ` set (AList.delete (hex (infoKey n)) (nq_keys q)) = (\<lambda>n. hex (infoKey n)) ` set ns"
    using v queue_keys [OF assms] Cons by (auto simp: keys_delete hex_inj image_iff)
  then have "Some ` fst ` set (AList.delete (hex (infoKey n)) (nq_keys q)) =
      (\<lambda>n. HexString K (infoKey n)) ` set ns"
    using v by (simp add: image_image HexString_hex cong: image_cong_simp)
  with assms Cons v show ?thesis
    by (simp add: Dequeue_def HexString_hex queue_inv_def distinct_delete_keys)
qed


lemma include_invD:
  assumes "include_inv K valid inv contents b"
  shows "inv (i_rt b)" "queue_inv K valid (i_candidates b)" "checks_inv K valid (i_checks b)"
    "nq_capacity (i_candidates b) = icQueueCapacity (i_cfg b)"
    "int (length (i_checks b)) \<le> icConcurrency (i_cfg b)"
    "int (length (nq_nodes (i_candidates b))) \<le> icQueueCapacity (i_cfg b)"
    "IncludeConfig_Validate (i_cfg b) = None"
  using assms by (auto simp: include_inv_def queue_inv_def)

lemma disjoint_mono: "A \<inter> X = {} \<Longrightarrow> Y \<subseteq> X \<Longrightarrow> A \<inter> Y = {}"
  by blast

lemma include_inv_queue:
  assumes b: "include_inv K valid inv contents b" and q: "queue_inv K valid q"
    "nq_capacity q = nq_capacity (i_candidates b)"
    and sub: "infoKey ` set (nq_nodes q) \<subseteq> infoKey ` set (nq_nodes (i_candidates b))"
  shows "include_inv K valid inv contents (b\<lparr>i_candidates := q\<rparr>)"
proof -
  have "dom (abs_checks (i_checks b)) \<inter> infoKey ` set (nq_nodes q) = {}"
    "dom (contents (i_rt b)) \<inter> (dom (abs_checks (i_checks b)) \<union> infoKey ` set (nq_nodes q)) = {}"
    using b disjoint_mono [OF _ sub] disjoint_mono [OF _ Un_mono [OF subset_refl sub]]
    unfolding include_inv_def by blast+
  with b q show ?thesis by (simp add: include_inv_def)
qed

text \<open>Forgetting a check keeps the invariant.\<close>

lemma include_inv_delete:
  assumes "include_inv K valid inv contents b" "valid k"
  shows "include_inv K valid inv contents (b\<lparr>i_checks := AList.delete (hex k) (i_checks b)\<rparr>)"
    and "include_abs contents (b\<lparr>i_checks := AList.delete (hex k) (i_checks b)\<rparr>) =
      include_abs contents b\<lparr>a_checks := (abs_checks (i_checks b))(k := None)\<rparr>"
proof -
  note D = checks_delete [OF include_invD(3) [OF assms(1)] assms(2)]
  have "length (AList.delete (hex k) (i_checks b)) \<le> length (i_checks b)"
    by (rule length_delete_le)
  then show "include_inv K valid inv contents (b\<lparr>i_checks := AList.delete (hex k) (i_checks b)\<rparr>)"
    using assms D by (auto simp: include_inv_def)
  show "include_abs contents (b\<lparr>i_checks := AList.delete (hex k) (i_checks b)\<rparr>) =
      include_abs contents b\<lparr>a_checks := (abs_checks (i_checks b))(k := None)\<rparr>"
    using D by (simp add: include_abs_def)
qed

lemma includeEvent_add:
  assumes b: "include_inv K valid inv contents b" and v: "valid (infoKey n)"
  shows "\<exists>b' st. includeEvent K RT b (EventIncludeAddCandidate n) = Some (b', st) \<and>
    include_inv K valid inv contents b' \<and> i_cfg b' = i_cfg b \<and>
    include_event (i_cfg b) (include_abs contents b) (EventIncludeAddCandidate n) (include_abs contents b') st"
proof -
  note D = include_invD [OF b]
  have ev: "includeEvent K RT b (EventIncludeAddCandidate n) =
      (if infoKey n \<in> dom (abs_checks (i_checks b)) \<union> dom (contents (i_rt b)) then Some (b, None)
       else if \<not> HasCapacity (i_candidates b) then Some (b, Some StateIncludeWaitingFull)
       else map_option (\<lambda>(q, _). (b\<lparr>i_candidates := q\<rparr>, None)) (Enqueue K (i_candidates b) n))"
    using D v by (auto simp: includeEvent_def HexString_hex checks_lookup GetNode_law
        map_option_case domIff split: option.splits)
  show ?thesis
  proof (cases "infoKey n \<in> dom (abs_checks (i_checks b)) \<union> dom (contents (i_rt b))")
    case True
    with b ev show ?thesis
      by (intro exI [of _ b] exI [of _ None]) (simp add: include_event.known include_abs_def)
  next
    case new: False
    show ?thesis
    proof (cases "HasCapacity (i_candidates b)")
      case False
      then have "int (length (nq_nodes (i_candidates b))) = icQueueCapacity (i_cfg b)"
        using D(4,6) by (simp add: HasCapacity_def)
      with new have "include_event (i_cfg b) (include_abs contents b) (EventIncludeAddCandidate n)
          (include_abs contents b) (Some StateIncludeWaitingFull)"
        by (intro include_event.full) (simp_all add: include_abs_def)
      with ev b new False show ?thesis by simp
    next
      case True
      obtain q r where q: "Enqueue K (i_candidates b) n = Some (q, r)" "queue_inv K valid q"
        "nq_capacity q = nq_capacity (i_candidates b)"
        "r = (infoKey n \<notin> infoKey ` set (nq_nodes (i_candidates b)))"
        "nq_nodes q = (if r then nq_nodes (i_candidates b) @ [n] else nq_nodes (i_candidates b))"
        using Enqueue_law [OF D(2) v True] by blast
      have cap: "int (length (nq_nodes (i_candidates b))) < icQueueCapacity (i_cfg b)"
        using True D(4) by (simp add: HasCapacity_def)
      have "include_inv K valid inv contents (b\<lparr>i_candidates := q\<rparr>)"
        using b q new by (auto simp: include_inv_def)
      moreover have "include_event (i_cfg b) (include_abs contents b) (EventIncludeAddCandidate n)
          (include_abs contents (b\<lparr>i_candidates := q\<rparr>)) None"
      proof (cases r)
        case True
        then have eq: "include_abs contents (b\<lparr>i_candidates := q\<rparr>) =
            include_abs contents b\<lparr>a_queue := a_queue (include_abs contents b) @ [n]\<rparr>"
          using q by (simp add: include_abs_def)
        show ?thesis unfolding eq using True q new cap
          by (intro include_event.enqueue) (simp_all add: include_abs_def)
      next
        case False
        then have eq: "include_abs contents (b\<lparr>i_candidates := q\<rparr>) = include_abs contents b"
          using q by (simp add: include_abs_def)
        show ?thesis unfolding eq using False q new cap
          by (intro include_event.queued) (simp_all add: include_abs_def)
      qed
      ultimately show ?thesis using ev new True q by simp
    qed
  qed
qed

lemma includeEvent_response:
  assumes b: "include_inv K valid inv contents b" and v: "valid (infoKey n)"
  shows "\<exists>b' st. includeEvent K RT b (EventIncludeMessageResponse n resp) = Some (b', st) \<and>
    include_inv K valid inv contents b' \<and> i_cfg b' = i_cfg b \<and>
    include_event (i_cfg b) (include_abs contents b) (EventIncludeMessageResponse n resp)
      (include_abs contents b') st"
proof (cases "abs_checks (i_checks b) (infoKey n)")
  case None
  with b v show ?thesis
    by (intro exI [of _ b] exI [of _ None])
      (simp add: includeEvent_def HexString_hex checks_lookup include_invD include_event.unexpected
        include_abs_def domIff)
next
  case (Some ch)
  define b1 where "b1 = b\<lparr>i_checks := AList.delete (hex (infoKey n)) (i_checks b)\<rparr>"
  note b1 = include_inv_delete [OF b v, folded b1_def]
  have ev: "includeEvent K RT b (EventIncludeMessageResponse n resp) =
      (if resp = None \<or> CloserNodes (the resp) = [] then Some (b1, None)
       else map_option (\<lambda>(rt, added). (b1\<lparr>i_rt := rt\<rparr>,
         if added then Some (StateIncludeRoutingUpdated (chNodeInfo ch)) else None)) (AddNode RT (i_rt b) (infoID n)))"
    using Some b v by (cases resp) (auto simp: includeEvent_def HexString_hex checks_lookup include_invD
        b1_def Let_def map_option_case split: option.splits)
  have chk: "a_checks (include_abs contents b) (infoKey n) = Some ch" using Some by (simp add: include_abs_def)
  show ?thesis
  proof (cases "resp = None \<or> CloserNodes (the resp) = []")
    case True
    have "include_event (i_cfg b) (include_abs contents b) (EventIncludeMessageResponse n resp)
        (include_abs contents b1) None"
      using include_event.useless [of n "include_abs contents b" resp] True chk b1(2)
      by (auto simp: include_abs_def)
    with ev True b1(1) show ?thesis by (auto simp: b1_def)
  next
    case False
    then obtain r where r: "resp = Some r" "CloserNodes r \<noteq> []" by auto
    obtain rt added where rt: "AddNode RT (i_rt b) (infoID n) = Some (rt, added)" "inv rt"
      "contents rt = (if added \<and> infoKey n \<notin> dom (contents (i_rt b))
        then (contents (i_rt b))(infoKey n \<mapsto> infoID n) else contents (i_rt b))"
      using AddNode_law [OF include_invD(1) [OF b] v] by blast
    have new: "infoKey n \<notin> dom (contents (i_rt b))" "infoKey n \<notin> infoKey ` set (nq_nodes (i_candidates b))"
      using b Some by (auto simp: include_inv_def)
    have gone: "infoKey n \<notin> dom (abs_checks (i_checks b1))"
      using checks_delete [OF include_invD(3) [OF b] v] by (simp add: b1_def)
    have "include_inv K valid inv contents (b1\<lparr>i_rt := rt\<rparr>)"
      using b1(1) rt new gone by (auto simp: include_inv_def b1_def)
    moreover have "include_event (i_cfg b) (include_abs contents b) (EventIncludeMessageResponse n resp)
        (include_abs contents (b1\<lparr>i_rt := rt\<rparr>))
        (if added then Some (StateIncludeRoutingUpdated (chNodeInfo ch)) else None)"
      using include_event.added [OF chk r(2), of "i_cfg b"]
        include_event.refused [of n "include_abs contents b" r "i_cfg b"] chk r(2) b1(2) rt(3) new(1) r(1)
      by (auto simp: include_abs_def b1_def split: if_splits)
    ultimately show ?thesis using ev False rt by (auto simp: b1_def)
  qed
qed

lemma includeEvent_law:
  assumes b: "include_inv K valid inv contents b" and v: "include_event_valid valid ev"
  shows "\<exists>b' st. includeEvent K RT b ev = Some (b', st) \<and>
    include_inv K valid inv contents b' \<and> i_cfg b' = i_cfg b \<and>
    include_event (i_cfg b) (include_abs contents b) ev (include_abs contents b') st"
proof (cases ev)
  case EventIncludePoll
  with b show ?thesis by (simp add: includeEvent_def include_event.poll)
next
  case (EventIncludeMessageFailure n)
  with v have n: "valid (infoKey n)" by simp
  have "include_event (i_cfg b) (include_abs contents b) ev
      (include_abs contents (b\<lparr>i_checks := AList.delete (hex (infoKey n)) (i_checks b)\<rparr>)) None"
    using include_event.failed [of "i_cfg b" "include_abs contents b" n] EventIncludeMessageFailure
      include_inv_delete(2) [OF b n] by (simp add: include_abs_def)
  with include_inv_delete(1) [OF b n] EventIncludeMessageFailure n show ?thesis
    by (simp add: includeEvent_def HexString_hex)
qed (use includeEvent_add includeEvent_response b v in \<open>auto\<close>)

theorem Include_Advance_law:
  assumes b: "include_inv K valid inv contents b" and v: "include_event_valid valid ev"
  shows "\<exists>b' st. Include_Advance K RT now b ev = Some (b', st) \<and>
    include_inv K valid inv contents b' \<and> i_cfg b' = i_cfg b \<and>
    include_step (i_cfg b) now (include_abs contents b) ev (include_abs contents b') st"
proof -
  obtain b1 st where b1: "includeEvent K RT b ev = Some (b1, st)" "include_inv K valid inv contents b1"
    "i_cfg b1 = i_cfg b" "include_event (i_cfg b) (include_abs contents b) ev (include_abs contents b1) st"
    using includeEvent_law [OF assms] by blast
  show ?thesis
  proof (cases st)
    case (Some s)
    with b1 show ?thesis by (auto simp: Include_Advance_def include_step_def)
  next
    case None
    have "\<exists>b' st'. Include_Advance K RT now b ev = Some (b', st') \<and>
      include_inv K valid inv contents b' \<and> i_cfg b' = i_cfg b \<and>
      (include_abs contents b', st') = include_next (i_cfg b) now (include_abs contents b1)"
    proof -
      note D = include_invD [OF b1(2)]
      have card: "card (dom (abs_checks (i_checks b1))) = length (i_checks b1)"
        using D(3) by (rule card_checks)
      show ?thesis
      proof (cases "int (length (i_checks b1)) = icConcurrency (i_cfg b)")
        case True
        with b1 None D card show ?thesis
          by (auto simp: Include_Advance_def include_next_def include_abs_def HasCapacity_def)
      next
        case room: False
        obtain q where q: "Dequeue K (i_candidates b1) =
            Some (q, case nq_nodes (i_candidates b1) of [] \<Rightarrow> None | n # _ \<Rightarrow> Some n)"
          "queue_inv K valid q" "nq_capacity q = nq_capacity (i_candidates b1)"
          "nq_nodes q = tl (nq_nodes (i_candidates b1))"
          using Dequeue_law [OF D(2)] by blast
        have inv2: "include_inv K valid inv contents (b1\<lparr>i_candidates := q\<rparr>)"
        proof -
          have "infoKey ` set (nq_nodes q) \<subseteq> infoKey ` set (nq_nodes (i_candidates b1))"
            using q(4) by (cases "nq_nodes (i_candidates b1)") auto
          then show ?thesis using include_inv_queue [OF b1(2) q(2,3)] by blast
        qed
        show ?thesis
        proof (cases "nq_nodes (i_candidates b1)")
          case Nil
          have "abs_checks (i_checks b1) = Map.empty \<longleftrightarrow> i_checks b1 = []"
            using card by (auto simp: abs_checks_def)
          with b1 None room q Nil card inv2 show ?thesis
            by (auto simp: Include_Advance_def include_next_def include_abs_def)
        next
          case (Cons n ns)
          have n: "valid (infoKey n)" "infoKey n \<notin> dom (abs_checks (i_checks b1))"
            "infoKey n \<notin> dom (contents (i_rt b1))" "infoKey n \<notin> infoKey ` set ns"
            using b1(2) Cons by (auto simp: include_inv_def queue_inv_def)
          note ins = checks_insert [OF D(3), of "\<lparr>chNodeInfo = n, chStarted = now\<rparr>", simplified, OF n(1,2)]
          have "include_inv K valid inv contents (b1\<lparr>i_candidates := q, i_checks :=
              AList.update (hex (infoKey n)) \<lparr>chNodeInfo = n, chStarted = now\<rparr> (i_checks b1)\<rparr>)"
            using inv2 ins n q(4) Cons room D(5) b1(3) by (auto simp: include_inv_def)
          then show ?thesis using b1 None room q(1,4) Cons card ins(1) n(1)
            by (simp add: Include_Advance_def include_next_def include_abs_def HexString_hex)
        qed
      qed
    qed
    with b1(4) None show ?thesis by (auto simp: include_step_def)
  qed
qed

lemma Validate_pos:
  "IncludeConfig_Validate cfg = None \<Longrightarrow> 0 < icConcurrency cfg \<and> 0 < icQueueCapacity cfg"
  by (auto simp: IncludeConfig_Validate_def split: if_splits)

lemma default_valid: "IncludeConfig_Validate DefaultIncludeConfig = None"
  by (simp add: DefaultIncludeConfig_def IncludeConfig_Validate_def Minute_def Second_def)

lemma NewInclude_law:
  assumes "inv rt" "NewInclude rt cfg = Inr (b :: ('k, 'a, 'rt) Include)"
  shows "include_inv K valid inv contents b" "i_rt b = rt" "i_checks b = []"
proof -
  have "\<exists>c. IncludeConfig_Validate c = None \<and> b = \<lparr>i_rt = rt, i_checks = [],
      i_candidates = newNodeQueue (icQueueCapacity c), i_cfg = c\<rparr>"
    using assms(2) default_valid by (auto simp: NewInclude_def Let_def split: option.splits)
  then obtain c where c: "IncludeConfig_Validate c = None" "b = \<lparr>i_rt = rt, i_checks = [],
      i_candidates = newNodeQueue (icQueueCapacity c), i_cfg = c\<rparr>" by blast
  show "include_inv K valid inv contents b" "i_rt b = rt" "i_checks b = []"
    using assms(1) c Validate_pos [OF c(1)]
    by (simp_all add: include_inv_def queue_inv_def checks_inv_def newNodeQueue_def abs_checks_def)
qed

text \<open>The whole check of a candidate by an idle machine.\<close>

lemma candidate_included:
  assumes b: "include_inv K valid inv contents b" and n: "valid (infoKey n)"
    and idle: "i_checks b = []" "nq_nodes (i_candidates b) = []" "infoKey n \<notin> dom (contents (i_rt b))"
    and r: "CloserNodes r \<noteq> []" and rt: "AddNode RT (i_rt b) (infoID n) = Some (rt', True)"
  shows "\<exists>b1 b2. Include_Advance K RT now b (EventIncludeAddCandidate n) =
      Some (b1, StateIncludeFindNodeMessage n) \<and>
    Include_Advance K RT later b1 (EventIncludeMessageResponse n (Some r)) =
      Some (b2, StateIncludeRoutingUpdated n) \<and>
    GetNode RT (i_rt b2) (infoKey n) = Some (Some (infoID n)) \<and> i_checks b2 = []"
proof -
  note D = include_invD [OF b]
  have keys: "nq_keys (i_candidates b) = []" using queue_keys [OF D(2)] idle(2) by simp
  have pos: "0 < icConcurrency (i_cfg b)" "0 < nq_capacity (i_candidates b)"
    using Validate_pos [OF D(7)] D(4) by auto
  have get: "GetNode RT (i_rt b) (infoKey n) = Some None"
    using GetNode_law [OF D(1) n] idle(3) by (simp add: domIff)
  have found: "GetNode RT rt' (infoKey n) = Some (Some (infoID n))"
    using AddNode_law [OF D(1) n] rt idle(3) GetNode_law [of rt' "infoKey n"] n by (auto simp: domIff)
  have "Include_Advance K RT now b (EventIncludeAddCandidate n) =
      Some (b\<lparr>i_checks := [(hex (infoKey n), \<lparr>chNodeInfo = n, chStarted = now\<rparr>)]\<rparr>, StateIncludeFindNodeMessage n)"
    using idle(1,2) keys pos get n
    by (simp add: Include_Advance_def includeEvent_def Enqueue_def Dequeue_def HasCapacity_def HexString_hex)
  moreover have "Include_Advance K RT later
      (b\<lparr>i_checks := [(hex (infoKey n), \<lparr>chNodeInfo = n, chStarted = now\<rparr>)]\<rparr>)
      (EventIncludeMessageResponse n (Some r)) = Some (b\<lparr>i_checks := [], i_rt := rt'\<rparr>, StateIncludeRoutingUpdated n)"
    using idle r rt n by (simp add: Include_Advance_def includeEvent_def HexString_hex)
  ultimately show ?thesis using found by simp
qed

end

section \<open>Runs\<close>

fun include_run ::
  "'k Key \<Rightarrow> ('k, 'rt, 'z) RoutingTable_scheme \<Rightarrow> ('k, 'a, 'rt) Include \<Rightarrow>
   (time \<times> ('k, 'a) IncludeEvent) list \<Rightarrow> (('k, 'a, 'rt) Include \<times> ('k, 'a) IncludeState list) option" where
  "include_run K RT b [] = Some (b, [])"
| "include_run K RT b ((now, ev) # evs) = do {
     (b1, st) \<leftarrow> Include_Advance K RT now b ev;
     (b2, sts) \<leftarrow> include_run K RT b1 evs;
     Some (b2, st # sts)
   }"

definition useful_response :: "'k \<Rightarrow> ('k, 'a) IncludeEvent \<Rightarrow> bool" where
  "useful_response k ev \<longleftrightarrow>
     (\<exists>n r. ev = EventIncludeMessageResponse n (Some r) \<and> infoKey n = k \<and> CloserNodes r \<noteq> [])"

definition message_to :: "'k \<Rightarrow> ('k, 'a) IncludeState \<Rightarrow> bool" where
  "message_to k st \<longleftrightarrow> (\<exists>n. st = StateIncludeFindNodeMessage n \<and> infoKey n = k)"

lemma include_next_table [simp]: "a_table (fst (include_next cfg now a)) = a_table a"
  by (auto simp: include_next_def split: list.splits)

lemma include_next_checks:
  "k \<in> dom (a_checks (fst (include_next cfg now a))) \<Longrightarrow>
   k \<in> dom (a_checks a) \<or> message_to k (snd (include_next cfg now a))"
  by (auto simp: include_next_def message_to_def split: list.splits if_splits)

lemma include_event_sound:
  assumes "include_event cfg a ev a' st"
  shows "k \<in> dom (a_table a') \<Longrightarrow> k \<in> dom (a_table a) \<or> k \<in> dom (a_checks a) \<and> useful_response k ev"
    and "k \<in> dom (a_checks a') \<Longrightarrow> k \<in> dom (a_checks a)"
  using assms by (auto simp: useful_response_def elim!: include_event.cases split: if_splits)

lemma include_step_sound:
  assumes "include_step cfg now a ev a' st"
  shows "k \<in> dom (a_table a') \<Longrightarrow> k \<in> dom (a_table a) \<or> k \<in> dom (a_checks a) \<and> useful_response k ev"
    and "k \<in> dom (a_checks a') \<Longrightarrow> k \<in> dom (a_checks a) \<or> message_to k st"
proof -
  consider "include_event cfg a ev a' (Some st)"
    | a1 where "include_event cfg a ev a1 None" "a' = fst (include_next cfg now a1)"
      "st = snd (include_next cfg now a1)"
    using assms by (auto simp: include_step_def prod_eq_iff)
  note C = this
  show "k \<in> dom (a_table a') \<Longrightarrow> k \<in> dom (a_table a) \<or> k \<in> dom (a_checks a) \<and> useful_response k ev"
    by (rule C) (use include_event_sound(1) in \<open>fastforce+\<close>)
  show "k \<in> dom (a_checks a') \<Longrightarrow> k \<in> dom (a_checks a) \<or> message_to k st"
    by (rule C) (use include_event_sound(2) include_next_checks in \<open>metis+\<close>)
qed

context include_env
begin

lemma include_run_law:
  assumes "include_inv K valid inv contents b" "\<forall>(now, ev) \<in> set evs. include_event_valid valid ev"
  shows "\<exists>b' sts. include_run K RT b evs = Some (b', sts) \<and> include_inv K valid inv contents b' \<and>
    i_cfg b' = i_cfg b \<and> length sts = length evs \<and>
    (\<forall>k \<in> dom (contents (i_rt b')) - dom (contents (i_rt b)). \<exists>j < length evs.
       useful_response k (snd (evs ! j)) \<and>
       (k \<in> dom (abs_checks (i_checks b)) \<or> (\<exists>i < j. message_to k (sts ! i))))"
  using assms
proof (induction evs arbitrary: b)
  case Nil
  then show ?case by simp
next
  case (Cons e evs)
  obtain now ev where e: "e = (now, ev)" by force
  obtain b1 st where b1: "Include_Advance K RT now b ev = Some (b1, st)"
    "include_inv K valid inv contents b1" "i_cfg b1 = i_cfg b"
    "include_step (i_cfg b) now (include_abs contents b) ev (include_abs contents b1) st"
    using Include_Advance_law [OF Cons.prems(1), of ev now] Cons.prems(2) e by auto
  note S = include_step_sound [OF b1(4), unfolded include_abs_def include_abs.simps]
  obtain b' sts where b': "include_run K RT b1 evs = Some (b', sts)"
    "include_inv K valid inv contents b'" "i_cfg b' = i_cfg b" "length sts = length evs"
    "\<forall>k \<in> dom (contents (i_rt b')) - dom (contents (i_rt b1)). \<exists>j < length evs.
       useful_response k (snd (evs ! j)) \<and>
       (k \<in> dom (abs_checks (i_checks b1)) \<or> (\<exists>i < j. message_to k (sts ! i)))"
    using Cons.IH [OF b1(2)] Cons.prems(2) b1(3) by auto
  have "\<exists>j < length (e # evs). useful_response k (snd ((e # evs) ! j)) \<and>
      (k \<in> dom (abs_checks (i_checks b)) \<or> (\<exists>i < j. message_to k ((st # sts) ! i)))"
    if k: "k \<in> dom (contents (i_rt b')) - dom (contents (i_rt b))" for k
  proof (cases "k \<in> dom (contents (i_rt b1))")
    case True
    with S(1) k e show ?thesis by (intro exI [of _ 0]) auto
  next
    case False
    with b'(5) k obtain j where j: "j < length evs" "useful_response k (snd (evs ! j))"
      "k \<in> dom (abs_checks (i_checks b1)) \<or> (\<exists>i < j. message_to k (sts ! i))" by blast
    from j(3) have "k \<in> dom (abs_checks (i_checks b)) \<or> (\<exists>i < Suc j. message_to k ((st # sts) ! i))"
      using S(2) by (metis Suc_less_eq nth_Cons_0 nth_Cons_Suc zero_less_Suc)
    with j show ?thesis by (intro exI [of _ "Suc j"]) simp
  qed
  with b' b1 e show ?case by simp
qed

end

text \<open>The machine runs over both tables of the repository, for every key type.\<close>

sublocale kad_key_hex \<subseteq> trie_include: include_env K valid len bits "TrieRT_methods K"
  "trie_rt_inv valid bits" trie_rt_contents
  by (rule include_env.intro [OF kad_key_hex_axioms trt.routing_table_axioms])

sublocale kad_key_hex \<subseteq> simple_include: include_env K valid len bits "SimpleRT_methods K"
  "simple_rt_inv valid bits" simple_rt_contents
  by (rule include_env.intro [OF kad_key_hex_axioms srt.routing_table_axioms])

section \<open>Properties\<close>

text \<open>C26: One step of the include machine, on any routing table that meets its contract, never
  panics, keeps the invariant, and implements the abstract machine: the two maps keyed by
  hexadecimal strings behave as the set of checks by key and the queue as a bounded queue of
  unique nodes.\<close>

theorem include_refines_abstract:
  assumes "kad_key_hex K valid len bits" and "routing_table RT valid bits rtinv contents"
    and "include_inv K valid rtinv contents b" and "include_event_valid valid ev"
  shows "\<exists>b' st. Include_Advance K RT now b ev = Some (b', st) \<and>
    include_inv K valid rtinv contents b' \<and> i_cfg b' = i_cfg b \<and>
    include_step (i_cfg b) now (include_abs contents b) ev (include_abs contents b') st"
  by (rule include_env.Include_Advance_law [OF include_env.intro [OF assms(1,2)] assms(3,4)])

definition info8 :: "key8 \<Rightarrow> (key8, unit) NodeInfo" where
  "info8 k = \<lparr>infoID = node8 k, infoAddresses = []\<rparr>"

definition include8 :: "(key8, unit, key8 TrieRT) Include" where
  "include8 = \<lparr>i_rt = triert8, i_checks = [], i_candidates = newNodeQueue 128, i_cfg = DefaultIncludeConfig\<rparr>"

lemma include8_new: "NewInclude triert8 None = Inr include8"
  by (simp add: NewInclude_def include8_def DefaultIncludeConfig_def)

lemmas include8_inv = key8.trie_include.NewInclude_law [OF triert8_inv include8_new]

theorem include_refines_abstract_witness:
  "\<exists>b' st. Include_Advance Key8 (TrieRT_methods Key8) 7 include8 (EventIncludeAddCandidate (info8 5)) = Some (b', st) \<and>
    include_inv Key8 (\<lambda>_. True) (trie_rt_inv (\<lambda>_. True) word_bits) trie_rt_contents b' \<and>
    i_cfg b' = i_cfg include8 \<and>
    include_step (i_cfg include8) 7 (include_abs trie_rt_contents include8)
      (EventIncludeAddCandidate (info8 5)) (include_abs trie_rt_contents b') st"
  by (rule include_refines_abstract [OF key8.kad_key_hex_axioms key8.trt.routing_table_axioms
        include8_inv(1)]) simp

text \<open>C4: From \<open>NewInclude\<close> on, under any sequence of events, the include machine never panics,
  runs at most \<open>Concurrency\<close> checks and queues at most \<open>QueueCapacity\<close> candidates; and a node gets
  into the routing table only by answering with at least one closer node after the machine asked
  for a message to it.\<close>

theorem include_adds_checked_nodes:
  assumes "kad_key_hex K valid len bits" and "routing_table RT valid bits rtinv contents"
    and "rtinv rt" and "NewInclude rt cfg = Inr b"
    and "\<forall>(now, ev) \<in> set evs. include_event_valid valid ev"
  shows "\<exists>b' sts. include_run K RT b evs = Some (b', sts) \<and>
    include_inv K valid rtinv contents b' \<and> length sts = length evs \<and>
    int (length (i_checks b')) \<le> icConcurrency (i_cfg b) \<and>
    int (length (nq_nodes (i_candidates b'))) \<le> icQueueCapacity (i_cfg b) \<and>
    (\<forall>k \<in> dom (contents (i_rt b')) - dom (contents rt). \<exists>j < length evs.
       useful_response k (snd (evs ! j)) \<and> (\<exists>i < j. message_to k (sts ! i)))"
proof -
  have env: "include_env K valid len bits RT rtinv contents" using assms(1,2) by (rule include_env.intro)
  note b = include_env.NewInclude_law [OF env assms(3,4)]
  obtain b' sts where r: "include_run K RT b evs = Some (b', sts)" "include_inv K valid rtinv contents b'"
    "i_cfg b' = i_cfg b" "length sts = length evs"
    "\<forall>k \<in> dom (contents (i_rt b')) - dom (contents (i_rt b)). \<exists>j < length evs.
       useful_response k (snd (evs ! j)) \<and>
       (k \<in> dom (abs_checks (i_checks b)) \<or> (\<exists>i < j. message_to k (sts ! i)))"
    using include_env.include_run_law [OF env b(1) assms(5)] by blast
  have none: "dom (abs_checks (i_checks b)) = {}" by (simp add: b(3) abs_checks_def)
  show ?thesis
    using r b(2) include_env.include_invD(5,6) [OF env r(2)] unfolding none by auto
qed

theorem include_adds_checked_nodes_witness:
  "\<exists>b' sts. include_run Key8 (TrieRT_methods Key8) include8
      [(7, EventIncludeAddCandidate (info8 5)),
       (8, EventIncludeMessageResponse (info8 5) (Some \<lparr>CloserNodes = [info8 9]\<rparr>))] = Some (b', sts) \<and>
    int (length (i_checks b')) \<le> 3"
  using include_adds_checked_nodes [OF key8.kad_key_hex_axioms key8.trt.routing_table_axioms
      triert8_inv include8_new, of "[(7, EventIncludeAddCandidate (info8 5)),
       (8, EventIncludeMessageResponse (info8 5) (Some \<lparr>CloserNodes = [info8 9]\<rparr>))]"]
  by (auto simp: include8_def DefaultIncludeConfig_def)

text \<open>From an idle machine, a new candidate is asked for a message to itself at once, and its
  response with at least one closer node puts it into the routing table, where it is found
  afterwards, if the table takes it.\<close>

theorem include_candidate_included:
  assumes "kad_key_hex K valid len bits" and "routing_table RT valid bits rtinv contents"
    and "include_inv K valid rtinv contents b" and "valid (infoKey n)"
    and "i_checks b = []" and "nq_nodes (i_candidates b) = []" and "infoKey n \<notin> dom (contents (i_rt b))"
    and "CloserNodes r \<noteq> []" and "AddNode RT (i_rt b) (infoID n) = Some (rt', True)"
  shows "\<exists>b1 b2. Include_Advance K RT now b (EventIncludeAddCandidate n) =
      Some (b1, StateIncludeFindNodeMessage n) \<and>
    Include_Advance K RT later b1 (EventIncludeMessageResponse n (Some r)) =
      Some (b2, StateIncludeRoutingUpdated n) \<and>
    GetNode RT (i_rt b2) (infoKey n) = Some (Some (infoID n)) \<and> i_checks b2 = []"
  by (rule include_env.candidate_included [OF include_env.intro [OF assms(1,2)] assms(3-9)])

definition include8_empty :: "(key8, unit, key8 TrieRT) Include" where
  "include8_empty = include8\<lparr>i_rt := TrieRT_New (node8 0) None\<rparr>"

lemma include8_empty_inv:
  "include_inv Key8 (\<lambda>_. True) (trie_rt_inv (\<lambda>_. True) word_bits) trie_rt_contents include8_empty"
  "trie_rt_contents (TrieRT_New (node8 0) None) = Map.empty"
proof -
  note N = key8.TrieRT_New_inv [where self = "node8 0" and cfg = None, simplified]
  then show "trie_rt_contents (TrieRT_New (node8 0) None) = Map.empty" by simp
  have "NewInclude (TrieRT_New (node8 0) None) None = Inr include8_empty"
    by (simp add: NewInclude_def include8_def include8_empty_def DefaultIncludeConfig_def)
  with N(1) show "include_inv Key8 (\<lambda>_. True) (trie_rt_inv (\<lambda>_. True) word_bits) trie_rt_contents include8_empty"
    by (rule key8.trie_include.NewInclude_law(1))
qed

theorem include_candidate_included_witness:
  "\<exists>b1 b2. Include_Advance Key8 (TrieRT_methods Key8) 7 include8_empty (EventIncludeAddCandidate (info8 5)) =
      Some (b1, StateIncludeFindNodeMessage (info8 5)) \<and>
    Include_Advance Key8 (TrieRT_methods Key8) 8 b1
      (EventIncludeMessageResponse (info8 5) (Some \<lparr>CloserNodes = [info8 9]\<rparr>)) =
      Some (b2, StateIncludeRoutingUpdated (info8 5)) \<and>
    GetNode (TrieRT_methods Key8) (i_rt b2) (infoKey (info8 5)) = Some (Some (infoID (info8 5))) \<and>
    i_checks b2 = []"
proof (rule include_candidate_included [OF key8.kad_key_hex_axioms key8.trt.routing_table_axioms
      include8_empty_inv(1)])
  show "AddNode (TrieRT_methods Key8) (i_rt include8_empty) (infoID (info8 5)) =
      Some ((TrieRT_New (node8 0) None)\<lparr>rt_trie := Trie None None (Some 5) (Some (node8 5))\<rparr>, True)"
    by (simp add: TrieRT_methods_def TrieRT_AddNode_def TrieRT_filter_def TrieRT_insert_def TrieRT_New_def TrieRT_apply_def
        TrieRT_DefaultConfig_def Add_def addAtDepth.simps New_def IsEmptyLeaf_def IsLeaf_def HasKey_def include8_empty_def info8_def node8_def)
qed (simp_all add: include8_empty_def include8_def newNodeQueue_def include8_empty_inv(2))

end
