(* ===== verification/Go_Heap.thy ===== *)
theory Go_Heap
  imports Kad_Prelude "HOL-Library.Signed_Division"
begin

text \<open>
  Go's package \<open>container/heap\<close>, as far as the probe uses it: the interface as a dictionary of
  methods, \<open>Push\<close>, \<open>Remove\<close>, \<open>Fix\<close> and the two sifting loops over it. An index out of range panics in
  the methods, which is \<open>None\<close>. The contract of the interface is the locale \<open>heap_interface\<close>: the
  methods act on a sequence of elements whose ranks are linearly ordered; in it the package is
  proved to keep the heap order.
\<close>

section \<open>The package\<close>

record ('h, 'e) heapInterface =
  heapLen :: "'h \<Rightarrow> int"
  heapLess :: "'h \<Rightarrow> int \<Rightarrow> int \<Rightarrow> bool option"
  heapSwap :: "'h \<Rightarrow> int \<Rightarrow> int \<Rightarrow> 'h option"
  heapPush :: "'h \<Rightarrow> 'e \<Rightarrow> 'h"
  heapPop :: "'h \<Rightarrow> 'h \<times> 'e option"

text \<open>\<open>down\<close> and \<open>up\<close>: the position where the element comes to rest is returned.\<close>

function heap_downLoop :: "('h, 'e) heapInterface \<Rightarrow> 'h \<Rightarrow> int \<Rightarrow> int \<Rightarrow> ('h \<times> int) option" where
  "heap_downLoop H h i n =
     (let j1 = 2 * i + 1 in
      if j1 \<ge> n \<or> j1 < 0 then Some (h, i)
      else case (if j1 + 1 < n then heapLess H h (j1 + 1) j1 else Some False) of
        None \<Rightarrow> None
      | Some right \<Rightarrow>
          (let j = (if right then j1 + 1 else j1) in
           case heapLess H h j i of
             None \<Rightarrow> None
           | Some lt \<Rightarrow>
               if \<not> lt then Some (h, i)
               else case heapSwap H h i j of
                 None \<Rightarrow> None
               | Some h' \<Rightarrow> heap_downLoop H h' j n))"
  by pat_completeness auto
termination
  by (relation "measure (\<lambda>(H, h, i, n). nat (n - i))") (auto simp: Let_def)

definition heap_down :: "('h, 'e) heapInterface \<Rightarrow> 'h \<Rightarrow> int \<Rightarrow> int \<Rightarrow> ('h \<times> bool) option" where
  "heap_down H h i0 n = do {
     (h', i) \<leftarrow> heap_downLoop H h i0 n;
     Some (h', i > i0)
   }"

lemma half_less: "(j - 1) sdiv 2 \<noteq> j \<Longrightarrow> nat \<bar>(j - 1) sdiv 2\<bar> < nat \<bar>j\<bar>" for j :: int
  by (cases "0 < j") (auto simp: signed_divide_int_def sgn_if abs_if split: if_splits)

function heap_up :: "('h, 'e) heapInterface \<Rightarrow> 'h \<Rightarrow> int \<Rightarrow> 'h option" where
  "heap_up H h j =
     (let i = (j - 1) sdiv 2 in
      if i = j then Some h
      else case heapLess H h j i of
        None \<Rightarrow> None
      | Some lt \<Rightarrow>
          if \<not> lt then Some h
          else case heapSwap H h i j of
            None \<Rightarrow> None
          | Some h' \<Rightarrow> heap_up H h' i)"
  by pat_completeness auto
termination
  by (relation "measure (\<lambda>(H, h, j). nat \<bar>j\<bar>)") (use half_less in auto)

declare heap_downLoop.simps [simp del]
declare heap_up.simps [simp del]

definition heap_Push :: "('h, 'e) heapInterface \<Rightarrow> 'h \<Rightarrow> 'e \<Rightarrow> 'h option" where
  "heap_Push H h x = (let h' = heapPush H h x in heap_up H h' (heapLen H h' - 1))"

definition heap_Fix :: "('h, 'e) heapInterface \<Rightarrow> 'h \<Rightarrow> int \<Rightarrow> 'h option" where
  "heap_Fix H h i = do {
     (h', moved) \<leftarrow> heap_down H h i (heapLen H h);
     if \<not> moved then heap_up H h' i else Some h'
   }"

definition heap_Remove :: "('h, 'e) heapInterface \<Rightarrow> 'h \<Rightarrow> int \<Rightarrow> ('h \<times> 'e option) option" where
  "heap_Remove H h i = do {
     let n = heapLen H h - 1;
     h' \<leftarrow> (if n \<noteq> i then do {
             h1 \<leftarrow> heapSwap H h i n;
             (h2, moved) \<leftarrow> heap_down H h1 i n;
             if \<not> moved then heap_up H h2 i else Some h2
           } else Some h);
     Some (heapPop H h')
   }"

section \<open>Heap order\<close>

text \<open>Ranks by position: the heap order on the first \<open>n\<close> positions, and the heap order with
  position \<open>i\<close> left out, in which the parent of \<open>i\<close> is related to the children of \<open>i\<close> instead.\<close>

abbreviation parent :: "nat \<Rightarrow> nat" where
  "parent j \<equiv> (j - 1) div 2"

definition heap_on :: "(nat \<Rightarrow> 'b::linorder) \<Rightarrow> nat \<Rightarrow> bool" where
  "heap_on f n \<longleftrightarrow> (\<forall>j. 0 < j \<and> j < n \<longrightarrow> f (parent j) \<le> f j)"

definition heap_except :: "(nat \<Rightarrow> 'b::linorder) \<Rightarrow> nat \<Rightarrow> nat \<Rightarrow> bool" where
  "heap_except f n i \<longleftrightarrow>
     (\<forall>j. 0 < j \<and> j < n \<and> j \<noteq> i \<and> parent j \<noteq> i \<longrightarrow> f (parent j) \<le> f j) \<and>
     (\<forall>j. 0 < j \<and> j < n \<and> parent j = i \<and> 0 < i \<longrightarrow> f (parent i) \<le> f j)"

definition up_ok :: "(nat \<Rightarrow> 'b::linorder) \<Rightarrow> nat \<Rightarrow> bool" where
  "up_ok f i \<longleftrightarrow> (0 < i \<longrightarrow> f (parent i) \<le> f i)"

definition down_ok :: "(nat \<Rightarrow> 'b::linorder) \<Rightarrow> nat \<Rightarrow> nat \<Rightarrow> bool" where
  "down_ok f n i \<longleftrightarrow> (\<forall>j. 0 < j \<and> j < n \<and> parent j = i \<longrightarrow> f i \<le> f j)"

lemma heap_onI: "heap_except f n i \<Longrightarrow> up_ok f i \<Longrightarrow> down_ok f n i \<Longrightarrow> heap_on f n"
  unfolding heap_on_def heap_except_def up_ok_def down_ok_def by metis

lemma heap_on_except: "heap_on f n \<Longrightarrow> i < n \<Longrightarrow> heap_except f n i"
proof -
  assume h: "heap_on f n" and i: "i < n"
  have "f (parent i) \<le> f j" if "0 < j" "j < n" "parent j = i" "0 < i" for j
    using h that i unfolding heap_on_def by (meson order_trans)
  with h show ?thesis by (simp add: heap_on_def heap_except_def)
qed

text \<open>Only the rank at \<open>i\<close> changed.\<close>

lemma heap_except_cong:
  assumes "heap_except f n i" "\<And>j. j < m \<Longrightarrow> j \<noteq> i \<Longrightarrow> g j = f j" "m \<le> n" "i < m"
  shows "heap_except g m i"
proof -
  have p: "parent j < m" if "j < m" for j using that by auto
  show ?thesis
    unfolding heap_except_def
  proof (intro conjI allI impI; elim conjE)
    fix j assume j: "0 < j" "j < m" "j \<noteq> i" "parent j \<noteq> i"
    with assms p [of j] show "g (parent j) \<le> g j" by (simp add: heap_except_def)
  next
    fix j assume j: "0 < j" "j < m" "parent j = i" "0 < i"
    then have "j \<noteq> i" "parent i < m" "parent i \<noteq> i" using assms(4) by auto
    with j assms show "g (parent i) \<le> g j" by (simp add: heap_except_def)
  qed
qed

lemma down_step:
  fixes f :: "nat \<Rightarrow> 'b::linorder"
  assumes "heap_except f n i" "0 < j" "j < n" "parent j = i" "f j < f i"
    and "\<And>c. 0 < c \<Longrightarrow> c < n \<Longrightarrow> parent c = i \<Longrightarrow> f j \<le> f c"
  shows "heap_except (f(i := f j, j := f i)) n j" "up_ok (f(i := f j, j := f i)) j"
proof -
  have ij: "i < j" using assms(2,4) by auto
  show "up_ok (f(i := f j, j := f i)) j" using assms ij by (simp add: up_ok_def)
  show "heap_except (f(i := f j, j := f i)) n j"
    unfolding heap_except_def
  proof (intro conjI allI impI; elim conjE)
    fix c assume c: "0 < c" "c < n" "c \<noteq> j" "parent c \<noteq> j"
    then have "parent c < c" by auto
    show "(f(i := f j, j := f i)) (parent c) \<le> (f(i := f j, j := f i)) c"
    proof (cases "c = i")
      case True
      then have "f (parent i) \<le> f j" using assms c by (auto simp: heap_except_def)
      with True c ij \<open>parent c < c\<close> show ?thesis by simp
    next
      case False
      with assms c ij show ?thesis by (auto simp: heap_except_def)
    qed
  next
    fix c assume c: "0 < c" "c < n" "parent c = j" "0 < j"
    then have "j < c" by auto
    with c assms ij show "(f(i := f j, j := f i)) (parent j) \<le> (f(i := f j, j := f i)) c"
      by (auto simp: heap_except_def)
  qed
qed

lemma up_step:
  fixes f :: "nat \<Rightarrow> 'b::linorder"
  assumes "heap_except f n j" "down_ok f n j" "0 < j" "j < n" "f j < f (parent j)"
  shows "heap_except (f(parent j := f j, j := f (parent j))) n (parent j)"
    "down_ok (f(parent j := f j, j := f (parent j))) n (parent j)"
proof -
  define i where "i = parent j"
  have ij: "i < j" using assms(3) by (auto simp: i_def)
  let ?g = "f(i := f j, j := f i)"
  have up: "f (parent c) \<le> f c" if "0 < c" "c < n" "c \<noteq> j" "parent c \<noteq> j" for c
    using assms(1) that by (simp add: heap_except_def)
  have gp: "f i \<le> f c" if "0 < c" "c < n" "parent c = j" for c
    using assms(1,3) that by (auto simp: heap_except_def i_def)
  have dn: "f j \<le> f c" if "0 < c" "c < n" "parent c = j" for c
    using assms(2) that by (simp add: down_ok_def)
  have less: "f j < f i" using assms(5) by (simp add: i_def)
  have "heap_except ?g n i"
    unfolding heap_except_def
  proof (intro conjI allI impI; elim conjE)
    fix c assume c: "0 < c" "c < n" "c \<noteq> i" "parent c \<noteq> i"
    then have cj: "c \<noteq> j" by (auto simp: i_def)
    show "?g (parent c) \<le> ?g c"
      using c cj ij up [of c] gp [of c] by (cases "parent c = j") auto
  next
    fix c assume c: "0 < c" "c < n" "parent c = i" "0 < i"
    then have pi: "parent i < i" "i < n" "i \<noteq> j" "parent i \<noteq> j" using ij assms(4) by auto
    then have pif: "f (parent i) \<le> f i" using up [of i] c(4) by auto
    have "f i \<le> f c" if "c \<noteq> j" using up [of c] c that ij by auto
    with pif pi c ij show "?g (parent i) \<le> ?g c" by (cases "c = j") auto
  qed
  moreover have "down_ok ?g n i"
    unfolding down_ok_def
  proof (intro allI impI; elim conjE)
    fix c assume c: "0 < c" "c < n" "parent c = i"
    then have "i < c" by auto
    have "f i \<le> f c" if "c \<noteq> j" using up [of c] c that ij by auto
    with c ij less \<open>i < c\<close> show "?g i \<le> ?g c" by (cases "c = j") auto
  qed
  ultimately show "heap_except (f(parent j := f j, j := f (parent j))) n (parent j)"
    "down_ok (f(parent j := f j, j := f (parent j))) n (parent j)"
    by (simp_all add: i_def)
qed

text \<open>The first position holds a least rank.\<close>

lemma heap_on_least: "heap_on f n \<Longrightarrow> j < n \<Longrightarrow> f 0 \<le> f j"
proof (induction j rule: less_induct)
  case (less j)
  show ?case
  proof (cases "j = 0")
    case False
    then have "parent j < j" by auto
    with less False have "f 0 \<le> f (parent j)" "f (parent j) \<le> f j" by (auto simp: heap_on_def)
    then show ?thesis by (rule order_trans)
  qed simp
qed

section \<open>The contract of the interface\<close>

text \<open>
  \<open>elems\<close> is the sequence of elements, \<open>val\<close> what an element holds, which the methods do not change,
  and \<open>rank\<close> the order by which they compare; \<open>pushable\<close> says when \<open>Push\<close> may be called.
\<close>

locale heap_interface =
  fixes H :: "('h, 'e) heapInterface"
    and ok :: "'h \<Rightarrow> bool"
    and elems :: "'h \<Rightarrow> 'e list"
    and val :: "'h \<Rightarrow> 'e \<Rightarrow> 'v"
    and rank :: "'v \<Rightarrow> 'b::linorder"
    and pushable :: "'h \<Rightarrow> 'e \<Rightarrow> bool"
  assumes Len_law: "ok h \<Longrightarrow> heapLen H h = int (length (elems h))"
    and Less_law: "ok h \<Longrightarrow> i < length (elems h) \<Longrightarrow> j < length (elems h) \<Longrightarrow>
      heapLess H h (int i) (int j) =
        Some (rank (val h (elems h ! i)) < rank (val h (elems h ! j)))"
    and Swap_law: "ok h \<Longrightarrow> i < length (elems h) \<Longrightarrow> j < length (elems h) \<Longrightarrow>
      \<exists>h'. heapSwap H h (int i) (int j) = Some h' \<and> ok h' \<and> val h' = val h \<and>
        elems h' = (elems h)[i := elems h ! j, j := elems h ! i]"
    and Push_law: "pushable h x \<Longrightarrow> ok (heapPush H h x) \<and> val (heapPush H h x) = val h \<and>
      elems (heapPush H h x) = elems h @ [x]"
    and Pop_law: "ok h \<Longrightarrow> elems h \<noteq> [] \<Longrightarrow> ok (fst (heapPop H h)) \<and> val (fst (heapPop H h)) = val h \<and>
      elems (fst (heapPop H h)) = butlast (elems h)"
    and Pop_empty: "ok h \<Longrightarrow> elems h = [] \<Longrightarrow> fst (heapPop H h) = h"
begin

definition rk :: "'h \<Rightarrow> nat \<Rightarrow> 'b" where
  "rk h i = rank (val h (elems h ! i))"

definition ordered :: "'h \<Rightarrow> bool" where
  "ordered h \<longleftrightarrow> heap_on (rk h) (length (elems h))"

text \<open>A permutation of the first \<open>n\<close> elements.\<close>

definition permuted :: "nat \<Rightarrow> 'h \<Rightarrow> 'h \<Rightarrow> bool" where
  "permuted n h h' \<longleftrightarrow> ok h' \<and> val h' = val h \<and> mset (elems h') = mset (elems h) \<and>
     length (elems h') = length (elems h) \<and> (\<forall>m \<ge> n. elems h' ! m = elems h ! m)"

lemma permuted_refl: "ok h \<Longrightarrow> permuted n h h"
  by (simp add: permuted_def)

lemma permuted_trans: "permuted n a b \<Longrightarrow> permuted n b c \<Longrightarrow> permuted n a c"
  by (simp add: permuted_def)

lemma Swap_permuted:
  assumes "ok h" "i < n" "j < n" "n \<le> length (elems h)"
  obtains h' where "heapSwap H h (int i) (int j) = Some h'" "permuted n h h'"
    "rk h' = (rk h)(i := rk h j, j := rk h i)"
proof -
  obtain h' where h': "heapSwap H h (int i) (int j) = Some h'" "ok h'" "val h' = val h"
    "elems h' = (elems h)[i := elems h ! j, j := elems h ! i]"
    using Swap_law [of h i j] assms by auto
  have "permuted n h h'"
    using h' assms by (auto simp: permuted_def mset_swap)
  moreover have "rk h' = (rk h)(i := rk h j, j := rk h i)"
    using h' assms by (auto simp: rk_def fun_eq_iff nth_list_update)
  ultimately show ?thesis using h'(1) that by blast
qed

lemma downLoop_law:
  assumes "ok h" "i < n" "n \<le> length (elems h)" "heap_except (rk h) n i"
  shows "\<exists>h' k. heap_downLoop H h (int i) (int n) = Some (h', int k) \<and> permuted n h h' \<and>
    i \<le> k \<and> k < n \<and> heap_except (rk h') n k \<and> down_ok (rk h') n k \<and>
    (up_ok (rk h) i \<or> i < k \<longrightarrow> up_ok (rk h') k) \<and> (k = i \<longrightarrow> h' = h)"
  using assms
proof (induction "n - i" arbitrary: h i rule: less_induct)
  case less
  let ?l = "2 * i + 1" and ?r = "2 * i + 2"
  have children: "parent c = i \<longleftrightarrow> c = ?l \<or> c = ?r" if "0 < c" for c using that by auto
  show ?case
  proof (cases "?l < n")
    case False
    then have "down_ok (rk h) n i" by (auto simp: down_ok_def)
    with False less.prems show ?thesis
      by (intro exI [of _ h] exI [of _ i]) (simp add: heap_downLoop.simps Let_def permuted_refl)
  next
    case True
    define j where "j = (if ?r < n \<and> rk h ?r < rk h ?l then ?r else ?l)"
    have j: "j < n" "0 < j" "parent j = i" "i < j" using True by (auto simp: j_def)
    have least: "rk h j \<le> rk h c" if "0 < c" "c < n" "parent c = i" for c
      using that children [of c] by (auto simp: j_def)
    have lens: "i < length (elems h)" "j < length (elems h)" "?l < length (elems h)"
      using less.prems True j by auto
    let ?right = "?r < n \<and> rk h ?r < rk h ?l"
    have first: "(2 * int i + 1 \<ge> int n \<or> 2 * int i + 1 < 0) = False" using True by auto
    have right: "(if 2 * int i + 1 + 1 < int n then heapLess H h (2 * int i + 1 + 1) (2 * int i + 1)
        else Some False) = Some ?right"
      using Less_law [of h ?r ?l] less.prems True lens by (auto simp: rk_def algebra_simps)
    have jj: "(if ?right then 2 * int i + 1 + 1 else 2 * int i + 1) = int j" by (simp add: j_def)
    have lt: "heapLess H h (int j) (int i) = Some (rk h j < rk h i)"
      using Less_law [of h j i] less.prems(1) lens by (simp add: rk_def)
    have eq: "heap_downLoop H h (int i) (int n) =
        (if \<not> rk h j < rk h i then Some (h, int i)
         else case heapSwap H h (int i) (int j) of None \<Rightarrow> None | Some h' \<Rightarrow> heap_downLoop H h' (int j) (int n))"
      by (subst heap_downLoop.simps) (simp only: Let_def first right jj lt option.case if_False)
    show ?thesis
    proof (cases "rk h j < rk h i")
      case False
      then have "down_ok (rk h) n i" using least by (force simp: down_ok_def)
      with False eq less.prems show ?thesis
        by (intro exI [of _ h] exI [of _ i]) (simp add: permuted_refl)
    next
      case lt: True
      obtain h1 where h1: "heapSwap H h (int i) (int j) = Some h1" "permuted n h h1"
        "rk h1 = (rk h)(i := rk h j, j := rk h i)"
        using Swap_permuted [OF less.prems(1,2) j(1) less.prems(3)] by blast
      note st = down_step [OF less.prems(4) j(2,1,3) lt least, folded h1(3)]
      have "n - j < n - i" using j less.prems by auto
      then obtain h' k where h': "heap_downLoop H h1 (int j) (int n) = Some (h', int k)" "permuted n h1 h'"
        "j \<le> k" "k < n" "heap_except (rk h') n k" "down_ok (rk h') n k" "up_ok (rk h') k"
        using less.hyps [of j h1] st h1(2) j(1) less.prems(3) by (auto simp: permuted_def)
      with h1 eq lt j(4) show ?thesis
        by (intro exI [of _ h'] exI [of _ k]) (auto intro: permuted_trans)
    qed
  qed
qed

lemma up_law:
  assumes "ok h" "j < n" "n \<le> length (elems h)" "heap_except (rk h) n j" "down_ok (rk h) n j"
  shows "\<exists>h'. heap_up H h (int j) = Some h' \<and> permuted n h h' \<and> heap_on (rk h') n"
  using assms
proof (induction j arbitrary: h rule: less_induct)
  case (less j)
  show ?case
  proof (cases "j = 0")
    case True
    then have "up_ok (rk h) j" by (simp add: up_ok_def)
    with less.prems heap_onI True show ?thesis
      by (intro exI [of _ h]) (simp add: heap_up.simps signed_divide_int_def permuted_refl)
  next
    case False
    define p where "p = parent j"
    have par: "(int j - 1) sdiv 2 = int p" "p < j"
      using False by (auto simp: p_def signed_divide_int_def sgn_if zdiv_int of_nat_diff)
    have lens: "p < length (elems h)" "j < length (elems h)" using par less.prems by auto
    have "heapLess H h (int j) (int p) = Some (rk h j < rk h p)"
      using Less_law [of h j p] less.prems(1) lens by (simp add: rk_def)
    then have eq: "heap_up H h (int j) =
        (if \<not> rk h j < rk h p then Some h
         else case heapSwap H h (int p) (int j) of None \<Rightarrow> None | Some h' \<Rightarrow> heap_up H h' (int p))"
      using par by (subst heap_up.simps) (simp add: Let_def)
    show ?thesis
    proof (cases "rk h j < rk h p")
      case False
      then have "up_ok (rk h) j" by (simp add: up_ok_def p_def not_less)
      with less.prems heap_onI eq False show ?thesis
        by (intro exI [of _ h]) (simp add: permuted_refl)
    next
      case True
      have pn: "p < n" using par less.prems by simp
      obtain h1 where h1: "heapSwap H h (int p) (int j) = Some h1" "permuted n h h1"
        "rk h1 = (rk h)(p := rk h j, j := rk h p)"
        using Swap_permuted [OF less.prems(1) pn less.prems(2,3)] by blast
      have "0 < j" using \<open>j \<noteq> 0\<close> by simp
      note st = up_step [OF less.prems(4,5) this less.prems(2) True [unfolded p_def], folded p_def, folded h1(3)]
      obtain h' where "heap_up H h1 (int p) = Some h'" "permuted n h1 h'" "heap_on (rk h') n"
        using less.IH [OF par(2), of h1] st h1(2) pn less.prems(3) by (auto simp: permuted_def)
      with h1 eq True show ?thesis
        by (intro exI [of _ h']) (auto intro: permuted_trans)
    qed
  qed
qed

text \<open>The sifting that \<open>Fix\<close> and \<open>Remove\<close> share.\<close>

lemma sift_law:
  assumes "ok h" "i < n" "n \<le> length (elems h)" "heap_except (rk h) n i"
  shows "\<exists>h'. do { (h1, moved) \<leftarrow> heap_down H h (int i) (int n);
      if \<not> moved then heap_up H h1 (int i) else Some h1 } = Some h' \<and>
    permuted n h h' \<and> heap_on (rk h') n"
proof -
  obtain h1 k where h1: "heap_downLoop H h (int i) (int n) = Some (h1, int k)" "permuted n h h1"
    "i \<le> k" "k < n" "heap_except (rk h1) n k" "down_ok (rk h1) n k"
    "i < k \<longrightarrow> up_ok (rk h1) k" "k = i \<longrightarrow> h1 = h"
    using downLoop_law [OF assms] by blast
  show ?thesis
  proof (cases "i < k")
    case True
    with h1 have "heap_on (rk h1) n" by (auto intro: heap_onI)
    with h1 True show ?thesis by (simp add: heap_down_def)
  next
    case False
    with h1(3,8) have k: "k = i" "h1 = h" by auto
    with up_law [of h i n] h1 assms show ?thesis by (simp add: heap_down_def)
  qed
qed

lemma Fix_law:
  assumes "ok h" "i < length (elems h)" "heap_except (rk h) (length (elems h)) i"
  shows "\<exists>h'. heap_Fix H h (int i) = Some h' \<and> ok h' \<and> val h' = val h \<and>
    mset (elems h') = mset (elems h) \<and> ordered h'"
  using sift_law [OF assms(1,2) order_refl assms(3)] Len_law [OF assms(1)]
  by (auto simp: heap_Fix_def permuted_def ordered_def)

lemma Push_heap_law:
  assumes "pushable h x" "ordered h"
  shows "\<exists>h'. heap_Push H h x = Some h' \<and> ok h' \<and> val h' = val h \<and>
    mset (elems h') = add_mset x (mset (elems h)) \<and> ordered h'"
proof -
  let ?h = "heapPush H h x" and ?n = "length (elems h)"
  note P = Push_law [OF assms(1)]
  have lt: "rk ?h j = rk h j" if "j < ?n" for j using P that by (simp add: rk_def nth_append)
  have "heap_except (rk ?h) (Suc ?n) ?n"
    using assms(2) by (auto simp: heap_except_def ordered_def heap_on_def lt)
  moreover have "down_ok (rk ?h) (Suc ?n) ?n" by (auto simp: down_ok_def)
  ultimately obtain h' where "heap_up H ?h (int ?n) = Some h'" "permuted (Suc ?n) ?h h'"
    "heap_on (rk h') (Suc ?n)"
    using up_law [of ?h ?n "Suc ?n"] P by auto
  with P show ?thesis by (auto simp: heap_Push_def Let_def Len_law permuted_def ordered_def)
qed

lemma Remove_law:
  assumes h: "ok h" and i: "i < length (elems h)" and ex: "heap_except (rk h) (length (elems h)) i"
  shows "\<exists>h' r. heap_Remove H h (int i) = Some (h', r) \<and> ok h' \<and> val h' = val h \<and>
    add_mset (elems h ! i) (mset (elems h')) = mset (elems h) \<and> ordered h'"
proof -
  define n where "n = length (elems h) - 1"
  have n: "length (elems h) = Suc n" "heapLen H h - 1 = int n"
    using i Len_law [OF h] by (auto simp: n_def)
  have pop: "ordered (fst (heapPop H h2)) \<and> ok (fst (heapPop H h2)) \<and> val (fst (heapPop H h2)) = val h \<and>
      add_mset (elems h ! i) (mset (elems (fst (heapPop H h2)))) = mset (elems h)"
    if "ok h2" "val h2 = val h" "mset (elems h2) = mset (elems h)" "elems h2 ! n = elems h ! i"
      "heap_on (rk h2) n" for h2
  proof -
    have len: "length (elems h2) = Suc n" using that(3) n by (metis mset_eq_length)
    then have ne: "elems h2 \<noteq> []" by auto
    note P = Pop_law [OF that(1) ne]
    have "elems h2 = butlast (elems h2) @ [elems h ! i]"
      using that(4) len ne by (metis append_butlast_last_id diff_Suc_1 last_conv_nth)
    then have "mset (elems h) = add_mset (elems h ! i) (mset (butlast (elems h2)))"
      using that(3) by (metis mset_append mset_single_iff_right add_mset_add_single mset.simps(1,2))
    moreover have "rk (fst (heapPop H h2)) j = rk h2 j" if "j < n" for j
      using P len that by (simp add: rk_def nth_butlast)
    then have "heap_on (rk (fst (heapPop H h2))) n" using that(5) by (auto simp: heap_on_def)
    ultimately show ?thesis using P that(2) len by (simp add: ordered_def)
  qed
  show ?thesis
  proof (cases "i = n")
    case True
    have "heap_on (rk h) n" using ex True n by (auto simp: heap_except_def heap_on_def)
    with pop [of h] h True n show ?thesis by (auto simp: heap_Remove_def prod_eq_iff)
  next
    case False
    then have "i < n" using i n by simp
    obtain h1 where h1: "heapSwap H h (int i) (int n) = Some h1" "permuted (Suc n) h h1"
      "rk h1 = (rk h)(i := rk h n, n := rk h i)"
      using Swap_permuted [OF h, of i "Suc n" n] i n by auto
    have last: "elems h1 ! n = elems h ! i"
      using Swap_law [OF h i, of n] h1(1) n by auto
    have "heap_except (rk h1) n i"
      by (rule heap_except_cong [OF ex]) (use h1(3) \<open>i < n\<close> n i in auto)
    then obtain h2 where h2: "do { (h2, moved) \<leftarrow> heap_down H h1 (int i) (int n);
        if \<not> moved then heap_up H h2 (int i) else Some h2 } = Some h2" "permuted n h1 h2" "heap_on (rk h2) n"
      using sift_law [of h1 i n] \<open>i < n\<close> h1(2) n(1) by (auto simp: permuted_def)
    have "heap_Remove H h (int i) = Some (heapPop H h2)"
      unfolding heap_Remove_def Let_def n(2) using h1(1) h2(1) False by simp
    moreover note pop [of h2]
    ultimately show ?thesis using h2(2,3) h1(2) last by (auto simp: permuted_def prod_eq_iff)
  qed
qed

lemma ordered_least: "ordered h \<Longrightarrow> x \<in> set (elems h) \<Longrightarrow> rank (val h (elems h ! 0)) \<le> rank (val h x)"
  using heap_on_least [of "rk h" "length (elems h)"] by (auto simp: ordered_def rk_def in_set_conv_nth)

end

end
