(* ===== verification/Node_Value_List.thy ===== *)
theory Node_Value_List
  imports Key_Types Go_Heap "HOL-Library.Product_Lexorder"
begin

text \<open>
  The node value list of \<open>routing/probe.go\<close>. The list keeps an entry for each node, reached
  through pointers from a map by hexadecimal key and from a heap ordered by due time; an entry
  knows its position in the heap. The entries live in a store and the pointers are indices into
  it. A \<open>nodeValue\<close> is reached only through its entry, so it is part of the entry: a write to it
  through the pointer that \<open>Get\<close> or \<open>PeekNext\<close> returned is a write to the entry in the store.

  Shown: the pending list meets the contract of \<open>container/heap\<close> with positions and indices in
  agreement; the list behaves as a map from keys to node values with a set of keys under check;
  \<open>PeekNext\<close> returns a least pending node; \<open>Put\<close> panics exactly on a node under check while other
  nodes are pending.
\<close>

section \<open>The pending list: a heap of entries\<close>

record 'k nodeValue =
  nvNodeID :: "'k NodeID"
  nvCpl :: int
  nvNextCheckDue :: time
  nvCheckDeadline :: time
  nvIndex :: int

record 'k nodeValueEntry =
  nve_nv :: "'k nodeValue"
  nve_index :: int

text \<open>The methods take and return the store of entries with the slice.\<close>

type_synonym 'k nodeValuePendingList = "'k nodeValueEntry list \<times> nat list"

definition pendingAt :: "nat list \<Rightarrow> int \<Rightarrow> nat option" where
  "pendingAt sl i = (if 0 \<le> i \<and> i < int (length sl) then Some (sl ! nat i) else None)"

definition setIndex :: "'k nodeValueEntry list \<Rightarrow> nat \<Rightarrow> int \<Rightarrow> 'k nodeValueEntry list" where
  "setIndex es p i = es[p := (es ! p)\<lparr>nve_index := i\<rparr>]"

definition PendingList_Len :: "'k nodeValuePendingList \<Rightarrow> int" where
  "PendingList_Len h = int (length (snd h))"

definition PendingList_Less :: "'k nodeValuePendingList \<Rightarrow> int \<Rightarrow> int \<Rightarrow> bool option" where
  "PendingList_Less h i j = do {
     p \<leftarrow> pendingAt (snd h) i;
     q \<leftarrow> pendingAt (snd h) j;
     let a = nve_nv (fst h ! p);
     let b = nve_nv (fst h ! q);
     if nvNextCheckDue a = nvNextCheckDue b then Some (nvCpl a > nvCpl b)
     else Some (nvNextCheckDue a < nvNextCheckDue b)
   }"

definition PendingList_Swap :: "'k nodeValuePendingList \<Rightarrow> int \<Rightarrow> int \<Rightarrow> 'k nodeValuePendingList option" where
  "PendingList_Swap h i j = do {
     p \<leftarrow> pendingAt (snd h) i;
     q \<leftarrow> pendingAt (snd h) j;
     let sl = (snd h)[nat i := q, nat j := p];
     Some (setIndex (setIndex (fst h) (sl ! nat i) i) (sl ! nat j) j, sl)
   }"

definition PendingList_Push :: "'k nodeValuePendingList \<Rightarrow> nat \<Rightarrow> 'k nodeValuePendingList" where
  "PendingList_Push h v = (setIndex (fst h) v (int (length (snd h))), snd h @ [v])"

definition PendingList_Pop :: "'k nodeValuePendingList \<Rightarrow> 'k nodeValuePendingList \<times> nat option" where
  "PendingList_Pop h =
     (if length (snd h) = 0 then (h, None)
      else (let v = last (snd h) in ((setIndex (fst h) v (- 1), butlast (snd h)), Some v)))"

definition PendingList_methods :: "('k nodeValuePendingList, nat) heapInterface" where
  "PendingList_methods = \<lparr>heapLen = PendingList_Len, heapLess = PendingList_Less, heapSwap = PendingList_Swap,
     heapPush = PendingList_Push, heapPop = PendingList_Pop\<rparr>"

section \<open>The node value list\<close>

record 'k nodeValueList =
  nvl_entries :: "'k nodeValueEntry list"
  nvl_nodes :: "(string \<times> nat) list"
  nvl_pending :: "nat list"
  nvl_ongoing :: "'k NodeID list"

definition NewNodeValueList :: "'k nodeValueList" where
  "NewNodeValueList = \<lparr>nvl_entries = [], nvl_nodes = [], nvl_pending = [], nvl_ongoing = []\<rparr>"

definition setHeap :: "'k nodeValueList \<Rightarrow> 'k nodeValuePendingList \<Rightarrow> 'k nodeValueList" where
  "setHeap l h = l\<lparr>nvl_entries := fst h, nvl_pending := snd h\<rparr>"

fun findOngoing :: "'k Key \<Rightarrow> 'k NodeID \<Rightarrow> 'k NodeID list \<Rightarrow> nat \<Rightarrow> nat option option" where
  "findOngoing K n [] i = Some None"
| "findOngoing K n (m # ms) i = do {
     eq \<leftarrow> Equal K (nodeKey n) (nodeKey m);
     if eq then Some (Some i) else findOngoing K n ms (Suc i)
   }"

definition removeFromOngoing :: "'k Key \<Rightarrow> 'k nodeValueList \<Rightarrow> 'k NodeID \<Rightarrow> 'k nodeValueList option" where
  "removeFromOngoing K l n = do {
     found \<leftarrow> findOngoing K n (nvl_ongoing l) 0;
     (case found of
        None \<Rightarrow> Some l
      | Some i \<Rightarrow>
          (let os = nvl_ongoing l;
               os' = (if length os > 1 then os[i := os ! (length os - 1), length os - 1 := os ! i] else os)
           in Some (l\<lparr>nvl_ongoing := butlast os'\<rparr>)))
   }"

definition nvl_Put :: "'k Key \<Rightarrow> 'k nodeValueList \<Rightarrow> 'k nodeValue \<Rightarrow> 'k nodeValueList option" where
  "nvl_Put K l nv = do {
     mk \<leftarrow> HexString K (nodeKey (nvNodeID nv));
     (h1, nve) \<leftarrow> (case map_of (nvl_nodes l) mk of
         None \<Rightarrow> Some ((nvl_entries l @ [\<lparr>nve_nv = nv, nve_index = 0\<rparr>], nvl_pending l), length (nvl_entries l))
       | Some p \<Rightarrow> do {
           let es = (nvl_entries l)[p := (nvl_entries l ! p)\<lparr>nve_nv := nv\<rparr>];
           (h, _) \<leftarrow> heap_Remove PendingList_methods (es, nvl_pending l) (nve_index (es ! p));
           Some (h, p)
         });
     h2 \<leftarrow> heap_Push PendingList_methods h1 nve;
     let nodes = AList.update mk nve (nvl_nodes l);
     h3 \<leftarrow> heap_Fix PendingList_methods h2 (nve_index (fst h2 ! nve));
     removeFromOngoing K (setHeap (l\<lparr>nvl_nodes := nodes\<rparr>) h3) (nvNodeID nv)
   }"

definition nvl_Get :: "'k Key \<Rightarrow> 'k nodeValueList \<Rightarrow> 'k NodeID \<Rightarrow> nat option option" where
  "nvl_Get K l n = do { mk \<leftarrow> HexString K (nodeKey n); Some (map_of (nvl_nodes l) mk) }"

definition nvl_PendingCount :: "'k nodeValueList \<Rightarrow> int" where
  "nvl_PendingCount l = int (length (nvl_pending l))"

definition nvl_OngoingCount :: "'k nodeValueList \<Rightarrow> int" where
  "nvl_OngoingCount l = int (length (nvl_ongoing l))"

definition nvl_NodeCount :: "'k nodeValueList \<Rightarrow> int" where
  "nvl_NodeCount l = int (length (nvl_nodes l))"

definition nvl_Remove :: "'k Key \<Rightarrow> 'k nodeValueList \<Rightarrow> 'k NodeID \<Rightarrow> 'k nodeValueList option" where
  "nvl_Remove K l n = do {
     mk \<leftarrow> HexString K (nodeKey n);
     (case map_of (nvl_nodes l) mk of
        None \<Rightarrow> Some l
      | Some nve \<Rightarrow> do {
          let l1 = l\<lparr>nvl_nodes := AList.delete mk (nvl_nodes l)\<rparr>;
          h \<leftarrow> (if nve_index (nvl_entries l1 ! nve) \<ge> 0
                then map_option fst (heap_Remove PendingList_methods (nvl_entries l1, nvl_pending l1)
                       (nve_index (nvl_entries l1 ! nve)))
                else Some (nvl_entries l1, nvl_pending l1));
          removeFromOngoing K (setHeap l1 h) n
        })
   }"

fun pastDeadline :: "'k Key \<Rightarrow> 'k nodeValueList \<Rightarrow> time \<Rightarrow> 'k NodeID list \<Rightarrow> 'k NodeID option option" where
  "pastDeadline K l ts [] = Some None"
| "pastDeadline K l ts (n # ns) = do {
     mk \<leftarrow> HexString K (nodeKey n);
     (case map_of (nvl_nodes l) mk of
        None \<Rightarrow> Some (Some n)
      | Some nve \<Rightarrow>
          if \<not> nvCheckDeadline (nve_nv (nvl_entries l ! nve)) > ts then Some (Some n)
          else pastDeadline K l ts ns)
   }"

definition FindCheckPastDeadline :: "'k Key \<Rightarrow> 'k nodeValueList \<Rightarrow> time \<Rightarrow> 'k NodeID option option" where
  "FindCheckPastDeadline K l ts = pastDeadline K l ts (nvl_ongoing l)"

definition PeekNext :: "'k nodeValueList \<Rightarrow> time \<Rightarrow> nat option" where
  "PeekNext l ts =
     (case nvl_pending l of
        [] \<Rightarrow> None
      | nve # _ \<Rightarrow> if nvNextCheckDue (nve_nv (nvl_entries l ! nve)) > ts then None else Some nve)"

definition MarkOngoing :: "'k Key \<Rightarrow> 'k nodeValueList \<Rightarrow> 'k NodeID \<Rightarrow> time \<Rightarrow> 'k nodeValueList option" where
  "MarkOngoing K l n deadline = do {
     mk \<leftarrow> HexString K (nodeKey n);
     (case map_of (nvl_nodes l) mk of
        None \<Rightarrow> Some l
      | Some nve \<Rightarrow> do {
          let e = nvl_entries l ! nve;
          let es = (nvl_entries l)[nve := e\<lparr>nve_nv := (nve_nv e)\<lparr>nvCheckDeadline := deadline\<rparr>\<rparr>];
          let nodes = AList.update mk nve (nvl_nodes l);
          (h, _) \<leftarrow> heap_Remove PendingList_methods (es, nvl_pending l) (nve_index (es ! nve));
          Some (setHeap l h\<lparr>nvl_nodes := nodes,
                  nvl_ongoing := nvl_ongoing l @ [nvNodeID (nve_nv (fst h ! nve))]\<rparr>)
        })
   }"
section \<open>The pending list is a heap\<close>

text \<open>Positions in the slice and indices in the entries agree; an entry outside the slice has the
  index -1.\<close>

definition pending_ok :: "'k nodeValuePendingList \<Rightarrow> bool" where
  "pending_ok h \<longleftrightarrow> distinct (snd h) \<and> (\<forall>p \<in> set (snd h). p < length (fst h)) \<and>
     (\<forall>i < length (snd h). nve_index (fst h ! (snd h ! i)) = int i) \<and>
     (\<forall>p < length (fst h). p \<notin> set (snd h) \<longrightarrow> nve_index (fst h ! p) = - 1)"

definition pending_val :: "'k nodeValuePendingList \<Rightarrow> nat \<Rightarrow> 'k nodeValue option" where
  "pending_val h p = (if p < length (fst h) then Some (nve_nv (fst h ! p)) else None)"

definition nv_rank :: "'k nodeValue option \<Rightarrow> int \<times> int" where
  "nv_rank v = (case v of Some nv \<Rightarrow> (nvNextCheckDue nv, - nvCpl nv) | None \<Rightarrow> (0, 0))"

definition pushable :: "'k nodeValuePendingList \<Rightarrow> nat \<Rightarrow> bool" where
  "pushable h x \<longleftrightarrow> x < length (fst h) \<and> x \<notin> set (snd h) \<and> distinct (snd h) \<and>
     (\<forall>p \<in> set (snd h). p < length (fst h)) \<and>
     (\<forall>i < length (snd h). nve_index (fst h ! (snd h ! i)) = int i) \<and>
     (\<forall>p < length (fst h). p \<notin> set (snd h) \<longrightarrow> p \<noteq> x \<longrightarrow> nve_index (fst h ! p) = - 1)"

lemma length_setIndex [simp]: "length (setIndex es p i) = length es"
  by (simp add: setIndex_def)

lemma nv_setIndex [simp]: "nve_nv (setIndex es p i ! q) = nve_nv (es ! q)"
  by (cases "p < length es") (auto simp: setIndex_def nth_list_update list_update_beyond)

lemma index_setIndex:
  "p < length es \<Longrightarrow> nve_index (setIndex es p i ! q) = (if q = p then i else nve_index (es ! q))"
  by (simp add: setIndex_def nth_list_update)

lemma pending_val_pair [simp]:
  "pending_val (es, sl) = (\<lambda>p. if p < length es then Some (nve_nv (es ! p)) else None)"
  by (simp add: pending_val_def fun_eq_iff)

lemma pendingAt_nat [simp]: "i < length sl \<Longrightarrow> pendingAt sl (int i) = Some (sl ! i)"
  by (simp add: pendingAt_def)

lemma pending_Swap_law:
  assumes ok: "pending_ok (es, sl)" and i: "i < length sl" "j < length sl"
  shows "\<exists>h'. PendingList_Swap (es, sl) (int i) (int j) = Some h' \<and> pending_ok h' \<and>
    pending_val h' = pending_val (es, sl) \<and> snd h' = sl[i := sl ! j, j := sl ! i]"
proof -
  let ?sl = "sl[i := sl ! j, j := sl ! i]"
  have d: "distinct sl" and r: "\<And>p. p \<in> set sl \<Longrightarrow> p < length es"
    and ix: "\<And>k. k < length sl \<Longrightarrow> nve_index (es ! (sl ! k)) = int k"
    and out: "\<And>p. p < length es \<Longrightarrow> p \<notin> set sl \<Longrightarrow> nve_index (es ! p) = - 1"
    using ok by (auto simp: pending_ok_def)
  let ?es = "setIndex (setIndex es (?sl ! i) (int i)) (?sl ! j) (int j)"
  have sw: "?sl ! i = sl ! j" "?sl ! j = sl ! i" using i by (auto simp: nth_list_update)
  have s: "set ?sl = set sl" "distinct ?sl" using i d by (simp_all add: set_swap distinct_swap)
  have eq: "PendingList_Swap (es, sl) (int i) (int j) = Some (?es, ?sl)"
    using i by (simp add: PendingList_Swap_def Let_def)
  have lt: "?sl ! i < length es" "?sl ! j < length es" using sw r i by auto
  have ixs: "nve_index (?es ! (?sl ! k)) = int k" if k: "k < length sl" for k
  proof -
    consider "k = j" | "k = i" "k \<noteq> j" | "k \<noteq> i" "k \<noteq> j" by blast
    then show ?thesis
    proof cases
      case 3
      then have "?sl ! k = sl ! k" by simp
      with 3 lt sw ix k i d show ?thesis by (simp add: index_setIndex nth_eq_iff_index_eq)
    qed (use lt sw i d in \<open>auto simp: index_setIndex nth_eq_iff_index_eq\<close>)
  qed
  have "nve_index (?es ! p) = - 1" if p: "p < length es" "p \<notin> set sl" for p
    using p out lt sw i by (auto simp: index_setIndex)
  with eq s r ixs show ?thesis by (auto simp: pending_ok_def)
qed

lemma pending_Push_law:
  assumes "pushable (es, sl) x"
  shows "pending_ok (PendingList_Push (es, sl) x)"
  using assms
  by (auto simp: PendingList_Push_def pushable_def pending_ok_def index_setIndex nth_append less_Suc_eq)

lemma pending_Pop_law:
  assumes "pending_ok (es, sl)" "sl \<noteq> []"
  shows "pending_ok (fst (PendingList_Pop (es, sl)))"
proof -
  obtain ys y where sl: "sl = ys @ [y]" using assms(2) by (metis rev_exhaust)
  have "nve_index (es ! (ys ! i)) = int i" if "i < length ys" for i
    using assms(1) that sl by (auto simp: pending_ok_def nth_append dest!: spec [of _ i])
  then show ?thesis
    using assms sl by (auto simp: PendingList_Pop_def Let_def pending_ok_def index_setIndex)
qed

interpretation pl: heap_interface "PendingList_methods :: ('k nodeValuePendingList, nat) heapInterface"
  pending_ok snd pending_val nv_rank pushable
proof
  fix h :: "'k nodeValuePendingList" and i j
  obtain es sl where h: "h = (es, sl)" by force
  show "heapLen PendingList_methods h = int (length (snd h))"
    by (simp add: PendingList_methods_def PendingList_Len_def)
  show "heapLess PendingList_methods h (int i) (int j) =
      Some (nv_rank (pending_val h (snd h ! i)) < nv_rank (pending_val h (snd h ! j)))"
    if "pending_ok h" "i < length (snd h)" "j < length (snd h)"
    using that h by (auto simp: PendingList_methods_def PendingList_Less_def Let_def pending_ok_def
        pending_val_def nv_rank_def less_prod_def')
  show "\<exists>h'. heapSwap PendingList_methods h (int i) (int j) = Some h' \<and> pending_ok h' \<and>
      pending_val h' = pending_val h \<and> snd h' = (snd h)[i := snd h ! j, j := snd h ! i]"
    if "pending_ok h" "i < length (snd h)" "j < length (snd h)"
    using pending_Swap_law [of es sl i j] that h by (simp add: PendingList_methods_def)
  show "pending_ok (heapPush PendingList_methods h x) \<and>
      pending_val (heapPush PendingList_methods h x) = pending_val h \<and>
      snd (heapPush PendingList_methods h x) = snd h @ [x]" if "pushable h x" for x
    using pending_Push_law [of es sl x] that h
    by (simp add: PendingList_methods_def) (simp add: PendingList_Push_def fun_eq_iff)
  show "pending_ok (fst (heapPop PendingList_methods h)) \<and>
      pending_val (fst (heapPop PendingList_methods h)) = pending_val h \<and>
      snd (fst (heapPop PendingList_methods h)) = butlast (snd h)" if "pending_ok h" "snd h \<noteq> []"
    using pending_Pop_law [of es sl] that h
    by (simp add: PendingList_methods_def) (simp add: PendingList_Pop_def Let_def fun_eq_iff)
  show "fst (heapPop PendingList_methods h) = h" if "pending_ok h" "snd h = []"
    using that by (simp add: PendingList_methods_def PendingList_Pop_def)
qed

declare pending_val_pair [simp del]

text \<open>What the list does with its heap: push and fix, removal of an entry whose value was
  overwritten, removal at the index -1 of an entry that is not in the heap.\<close>

lemma push_fix:
  assumes "pushable h x" "pl.ordered h"
  obtains h2 h3 where "heap_Push PendingList_methods h x = Some h2"
    "heap_Fix PendingList_methods h2 (nve_index (fst h2 ! x)) = Some h3" "pending_ok h3" "pl.ordered h3"
    "pending_val h3 = pending_val h" "set (snd h3) = insert x (set (snd h))"
proof -
  obtain h2 where h2: "heap_Push PendingList_methods h x = Some h2" "pending_ok h2"
    "pending_val h2 = pending_val h" "mset (snd h2) = add_mset x (mset (snd h))" "pl.ordered h2"
    using pl.Push_heap_law [OF assms] by blast
  have "x \<in> set (snd h2)" using h2(4) by (metis set_mset_mset union_single_eq_member)
  then obtain i where i: "i < length (snd h2)" "snd h2 ! i = x" by (auto simp: in_set_conv_nth)
  then have ix: "nve_index (fst h2 ! x) = int i" using h2(2) by (auto simp: pending_ok_def)
  have "heap_except (pl.rk h2) (length (snd h2)) i"
    using h2(5) i(1) unfolding pl.ordered_def by (rule heap_on_except)
  then obtain h3 where h3: "heap_Fix PendingList_methods h2 (int i) = Some h3" "pending_ok h3"
    "pending_val h3 = pending_val h2" "mset (snd h3) = mset (snd h2)" "pl.ordered h3"
    using pl.Fix_law [OF h2(2) i(1)] by blast
  have "set (snd h3) = insert x (set (snd h))"
    using h3(4) h2(4) by (metis set_mset_mset set_mset_add_mset_insert)
  with h2 h3 ix that show ?thesis by simp
qed

definition setValue :: "'k nodeValueEntry list \<Rightarrow> nat \<Rightarrow> 'k nodeValue \<Rightarrow> 'k nodeValueEntry list" where
  "setValue es p nv = es[p := (es ! p)\<lparr>nve_nv := nv\<rparr>]"

lemma length_setValue [simp]: "length (setValue es p nv) = length es"
  by (simp add: setValue_def)

lemma setValue_setValue [simp]: "setValue (setValue es p a) p b = setValue es p b"
  by (cases "p < length es") (simp_all add: setValue_def list_update_beyond)

lemma index_setValue [simp]: "nve_index (setValue es p nv ! q) = nve_index (es ! q)"
  by (cases "p < length es") (auto simp: setValue_def nth_list_update list_update_beyond)

lemma val_setValue: "p < length es \<Longrightarrow> pending_val (setValue es p nv, sl) = (pending_val (es, sl))(p \<mapsto> nv)"
  by (auto simp: pending_val_pair setValue_def nth_list_update fun_eq_iff)

lemma pending_ok_setValue [simp]: "pending_ok (setValue es p nv, sl) = pending_ok (es, sl)"
  by (simp add: pending_ok_def)

lemma setValue_same [simp]: "setValue es p (nve_nv (es ! p)) = es"
  by (cases "p < length es") (simp_all add: setValue_def list_update_beyond)

lemma heap_replace:
  assumes ok: "pending_ok (es, sl)" and ord: "pl.ordered (es, sl)" and p: "p \<in> set sl"
  obtains h' r where "heap_Remove PendingList_methods (setValue es p nv, sl) (nve_index (es ! p)) = Some (h', r)"
    "pending_ok h'" "pl.ordered h'" "pending_val h' = (pending_val (es, sl))(p \<mapsto> nv)"
    "set (snd h') = set sl - {p}" "pushable h' p"
proof -
  let ?h = "(setValue es p nv, sl)"
  have lt: "p < length es" using ok p by (auto simp: pending_ok_def)
  obtain i where i: "i < length sl" "sl ! i = p" using p by (auto simp: in_set_conv_nth)
  then have ix: "nve_index (es ! p) = int i" using ok by (auto simp: pending_ok_def)
  have "heap_except (pl.rk (es, sl)) (length sl) i"
    using ord i(1) unfolding pl.ordered_def snd_conv by (rule heap_on_except)
  moreover have "pl.rk ?h j = pl.rk (es, sl) j" if "j < length sl" "j \<noteq> i" for j
  proof -
    have "sl ! j \<noteq> p" using ok that i by (auto simp: pending_ok_def nth_eq_iff_index_eq)
    then show ?thesis using lt by (simp add: pl.rk_def val_setValue)
  qed
  ultimately have "heap_except (pl.rk ?h) (length sl) i"
    using i(1) by (auto intro: heap_except_cong)
  then obtain h' r where h': "heap_Remove PendingList_methods ?h (int i) = Some (h', r)" "pending_ok h'"
    "pending_val h' = pending_val ?h" "add_mset p (mset (snd h')) = mset sl" "pl.ordered h'"
    using pl.Remove_law [of ?h i] ok i by auto
  have "distinct (p # snd h')" "set (p # snd h') = set sl"
    using h'(4) ok by (metis mset.simps(2) mset_eq_imp_distinct_iff pending_ok_def snd_conv,
        metis mset.simps(2) mset_eq_setD)
  then have set': "set (snd h') = set sl - {p}" "p \<notin> set (snd h')" by auto
  have "p < length (fst h')"
    using fun_cong [OF h'(3), of p] lt by (simp add: val_setValue pending_val_def split: if_splits)
  with h'(2) set'(2) have "pushable h' p" by (auto simp: pushable_def pending_ok_def)
  with h' set'(1) ix lt that show ?thesis by (simp add: val_setValue)
qed

lemma heap_remove_absent:
  assumes "pending_ok (es, sl)" "p < length es" "p \<notin> set sl"
  shows "heap_Remove PendingList_methods (setValue es p nv, sl) (nve_index (es ! p)) =
    (if sl = [] then Some ((setValue es p nv, []), None) else None)"
  using assms
  by (auto simp: pending_ok_def heap_Remove_def PendingList_methods_def PendingList_Len_def
      PendingList_Swap_def PendingList_Pop_def pendingAt_def)


section \<open>The node value list: invariant and abstraction\<close>

abbreviation nvl_heap :: "'k nodeValueList \<Rightarrow> 'k nodeValuePendingList" where
  "nvl_heap l \<equiv> (nvl_entries l, nvl_pending l)"

abbreviation nvKey :: "'k nodeValue \<Rightarrow> 'k" where
  "nvKey nv \<equiv> nodeKey (nvNodeID nv)"

text \<open>The list as a map from keys to node values, and the keys with an ongoing check.\<close>

definition nvl_map :: "'k Key \<Rightarrow> ('k \<Rightarrow> bool) \<Rightarrow> 'k nodeValueList \<Rightarrow> 'k \<rightharpoonup> 'k nodeValue" where
  "nvl_map K valid l k =
     (if valid k then do { s \<leftarrow> HexString K k; p \<leftarrow> map_of (nvl_nodes l) s; pending_val (nvl_heap l) p }
      else None)"

definition nvl_keys :: "'k nodeValueList \<Rightarrow> 'k set" where
  "nvl_keys l = nodeKey ` set (nvl_ongoing l)"

definition nvl_inv :: "'k Key \<Rightarrow> ('k \<Rightarrow> bool) \<Rightarrow> 'k nodeValueList \<Rightarrow> bool" where
  "nvl_inv K valid l \<longleftrightarrow>
     pending_ok (nvl_heap l) \<and> pl.ordered (nvl_heap l) \<and> distinct (map fst (nvl_nodes l)) \<and>
     (\<forall>s p. map_of (nvl_nodes l) s = Some p \<longrightarrow>
        (\<exists>nv. pending_val (nvl_heap l) p = Some nv \<and> valid (nvKey nv) \<and> HexString K (nvKey nv) = Some s \<and>
           (p \<in> set (nvl_pending l) \<longleftrightarrow> nvKey nv \<notin> nvl_keys l))) \<and>
     set (nvl_pending l) \<subseteq> ran (map_of (nvl_nodes l)) \<and>
     distinct (map nodeKey (nvl_ongoing l)) \<and> nvl_keys l \<subseteq> dom (nvl_map K valid l)"

text \<open>\<open>Put\<close> fails on a node with an ongoing check while other nodes are pending: the index -1 of its
  entry goes into \<open>heap.Remove\<close>.\<close>

definition put_panics :: "'k nodeValueList \<Rightarrow> 'k \<Rightarrow> bool" where
  "put_panics l k \<longleftrightarrow> k \<in> nvl_keys l \<and> nvl_pending l \<noteq> []"

context kad_key_hex
begin

lemma findOngoing_law:
  assumes "valid (nodeKey n)" "\<forall>m \<in> set ms. valid (nodeKey m)"
  shows "(nodeKey n \<notin> nodeKey ` set ms \<longrightarrow> findOngoing K n ms i = Some None) \<and>
    (nodeKey n \<in> nodeKey ` set ms \<longrightarrow>
      (\<exists>j < length ms. findOngoing K n ms i = Some (Some (i + j)) \<and> nodeKey (ms ! j) = nodeKey n))"
  using assms
proof (induction ms arbitrary: i)
  case (Cons m ms)
  show ?case
  proof (cases "nodeKey n = nodeKey m")
    case True
    with Cons.prems show ?thesis by (auto simp: Equal_law)
  next
    case False
    have "\<exists>j < length (m # ms). findOngoing K n (m # ms) i = Some (Some (i + j)) \<and>
        nodeKey ((m # ms) ! j) = nodeKey n" if k: "nodeKey n \<in> nodeKey ` set ms"
    proof -
      obtain j where "j < length ms" "findOngoing K n ms (Suc i) = Some (Some (Suc i + j))"
        "nodeKey (ms ! j) = nodeKey n" using Cons.IH [of "Suc i"] Cons.prems k by auto
      with False Cons.prems show ?thesis by (intro exI [of _ "Suc j"]) (simp add: Equal_law)
    qed
    with False Cons show ?thesis by (auto simp: Equal_law)
  qed
qed simp

text \<open>The swap with the last element and the cut of the last one remove the element.\<close>

lemma swap_cut:
  assumes "i < length xs"
  shows "mset xs = add_mset (xs ! i) (mset (butlast
    (if length xs > 1 then xs[i := xs ! (length xs - 1), length xs - 1 := xs ! i] else xs)))"
proof -
  let ?ys = "if length xs > 1 then xs[i := xs ! (length xs - 1), length xs - 1 := xs ! i] else xs"
  have m: "mset ?ys = mset xs" using assms by (simp add: mset_swap)
  have "length ?ys = length xs" by simp
  then have ne: "?ys \<noteq> []" using assms by auto
  have l: "last ?ys = xs ! i"
  proof (cases "length xs > 1")
    case True
    with assms ne show ?thesis by (simp add: last_conv_nth)
  next
    case False
    with assms obtain x where "xs = [x]" by (cases xs) auto
    with assms show ?thesis by simp
  qed
  have "mset ?ys = mset (butlast ?ys @ [last ?ys])" by (simp only: append_butlast_last_id [OF ne])
  then show ?thesis unfolding l m by simp
qed

lemma removeFromOngoing_law:
  assumes n: "valid (nodeKey n)" and os: "\<forall>m \<in> set (nvl_ongoing l). valid (nodeKey m)"
    and d: "distinct (map nodeKey (nvl_ongoing l))"
  shows "\<exists>ms. removeFromOngoing K l n = Some (l\<lparr>nvl_ongoing := ms\<rparr>) \<and>
    nodeKey ` set ms = nodeKey ` set (nvl_ongoing l) - {nodeKey n} \<and>
    distinct (map nodeKey ms) \<and> length ms \<le> length (nvl_ongoing l)"
proof (cases "nodeKey n \<in> nodeKey ` set (nvl_ongoing l)")
  case False
  with d findOngoing_law [OF n os, of 0] show ?thesis
    by (intro exI [of _ "nvl_ongoing l"]) (simp add: removeFromOngoing_def)
next
  case True
  let ?os = "nvl_ongoing l"
  obtain j where j: "j < length ?os" "findOngoing K n ?os 0 = Some (Some j)" "nodeKey (?os ! j) = nodeKey n"
    using findOngoing_law [OF n os, of 0] True by auto
  define ms where "ms = butlast (if length ?os > 1
    then ?os[j := ?os ! (length ?os - 1), length ?os - 1 := ?os ! j] else ?os)"
  have m: "mset ?os = add_mset (?os ! j) (mset ms)" unfolding ms_def by (rule swap_cut [OF j(1)])
  then have "mset (map nodeKey ?os) = add_mset (nodeKey n) (mset (map nodeKey ms))"
    using j(3) by (simp add: mset_map)
  then have d': "distinct (nodeKey n # map nodeKey ms)" "set (map nodeKey ?os) = insert (nodeKey n) (set (map nodeKey ms))"
    using d by (metis mset.simps(2) mset_eq_imp_distinct_iff, metis mset_eq_setD mset.simps(2) list.simps(15))
  have "size (mset ?os) = Suc (size (mset ms))" using m by simp
  then have len: "length ms \<le> length ?os" by simp
  have "removeFromOngoing K l n = Some (l\<lparr>nvl_ongoing := ms\<rparr>)"
    using j(2) by (simp add: removeFromOngoing_def Let_def ms_def)
  with d' len show ?thesis by (intro exI [of _ ms]) auto
qed

lemma nvl_invD:
  assumes "nvl_inv K valid l"
  shows "pending_ok (nvl_heap l)" "pl.ordered (nvl_heap l)" "distinct (map fst (nvl_nodes l))"
    "set (nvl_pending l) \<subseteq> ran (map_of (nvl_nodes l))" "distinct (map nodeKey (nvl_ongoing l))"
    "nvl_keys l \<subseteq> dom (nvl_map K valid l)"
  using assms by (simp_all add: nvl_inv_def)

lemma nvl_inv_node:
  assumes "nvl_inv K valid l" "map_of (nvl_nodes l) s = Some p"
  obtains nv where "pending_val (nvl_heap l) p = Some nv" "valid (nvKey nv)" "s = hex (nvKey nv)"
    "p \<in> set (nvl_pending l) \<longleftrightarrow> nvKey nv \<notin> nvl_keys l" "p < length (nvl_entries l)"
    "nv = nve_nv (nvl_entries l ! p)"
proof -
  obtain nv where nv: "pending_val (nvl_heap l) p = Some nv" "valid (nvKey nv)" "HexString K (nvKey nv) = Some s"
    "p \<in> set (nvl_pending l) \<longleftrightarrow> nvKey nv \<notin> nvl_keys l"
    using assms unfolding nvl_inv_def by blast
  then have "p < length (nvl_entries l)" "nv = nve_nv (nvl_entries l ! p)" "s = hex (nvKey nv)"
    by (auto simp: HexString_eq_hex pending_val_pair split: if_splits)
  with nv that show ?thesis by blast
qed

lemma nvl_map_hex: "valid k \<Longrightarrow> nvl_map K valid l k = Option.bind (map_of (nvl_nodes l) (hex k)) (pending_val (nvl_heap l))"
  by (simp add: nvl_map_def HexString_hex)

lemma nvl_map_Some:
  assumes "nvl_inv K valid l" "nvl_map K valid l k = Some nv"
  obtains p where "valid k" "map_of (nvl_nodes l) (hex k) = Some p" "pending_val (nvl_heap l) p = Some nv"
    "nvKey nv = k" "p < length (nvl_entries l)" "nv = nve_nv (nvl_entries l ! p)"
    "p \<in> set (nvl_pending l) \<longleftrightarrow> k \<notin> nvl_keys l"
proof -
  have v: "valid k" using assms(2) by (simp add: nvl_map_def split: if_splits)
  then obtain p where p: "map_of (nvl_nodes l) (hex k) = Some p" "pending_val (nvl_heap l) p = Some nv"
    using assms(2) by (auto simp: nvl_map_hex bind_eq_Some)
  from assms(1) p(1) obtain nv' where nv': "pending_val (nvl_heap l) p = Some nv'" "valid (nvKey nv')"
    "hex k = hex (nvKey nv')" "p \<in> set (nvl_pending l) \<longleftrightarrow> nvKey nv' \<notin> nvl_keys l"
    "p < length (nvl_entries l)" "nv' = nve_nv (nvl_entries l ! p)"
    by (rule nvl_inv_node)
  with p(2) v have "nv' = nv" "nvKey nv = k" by (auto simp: hex_inj)
  with that v p nv' show ?thesis by blast
qed

lemma nvl_map_None:
  assumes "nvl_inv K valid l" "valid k" "nvl_map K valid l k = None"
  shows "map_of (nvl_nodes l) (hex k) = None" "k \<notin> nvl_keys l"
proof -
  show "map_of (nvl_nodes l) (hex k) = None"
  proof (cases "map_of (nvl_nodes l) (hex k)")
    case (Some p)
    with assms(1) obtain nv where "pending_val (nvl_heap l) p = Some nv" by (rule nvl_inv_node)
    with Some assms(2,3) show ?thesis by (simp add: nvl_map_hex)
  qed
  show "k \<notin> nvl_keys l" using nvl_invD(6) [OF assms(1)] assms(3) by auto
qed

lemma ongoing_valid: "nvl_inv K valid l \<Longrightarrow> \<forall>m \<in> set (nvl_ongoing l). valid (nodeKey m)"
  using nvl_invD(6) [of l] by (auto simp: nvl_keys_def nvl_map_def split: if_splits)

text \<open>Writing a value under a key: the entry of the key, or a new one.\<close>

lemma nvl_inv_write:
  assumes l: "nvl_inv K valid l" and k: "valid (nvKey nv)"
    and x: "map_of (nvl_nodes l) (hex (nvKey nv)) = Some x \<or>
      map_of (nvl_nodes l) (hex (nvKey nv)) = None \<and> x = length (nvl_entries l)"
    and h: "pending_ok h" "pl.ordered h" "pending_val h = (pending_val (nvl_heap l))(x \<mapsto> nv)"
    and ms: "distinct (map nodeKey ms)"
    and part: "set (snd h) = insert x (set (nvl_pending l)) \<and> nodeKey ` set ms = nvl_keys l - {nvKey nv} \<or>
      set (snd h) = set (nvl_pending l) - {x} \<and> nodeKey ` set ms = insert (nvKey nv) (nvl_keys l)"
  defines "l' \<equiv> l\<lparr>nvl_entries := fst h, nvl_pending := snd h,
      nvl_nodes := AList.update (hex (nvKey nv)) x (nvl_nodes l), nvl_ongoing := ms\<rparr>"
  shows "nvl_inv K valid l'" and "nvl_map K valid l' = (nvl_map K valid l)(nvKey nv \<mapsto> nv)"
    and "nvl_keys l' = nodeKey ` set ms"
proof -
  have other: "p \<noteq> x" if s: "map_of (nvl_nodes l) s = Some p" "s \<noteq> hex (nvKey nv)" for s p
  proof
    assume "p = x"
    from l s(1) obtain nv1 where n1: "pending_val (nvl_heap l) p = Some nv1" "s = hex (nvKey nv1)"
      "p < length (nvl_entries l)" by (rule nvl_inv_node)
    with x \<open>p = x\<close> have "map_of (nvl_nodes l) (hex (nvKey nv)) = Some x" by auto
    with l obtain nv2 where "pending_val (nvl_heap l) x = Some nv2" "hex (nvKey nv) = hex (nvKey nv2)"
      by (rule nvl_inv_node)
    with n1 s(2) \<open>p = x\<close> show False by simp
  qed
  have nodes: "map_of (AList.update (hex (nvKey nv)) x (nvl_nodes l)) = (map_of (nvl_nodes l))(hex (nvKey nv) \<mapsto> x)"
    by (rule update_conv')
  have heap: "nvl_heap l' = h" by (simp add: l'_def)
  show map: "nvl_map K valid l' = (nvl_map K valid l)(nvKey nv \<mapsto> nv)"
  proof
    fix k
    show "nvl_map K valid l' k = ((nvl_map K valid l)(nvKey nv \<mapsto> nv)) k"
    proof (cases "valid k \<and> k \<noteq> nvKey nv")
      case True
      then have "hex k \<noteq> hex (nvKey nv)" using k by (simp add: hex_inj)
      with True show ?thesis
        using other [of "hex k"] by (cases "map_of (nvl_nodes l) (hex k)") (auto simp: nvl_map_hex heap h(3) l'_def nodes)
    next
      case False
      then consider "k = nvKey nv" | "\<not> valid k" "k \<noteq> nvKey nv" using k by blast
      then show ?thesis
      proof cases
        case 1
        with k have "nvl_map K valid l' k = pending_val h x"
          by (simp only: nvl_map_hex heap) (simp add: l'_def nodes)
        with 1 show ?thesis by (simp add: h(3))
      qed (simp add: nvl_map_def)
    qed
  qed
  show keys: "nvl_keys l' = nodeKey ` set ms" by (simp add: nvl_keys_def l'_def)
  have node: "\<exists>nv1. pending_val h p = Some nv1 \<and> valid (nvKey nv1) \<and> HexString K (nvKey nv1) = Some s \<and>
      (p \<in> set (snd h) \<longleftrightarrow> nvKey nv1 \<notin> nodeKey ` set ms)"
    if "((map_of (nvl_nodes l))(hex (nvKey nv) \<mapsto> x)) s = Some p" for s p
  proof (cases "s = hex (nvKey nv)")
    case True
    with that k part show ?thesis by (auto simp: h(3) HexString_hex)
  next
    case False
    with that have p: "map_of (nvl_nodes l) s = Some p" by simp
    with l obtain nv1 where n1: "pending_val (nvl_heap l) p = Some nv1" "valid (nvKey nv1)" "s = hex (nvKey nv1)"
      "p \<in> set (nvl_pending l) \<longleftrightarrow> nvKey nv1 \<notin> nvl_keys l" by (rule nvl_inv_node)
    have "nvKey nv1 \<noteq> nvKey nv" using n1(3) False by auto
    with other [OF p False] n1 part show ?thesis by (auto simp: h(3) HexString_hex)
  qed
  have ran: "set (snd h) \<subseteq> ran ((map_of (nvl_nodes l))(hex (nvKey nv) \<mapsto> x))"
  proof
    fix p assume "p \<in> set (snd h)"
    with part consider "p = x" | "p \<in> set (nvl_pending l)" "p \<noteq> x" by auto
    then show "p \<in> ran ((map_of (nvl_nodes l))(hex (nvKey nv) \<mapsto> x))"
    proof cases
      case 2
      then obtain s where s: "map_of (nvl_nodes l) s = Some p" using nvl_invD(4) [OF l] by (auto simp: ran_def)
      then have "s \<noteq> hex (nvKey nv)" using 2(2) x by auto
      with s show ?thesis by (auto simp: ran_def)
    qed (auto simp: ran_def)
  qed
  have "nodeKey ` set ms \<subseteq> dom ((nvl_map K valid l)(nvKey nv \<mapsto> nv))"
  proof -
    have "nodeKey ` set ms \<subseteq> insert (nvKey nv) (nvl_keys l)" using part by auto
    with nvl_invD(6) [OF l] show ?thesis by auto
  qed
  with h node ran ms show "nvl_inv K valid l'"
    unfolding nvl_inv_def heap keys map
    by (simp add: l'_def nodes distinct_update nvl_invD(3) [OF l])
qed

lemma nvl_inv_delete:
  assumes l: "nvl_inv K valid l" and k: "valid k" and x: "map_of (nvl_nodes l) (hex k) = Some x"
    and h: "pending_ok h" "pl.ordered h" "pending_val h = pending_val (nvl_heap l)"
    and part: "set (snd h) = set (nvl_pending l) - {x}" "nodeKey ` set ms = nvl_keys l - {k}"
      "distinct (map nodeKey ms)"
  defines "l' \<equiv> l\<lparr>nvl_entries := fst h, nvl_pending := snd h,
      nvl_nodes := AList.delete (hex k) (nvl_nodes l), nvl_ongoing := ms\<rparr>"
  shows "nvl_inv K valid l'" and "nvl_map K valid l' = (nvl_map K valid l)(k := None)"
    and "nvl_keys l' = nvl_keys l - {k}"
proof -
  have heap: "nvl_heap l' = h" by (simp add: l'_def)
  have nodes: "map_of (AList.delete (hex k) (nvl_nodes l)) = (map_of (nvl_nodes l))(hex k := None)"
    by (rule delete_conv')
  show keys: "nvl_keys l' = nvl_keys l - {k}" using part(2) by (simp add: nvl_keys_def l'_def)
  show map: "nvl_map K valid l' = (nvl_map K valid l)(k := None)"
  proof
    show "nvl_map K valid l' k' = ((nvl_map K valid l)(k := None)) k'" for k'
    proof (cases "valid k'")
      case True
      then have "nvl_map K valid l' k' = Option.bind (((map_of (nvl_nodes l))(hex k := None)) (hex k')) (pending_val (nvl_heap l))"
        by (simp only: nvl_map_hex heap h(3)) (simp add: l'_def nodes)
      with True k show ?thesis by (simp add: hex_inj nvl_map_hex)
    next
      case False
      with k show ?thesis by (auto simp: nvl_map_def)
    qed
  qed
  obtain nv where nv: "pending_val (nvl_heap l) x = Some nv" "valid (nvKey nv)" "hex k = hex (nvKey nv)"
    using l x by (rule nvl_inv_node)
  have node: "\<exists>nv1. pending_val h p = Some nv1 \<and> valid (nvKey nv1) \<and> HexString K (nvKey nv1) = Some s \<and>
      (p \<in> set (snd h) \<longleftrightarrow> nvKey nv1 \<notin> nvl_keys l - {k})"
    if "((map_of (nvl_nodes l))(hex k := None)) s = Some p" for s p
  proof -
    from that have p: "map_of (nvl_nodes l) s = Some p" "s \<noteq> hex k" by (auto split: if_splits)
    from l p(1) obtain nv1 where n1: "pending_val (nvl_heap l) p = Some nv1" "valid (nvKey nv1)" "s = hex (nvKey nv1)"
      "p \<in> set (nvl_pending l) \<longleftrightarrow> nvKey nv1 \<notin> nvl_keys l" by (rule nvl_inv_node)
    have "p \<noteq> x" using n1 nv p(2) by auto
    with n1 p(2) part show ?thesis by (auto simp: h(3) HexString_hex)
  qed
  have ran: "set (snd h) \<subseteq> ran ((map_of (nvl_nodes l))(hex k := None))"
  proof
    fix p assume "p \<in> set (snd h)"
    with part have p: "p \<in> set (nvl_pending l)" "p \<noteq> x" by auto
    then obtain s where s: "map_of (nvl_nodes l) s = Some p" using nvl_invD(4) [OF l] by (auto simp: ran_def)
    with p(2) x have "s \<noteq> hex k" by auto
    with s show "p \<in> ran ((map_of (nvl_nodes l))(hex k := None))" by (auto simp: ran_def)
  qed
  have "nvl_keys l - {k} \<subseteq> dom ((nvl_map K valid l)(k := None))" using nvl_invD(6) [OF l] by auto
  with h node ran part(3) show "nvl_inv K valid l'"
    unfolding nvl_inv_def heap keys map
    by (simp add: l'_def nodes distinct_delete nvl_invD(3) [OF l])
qed

section \<open>The operations of the list\<close>

lemma Put_heap:
  assumes l: "nvl_inv K valid l" and k: "valid (nvKey nv)" and ok: "\<not> put_panics l (nvKey nv)"
  obtains h1 x where "(case map_of (nvl_nodes l) (hex (nvKey nv)) of
      None \<Rightarrow> Some ((nvl_entries l @ [\<lparr>nve_nv = nv, nve_index = 0\<rparr>], nvl_pending l), length (nvl_entries l))
    | Some p \<Rightarrow> do {
        let es = setValue (nvl_entries l) p nv;
        (h, _) \<leftarrow> heap_Remove PendingList_methods (es, nvl_pending l) (nve_index (es ! p));
        Some (h, p)
      }) = Some (h1, x)"
    "map_of (nvl_nodes l) (hex (nvKey nv)) = Some x \<or>
      map_of (nvl_nodes l) (hex (nvKey nv)) = None \<and> x = length (nvl_entries l)"
    "pushable h1 x" "pl.ordered h1" "pending_val h1 = (pending_val (nvl_heap l))(x \<mapsto> nv)"
    "insert x (set (snd h1)) = insert x (set (nvl_pending l))"
proof (cases "map_of (nvl_nodes l) (hex (nvKey nv))")
  case None
  let ?h = "(nvl_entries l @ [\<lparr>nve_nv = nv, nve_index = 0\<rparr>], nvl_pending l)"
  have ok1: "pending_ok (nvl_heap l)" and ord: "pl.ordered (nvl_heap l)" by (rule nvl_invD [OF l])+
  have "pushable ?h (length (nvl_entries l))"
    using ok1 by (auto simp: pushable_def pending_ok_def nth_append)
  moreover have val: "pending_val ?h = (pending_val (nvl_heap l))(length (nvl_entries l) \<mapsto> nv)"
    by (auto simp: pending_val_pair nth_append fun_eq_iff)
  moreover have "pl.ordered ?h"
  proof -
    have "pl.rk ?h j = pl.rk (nvl_heap l) j" if "j < length (nvl_pending l)" for j
    proof -
      have "nvl_pending l ! j < length (nvl_entries l)" using ok1 that by (auto simp: pending_ok_def)
      then show ?thesis by (simp add: pl.rk_def val)
    qed
    with ord show ?thesis by (auto simp: pl.ordered_def heap_on_def)
  qed
  ultimately show ?thesis using that None by simp
next
  case (Some p)
  with l obtain nv0 where p: "pending_val (nvl_heap l) p = Some nv0" "valid (nvKey nv0)" "hex (nvKey nv) = hex (nvKey nv0)"
    "p \<in> set (nvl_pending l) \<longleftrightarrow> nvKey nv0 \<notin> nvl_keys l" "p < length (nvl_entries l)" by (rule nvl_inv_node)
  have same: "nvKey nv0 = nvKey nv" using p k by (auto simp: hex_inj)
  have ok1: "pending_ok (nvl_heap l)" and ord: "pl.ordered (nvl_heap l)" by (rule nvl_invD [OF l])+
  show ?thesis
  proof (cases "p \<in> set (nvl_pending l)")
    case True
    obtain h r where "heap_Remove PendingList_methods (setValue (nvl_entries l) p nv, nvl_pending l) (nve_index (nvl_entries l ! p)) = Some (h, r)"
      "pending_ok h" "pl.ordered h" "pending_val h = (pending_val (nvl_heap l))(p \<mapsto> nv)"
      "set (snd h) = set (nvl_pending l) - {p}" "pushable h p"
      using ok1 ord True by (rule heap_replace)
    with Some that show ?thesis by simp
  next
    case False
    with p(4) same ok have nil: "nvl_pending l = []" by (simp add: put_panics_def)
    have "pushable (setValue (nvl_entries l) p nv, []) p"
      using ok1 p(5) by (auto simp: pushable_def pending_ok_def nil)
    with that [of "(setValue (nvl_entries l) p nv, [])" p] Some heap_remove_absent [OF ok1 p(5) False, of nv]
    show ?thesis by (simp add: nil val_setValue p(5) pl.ordered_def heap_on_def)
  qed
qed

lemma nvl_Put_law:
  assumes l: "nvl_inv K valid l" and k: "valid (nvKey nv)"
  shows "put_panics l (nvKey nv) \<Longrightarrow> nvl_Put K l nv = None"
    and "\<not> put_panics l (nvKey nv) \<Longrightarrow> \<exists>l'. nvl_Put K l nv = Some l' \<and> nvl_inv K valid l' \<and>
      nvl_map K valid l' = (nvl_map K valid l)(nvKey nv \<mapsto> nv) \<and> nvl_keys l' = nvl_keys l - {nvKey nv}"
proof -
  assume "put_panics l (nvKey nv)"
  then have on: "nvKey nv \<in> nvl_keys l" "nvl_pending l \<noteq> []" by (auto simp: put_panics_def)
  then obtain nv0 where nv0: "nvl_map K valid l (nvKey nv) = Some nv0" using nvl_invD(6) [OF l] by auto
  with l obtain p where p: "map_of (nvl_nodes l) (hex (nvKey nv)) = Some p" "p < length (nvl_entries l)"
    "p \<notin> set (nvl_pending l)" using on(1) by (metis nvl_map_Some)
  show "nvl_Put K l nv = None"
    using heap_remove_absent [OF nvl_invD(1) [OF l] p(2,3), of nv] on(2) p k
    by (simp add: nvl_Put_def HexString_hex setValue_def [symmetric] Let_def)
next
  assume "\<not> put_panics l (nvKey nv)"
  with l k obtain h1 x where h1: "(case map_of (nvl_nodes l) (hex (nvKey nv)) of
      None \<Rightarrow> Some ((nvl_entries l @ [\<lparr>nve_nv = nv, nve_index = 0\<rparr>], nvl_pending l), length (nvl_entries l))
    | Some p \<Rightarrow> do {
        let es = setValue (nvl_entries l) p nv;
        (h, _) \<leftarrow> heap_Remove PendingList_methods (es, nvl_pending l) (nve_index (es ! p));
        Some (h, p)
      }) = Some (h1, x)"
    and x: "map_of (nvl_nodes l) (hex (nvKey nv)) = Some x \<or>
      map_of (nvl_nodes l) (hex (nvKey nv)) = None \<and> x = length (nvl_entries l)"
    and "pushable h1 x" "pl.ordered h1" and val: "pending_val h1 = (pending_val (nvl_heap l))(x \<mapsto> nv)"
    and ins: "insert x (set (snd h1)) = insert x (set (nvl_pending l))"
    by (rule Put_heap)
  obtain h2 h3 where h3: "heap_Push PendingList_methods h1 x = Some h2"
    "heap_Fix PendingList_methods h2 (nve_index (fst h2 ! x)) = Some h3" "pending_ok h3" "pl.ordered h3"
    "pending_val h3 = pending_val h1" "set (snd h3) = insert x (set (snd h1))"
    using \<open>pushable h1 x\<close> \<open>pl.ordered h1\<close> by (rule push_fix)
  obtain ms where ms: "removeFromOngoing K (setHeap (l\<lparr>nvl_nodes := AList.update (hex (nvKey nv)) x (nvl_nodes l)\<rparr>) h3) (nvNodeID nv) =
      Some (setHeap (l\<lparr>nvl_nodes := AList.update (hex (nvKey nv)) x (nvl_nodes l)\<rparr>) h3\<lparr>nvl_ongoing := ms\<rparr>)"
    "nodeKey ` set ms = nvl_keys l - {nvKey nv}" "distinct (map nodeKey ms)"
    using removeFromOngoing_law [OF k, of "setHeap (l\<lparr>nvl_nodes := AList.update (hex (nvKey nv)) x (nvl_nodes l)\<rparr>) h3"]
      ongoing_valid [OF l] nvl_invD(5) [OF l] by (auto simp: setHeap_def nvl_keys_def)
  have "nvl_Put K l nv = Some (l\<lparr>nvl_entries := fst h3, nvl_pending := snd h3,
      nvl_nodes := AList.update (hex (nvKey nv)) x (nvl_nodes l), nvl_ongoing := ms\<rparr>)"
    unfolding nvl_Put_def HexString_hex [OF k] setValue_def [symmetric] Let_def
    using h1 [unfolded Let_def] h3(1,2) ms(1) by (simp add: setHeap_def)
  with nvl_inv_write [OF l k x h3(3,4) _ ms(3)] h3(5,6) val ins ms(2)
  show "\<exists>l'. nvl_Put K l nv = Some l' \<and> nvl_inv K valid l' \<and>
      nvl_map K valid l' = (nvl_map K valid l)(nvKey nv \<mapsto> nv) \<and> nvl_keys l' = nvl_keys l - {nvKey nv}"
    by auto
qed

text \<open>The due time written through the pointer before \<open>Put\<close> is the one that \<open>Put\<close> writes.\<close>

lemma nvl_Put_overwritten:
  assumes "valid (nvKey nv)" "map_of (nvl_nodes l) (hex (nvKey nv)) = Some p"
  shows "nvl_Put K (l\<lparr>nvl_entries := setValue (nvl_entries l) p nv\<rparr>) nv = nvl_Put K l nv"
  using assms by (simp add: nvl_Put_def HexString_hex setValue_def [symmetric] setHeap_def)

lemma nvl_Remove_law:
  assumes l: "nvl_inv K valid l" and k: "valid (nodeKey n)"
  shows "\<exists>l'. nvl_Remove K l n = Some l' \<and> nvl_inv K valid l' \<and>
    nvl_map K valid l' = (nvl_map K valid l)(nodeKey n := None) \<and> nvl_keys l' = nvl_keys l - {nodeKey n}"
proof (cases "nvl_map K valid l (nodeKey n)")
  case None
  note N = nvl_map_None [OF l k None]
  have "(nvl_map K valid l)(nodeKey n := None) = nvl_map K valid l" using None by (auto simp: fun_eq_iff)
  with N l k show ?thesis by (simp add: nvl_Remove_def HexString_hex)
next
  case (Some nv)
  with l obtain p where p: "map_of (nvl_nodes l) (hex (nodeKey n)) = Some p" "pending_val (nvl_heap l) p = Some nv"
    "p < length (nvl_entries l)" "nv = nve_nv (nvl_entries l ! p)" "p \<in> set (nvl_pending l) \<longleftrightarrow> nodeKey n \<notin> nvl_keys l"
    by (rule nvl_map_Some)
  have ok: "pending_ok (nvl_heap l)" and ord: "pl.ordered (nvl_heap l)" by (rule nvl_invD [OF l])+
  have "\<exists>h. (if nve_index (nvl_entries l ! p) \<ge> 0
        then map_option fst (heap_Remove PendingList_methods (nvl_heap l) (nve_index (nvl_entries l ! p)))
        else Some (nvl_heap l)) = Some h \<and> pending_ok h \<and> pl.ordered h \<and>
      pending_val h = pending_val (nvl_heap l) \<and> set (snd h) = set (nvl_pending l) - {p}"
  proof (cases "p \<in> set (nvl_pending l)")
    case True
    then have "0 \<le> nve_index (nvl_entries l ! p)" using ok by (auto simp: pending_ok_def in_set_conv_nth)
    moreover obtain h r where "heap_Remove PendingList_methods (setValue (nvl_entries l) p nv, nvl_pending l)
        (nve_index (nvl_entries l ! p)) = Some (h, r)" "pending_ok h" "pl.ordered h"
      "pending_val h = (pending_val (nvl_heap l))(p \<mapsto> nv)" "set (snd h) = set (nvl_pending l) - {p}"
      using ok ord True by (rule heap_replace)
    ultimately show ?thesis using p(2,4) by (auto simp: fun_upd_idem)
  next
    case False
    then have "nve_index (nvl_entries l ! p) = - 1" using ok p(3) by (auto simp: pending_ok_def)
    with ok ord False show ?thesis by simp
  qed
  then obtain h where h: "(if nve_index (nvl_entries l ! p) \<ge> 0
        then map_option fst (heap_Remove PendingList_methods (nvl_heap l) (nve_index (nvl_entries l ! p)))
        else Some (nvl_heap l)) = Some h" "pending_ok h" "pl.ordered h"
      "pending_val h = pending_val (nvl_heap l)" "set (snd h) = set (nvl_pending l) - {p}" by blast
  let ?l = "setHeap (l\<lparr>nvl_nodes := AList.delete (hex (nodeKey n)) (nvl_nodes l)\<rparr>) h"
  obtain ms where ms: "removeFromOngoing K ?l n = Some (?l\<lparr>nvl_ongoing := ms\<rparr>)"
    "nodeKey ` set ms = nvl_keys l - {nodeKey n}" "distinct (map nodeKey ms)"
    using removeFromOngoing_law [OF k, of ?l] ongoing_valid [OF l] nvl_invD(5) [OF l]
    by (auto simp: setHeap_def nvl_keys_def)
  have "nvl_Remove K l n = Some (l\<lparr>nvl_entries := fst h, nvl_pending := snd h,
      nvl_nodes := AList.delete (hex (nodeKey n)) (nvl_nodes l), nvl_ongoing := ms\<rparr>)"
    unfolding nvl_Remove_def HexString_hex [OF k] Let_def using h(1) ms(1) p(1)
    by (cases "0 \<le> nve_index (nvl_entries l ! p)") (auto simp: setHeap_def)
  with nvl_inv_delete [OF l k p(1) h(2-5) ms(2,3)] show ?thesis by auto
qed

lemma MarkOngoing_law:
  assumes l: "nvl_inv K valid l" and p: "p \<in> set (nvl_pending l)" and nv: "nv = nve_nv (nvl_entries l ! p)"
  shows "\<exists>l'. MarkOngoing K l (nvNodeID nv) d = Some l' \<and> nvl_inv K valid l' \<and>
    nvl_map K valid l (nvKey nv) = Some nv \<and> nvKey nv \<notin> nvl_keys l \<and>
    nvl_map K valid l' = (nvl_map K valid l)(nvKey nv \<mapsto> nv\<lparr>nvCheckDeadline := d\<rparr>) \<and>
    nvl_keys l' = insert (nvKey nv) (nvl_keys l)"
proof -
  have ok: "pending_ok (nvl_heap l)" and ord: "pl.ordered (nvl_heap l)" by (rule nvl_invD [OF l])+
  obtain s where s: "map_of (nvl_nodes l) s = Some p" using nvl_invD(4) [OF l] p by (auto simp: ran_def)
  with l obtain nv0 where n0: "pending_val (nvl_heap l) p = Some nv0" "valid (nvKey nv0)" "s = hex (nvKey nv0)"
    "p \<in> set (nvl_pending l) \<longleftrightarrow> nvKey nv0 \<notin> nvl_keys l" "nv0 = nve_nv (nvl_entries l ! p)"
    by (rule nvl_inv_node)
  have k: "valid (nvKey nv)" and x: "map_of (nvl_nodes l) (hex (nvKey nv)) = Some p" and out: "nvKey nv \<notin> nvl_keys l"
    using n0 s nv p by auto
  have map: "nvl_map K valid l (nvKey nv) = Some nv" using k x n0 nv by (simp add: nvl_map_hex)
  let ?nv = "nv\<lparr>nvCheckDeadline := d\<rparr>"
  obtain h r where h: "heap_Remove PendingList_methods (setValue (nvl_entries l) p ?nv, nvl_pending l)
      (nve_index (nvl_entries l ! p)) = Some (h, r)" "pending_ok h" "pl.ordered h"
    "pending_val h = (pending_val (nvl_heap l))(p \<mapsto> ?nv)" "set (snd h) = set (nvl_pending l) - {p}"
    using ok ord p by (rule heap_replace)
  have at: "nve_nv (fst h ! p) = ?nv"
    using fun_cong [OF h(4), of p] by (simp add: pending_val_def split: if_splits)
  have "MarkOngoing K l (nvNodeID nv) d = Some (l\<lparr>nvl_entries := fst h, nvl_pending := snd h,
      nvl_nodes := AList.update (hex (nvKey ?nv)) p (nvl_nodes l), nvl_ongoing := nvl_ongoing l @ [nvNodeID ?nv]\<rparr>)"
    using h(1) x k at nv by (simp add: MarkOngoing_def HexString_hex Let_def setHeap_def setValue_def [symmetric])
  moreover have "distinct (map nodeKey (nvl_ongoing l @ [nvNodeID ?nv]))"
    using nvl_invD(5) [OF l] out by (auto simp: nvl_keys_def)
  moreover have "nodeKey ` set (nvl_ongoing l @ [nvNodeID ?nv]) = insert (nvKey ?nv) (nvl_keys l)"
    by (simp add: nvl_keys_def)
  moreover note nvl_inv_write [OF l, of ?nv p h "nvl_ongoing l @ [nvNodeID ?nv]"]
  ultimately show ?thesis using k x h map out by simp
qed

lemma pastDeadline_law:
  assumes l: "nvl_inv K valid l" and ns: "set ns \<subseteq> set (nvl_ongoing l)"
  shows "(\<exists>n \<in> set ns. pastDeadline K l ts ns = Some (Some n) \<and>
      nvCheckDeadline (the (nvl_map K valid l (nodeKey n))) \<le> ts) \<or>
    pastDeadline K l ts ns = Some None \<and>
      (\<forall>n \<in> set ns. ts < nvCheckDeadline (the (nvl_map K valid l (nodeKey n))))"
  using ns
proof (induction ns)
  case (Cons n ns)
  then have "nodeKey n \<in> nvl_keys l" by (auto simp: nvl_keys_def)
  then obtain nv where nv: "nvl_map K valid l (nodeKey n) = Some nv" using nvl_invD(6) [OF l] by auto
  with l obtain p where "valid (nodeKey n)" "map_of (nvl_nodes l) (hex (nodeKey n)) = Some p"
    "nv = nve_nv (nvl_entries l ! p)" by (rule nvl_map_Some)
  with Cons nv show ?case by (auto simp: HexString_hex)
qed simp

lemma OngoingCount_card: "nvl_inv K valid l \<Longrightarrow> nvl_OngoingCount l = int (card (nvl_keys l))"
  using distinct_card [OF nvl_invD(5), of l] by (simp add: nvl_OngoingCount_def nvl_keys_def)

text \<open>\<open>PeekNext\<close> returns a pending node that no other pending node precedes.\<close>

lemma PeekNext_law:
  assumes l: "nvl_inv K valid l"
  shows "(\<exists>p nv. PeekNext l ts = Some p \<and> p \<in> set (nvl_pending l) \<and> nv = nve_nv (nvl_entries l ! p) \<and>
      nvNextCheckDue nv \<le> ts \<and>
      (\<forall>k nv'. nvl_map K valid l k = Some nv' \<longrightarrow> k \<notin> nvl_keys l \<longrightarrow> nv_rank (Some nv) \<le> nv_rank (Some nv'))) \<or>
    PeekNext l ts = None \<and>
      (\<forall>k nv. nvl_map K valid l k = Some nv \<longrightarrow> k \<notin> nvl_keys l \<longrightarrow> ts < nvNextCheckDue nv)"
proof -
  have pend: "\<exists>p \<in> set (nvl_pending l). pending_val (nvl_heap l) p = Some nv"
    if "nvl_map K valid l k = Some nv" "k \<notin> nvl_keys l" for k nv
    using l that by (metis nvl_map_Some)
  show ?thesis
  proof (cases "nvl_pending l")
    case Nil
    with pend show ?thesis by (fastforce simp: PeekNext_def)
  next
    case (Cons p ps)
    define nv where "nv = nve_nv (nvl_entries l ! p)"
    have "p < length (nvl_entries l)" using nvl_invD(1) [OF l] Cons by (auto simp: pending_ok_def)
    then have v: "pending_val (nvl_heap l) p = Some nv" by (simp add: pending_val_pair nv_def)
    have least: "nv_rank (Some nv) \<le> nv_rank (Some nv')" if "nvl_map K valid l k = Some nv'" "k \<notin> nvl_keys l" for k nv'
    proof -
      from pend [OF that] obtain q where q: "q \<in> set (nvl_pending l)" "pending_val (nvl_heap l) q = Some nv'" by blast
      have "nv_rank (pending_val (nvl_heap l) (nvl_pending l ! 0)) \<le> nv_rank (pending_val (nvl_heap l) q)"
        using pl.ordered_least [OF nvl_invD(2) [OF l]] q(1) by simp
      with Cons v q(2) show ?thesis by simp
    qed
    then have "ts < nvNextCheckDue nv'" if "nvl_map K valid l k = Some nv'" "k \<notin> nvl_keys l" "ts < nvNextCheckDue nv" for k nv'
      using that by (fastforce simp: nv_rank_def less_eq_prod_def)
    with least Cons show ?thesis by (auto simp: PeekNext_def nv_def)
  qed
qed

end

end
