(* ===== verification/Probe.thy ===== *)
theory Probe
  imports Include Node_Value_List
begin

text \<open>
  The probe state machine of \<open>routing/probe.go\<close>: connectivity checks of the nodes of a routing
  table, in the order of their due times, over any table that meets the contract \<open>routing_table\<close>.
  Shown: a step implements an abstract machine on the contents of the table, the checked nodes
  and the keys under check, and panics exactly when it puts a node under check into the list
  while other nodes are pending.
\<close>

section \<open>Configuration, states and events\<close>

record ProbeConfig =
  prcCheckInterval :: duration
  prcConcurrency :: int
  prcTimeout :: duration
  prcClock :: "Clock option"

definition ProbeConfig_Validate :: "ProbeConfig \<Rightarrow> ConfigurationError option" where
  "ProbeConfig_Validate cfg =
     (if prcClock cfg = None then
        Some (ConfigurationError ''ProbeConfig'' (Some ''clock must not be nil''))
      else if prcConcurrency cfg < 1 then
        Some (ConfigurationError ''ProbeConfig'' (Some ''concurrency must be greater than zero''))
      else if prcTimeout cfg < 1 then
        Some (ConfigurationError ''ProbeConfig'' (Some ''timeout must be greater than zero''))
      else if prcCheckInterval cfg < 1 then
        Some (ConfigurationError ''ProbeConfig'' (Some ''revisit interval must be greater than zero''))
      else None)"

definition DefaultProbeConfig :: ProbeConfig where
  "DefaultProbeConfig = \<lparr>prcCheckInterval = 6 * Hour, prcConcurrency = 3, prcTimeout = Minute,
     prcClock = Some Clock\<rparr>"

datatype 'k ProbeState =
    StateProbeConnectivityCheck "'k NodeID"
  | StateProbeIdle
  | StateProbeWaitingAtCapacity
  | StateProbeWaitingWithCapacity
  | StateProbeNodeFailure "'k NodeID"

datatype ('k, 'a) ProbeEvent =
    EventProbePoll
  | EventProbeAdd "'k NodeID"
  | EventProbeRemove "'k NodeID"
  | EventProbeMessageResponse "('k, 'a) NodeInfo" "('k, 'a) Response option"
  | EventProbeMessageFailure "('k, 'a) NodeInfo"
  | EventProbeNotifyConnectivity "'k NodeID"
  | ProbeEventNil
section \<open>The state machine\<close>

record ('k, 'rt) Probe =
  pr_rt :: 'rt
  pr_nvl :: "'k nodeValueList"
  pr_cfg :: ProbeConfig

definition NewProbe :: "'rt \<Rightarrow> ProbeConfig option \<Rightarrow> ConfigurationError + ('k, 'rt) Probe" where
  "NewProbe rt cfg =
     (let c = (case cfg of None \<Rightarrow> DefaultProbeConfig | Some c \<Rightarrow> c);
          err = (case cfg of None \<Rightarrow> None | Some c \<Rightarrow> ProbeConfig_Validate c)
      in case err of
           Some e \<Rightarrow> Inl e
         | None \<Rightarrow> Inr \<lparr>pr_rt = rt, pr_nvl = NewNodeValueList, pr_cfg = c\<rparr>)"

text \<open>A successful check: the due time of the node is written through the pointer, then the node is
  put into the list.\<close>

definition probeSuccess ::
  "'k Key \<Rightarrow> time \<Rightarrow> ('k, 'rt) Probe \<Rightarrow> 'k NodeID \<Rightarrow> (('k, 'rt) Probe \<times> 'k ProbeState option) option" where
  "probeSuccess K now p n = do {
     found \<leftarrow> nvl_Get K (pr_nvl p) n;
     (case found of
        None \<Rightarrow> Some (p, None)
      | Some nve \<Rightarrow> do {
          let l = pr_nvl p;
          let e = nvl_entries l ! nve;
          let nv = (nve_nv e)\<lparr>nvNextCheckDue := now + prcCheckInterval (pr_cfg p)\<rparr>;
          l' \<leftarrow> nvl_Put K (l\<lparr>nvl_entries := (nvl_entries l)[nve := e\<lparr>nve_nv := nv\<rparr>]\<rparr>) nv;
          Some (p\<lparr>pr_nvl := l'\<rparr>, None)
        })
   }"

text \<open>A failed check: the node leaves the routing table and the list.\<close>

definition probeFailure ::
  "'k Key \<Rightarrow> ('k, 'rt, 'z) RoutingTableCpl_scheme \<Rightarrow> ('k, 'rt) Probe \<Rightarrow> 'k NodeID \<Rightarrow>
   (('k, 'rt) Probe \<times> 'k ProbeState) option" where
  "probeFailure K RT p n = do {
     (rt, _) \<leftarrow> RemoveKey RT (pr_rt p) (nodeKey n);
     l \<leftarrow> nvl_Remove K (pr_nvl p) n;
     Some (p\<lparr>pr_rt := rt, pr_nvl := l\<rparr>, StateProbeNodeFailure n)
   }"

definition probeEvent ::
  "'k Key \<Rightarrow> ('k, 'rt, 'z) RoutingTableCpl_scheme \<Rightarrow> time \<Rightarrow> ('k, 'rt) Probe \<Rightarrow> ('k, 'a) ProbeEvent \<Rightarrow>
   (('k, 'rt) Probe \<times> 'k ProbeState option) option" where
  "probeEvent K RT now p ev =
     (case ev of
        EventProbePoll \<Rightarrow> Some (p, None)
      | EventProbeAdd n \<Rightarrow> do {
          found \<leftarrow> GetNode RT (pr_rt p) (nodeKey n);
          if found = None then Some (p, None)
          else do {
            l \<leftarrow> nvl_Put K (pr_nvl p) \<lparr>nvNodeID = n, nvCpl = Cpl RT (pr_rt p) (nodeKey n),
                   nvNextCheckDue = now + prcCheckInterval (pr_cfg p), nvCheckDeadline = 0, nvIndex = 0\<rparr>;
            Some (p\<lparr>pr_nvl := l\<rparr>, None)
          }
        }
      | EventProbeRemove n \<Rightarrow> map_option (\<lambda>(p', st). (p', Some st)) (probeFailure K RT p n)
      | EventProbeMessageResponse ni resp \<Rightarrow> probeSuccess K now p (infoID ni)
      | EventProbeMessageFailure ni \<Rightarrow> map_option (\<lambda>(p', st). (p', Some st)) (probeFailure K RT p (infoID ni))
      | EventProbeNotifyConnectivity n \<Rightarrow> probeSuccess K now p n
      | ProbeEventNil \<Rightarrow> None)"

definition Probe_Advance ::
  "'k Key \<Rightarrow> ('k, 'rt, 'z) RoutingTableCpl_scheme \<Rightarrow> time \<Rightarrow> ('k, 'rt) Probe \<Rightarrow> ('k, 'a) ProbeEvent \<Rightarrow>
   (('k, 'rt) Probe \<times> 'k ProbeState) option" where
  "Probe_Advance K RT now p ev = do {
     (p1, state) \<leftarrow> probeEvent K RT now p ev;
     (case state of
        Some st \<Rightarrow> Some (p1, st)
      | None \<Rightarrow>
          if prcConcurrency (pr_cfg p1) \<le> nvl_OngoingCount (pr_nvl p1) then do {
            candidate \<leftarrow> FindCheckPastDeadline K (pr_nvl p1) now;
            (case candidate of
               None \<Rightarrow> Some (p1, StateProbeWaitingAtCapacity)
             | Some n \<Rightarrow> probeFailure K RT p1 n)
          } else
            (case PeekNext (pr_nvl p1) now of
               None \<Rightarrow>
                 if nvl_OngoingCount (pr_nvl p1) > 0 then Some (p1, StateProbeWaitingWithCapacity)
                 else Some (p1, StateProbeIdle)
             | Some nve \<Rightarrow> do {
                 let n = nvNodeID (nve_nv (nvl_entries (pr_nvl p1) ! nve));
                 l \<leftarrow> MarkOngoing K (pr_nvl p1) n (now + prcTimeout (pr_cfg p1));
                 Some (p1\<lparr>pr_nvl := l\<rparr>, StateProbeConnectivityCheck n)
               }))
   }"
section \<open>The abstract machine\<close>

text \<open>What the machine promises: the contents of the table, the checked nodes by key, and the keys
  with a check under way.\<close>

record 'k probe_abs =
  pa_table :: "'k \<rightharpoonup> 'k NodeID"
  pa_nodes :: "'k \<rightharpoonup> 'k nodeValue"
  pa_ongoing :: "'k set"

definition abs_failure :: "'k \<Rightarrow> 'k probe_abs \<Rightarrow> 'k probe_abs" where
  "abs_failure k a = \<lparr>pa_table = (pa_table a)(k := None), pa_nodes = (pa_nodes a)(k := None),
     pa_ongoing = pa_ongoing a - {k}\<rparr>"

definition abs_success :: "time \<Rightarrow> 'k \<Rightarrow> 'k probe_abs \<Rightarrow> 'k probe_abs" where
  "abs_success due k a =
     (case pa_nodes a k of
        None \<Rightarrow> a
      | Some nv \<Rightarrow> a\<lparr>pa_nodes := (pa_nodes a)(k \<mapsto> nv\<lparr>nvNextCheckDue := due\<rparr>),
          pa_ongoing := pa_ongoing a - {k}\<rparr>)"

definition abs_add :: "('k \<Rightarrow> int) \<Rightarrow> time \<Rightarrow> 'k NodeID \<Rightarrow> 'k probe_abs \<Rightarrow> 'k probe_abs" where
  "abs_add cpl due n a =
     (if pa_table a (nodeKey n) = None then a
      else a\<lparr>pa_nodes := (pa_nodes a)(nodeKey n \<mapsto> \<lparr>nvNodeID = n, nvCpl = cpl (nodeKey n),
               nvNextCheckDue = due, nvCheckDeadline = 0, nvIndex = 0\<rparr>),
             pa_ongoing := pa_ongoing a - {nodeKey n}\<rparr>)"

fun abs_event ::
  "('k \<Rightarrow> int) \<Rightarrow> time \<Rightarrow> 'k probe_abs \<Rightarrow> ('k, 'a) ProbeEvent \<Rightarrow> 'k probe_abs \<times> 'k ProbeState option" where
  "abs_event cpl due a EventProbePoll = (a, None)"
| "abs_event cpl due a (EventProbeAdd n) = (abs_add cpl due n a, None)"
| "abs_event cpl due a (EventProbeRemove n) = (abs_failure (nodeKey n) a, Some (StateProbeNodeFailure n))"
| "abs_event cpl due a (EventProbeMessageResponse ni resp) = (abs_success due (infoKey ni) a, None)"
| "abs_event cpl due a (EventProbeMessageFailure ni) =
     (abs_failure (infoKey ni) a, Some (StateProbeNodeFailure (infoID ni)))"
| "abs_event cpl due a (EventProbeNotifyConnectivity n) = (abs_success due (nodeKey n) a, None)"
| "abs_event cpl due a ProbeEventNil = (a, None)"

text \<open>The work of a step. With as many checks under way as configured, one that ran out of time fails;
  otherwise the due node that comes first in the order of due times, and among equals the one with the
  longest common prefix with the table's key, is checked. (The documentation of \<open>Probe\<close> has a check
  time out at any time; with spare capacity \<open>Advance\<close> does not look for such checks.)\<close>

inductive abs_next :: "ProbeConfig \<Rightarrow> time \<Rightarrow> 'k probe_abs \<Rightarrow> 'k probe_abs \<Rightarrow> 'k ProbeState \<Rightarrow> bool"
  for cfg now a where
  timed_out: "prcConcurrency cfg \<le> int (card (pa_ongoing a)) \<Longrightarrow> nodeKey n \<in> pa_ongoing a \<Longrightarrow>
    pa_nodes a (nodeKey n) = Some nv \<Longrightarrow> nvCheckDeadline nv \<le> now \<Longrightarrow>
    abs_next cfg now a (abs_failure (nodeKey n) a) (StateProbeNodeFailure n)"
| at_capacity: "prcConcurrency cfg \<le> int (card (pa_ongoing a)) \<Longrightarrow>
    (\<And>k nv. k \<in> pa_ongoing a \<Longrightarrow> pa_nodes a k = Some nv \<Longrightarrow> now < nvCheckDeadline nv) \<Longrightarrow>
    abs_next cfg now a a StateProbeWaitingAtCapacity"
| check: "int (card (pa_ongoing a)) < prcConcurrency cfg \<Longrightarrow> pa_nodes a (nvKey nv) = Some nv \<Longrightarrow>
    nvKey nv \<notin> pa_ongoing a \<Longrightarrow> nvNextCheckDue nv \<le> now \<Longrightarrow>
    (\<And>k nv'. pa_nodes a k = Some nv' \<Longrightarrow> k \<notin> pa_ongoing a \<Longrightarrow>
       (nvNextCheckDue nv, - nvCpl nv) \<le> (nvNextCheckDue nv', - nvCpl nv')) \<Longrightarrow>
    abs_next cfg now a
      (a\<lparr>pa_nodes := (pa_nodes a)(nvKey nv \<mapsto> nv\<lparr>nvCheckDeadline := now + prcTimeout cfg\<rparr>),
         pa_ongoing := insert (nvKey nv) (pa_ongoing a)\<rparr>)
      (StateProbeConnectivityCheck (nvNodeID nv))"
| waiting: "int (card (pa_ongoing a)) < prcConcurrency cfg \<Longrightarrow>
    (\<And>k nv. pa_nodes a k = Some nv \<Longrightarrow> k \<notin> pa_ongoing a \<Longrightarrow> now < nvNextCheckDue nv) \<Longrightarrow>
    abs_next cfg now a a (if pa_ongoing a = {} then StateProbeIdle else StateProbeWaitingWithCapacity)"

definition probe_step ::
  "ProbeConfig \<Rightarrow> ('k \<Rightarrow> int) \<Rightarrow> time \<Rightarrow> 'k probe_abs \<Rightarrow> ('k, 'a) ProbeEvent \<Rightarrow> 'k probe_abs \<Rightarrow>
   'k ProbeState \<Rightarrow> bool" where
  "probe_step cfg cpl now a ev a' st \<longleftrightarrow>
     (case abs_event cpl (now + prcCheckInterval cfg) a ev of
        (a1, Some st1) \<Rightarrow> a' = a1 \<and> st = st1
      | (a1, None) \<Rightarrow> abs_next cfg now a1 a' st)"

section \<open>Refinement\<close>

definition probe_abs ::
  "'k Key \<Rightarrow> ('k \<Rightarrow> bool) \<Rightarrow> ('rt \<Rightarrow> 'k \<rightharpoonup> 'k NodeID) \<Rightarrow> ('k, 'rt) Probe \<Rightarrow> 'k probe_abs" where
  "probe_abs K valid contents p =
     \<lparr>pa_table = contents (pr_rt p), pa_nodes = nvl_map K valid (pr_nvl p), pa_ongoing = nvl_keys (pr_nvl p)\<rparr>"

text \<open>Every node of the list is in the table, and no more checks are under way than configured.\<close>

definition probe_inv ::
  "'k Key \<Rightarrow> ('k \<Rightarrow> bool) \<Rightarrow> ('rt \<Rightarrow> bool) \<Rightarrow> ('rt \<Rightarrow> 'k \<rightharpoonup> 'k NodeID) \<Rightarrow> ('k, 'rt) Probe \<Rightarrow> bool" where
  "probe_inv K valid rtinv contents p \<longleftrightarrow>
     rtinv (pr_rt p) \<and> ProbeConfig_Validate (pr_cfg p) = None \<and> nvl_inv K valid (pr_nvl p) \<and>
     int (card (nvl_keys (pr_nvl p))) \<le> prcConcurrency (pr_cfg p) \<and>
     dom (nvl_map K valid (pr_nvl p)) \<subseteq> dom (contents (pr_rt p))"

fun probe_event_valid :: "('k \<Rightarrow> bool) \<Rightarrow> ('k, 'a) ProbeEvent \<Rightarrow> bool" where
  "probe_event_valid valid (EventProbeAdd n) = valid (nodeKey n)"
| "probe_event_valid valid (EventProbeRemove n) = valid (nodeKey n)"
| "probe_event_valid valid (EventProbeMessageResponse ni resp) = valid (infoKey ni)"
| "probe_event_valid valid (EventProbeMessageFailure ni) = valid (infoKey ni)"
| "probe_event_valid valid (EventProbeNotifyConnectivity n) = valid (nodeKey n)"
| "probe_event_valid valid EventProbePoll = True"
| "probe_event_valid valid ProbeEventNil = False"

fun probe_panics :: "('rt \<Rightarrow> 'k \<rightharpoonup> 'k NodeID) \<Rightarrow> ('k, 'rt) Probe \<Rightarrow> ('k, 'a) ProbeEvent \<Rightarrow> bool" where
  "probe_panics contents p (EventProbeAdd n) =
     (nodeKey n \<in> dom (contents (pr_rt p)) \<and> put_panics (pr_nvl p) (nodeKey n))"
| "probe_panics contents p (EventProbeMessageResponse ni resp) = put_panics (pr_nvl p) (infoKey ni)"
| "probe_panics contents p (EventProbeNotifyConnectivity n) = put_panics (pr_nvl p) (nodeKey n)"
| "probe_panics contents p _ = False"

locale probe_env = kad_key_hex K valid len bits + routing_table RT valid bits inv contents
  for K :: "'k Key" and valid :: "'k \<Rightarrow> bool" and len bits
    and RT :: "('k, 'rt, 'z) RoutingTableCpl_scheme" and inv contents
begin

abbreviation pinv :: "('k, 'rt) Probe \<Rightarrow> bool" where
  "pinv \<equiv> probe_inv K valid inv contents"

abbreviation pabs :: "('k, 'rt) Probe \<Rightarrow> 'k probe_abs" where
  "pabs \<equiv> probe_abs K valid contents"

lemma probe_invD:
  assumes "pinv p"
  shows "inv (pr_rt p)" "ProbeConfig_Validate (pr_cfg p) = None" "nvl_inv K valid (pr_nvl p)"
    "int (card (nvl_keys (pr_nvl p))) \<le> prcConcurrency (pr_cfg p)"
    "dom (nvl_map K valid (pr_nvl p)) \<subseteq> dom (contents (pr_rt p))"
  using assms by (simp_all add: probe_inv_def)

lemma card_keys_le: "A \<subseteq> nvl_keys l \<Longrightarrow> card A \<le> card (nvl_keys l)"
  by (rule card_mono) (simp_all add: nvl_keys_def)

lemma probeFailure_law:
  assumes p: "pinv p" and n: "valid (nodeKey n)"
  shows "\<exists>p'. probeFailure K RT p n = Some (p', StateProbeNodeFailure n) \<and> pinv p' \<and>
    pr_cfg p' = pr_cfg p \<and> pabs p' = abs_failure (nodeKey n) (pabs p)"
proof -
  obtain rt where rt: "RemoveKey RT (pr_rt p) (nodeKey n) = Some (rt, nodeKey n \<in> dom (contents (pr_rt p)))"
    "inv rt" "contents rt = (contents (pr_rt p))(nodeKey n := None)"
    using RemoveKey_law [OF probe_invD(1) [OF p] n] by blast
  obtain l where l: "nvl_Remove K (pr_nvl p) n = Some l" "nvl_inv K valid l"
    "nvl_map K valid l = (nvl_map K valid (pr_nvl p))(nodeKey n := None)"
    "nvl_keys l = nvl_keys (pr_nvl p) - {nodeKey n}"
    using nvl_Remove_law [OF probe_invD(3) [OF p] n] by blast
  have "card (nvl_keys l) \<le> card (nvl_keys (pr_nvl p))" by (rule card_keys_le) (simp add: l(4))
  then have "pinv (p\<lparr>pr_rt := rt, pr_nvl := l\<rparr>)"
    using p rt l probe_invD(5) [OF p] by (auto simp: probe_inv_def)
  with rt l show ?thesis by (simp add: probeFailure_def probe_abs_def abs_failure_def)
qed

text \<open>The two uses of \<open>Put\<close>.\<close>

lemma put_law:
  assumes p: "pinv p" and nv: "valid (nvKey nv)" and tab: "nvKey nv \<in> dom (contents (pr_rt p))"
    and "\<not> put_panics (pr_nvl p) (nvKey nv)"
  shows "\<exists>l. nvl_Put K (pr_nvl p) nv = Some l \<and> pinv (p\<lparr>pr_nvl := l\<rparr>) \<and>
    pabs (p\<lparr>pr_nvl := l\<rparr>) = pabs p\<lparr>pa_nodes := (nvl_map K valid (pr_nvl p))(nvKey nv \<mapsto> nv),
      pa_ongoing := nvl_keys (pr_nvl p) - {nvKey nv}\<rparr>"
proof -
  obtain l where l: "nvl_Put K (pr_nvl p) nv = Some l" "nvl_inv K valid l"
    "nvl_map K valid l = (nvl_map K valid (pr_nvl p))(nvKey nv \<mapsto> nv)"
    "nvl_keys l = nvl_keys (pr_nvl p) - {nvKey nv}"
    using nvl_Put_law(2) [OF probe_invD(3) [OF p] nv assms(4)] by blast
  have "card (nvl_keys l) \<le> card (nvl_keys (pr_nvl p))" by (rule card_keys_le) (simp add: l(4))
  then have "pinv (p\<lparr>pr_nvl := l\<rparr>)" using p l tab probe_invD(5) [OF p] by (auto simp: probe_inv_def)
  with l show ?thesis by (simp add: probe_abs_def)
qed

lemma probeSuccess_law:
  assumes p: "pinv p" and n: "valid (nodeKey n)"
  shows "put_panics (pr_nvl p) (nodeKey n) \<Longrightarrow> probeSuccess K now p n = None"
    and "\<not> put_panics (pr_nvl p) (nodeKey n) \<Longrightarrow> \<exists>p'. probeSuccess K now p n = Some (p', None) \<and> pinv p' \<and>
      pr_cfg p' = pr_cfg p \<and> pabs p' = abs_success (now + prcCheckInterval (pr_cfg p)) (nodeKey n) (pabs p)"
proof -
  note l = probe_invD(3) [OF p]
  have found: "\<exists>nv. nvl_map K valid (pr_nvl p) (nodeKey n) = Some nv" if "put_panics (pr_nvl p) (nodeKey n)"
    using that nvl_invD(6) [OF l] by (auto simp: put_panics_def)
  have eq: "nodeKey n \<in> dom (contents (pr_rt p)) \<and> nvKey nv = nodeKey n \<and> probeSuccess K now p n =
      map_option (\<lambda>l'. (p\<lparr>pr_nvl := l'\<rparr>, None)) (nvl_Put K (pr_nvl p) (nv\<lparr>nvNextCheckDue := now + prcCheckInterval (pr_cfg p)\<rparr>))"
    if nv: "nvl_map K valid (pr_nvl p) (nodeKey n) = Some nv" for nv
  proof -
    from l nv obtain x where x: "map_of (nvl_nodes (pr_nvl p)) (hex (nodeKey n)) = Some x" "nvKey nv = nodeKey n"
      "nv = nve_nv (nvl_entries (pr_nvl p) ! x)" by (rule nvl_map_Some)
    let ?nv = "nv\<lparr>nvNextCheckDue := now + prcCheckInterval (pr_cfg p)\<rparr>"
    have "nvl_Put K (pr_nvl p\<lparr>nvl_entries := setValue (nvl_entries (pr_nvl p)) x ?nv\<rparr>) ?nv = nvl_Put K (pr_nvl p) ?nv"
      using nvl_Put_overwritten [of ?nv "pr_nvl p" x] n x(1,2) by simp
    moreover have "nodeKey n \<in> dom (contents (pr_rt p))" using probe_invD(5) [OF p] nv by auto
    ultimately show ?thesis using n x
      by (simp add: probeSuccess_def nvl_Get_def HexString_hex Let_def setValue_def [symmetric]
          map_option_case split: option.splits)
  qed
  show "probeSuccess K now p n = None" if "put_panics (pr_nvl p) (nodeKey n)"
  proof -
    obtain nv where nv: "nvl_map K valid (pr_nvl p) (nodeKey n) = Some nv" using found [OF \<open>put_panics _ _\<close>] ..
    with eq [OF nv] n nvl_Put_law(1) [OF l, of "nv\<lparr>nvNextCheckDue := now + prcCheckInterval (pr_cfg p)\<rparr>"] that
    show ?thesis by simp
  qed
  show "\<exists>p'. probeSuccess K now p n = Some (p', None) \<and> pinv p' \<and>
      pr_cfg p' = pr_cfg p \<and> pabs p' = abs_success (now + prcCheckInterval (pr_cfg p)) (nodeKey n) (pabs p)"
    if "\<not> put_panics (pr_nvl p) (nodeKey n)"
  proof (cases "nvl_map K valid (pr_nvl p) (nodeKey n)")
    case None
    with p n nvl_map_None(1) [OF l n None] show ?thesis
      by (simp add: probeSuccess_def nvl_Get_def HexString_hex abs_success_def probe_abs_def)
  next
    case (Some nv)
    with eq [OF Some] put_law [OF p, of "nv\<lparr>nvNextCheckDue := now + prcCheckInterval (pr_cfg p)\<rparr>"] n that
    show ?thesis by (auto simp: abs_success_def probe_abs_def)
  qed
qed

lemma probeEvent_law:
  assumes p: "pinv p" and ev: "probe_event_valid valid ev"
  shows "probe_panics contents p ev \<Longrightarrow> probeEvent K RT now p ev = None"
    and "\<not> probe_panics contents p ev \<Longrightarrow> \<exists>p' st. probeEvent K RT now p ev = Some (p', st) \<and> pinv p' \<and>
      pr_cfg p' = pr_cfg p \<and> abs_event (Cpl RT (pr_rt p)) (now + prcCheckInterval (pr_cfg p)) (pabs p) ev = (pabs p', st)"
proof -
  have get: "GetNode RT (pr_rt p) k = Some (contents (pr_rt p) k)" if "valid k" for k
    using GetNode_law [OF probe_invD(1) [OF p] that] .
  show "probeEvent K RT now p ev = None" if "probe_panics contents p ev"
    using that ev get nvl_Put_law(1) [OF probe_invD(3) [OF p]] probeSuccess_law(1) [OF p]
    by (cases ev) (auto simp: probeEvent_def domIff)
  show "\<exists>p' st. probeEvent K RT now p ev = Some (p', st) \<and> pinv p' \<and>
      pr_cfg p' = pr_cfg p \<and> abs_event (Cpl RT (pr_rt p)) (now + prcCheckInterval (pr_cfg p)) (pabs p) ev = (pabs p', st)"
    if ok: "\<not> probe_panics contents p ev"
  proof (cases ev)
    case EventProbePoll
    with p show ?thesis by (simp add: probeEvent_def)
  next
    case (EventProbeAdd n)
    let ?nv = "\<lparr>nvNodeID = n, nvCpl = Cpl RT (pr_rt p) (nodeKey n),
      nvNextCheckDue = now + prcCheckInterval (pr_cfg p), nvCheckDeadline = 0, nvIndex = 0\<rparr>"
    show ?thesis
    proof (cases "contents (pr_rt p) (nodeKey n)")
      case None
      with EventProbeAdd ev p get show ?thesis by (simp add: probeEvent_def abs_add_def probe_abs_def)
    next
      case (Some m)
      then have "nvKey ?nv \<in> dom (contents (pr_rt p))" by auto
      with EventProbeAdd ev ok Some put_law [OF p, of ?nv] get show ?thesis
        by (auto simp: probeEvent_def abs_add_def probe_abs_def)
    qed
  next
    case (EventProbeRemove n)
    with ev probeFailure_law [OF p, of n] show ?thesis by (auto simp: probeEvent_def)
  next
    case (EventProbeMessageResponse ni resp)
    with ev ok probeSuccess_law(2) [OF p, of "infoID ni" now] show ?thesis by (auto simp: probeEvent_def)
  next
    case (EventProbeMessageFailure ni)
    with ev probeFailure_law [OF p, of "infoID ni"] show ?thesis by (auto simp: probeEvent_def)
  next
    case (EventProbeNotifyConnectivity n)
    with ev ok probeSuccess_law(2) [OF p, of n now] show ?thesis by (auto simp: probeEvent_def)
  next
    case ProbeEventNil
    with ev show ?thesis by simp
  qed
qed

text \<open>The second half of \<open>Advance\<close>.\<close>

lemma next_at_capacity:
  assumes p: "pinv p" and cap: "prcConcurrency (pr_cfg p) \<le> int (card (nvl_keys (pr_nvl p)))"
  shows "\<exists>p' st. do { candidate \<leftarrow> FindCheckPastDeadline K (pr_nvl p) now;
      (case candidate of None \<Rightarrow> Some (p, StateProbeWaitingAtCapacity) | Some n \<Rightarrow> probeFailure K RT p n) } = Some (p', st) \<and>
    pinv p' \<and> pr_cfg p' = pr_cfg p \<and> abs_next (pr_cfg p) now (pabs p) (pabs p') st"
proof -
  note l = probe_invD(3) [OF p]
  consider n where "n \<in> set (nvl_ongoing (pr_nvl p))" "FindCheckPastDeadline K (pr_nvl p) now = Some (Some n)"
      "nvCheckDeadline (the (nvl_map K valid (pr_nvl p) (nodeKey n))) \<le> now"
    | "FindCheckPastDeadline K (pr_nvl p) now = Some None"
      "\<forall>n \<in> set (nvl_ongoing (pr_nvl p)). now < nvCheckDeadline (the (nvl_map K valid (pr_nvl p) (nodeKey n)))"
    using pastDeadline_law [OF l order_refl, of now] by (auto simp: FindCheckPastDeadline_def)
  then show ?thesis
  proof cases
    case 1
    then have on: "nodeKey n \<in> nvl_keys (pr_nvl p)" by (simp add: nvl_keys_def)
    then obtain nv where nv: "nvl_map K valid (pr_nvl p) (nodeKey n) = Some nv" using nvl_invD(6) [OF l] by auto
    have n: "valid (nodeKey n)" using ongoing_valid [OF l] 1(1) by simp
    from probeFailure_law [OF p n] obtain p' where "probeFailure K RT p n = Some (p', StateProbeNodeFailure n)" "pinv p'"
      "pr_cfg p' = pr_cfg p" "pabs p' = abs_failure (nodeKey n) (pabs p)" by blast
    moreover have "abs_next (pr_cfg p) now (pabs p) (abs_failure (nodeKey n) (pabs p)) (StateProbeNodeFailure n)"
      using cap on nv 1(3) by (intro abs_next.timed_out [of _ _ _ nv]) (simp_all add: probe_abs_def)
    ultimately show ?thesis using 1(2) by simp
  next
    case 2
    then have "abs_next (pr_cfg p) now (pabs p) (pabs p) StateProbeWaitingAtCapacity"
      using cap by (intro abs_next.at_capacity) (auto simp: probe_abs_def nvl_keys_def)
    with 2(1) p show ?thesis by simp
  qed
qed

lemma next_with_capacity:
  assumes p: "pinv p" and cap: "int (card (nvl_keys (pr_nvl p))) < prcConcurrency (pr_cfg p)"
  shows "\<exists>p' st. (case PeekNext (pr_nvl p) now of
      None \<Rightarrow> if nvl_OngoingCount (pr_nvl p) > 0 then Some (p, StateProbeWaitingWithCapacity) else Some (p, StateProbeIdle)
    | Some nve \<Rightarrow> do {
        let n = nvNodeID (nve_nv (nvl_entries (pr_nvl p) ! nve));
        l \<leftarrow> MarkOngoing K (pr_nvl p) n (now + prcTimeout (pr_cfg p));
        Some (p\<lparr>pr_nvl := l\<rparr>, StateProbeConnectivityCheck n)
      }) = Some (p', st) \<and>
    pinv p' \<and> pr_cfg p' = pr_cfg p \<and> abs_next (pr_cfg p) now (pabs p) (pabs p') st"
  using PeekNext_law [OF probe_invD(3) [OF p], of now]
proof (elim disjE exE conjE)
  note l = probe_invD(3) [OF p]
  fix x nv
  assume x: "PeekNext (pr_nvl p) now = Some x" "x \<in> set (nvl_pending (pr_nvl p))"
    and nv: "nv = nve_nv (nvl_entries (pr_nvl p) ! x)" "nvNextCheckDue nv \<le> now"
    and least: "\<forall>k nv'. nvl_map K valid (pr_nvl p) k = Some nv' \<longrightarrow> k \<notin> nvl_keys (pr_nvl p) \<longrightarrow>
      nv_rank (Some nv) \<le> nv_rank (Some nv')"
  obtain l' where l': "MarkOngoing K (pr_nvl p) (nvNodeID nv) (now + prcTimeout (pr_cfg p)) = Some l'"
    "nvl_inv K valid l'" "nvl_map K valid (pr_nvl p) (nvKey nv) = Some nv" "nvKey nv \<notin> nvl_keys (pr_nvl p)"
    "nvl_map K valid l' = (nvl_map K valid (pr_nvl p))(nvKey nv \<mapsto> nv\<lparr>nvCheckDeadline := now + prcTimeout (pr_cfg p)\<rparr>)"
    "nvl_keys l' = insert (nvKey nv) (nvl_keys (pr_nvl p))"
    using MarkOngoing_law [OF l x(2) nv(1), of "now + prcTimeout (pr_cfg p)"] by blast
  have "finite (nvl_keys (pr_nvl p))" by (simp add: nvl_keys_def)
  with l'(4,6) have "card (nvl_keys l') = Suc (card (nvl_keys (pr_nvl p)))" by simp
  then have inv': "pinv (p\<lparr>pr_nvl := l'\<rparr>)"
    using p l' cap probe_invD(5) [OF p] by (auto simp: probe_inv_def)
  have "abs_next (pr_cfg p) now (pabs p) (pabs p\<lparr>pa_nodes := (pa_nodes (pabs p))(nvKey nv \<mapsto>
        nv\<lparr>nvCheckDeadline := now + prcTimeout (pr_cfg p)\<rparr>), pa_ongoing := insert (nvKey nv) (pa_ongoing (pabs p))\<rparr>)
      (StateProbeConnectivityCheck (nvNodeID nv))"
    using cap l'(3,4) nv(2) least by (intro abs_next.check) (auto simp: probe_abs_def nv_rank_def)
  then have "abs_next (pr_cfg p) now (pabs p) (pabs (p\<lparr>pr_nvl := l'\<rparr>)) (StateProbeConnectivityCheck (nvNodeID nv))"
    using l'(5,6) by (simp add: probe_abs_def)
  with x(1) l'(1) inv' nv(1) show ?thesis by simp
next
  assume none: "PeekNext (pr_nvl p) now = None" and
    later: "\<forall>k nv. nvl_map K valid (pr_nvl p) k = Some nv \<longrightarrow> k \<notin> nvl_keys (pr_nvl p) \<longrightarrow> now < nvNextCheckDue nv"
  have "abs_next (pr_cfg p) now (pabs p) (pabs p)
      (if nvl_keys (pr_nvl p) = {} then StateProbeIdle else StateProbeWaitingWithCapacity)"
    using abs_next.waiting [of "pabs p" "pr_cfg p" now] cap later by (auto simp: probe_abs_def)
  moreover have "nvl_OngoingCount (pr_nvl p) > 0 \<longleftrightarrow> nvl_keys (pr_nvl p) \<noteq> {}"
    by (simp add: nvl_OngoingCount_def nvl_keys_def)
  ultimately show ?thesis using none p by (cases "nvl_keys (pr_nvl p) = {}") auto
qed

lemma Probe_Advance_law:
  assumes p: "pinv p" and ev: "probe_event_valid valid ev"
  shows "probe_panics contents p ev \<Longrightarrow> Probe_Advance K RT now p ev = None"
    and "\<not> probe_panics contents p ev \<Longrightarrow> \<exists>p' st. Probe_Advance K RT now p ev = Some (p', st) \<and> pinv p' \<and>
      pr_cfg p' = pr_cfg p \<and> probe_step (pr_cfg p) (Cpl RT (pr_rt p)) now (pabs p) ev (pabs p') st"
proof -
  show "Probe_Advance K RT now p ev = None" if "probe_panics contents p ev"
    using probeEvent_law(1) [OF p ev that] by (simp add: Probe_Advance_def)
  show "\<exists>p' st. Probe_Advance K RT now p ev = Some (p', st) \<and> pinv p' \<and>
      pr_cfg p' = pr_cfg p \<and> probe_step (pr_cfg p) (Cpl RT (pr_rt p)) now (pabs p) ev (pabs p') st"
    if "\<not> probe_panics contents p ev"
  proof -
    from probeEvent_law(2) [OF p ev that, of now] obtain p1 st1 where
      p1: "probeEvent K RT now p ev = Some (p1, st1)" "pinv p1" "pr_cfg p1 = pr_cfg p"
      "abs_event (Cpl RT (pr_rt p)) (now + prcCheckInterval (pr_cfg p)) (pabs p) ev = (pabs p1, st1)" by blast
    show ?thesis
    proof (cases st1)
      case (Some st)
      with p1 show ?thesis by (simp add: Probe_Advance_def probe_step_def)
    next
      case None
      have cnt: "nvl_OngoingCount (pr_nvl p1) = int (card (nvl_keys (pr_nvl p1)))"
        using probe_invD(3) [OF p1(2)] by (rule OngoingCount_card)
      show ?thesis
      proof (cases "prcConcurrency (pr_cfg p1) \<le> int (card (nvl_keys (pr_nvl p1)))")
        case True
        with next_at_capacity [OF p1(2) True, of now] p1 None cnt show ?thesis
          by (simp add: Probe_Advance_def probe_step_def)
      next
        case False
        with next_with_capacity [OF p1(2), of now] p1 None cnt show ?thesis
          by (simp add: Probe_Advance_def probe_step_def)
      qed
    qed
  qed
qed

lemma default_probe_valid: "ProbeConfig_Validate DefaultProbeConfig = None"
  by (simp add: DefaultProbeConfig_def ProbeConfig_Validate_def Minute_def Second_def Hour_def)

lemma NewProbe_law:
  assumes "inv rt" "NewProbe rt cfg = Inr p"
  shows "pinv p"
proof -
  have "\<exists>c. ProbeConfig_Validate c = None \<and> p = \<lparr>pr_rt = rt, pr_nvl = NewNodeValueList, pr_cfg = c\<rparr>"
    using assms(2) default_probe_valid by (auto simp: NewProbe_def Let_def split: option.splits)
  then obtain c where c: "ProbeConfig_Validate c = None" "p = \<lparr>pr_rt = rt, pr_nvl = NewNodeValueList, pr_cfg = c\<rparr>"
    by blast
  have "0 \<le> prcConcurrency c" using c(1) by (auto simp: ProbeConfig_Validate_def split: if_splits)
  with assms(1) c show ?thesis
    by (auto simp: probe_inv_def nvl_inv_def NewNodeValueList_def pending_ok_def pl.ordered_def heap_on_def
        nvl_keys_def nvl_map_def HexString_hex split: if_splits)
qed

end

text \<open>The machine runs over the trie routing table, for every key type.\<close>

sublocale kad_key_hex \<subseteq> trie_probe: probe_env K valid len bits "TrieRT_methods K"
  "trie_rt_inv valid bits" trie_rt_contents
  by (rule probe_env.intro [OF kad_key_hex_axioms trt.routing_table_axioms])

sublocale kad_key_hex \<subseteq> simple_probe: probe_env K valid len bits "SimpleRT_methods K"
  "simple_rt_inv valid bits" simple_rt_contents
  by (rule probe_env.intro [OF kad_key_hex_axioms srt.routing_table_axioms])

section \<open>Properties\<close>

text \<open>C3: A step of the probe machine that does not panic, on any routing table that meets its
  contract, keeps the invariant (the heap order and the positions of the pending list, the
  partition of the nodes into pending and ongoing, all nodes in the table, at most \<open>Concurrency\<close>
  ongoing checks) and implements the abstract machine: failures and removals take the node out of
  the table and the list; any response, an empty one too, counts as a success and puts the node back
  with a new due time; a check that ran out of time fails only at a step that finds as many checks
  under way as configured, and one at each such step; with spare capacity no check is timed out, and
  the node checked next is due and first in the order of due times and then of longer common
  prefixes.\<close>

theorem probe_refines_abstract:
  assumes "kad_key_hex K valid len bits" and "routing_table RT valid bits rtinv contents"
    and "probe_inv K valid rtinv contents p" and "probe_event_valid valid ev"
    and "\<not> probe_panics contents p ev"
  shows "\<exists>p' st. Probe_Advance K RT now p ev = Some (p', st) \<and> probe_inv K valid rtinv contents p' \<and>
    pr_cfg p' = pr_cfg p \<and> probe_step (pr_cfg p) (Cpl RT (pr_rt p)) now
      (probe_abs K valid contents p) ev (probe_abs K valid contents p') st"
  by (rule probe_env.Probe_Advance_law(2) [OF probe_env.intro [OF assms(1,2)] assms(3-5)])

definition probe8 :: "(key8, key8 TrieRT) Probe" where
  "probe8 = \<lparr>pr_rt = triert8, pr_nvl = NewNodeValueList, pr_cfg = DefaultProbeConfig\<rparr>"

lemma probe8_new: "NewProbe triert8 None = Inr probe8"
  by (simp add: NewProbe_def probe8_def)

lemmas probe8_inv = key8.trie_probe.NewProbe_law [OF triert8_inv probe8_new]

theorem probe_refines_abstract_witness:
  "\<exists>p' st. Probe_Advance Key8 (TrieRT_methods Key8) 7 probe8 (EventProbeAdd (node8 3) :: (key8, unit) ProbeEvent) = Some (p', st) \<and>
    probe_inv Key8 (\<lambda>_. True) (trie_rt_inv (\<lambda>_. True) word_bits) trie_rt_contents p' \<and> pr_cfg p' = pr_cfg probe8 \<and>
    probe_step (pr_cfg probe8) (Cpl (TrieRT_methods Key8) (pr_rt probe8)) 7
      (probe_abs Key8 (\<lambda>_. True) trie_rt_contents probe8) (EventProbeAdd (node8 3) :: (key8, unit) ProbeEvent)
      (probe_abs Key8 (\<lambda>_. True) trie_rt_contents p') st"
  by (rule probe_refines_abstract [OF key8.kad_key_hex_axioms key8.trt.routing_table_axioms probe8_inv])
    (simp_all add: put_panics_def probe8_def NewNodeValueList_def)

fun probe_run ::
  "'k Key \<Rightarrow> ('k, 'rt, 'z) RoutingTableCpl_scheme \<Rightarrow> ('k, 'rt) Probe \<Rightarrow> (time \<times> ('k, 'a) ProbeEvent) list \<Rightarrow>
   ('k, 'rt) Probe option" where
  "probe_run K RT p [] = Some p"
| "probe_run K RT p ((now, ev) # evs) = do {
     (p1, st) \<leftarrow> Probe_Advance K RT now p ev;
     probe_run K RT p1 evs
   }"

context probe_env
begin

lemma probe_run_law:
  assumes "pinv p" "\<forall>(now, ev) \<in> set evs. probe_event_valid valid ev" "probe_run K RT p evs = Some p'"
  shows "pinv p'"
  using assms
proof (induction evs arbitrary: p)
  case (Cons e evs)
  obtain now ev where e: "e = (now, ev)" by force
  with Cons.prems(3) obtain p1 st where p1: "Probe_Advance K RT now p ev = Some (p1, st)" "probe_run K RT p1 evs = Some p'"
    by (auto simp: bind_eq_Some)
  have "pinv p1"
    using Probe_Advance_law [OF Cons.prems(1), of ev now] Cons.prems(2) e p1(1)
    by (cases "probe_panics contents p ev") auto
  with Cons p1(2) show ?case by auto
qed simp

end

text \<open>C27: In every state the probe machine reaches from \<open>NewProbe\<close>, a step panics exactly when it puts
  a node into the list that has an ongoing check while other nodes are pending: a response of
  the node, a connectivity notice for it, or its addition again. The step then takes the entry
  out of the heap at the index -1.\<close>

theorem probe_panics_exactly:
  assumes "kad_key_hex K valid len bits" and "routing_table RT valid bits rtinv contents"
    and "rtinv rt" and "NewProbe rt cfg = Inr p0"
    and "\<forall>(now, ev) \<in> set evs. probe_event_valid valid ev" and "probe_run K RT p0 evs = Some p"
    and "probe_event_valid valid ev"
  shows "Probe_Advance K RT now p ev = None \<longleftrightarrow> probe_panics contents p ev"
proof -
  have env: "probe_env K valid len bits RT rtinv contents" using assms(1,2) by (rule probe_env.intro)
  have "probe_inv K valid rtinv contents p"
    using probe_env.probe_run_law [OF env probe_env.NewProbe_law [OF env assms(3,4)] assms(5,6)] .
  from probe_env.Probe_Advance_law [OF env this assms(7), of now] show ?thesis
    by (cases "probe_panics contents p ev") auto
qed

definition probe8_events :: "(time \<times> (key8, unit) ProbeEvent) list" where
  "probe8_events = [(0, EventProbeAdd (node8 3)), (1, EventProbeAdd (node8 130)), (6 * Hour, EventProbePoll)]"

lemma probe8_run: "\<exists>p. probe_run Key8 (TrieRT_methods Key8) probe8 probe8_events = Some p \<and>
    map nodeKey (nvl_ongoing (pr_nvl p)) = [3] \<and> nvl_pending (pr_nvl p) = [1]"
proof -
  have "map_option (\<lambda>p. (map nodeKey (nvl_ongoing (pr_nvl p)), nvl_pending (pr_nvl p)))
      (probe_run Key8 (TrieRT_methods Key8) probe8 probe8_events) = Some ([3], [1])"
    by code_simp
  then show ?thesis by auto
qed

theorem probe_panics_exactly_witness:
  "\<exists>p. probe_run Key8 (TrieRT_methods Key8) probe8 probe8_events = Some p \<and>
    Probe_Advance Key8 (TrieRT_methods Key8) (6 * Hour + 1) p
      (EventProbeMessageResponse (info8 3) (Some \<lparr>CloserNodes = [info8 9]\<rparr>)) = None"
proof -
  obtain p where p: "probe_run Key8 (TrieRT_methods Key8) probe8 probe8_events = Some p"
    "map nodeKey (nvl_ongoing (pr_nvl p)) = [3]" "nvl_pending (pr_nvl p) = [1]"
    using probe8_run by (elim exE conjE) (rule that)
  have "nodeKey ` set (nvl_ongoing (pr_nvl p)) = {3}" using arg_cong [OF p(2), of set] by simp
  then have "probe_panics trie_rt_contents p (EventProbeMessageResponse (info8 3) (Some \<lparr>CloserNodes = [info8 9]\<rparr>))"
    using p(3) by (simp add: put_panics_def nvl_keys_def info8_def node8_def)
  with p(1) probe_panics_exactly [OF key8.kad_key_hex_axioms key8.trt.routing_table_axioms triert8_inv probe8_new
      _ p(1), of "EventProbeMessageResponse (info8 3) (Some \<lparr>CloserNodes = [info8 9]\<rparr>)" "6 * Hour + 1"]
  show ?thesis by (auto simp: probe8_events_def)
qed

end
