(* ===== verification/Event_Queue.thy ===== *)
theory Event_Queue
  imports Kad_Prelude
begin

text \<open>
  The event queue of \<open>event/queue.go\<close> and its implementation by a channel in
  \<open>event/chanqueue.go\<close>. The interface is a dictionary of methods; the methods that the package's
  functions look for with a type assertion are optional. Actions are opaque. The outer \<open>None\<close> of
  an operation means that it does not return: it panics, or it blocks for ever because nothing
  else receives from the channel.

  The contract of a queue is the locale \<open>event_queue\<close>: a bounded first-in-first-out queue; the
  functions of the package are proved against it.
\<close>

section \<open>The interface and its functions\<close>

record ('q, 'a) EventQueue =
  eqEnqueue :: "'q \<Rightarrow> 'a \<Rightarrow> 'q option"
  eqDequeue :: "'q \<Rightarrow> ('q \<times> 'a option) option"
  eqSize :: "'q \<Rightarrow> nat"
  eqClose :: "'q \<Rightarrow> 'q option"
  eqEnqueueMany :: "('q \<Rightarrow> 'a list \<Rightarrow> 'q option) option"
  eqDequeueMany :: "('q \<Rightarrow> int \<Rightarrow> ('q \<times> 'a list) option) option"
  eqDequeueAll :: "('q \<Rightarrow> ('q \<times> 'a list) option) option"
  eqEmpty :: "('q \<Rightarrow> bool) option"

fun enqueueLoop :: "('q, 'a) EventQueue \<Rightarrow> 'q \<Rightarrow> 'a list \<Rightarrow> 'q option" where
  "enqueueLoop Q q [] = Some q"
| "enqueueLoop Q q (a # acts) = do { q' \<leftarrow> eqEnqueue Q q a; enqueueLoop Q q' acts }"

definition EnqueueMany :: "('q, 'a) EventQueue \<Rightarrow> 'q \<Rightarrow> 'a list \<Rightarrow> 'q option" where
  "EnqueueMany Q q actions =
     (case eqEnqueueMany Q of Some f \<Rightarrow> f q actions | None \<Rightarrow> enqueueLoop Q q actions)"

text \<open>At most \<open>n\<close> rounds; \<open>make\<close> panics on a negative capacity.\<close>

fun dequeueLoop :: "('q, 'a) EventQueue \<Rightarrow> 'q \<Rightarrow> nat \<Rightarrow> 'a list \<Rightarrow> ('q \<times> 'a list) option" where
  "dequeueLoop Q q 0 actions = Some (q, actions)"
| "dequeueLoop Q q (Suc n) actions = do {
     (q', a) \<leftarrow> eqDequeue Q q;
     (case a of
        Some x \<Rightarrow> dequeueLoop Q q' n (actions @ [x])
      | None \<Rightarrow> Some (q', actions))
   }"

definition DequeueMany :: "('q, 'a) EventQueue \<Rightarrow> 'q \<Rightarrow> int \<Rightarrow> ('q \<times> 'a list) option" where
  "DequeueMany Q q n =
     (case eqDequeueMany Q of
        Some f \<Rightarrow> f q n
      | None \<Rightarrow> if n < 0 then None else dequeueLoop Q q (nat n) [])"

partial_function (option) dequeueAllLoop ::
  "('q, 'a) EventQueue \<Rightarrow> 'q \<Rightarrow> 'a list \<Rightarrow> ('q \<times> 'a list) option" where
  "dequeueAllLoop Q q actions = do {
     (q', a) \<leftarrow> eqDequeue Q q;
     (case a of
        Some x \<Rightarrow> dequeueAllLoop Q q' (actions @ [x])
      | None \<Rightarrow> Some (q', actions))
   }"

definition DequeueAll :: "('q, 'a) EventQueue \<Rightarrow> 'q \<Rightarrow> ('q \<times> 'a list) option" where
  "DequeueAll Q q = (case eqDequeueAll Q of Some f \<Rightarrow> f q | None \<Rightarrow> dequeueAllLoop Q q [])"

definition Empty :: "('q, 'a) EventQueue \<Rightarrow> 'q \<Rightarrow> bool" where
  "Empty Q q = (case eqEmpty Q of Some f \<Rightarrow> f q | None \<Rightarrow> eqSize Q q = 0)"

section \<open>The channel queue\<close>

record 'a ChanQueue =
  cq_capacity :: nat
  cq_queue :: "'a list"
  cq_closed :: bool

definition NewChanQueue :: "int \<Rightarrow> 'a ChanQueue option" where
  "NewChanQueue cap =
     (if cap < 0 then None else Some \<lparr>cq_capacity = nat cap, cq_queue = [], cq_closed = False\<rparr>)"

definition ChanQueue_Enqueue :: "'a ChanQueue \<Rightarrow> 'a \<Rightarrow> 'a ChanQueue option" where
  "ChanQueue_Enqueue q e =
     (if cq_closed q then None
      else if length (cq_queue q) < cq_capacity q then Some (q\<lparr>cq_queue := cq_queue q @ [e]\<rparr>)
      else None)"

definition ChanQueue_Empty :: "'a ChanQueue \<Rightarrow> bool" where
  "ChanQueue_Empty q \<longleftrightarrow> length (cq_queue q) = 0"

definition ChanQueue_Dequeue :: "'a ChanQueue \<Rightarrow> ('a ChanQueue \<times> 'a option) option" where
  "ChanQueue_Dequeue q =
     (if ChanQueue_Empty q then Some (q, None)
      else Some (q\<lparr>cq_queue := tl (cq_queue q)\<rparr>, Some (hd (cq_queue q))))"

definition ChanQueue_Size :: "'a ChanQueue \<Rightarrow> nat" where
  "ChanQueue_Size q = length (cq_queue q)"

definition ChanQueue_Close :: "'a ChanQueue \<Rightarrow> 'a ChanQueue option" where
  "ChanQueue_Close q = (if cq_closed q then None else Some (q\<lparr>cq_closed := True\<rparr>))"

definition ChanQueue_methods :: "('a ChanQueue, 'a) EventQueue" where
  "ChanQueue_methods = \<lparr>eqEnqueue = ChanQueue_Enqueue, eqDequeue = ChanQueue_Dequeue,
     eqSize = ChanQueue_Size, eqClose = ChanQueue_Close, eqEnqueueMany = None, eqDequeueMany = None,
     eqDequeueAll = None, eqEmpty = Some ChanQueue_Empty\<rparr>"

section \<open>The contract\<close>

locale event_queue =
  fixes Q :: "('q, 'a) EventQueue"
    and qinv :: "'q \<Rightarrow> bool"
    and items :: "'q \<Rightarrow> 'a list"
    and room :: "'q \<Rightarrow> nat"
  assumes Enqueue_law: "qinv q \<Longrightarrow> 0 < room q \<Longrightarrow> \<exists>q'. eqEnqueue Q q a = Some q' \<and> qinv q' \<and>
      items q' = items q @ [a] \<and> Suc (room q') = room q"
    and Enqueue_full: "qinv q \<Longrightarrow> room q = 0 \<Longrightarrow> eqEnqueue Q q a = None"
    and Dequeue_law: "qinv q \<Longrightarrow> items q = a # as \<Longrightarrow> \<exists>q'. eqDequeue Q q = Some (q', Some a) \<and> qinv q' \<and>
      items q' = as \<and> room q' = Suc (room q)"
    and Dequeue_empty: "qinv q \<Longrightarrow> items q = [] \<Longrightarrow> eqDequeue Q q = Some (q, None)"
    and Size_law: "qinv q \<Longrightarrow> eqSize Q q = length (items q)"
    and EnqueueMany_opt: "eqEnqueueMany Q = Some f \<Longrightarrow> qinv q \<Longrightarrow> f q as = enqueueLoop Q q as"
    and DequeueMany_opt: "eqDequeueMany Q = Some g \<Longrightarrow> qinv q \<Longrightarrow> 0 \<le> n \<Longrightarrow> g q n = dequeueLoop Q q (nat n) []"
    and DequeueAll_opt: "eqDequeueAll Q = Some d \<Longrightarrow> qinv q \<Longrightarrow> d q = dequeueAllLoop Q q []"
    and Empty_opt: "eqEmpty Q = Some e \<Longrightarrow> qinv q \<Longrightarrow> e q \<longleftrightarrow> items q = []"
begin

lemma enqueueLoop_law:
  assumes "qinv q"
  shows "length as \<le> room q \<Longrightarrow> \<exists>q'. enqueueLoop Q q as = Some q' \<and> qinv q' \<and>
      items q' = items q @ as \<and> room q' + length as = room q"
    and "room q < length as \<Longrightarrow> enqueueLoop Q q as = None"
proof -
  have "if length as \<le> room q then \<exists>q'. enqueueLoop Q q as = Some q' \<and> qinv q' \<and>
      items q' = items q @ as \<and> room q' + length as = room q
    else enqueueLoop Q q as = None"
    using assms
  proof (induction as arbitrary: q)
    case (Cons a as)
    show ?case
    proof (cases "room q = 0")
      case True
      with Enqueue_full [OF Cons.prems True] show ?thesis by simp
    next
      case False
      then obtain q1 where q1: "eqEnqueue Q q a = Some q1" "qinv q1" "items q1 = items q @ [a]" "Suc (room q1) = room q"
        using Enqueue_law [OF Cons.prems, of a] by auto
      with Cons.IH [OF q1(2)] show ?thesis by (auto split: if_splits)
    qed
  qed simp
  then show "length as \<le> room q \<Longrightarrow> \<exists>q'. enqueueLoop Q q as = Some q' \<and> qinv q' \<and>
      items q' = items q @ as \<and> room q' + length as = room q"
    and "room q < length as \<Longrightarrow> enqueueLoop Q q as = None"
    by (auto split: if_splits)
qed

lemma EnqueueMany_loop: "qinv q \<Longrightarrow> EnqueueMany Q q as = enqueueLoop Q q as"
  by (auto simp: EnqueueMany_def EnqueueMany_opt split: option.splits)

lemma EnqueueMany_law:
  assumes "qinv q"
  shows "length as \<le> room q \<Longrightarrow> \<exists>q'. EnqueueMany Q q as = Some q' \<and> qinv q' \<and>
      items q' = items q @ as \<and> room q' + length as = room q"
    and "room q < length as \<Longrightarrow> EnqueueMany Q q as = None"
  using enqueueLoop_law [OF assms] by (simp_all add: EnqueueMany_loop [OF assms])

lemma dequeueLoop_law:
  assumes "qinv q"
  shows "\<exists>q'. dequeueLoop Q q n acc = Some (q', acc @ take n (items q)) \<and> qinv q' \<and>
    items q' = drop n (items q) \<and> room q' = room q + min n (length (items q))"
  using assms
proof (induction n arbitrary: q acc)
  case (Suc n)
  show ?case
  proof (cases "items q")
    case Nil
    with Suc.prems Dequeue_empty [OF Suc.prems Nil] show ?thesis by simp
  next
    case (Cons a as)
    then obtain q1 where q1: "eqDequeue Q q = Some (q1, Some a)" "qinv q1" "items q1 = as" "room q1 = Suc (room q)"
      using Dequeue_law [OF Suc.prems Cons] by blast
    with Suc.IH [OF q1(2), of "acc @ [a]"] Cons show ?thesis by auto
  qed
qed simp

lemma DequeueMany_law:
  assumes "qinv q" "0 \<le> n"
  shows "\<exists>q'. DequeueMany Q q n = Some (q', take (nat n) (items q)) \<and> qinv q' \<and>
    items q' = drop (nat n) (items q)"
  using dequeueLoop_law [OF assms(1), of "nat n" "[]"] assms DequeueMany_opt [OF _ assms]
  by (auto simp: DequeueMany_def split: option.splits)

lemma dequeueAllLoop_law:
  assumes "qinv q"
  shows "\<exists>q'. dequeueAllLoop Q q acc = Some (q', acc @ items q) \<and> qinv q' \<and> items q' = [] \<and>
    room q' = room q + length (items q)"
  using assms
proof (induction "items q" arbitrary: q acc)
  case Nil
  with Dequeue_empty [of q] show ?case by (subst dequeueAllLoop.simps) simp
next
  case (Cons a as)
  then obtain q1 where q1: "eqDequeue Q q = Some (q1, Some a)" "qinv q1" "items q1 = as" "room q1 = Suc (room q)"
    using Dequeue_law [of q a as] by auto
  have step: "dequeueAllLoop Q q acc = dequeueAllLoop Q q1 (acc @ [a])"
    by (subst dequeueAllLoop.simps) (simp add: q1(1))
  have iq: "items q = a # as" using Cons.hyps(2) by simp
  show ?case using Cons.hyps(1) [of q1 "acc @ [a]"] q1 unfolding step iq by auto
qed

lemma DequeueAll_law:
  assumes "qinv q"
  shows "\<exists>q'. DequeueAll Q q = Some (q', items q) \<and> qinv q' \<and> items q' = []"
  using dequeueAllLoop_law [OF assms, of "[]"] DequeueAll_opt [OF _ assms]
  by (auto simp: DequeueAll_def split: option.splits)

lemma Empty_law: "qinv q \<Longrightarrow> Empty Q q \<longleftrightarrow> items q = []"
  by (auto simp: Empty_def Empty_opt Size_law split: option.splits)

end

section \<open>The channel queue meets the contract\<close>

definition chan_inv :: "'a ChanQueue \<Rightarrow> bool" where
  "chan_inv q \<longleftrightarrow> length (cq_queue q) \<le> cq_capacity q \<and> \<not> cq_closed q"

definition chan_room :: "'a ChanQueue \<Rightarrow> nat" where
  "chan_room q = cq_capacity q - length (cq_queue q)"

interpretation chanq: event_queue ChanQueue_methods chan_inv cq_queue chan_room
  by unfold_locales
    (auto simp: ChanQueue_methods_def ChanQueue_Enqueue_def ChanQueue_Dequeue_def ChanQueue_Size_def
      ChanQueue_Empty_def chan_inv_def chan_room_def)

end
