(* ===== verification/Event_Planner.thy ===== *)
theory Event_Planner
  imports Kad_Prelude
begin

text \<open>
  The action planner of \<open>event/planner.go\<close> and its implementation as a linked list in
  \<open>event/simpleplanner.go\<close>. The list nodes are shared by pointer with the callers, who remove an
  action by the pointer they got when they scheduled it; the nodes live in a store and a pointer
  is an index into it. A reading of the clock is the argument \<open>now\<close>, and two times are equal when
  they are the same instant.

  The contract of a planner is the locale \<open>aware_planner\<close>: a sequence of planned actions in the
  order of their times. The linked list is proved to meet it.
\<close>

section \<open>The interface and its functions\<close>

text \<open>A planned action is a handle \<open>'h\<close>; \<open>None\<close> is a nil interface.\<close>

record ('p, 'h, 'a) ActionPlanner =
  apScheduleAction :: "'p \<Rightarrow> time \<Rightarrow> 'a \<Rightarrow> ('p \<times> 'h option) option"
  apRemoveAction :: "'p \<Rightarrow> 'h option \<Rightarrow> ('p \<times> bool) option"
  apPopOverdueActions :: "time \<Rightarrow> 'p \<Rightarrow> ('p \<times> 'a list) option"
  apScheduleActions :: "('p \<Rightarrow> time list \<Rightarrow> 'a list \<Rightarrow> ('p \<times> 'h option list) option) option"
  apRemoveActions :: "('p \<Rightarrow> 'h option list \<Rightarrow> 'p option) option"

record ('p, 'h, 'a) AwareActionPlanner = "('p, 'h, 'a) ActionPlanner" +
  apNextActionTime :: "'p \<Rightarrow> time"

definition MaxTime :: time where
  "MaxTime = (2 ^ 63 - 1) * Second + 999999999"

fun scheduleLoop ::
  "('p, 'h, 'a, 'z) ActionPlanner_scheme \<Rightarrow> 'p \<Rightarrow> (time \<times> 'a) list \<Rightarrow> 'p option" where
  "scheduleLoop P p [] = Some p"
| "scheduleLoop P p ((t, a) # rest) = do {
     (p', _) \<leftarrow> apScheduleAction P p t a;
     scheduleLoop P p' rest
   }"

text \<open>The slice of results is allocated and never written.\<close>

definition ScheduleActions ::
  "('p, 'h, 'a, 'z) ActionPlanner_scheme \<Rightarrow> 'p \<Rightarrow> time list \<Rightarrow> 'a list \<Rightarrow> ('p \<times> 'h option list) option" where
  "ScheduleActions P p ts actions =
     (if length ts \<noteq> length actions then Some (p, [])
      else case apScheduleActions P of
        Some f \<Rightarrow> f p ts actions
      | None \<Rightarrow> do {
          p' \<leftarrow> scheduleLoop P p (zip ts actions);
          Some (p', replicate (length ts) None)
        })"

fun removeLoop :: "('p, 'h, 'a, 'z) ActionPlanner_scheme \<Rightarrow> 'p \<Rightarrow> 'h option list \<Rightarrow> 'p option" where
  "removeLoop P p [] = Some p"
| "removeLoop P p (a # rest) = do { (p', _) \<leftarrow> apRemoveAction P p a; removeLoop P p' rest }"

definition RemoveActions ::
  "('p, 'h, 'a, 'z) ActionPlanner_scheme \<Rightarrow> 'p \<Rightarrow> 'h option list \<Rightarrow> 'p option" where
  "RemoveActions P p actions =
     (case apRemoveActions P of Some f \<Rightarrow> f p actions | None \<Rightarrow> removeLoop P p actions)"

section \<open>The linked list\<close>

record 'a simpleTimedAction =
  sta_action :: 'a
  sta_time :: time
  sta_next :: "nat option"

record 'a SimplePlanner =
  sp_store :: "'a simpleTimedAction list"
  sp_NextAction :: "nat option"

definition NewSimplePlanner :: "'a SimplePlanner" where
  "NewSimplePlanner = \<lparr>sp_store = [], sp_NextAction = None\<rparr>"

definition simpleTimedAction_Time :: "'a SimplePlanner \<Rightarrow> nat \<Rightarrow> time" where
  "simpleTimedAction_Time p a = sta_time (sp_store p ! a)"

definition simpleTimedAction_Action :: "'a SimplePlanner \<Rightarrow> nat \<Rightarrow> 'a" where
  "simpleTimedAction_Action p a = sta_action (sp_store p ! a)"

partial_function (option) insertAfter :: "'a simpleTimedAction list \<Rightarrow> time \<Rightarrow> nat \<Rightarrow> nat option" where
  "insertAfter st t cur =
     (case sta_next (st ! cur) of
        None \<Rightarrow> Some cur
      | Some nx \<Rightarrow> if t > sta_time (st ! nx) then insertAfter st t nx else Some cur)"

definition SimplePlanner_ScheduleAction ::
  "'a SimplePlanner \<Rightarrow> time \<Rightarrow> 'a \<Rightarrow> ('a SimplePlanner \<times> nat option) option" where
  "SimplePlanner_ScheduleAction p t a =
     (let st = sp_store p; n = length st in
      case sp_NextAction p of
        None \<Rightarrow>
          Some (\<lparr>sp_store = st @ [\<lparr>sta_action = a, sta_time = t, sta_next = None\<rparr>], sp_NextAction = Some n\<rparr>, Some n)
      | Some cur \<Rightarrow>
          if t < sta_time (st ! cur) then
            Some (\<lparr>sp_store = st @ [\<lparr>sta_action = a, sta_time = t, sta_next = Some cur\<rparr>], sp_NextAction = Some n\<rparr>,
                  Some n)
          else do {
            c \<leftarrow> insertAfter st t cur;
            Some (p\<lparr>sp_store := st[c := (st ! c)\<lparr>sta_next := Some n\<rparr>] @
                     [\<lparr>sta_action = a, sta_time = t, sta_next = sta_next (st ! c)\<rparr>]\<rparr>, Some n)
          })"

partial_function (option) unlinkLoop ::
  "'a simpleTimedAction list \<Rightarrow> nat \<Rightarrow> nat \<Rightarrow> ('a simpleTimedAction list \<times> bool) option" where
  "unlinkLoop st a cur =
     (case sta_next (st ! cur) of
        None \<Rightarrow> Some (st, False)
      | Some nx \<Rightarrow>
          if nx = a then Some (st[cur := (st ! cur)\<lparr>sta_next := sta_next (st ! nx)\<rparr>], True)
          else unlinkLoop st a nx)"

definition SimplePlanner_RemoveAction ::
  "'a SimplePlanner \<Rightarrow> nat option \<Rightarrow> ('a SimplePlanner \<times> bool) option" where
  "SimplePlanner_RemoveAction p pa =
     (case pa of
        None \<Rightarrow> Some (p, False)
      | Some a \<Rightarrow>
          (case sp_NextAction p of
             None \<Rightarrow> Some (p, False)
           | Some cur \<Rightarrow>
               if cur = a then Some (p\<lparr>sp_NextAction := sta_next (sp_store p ! cur)\<rparr>, True)
               else do {
                 (st, removed) \<leftarrow> unlinkLoop (sp_store p) a cur;
                 Some (p\<lparr>sp_store := st\<rparr>, removed)
               }))"

partial_function (option) overdueLoop ::
  "'a simpleTimedAction list \<Rightarrow> time \<Rightarrow> nat option \<Rightarrow> 'a list \<Rightarrow> (nat option \<times> 'a list) option" where
  "overdueLoop st now cur overdue =
     (case cur of
        None \<Rightarrow> Some (None, overdue)
      | Some c \<Rightarrow>
          if sta_time (st ! c) < now \<or> sta_time (st ! c) = now
          then overdueLoop st now (sta_next (st ! c)) (overdue @ [sta_action (st ! c)])
          else Some (Some c, overdue))"

definition SimplePlanner_PopOverdueActions ::
  "time \<Rightarrow> 'a SimplePlanner \<Rightarrow> ('a SimplePlanner \<times> 'a list) option" where
  "SimplePlanner_PopOverdueActions now p = do {
     (cur, overdue) \<leftarrow> overdueLoop (sp_store p) now (sp_NextAction p) [];
     Some (p\<lparr>sp_NextAction := cur\<rparr>, overdue)
   }"

definition SimplePlanner_NextActionTime :: "'a SimplePlanner \<Rightarrow> time" where
  "SimplePlanner_NextActionTime p =
     (case sp_NextAction p of None \<Rightarrow> MaxTime | Some a \<Rightarrow> sta_time (sp_store p ! a))"

definition SimplePlanner_methods :: "('a SimplePlanner, nat, 'a) AwareActionPlanner" where
  "SimplePlanner_methods = \<lparr>apScheduleAction = SimplePlanner_ScheduleAction,
     apRemoveAction = SimplePlanner_RemoveAction, apPopOverdueActions = SimplePlanner_PopOverdueActions,
     apScheduleActions = None, apRemoveActions = None, apNextActionTime = SimplePlanner_NextActionTime\<rparr>"

section \<open>The contract\<close>

type_synonym ('h, 'a) planned = "'h \<times> time \<times> 'a"

abbreviation due :: "('h, 'a) planned \<Rightarrow> time" where
  "due e \<equiv> fst (snd e)"

abbreviation act :: "('h, 'a) planned \<Rightarrow> 'a" where
  "act e \<equiv> snd (snd e)"

locale aware_planner =
  fixes P :: "('p, 'h, 'a, 'z) AwareActionPlanner_scheme"
    and pinv :: "'p \<Rightarrow> bool"
    and plan :: "'p \<Rightarrow> ('h, 'a) planned list"
  assumes plan_sorted: "pinv p \<Longrightarrow> sorted (map due (plan p))"
    and plan_distinct: "pinv p \<Longrightarrow> distinct (map fst (plan p))"
    and Schedule_law: "pinv p \<Longrightarrow> \<exists>p' h xs ys. apScheduleAction P p t a = Some (p', Some h) \<and> pinv p' \<and>
      plan p = xs @ ys \<and> plan p' = xs @ (h, t, a) # ys"
    and Remove_law: "pinv p \<Longrightarrow> \<exists>p'. apRemoveAction P p (Some h) = Some (p', h \<in> fst ` set (plan p)) \<and>
      pinv p' \<and> plan p' = filter (\<lambda>e. fst e \<noteq> h) (plan p)"
    and Remove_nil: "pinv p \<Longrightarrow> apRemoveAction P p None = Some (p, False)"
    and Pop_law: "pinv p \<Longrightarrow> \<exists>p'. apPopOverdueActions P now p =
        Some (p', map act (takeWhile (\<lambda>e. due e \<le> now) (plan p))) \<and>
      pinv p' \<and> plan p' = dropWhile (\<lambda>e. due e \<le> now) (plan p)"
    and Next_law: "pinv p \<Longrightarrow> apNextActionTime P p = (case plan p of [] \<Rightarrow> MaxTime | e # _ \<Rightarrow> due e)"
begin

text \<open>The overdue actions are a prefix of the plan.\<close>

lemma overdue_prefix:
  assumes "pinv p"
  shows "takeWhile (\<lambda>e. due e \<le> now) (plan p) = filter (\<lambda>e. due e \<le> now) (plan p)"
    and "dropWhile (\<lambda>e. due e \<le> now) (plan p) = filter (\<lambda>e. \<not> due e \<le> now) (plan p)"
proof -
  have "takeWhile (\<lambda>e. due e \<le> now) xs = filter (\<lambda>e. due e \<le> now) xs \<and>
      dropWhile (\<lambda>e. due e \<le> now) xs = filter (\<lambda>e. \<not> due e \<le> now) xs"
    if "sorted (map due xs)" for xs :: "('h, 'a) planned list"
    using that
  proof (induction xs)
    case (Cons x xs)
    show ?case
    proof (cases "due x \<le> now")
      case False
      with Cons.prems have "\<forall>y \<in> set xs. \<not> due y \<le> now" by auto
      with False show ?thesis by (auto simp: filter_empty_conv filter_id_conv)
    qed (use Cons in auto)
  qed simp
  from this [OF plan_sorted [OF assms]]
  show "takeWhile (\<lambda>e. due e \<le> now) (plan p) = filter (\<lambda>e. due e \<le> now) (plan p)"
    and "dropWhile (\<lambda>e. due e \<le> now) (plan p) = filter (\<lambda>e. \<not> due e \<le> now) (plan p)" by simp_all
qed

text \<open>After a scheduling, the action is found by its handle and can be removed again.\<close>

lemma schedule_remove:
  assumes "pinv p"
  shows "\<exists>p1 h p2. apScheduleAction P p t a = Some (p1, Some h) \<and> (h, t, a) \<in> set (plan p1) \<and>
    apRemoveAction P p1 (Some h) = Some (p2, True) \<and> plan p2 = plan p"
proof -
  obtain p1 h xs ys where p1: "apScheduleAction P p t a = Some (p1, Some h)" "pinv p1"
    "plan p = xs @ ys" "plan p1 = xs @ (h, t, a) # ys"
    using Schedule_law [OF assms] by blast
  obtain p2 where p2: "apRemoveAction P p1 (Some h) = Some (p2, h \<in> fst ` set (plan p1))"
    "plan p2 = filter (\<lambda>e. fst e \<noteq> h) (plan p1)" using Remove_law [OF p1(2)] by blast
  have "distinct (map fst (plan p1))" by (rule plan_distinct [OF p1(2)])
  then have "filter (\<lambda>e. fst e \<noteq> h) xs = xs" "filter (\<lambda>e. fst e \<noteq> h) ys = ys"
    by (auto simp: p1(4) filter_id_conv)
  with p1 p2 show ?thesis by auto
qed

text \<open>Scheduling a list of actions plans them all; the handles that come back are all nil.\<close>

lemma scheduleLoop_law:
  assumes "pinv p"
  shows "\<exists>p'. scheduleLoop P p tas = Some p' \<and> pinv p' \<and>
    mset (map snd (plan p')) = mset (map snd (plan p)) + mset tas"
  using assms
proof (induction tas arbitrary: p)
  case (Cons e tas)
  obtain t a where e: "e = (t, a)" by force
  obtain p1 h xs ys where p1: "apScheduleAction P p t a = Some (p1, Some h)" "pinv p1"
    "plan p = xs @ ys" "plan p1 = xs @ (h, t, a) # ys"
    using Schedule_law [OF Cons.prems] by blast
  with Cons.IH [OF p1(2)] e show ?case by auto
qed simp

lemma removeLoop_nil: "pinv p \<Longrightarrow> removeLoop P p (replicate n None) = Some p"
  by (induction n) (simp_all add: Remove_nil)

end

section \<open>The linked list meets the contract\<close>

text \<open>The pointers of the list in order.\<close>

fun chain :: "'a simpleTimedAction list \<Rightarrow> nat option \<Rightarrow> nat list \<Rightarrow> bool" where
  "chain st p [] \<longleftrightarrow> p = None"
| "chain st p (x # xs) \<longleftrightarrow> p = Some x \<and> x < length st \<and> chain st (sta_next (st ! x)) xs"

fun follow :: "nat \<Rightarrow> 'a simpleTimedAction list \<Rightarrow> nat option \<Rightarrow> nat list" where
  "follow 0 st p = []"
| "follow (Suc n) st p = (case p of None \<Rightarrow> [] | Some x \<Rightarrow> x # follow n st (sta_next (st ! x)))"

definition pointers :: "'a SimplePlanner \<Rightarrow> nat list" where
  "pointers p = follow (length (sp_store p)) (sp_store p) (sp_NextAction p)"

definition planned_at :: "'a simpleTimedAction list \<Rightarrow> nat \<Rightarrow> (nat, 'a) planned" where
  "planned_at st x = (x, sta_time (st ! x), sta_action (st ! x))"

definition simple_plan :: "'a SimplePlanner \<Rightarrow> (nat, 'a) planned list" where
  "simple_plan p = map (planned_at (sp_store p)) (pointers p)"

definition simple_planner_inv :: "'a SimplePlanner \<Rightarrow> bool" where
  "simple_planner_inv p \<longleftrightarrow>
     chain (sp_store p) (sp_NextAction p) (pointers p) \<and> distinct (pointers p) \<and>
     sorted (map (\<lambda>x. sta_time (sp_store p ! x)) (pointers p))"

lemma filter_notin: "h \<notin> set xs \<Longrightarrow> filter (\<lambda>x. x \<noteq> h) xs = xs"
  by (induction xs) auto

lemma planned_at_sel [simp]: "fst (planned_at st x) = x" "due (planned_at st x) = sta_time (st ! x)"
  "act (planned_at st x) = sta_action (st ! x)"
  by (simp_all add: planned_at_def)

lemma chain_bound: "chain st p xs \<Longrightarrow> set xs \<subseteq> {..<length st}"
  by (induction xs arbitrary: p) auto

lemma follow_chain: "chain st p xs \<Longrightarrow> length xs \<le> n \<Longrightarrow> follow n st p = xs"
  by (induction xs arbitrary: p n) (case_tac n; auto)+

text \<open>A chain of distinct pointers determines the pointers of the planner.\<close>

lemma plannerI:
  assumes "chain (sp_store p) (sp_NextAction p) xs" "distinct xs"
    and "sorted (map (\<lambda>x. sta_time (sp_store p ! x)) xs)"
  shows "pointers p = xs" "simple_planner_inv p"
proof -
  have "card (set xs) \<le> card {..<length (sp_store p)}"
    using chain_bound [OF assms(1)] by (intro card_mono) auto
  then have "length xs \<le> length (sp_store p)" using assms(2) by (simp add: distinct_card)
  with assms(1) show "pointers p = xs" by (simp add: pointers_def follow_chain)
  with assms show "simple_planner_inv p" by (simp add: simple_planner_inv_def)
qed

lemma chain_append: "chain st p xs \<Longrightarrow> chain (st @ ys) p xs"
  by (induction xs arbitrary: p) (auto simp: nth_append)

lemma chain_update: "c \<notin> set xs \<Longrightarrow> chain (st[c := v]) p xs = chain st p xs"
  by (induction xs arbitrary: p) auto

lemma relink_sel [simp]:
  "sta_time (st[c := (st ! c)\<lparr>sta_next := v\<rparr>] ! x) = sta_time (st ! x)"
  "sta_action (st[c := (st ! c)\<lparr>sta_next := v\<rparr>] ! x) = sta_action (st ! x)"
  by (cases "c < length st"; auto simp: nth_list_update list_update_beyond)+

lemma chain_insert:
  assumes "chain st p (xs @ c # ys)" "distinct (xs @ c # ys)"
  shows "chain (st[c := (st ! c)\<lparr>sta_next := Some (length st)\<rparr>] @ [e\<lparr>sta_next := sta_next (st ! c)\<rparr>]) p
    (xs @ c # length st # ys)"
  using assms
proof (induction xs arbitrary: p)
  case Nil
  then have "chain (st[c := (st ! c)\<lparr>sta_next := Some (length st)\<rparr>]) (sta_next (st ! c)) ys"
    by (simp add: chain_update)
  with Nil show ?case by (auto simp: nth_append intro: chain_append)
next
  case (Cons x xs)
  then have "x \<noteq> c" by auto
  with Cons show ?case by (auto simp: nth_append)
qed

lemma chain_unlink:
  assumes "chain st p (xs @ c # a # ys)" "distinct (xs @ c # a # ys)"
  shows "chain (st[c := (st ! c)\<lparr>sta_next := sta_next (st ! a)\<rparr>]) p (xs @ c # ys)"
  using assms by (induction xs arbitrary: p) (auto simp: chain_update)

lemma insertAfter_law:
  assumes "chain st (Some c) (c # ys)"
  shows "\<exists>us vs. c # ys = us @ vs \<and> us \<noteq> [] \<and> insertAfter st t c = Some (last us) \<and>
    (\<forall>u \<in> set (tl us). sta_time (st ! u) < t) \<and> (vs \<noteq> [] \<longrightarrow> t \<le> sta_time (st ! hd vs))"
  using assms
proof (induction ys arbitrary: c)
  case Nil
  then show ?case by (intro exI [of _ "[c]"] exI [of _ "[]"]) (simp add: insertAfter.simps)
next
  case (Cons y ys)
  then have nx: "sta_next (st ! c) = Some y" and ch: "chain st (Some y) (y # ys)" by auto
  show ?case
  proof (cases "t > sta_time (st ! y)")
    case True
    obtain us vs where uv: "y # ys = us @ vs" "us \<noteq> []" "insertAfter st t y = Some (last us)"
      "\<forall>u \<in> set (tl us). sta_time (st ! u) < t" "vs \<noteq> [] \<longrightarrow> t \<le> sta_time (st ! hd vs)"
      using Cons.IH [OF ch] by blast
    from uv(1,2) have us: "us = y # tl us" by (cases us) auto
    have "insertAfter st t c = Some (last (c # us))"
      using nx True uv(2,3) by (subst insertAfter.simps) simp
    moreover have "\<forall>u \<in> set us. sta_time (st ! u) < t"
      using True uv(4) by (subst us) simp
    ultimately show ?thesis using uv(1,2,5)
      by (intro exI [of _ "c # us"] exI [of _ vs]) auto
  next
    case False
    with nx show ?thesis
      by (intro exI [of _ "[c]"] exI [of _ "y # ys"]) (simp add: insertAfter.simps)
  qed
qed

lemma unlinkLoop_law:
  assumes "chain st (Some c) (c # ys)" "distinct (c # ys)" "a \<noteq> c"
  shows "(a \<notin> set ys \<longrightarrow> unlinkLoop st a c = Some (st, False)) \<and>
    (a \<in> set ys \<longrightarrow> (\<exists>us d vs. c # ys = us @ d # a # vs \<and>
       unlinkLoop st a c = Some (st[d := (st ! d)\<lparr>sta_next := sta_next (st ! a)\<rparr>], True)))"
  using assms
proof (induction ys arbitrary: c)
  case Nil
  then show ?case by (simp add: unlinkLoop.simps)
next
  case (Cons y ys)
  then have nx: "sta_next (st ! c) = Some y" and ch: "chain st (Some y) (y # ys)" by auto
  show ?case
  proof (cases "y = a")
    case True
    then have "c # y # ys = [] @ c # a # ys" by simp
    with nx True show ?thesis by (subst (1 2) unlinkLoop.simps) (auto intro!: exI [of _ "[]"])
  next
    case False
    have st: "unlinkLoop st a c = unlinkLoop st a y"
      using nx False by (subst unlinkLoop.simps) simp
    have IH: "(a \<notin> set ys \<longrightarrow> unlinkLoop st a y = Some (st, False)) \<and>
      (a \<in> set ys \<longrightarrow> (\<exists>us d vs. y # ys = us @ d # a # vs \<and>
         unlinkLoop st a y = Some (st[d := (st ! d)\<lparr>sta_next := sta_next (st ! a)\<rparr>], True)))"
      by (rule Cons.IH [OF ch]) (use Cons.prems False in auto)
    show ?thesis
    proof (cases "a \<in> set ys")
      case True
      with IH obtain us d vs where u: "y # ys = us @ d # a # vs"
        "unlinkLoop st a y = Some (st[d := (st ! d)\<lparr>sta_next := sta_next (st ! a)\<rparr>], True)" by blast
      then have "c # y # ys = (c # us) @ d # a # vs" by simp
      with u(2) True st show ?thesis by (metis list.set_intros(2))
    qed (use IH st False in auto)
  qed
qed

lemma overdueLoop_law:
  assumes "chain st p xs"
  shows "\<exists>p'. overdueLoop st now p acc =
      Some (p', acc @ map (\<lambda>x. sta_action (st ! x)) (takeWhile (\<lambda>x. sta_time (st ! x) \<le> now) xs)) \<and>
    chain st p' (dropWhile (\<lambda>x. sta_time (st ! x) \<le> now) xs)"
  using assms
proof (induction xs arbitrary: p acc)
  case Nil
  then show ?case by (subst overdueLoop.simps) simp
next
  case (Cons x xs)
  show ?case
  proof (cases "sta_time (st ! x) \<le> now")
    case True
    then have "overdueLoop st now p acc = overdueLoop st now (sta_next (st ! x)) (acc @ [sta_action (st ! x)])"
      using Cons.prems by (subst overdueLoop.simps) auto
    with Cons.IH [of "sta_next (st ! x)" "acc @ [sta_action (st ! x)]"] Cons.prems True show ?thesis by simp
  next
    case False
    with Cons.prems show ?thesis by (subst overdueLoop.simps) auto
  qed
qed

lemma simple_Schedule:
  assumes p: "simple_planner_inv p"
  shows "\<exists>p' h xs ys. SimplePlanner_ScheduleAction p t a = Some (p', Some h) \<and> simple_planner_inv p' \<and>
      simple_plan p = xs @ ys \<and> simple_plan p' = xs @ (h, t, a) # ys"
proof -
  let ?st = "sp_store p" and ?n = "length (sp_store p)"
  have ch: "chain ?st (sp_NextAction p) (pointers p)" and d: "distinct (pointers p)"
    and so: "sorted (map (\<lambda>x. sta_time (?st ! x)) (pointers p))"
    using p by (simp_all add: simple_planner_inv_def)
  have bound: "x < ?n" if "x \<in> set (pointers p)" for x using chain_bound [OF ch] that by auto
  have "\<exists>p' us vs. SimplePlanner_ScheduleAction p t a = Some (p', Some ?n) \<and> pointers p = us @ vs \<and>
      chain (sp_store p') (sp_NextAction p') (us @ ?n # vs) \<and>
      (\<forall>x < ?n. sta_time (sp_store p' ! x) = sta_time (?st ! x) \<and> sta_action (sp_store p' ! x) = sta_action (?st ! x)) \<and>
      sta_time (sp_store p' ! ?n) = t \<and> sta_action (sp_store p' ! ?n) = a \<and>
      (\<forall>u \<in> set us. sta_time (?st ! u) \<le> t) \<and> (vs \<noteq> [] \<longrightarrow> t \<le> sta_time (?st ! hd vs))"
  proof (cases "sp_NextAction p")
    case None
    then have "pointers p = []" using ch by (cases "pointers p") auto
    with None show ?thesis
      by (auto simp: SimplePlanner_ScheduleAction_def Let_def nth_append)
  next
    case (Some c)
    then obtain ys where ps: "pointers p = c # ys" using ch by (cases "pointers p") auto
    show ?thesis
    proof (cases "t < sta_time (?st ! c)")
      case True
      with Some ps ch show ?thesis
        by (intro exI [of _ "\<lparr>sp_store = ?st @ [\<lparr>sta_action = a, sta_time = t, sta_next = Some c\<rparr>], sp_NextAction = Some ?n\<rparr>"]
            exI [of _ "[]"] exI [of _ "c # ys"])
          (auto simp: SimplePlanner_ScheduleAction_def Let_def nth_append intro: chain_append)
    next
      case False
      have "chain ?st (Some c) (c # ys)" using ch ps Some by simp
      from insertAfter_law [OF this, of t] obtain us vs where
        uv: "c # ys = us @ vs" "us \<noteq> []" "insertAfter ?st t c = Some (last us)"
        "\<forall>u \<in> set (tl us). sta_time (?st ! u) < t" "vs \<noteq> [] \<longrightarrow> t \<le> sta_time (?st ! hd vs)" by blast
      define l where "l = last us"
      have us: "us = butlast us @ [l]" using uv(2) by (simp add: l_def)
      have ps': "pointers p = butlast us @ l # vs" using ps uv(1) us by (metis append.assoc append_Cons append_Nil)
      let ?st' = "?st[l := (?st ! l)\<lparr>sta_next := Some ?n\<rparr>] @
        [\<lparr>sta_action = a, sta_time = t, sta_next = sta_next (?st ! l)\<rparr>]"
      have "chain ?st' (sp_NextAction p) (butlast us @ l # ?n # vs)"
        using chain_insert [of ?st "sp_NextAction p" "butlast us" l vs "\<lparr>sta_action = a, sta_time = t, sta_next = None\<rparr>"]
          ch d unfolding ps' by simp
      then have "chain ?st' (sp_NextAction p) (us @ ?n # vs)" by (subst us) simp
      moreover have "\<forall>u \<in> set us. sta_time (?st ! u) \<le> t"
        using uv(1,2,4) False by (cases us) (auto simp: less_imp_le)
      moreover have "\<forall>x < ?n. sta_time (?st' ! x) = sta_time (?st ! x) \<and> sta_action (?st' ! x) = sta_action (?st ! x)"
        by (auto simp: nth_append)
      moreover have "SimplePlanner_ScheduleAction p t a = Some (p\<lparr>sp_store := ?st'\<rparr>, Some ?n)"
        using Some False uv(3) by (simp add: SimplePlanner_ScheduleAction_def Let_def l_def)
      ultimately show ?thesis using uv(1,5) ps
        by (intro exI [of _ "p\<lparr>sp_store := ?st'\<rparr>"] exI [of _ us] exI [of _ vs]) (simp add: nth_append)
    qed
  qed
  then obtain p' us vs where r: "SimplePlanner_ScheduleAction p t a = Some (p', Some ?n)" "pointers p = us @ vs"
    "chain (sp_store p') (sp_NextAction p') (us @ ?n # vs)"
    "\<forall>x < ?n. sta_time (sp_store p' ! x) = sta_time (?st ! x) \<and> sta_action (sp_store p' ! x) = sta_action (?st ! x)"
    "sta_time (sp_store p' ! ?n) = t" "sta_action (sp_store p' ! ?n) = a"
    "\<forall>u \<in> set us. sta_time (?st ! u) \<le> t" "vs \<noteq> [] \<longrightarrow> t \<le> sta_time (?st ! hd vs)" by blast
  have b: "\<forall>x \<in> set us \<union> set vs. x < ?n" using bound r(2) by auto
  have "\<forall>v \<in> set vs. t \<le> sta_time (?st ! v)"
    using so r(2,8) by (cases vs) (auto simp: sorted_append)
  then have "sorted (map (\<lambda>x. sta_time (?st ! x)) us @ t # map (\<lambda>x. sta_time (?st ! x)) vs)"
    using so r(7) unfolding r(2) by (auto simp: sorted_append)
  moreover have "map (\<lambda>x. sta_time (sp_store p' ! x)) (us @ ?n # vs) =
      map (\<lambda>x. sta_time (?st ! x)) us @ t # map (\<lambda>x. sta_time (?st ! x)) vs"
    using r(4,5) b by auto
  ultimately have "sorted (map (\<lambda>x. sta_time (sp_store p' ! x)) (us @ ?n # vs))"
    by (simp only:)
  moreover have "distinct (us @ ?n # vs)" using d r(2) b by auto
  ultimately have P: "pointers p' = us @ ?n # vs" "simple_planner_inv p'"
    using plannerI [OF r(3)] by auto
  have eq: "map (planned_at (sp_store p')) zs = map (planned_at ?st) zs" if "set zs \<subseteq> set us \<union> set vs" for zs
    using that r(4) b by (auto simp: planned_at_def)
  have "simple_plan p' = map (planned_at ?st) us @ (?n, t, a) # map (planned_at ?st) vs"
    using eq [of us] eq [of vs] r(5,6) by (simp add: simple_plan_def P(1)) (simp add: planned_at_def)
  moreover have "simple_plan p = map (planned_at ?st) us @ map (planned_at ?st) vs" by (simp add: simple_plan_def r(2))
  ultimately show ?thesis using r(1) P(2) by blast
qed

lemma simple_Remove:
  assumes p: "simple_planner_inv p"
  shows "\<exists>p'. SimplePlanner_RemoveAction p (Some h) = Some (p', h \<in> fst ` set (simple_plan p)) \<and>
    simple_planner_inv p' \<and> simple_plan p' = filter (\<lambda>e. fst e \<noteq> h) (simple_plan p)"
proof -
  let ?st = "sp_store p"
  have ch: "chain ?st (sp_NextAction p) (pointers p)" and d: "distinct (pointers p)"
    and so: "sorted (map (\<lambda>x. sta_time (?st ! x)) (pointers p))"
    using p by (simp_all add: simple_planner_inv_def)
  have "\<exists>p'. SimplePlanner_RemoveAction p (Some h) = Some (p', h \<in> set (pointers p)) \<and>
      chain (sp_store p') (sp_NextAction p') (filter (\<lambda>x. x \<noteq> h) (pointers p)) \<and>
      planned_at (sp_store p') = planned_at ?st"
  proof (cases "pointers p")
    case Nil
    with ch show ?thesis by (auto simp: SimplePlanner_RemoveAction_def)
  next
    case (Cons c ys)
    then have nx: "sp_NextAction p = Some c" and chc: "chain ?st (Some c) (c # ys)" using ch by auto
    have dc: "distinct (c # ys)" using d Cons by simp
    show ?thesis
    proof (cases "c = h")
      case True
      then have "filter (\<lambda>x. x \<noteq> h) (pointers p) = ys" using dc Cons by (auto simp: filter_id_conv)
      with True nx chc Cons show ?thesis by (auto simp: SimplePlanner_RemoveAction_def)
    next
      case False
      then have ne: "h \<noteq> c" by simp
      note U = unlinkLoop_law [OF chc dc ne]
      show ?thesis
      proof (cases "h \<in> set ys")
        case True
        with U obtain us e vs where u: "c # ys = us @ e # h # vs"
          "unlinkLoop ?st h c = Some (?st[e := (?st ! e)\<lparr>sta_next := sta_next (?st ! h)\<rparr>], True)" by blast
        have ps: "pointers p = us @ e # h # vs" using Cons u(1) by simp
        then have "filter (\<lambda>x. x \<noteq> h) (pointers p) = us @ e # vs" using d by (auto simp: filter_notin)
        moreover have "chain (?st[e := (?st ! e)\<lparr>sta_next := sta_next (?st ! h)\<rparr>]) (sp_NextAction p) (us @ e # vs)"
          using chain_unlink [of ?st "sp_NextAction p" us e h vs] ch d ps by simp
        ultimately show ?thesis using nx False u(2) Cons True
          by (auto simp: SimplePlanner_RemoveAction_def planned_at_def fun_eq_iff)
      next
        case out: False
        then have "filter (\<lambda>x. x \<noteq> h) (pointers p) = pointers p" using Cons False by (auto simp: filter_id_conv)
        with U out nx False Cons ch show ?thesis by (simp add: SimplePlanner_RemoveAction_def)
      qed
    qed
  qed
  then obtain p' where r: "SimplePlanner_RemoveAction p (Some h) = Some (p', h \<in> set (pointers p))"
    "chain (sp_store p') (sp_NextAction p') (filter (\<lambda>x. x \<noteq> h) (pointers p))"
    "planned_at (sp_store p') = planned_at ?st" by blast
  have time: "sta_time (sp_store p' ! x) = sta_time (?st ! x)" for x
    using fun_cong [OF r(3), of x] by (simp add: planned_at_def)
  have "sorted (map (\<lambda>x. sta_time (sp_store p' ! x)) (filter (\<lambda>x. x \<noteq> h) (pointers p)))"
    using so by (simp add: time sorted_filter)
  then have P: "pointers p' = filter (\<lambda>x. x \<noteq> h) (pointers p)" "simple_planner_inv p'"
    using plannerI [OF r(2)] d by auto
  have "simple_plan p' = filter (\<lambda>e. fst e \<noteq> h) (simple_plan p)"
    by (simp add: simple_plan_def P(1) r(3) filter_map comp_def)
  moreover have "fst ` set (simple_plan p) = set (pointers p)" by (simp add: simple_plan_def image_image)
  ultimately show ?thesis using r(1) P(2) by simp
qed

lemma simple_Pop:
  assumes p: "simple_planner_inv p"
  shows "\<exists>p'. SimplePlanner_PopOverdueActions now p =
      Some (p', map act (takeWhile (\<lambda>e. due e \<le> now) (simple_plan p))) \<and>
    simple_planner_inv p' \<and> simple_plan p' = dropWhile (\<lambda>e. due e \<le> now) (simple_plan p)"
proof -
  let ?st = "sp_store p" and ?od = "\<lambda>x. sta_time (sp_store p ! x) \<le> now"
  have ch: "chain ?st (sp_NextAction p) (pointers p)" and d: "distinct (pointers p)"
    and so: "sorted (map (\<lambda>x. sta_time (?st ! x)) (pointers p))"
    using p by (simp_all add: simple_planner_inv_def)
  obtain q where q: "overdueLoop ?st now (sp_NextAction p) [] =
      Some (q, map (\<lambda>x. sta_action (?st ! x)) (takeWhile ?od (pointers p)))" "chain ?st q (dropWhile ?od (pointers p))"
    using overdueLoop_law [OF ch, of now "[]"] by auto
  have P: "pointers (p\<lparr>sp_NextAction := q\<rparr>) = dropWhile ?od (pointers p)" "simple_planner_inv (p\<lparr>sp_NextAction := q\<rparr>)"
    using plannerI [of "p\<lparr>sp_NextAction := q\<rparr>" "dropWhile ?od (pointers p)"] q(2) d so
    by (auto simp: distinct_dropWhile dropWhile_eq_drop drop_map [symmetric])
  have "simple_plan (p\<lparr>sp_NextAction := q\<rparr>) = dropWhile (\<lambda>e. due e \<le> now) (simple_plan p)"
    by (simp add: simple_plan_def P(1) dropWhile_map comp_def)
  with q(1) P(2) show ?thesis
    by (simp add: SimplePlanner_PopOverdueActions_def simple_plan_def takeWhile_map comp_def)
qed

interpretation sp: aware_planner SimplePlanner_methods simple_planner_inv simple_plan
proof
  fix p :: "'a SimplePlanner"
  assume p: "simple_planner_inv p"
  show "sorted (map due (simple_plan p))" "distinct (map fst (simple_plan p))"
    using p by (simp_all add: simple_plan_def simple_planner_inv_def comp_def)
  show "\<exists>p' h xs ys. apScheduleAction SimplePlanner_methods p t a = Some (p', Some h) \<and> simple_planner_inv p' \<and>
      simple_plan p = xs @ ys \<and> simple_plan p' = xs @ (h, t, a) # ys" for t a
    using simple_Schedule [OF p] by (simp add: SimplePlanner_methods_def)
  show "\<exists>p'. apRemoveAction SimplePlanner_methods p (Some h) = Some (p', h \<in> fst ` set (simple_plan p)) \<and>
      simple_planner_inv p' \<and> simple_plan p' = filter (\<lambda>e. fst e \<noteq> h) (simple_plan p)" for h
    using simple_Remove [OF p] by (simp add: SimplePlanner_methods_def)
  show "apRemoveAction SimplePlanner_methods p None = Some (p, False)"
    by (simp add: SimplePlanner_methods_def SimplePlanner_RemoveAction_def)
  show "\<exists>p'. apPopOverdueActions SimplePlanner_methods now p =
      Some (p', map act (takeWhile (\<lambda>e. due e \<le> now) (simple_plan p))) \<and>
      simple_planner_inv p' \<and> simple_plan p' = dropWhile (\<lambda>e. due e \<le> now) (simple_plan p)" for now
    using simple_Pop [OF p] by (simp add: SimplePlanner_methods_def)
  show "apNextActionTime SimplePlanner_methods p = (case simple_plan p of [] \<Rightarrow> MaxTime | e # _ \<Rightarrow> due e)"
    using p by (cases "pointers p")
      (auto simp: SimplePlanner_methods_def SimplePlanner_NextActionTime_def simple_plan_def simple_planner_inv_def)
qed

lemma NewSimplePlanner_inv: "simple_planner_inv NewSimplePlanner" "simple_plan NewSimplePlanner = []"
  by (simp_all add: NewSimplePlanner_def simple_planner_inv_def simple_plan_def pointers_def)

end
