(* ===== verification/Event_Scheduler.thy ===== *)
theory Event_Scheduler
  imports Event_Queue Event_Planner
begin

text \<open>
  The scheduler of \<open>event/scheduler.go\<close> and \<open>event/simplescheduler.go\<close>, over any queue and planner
  that meet their contracts. An action is opaque: what it does when it runs is the parameter
  \<open>run\<close>, a function on the scheduler and the rest of the world, so that an action may schedule
  other actions. The clock is read from the world by the parameter \<open>clk\<close>.
\<close>

section \<open>The interface and its functions\<close>

record ('s, 'h, 'a) Scheduler =
  schNow :: "'s \<Rightarrow> time"
  schEnqueueAction :: "'s \<Rightarrow> 'a \<Rightarrow> 's option"
  schScheduleAction :: "'s \<Rightarrow> time \<Rightarrow> 'a \<Rightarrow> ('s \<times> 'h option) option"
  schRemovePlannedAction :: "'s \<Rightarrow> 'h option \<Rightarrow> ('s \<times> bool) option"
  schRunOne :: "'s \<Rightarrow> ('s \<times> bool) option"
  schRunMany :: "('s \<Rightarrow> int \<Rightarrow> ('s \<times> bool) option) option"
  schRunAll :: "('s \<Rightarrow> 's option) option"

definition ScheduleActionIn ::
  "('s, 'h, 'a) Scheduler \<Rightarrow> 's \<Rightarrow> duration \<Rightarrow> 'a \<Rightarrow> ('s \<times> 'h option) option" where
  "ScheduleActionIn S s d a =
     (if d \<le> 0 then do { s' \<leftarrow> schEnqueueAction S s a; Some (s', None) }
      else schScheduleAction S s (schNow S s + d) a)"

fun runManyLoop :: "('s, 'h, 'a) Scheduler \<Rightarrow> 's \<Rightarrow> nat \<Rightarrow> ('s \<times> bool) option" where
  "runManyLoop S s 0 = Some (s, True)"
| "runManyLoop S s (Suc n) = do {
     (s', ran) \<leftarrow> schRunOne S s;
     if \<not> ran then Some (s', False) else runManyLoop S s' n
   }"

definition RunMany :: "('s, 'h, 'a) Scheduler \<Rightarrow> 's \<Rightarrow> int \<Rightarrow> ('s \<times> bool) option" where
  "RunMany S s n = (case schRunMany S of Some f \<Rightarrow> f s n | None \<Rightarrow> runManyLoop S s (nat n))"

partial_function (option) runAllLoop :: "('s, 'h, 'a) Scheduler \<Rightarrow> 's \<Rightarrow> 's option" where
  "runAllLoop S s = do {
     (s', ran) \<leftarrow> schRunOne S s;
     if ran then runAllLoop S s' else Some s'
   }"

definition RunAll :: "('s, 'h, 'a) Scheduler \<Rightarrow> 's \<Rightarrow> 's option" where
  "RunAll S s = (case schRunAll S of Some f \<Rightarrow> f s | None \<Rightarrow> runAllLoop S s)"

section \<open>The simple scheduler\<close>

definition DefaultChanqueueCapacity :: int where
  "DefaultChanqueueCapacity = 1024"

record ('q, 'p) SimpleScheduler =
  ss_queue :: 'q
  ss_planner :: 'p

definition NewSimpleScheduler :: "('a ChanQueue, 'a SimplePlanner) SimpleScheduler option" where
  "NewSimpleScheduler = do {
     q \<leftarrow> NewChanQueue DefaultChanqueueCapacity;
     Some \<lparr>ss_queue = q, ss_planner = NewSimplePlanner\<rparr>
   }"

definition SimpleScheduler_EnqueueAction ::
  "('q, 'a) EventQueue \<Rightarrow> ('q, 'p) SimpleScheduler \<Rightarrow> 'a \<Rightarrow> ('q, 'p) SimpleScheduler option" where
  "SimpleScheduler_EnqueueAction Q s a = do {
     q \<leftarrow> eqEnqueue Q (ss_queue s) a;
     Some (s\<lparr>ss_queue := q\<rparr>)
   }"

definition SimpleScheduler_ScheduleAction ::
  "('q, 'a) EventQueue \<Rightarrow> ('p, 'h, 'a, 'z) AwareActionPlanner_scheme \<Rightarrow> time \<Rightarrow> ('q, 'p) SimpleScheduler \<Rightarrow>
   time \<Rightarrow> 'a \<Rightarrow> (('q, 'p) SimpleScheduler \<times> 'h option) option" where
  "SimpleScheduler_ScheduleAction Q P now s t a =
     (if now > t then do { s' \<leftarrow> SimpleScheduler_EnqueueAction Q s a; Some (s', None) }
      else do {
        (p, h) \<leftarrow> apScheduleAction P (ss_planner s) t a;
        Some (s\<lparr>ss_planner := p\<rparr>, h)
      })"

definition SimpleScheduler_RemovePlannedAction ::
  "('p, 'h, 'a, 'z) AwareActionPlanner_scheme \<Rightarrow> ('q, 'p) SimpleScheduler \<Rightarrow> 'h option \<Rightarrow>
   (('q, 'p) SimpleScheduler \<times> bool) option" where
  "SimpleScheduler_RemovePlannedAction P s a = do {
     (p, removed) \<leftarrow> apRemoveAction P (ss_planner s) a;
     Some (s\<lparr>ss_planner := p\<rparr>, removed)
   }"

definition moveOverdueActions ::
  "('q, 'a) EventQueue \<Rightarrow> ('p, 'h, 'a, 'z) AwareActionPlanner_scheme \<Rightarrow> time \<Rightarrow> ('q, 'p) SimpleScheduler \<Rightarrow>
   ('q, 'p) SimpleScheduler option" where
  "moveOverdueActions Q P now s = do {
     (p, overdue) \<leftarrow> apPopOverdueActions P now (ss_planner s);
     q \<leftarrow> EnqueueMany Q (ss_queue s) overdue;
     Some \<lparr>ss_queue = q, ss_planner = p\<rparr>
   }"

definition SimpleScheduler_RunOne ::
  "('q, 'a) EventQueue \<Rightarrow> ('p, 'h, 'a, 'z) AwareActionPlanner_scheme \<Rightarrow>
   ('a \<Rightarrow> ('q, 'p) SimpleScheduler \<times> 'w \<Rightarrow> (('q, 'p) SimpleScheduler \<times> 'w) option) \<Rightarrow> ('w \<Rightarrow> time) \<Rightarrow>
   ('q, 'p) SimpleScheduler \<times> 'w \<Rightarrow> ((('q, 'p) SimpleScheduler \<times> 'w) \<times> bool) option" where
  "SimpleScheduler_RunOne Q P run clk sw = do {
     s1 \<leftarrow> moveOverdueActions Q P (clk (snd sw)) (fst sw);
     (q, a) \<leftarrow> eqDequeue Q (ss_queue s1);
     (case a of
        Some x \<Rightarrow> do { sw' \<leftarrow> run x (s1\<lparr>ss_queue := q\<rparr>, snd sw); Some (sw', True) }
      | None \<Rightarrow> Some ((s1\<lparr>ss_queue := q\<rparr>, snd sw), False))
   }"

definition SimpleScheduler_NextActionTime ::
  "('q, 'a) EventQueue \<Rightarrow> ('p, 'h, 'a, 'z) AwareActionPlanner_scheme \<Rightarrow> time \<Rightarrow> ('q, 'p) SimpleScheduler \<Rightarrow>
   (('q, 'p) SimpleScheduler \<times> time) option" where
  "SimpleScheduler_NextActionTime Q P now s = do {
     s1 \<leftarrow> moveOverdueActions Q P now s;
     let nextScheduled = apNextActionTime P (ss_planner s1);
     if \<not> Empty Q (ss_queue s1) then Some (s1, now) else Some (s1, nextScheduled)
   }"

definition SimpleScheduler_methods ::
  "('q, 'a) EventQueue \<Rightarrow> ('p, 'h, 'a, 'z) AwareActionPlanner_scheme \<Rightarrow>
   ('a \<Rightarrow> ('q, 'p) SimpleScheduler \<times> 'w \<Rightarrow> (('q, 'p) SimpleScheduler \<times> 'w) option) \<Rightarrow> ('w \<Rightarrow> time) \<Rightarrow>
   (('q, 'p) SimpleScheduler \<times> 'w, 'h, 'a) Scheduler" where
  "SimpleScheduler_methods Q P run clk =
     \<lparr>schNow = (\<lambda>sw. clk (snd sw)),
      schEnqueueAction = (\<lambda>(s, w) a. map_option (\<lambda>s'. (s', w)) (SimpleScheduler_EnqueueAction Q s a)),
      schScheduleAction = (\<lambda>(s, w) t a.
        map_option (\<lambda>(s', h). ((s', w), h)) (SimpleScheduler_ScheduleAction Q P (clk w) s t a)),
      schRemovePlannedAction = (\<lambda>(s, w) a.
        map_option (\<lambda>(s', r). ((s', w), r)) (SimpleScheduler_RemovePlannedAction P s a)),
      schRunOne = SimpleScheduler_RunOne Q P run clk, schRunMany = None, schRunAll = None\<rparr>"

section \<open>Correctness over the contracts\<close>

locale simple_scheduler = event_queue Q qinv items room + aware_planner P pinv plan
  for Q :: "('q, 'a) EventQueue" and qinv items room
    and P :: "('p, 'h, 'a, 'z) AwareActionPlanner_scheme" and pinv plan
begin

definition sinv :: "('q, 'p) SimpleScheduler \<Rightarrow> bool" where
  "sinv s \<longleftrightarrow> qinv (ss_queue s) \<and> pinv (ss_planner s)"

definition overdue :: "time \<Rightarrow> ('q, 'p) SimpleScheduler \<Rightarrow> 'a list" where
  "overdue now s = map act (filter (\<lambda>e. due e \<le> now) (plan (ss_planner s)))"

definition later :: "time \<Rightarrow> ('q, 'p) SimpleScheduler \<Rightarrow> ('h, 'a) planned list" where
  "later now s = filter (\<lambda>e. \<not> due e \<le> now) (plan (ss_planner s))"

lemma move_law:
  assumes "sinv s"
  shows "length (overdue now s) \<le> room (ss_queue s) \<Longrightarrow> \<exists>s'. moveOverdueActions Q P now s = Some s' \<and> sinv s' \<and>
      items (ss_queue s') = items (ss_queue s) @ overdue now s \<and> plan (ss_planner s') = later now s \<and>
      room (ss_queue s') + length (overdue now s) = room (ss_queue s)"
    and "room (ss_queue s) < length (overdue now s) \<Longrightarrow> moveOverdueActions Q P now s = None"
proof -
  have inv: "qinv (ss_queue s)" "pinv (ss_planner s)" using assms by (auto simp: sinv_def)
  obtain p where p: "apPopOverdueActions P now (ss_planner s) = Some (p, overdue now s)" "pinv p" "plan p = later now s"
    using Pop_law [OF inv(2), of now] overdue_prefix [OF inv(2), of now] by (auto simp: overdue_def later_def)
  show "length (overdue now s) \<le> room (ss_queue s) \<Longrightarrow> \<exists>s'. moveOverdueActions Q P now s = Some s' \<and> sinv s' \<and>
      items (ss_queue s') = items (ss_queue s) @ overdue now s \<and> plan (ss_planner s') = later now s \<and>
      room (ss_queue s') + length (overdue now s) = room (ss_queue s)"
    using EnqueueMany_law(1) [OF inv(1), of "overdue now s"] p by (auto simp: moveOverdueActions_def sinv_def)
  show "room (ss_queue s) < length (overdue now s) \<Longrightarrow> moveOverdueActions Q P now s = None"
    using EnqueueMany_law(2) [OF inv(1), of "overdue now s"] p by (simp add: moveOverdueActions_def)
qed

text \<open>One run: the actions that are ready are those of the queue and then the overdue ones.\<close>

lemma RunOne_law:
  assumes s: "sinv s" and now: "now = clk w" and ready: "length (overdue now s) \<le> room (ss_queue s)"
  shows "items (ss_queue s) @ overdue now s = [] \<Longrightarrow>
      \<exists>s'. SimpleScheduler_RunOne Q P run clk (s, w) = Some ((s', w), False) \<and> sinv s' \<and>
        items (ss_queue s') = [] \<and> plan (ss_planner s') = later now s"
    and "items (ss_queue s) @ overdue now s = a # rest \<Longrightarrow>
      \<exists>s'. SimpleScheduler_RunOne Q P run clk (s, w) = map_option (\<lambda>sw. (sw, True)) (run a (s', w)) \<and> sinv s' \<and>
        items (ss_queue s') = rest \<and> plan (ss_planner s') = later now s"
proof -
  obtain s1 where s1: "moveOverdueActions Q P now s = Some s1" "sinv s1"
    "items (ss_queue s1) = items (ss_queue s) @ overdue now s" "plan (ss_planner s1) = later now s"
    using move_law(1) [OF s ready] by blast
  have q1: "qinv (ss_queue s1)" "pinv (ss_planner s1)" using s1(2) by (auto simp: sinv_def)
  show "\<exists>s'. SimpleScheduler_RunOne Q P run clk (s, w) = Some ((s', w), False) \<and> sinv s' \<and>
      items (ss_queue s') = [] \<and> plan (ss_planner s') = later now s"
    if none: "items (ss_queue s) @ overdue now s = []"
  proof -
    have "items (ss_queue s1) = []" using s1(3) none by simp
    with Dequeue_empty [OF q1(1)] s1 q1 now show ?thesis by (auto simp: SimpleScheduler_RunOne_def sinv_def)
  qed
  show "\<exists>s'. SimpleScheduler_RunOne Q P run clk (s, w) = map_option (\<lambda>sw. (sw, True)) (run a (s', w)) \<and> sinv s' \<and>
      items (ss_queue s') = rest \<and> plan (ss_planner s') = later now s"
    if some: "items (ss_queue s) @ overdue now s = a # rest"
  proof -
    have i1: "items (ss_queue s1) = a # rest" using s1(3) some by simp
    obtain q where q: "eqDequeue Q (ss_queue s1) = Some (q, Some a)" "qinv q" "items q = rest"
      using Dequeue_law [OF q1(1) i1] by blast
    have "SimpleScheduler_RunOne Q P run clk (s, w) = map_option (\<lambda>sw. (sw, True)) (run a (s1\<lparr>ss_queue := q\<rparr>, w))"
      using s1(1) q(1) now by (cases "run a (s1\<lparr>ss_queue := q\<rparr>, w)") (simp_all add: SimpleScheduler_RunOne_def)
    with q q1 s1 show ?thesis by (auto simp: sinv_def)
  qed
qed

lemma RunOne_blocks:
  assumes "sinv s" "room (ss_queue s) < length (overdue (clk w) s)"
  shows "SimpleScheduler_RunOne Q P run clk (s, w) = None"
  using move_law(2) [OF assms] by (simp add: SimpleScheduler_RunOne_def)

text \<open>Actions that leave the scheduler and the clock alone: everything that is ready runs, in
  order, and the run ends.\<close>

lemma runAllLoop_law:
  assumes "sinv s" "length (overdue (clk w) s) \<le> room (ss_queue s)"
    and quiet: "\<And>a s w. run a (s, w) = Some (s, upd a w)" "\<And>a w. clk (upd a w) = clk w"
  shows "\<exists>s'. runAllLoop (SimpleScheduler_methods Q P run clk) (s, w) =
      Some (s', fold upd (items (ss_queue s) @ overdue (clk w) s) w) \<and> sinv s' \<and>
    items (ss_queue s') = [] \<and> plan (ss_planner s') = later (clk w) s"
  using assms(1,2)
proof (induction "items (ss_queue s) @ overdue (clk w) s" arbitrary: s w)
  case Nil
  obtain s' where "SimpleScheduler_RunOne Q P run clk (s, w) = Some ((s', w), False)" "sinv s'"
    "items (ss_queue s') = []" "plan (ss_planner s') = later (clk w) s"
    using RunOne_law(1) [where now = "clk w" and clk = clk and w = w and run = run, OF Nil.prems(1) refl Nil.prems(2)
        Nil.hyps [symmetric]] by blast
  with Nil.hyps [symmetric] show ?case
    by (subst runAllLoop.simps) (simp add: SimpleScheduler_methods_def)
next
  case (Cons a rest)
  obtain s1 where s1: "SimpleScheduler_RunOne Q P run clk (s, w) = map_option (\<lambda>sw. (sw, True)) (run a (s1, w))"
    "sinv s1" "items (ss_queue s1) = rest" "plan (ss_planner s1) = later (clk w) s"
    using RunOne_law(2) [where now = "clk w" and clk = clk and w = w and run = run, OF Cons.prems(1) refl Cons.prems(2)
        Cons.hyps(2) [symmetric]] by blast
  have none: "overdue (clk w) s1 = []" by (simp add: overdue_def s1(4) later_def)
  have later1: "later (clk w) s1 = later (clk w) s" by (simp add: later_def s1(4))
  have step: "runAllLoop (SimpleScheduler_methods Q P run clk) (s, w) =
      runAllLoop (SimpleScheduler_methods Q P run clk) (s1, upd a w)"
    by (subst runAllLoop.simps) (simp add: SimpleScheduler_methods_def s1(1) quiet(1))
  have "\<exists>s'. runAllLoop (SimpleScheduler_methods Q P run clk) (s1, upd a w) =
      Some (s', fold upd (items (ss_queue s1) @ overdue (clk (upd a w)) s1) (upd a w)) \<and> sinv s' \<and>
      items (ss_queue s') = [] \<and> plan (ss_planner s') = later (clk (upd a w)) s1"
    by (rule Cons.hyps(1)) (simp_all add: quiet(2) none s1)
  then show ?case unfolding step Cons.hyps(2) [symmetric] by (simp add: quiet(2) none s1(3) later1)
qed

lemma NextActionTime_law:
  assumes s: "sinv s" and "length (overdue now s) \<le> room (ss_queue s)"
  shows "\<exists>s'. SimpleScheduler_NextActionTime Q P now s = Some (s',
      if items (ss_queue s) @ overdue now s \<noteq> [] then now
      else case later now s of [] \<Rightarrow> MaxTime | e # _ \<Rightarrow> due e) \<and> sinv s'"
proof -
  obtain s1 where s1: "moveOverdueActions Q P now s = Some s1" "sinv s1"
    "items (ss_queue s1) = items (ss_queue s) @ overdue now s" "plan (ss_planner s1) = later now s"
    using move_law(1) [OF assms] by blast
  then show ?thesis
    by (auto simp: SimpleScheduler_NextActionTime_def sinv_def Empty_law Next_law)
qed

end

interpretation css: simple_scheduler ChanQueue_methods chan_inv cq_queue chan_room
  SimplePlanner_methods simple_planner_inv simple_plan
  by (rule simple_scheduler.intro [OF chanq.event_queue_axioms sp.aware_planner_axioms])

section \<open>Properties\<close>

text \<open>The actions that are ready at a time, and the ones planned for later.\<close>

definition ready_actions :: "time \<Rightarrow> ('a ChanQueue, 'a SimplePlanner) SimpleScheduler \<Rightarrow> 'a list" where
  "ready_actions now s = cq_queue (ss_queue s) @ map act (filter (\<lambda>e. due e \<le> now) (simple_plan (ss_planner s)))"

definition later_plan ::
  "time \<Rightarrow> ('a ChanQueue, 'a SimplePlanner) SimpleScheduler \<Rightarrow> (nat, 'a) planned list" where
  "later_plan now s = filter (\<lambda>e. now < due e) (simple_plan (ss_planner s))"

definition scheduler_inv :: "('a ChanQueue, 'a SimplePlanner) SimpleScheduler \<Rightarrow> bool" where
  "scheduler_inv s \<longleftrightarrow> chan_inv (ss_queue s) \<and> simple_planner_inv (ss_planner s)"

lemma css_eq: "css.sinv s = scheduler_inv s" "ready_actions now s = cq_queue (ss_queue s) @ css.overdue now s"
  "later_plan now s = css.later now s"
  by (simp_all add: css.sinv_def scheduler_inv_def ready_actions_def css.overdue_def later_plan_def css.later_def not_le)

lemma css_fits:
  assumes "scheduler_inv s"
  shows "length (css.overdue now s) \<le> chan_room (ss_queue s) \<longleftrightarrow> length (ready_actions now s) \<le> cq_capacity (ss_queue s)"
  using assms by (auto simp: css_eq chan_room_def scheduler_inv_def chan_inv_def)

text \<open>C7: The linked list of the simple planner implements a sequence of planned actions in the
  order of their times: scheduling inserts the action and returns a pointer to it, removal by
  a pointer takes out exactly that action and says whether it was there, and the overdue actions
  that are popped are exactly those whose time has come, in order. The loops over the pointers
  end.\<close>

theorem simple_planner_refines:
  assumes "simple_planner_inv p"
  shows "sorted (map due (simple_plan p)) \<and>
    (\<exists>p' h xs ys. SimplePlanner_ScheduleAction p t a = Some (p', Some h) \<and> simple_planner_inv p' \<and>
      simple_plan p = xs @ ys \<and> simple_plan p' = xs @ (h, t, a) # ys) \<and>
    (\<exists>p'. SimplePlanner_RemoveAction p (Some h) = Some (p', h \<in> fst ` set (simple_plan p)) \<and>
      simple_planner_inv p' \<and> simple_plan p' = filter (\<lambda>e. fst e \<noteq> h) (simple_plan p)) \<and>
    (\<exists>p'. SimplePlanner_PopOverdueActions now p =
        Some (p', map act (filter (\<lambda>e. due e \<le> now) (simple_plan p))) \<and>
      simple_planner_inv p' \<and> simple_plan p' = filter (\<lambda>e. \<not> due e \<le> now) (simple_plan p)) \<and>
    SimplePlanner_NextActionTime p = (case simple_plan p of [] \<Rightarrow> MaxTime | e # _ \<Rightarrow> due e)"
  using sp.plan_sorted [OF assms] simple_Schedule [OF assms] simple_Remove [OF assms] simple_Pop [OF assms, of now]
    sp.Next_law [OF assms] unfolding sp.overdue_prefix [OF assms]
  by (simp add: SimplePlanner_methods_def)

definition planner8 :: "nat SimplePlanner" where
  "planner8 = \<lparr>sp_store = [\<lparr>sta_action = 10, sta_time = 5, sta_next = Some 2\<rparr>,
     \<lparr>sta_action = 11, sta_time = 9, sta_next = None\<rparr>, \<lparr>sta_action = 12, sta_time = 7, sta_next = Some 1\<rparr>],
     sp_NextAction = Some 0\<rparr>"

lemma planner8_inv: "simple_planner_inv planner8" "simple_plan planner8 = [(0, 5, 10), (2, 7, 12), (1, 9, 11)]"
  by (simp_all add: simple_planner_inv_def simple_plan_def pointers_def planner8_def planned_at_def eval_nat_numeral)

theorem simple_planner_refines_witness:
  "sorted (map due (simple_plan planner8)) \<and>
    (\<exists>p' h xs ys. SimplePlanner_ScheduleAction planner8 7 13 = Some (p', Some h) \<and> simple_planner_inv p' \<and>
      simple_plan planner8 = xs @ ys \<and> simple_plan p' = xs @ (h, 7, 13) # ys) \<and>
    (\<exists>p'. SimplePlanner_RemoveAction planner8 (Some 2) = Some (p', 2 \<in> fst ` set (simple_plan planner8)) \<and>
      simple_planner_inv p' \<and> simple_plan p' = filter (\<lambda>e. fst e \<noteq> 2) (simple_plan planner8)) \<and>
    (\<exists>p'. SimplePlanner_PopOverdueActions 7 planner8 =
        Some (p', map act (filter (\<lambda>e. due e \<le> 7) (simple_plan planner8))) \<and>
      simple_planner_inv p' \<and> simple_plan p' = filter (\<lambda>e. \<not> due e \<le> 7) (simple_plan planner8)) \<and>
    SimplePlanner_NextActionTime planner8 = (case simple_plan planner8 of [] \<Rightarrow> MaxTime | e # _ \<Rightarrow> due e)"
  by (rule simple_planner_refines [OF planner8_inv(1)])

lemma SimplePlanner_single [simp]: "apScheduleActions SimplePlanner_methods = None"
  "apRemoveActions SimplePlanner_methods = None"
  by (simp_all add: SimplePlanner_methods_def)

text \<open>\<open>ScheduleActions\<close> on the simple planner plans every action at its time but returns only nil
  handles, so that \<open>RemoveActions\<close> on what it returned removes nothing.\<close>

theorem schedule_actions_returns_nil:
  assumes "simple_planner_inv p" and "length ts = length acts"
  shows "\<exists>p'. ScheduleActions SimplePlanner_methods p ts acts = Some (p', replicate (length ts) None) \<and>
    simple_planner_inv p' \<and> mset (map snd (simple_plan p')) = mset (map snd (simple_plan p)) + mset (zip ts acts) \<and>
    RemoveActions SimplePlanner_methods p' (replicate (length ts) None) = Some p'"
proof -
  obtain p' where p': "scheduleLoop SimplePlanner_methods p (zip ts acts) = Some p'" "simple_planner_inv p'"
    "mset (map snd (simple_plan p')) = mset (map snd (simple_plan p)) + mset (zip ts acts)"
    using sp.scheduleLoop_law [OF assms(1)] by blast
  then show ?thesis using assms(2) sp.removeLoop_nil [OF p'(2)]
    by (simp add: ScheduleActions_def RemoveActions_def)
qed

theorem schedule_actions_returns_nil_witness:
  "\<exists>p'. ScheduleActions SimplePlanner_methods planner8 [6, 8] [20, 21] = Some (p', [None, None]) \<and>
    mset (map snd (simple_plan p')) = {#(5, 10), (7, 12), (9, 11), (6, 20), (8, 21)#} \<and>
    RemoveActions SimplePlanner_methods p' [None, None] = Some p'"
  using schedule_actions_returns_nil [OF planner8_inv(1), of "[6, 8]" "[20, 21]"]
  by (auto simp: planner8_inv(2) eval_nat_numeral)

text \<open>C28: \<open>RunOne\<close> of the simple scheduler: with more overdue actions than the channel has room for it
  never returns; otherwise it runs the first of the queued and then the overdue actions, if there
  is one, and says so. No action runs before its time.\<close>

theorem scheduler_run_one:
  assumes "scheduler_inv s"
  shows "if cq_capacity (ss_queue s) < length (ready_actions (clk w) s)
    then SimpleScheduler_RunOne ChanQueue_methods SimplePlanner_methods run clk (s, w) = None
    else \<exists>s'. scheduler_inv s' \<and> simple_plan (ss_planner s') = later_plan (clk w) s \<and>
      cq_queue (ss_queue s') = tl (ready_actions (clk w) s) \<and>
      SimpleScheduler_RunOne ChanQueue_methods SimplePlanner_methods run clk (s, w) =
        (case ready_actions (clk w) s of
           [] \<Rightarrow> Some ((s', w), False)
         | a # _ \<Rightarrow> map_option (\<lambda>sw. (sw, True)) (run a (s', w)))"
proof (cases "cq_capacity (ss_queue s) < length (ready_actions (clk w) s)")
  case True
  then have "chan_room (ss_queue s) < length (css.overdue (clk w) s)"
    using css_fits [OF assms, of "clk w"] by (simp add: not_le)
  with True css.RunOne_blocks [of s clk w run] assms show ?thesis by (simp add: css_eq(1))
next
  case False
  then have fits: "length (css.overdue (clk w) s) \<le> chan_room (ss_queue s)"
    using css_fits [OF assms, of "clk w"] by simp
  note L = css.RunOne_law [where run = run and clk = clk and w = w, unfolded css_eq, OF assms refl fits,
      folded css_eq]
  show ?thesis
  proof (cases "ready_actions (clk w) s")
    case Nil
    with L(1) False show ?thesis by (auto simp: css_eq(1))
  next
    case (Cons a rest)
    with L(2) [OF Cons] False show ?thesis by (auto simp: css_eq(1))
  qed
qed

definition sched8 :: "(nat ChanQueue, nat SimplePlanner) SimpleScheduler" where
  "sched8 = \<lparr>ss_queue = \<lparr>cq_capacity = 1024, cq_queue = [1], cq_closed = False\<rparr>, ss_planner = planner8\<rparr>"

definition run8 :: "nat \<Rightarrow> 's \<times> (time \<times> nat list) \<Rightarrow> ('s \<times> (time \<times> nat list)) option" where
  "run8 a sw = Some (fst sw, fst (snd sw), snd (snd sw) @ [a])"

lemma sched8_inv: "scheduler_inv sched8"
  by (simp add: scheduler_inv_def sched8_def chan_inv_def planner8_inv)

lemma sched8_ready: "ready_actions 7 sched8 = [1, 10, 12]" "later_plan 7 sched8 = [(1, 9, 11)]"
  "cq_capacity (ss_queue sched8) = 1024"
  by (simp_all add: ready_actions_def later_plan_def sched8_def planner8_inv)

theorem scheduler_run_one_witness:
  "\<exists>s'. SimpleScheduler_RunOne ChanQueue_methods SimplePlanner_methods run8 fst (sched8, (7, [])) =
      Some ((s', (7, [1])), True) \<and> cq_queue (ss_queue s') = [10, 12] \<and> simple_plan (ss_planner s') = [(1, 9, 11)]"
  using scheduler_run_one [OF sched8_inv, of fst "(7, [])" run8]
  by (auto simp: sched8_ready run8_def)

text \<open>C29: \<open>RunAll\<close> with actions that leave the scheduler and the clock alone: if the ready actions (the
  queued and the overdue ones) fit into the channel of the queue, it ends, has run exactly the queued and
  then the overdue actions, in order, and leaves the actions whose time has not come. With more ready
  actions than the channel holds it blocks for ever.\<close>

theorem scheduler_run_all:
  assumes "scheduler_inv s"
    and "\<And>a s w. run a (s, w) = Some (s, upd a w)" and "\<And>a w. clk (upd a w) = clk w"
  shows "if length (ready_actions (clk w) s) \<le> cq_capacity (ss_queue s)
    then \<exists>s'. RunAll (SimpleScheduler_methods ChanQueue_methods SimplePlanner_methods run clk) (s, w) =
        Some (s', fold upd (ready_actions (clk w) s) w) \<and> scheduler_inv s' \<and>
      cq_queue (ss_queue s') = [] \<and> simple_plan (ss_planner s') = later_plan (clk w) s
    else RunAll (SimpleScheduler_methods ChanQueue_methods SimplePlanner_methods run clk) (s, w) = None"
proof -
  have all: "RunAll (SimpleScheduler_methods ChanQueue_methods SimplePlanner_methods run clk) (s, w) =
      runAllLoop (SimpleScheduler_methods ChanQueue_methods SimplePlanner_methods run clk) (s, w)"
    by (simp add: RunAll_def SimpleScheduler_methods_def)
  show ?thesis
  proof (cases "length (ready_actions (clk w) s) \<le> cq_capacity (ss_queue s)")
    case True
    then have fits: "length (css.overdue (clk w) s) \<le> chan_room (ss_queue s)"
      using css_fits [OF assms(1)] by simp
    with True all css.runAllLoop_law [of s clk w run upd] assms show ?thesis
      unfolding css_eq by simp
  next
    case False
    then have "chan_room (ss_queue s) < length (css.overdue (clk w) s)"
      using css_fits [OF assms(1), of "clk w"] by (simp add: not_le)
    then have "SimpleScheduler_RunOne ChanQueue_methods SimplePlanner_methods run clk (s, w) = None"
      using css.RunOne_blocks [of s clk w run] assms(1) by (simp add: css_eq(1))
    then have "runAllLoop (SimpleScheduler_methods ChanQueue_methods SimplePlanner_methods run clk) (s, w) = None"
      by (subst runAllLoop.simps) (simp add: SimpleScheduler_methods_def)
    with False all show ?thesis by simp
  qed
qed

theorem scheduler_run_all_witness:
  "\<exists>s'. RunAll (SimpleScheduler_methods ChanQueue_methods SimplePlanner_methods run8 fst) (sched8, (7, [])) =
      Some (s', (7, [1, 10, 12])) \<and> cq_queue (ss_queue s') = [] \<and> simple_plan (ss_planner s') = [(1, 9, 11)]"
  using scheduler_run_all [OF sched8_inv, of run8 "\<lambda>a w. (fst w, snd w @ [a])" fst "(7, [])"]
  by (auto simp: sched8_ready run8_def)

text \<open>\<open>EnqueueMany\<close> followed by \<open>DequeueAll\<close> on a channel queue gives back all actions in the order
  they went in, if the channel has room for them; otherwise \<open>EnqueueMany\<close> never returns.\<close>

theorem chan_queue_roundtrip:
  assumes "chan_inv q"
  shows "if length (cq_queue q) + length acts \<le> cq_capacity q
    then \<exists>q1 q2. EnqueueMany ChanQueue_methods q acts = Some q1 \<and>
      DequeueAll ChanQueue_methods q1 = Some (q2, cq_queue q @ acts) \<and> Empty ChanQueue_methods q2
    else EnqueueMany ChanQueue_methods q acts = None"
proof (cases "length (cq_queue q) + length acts \<le> cq_capacity q")
  case True
  then have "length acts \<le> chan_room q" by (simp add: chan_room_def)
  with chanq.EnqueueMany_law(1) [OF assms] obtain q1 where
    q1: "EnqueueMany ChanQueue_methods q acts = Some q1" "chan_inv q1" "cq_queue q1 = cq_queue q @ acts" by blast
  from chanq.DequeueAll_law [OF q1(2)] obtain q2 where
    "DequeueAll ChanQueue_methods q1 = Some (q2, cq_queue q1)" "chan_inv q2" "cq_queue q2 = []" by blast
  with q1 True chanq.Empty_law [of q2] show ?thesis by auto
next
  case False
  then have "chan_room q < length acts" using assms by (auto simp: chan_room_def chan_inv_def)
  with False chanq.EnqueueMany_law(2) [OF assms] show ?thesis by simp
qed

theorem chan_queue_roundtrip_witness:
  "\<exists>q1 q2. EnqueueMany ChanQueue_methods \<lparr>cq_capacity = 3, cq_queue = [1 :: nat], cq_closed = False\<rparr> [2, 3] = Some q1 \<and>
    DequeueAll ChanQueue_methods q1 = Some (q2, [1, 2, 3]) \<and> Empty ChanQueue_methods q2"
  using chan_queue_roundtrip [of "\<lparr>cq_capacity = 3, cq_queue = [1 :: nat], cq_closed = False\<rparr>" "[2, 3]"]
  by (simp add: chan_inv_def)

end
