(* ===== verification/Peer_List.thy ===== *)
theory Peer_List
  imports SimpleRT
begin

text \<open>
  The peer list of \<open>query/simplequery/peerlist.go\<close>: a singly linked list of peers in the order of
  their distance to the target, with a pointer to the closest queued peer and a count of the queued
  ones.

  \<^item> The objects of type \<open>nodeInfo\<close> live in a store; a pointer is an index into it or \<open>None\<close> for
    nil. Objects are never freed.
  \<^item> \<open>net\<close> is what the endpoint's \<open>NetworkAddress\<close> returns at the moment of the call (a node info
    or nil, and an error or nil), \<open>aeq\<close> the method \<open>Equal\<close> of the addresses. The field
    \<open>pl_endpoint\<close> tells whether the endpoint is a \<open>NetworkedEndpoint\<close>, that is, whether the field of
    the code is not nil.
  \<^item> \<open>srt\<close> is \<open>sort.Slice\<close>, which does not fix the order of equal elements. Its contract is the
    locale \<open>slice_sort\<close>.
\<close>

section \<open>The data\<close>

datatype NodeStatus = queued | waiting | queried | unreachable

record ('k, 'a) nodeInfo =
  ni_distance :: 'k
  ni_status :: NodeStatus
  ni_id :: "'k NodeID"
  ni_addrs :: "'a list"
  ni_tryAgainOnFailure :: bool
  ni_next :: "nat option"

record ('k, 'a) PeerList =
  pl_store :: "('k, 'a) nodeInfo list"
  pl_target :: 'k
  pl_endpoint :: bool
  pl_closest :: "nat option"
  pl_closestQueued :: "nat option"
  pl_queuedCount :: int

type_synonym ('k, 'a) network = "'k NodeID \<Rightarrow> ('k, 'a) NodeInfo option \<times> string option"

type_synonym sliceSort = "(nat \<Rightarrow> nat \<Rightarrow> bool option) \<Rightarrow> nat list \<Rightarrow> nat list option"

definition newPeerList :: "'k \<Rightarrow> bool \<Rightarrow> ('k, 'a) PeerList" where
  "newPeerList target networked =
     \<lparr>pl_store = [], pl_target = target, pl_endpoint = networked, pl_closest = None,
      pl_closestQueued = None, pl_queuedCount = 0\<rparr>"

section \<open>The operations\<close>

definition setNext :: "('k, 'a) nodeInfo list \<Rightarrow> nat \<Rightarrow> nat option \<Rightarrow> ('k, 'a) nodeInfo list" where
  "setNext st r p = st[r := (st ! r)\<lparr>ni_next := p\<rparr>]"

definition setStatus :: "('k, 'a) PeerList \<Rightarrow> nat \<Rightarrow> NodeStatus \<Rightarrow> ('k, 'a) PeerList" where
  "setStatus pl r s = pl\<lparr>pl_store := (pl_store pl)[r := (pl_store pl ! r)\<lparr>ni_status := s\<rparr>]\<rparr>"

definition addrInfoToPeerInfo :: "'k Key \<Rightarrow> 'k \<Rightarrow> 'k NodeID option \<Rightarrow> ('k, 'a) nodeInfo option" where
  "addrInfoToPeerInfo K target nid =
     (case nid of
        None \<Rightarrow> None
      | Some i \<Rightarrow>
          if nodeString i = '''' \<or> BitLen K target \<noteq> BitLen K (nodeKey i) then None
          else Some \<lparr>ni_distance = Xor K target (nodeKey i), ni_status = queued, ni_id = i, ni_addrs = [],
                     ni_tryAgainOnFailure = False, ni_next = None\<rparr>)"

definition closerInfo :: "'k Key \<Rightarrow> ('k, 'a) nodeInfo list \<Rightarrow> nat \<Rightarrow> nat \<Rightarrow> bool option" where
  "closerInfo K st i j = do { c \<leftarrow> Compare K (ni_distance (st ! i)) (ni_distance (st ! j)); Some (c < 0) }"

fun linkLoop ::
  "'k Key \<Rightarrow> ('k, 'a) nodeInfo list \<Rightarrow> nat \<Rightarrow> nat list \<Rightarrow> ('k, 'a) nodeInfo list option" where
  "linkLoop K st cur [] = Some st"
| "linkLoop K st cur (x # xs) = do {
     eq \<leftarrow> Equal K (ni_distance (st ! cur)) (ni_distance (st ! x));
     if \<not> eq then linkLoop K (setNext st cur (Some x)) x xs
     else linkLoop K st cur xs
   }"

text \<open>The new objects are allocated at the end of the store; the head of the linked list is returned.\<close>

definition sliceToPeerInfos ::
  "'k Key \<Rightarrow> sliceSort \<Rightarrow> ('k, 'a) nodeInfo list \<Rightarrow> 'k \<Rightarrow> 'k NodeID option list \<Rightarrow>
   (('k, 'a) nodeInfo list \<times> nat option) option" where
  "sliceToPeerInfos K srt st target ids =
     (let newPeers = List.map_filter (addrInfoToPeerInfo K target) ids;
          st1 = st @ newPeers in
      if newPeers = [] then Some (st1, None)
      else do {
        refs \<leftarrow> srt (closerInfo K st1) [length st..<length st1];
        case refs of
          [] \<Rightarrow> None
        | x # xs \<Rightarrow> do { st2 \<leftarrow> linkLoop K st1 x xs; Some (st2, Some x) }
      })"

definition enqueueUnreachablePeer ::
  "'k Key \<Rightarrow> ('k, 'a) PeerList \<Rightarrow> nat option \<Rightarrow> ('k, 'a) PeerList option" where
  "enqueueUnreachablePeer K pl p =
     (case p of
        None \<Rightarrow> Some pl
      | Some r \<Rightarrow>
          let n = pl_store pl ! r in
          if ni_status n \<noteq> queued then do {
            let pl1 = pl\<lparr>pl_store := (pl_store pl)[r := n\<lparr>ni_tryAgainOnFailure := False, ni_status := queued\<rparr>],
                         pl_queuedCount := pl_queuedCount pl + 1\<rparr>;
            q \<leftarrow> pl_closestQueued pl1;
            c \<leftarrow> Compare K (ni_distance (pl_store pl1 ! r)) (ni_distance (pl_store pl1 ! q));
            if c < 0 then Some (pl1\<lparr>pl_closestQueued := Some r\<rparr>) else Some pl1
          } else Some pl)"

text \<open>The loop over the addresses of a peer that is discovered again.\<close>

fun addressLoop ::
  "'k Key \<Rightarrow> ('a \<Rightarrow> 'a \<Rightarrow> bool) \<Rightarrow> ('k, 'a) PeerList \<Rightarrow> nat \<Rightarrow> 'a list \<Rightarrow> ('k, 'a) PeerList option" where
  "addressLoop K aeq pl r [] = Some pl"
| "addressLoop K aeq pl r (a # as) =
     (let n = pl_store pl ! r; found = list_ex (aeq a) (ni_addrs n) in
      if found then addressLoop K aeq pl r as
      else if ni_status n = unreachable then do {
        pl1 \<leftarrow> enqueueUnreachablePeer K pl (Some r);
        addressLoop K aeq pl1 r as
      }
      else if ni_status n = waiting then
        addressLoop K aeq (pl\<lparr>pl_store := (pl_store pl)[r := n\<lparr>ni_tryAgainOnFailure := True\<rparr>]\<rparr>) r as
      else addressLoop K aeq pl r as)"

definition rediscover ::
  "'k Key \<Rightarrow> ('a \<Rightarrow> 'a \<Rightarrow> bool) \<Rightarrow> ('k, 'a) network \<Rightarrow> ('k, 'a) PeerList \<Rightarrow> nat \<Rightarrow> ('k, 'a) PeerList option" where
  "rediscover K aeq net pl r =
     (let n = pl_store pl ! r in
      if pl_endpoint pl \<and> (ni_status n = unreachable \<or> ni_status n = waiting) then
        (case net (ni_id n) of
           (na, Some err) \<Rightarrow> Some pl
         | (na, None) \<Rightarrow> do { i \<leftarrow> na; addressLoop K aeq pl r (infoAddresses i) })
      else Some pl)"

text \<open>
  The variables of the merge loop: the list under construction, the last element of the merged part,
  the flags \<open>currOld\<close> and \<open>closestQueuedReached\<close>, and the heads of what is left of both lists.
\<close>

record ('k, 'a) Merge =
  m_pl :: "('k, 'a) PeerList"
  m_prev :: "nat option"
  m_currOld :: bool
  m_reached :: bool
  m_oldHead :: "nat option"
  m_newHead :: "nat option"

definition linkPrev :: "('k, 'a) PeerList \<Rightarrow> nat option \<Rightarrow> nat option \<Rightarrow> ('k, 'a) PeerList" where
  "linkPrev pl prev p =
     (case prev of Some r \<Rightarrow> pl\<lparr>pl_store := setNext (pl_store pl) r p\<rparr> | None \<Rightarrow> pl)"

definition mergeNew :: "('k, 'a) Merge \<Rightarrow> nat \<Rightarrow> ('k, 'a) Merge" where
  "mergeNew m n =
     (let pl1 = (if \<not> m_reached m then (m_pl m)\<lparr>pl_closestQueued := Some n\<rparr> else m_pl m);
          relink = m_currOld m \<and> m_prev m \<noteq> None;
          pl2 = (if relink then linkPrev pl1 (m_prev m) (Some n) else pl1) in
      m\<lparr>m_pl := pl2\<lparr>pl_queuedCount := pl_queuedCount pl2 + 1\<rparr>, m_reached := True,
        m_currOld := (m_currOld m \<and> \<not> relink), m_prev := Some n,
        m_newHead := ni_next (pl_store pl2 ! n)\<rparr>)"

definition mergeOld ::
  "'k Key \<Rightarrow> ('a \<Rightarrow> 'a \<Rightarrow> bool) \<Rightarrow> ('k, 'a) network \<Rightarrow> ('k, 'a) Merge \<Rightarrow> nat \<Rightarrow> nat \<Rightarrow> int \<Rightarrow>
   ('k, 'a) Merge option" where
  "mergeOld K aeq net m old n r = do {
     let reached = (m_reached m \<or> Some old = pl_closestQueued (m_pl m));
     let relink = (\<not> m_currOld m \<and> m_prev m \<noteq> None);
     let pl1 = (if relink then linkPrev (m_pl m) (m_prev m) (Some old) else m_pl m);
     let newHead = (if r = 0 then ni_next (pl_store pl1 ! n) else Some n);
     pl2 \<leftarrow> (if r = 0 then rediscover K aeq net pl1 old else Some pl1);
     Some (m\<lparr>m_pl := pl2, m_reached := reached, m_currOld := (m_currOld m \<or> relink), m_prev := Some old,
             m_oldHead := ni_next (pl_store pl2 ! old), m_newHead := newHead\<rparr>)
   }"

partial_function (option) mergeLoop ::
  "'k Key \<Rightarrow> ('a \<Rightarrow> 'a \<Rightarrow> bool) \<Rightarrow> ('k, 'a) network \<Rightarrow> ('k, 'a) Merge \<Rightarrow> int \<Rightarrow> ('k, 'a) Merge option" where
  "mergeLoop K aeq net m r = do {
     old \<leftarrow> m_oldHead m;
     n \<leftarrow> m_newHead m;
     m1 \<leftarrow> (if r > 0 then Some (mergeNew m n) else mergeOld K aeq net m old n r);
     (case (m_oldHead m1, m_newHead m1) of
        (Some old1, Some n1) \<Rightarrow> do {
          r1 \<leftarrow> Compare K (ni_distance (pl_store (m_pl m1) ! old1)) (ni_distance (pl_store (m_pl m1) ! n1));
          mergeLoop K aeq net m1 r1
        }
      | _ \<Rightarrow> Some m1)
   }"

partial_function (option) countLoop :: "('k, 'a) nodeInfo list \<Rightarrow> nat option \<Rightarrow> int \<Rightarrow> int option" where
  "countLoop st cur c =
     (case cur of None \<Rightarrow> Some c | Some r \<Rightarrow> countLoop st (ni_next (st ! r)) (c + 1))"

definition mergeRest :: "('k, 'a) Merge \<Rightarrow> ('k, 'a) PeerList option" where
  "mergeRest m =
     (let pl = m_pl m in
      case m_oldHead m of
        None \<Rightarrow> do {
          let pl1 = (if \<not> m_reached m then pl\<lparr>pl_closestQueued := m_newHead m\<rparr> else pl);
          prev \<leftarrow> m_prev m;
          let pl2 = linkPrev pl1 (Some prev) (m_newHead m);
          c \<leftarrow> countLoop (pl_store pl2) (m_newHead m) (pl_queuedCount pl2);
          Some (pl2\<lparr>pl_queuedCount := c\<rparr>)
        }
      | Some old \<Rightarrow> do {
          prev \<leftarrow> m_prev m;
          Some (linkPrev pl (Some prev) (Some old))
        })"

definition addToPeerlist ::
  "'k Key \<Rightarrow> ('a \<Rightarrow> 'a \<Rightarrow> bool) \<Rightarrow> sliceSort \<Rightarrow> ('k, 'a) network \<Rightarrow> ('k, 'a) PeerList \<Rightarrow>
   'k NodeID option list \<Rightarrow> ('k, 'a) PeerList option" where
  "addToPeerlist K aeq srt net pl0 ids = do {
     (st, head) \<leftarrow> sliceToPeerInfos K srt (pl_store pl0) (pl_target pl0) ids;
     let pl = pl0\<lparr>pl_store := st\<rparr>;
     (case head of
        None \<Rightarrow> Some pl
      | Some n \<Rightarrow>
          (case pl_closest pl of
             None \<Rightarrow> do {
               c \<leftarrow> countLoop st (Some n) (pl_queuedCount pl);
               Some (pl\<lparr>pl_closest := Some n, pl_closestQueued := Some n, pl_queuedCount := c\<rparr>)
             }
           | Some old \<Rightarrow> do {
               r \<leftarrow> Compare K (ni_distance (st ! old)) (ni_distance (st ! n));
               let pl1 = (if r > 0 then pl\<lparr>pl_closest := Some n, pl_closestQueued := Some n\<rparr> else pl);
               m \<leftarrow> mergeLoop K aeq net
                 \<lparr>m_pl = pl1, m_prev = None, m_currOld = (\<not> r > 0), m_reached = False,
                  m_oldHead = Some old, m_newHead = Some n\<rparr> r;
               mergeRest m
             }))
   }"

partial_function (option) findNextQueued :: "('k, 'a) nodeInfo list \<Rightarrow> nat option \<Rightarrow> nat option option" where
  "findNextQueued st cur =
     (case cur of
        None \<Rightarrow> Some None
      | Some r \<Rightarrow> if ni_status (st ! r) \<noteq> queued then findNextQueued st (ni_next (st ! r)) else Some (Some r))"

text \<open>The loop over the queued peers without an address. The result tells whether a peer was found;
  \<open>None\<close> is the early return of nil, which leaves \<open>closestQueued\<close> as it is.\<close>

partial_function (option) skipLoop ::
  "('k, 'a) network \<Rightarrow> ('k, 'a) PeerList \<Rightarrow> nat \<Rightarrow> (('k, 'a) PeerList \<times> (nat \<times> ('k, 'a) NodeInfo) option) option" where
  "skipLoop net pl r =
     (case fst (net (ni_id (pl_store pl ! r))) of
        Some na \<Rightarrow> Some (pl, Some (r, na))
      | None \<Rightarrow> do {
          let pl1 = (setStatus pl r unreachable)\<lparr>pl_queuedCount := pl_queuedCount pl - 1\<rparr>;
          nx \<leftarrow> findNextQueued (pl_store pl1) (Some r);
          (case nx of
             None \<Rightarrow> Some (pl1, None)
           | Some r1 \<Rightarrow> skipLoop net pl1 r1)
        })"

definition popPeer :: "('k, 'a) PeerList \<Rightarrow> nat \<Rightarrow> (('k, 'a) PeerList \<times> 'k NodeID option) option" where
  "popPeer pl r = do {
     let pl1 = (setStatus pl r waiting)\<lparr>pl_queuedCount := pl_queuedCount pl - 1\<rparr>;
     q \<leftarrow> findNextQueued (pl_store pl1) (Some r);
     Some (pl1\<lparr>pl_closestQueued := q\<rparr>, Some (ni_id (pl_store pl ! r)))
   }"

definition popClosestQueued ::
  "('k, 'a) network \<Rightarrow> ('k, 'a) PeerList \<Rightarrow> (('k, 'a) PeerList \<times> 'k NodeID option) option" where
  "popClosestQueued net pl =
     (case pl_closestQueued pl of
        None \<Rightarrow> Some (pl, None)
      | Some r \<Rightarrow>
          if pl_endpoint pl then do {
            (pl1, found) \<leftarrow> skipLoop net pl r;
            (case found of
               None \<Rightarrow> Some (pl1, None)
             | Some (r1, na) \<Rightarrow>
                 popPeer (pl1\<lparr>pl_store := (pl_store pl1)[r1 := (pl_store pl1 ! r1)\<lparr>ni_addrs := infoAddresses na\<rparr>]\<rparr>) r1)
          } else popPeer pl r)"

partial_function (option) findByString ::
  "('k, 'a) nodeInfo list \<Rightarrow> string \<Rightarrow> nat option \<Rightarrow> nat option option" where
  "findByString st s cur =
     (case cur of
        None \<Rightarrow> Some None
      | Some r \<Rightarrow> if nodeString (ni_id (st ! r)) \<noteq> s then findByString st s (ni_next (st ! r)) else Some (Some r))"

definition queriedPeer :: "('k, 'a) PeerList \<Rightarrow> 'k NodeID \<Rightarrow> ('k, 'a) PeerList option" where
  "queriedPeer pl nid = do {
     cur \<leftarrow> findByString (pl_store pl) (nodeString nid) (pl_closest pl);
     (case cur of
        None \<Rightarrow> Some pl
      | Some r \<Rightarrow> if ni_status (pl_store pl ! r) = waiting then Some (setStatus pl r queried) else Some pl)
   }"

definition unreachablePeer :: "'k Key \<Rightarrow> ('k, 'a) PeerList \<Rightarrow> 'k NodeID \<Rightarrow> ('k, 'a) PeerList option" where
  "unreachablePeer K pl nid = do {
     cur \<leftarrow> findByString (pl_store pl) (nodeString nid) (pl_closest pl);
     (case cur of
        None \<Rightarrow> Some pl
      | Some r \<Rightarrow>
          if ni_status (pl_store pl ! r) = waiting then
            if ni_tryAgainOnFailure (pl_store pl ! r) then enqueueUnreachablePeer K pl (Some r)
            else Some (setStatus pl r unreachable)
          else Some pl)
   }"

section \<open>The list a peer list stands for\<close>

fun linked :: "('k, 'a) nodeInfo list \<Rightarrow> nat option \<Rightarrow> nat list \<Rightarrow> bool" where
  "linked st p [] \<longleftrightarrow> p = None"
| "linked st p (x # xs) \<longleftrightarrow> p = Some x \<and> x < length st \<and> linked st (ni_next (st ! x)) xs"

fun follow_next :: "nat \<Rightarrow> ('k, 'a) nodeInfo list \<Rightarrow> nat option \<Rightarrow> nat list" where
  "follow_next 0 st p = []"
| "follow_next (Suc n) st p = (case p of None \<Rightarrow> [] | Some x \<Rightarrow> x # follow_next n st (ni_next (st ! x)))"

text \<open>A peer without its pointer, the pointers of a list in order, and its peers.\<close>

definition body :: "('k, 'a) nodeInfo \<Rightarrow> ('k, 'a) nodeInfo" where
  "body n = n\<lparr>ni_next := None\<rparr>"

definition peer_refs :: "('k, 'a) PeerList \<Rightarrow> nat list" where
  "peer_refs pl = follow_next (length (pl_store pl)) (pl_store pl) (pl_closest pl)"

definition peers :: "('k, 'a) PeerList \<Rightarrow> ('k, 'a) nodeInfo list" where
  "peers pl = map (\<lambda>r. body (pl_store pl ! r)) (peer_refs pl)"

definition peer_key :: "('k, 'a) nodeInfo \<Rightarrow> 'k" where
  "peer_key n = nodeKey (ni_id n)"

abbreviation is_queued :: "('k, 'a) nodeInfo \<Rightarrow> bool" where
  "is_queued n \<equiv> ni_status n = queued"

definition ndist :: "('k \<Rightarrow> bool list) \<Rightarrow> ('k, 'a) nodeInfo \<Rightarrow> nat" where
  "ndist bits n = bval (bits (ni_distance n))"

definition node_ok :: "'k Key \<Rightarrow> ('k \<Rightarrow> bool) \<Rightarrow> 'k \<Rightarrow> ('k, 'a) nodeInfo \<Rightarrow> bool" where
  "node_ok K valid target n \<longleftrightarrow>
     valid (peer_key n) \<and> ni_distance n = Xor K target (peer_key n) \<and> nodeString (ni_id n) \<noteq> ''''"

definition first_queued :: "('k, 'a) nodeInfo list \<Rightarrow> nat list \<Rightarrow> nat option" where
  "first_queued st rs = List.find (\<lambda>r. is_queued (st ! r)) rs"

definition count_queued :: "('k, 'a) nodeInfo list \<Rightarrow> nat list \<Rightarrow> int" where
  "count_queued st rs = int (length (filter (\<lambda>r. is_queued (st ! r)) rs))"

definition peers_ok ::
  "'k Key \<Rightarrow> ('k \<Rightarrow> bool) \<Rightarrow> ('k \<Rightarrow> bool list) \<Rightarrow> ('k, 'a) PeerList \<Rightarrow> nat list \<Rightarrow> bool" where
  "peers_ok K valid bits pl rs \<longleftrightarrow>
     linked (pl_store pl) (pl_closest pl) rs \<and> valid (pl_target pl) \<and>
     sorted_wrt (<) (map (\<lambda>r. ndist bits (pl_store pl ! r)) rs) \<and>
     (\<forall>r \<in> set rs. node_ok K valid (pl_target pl) (pl_store pl ! r)) \<and>
     pl_closestQueued pl = first_queued (pl_store pl) rs \<and>
     pl_queuedCount pl = count_queued (pl_store pl) rs"

text \<open>
  The invariant: the list is linked in the strict order of the distances, which are those of the
  keys to the target, \<open>closestQueued\<close> is the first queued peer and \<open>queuedCount\<close> counts them all.
\<close>

definition pl_inv ::
  "'k Key \<Rightarrow> ('k \<Rightarrow> bool) \<Rightarrow> ('k \<Rightarrow> bool list) \<Rightarrow> ('k, 'a) PeerList \<Rightarrow> bool" where
  "pl_inv K valid bits pl \<longleftrightarrow> peers_ok K valid bits pl (peer_refs pl)"

text \<open>
  A peer has a fresh address when the endpoint returns one that was not there when the peer was
  asked. A waiting peer that is discovered again with a fresh address is marked; an unreachable one
  is queued again.
\<close>

definition fresh_addr :: "('a \<Rightarrow> 'a \<Rightarrow> bool) \<Rightarrow> ('k, 'a) network \<Rightarrow> ('k, 'a) nodeInfo \<Rightarrow> bool" where
  "fresh_addr aeq net n =
     (case net (ni_id n) of
        (Some i, None) \<Rightarrow> list_ex (\<lambda>a. \<not> list_ex (aeq a) (ni_addrs n)) (infoAddresses i)
      | _ \<Rightarrow> False)"

definition again ::
  "('a \<Rightarrow> 'a \<Rightarrow> bool) \<Rightarrow> ('k, 'a) network \<Rightarrow> bool \<Rightarrow> ('k, 'a) nodeInfo \<Rightarrow> ('k, 'a) nodeInfo" where
  "again aeq net e n =
     (if e \<and> ni_status n = waiting \<and> fresh_addr aeq net n then n\<lparr>ni_tryAgainOnFailure := True\<rparr> else n)"

definition revives :: "('a \<Rightarrow> 'a \<Rightarrow> bool) \<Rightarrow> ('k, 'a) network \<Rightarrow> bool \<Rightarrow> ('k, 'a) nodeInfo \<Rightarrow> bool" where
  "revives aeq net e n \<longleftrightarrow> e \<and> ni_status n = unreachable \<and> fresh_addr aeq net n"

text \<open>An endpoint returns a node info or an error.\<close>

definition net_ok :: "('k, 'a) network \<Rightarrow> bool" where
  "net_ok net \<longleftrightarrow> (\<forall>i. net i \<noteq> (None, None))"

section \<open>Linked lists in the store\<close>

lemma body_sel [simp]:
  "ni_distance (body n) = ni_distance n" "ni_status (body n) = ni_status n" "ni_id (body n) = ni_id n"
  "ni_addrs (body n) = ni_addrs n" "ni_tryAgainOnFailure (body n) = ni_tryAgainOnFailure n"
  "ni_next (body n) = None" "body (n\<lparr>ni_next := p\<rparr>) = body n"
  by (simp_all add: body_def)

lemma linked_bound: "linked st p xs \<Longrightarrow> set xs \<subseteq> {..<length st}"
  by (induction xs arbitrary: p) auto

lemma linked_unique: "linked st p xs \<Longrightarrow> linked st p ys \<Longrightarrow> xs = ys"
proof (induction xs arbitrary: p ys)
  case Nil
  then show ?case by (cases ys) auto
next
  case (Cons x xs)
  then show ?case by (cases ys) auto
qed

lemma follow_linked: "linked st p xs \<Longrightarrow> length xs \<le> n \<Longrightarrow> follow_next n st p = xs"
  by (induction xs arbitrary: p n) (case_tac n; auto)+

lemma linked_cong:
  "linked st p xs \<Longrightarrow> length st \<le> length st' \<Longrightarrow> (\<And>x. x \<in> set xs \<Longrightarrow> ni_next (st' ! x) = ni_next (st ! x)) \<Longrightarrow>
   linked st' p xs"
  by (induction xs arbitrary: p) auto

lemma length_setNext [simp]: "length (setNext st r p) = length st"
  by (simp add: setNext_def)

lemma nth_setNext: "setNext st r p ! x = (if x = r \<and> r < length st then (st ! r)\<lparr>ni_next := p\<rparr> else st ! x)"
  by (cases "r < length st") (auto simp: setNext_def nth_list_update list_update_beyond)

lemma body_setNext [simp]: "body (setNext st r p ! x) = body (st ! x)"
  by (simp add: nth_setNext)

lemma linked_setNext_notin: "linked st p xs \<Longrightarrow> c \<notin> set xs \<Longrightarrow> linked (setNext st c q) p xs"
  by (erule linked_cong) (auto simp: nth_setNext)

lemma linked_setNext:
  assumes "linked st p (xs @ c # ys)" "distinct (xs @ [c])" "linked st q zs" "c \<notin> set zs"
  shows "linked (setNext st c q) p (xs @ c # zs)"
  using assms by (induction xs arbitrary: p) (auto simp: nth_setNext intro: linked_setNext_notin)

lemma sorted_refs_distinct:
  fixes f :: "nat \<Rightarrow> nat"
  shows "sorted_wrt (<) (map f rs) \<Longrightarrow> distinct rs"
  by (simp add: distinct_map strict_sorted_iff)

lemma linked_length: "linked st p xs \<Longrightarrow> distinct xs \<Longrightarrow> length xs \<le> length st"
  using card_mono [OF _ linked_bound, of st p xs] by (simp add: distinct_card)

text \<open>The pointers of a list that meets the invariant are determined by it.\<close>

lemma peers_ok_refs:
  assumes "peers_ok K valid bits pl rs"
  shows "peer_refs pl = rs"
proof -
  have "linked (pl_store pl) (pl_closest pl) rs" "distinct rs"
    using assms by (auto simp: peers_ok_def intro: sorted_refs_distinct)
  then show ?thesis
    unfolding peer_refs_def by (intro follow_linked linked_length) auto
qed

lemma pl_invI: "peers_ok K valid bits pl rs \<Longrightarrow> pl_inv K valid bits pl"
  by (simp add: pl_inv_def peers_ok_refs)


section \<open>The loops\<close>

lemma countLoop_law: "linked st p xs \<Longrightarrow> countLoop st p c = Some (c + int (length xs))"
proof (induction xs arbitrary: p c)
  case Nil
  then show ?case by (simp add: countLoop.simps)
next
  case (Cons x xs)
  then show ?case by (subst countLoop.simps) simp
qed

lemma findNextQueued_law: "linked st p xs \<Longrightarrow> findNextQueued st p = Some (first_queued st xs)"
proof (induction xs arbitrary: p)
  case Nil
  then show ?case by (simp add: findNextQueued.simps first_queued_def)
next
  case (Cons x xs)
  then show ?case by (subst findNextQueued.simps) (simp add: first_queued_def)
qed

lemma findByString_law:
  "linked st p xs \<Longrightarrow> findByString st s p = Some (List.find (\<lambda>r. nodeString (ni_id (st ! r)) = s) xs)"
proof (induction xs arbitrary: p)
  case Nil
  then show ?case by (simp add: findByString.simps)
next
  case (Cons x xs)
  then show ?case by (subst findByString.simps) simp
qed

lemma first_queued_append:
  "first_queued st (xs @ ys) = (case first_queued st xs of None \<Rightarrow> first_queued st ys | Some r \<Rightarrow> Some r)"
  by (induction xs) (auto simp: first_queued_def)

lemma first_queued_None: "first_queued st xs = None \<longleftrightarrow> (\<forall>r \<in> set xs. \<not> is_queued (st ! r))"
  by (auto simp: first_queued_def find_None_iff)

lemma first_queued_cong:
  "(\<And>r. r \<in> set xs \<Longrightarrow> ni_status (st ! r) = ni_status (st' ! r)) \<Longrightarrow> first_queued st xs = first_queued st' xs"
  by (simp add: first_queued_def cong: find_cong)

lemma count_queued_append: "count_queued st (xs @ ys) = count_queued st xs + count_queued st ys"
  by (simp add: count_queued_def)

lemma count_queued_cong:
  "(\<And>r. r \<in> set xs \<Longrightarrow> ni_status (st ! r) = ni_status (st' ! r)) \<Longrightarrow> count_queued st xs = count_queued st' xs"
  by (simp add: count_queued_def cong: filter_cong)

lemma count_queued_simps [simp]:
  "count_queued st [] = 0"
  "count_queued st (r # rs) = (if is_queued (st ! r) then 1 else 0) + count_queued st rs"
  by (simp_all add: count_queued_def)

lemma first_queued_simps [simp]:
  "first_queued st [] = None"
  "first_queued st (r # rs) = (if is_queued (st ! r) then Some r else first_queued st rs)"
  by (simp_all add: first_queued_def)

text \<open>What becomes of a peer that is discovered again, unless an unreachable one revives.\<close>

lemma addressLoop_waiting:
  assumes "r < length (pl_store pl)" "ni_status (pl_store pl ! r) = waiting"
  shows "addressLoop K aeq pl r as = Some (pl\<lparr>pl_store := (pl_store pl)[r :=
    (if list_ex (\<lambda>a. \<not> list_ex (aeq a) (ni_addrs (pl_store pl ! r))) as
     then (pl_store pl ! r)\<lparr>ni_tryAgainOnFailure := True\<rparr> else pl_store pl ! r)]\<rparr>)"
  using assms by (induction as arbitrary: pl) (auto simp: Let_def)

lemma addressLoop_known:
  "\<not> list_ex (\<lambda>a. \<not> list_ex (aeq a) (ni_addrs (pl_store pl ! r))) as \<Longrightarrow> addressLoop K aeq pl r as = Some pl"
  by (induction as) (auto simp: Let_def)

lemma rediscover_law:
  assumes "r < length (pl_store pl)" "net_ok net" "\<not> revives aeq net (pl_endpoint pl) (pl_store pl ! r)"
  shows "rediscover K aeq net pl r =
    Some (pl\<lparr>pl_store := (pl_store pl)[r := again aeq net (pl_endpoint pl) (pl_store pl ! r)]\<rparr>)"
proof -
  obtain na err where ne: "net (ni_id (pl_store pl ! r)) = (na, err)" by fastforce
  with assms(2) have "na \<noteq> None \<or> err \<noteq> None" unfolding net_ok_def by metis
  with ne assms(1,3) show ?thesis
    by (cases err; cases na)
      (auto simp: rediscover_def Let_def again_def revives_def fresh_addr_def addressLoop_waiting addressLoop_known)
qed

lemma again_sel [simp]:
  "ni_distance (again aeq net e n) = ni_distance n" "ni_status (again aeq net e n) = ni_status n"
  "ni_id (again aeq net e n) = ni_id n" "ni_addrs (again aeq net e n) = ni_addrs n"
  "ni_next (again aeq net e n) = ni_next n"
  by (simp_all add: again_def)

lemma fresh_addr_body [simp]: "fresh_addr aeq net (body n) = fresh_addr aeq net n"
  by (auto simp: fresh_addr_def split: prod.splits option.splits)

lemma body_again [simp]: "body (again aeq net e n) = again aeq net e (body n)"
  unfolding again_def fresh_addr_body by (auto simp: body_def)

section \<open>Sorting and linking the new peers\<close>

text \<open>The contract of \<open>sort.Slice\<close>, and that an insertion sort meets it.\<close>

locale slice_sort =
  fixes srt :: sliceSort
  assumes srt_law:
    "(\<And>x y. x \<in> set xs \<Longrightarrow> y \<in> set xs \<Longrightarrow> lt x y = Some (f x < (f y :: nat))) \<Longrightarrow>
     \<exists>ys. srt lt xs = Some ys \<and> mset ys = mset xs \<and> sorted (map f ys)"

interpretation insertion: slice_sort sliceStable
proof
  fix xs lt and f :: "nat \<Rightarrow> nat"
  assume "\<And>x y. x \<in> set xs \<Longrightarrow> y \<in> set xs \<Longrightarrow> lt x y = Some (f x < f y)"
  then have "sliceStable lt xs = Some (sort_key f xs)" by (rule key8.sliceStable_sort_key)
  then show "\<exists>ys. sliceStable lt xs = Some ys \<and> mset ys = mset xs \<and> sorted (map f ys)" by simp
qed

context kad_key
begin

abbreviation nd :: "('k, 'a) nodeInfo list \<Rightarrow> nat \<Rightarrow> nat" where
  "nd st r \<equiv> ndist bits (st ! r)"

lemma nd_body: "body n = body n' \<Longrightarrow> ndist bits n = ndist bits n'"
  unfolding ndist_def by (metis body_sel(1))

lemma nd_setNext [simp]: "nd (setNext st r p) x = nd st x"
  by (rule nd_body) simp

lemma ndist_compare:
  "valid (ni_distance a) \<Longrightarrow> valid (ni_distance b) \<Longrightarrow>
   Compare K (ni_distance a) (ni_distance b) = Some (sgn (int (ndist bits a) - int (ndist bits b)))"
  by (simp add: Compare_law ndist_def)

lemma ndist_equal:
  "valid (ni_distance a) \<Longrightarrow> valid (ni_distance b) \<Longrightarrow>
   Equal K (ni_distance a) (ni_distance b) = Some (ndist bits a = ndist bits b)"
  by (simp add: Equal_def ndist_compare sgn_if)

lemma linkLoop_law:
  assumes "set (c # xs) \<subseteq> {..<length st}" "distinct (c # xs)" "sorted (map (nd st) (c # xs))"
    and "\<And>x. x \<in> set (c # xs) \<Longrightarrow> valid (ni_distance (st ! x)) \<and> ni_next (st ! x) = None"
  shows "\<exists>st' rs. linkLoop K st c xs = Some st' \<and> length st' = length st \<and>
    (\<forall>x. body (st' ! x) = body (st ! x)) \<and> (\<forall>x. x \<notin> set (c # xs) \<longrightarrow> st' ! x = st ! x) \<and>
    linked st' (Some c) (c # rs) \<and> set rs \<subseteq> set xs \<and> sorted_wrt (<) (map (nd st) (c # rs)) \<and>
    nd st ` set (c # rs) = nd st ` set (c # xs)"
  using assms
proof (induction xs arbitrary: st c)
  case Nil
  then show ?case by auto
next
  case (Cons x xs)
  have v: "valid (ni_distance (st ! c))" "valid (ni_distance (st ! x))" using Cons.prems(4) by auto
  show ?case
  proof (cases "nd st c = nd st x")
    case True
    have "\<exists>st' rs. linkLoop K st c xs = Some st' \<and> length st' = length st \<and>
      (\<forall>x. body (st' ! x) = body (st ! x)) \<and> (\<forall>x. x \<notin> set (c # xs) \<longrightarrow> st' ! x = st ! x) \<and>
      linked st' (Some c) (c # rs) \<and> set rs \<subseteq> set xs \<and> sorted_wrt (<) (map (nd st) (c # rs)) \<and>
      nd st ` set (c # rs) = nd st ` set (c # xs)"
      using Cons.prems by (intro Cons.IH) auto
    then show ?thesis using True v by (fastforce simp: ndist_equal)
  next
    case False
    let ?st = "setNext st c (Some x)"
    have ne: "c \<noteq> x" "c \<notin> set xs" "c < length st" using Cons.prems by auto
    have "\<exists>st' rs. linkLoop K ?st x xs = Some st' \<and> length st' = length ?st \<and>
      (\<forall>y. body (st' ! y) = body (?st ! y)) \<and> (\<forall>y. y \<notin> set (x # xs) \<longrightarrow> st' ! y = ?st ! y) \<and>
      linked st' (Some x) (x # rs) \<and> set rs \<subseteq> set xs \<and> sorted_wrt (<) (map (nd ?st) (x # rs)) \<and>
      nd ?st ` set (x # rs) = nd ?st ` set (x # xs)"
    proof (intro Cons.IH)
      show "sorted (map (nd ?st) (x # xs))" using Cons.prems(3) by simp
    qed (use Cons.prems ne in \<open>auto simp: nth_setNext\<close>)
    then obtain st' rs where st': "linkLoop K ?st x xs = Some st'" "length st' = length st"
      "\<forall>y. body (st' ! y) = body (st ! y)" "\<forall>y. y \<notin> set (x # xs) \<longrightarrow> st' ! y = ?st ! y"
      "linked st' (Some x) (x # rs)" "set rs \<subseteq> set xs" "sorted_wrt (<) (map (nd st) (x # rs))"
      "nd st ` set (x # rs) = nd st ` set (x # xs)" by auto
    have "linked st' (Some c) (c # x # rs)" using st'(2,4,5) ne by (auto simp: nth_setNext)
    moreover have "sorted_wrt (<) (map (nd st) (c # x # rs))"
      using st'(6,7) Cons.prems(3) False by auto
    moreover have "linkLoop K st c (x # xs) = Some st'" using False v st'(1) by (simp add: ndist_equal)
    moreover have "\<forall>y. y \<notin> set (c # x # xs) \<longrightarrow> st' ! y = st ! y" using st'(4) by (auto simp: nth_setNext)
    moreover have "nd st ` set (c # x # rs) = nd st ` set (c # x # xs)" using st'(8) by simp
    moreover have "set (x # rs) \<subseteq> set (x # xs)" using st'(6) by auto
    ultimately show ?thesis using st'(2,3) by (intro exI [of _ st'] exI [of _ "x # rs"]) (simp only: simp_thms)
  qed
qed

end

definition new_peer :: "'k Key \<Rightarrow> 'k \<Rightarrow> 'k NodeID \<Rightarrow> ('k, 'a) nodeInfo" where
  "new_peer K target i =
     \<lparr>ni_distance = Xor K target (nodeKey i), ni_status = queued, ni_id = i, ni_addrs = [],
      ni_tryAgainOnFailure = False, ni_next = None\<rparr>"

lemma new_peer_sel [simp]:
  "ni_distance (new_peer K t i) = Xor K t (nodeKey i)" "ni_status (new_peer K t i) = queued"
  "ni_id (new_peer K t i) = i" "ni_next (new_peer K t i) = None" "peer_key (new_peer K t i) = nodeKey i"
  "body (new_peer K t i) = new_peer K t i" "ni_addrs (new_peer K t i) = []"
  "ni_tryAgainOnFailure (new_peer K t i) = False"
  by (simp_all add: new_peer_def peer_key_def body_def)

text \<open>The identifiers that make it into the list.\<close>

definition usable :: "'k NodeID option list \<Rightarrow> 'k NodeID set" where
  "usable ids = {i. Some i \<in> set ids \<and> nodeString i \<noteq> ''''}"

lemma set_map_filter: "y \<in> set (List.map_filter f xs) \<longleftrightarrow> (\<exists>x \<in> set xs. f x = Some y)"
  by (induction xs) (auto simp: List.map_filter_simps split: option.splits)

lemma body_eqD:
  assumes "body a = body b"
  shows "ni_distance a = ni_distance b" "ni_status a = ni_status b" "ni_id a = ni_id b" "peer_key a = peer_key b"
    "ni_addrs a = ni_addrs b" "ni_tryAgainOnFailure a = ni_tryAgainOnFailure b" "ndist bits a = ndist bits b"
proof -
  show d: "ni_distance a = ni_distance b" and "ni_status a = ni_status b" and i: "ni_id a = ni_id b"
    and "ni_addrs a = ni_addrs b" and "ni_tryAgainOnFailure a = ni_tryAgainOnFailure b"
    using assms by (metis body_sel)+
  from i show "peer_key a = peer_key b" by (simp add: peer_key_def)
  from d show "ndist bits a = ndist bits b" by (simp add: ndist_def)
qed

locale peer_list_env = kad_key K valid len bits + slice_sort srt
  for K :: "'k Key" and valid len bits and srt
begin

lemma node_ok_dist: "node_ok K valid t n \<Longrightarrow> valid t \<Longrightarrow> ndist bits n = dist (peer_key n) t"
  by (simp add: node_ok_def ndist_def dist_def Xor_law xor_bits_commute)

lemma node_ok_valid: "node_ok K valid t n \<Longrightarrow> valid t \<Longrightarrow> valid (ni_distance n)"
  by (simp add: node_ok_def Xor_valid)

lemma node_ok_inj:
  "node_ok K valid t a \<Longrightarrow> node_ok K valid t b \<Longrightarrow> valid t \<Longrightarrow>
   ndist bits a = ndist bits b \<longleftrightarrow> peer_key a = peer_key b"
  using dist_inj by (auto simp: node_ok_dist) (simp add: node_ok_def)

lemma node_ok_body: "body a = body b \<Longrightarrow> node_ok K valid t a = node_ok K valid t b"
  unfolding node_ok_def by (frule body_eqD(1), frule body_eqD(3), frule body_eqD(4)) simp

lemma new_peers_law:
  assumes "valid t" "\<And>i. Some i \<in> set ids \<Longrightarrow> valid (nodeKey i)"
  shows "set (List.map_filter (addrInfoToPeerInfo K t) ids) = (new_peer K t ` usable ids :: ('k, 'a) nodeInfo set)"
proof -
  have "(addrInfoToPeerInfo K t i :: ('k, 'a) nodeInfo option) = (case i of Some j \<Rightarrow>
      if nodeString j = '''' then None else Some (new_peer K t j) | None \<Rightarrow> None)" if "i \<in> set ids" for i
    using that assms by (auto simp: addrInfoToPeerInfo_def new_peer_def BitLen_law split: option.splits)
  then have "y \<in> set (List.map_filter (addrInfoToPeerInfo K t) ids) \<longleftrightarrow>
      (\<exists>i \<in> set ids. (case i of Some j \<Rightarrow> if nodeString j = '''' then None else Some (new_peer K t j) | None \<Rightarrow> None) = Some y)"
    for y :: "('k, 'a) nodeInfo" by (simp add: set_map_filter)
  then show ?thesis
    by (force simp: usable_def image_iff split: option.splits if_splits)
qed

lemma sliceToPeerInfos_law:
  fixes st :: "('k, 'a) nodeInfo list"
  assumes t: "valid t" and ids: "\<And>i. Some i \<in> set ids \<Longrightarrow> valid (nodeKey i)"
  shows "\<exists>st' p rs. sliceToPeerInfos K srt st t ids = Some (st', p) \<and> linked st' p rs \<and>
    length st \<le> length st' \<and> set rs \<subseteq> {length st..<length st'} \<and> (\<forall>x < length st. st' ! x = st ! x) \<and>
    sorted_wrt (<) (map (nd st') rs) \<and> (\<forall>r \<in> set rs. body (st' ! r) \<in> new_peer K t ` usable ids) \<and>
    (\<forall>i \<in> usable ids. \<exists>r \<in> set rs. peer_key (st' ! r) = nodeKey i)"
proof -
  define ns where "ns = (List.map_filter (addrInfoToPeerInfo K t) ids :: ('k, 'a) nodeInfo list)"
  define st1 where "st1 = st @ ns"
  have ns: "set ns = new_peer K t ` usable ids" unfolding ns_def by (rule new_peers_law) (use assms in auto)
  have mem: "st1 ! x \<in> new_peer K t ` usable ids" if "x \<in> {length st..<length st1}" for x
    using that ns nth_mem [of "x - length st" ns] by (auto simp: st1_def nth_append)
  have ok: "node_ok K valid t n" if "n \<in> new_peer K t ` usable ids" for n :: "('k, 'a) nodeInfo"
    using that ids by (auto simp: node_ok_def usable_def)
  show ?thesis
  proof (cases "ns = []")
    case True
    then show ?thesis using ns
      by (intro exI [of _ st1] exI [of _ None] exI [of _ "[]"])
        (auto simp: sliceToPeerInfos_def ns_def [symmetric] st1_def)
  next
    case False
    let ?rs = "[length st..<length st1]"
    have lt: "closerInfo K st1 x y = Some (nd st1 x < nd st1 y)" if "x \<in> set ?rs" "y \<in> set ?rs" for x y
      using that ok [OF mem [of x]] ok [OF mem [of y]] t
      by (auto simp: closerInfo_def ndist_compare node_ok_valid sgn_if)
    obtain ys where ys: "srt (closerInfo K st1) ?rs = Some ys" "mset ys = mset ?rs" "sorted (map (nd st1) ys)"
      using srt_law [of ?rs "closerInfo K st1" "nd st1"] lt by blast
    have sy: "set ys = {length st..<length st1}" "distinct ys"
      using ys(2) by (metis mset_eq_setD set_upt) (metis mset_eq_imp_distinct_iff distinct_upt ys(2))
    then obtain y zs where yz: "ys = y # zs" using False by (cases ys) (auto simp: st1_def)
    have "\<exists>st' rs. linkLoop K st1 y zs = Some st' \<and> length st' = length st1 \<and>
      (\<forall>x. body (st' ! x) = body (st1 ! x)) \<and> (\<forall>x. x \<notin> set (y # zs) \<longrightarrow> st' ! x = st1 ! x) \<and>
      linked st' (Some y) (y # rs) \<and> set rs \<subseteq> set zs \<and> sorted_wrt (<) (map (nd st1) (y # rs)) \<and>
      nd st1 ` set (y # rs) = nd st1 ` set (y # zs)"
    proof (intro linkLoop_law)
      fix x assume "x \<in> set (y # zs)"
      then have "x \<in> {length st..<length st1}" using sy yz by auto
      from mem [OF this] ok [OF mem [OF this]] t
      show "valid (ni_distance (st1 ! x)) \<and> ni_next (st1 ! x) = None"
        by (auto simp: node_ok_valid)
    qed (use sy ys yz in auto)
    then obtain st' rs where st': "linkLoop K st1 y zs = Some st'" "length st' = length st1"
      "\<And>x. body (st' ! x) = body (st1 ! x)" "\<And>x. x \<notin> set (y # zs) \<Longrightarrow> st' ! x = st1 ! x"
      "linked st' (Some y) (y # rs)" "set rs \<subseteq> set zs" "sorted_wrt (<) (map (nd st1) (y # rs))"
      "nd st1 ` set (y # rs) = nd st1 ` set (y # zs)" by blast
    have nd: "nd st' x = nd st1 x" for x using st'(3) by (rule body_eqD)
    have sub: "set (y # rs) \<subseteq> {length st..<length st1}" using st'(6) sy yz by auto
    have all: "\<exists>r \<in> set (y # rs). peer_key (st' ! r) = nodeKey i" if i: "i \<in> usable ids" for i
    proof -
      obtain x where x: "x \<in> set (y # zs)" "st1 ! x = new_peer K t i"
      proof -
        have "new_peer K t i \<in> set ns" using i ns by auto
        then obtain j where "j < length ns" "ns ! j = new_peer K t i" by (auto simp: in_set_conv_nth)
        moreover from this have "length st + j \<in> set ys" unfolding sy(1) by (simp add: st1_def)
        ultimately show ?thesis using that [of "length st + j"] by (simp add: yz [symmetric] st1_def nth_append)
      qed
      have "nd st1 x \<in> nd st1 ` set (y # rs)" unfolding st'(8) using x(1) by (rule imageI)
      then obtain r where r: "r \<in> set (y # rs)" "nd st1 r = nd st1 x" by (rule imageE) simp
      then have "peer_key (st1 ! r) = peer_key (st1 ! x)"
        using node_ok_inj [OF ok [OF mem] ok [OF mem] t, of r x] sub x(1) sy(1) yz by blast
      with r(1) x(2) show ?thesis using body_eqD(4) [OF st'(3) [of r]] by (intro bexI [of _ r]) simp_all
    qed
    have "sliceToPeerInfos K srt st t ids = Some (st', Some y)"
      using ys(1) yz st'(1) False
      by (simp add: sliceToPeerInfos_def ns_def [symmetric] st1_def [symmetric] Let_def)
    moreover have "\<forall>r \<in> set (y # rs). body (st' ! r) \<in> new_peer K t ` usable ids"
      using sub mem st'(3) by (fastforce simp: image_iff)
    moreover have "\<forall>x < length st. st' ! x = st ! x"
    proof (intro allI impI)
      fix x assume "x < length st"
      then have "x \<notin> set ys" unfolding sy(1) by simp
      with st'(4) \<open>x < length st\<close> show "st' ! x = st ! x" unfolding yz by (simp add: st1_def nth_append)
    qed
    ultimately show ?thesis using st'(2,5,7) sub all nd
      by (intro exI [of _ st'] exI [of _ "Some y"] exI [of _ "y # rs"]) (auto simp: st1_def)
  qed
qed

end

end
