(* ===== verification/Peer_Merge.thy ===== *)
theory Peer_Merge
  imports Peer_List
begin

text \<open>
  The merge of \<open>addToPeerlist\<close>: the invariant of its loop, that the loop ends and keeps it, and what
  the list holds afterwards (\<open>added_peers\<close>), for every endpoint that does not return a fresh address
  of an unreachable peer.
\<close>

section \<open>The merge\<close>

text \<open>
  The state of the merge, with ghost variables: \<open>dn\<close> is the merged part, \<open>os\<close> and \<open>ns\<close> are what is
  left of the old list \<open>os0\<close> and the new list \<open>ns0\<close>; \<open>st0\<close> is the store at the beginning and \<open>d\<close> the
  distance of a peer in it. Its invariant has four parts: how the lists are linked, how the pointers
  are distributed and ordered, what the peers hold, and what is known of the queued ones.
\<close>

definition merge_shape :: "('k, 'a) Merge \<Rightarrow> nat list \<Rightarrow> nat list \<Rightarrow> nat list \<Rightarrow> bool" where
  "merge_shape m dn os ns \<longleftrightarrow>
     linked (pl_store (m_pl m)) (pl_closest (m_pl m)) (dn @ (if m_currOld m then os else ns)) \<and>
     linked (pl_store (m_pl m)) (m_oldHead m) os \<and> linked (pl_store (m_pl m)) (m_newHead m) ns \<and>
     m_prev m = (if dn = [] then None else Some (last dn))"

definition merge_order ::
  "(nat \<Rightarrow> nat) \<Rightarrow> nat list \<Rightarrow> nat list \<Rightarrow> bool \<Rightarrow> nat list \<Rightarrow> nat list \<Rightarrow> nat list \<Rightarrow> bool" where
  "merge_order d os0 ns0 currOld dn os ns \<longleftrightarrow>
     (dn = [] \<longrightarrow> os \<noteq> [] \<and> ns \<noteq> [] \<and> currOld = (d (hd os) \<le> d (hd ns))) \<and>
     sorted_wrt (<) (map d (dn @ os)) \<and> sorted_wrt (<) (map d (dn @ ns)) \<and>
     set os \<subseteq> set os0 \<and> set ns \<subseteq> set ns0 \<and>
     set dn = (set os0 - set os) \<union> {n \<in> set ns0 - set ns. d n \<notin> d ` set os0} \<and>
     (\<forall>x \<in> set ns0 - set ns. \<forall>y \<in> set os. d x < d y)"

definition merge_data ::
  "('a \<Rightarrow> 'a \<Rightarrow> bool) \<Rightarrow> ('k, 'a) network \<Rightarrow> bool \<Rightarrow> (nat \<Rightarrow> nat) \<Rightarrow> ('k, 'a) nodeInfo list \<Rightarrow> nat list \<Rightarrow>
   nat list \<Rightarrow> ('k, 'a) nodeInfo list \<Rightarrow> bool" where
  "merge_data aeq net e d st0 ns0 dn st \<longleftrightarrow>
     length st = length st0 \<and>
     (\<forall>x < length st0. body (st ! x) =
        (if x \<in> set dn \<and> d x \<in> d ` set ns0 then again aeq net e (body (st0 ! x)) else body (st0 ! x)))"

definition merge_queue :: "('k, 'a) nodeInfo list \<Rightarrow> ('k, 'a) Merge \<Rightarrow> nat list \<Rightarrow> nat list \<Rightarrow> bool" where
  "merge_queue st0 m dn os \<longleftrightarrow>
     m_reached m = (\<exists>x \<in> set dn. is_queued (st0 ! x)) \<and>
     (m_reached m \<longrightarrow> pl_closestQueued (m_pl m) = first_queued st0 dn) \<and>
     (\<not> m_reached m \<and> (dn \<noteq> [] \<or> m_currOld m) \<longrightarrow> pl_closestQueued (m_pl m) = first_queued st0 os) \<and>
     pl_queuedCount (m_pl m) = count_queued st0 (dn @ os)"

definition merge_inv ::
  "('k \<Rightarrow> bool list) \<Rightarrow> ('a \<Rightarrow> 'a \<Rightarrow> bool) \<Rightarrow> ('k, 'a) network \<Rightarrow> ('k, 'a) nodeInfo list \<Rightarrow> nat list \<Rightarrow> nat list \<Rightarrow>
   ('k, 'a) PeerList \<Rightarrow> ('k, 'a) Merge \<Rightarrow> nat list \<Rightarrow> nat list \<Rightarrow> nat list \<Rightarrow> bool" where
  "merge_inv bits aeq net st0 os0 ns0 pl0 m dn os ns \<longleftrightarrow>
     merge_shape m dn os ns \<and> merge_order (\<lambda>r. ndist bits (st0 ! r)) os0 ns0 (m_currOld m) dn os ns \<and>
     merge_data aeq net (pl_endpoint pl0) (\<lambda>r. ndist bits (st0 ! r)) st0 ns0 dn (pl_store (m_pl m)) \<and>
     merge_queue st0 m dn os \<and>
     pl_target (m_pl m) = pl_target pl0 \<and> pl_endpoint (m_pl m) = pl_endpoint pl0"

text \<open>What does not change during the merge.\<close>

definition merge_ctx ::
  "'k Key \<Rightarrow> ('k \<Rightarrow> bool) \<Rightarrow> ('k \<Rightarrow> bool list) \<Rightarrow> ('a \<Rightarrow> 'a \<Rightarrow> bool) \<Rightarrow> ('k, 'a) network \<Rightarrow> ('k, 'a) nodeInfo list \<Rightarrow>
   nat list \<Rightarrow> nat list \<Rightarrow> ('k, 'a) PeerList \<Rightarrow> bool" where
  "merge_ctx K valid bits aeq net st0 os0 ns0 pl0 \<longleftrightarrow>
     valid (pl_target pl0) \<and> net_ok net \<and> set os0 \<inter> set ns0 = {} \<and> set os0 \<union> set ns0 \<subseteq> {..<length st0} \<and>
     (\<forall>r \<in> set os0 \<union> set ns0. node_ok K valid (pl_target pl0) (st0 ! r)) \<and>
     (\<forall>r \<in> set ns0. is_queued (st0 ! r)) \<and>
     (\<forall>x \<in> set os0. \<forall>n \<in> set ns0. ndist bits (st0 ! x) = ndist bits (st0 ! n) \<longrightarrow>
        \<not> revives aeq net (pl_endpoint pl0) (st0 ! x))"

lemma merge_order_distinct:
  assumes "merge_order d os0 ns0 c dn os ns"
  shows "distinct dn" "distinct os" "distinct ns" "set dn \<inter> set os = {}" "set dn \<inter> set ns = {}"
proof -
  have "distinct (dn @ os)" "distinct (dn @ ns)"
    using assms sorted_refs_distinct unfolding merge_order_def by blast+
  then show "distinct dn" "distinct os" "distinct ns" "set dn \<inter> set os = {}" "set dn \<inter> set ns = {}"
    by simp_all
qed

lemma merge_orderD:
  assumes "merge_order d os0 ns0 c dn os ns"
  shows "dn = [] \<Longrightarrow> os \<noteq> [] \<and> ns \<noteq> [] \<and> c = (d (hd os) \<le> d (hd ns))"
    "sorted_wrt (<) (map d dn)" "sorted_wrt (<) (map d os)" "sorted_wrt (<) (map d ns)"
    "x \<in> set dn \<Longrightarrow> y \<in> set os \<Longrightarrow> d x < d y" "x \<in> set dn \<Longrightarrow> z \<in> set ns \<Longrightarrow> d x < d z"
    "set os \<subseteq> set os0" "set ns \<subseteq> set ns0"
    "set dn = (set os0 - set os) \<union> {n \<in> set ns0 - set ns. d n \<notin> d ` set os0}"
    "w \<in> set ns0 - set ns \<Longrightarrow> y \<in> set os \<Longrightarrow> d w < d y"
  using assms unfolding merge_order_def map_append sorted_wrt_append by auto

lemma merge_orderI:
  assumes "dn \<noteq> []" "sorted_wrt (<) (map d dn)" "sorted_wrt (<) (map d os)" "sorted_wrt (<) (map d ns)"
    and "\<And>x y. x \<in> set dn \<Longrightarrow> y \<in> set os \<Longrightarrow> d x < d y" "\<And>x z. x \<in> set dn \<Longrightarrow> z \<in> set ns \<Longrightarrow> d x < d z"
    and "set os \<subseteq> set os0" "set ns \<subseteq> set ns0"
    and "set dn = (set os0 - set os) \<union> {n \<in> set ns0 - set ns. d n \<notin> d ` set os0}"
    and "\<And>w y. w \<in> set ns0 - set ns \<Longrightarrow> y \<in> set os \<Longrightarrow> d w < d y"
  shows "merge_order d os0 ns0 c dn os ns"
  using assms unfolding merge_order_def map_append sorted_wrt_append by auto

lemma merge_order_new:
  assumes m: "merge_order d os0 ns0 c dn (old # os) (n # ns)" and lt: "d n < d old"
    and disj: "set os0 \<inter> set ns0 = {}"
  shows "merge_order d os0 ns0 c' (dn @ [n]) (old # os) ns"
proof (rule merge_orderI)
  note D = merge_orderD [OF m]
  have rest: "d n < d y" if "y \<in> set (old # os)" for y using D(3) lt that by auto
  have new: "d n \<notin> d ` set os0"
  proof
    assume "d n \<in> d ` set os0"
    then obtain x where x: "x \<in> set os0" "d x = d n" by auto
    then have "x \<in> set dn" using rest D(9) by force
    with D(6) [of x n] x(2) show False by simp
  qed
  have n: "n \<notin> set ns" "n \<in> set ns0" "n \<notin> set os0" using D(4,8) disj by auto
  show "set (dn @ [n]) = (set os0 - set (old # os)) \<union> {n \<in> set ns0 - set ns. d n \<notin> d ` set os0}"
    using D(9) new n by auto
  show "sorted_wrt (<) (map d (dn @ [n]))" using D(2,6) by (auto simp: sorted_wrt_append)
  show "d x < d y" if "x \<in> set (dn @ [n])" "y \<in> set (old # os)" for x y
    using that D(5) rest by auto
  show "d x < d z" if "x \<in> set (dn @ [n])" "z \<in> set ns" for x z
    using that D(4,6) by auto
  show "d w < d y" if "w \<in> set ns0 - set ns" "y \<in> set (old # os)" for w y
    using that D(10) [of w y] rest by (cases "w = n") auto
qed (use merge_orderD [OF m] in auto)

lemma merge_order_old:
  assumes m: "merge_order d os0 ns0 c dn (old # os) (n # ns)" and lt: "d old < d n"
    and disj: "set os0 \<inter> set ns0 = {}"
  shows "merge_order d os0 ns0 c' (dn @ [old]) os (n # ns)" "d old \<notin> d ` set ns0"
proof -
  note D = merge_orderD [OF m]
  have rest: "d old < d y" if "y \<in> set (n # ns)" for y using D(4) lt that by auto
  have old: "old \<notin> set os" "old \<in> set os0" "old \<notin> set ns0" using D(3,7) disj by auto
  show "merge_order d os0 ns0 c' (dn @ [old]) os (n # ns)"
  proof (rule merge_orderI)
    show "set (dn @ [old]) = (set os0 - set os) \<union> {x \<in> set ns0 - set (n # ns). d x \<notin> d ` set os0}"
      using D(9) old by auto
    show "sorted_wrt (<) (map d (dn @ [old]))" using D(2,5) by (auto simp: sorted_wrt_append)
    show "d x < d y" if "x \<in> set (dn @ [old])" "y \<in> set os" for x y using that D(3,5) by auto
    show "d x < d z" if "x \<in> set (dn @ [old])" "z \<in> set (n # ns)" for x z using that D(6) rest by auto
    show "d w < d y" if "w \<in> set ns0 - set (n # ns)" "y \<in> set os" for w y using that D(10) by auto
  qed (use D in auto)
  show "d old \<notin> d ` set ns0"
  proof
    assume "d old \<in> d ` set ns0"
    then obtain x where x: "x \<in> set ns0" "d x = d old" by auto
    then have "x \<in> set ns0 - set (n # ns)" using rest by force
    with D(10) [of x old] x(2) show False by simp
  qed
qed

lemma merge_order_both:
  assumes m: "merge_order d os0 ns0 c dn (old # os) (n # ns)" and eq: "d old = d n"
    and disj: "set os0 \<inter> set ns0 = {}"
  shows "merge_order d os0 ns0 c' (dn @ [old]) os ns"
proof (rule merge_orderI)
  note D = merge_orderD [OF m]
  have old: "old \<notin> set os" "old \<in> set os0" "old \<notin> set ns0" using D(3,7) disj by auto
  have n: "n \<notin> set ns" "n \<in> set ns0" "n \<notin> set os0" using D(4,8) disj by auto
  have "d n \<in> d ` set os0" using old(2) eq by (metis imageI)
  note n = n this
  show "set (dn @ [old]) = (set os0 - set os) \<union> {x \<in> set ns0 - set ns. d x \<notin> d ` set os0}"
    using D(9) old n by auto
  show "sorted_wrt (<) (map d (dn @ [old]))" using D(2,5) by (auto simp: sorted_wrt_append)
  show "d x < d y" if "x \<in> set (dn @ [old])" "y \<in> set os" for x y using that D(3,5) by auto
  show "d x < d z" if "x \<in> set (dn @ [old])" "z \<in> set ns" for x z using that D(4,6) eq by auto
  show "d w < d y" if "w \<in> set ns0 - set ns" "y \<in> set os" for w y
    using that D(3,10) eq by (cases "w = n") auto
qed (use merge_orderD [OF m] in auto)

lemma linkPrev_sel [simp]:
  "pl_closest (linkPrev pl p q) = pl_closest pl" "pl_closestQueued (linkPrev pl p q) = pl_closestQueued pl"
  "pl_queuedCount (linkPrev pl p q) = pl_queuedCount pl" "pl_target (linkPrev pl p q) = pl_target pl"
  "pl_endpoint (linkPrev pl p q) = pl_endpoint pl" "length (pl_store (linkPrev pl p q)) = length (pl_store pl)"
  "body (pl_store (linkPrev pl p q) ! x) = body (pl_store pl ! x)"
  by (auto simp: linkPrev_def split: option.splits)

text \<open>Linking the merged part to one of the lists keeps both of them linked.\<close>

lemma linked_linkPrev:
  assumes "linked (pl_store pl) p (dn @ us)" "linked (pl_store pl) q vs" "dn \<noteq> []" "distinct dn" "set dn \<inter> set vs = {}"
  shows "linked (pl_store (linkPrev pl (Some (last dn)) q)) p (dn @ vs)"
  using linked_setNext [of "pl_store pl" p "butlast dn" "last dn" us q vs] assms
  by (simp add: linkPrev_def) (metis append.assoc append_Cons append_Nil append_butlast_last_id disjoint_iff last_in_set)

lemma linked_linkPrev_other:
  assumes "linked (pl_store pl) q vs" "dn \<noteq> []" "set dn \<inter> set vs = {}"
  shows "linked (pl_store (linkPrev pl (Some (last dn)) r)) q vs"
  using assms by (auto simp: linkPrev_def disjoint_iff intro!: linked_setNext_notin)


lemma merge_dataI:
  assumes "merge_data aeq net e d st0 ns0 dn st" "length st' = length st"
    and "\<And>x. body (st' ! x) = (if x = r then f (body (st ! r)) else body (st ! x))"
    and "r < length st0" "r \<notin> set dn"
    and "f (body (st0 ! r)) = (if d r \<in> d ` set ns0 then again aeq net e (body (st0 ! r)) else body (st0 ! r))"
  shows "merge_data aeq net e d st0 ns0 (dn @ [r]) st'"
  using assms by (auto simp: merge_data_def)

lemma mergeNew_inv:
  assumes ctx: "merge_ctx K valid bits aeq net st0 os0 ns0 pl0"
    and inv: "merge_inv bits aeq net st0 os0 ns0 pl0 m dn (old # os) (n # ns)"
    and lt: "ndist bits (st0 ! n) < ndist bits (st0 ! old)"
  shows "merge_inv bits aeq net st0 os0 ns0 pl0 (mergeNew m n) (dn @ [n]) (old # os) ns"
proof -
  define d where "d = (\<lambda>r. ndist bits (st0 ! r))"
  have S: "merge_shape m dn (old # os) (n # ns)" and R: "merge_order d os0 ns0 (m_currOld m) dn (old # os) (n # ns)"
    and D: "merge_data aeq net (pl_endpoint pl0) d st0 ns0 dn (pl_store (m_pl m))"
    and Q: "merge_queue st0 m dn (old # os)" and
    f: "pl_target (m_pl m) = pl_target pl0" "pl_endpoint (m_pl m) = pl_endpoint pl0"
    using inv by (simp_all add: merge_inv_def d_def)
  note RD = merge_orderD [OF R] and dis = merge_order_distinct [OF R]
  have disj: "set os0 \<inter> set ns0 = {}" using ctx by (simp add: merge_ctx_def)
  have n: "n \<in> set ns0" "is_queued (st0 ! n)" "n < length st0" using RD(8) ctx by (auto simp: merge_ctx_def)
  have cur: "dn = [] \<Longrightarrow> \<not> m_currOld m" using RD(1) lt by (auto simp: d_def)
  have R': "merge_order d os0 ns0 False (dn @ [n]) (old # os) ns"
    using merge_order_new [OF R _ disj] lt by (simp add: d_def)
  define pl1 where "pl1 = (if m_currOld m \<and> m_prev m \<noteq> None then linkPrev (m_pl m) (m_prev m) (Some n) else m_pl m)"
  have L: "linked (pl_store pl1) (pl_closest (m_pl m)) (dn @ n # ns)" "linked (pl_store pl1) (m_newHead m) (n # ns)"
    "linked (pl_store pl1) (m_oldHead m) (old # os)"
    using S cur dis linked_linkPrev [of "m_pl m" "pl_closest (m_pl m)" dn "old # os" "Some n" "n # ns"]
      linked_linkPrev_other [of "m_pl m" "m_newHead m" "n # ns" dn] linked_linkPrev_other [of "m_pl m" "m_oldHead m" "old # os" dn]
    by (cases "m_currOld m"; auto simp: merge_shape_def pl1_def)+
  have st: "pl_store (m_pl (mergeNew m n)) = pl_store pl1"
    by (auto simp: mergeNew_def Let_def pl1_def linkPrev_def split: option.splits)
  have cl: "pl_closest (m_pl (mergeNew m n)) = pl_closest (m_pl m)" "m_currOld (mergeNew m n) = False"
    "m_prev (mergeNew m n) = Some n" "m_newHead (mergeNew m n) = ni_next (pl_store pl1 ! n)"
    "m_oldHead (mergeNew m n) = m_oldHead m"
    "pl_target (m_pl (mergeNew m n)) = pl_target pl0" "pl_endpoint (m_pl (mergeNew m n)) = pl_endpoint pl0"
    using cur f S by (auto simp: mergeNew_def Let_def pl1_def merge_shape_def linkPrev_def split: option.splits if_splits)
  have "merge_shape (mergeNew m n) (dn @ [n]) (old # os) ns"
    using L by (simp add: merge_shape_def st cl)
  moreover have "merge_data aeq net (pl_endpoint pl0) d st0 ns0 (dn @ [n]) (pl_store pl1)"
    using D n dis by (intro merge_dataI [where f = id and r = n, OF D]) (auto simp: pl1_def again_def merge_data_def)
  moreover have "merge_queue st0 (mergeNew m n) (dn @ [n]) (old # os)"
    using Q n(2) first_queued_None [of st0 dn]
    by (auto simp: merge_queue_def mergeNew_def Let_def first_queued_append count_queued_append split: option.splits)
  ultimately show ?thesis using R' by (simp add: merge_inv_def cl st d_def)
qed


lemma mergeOld_inv:
  assumes ctx: "merge_ctx K valid bits aeq net st0 os0 ns0 pl0"
    and inv: "merge_inv bits aeq net st0 os0 ns0 pl0 m dn (old # os) (n # ns)"
    and r: "r = sgn (int (ndist bits (st0 ! old)) - int (ndist bits (st0 ! n)))" "r \<le> 0"
  shows "\<exists>m'. mergeOld K aeq net m old n r = Some m' \<and>
    merge_inv bits aeq net st0 os0 ns0 pl0 m' (dn @ [old]) os (if r = 0 then ns else n # ns)"
proof -
  define d where "d = (\<lambda>r. ndist bits (st0 ! r))"
  have S: "merge_shape m dn (old # os) (n # ns)" and R: "merge_order d os0 ns0 (m_currOld m) dn (old # os) (n # ns)"
    and D: "merge_data aeq net (pl_endpoint pl0) d st0 ns0 dn (pl_store (m_pl m))"
    and Q: "merge_queue st0 m dn (old # os)" and
    f: "pl_target (m_pl m) = pl_target pl0" "pl_endpoint (m_pl m) = pl_endpoint pl0"
    using inv by (simp_all add: merge_inv_def d_def)
  note RD = merge_orderD [OF R] and dis = merge_order_distinct [OF R]
  have r_iff: "r = 0 \<longleftrightarrow> d old = d n" "r \<noteq> 0 \<Longrightarrow> d old < d n" "d old \<le> d n"
    using r by (auto simp: d_def sgn_if split: if_splits)
  have c: "set os0 \<inter> set ns0 = {}" "net_ok net" "old < length st0" "old \<in> set os0" "n \<in> set ns0"
    and rv: "d old = d n \<Longrightarrow> \<not> revives aeq net (pl_endpoint pl0) (st0 ! old)"
    using ctx RD(7,8) by (auto simp: merge_ctx_def d_def)
  have cur: "dn = [] \<Longrightarrow> m_currOld m" using RD(1) r_iff(3) by auto
  have old: "old \<notin> set dn" "old \<notin> set os" using dis by auto
  have R': "merge_order d os0 ns0 True (dn @ [old]) os (if r = 0 then ns else n # ns)"
    using merge_order_old(1) [OF R _ c(1)] merge_order_both [OF R _ c(1)] r_iff by auto
  define pl1 where "pl1 = (if \<not> m_currOld m \<and> m_prev m \<noteq> None then linkPrev (m_pl m) (m_prev m) (Some old) else m_pl m)"
  have L: "linked (pl_store pl1) (pl_closest (m_pl m)) (dn @ old # os)" "linked (pl_store pl1) (m_newHead m) (n # ns)"
    "linked (pl_store pl1) (m_oldHead m) (old # os)"
    using S cur dis linked_linkPrev [of "m_pl m" "pl_closest (m_pl m)" dn "n # ns" "Some old" "old # os"]
      linked_linkPrev_other [of "m_pl m" "m_newHead m" "n # ns" dn] linked_linkPrev_other [of "m_pl m" "m_oldHead m" "old # os" dn]
    by (cases "m_currOld m"; auto simp: merge_shape_def pl1_def)+
  have p1: "pl_closest pl1 = pl_closest (m_pl m)" "pl_endpoint pl1 = pl_endpoint pl0" "pl_target pl1 = pl_target pl0"
    "pl_closestQueued pl1 = pl_closestQueued (m_pl m)" "pl_queuedCount pl1 = pl_queuedCount (m_pl m)"
    "length (pl_store pl1) = length st0" "\<And>x. body (pl_store pl1 ! x) = body (pl_store (m_pl m) ! x)"
    using f D by (auto simp: pl1_def merge_data_def)
  define g where "g = (if r = 0 then again aeq net (pl_endpoint pl0) else (\<lambda>n. n))"
  define st2 where "st2 = (pl_store pl1)[old := g (pl_store pl1 ! old)]"
  have gsel: "ni_next (g x) = ni_next x" "body (g x) = g (body x)" for x by (auto simp: g_def)
  have body_old: "body (pl_store pl1 ! old) = body (st0 ! old)"
    using D c(3) old(1) by (simp add: merge_data_def p1(7))
  have "\<not> revives aeq net (pl_endpoint pl0) (pl_store pl1 ! old)" if "r = 0"
    using rv r_iff that body_eqD [OF body_old] fresh_addr_body by (metis body_old revives_def)
  then have pl2: "(if r = 0 then rediscover K aeq net pl1 old else Some pl1) = Some (pl1\<lparr>pl_store := st2\<rparr>)"
    using c p1 by (auto simp: rediscover_law st2_def g_def)
  have L2: "linked st2 p xs = linked (pl_store pl1) p xs" for p xs
    using linked_cong [of st2 p xs "pl_store pl1"] linked_cong [of "pl_store pl1" p xs st2] c(3)
    by (auto simp: st2_def nth_list_update gsel p1(6))
  define m' where "m' = m\<lparr>m_pl := pl1\<lparr>pl_store := st2\<rparr>, m_reached := (m_reached m \<or> Some old = pl_closestQueued (m_pl m)),
      m_currOld := True, m_prev := Some old, m_oldHead := ni_next (st2 ! old),
      m_newHead := (if r = 0 then ni_next (pl_store pl1 ! n) else Some n)\<rparr>"
  have "m_currOld m \<or> m_prev m \<noteq> None" using cur S by (auto simp: merge_shape_def)
  then have m': "mergeOld K aeq net m old n r = Some m'"
    unfolding mergeOld_def Let_def pl1_def [symmetric] pl2 by (auto simp: m'_def)
  have nx: "linked st2 (ni_next (st2 ! old)) os" using L(3) unfolding L2 [symmetric] by simp
  have "merge_shape m' (dn @ [old]) os (if r = 0 then ns else n # ns)"
    using L nx by (auto simp: merge_shape_def m'_def L2 p1(1))
  moreover have "merge_data aeq net (pl_endpoint pl0) d st0 ns0 (dn @ [old]) st2"
  proof (rule merge_dataI [where f = g and r = old, OF D])
    show "g (body (st0 ! old)) = (if d old \<in> d ` set ns0 then again aeq net (pl_endpoint pl0) (body (st0 ! old)) else body (st0 ! old))"
      using r_iff c(5) merge_order_old(2) [OF R _ c(1)] by (auto simp: g_def)
  qed (use D c old p1 in \<open>auto simp: st2_def nth_list_update gsel merge_data_def\<close>)
  moreover have "merge_queue st0 m' (dn @ [old]) os"
  proof -
    have count: "pl_queuedCount (m_pl m) = count_queued st0 ((dn @ [old]) @ os)" using Q by (simp add: merge_queue_def)
    show ?thesis
    proof (cases "m_reached m")
      case True
      then obtain q where "first_queued st0 dn = Some q" "\<exists>x \<in> set dn. is_queued (st0 ! x)"
        using Q first_queued_None [of st0 dn] by (auto simp: merge_queue_def)
      with True Q count show ?thesis by (simp add: merge_queue_def m'_def p1 first_queued_append)
    next
      case False
      then have "first_queued st0 dn = None" "\<not> (\<exists>x \<in> set dn. is_queued (st0 ! x))"
        "pl_closestQueued (m_pl m) = first_queued st0 (old # os)"
        using Q cur first_queued_None [of st0 dn] by (auto simp: merge_queue_def)
      moreover have "first_queued st0 os \<noteq> Some old"
        using old(2) by (auto simp: first_queued_def find_Some_iff in_set_conv_nth)
      ultimately show ?thesis using False count by (auto simp: merge_queue_def m'_def p1 first_queued_append)
    qed
  qed
  ultimately show ?thesis using R' m' p1(2,3) by (auto simp: merge_inv_def m'_def d_def)
qed


context peer_list_env
begin

lemma merge_inv_dist:
  assumes "merge_inv bits aeq net st0 os0 ns0 pl0 m dn os ns" "r < length st0"
  shows "ni_distance (pl_store (m_pl m) ! r) = ni_distance (st0 ! r)"
proof -
  have "body (pl_store (m_pl m) ! r) = body (st0 ! r) \<or>
      body (pl_store (m_pl m) ! r) = again aeq net (pl_endpoint pl0) (body (st0 ! r))"
    using assms by (auto simp: merge_inv_def merge_data_def)
  then show ?thesis by (metis again_sel(1) body_sel(1))
qed

lemma mergeLoop_law:
  assumes "merge_ctx K valid bits aeq net st0 os0 ns0 pl0"
    and "merge_inv bits aeq net st0 os0 ns0 pl0 m dn (old # os) (n # ns)"
    and "r = sgn (int (ndist bits (st0 ! old)) - int (ndist bits (st0 ! n)))"
  shows "\<exists>m' dn' os' ns'. mergeLoop K aeq net m r = Some m' \<and> dn' \<noteq> [] \<and> (os' = [] \<or> ns' = []) \<and>
    merge_inv bits aeq net st0 os0 ns0 pl0 m' dn' os' ns'"
  using assms(2,3)
proof (induction "length os + length ns" arbitrary: m dn old os n ns r rule: less_induct)
  case less
  have heads: "m_oldHead m = Some old" "m_newHead m = Some n"
    using less.prems(1) by (auto simp: merge_inv_def merge_shape_def)
  have "\<exists>m1 dn1 os1 ns1. (if r > 0 then Some (mergeNew m n) else mergeOld K aeq net m old n r) = Some m1 \<and>
      merge_inv bits aeq net st0 os0 ns0 pl0 m1 dn1 os1 ns1 \<and> dn1 \<noteq> [] \<and>
      length os1 + length ns1 < Suc (Suc (length os + length ns))"
  proof (cases "r > 0")
    case True
    then have "merge_inv bits aeq net st0 os0 ns0 pl0 (mergeNew m n) (dn @ [n]) (old # os) ns"
      using less.prems by (intro mergeNew_inv [OF assms(1)]) (auto simp: sgn_if split: if_splits)
    with True show ?thesis by (intro exI [of _ "mergeNew m n"] exI [of _ "dn @ [n]"] exI [of _ "old # os"] exI [of _ ns]) simp
  next
    case False
    then obtain m' where "mergeOld K aeq net m old n r = Some m'"
      "merge_inv bits aeq net st0 os0 ns0 pl0 m' (dn @ [old]) os (if r = 0 then ns else n # ns)"
      using mergeOld_inv [OF assms(1) less.prems] by auto
    with False show ?thesis
      by (intro exI [of _ m'] exI [of _ "dn @ [old]"] exI [of _ os] exI [of _ "if r = 0 then ns else n # ns"]) auto
  qed
  then obtain m1 dn1 os1 ns1 where
    m1: "(if r > 0 then Some (mergeNew m n) else mergeOld K aeq net m old n r) = Some m1"
      "merge_inv bits aeq net st0 os0 ns0 pl0 m1 dn1 os1 ns1" "dn1 \<noteq> []"
      "length os1 + length ns1 < Suc (Suc (length os + length ns))" by blast
  have sh: "linked (pl_store (m_pl m1)) (m_oldHead m1) os1" "linked (pl_store (m_pl m1)) (m_newHead m1) ns1"
    using m1(2) by (auto simp: merge_inv_def merge_shape_def)
  show ?case
  proof (cases "os1 = [] \<or> ns1 = []")
    case True
    then have "m_oldHead m1 = None \<or> m_newHead m1 = None" using sh by auto
    then have "mergeLoop K aeq net m r = Some m1"
      by (subst mergeLoop.simps) (auto simp: heads m1(1) split: option.splits)
    with True m1(2,3) show ?thesis by blast
  next
    case False
    then obtain o1 os2 n1 ns2 where on: "os1 = o1 # os2" "ns1 = n1 # ns2" by (meson neq_Nil_conv)
    then have h1: "m_oldHead m1 = Some o1" "m_newHead m1 = Some n1" using sh by auto
    have mem: "o1 \<in> set os0" "n1 \<in> set ns0" using m1(2) on by (auto simp: merge_inv_def merge_order_def)
    define r1 where "r1 = sgn (int (ndist bits (st0 ! o1)) - int (ndist bits (st0 ! n1)))"
    have len: "o1 < length st0" "n1 < length st0" using assms(1) mem by (auto simp: merge_ctx_def)
    have ok: "node_ok K valid (pl_target pl0) (st0 ! o1)" "node_ok K valid (pl_target pl0) (st0 ! n1)" "valid (pl_target pl0)"
      using assms(1) mem by (auto simp: merge_ctx_def)
    have "Compare K (ni_distance (pl_store (m_pl m1) ! o1)) (ni_distance (pl_store (m_pl m1) ! n1)) = Some r1"
      unfolding merge_inv_dist [OF m1(2) len(1)] merge_inv_dist [OF m1(2) len(2)] r1_def
      using node_ok_valid ok by (intro ndist_compare) auto
    then have "mergeLoop K aeq net m r = mergeLoop K aeq net m1 r1"
      by (subst mergeLoop.simps) (simp add: heads m1(1) h1)
    moreover have "\<exists>m' dn' os' ns'. mergeLoop K aeq net m1 r1 = Some m' \<and> dn' \<noteq> [] \<and> (os' = [] \<or> ns' = []) \<and>
        merge_inv bits aeq net st0 os0 ns0 pl0 m' dn' os' ns'"
      using m1(2,4) on r1_def by (intro less.hyps [of os2 ns2]) auto
    ultimately show ?thesis by simp
  qed
qed

lemma count_queued_all: "\<forall>r \<in> set rs. is_queued (st ! r) \<Longrightarrow> count_queued st rs = int (length rs)"
  by (simp add: count_queued_def filter_id_conv)

lemma first_queued_all: "\<forall>r \<in> set rs. is_queued (st ! r) \<Longrightarrow> linked st' p rs \<Longrightarrow> p = first_queued st rs"
  by (cases rs) auto

text \<open>The end of the merge appends what is left.\<close>

lemma mergeRest_law:
  assumes ctx: "merge_ctx K valid bits aeq net st0 os0 ns0 pl0"
    and inv: "merge_inv bits aeq net st0 os0 ns0 pl0 m dn os ns" and dn: "dn \<noteq> []" and "os = [] \<or> ns = []"
  shows "\<exists>pl'. mergeRest m = Some pl' \<and> linked (pl_store pl') (pl_closest pl') (dn @ os @ ns) \<and>
    length (pl_store pl') = length st0 \<and> (\<forall>x. body (pl_store pl' ! x) = body (pl_store (m_pl m) ! x)) \<and>
    pl_closestQueued pl' = first_queued st0 (dn @ os @ ns) \<and> pl_queuedCount pl' = count_queued st0 (dn @ os @ ns) \<and>
    pl_target pl' = pl_target pl0 \<and> pl_endpoint pl' = pl_endpoint pl0"
proof -
  have S: "merge_shape m dn os ns" and Q: "merge_queue st0 m dn os"
    and R: "merge_order (\<lambda>r. ndist bits (st0 ! r)) os0 ns0 (m_currOld m) dn os ns"
    and f: "pl_target (m_pl m) = pl_target pl0" "pl_endpoint (m_pl m) = pl_endpoint pl0"
    and len: "length (pl_store (m_pl m)) = length st0"
    using inv by (simp_all add: merge_inv_def merge_data_def)
  note dis = merge_order_distinct [OF R]
  have prev: "m_prev m = Some (last dn)" using S dn by (simp add: merge_shape_def)
  have q: "\<forall>r \<in> set ns. is_queued (st0 ! r)" using merge_orderD(8) [OF R] ctx by (auto simp: merge_ctx_def)
  have fq: "pl_closestQueued (m_pl m) = first_queued st0 (dn @ os)" if "m_reached m \<or> os \<noteq> []"
    using Q dn that first_queued_None [of st0 dn] by (auto simp: merge_queue_def first_queued_append split: option.splits)
  show ?thesis
  proof (cases os)
    case Nil
    let ?pl = "linkPrev (m_pl m) (Some (last dn)) (m_newHead m)"
    have L: "linked (pl_store (m_pl m)) (pl_closest (m_pl m)) (dn @ (if m_currOld m then os else ns))"
      "linked (pl_store (m_pl m)) (m_newHead m) ns" and h: "m_oldHead m = None"
      using S Nil by (auto simp: merge_shape_def)
    have L': "linked (pl_store ?pl) (pl_closest (m_pl m)) (dn @ ns)" "linked (pl_store ?pl) (m_newHead m) ns"
      using linked_linkPrev [OF L dn dis(1,5)] linked_linkPrev_other [OF L(2) dn dis(5)] by auto
    have nq: "m_newHead m = first_queued st0 ns" by (rule first_queued_all [OF q L(2)])
    have "\<not> m_reached m \<Longrightarrow> first_queued st0 dn = None"
      using Q by (auto simp: merge_queue_def first_queued_None)
    then have cq: "first_queued st0 (dn @ ns) = (if m_reached m then pl_closestQueued (m_pl m) else m_newHead m)"
      using nq fq Nil Q first_queued_None [of st0 dn] by (auto simp: first_queued_append merge_queue_def split: option.splits)
    have "mergeRest m = Some (?pl\<lparr>pl_closestQueued := first_queued st0 (dn @ ns),
        pl_queuedCount := count_queued st0 dn + int (length ns)\<rparr>)"
      using L'(2) Q Nil cq by (simp add: mergeRest_def h prev Let_def linkPrev_def countLoop_law merge_queue_def)
    then show ?thesis using Nil L' f len by (auto simp: count_queued_append count_queued_all [OF q])
  next
    case (Cons a as)
    with assms(4) have ns: "ns = []" by simp
    have L: "linked (pl_store (m_pl m)) (pl_closest (m_pl m)) (dn @ (if m_currOld m then os else ns))"
      "linked (pl_store (m_pl m)) (m_oldHead m) os" and h: "m_oldHead m = Some a"
      using S Cons by (auto simp: merge_shape_def)
    have "linked (pl_store (linkPrev (m_pl m) (Some (last dn)) (Some a))) (pl_closest (m_pl m)) (dn @ os)"
      using linked_linkPrev [OF L dn dis(1,4)] by (simp add: h)
    then show ?thesis using Q Cons ns f len fq by (auto simp: mergeRest_def h prev merge_queue_def)
  qed
qed

end


lemma merge_order_result:
  assumes R: "merge_order d os0 ns0 c dn os ns" and e: "os = [] \<or> ns = []" and disj: "set os0 \<inter> set ns0 = {}"
  shows "sorted_wrt (<) (map d (dn @ os @ ns))" "set (dn @ os @ ns) = set os0 \<union> {n \<in> set ns0. d n \<notin> d ` set os0}"
    "x \<in> set os \<Longrightarrow> d x \<notin> d ` set ns0"
proof -
  note D = merge_orderD [OF R]
  show "sorted_wrt (<) (map d (dn @ os @ ns))" using R e by (auto simp: merge_order_def)
  have ns: "d n \<notin> d ` set os0" if "n \<in> set ns" for n
  proof
    assume "d n \<in> d ` set os0"
    then obtain y where y: "d y = d n" "y \<in> set os0" by auto
    have "y \<in> set dn" unfolding D(9) using y(2) that e by auto
    with D(6) [OF this that] y(1) show False by simp
  qed
  then show "set (dn @ os @ ns) = set os0 \<union> {n \<in> set ns0. d n \<notin> d ` set os0}"
    unfolding set_append D(9) using D(7,8) by auto
  show "d x \<notin> d ` set ns0" if x: "x \<in> set os"
  proof
    assume "d x \<in> d ` set ns0"
    then obtain y where y: "d y = d x" "y \<in> set ns0" by auto
    with x e have "y \<in> set ns0 - set ns" by auto
    with D(10) [OF this x] y(1) show False by simp
  qed
qed

context peer_list_env
begin

lemma merge_law:
  assumes ctx: "merge_ctx K valid bits aeq net st0 os0 ns0 pl"
    and pl: "linked st0 (pl_closest pl) os0" "pl_store pl = st0" "pl_closestQueued pl = first_queued st0 os0"
      "pl_queuedCount pl = count_queued st0 os0" "os0 = old # os" "sorted_wrt (<) (map (nd st0) os0)"
    and new: "linked st0 (Some n) ns0" "ns0 = n # ns" "sorted_wrt (<) (map (nd st0) ns0)"
    and r: "r = sgn (int (nd st0 old) - int (nd st0 n))"
  shows "\<exists>pl' rs. (do {
       m \<leftarrow> mergeLoop K aeq net \<lparr>m_pl = (if r > 0 then pl\<lparr>pl_closest := Some n, pl_closestQueued := Some n\<rparr> else pl),
         m_prev = None, m_currOld = (\<not> r > 0), m_reached = False, m_oldHead = Some old, m_newHead = Some n\<rparr> r;
       mergeRest m }) = Some pl' \<and> peers_ok K valid bits pl' rs \<and>
     set rs = set os0 \<union> {n \<in> set ns0. nd st0 n \<notin> nd st0 ` set os0} \<and>
     (\<forall>x \<in> set rs. body (pl_store pl' ! x) =
       (if nd st0 x \<in> nd st0 ` set ns0 then again aeq net (pl_endpoint pl) (body (st0 ! x)) else body (st0 ! x))) \<and>
     pl_target pl' = pl_target pl \<and> pl_endpoint pl' = pl_endpoint pl"
proof -
  let ?m = "\<lparr>m_pl = (if r > 0 then pl\<lparr>pl_closest := Some n, pl_closestQueued := Some n\<rparr> else pl),
         m_prev = None, m_currOld = (\<not> r > 0), m_reached = False, m_oldHead = Some old, m_newHead = Some n\<rparr>"
  have "merge_inv bits aeq net st0 os0 ns0 pl ?m [] (old # os) (n # ns)"
    using pl new r unfolding merge_inv_def merge_shape_def merge_order_def merge_data_def merge_queue_def
    by (auto simp: sgn_if split: if_splits)
  then obtain m dn os' ns' where m: "mergeLoop K aeq net ?m r = Some m" "dn \<noteq> []" "os' = [] \<or> ns' = []"
    "merge_inv bits aeq net st0 os0 ns0 pl m dn os' ns'"
    using mergeLoop_law [OF ctx _ r] by blast
  then obtain pl' where pl': "mergeRest m = Some pl'" "linked (pl_store pl') (pl_closest pl') (dn @ os' @ ns')"
    "length (pl_store pl') = length st0" "\<And>x. body (pl_store pl' ! x) = body (pl_store (m_pl m) ! x)"
    "pl_closestQueued pl' = first_queued st0 (dn @ os' @ ns')" "pl_queuedCount pl' = count_queued st0 (dn @ os' @ ns')"
    "pl_target pl' = pl_target pl" "pl_endpoint pl' = pl_endpoint pl"
    using mergeRest_law [OF ctx m(4,2,3)] by blast
  let ?rs = "dn @ os' @ ns'"
  have disj: "set os0 \<inter> set ns0 = {}" using ctx by (simp add: merge_ctx_def)
  have R: "merge_order (\<lambda>r. nd st0 r) os0 ns0 (m_currOld m) dn os' ns'"
    and D: "merge_data aeq net (pl_endpoint pl) (\<lambda>r. nd st0 r) st0 ns0 dn (pl_store (m_pl m))"
    using m(4) by (auto simp: merge_inv_def)
  note res = merge_order_result [OF R m(3) disj] and dis = merge_order_distinct [OF R]
  have bnd: "x < length st0" if "x \<in> set ?rs" for x using linked_bound [OF pl'(2)] pl'(3) that by auto
  have b: "body (pl_store pl' ! x) =
      (if nd st0 x \<in> nd st0 ` set ns0 then again aeq net (pl_endpoint pl) (body (st0 ! x)) else body (st0 ! x))"
    if x: "x \<in> set ?rs" for x
  proof (cases "x \<in> set dn")
    case True
    then show ?thesis using D bnd [OF x] pl'(4) by (simp add: merge_data_def)
  next
    case False
    moreover have "again aeq net (pl_endpoint pl) (body (st0 ! x)) = body (st0 ! x)" if "x \<in> set ns'"
      using that merge_orderD(8) [OF R] ctx by (auto simp: merge_ctx_def again_def)
    ultimately show ?thesis using D bnd [OF x] pl'(4) res(3) x by (auto simp: merge_data_def)
  qed
  have same: "ni_distance (pl_store pl' ! x) = ni_distance (st0 ! x)" "ni_status (pl_store pl' ! x) = ni_status (st0 ! x)"
    "ni_id (pl_store pl' ! x) = ni_id (st0 ! x)" if "x \<in> set ?rs" for x
    using b [OF that] by (metis again_sel body_sel)+
  have fc: "first_queued (pl_store pl') ?rs = first_queued st0 ?rs" "count_queued (pl_store pl') ?rs = count_queued st0 ?rs"
    by (rule first_queued_cong count_queued_cong, erule same(2))+
  have "valid (pl_target pl)" using ctx by (simp add: merge_ctx_def)
  then have "peers_ok K valid bits pl' ?rs"
    unfolding peers_ok_def
  proof (intro conjI ballI)
    show "sorted_wrt (<) (map (nd (pl_store pl')) ?rs)"
      using res(1) same(1) by (simp add: ndist_def cong: map_cong)
    show "node_ok K valid (pl_target pl') (pl_store pl' ! x)" if "x \<in> set ?rs" for x
      using ctx res(2) that pl'(7) same [OF that] by (auto simp: merge_ctx_def node_ok_def peer_key_def)
  qed (simp_all only: pl' fc)
  moreover have "(do { m \<leftarrow> mergeLoop K aeq net ?m r; mergeRest m }) = Some pl'" using m(1) pl'(1) by simp
  ultimately show ?thesis using b by (intro exI [of _ pl'] exI [of _ ?rs] conjI ballI res(2) pl'(7,8)) assumption+
qed

end


text \<open>The effect of \<open>addToPeerlist\<close> on the peers.\<close>

definition added_peers ::
  "'k Key \<Rightarrow> ('a \<Rightarrow> 'a \<Rightarrow> bool) \<Rightarrow> ('k, 'a) network \<Rightarrow> ('k, 'a) PeerList \<Rightarrow> 'k NodeID option list \<Rightarrow>
   ('k, 'a) nodeInfo list \<Rightarrow> bool" where
  "added_peers K aeq net pl ids ps \<longleftrightarrow>
     peer_key ` set ps = peer_key ` set (peers pl) \<union> nodeKey ` usable ids \<and>
     (\<forall>p \<in> set ps.
        if peer_key p \<in> peer_key ` set (peers pl)
        then \<exists>q \<in> set (peers pl). p = (if peer_key q \<in> nodeKey ` usable ids then again aeq net (pl_endpoint pl) q else q)
        else p \<in> new_peer K (pl_target pl) ` usable ids)"

context peer_list_env
begin

lemma set_peers: "peers_ok K valid bits pl rs \<Longrightarrow> set (peers pl) = (\<lambda>r. body (pl_store pl ! r)) ` set rs"
  by (simp add: peers_def peers_ok_refs)

lemma body_key [simp]: "peer_key (body n) = peer_key n"
  by (simp add: peer_key_def)

lemma again_new [simp]: "again aeq net e (new_peer K t i) = new_peer K t i"
  by (simp add: again_def)

lemma again_key [simp]: "peer_key (again aeq net e n) = peer_key n"
  by (simp add: peer_key_def)

lemma added_peersI:
  fixes pl :: "('k, 'a) PeerList"
  assumes ok: "peers_ok K valid bits pl os" "peers_ok K valid bits pl' rs"
    and old: "\<And>x. x \<in> set os \<Longrightarrow> st0 ! x = pl_store pl ! x"
    and new: "\<And>r. r \<in> set ns \<Longrightarrow> body (st0 ! r) \<in> new_peer K (pl_target pl) ` usable ids"
      "\<And>i. i \<in> usable ids \<Longrightarrow> \<exists>r \<in> set ns. peer_key (st0 ! r) = nodeKey i"
    and ids: "\<And>i. Some i \<in> set ids \<Longrightarrow> valid (nodeKey i)"
    and rs: "set rs = set os \<union> {n \<in> set ns. nd st0 n \<notin> nd st0 ` set os}"
    and b: "\<And>x. x \<in> set rs \<Longrightarrow> body (pl_store pl' ! x) =
      (if nd st0 x \<in> nd st0 ` set ns then again aeq net (pl_endpoint pl) (body (st0 ! x)) else body (st0 ! x))"
  shows "added_peers K aeq net pl ids (peers pl')"
proof -
  let ?t = "pl_target pl"
  have t: "valid ?t" using ok(1) by (simp add: peers_ok_def)
  have nok: "node_ok K valid ?t (st0 ! r)" if r: "r \<in> set os \<union> set ns" for r
  proof (cases "r \<in> set os")
    case True
    then show ?thesis using ok(1) old [OF True] by (simp add: peers_ok_def)
  next
    case False
    with r new(1) obtain i where "i \<in> usable ids" "body (st0 ! r) = body (new_peer K ?t i :: ('k, 'a) nodeInfo)" by auto
    then show ?thesis using ids node_ok_body [of "st0 ! r" "new_peer K ?t i" ?t] by (auto simp: node_ok_def usable_def)
  qed
  have inj: "nd st0 x = nd st0 y \<longleftrightarrow> peer_key (st0 ! x) = peer_key (st0 ! y)"
    if "x \<in> set os \<union> set ns" "y \<in> set os \<union> set ns" for x y
    using that nok t by (intro node_ok_inj)
  have knew: "(\<lambda>r. peer_key (st0 ! r)) ` set ns = nodeKey ` usable ids"
  proof -
    have "peer_key (st0 ! r) \<in> nodeKey ` usable ids" if "r \<in> set ns" for r
    proof -
      from new(1) [OF that] obtain i where "i \<in> usable ids" "body (st0 ! r) = body (new_peer K ?t i :: ('k, 'a) nodeInfo)" by auto
      then show ?thesis by (metis body_key imageI new_peer_sel(5))
    qed
    with new(2) show ?thesis by (auto simp: image_iff) metis
  qed
  have kold: "peer_key ` set (peers pl) = (\<lambda>r. peer_key (st0 ! r)) ` set os"
    using old by (auto simp: set_peers [OF ok(1)] image_image intro!: image_cong)
  have sub: "set rs \<subseteq> set os \<union> set ns" using rs by auto
  have dup: "nd st0 x \<in> nd st0 ` set ns \<longleftrightarrow> peer_key (st0 ! x) \<in> nodeKey ` usable ids"
    and isold: "nd st0 x \<in> nd st0 ` set os \<longleftrightarrow> peer_key (st0 ! x) \<in> peer_key ` set (peers pl)"
    if "x \<in> set os \<union> set ns" for x
    using inj [OF that] unfolding knew [symmetric] kold by (auto simp: image_iff)
  have key: "peer_key (pl_store pl' ! x) = peer_key (st0 ! x)" if "x \<in> set rs" for x
    using b [OF that] by (metis again_key body_key)
  show ?thesis
    unfolding added_peers_def
  proof (intro conjI ballI)
    have "peer_key ` set (peers pl') = (\<lambda>r. peer_key (st0 ! r)) ` set rs"
      using key by (auto simp: set_peers [OF ok(2)] image_image intro!: image_cong)
    also have "\<dots> = (\<lambda>r. peer_key (st0 ! r)) ` set os \<union> (\<lambda>r. peer_key (st0 ! r)) ` set ns"
    proof -
      have "peer_key (st0 ! n) \<in> (\<lambda>r. peer_key (st0 ! r)) ` set os" if "n \<in> set ns" "nd st0 n \<in> nd st0 ` set os" for n
        using that isold [of n] by (simp add: kold)
      then show ?thesis unfolding rs by auto
    qed
    finally show "peer_key ` set (peers pl') = peer_key ` set (peers pl) \<union> nodeKey ` usable ids"
      by (simp add: kold knew)
  next
    fix p assume "p \<in> set (peers pl')"
    then obtain x where x: "x \<in> set rs" "p = body (pl_store pl' ! x)" by (auto simp: set_peers [OF ok(2)])
    then have xs: "x \<in> set os \<union> set ns" using sub by blast
    have pk: "peer_key p = peer_key (st0 ! x)" using key [OF x(1)] x(2) by simp
    show "if peer_key p \<in> peer_key ` set (peers pl)
        then \<exists>q \<in> set (peers pl). p = (if peer_key q \<in> nodeKey ` usable ids then again aeq net (pl_endpoint pl) q else q)
        else p \<in> new_peer K ?t ` usable ids"
    proof (cases "x \<in> set os")
      case True
      then have mem: "body (st0 ! x) \<in> set (peers pl)" using old [OF True] by (auto simp: set_peers [OF ok(1)])
      then have kp: "peer_key p \<in> peer_key ` set (peers pl)" using pk by (metis body_key imageI)
      have eq: "p = (if peer_key (body (st0 ! x)) \<in> nodeKey ` usable ids
          then again aeq net (pl_endpoint pl) (body (st0 ! x)) else body (st0 ! x))"
        using b [OF x(1)] x(2) dup [OF xs] by simp
      show ?thesis unfolding if_P [OF kp] using eq mem by blast
    next
      case False
      with x(1) rs have n: "x \<in> set ns" "nd st0 x \<notin> nd st0 ` set os" by auto
      then have "peer_key p \<notin> peer_key ` set (peers pl)" using isold [OF xs] pk by simp
      moreover have "again aeq net (pl_endpoint pl) (body (st0 ! x)) = body (st0 ! x)"
        using new(1) [OF n(1)] by auto
      ultimately show ?thesis using b [OF x(1)] x(2) new(1) [OF n(1)] by auto
    qed
  qed
qed

end


context peer_list_env
begin

lemma peers_ok_store:
  assumes "peers_ok K valid bits pl rs" "length (pl_store pl) \<le> length st" "\<And>x. x < length (pl_store pl) \<Longrightarrow> st ! x = pl_store pl ! x"
  shows "peers_ok K valid bits (pl\<lparr>pl_store := st\<rparr>) rs" "peers (pl\<lparr>pl_store := st\<rparr>) = peers pl"
proof -
  have l: "linked (pl_store pl) (pl_closest pl) rs" using assms(1) by (simp add: peers_ok_def)
  have eq: "st ! x = pl_store pl ! x" if "x \<in> set rs" for x using linked_bound [OF l] assms(3) that by auto
  have "linked st (pl_closest pl) rs" using l assms(2) eq by (intro linked_cong [OF l]) auto
  with assms(1) eq show ok: "peers_ok K valid bits (pl\<lparr>pl_store := st\<rparr>) rs"
    by (auto simp: peers_ok_def first_queued_def count_queued_def cong: map_cong filter_cong find_cong)
  show "peers (pl\<lparr>pl_store := st\<rparr>) = peers pl"
    using eq by (simp add: peers_def peers_ok_refs [OF ok] peers_ok_refs [OF assms(1)])
qed

lemma node_ok_new: "i \<in> usable ids \<Longrightarrow> (\<And>i. Some i \<in> set ids \<Longrightarrow> valid (nodeKey i)) \<Longrightarrow> body n = new_peer K t i \<Longrightarrow>
  node_ok K valid t n"
  using node_ok_body [of n "new_peer K t i" t] by (auto simp: node_ok_def usable_def)

lemma addToPeerlist_law:
  fixes pl :: "('k, 'a) PeerList"
  assumes inv: "pl_inv K valid bits pl" and net: "net_ok net"
    and ids: "\<And>i. Some i \<in> set ids \<Longrightarrow> valid (nodeKey i)"
    and rv: "\<And>p. p \<in> set (peers pl) \<Longrightarrow> peer_key p \<in> nodeKey ` usable ids \<Longrightarrow> \<not> revives aeq net (pl_endpoint pl) p"
  shows "\<exists>pl'. addToPeerlist K aeq srt net pl ids = Some pl' \<and> pl_inv K valid bits pl' \<and>
    added_peers K aeq net pl ids (peers pl') \<and> pl_target pl' = pl_target pl \<and> pl_endpoint pl' = pl_endpoint pl"
proof -
  define t where "t = pl_target pl"
  define os where "os = peer_refs pl"
  have ok: "peers_ok K valid bits pl os" using inv by (simp add: pl_inv_def os_def)
  have t: "valid t" using ok by (simp add: peers_ok_def t_def)
  obtain st p ns where s: "sliceToPeerInfos K srt (pl_store pl) t ids = Some (st, p)" "linked st p ns"
    "length (pl_store pl) \<le> length st" "set ns \<subseteq> {length (pl_store pl)..<length st}"
    "\<And>x. x < length (pl_store pl) \<Longrightarrow> st ! x = pl_store pl ! x" "sorted_wrt (<) (map (nd st) ns)"
    "\<And>r. r \<in> set ns \<Longrightarrow> body (st ! r) \<in> new_peer K t ` usable ids"
    "\<And>i. i \<in> usable ids \<Longrightarrow> \<exists>r \<in> set ns. peer_key (st ! r) = nodeKey i"
    using sliceToPeerInfos_law [OF t ids, of ids "pl_store pl"] by blast
  define pl1 where "pl1 = pl\<lparr>pl_store := st\<rparr>"
  have ok1: "peers_ok K valid bits pl1 os" and peers1: "peers pl1 = peers pl"
    using peers_ok_store [OF ok s(3,5)] by (simp_all add: pl1_def)
  have bnd: "set os \<subseteq> {..<length (pl_store pl)}" using ok linked_bound by (auto simp: peers_ok_def)
  have old: "x \<in> set os \<Longrightarrow> st ! x = pl_store pl ! x" for x using bnd s(5) by auto
  have newok: "node_ok K valid t (st ! r)" "is_queued (st ! r)" if "r \<in> set ns" for r
  proof -
    from s(7) [OF that] obtain i where i: "i \<in> usable ids" "body (st ! r) = new_peer K t i" by auto
    then show "node_ok K valid t (st ! r)" using ids by (intro node_ok_new) auto
    from i(2) show "is_queued (st ! r)" using body_eqD(2) [of "st ! r" "new_peer K t i"] by simp
  qed
  have fin: "\<exists>pl'. addToPeerlist K aeq srt net pl ids = Some pl' \<and> pl_inv K valid bits pl' \<and>
      added_peers K aeq net pl ids (peers pl') \<and> pl_target pl' = pl_target pl \<and> pl_endpoint pl' = pl_endpoint pl"
    if "addToPeerlist K aeq srt net pl ids = Some pl'" "peers_ok K valid bits pl' rs"
      "set rs = set os \<union> {n \<in> set ns. nd st n \<notin> nd st ` set os}"
      "\<And>x. x \<in> set rs \<Longrightarrow> body (pl_store pl' ! x) =
        (if nd st x \<in> nd st ` set ns then again aeq net (pl_endpoint pl) (body (st ! x)) else body (st ! x))"
      "pl_target pl' = pl_target pl" "pl_endpoint pl' = pl_endpoint pl" for pl' rs
    using that added_peersI [OF ok that(2) old s(7) [unfolded t_def] s(8) ids that(3,4)] pl_invI [OF that(2)] by blast
  show ?thesis
  proof (cases ns)
    case Nil
    then have "addToPeerlist K aeq srt net pl ids = Some pl1"
      using s(1,2) by (simp add: addToPeerlist_def t_def pl1_def)
    then show ?thesis by (rule fin [OF _ ok1]) (use Nil in \<open>auto simp: pl1_def\<close>)
  next
    case (Cons n ns')
    have p: "p = Some n" using s(2) Cons by simp
    show ?thesis
    proof (cases os)
      case Nil
      then have cl: "pl_closest pl = None" using ok by (simp add: peers_ok_def)
      define pl2 where "pl2 = pl1\<lparr>pl_closest := Some n, pl_closestQueued := Some n, pl_queuedCount := int (length ns)\<rparr>"
      have "addToPeerlist K aeq srt net pl ids = Some pl2"
        using s(1,2) ok cl Nil p countLoop_law [OF s(2)]
        by (simp add: addToPeerlist_def t_def pl1_def pl2_def peers_ok_def)
      moreover have "peers_ok K valid bits pl2 ns"
        using s(2,6) newok t p Cons count_queued_all [of ns st] first_queued_all [of ns st, OF _ s(2)]
        by (auto simp: peers_ok_def pl2_def pl1_def t_def)
      ultimately show ?thesis
        by (rule fin) (use Nil newok(2) in \<open>auto simp: pl2_def pl1_def again_def\<close>)
    next
      case (Cons old' os')
      have o1: "linked st (pl_closest pl1) os" "pl_store pl1 = st" "pl_closestQueued pl1 = first_queued st os"
        "pl_queuedCount pl1 = count_queued st os" "sorted_wrt (<) (map (nd st) os)" "pl_closest pl = Some old'"
        using ok1 Cons by (auto simp: peers_ok_def pl1_def)
      have oldok: "node_ok K valid t (st ! x)" if "x \<in> set os" for x
        using ok1 that by (simp add: peers_ok_def pl1_def t_def)
      have disj: "set os \<inter> set ns = {}" using bnd s(4) by fastforce
      have ctx: "merge_ctx K valid bits aeq net st os ns pl1"
        unfolding merge_ctx_def
      proof (intro conjI ballI impI)
        fix x n assume x: "x \<in> set os" and n: "n \<in> set ns" "nd st x = nd st n"
        then have "peer_key (st ! x) = peer_key (st ! n)" using node_ok_inj [OF oldok newok(1) t] by blast
        moreover obtain i where i: "i \<in> usable ids" "body (st ! n) = new_peer K t i" using s(7) [OF n(1)] by auto
        moreover from i(2) have "peer_key (st ! n) = nodeKey i" using body_eqD(4) [of "st ! n" "new_peer K t i"] by simp
        moreover have "body (st ! x) \<in> set (peers pl)" using old [OF x] x by (auto simp: set_peers [OF ok])
        ultimately have "\<not> revives aeq net (pl_endpoint pl) (body (st ! x))" using rv [of "body (st ! x)"] by simp
        then show "\<not> revives aeq net (pl_endpoint pl1) (st ! x)" by (simp add: revives_def pl1_def)
      qed (use t net bnd s(3,4) newok oldok disj in \<open>auto simp: pl1_def t_def\<close>)
      define r where "r = sgn (int (nd st old') - int (nd st n))"
      have r: "Compare K (ni_distance (st ! old')) (ni_distance (st ! n)) = Some r"
        unfolding r_def using node_ok_valid oldok newok(1) t Cons \<open>ns = n # ns'\<close> by (intro ndist_compare) auto
      obtain pl' rs where pl': "(do {
         m \<leftarrow> mergeLoop K aeq net \<lparr>m_pl = (if r > 0 then pl1\<lparr>pl_closest := Some n, pl_closestQueued := Some n\<rparr> else pl1),
           m_prev = None, m_currOld = (\<not> r > 0), m_reached = False, m_oldHead = Some old', m_newHead = Some n\<rparr> r;
         mergeRest m }) = Some pl'" "peers_ok K valid bits pl' rs"
         "set rs = set os \<union> {n \<in> set ns. nd st n \<notin> nd st ` set os}"
         "\<forall>x \<in> set rs. body (pl_store pl' ! x) =
           (if nd st x \<in> nd st ` set ns then again aeq net (pl_endpoint pl1) (body (st ! x)) else body (st ! x))"
         "pl_target pl' = pl_target pl1" "pl_endpoint pl' = pl_endpoint pl1"
        using merge_law [OF ctx o1(1-4) Cons o1(5) s(2) [unfolded p] \<open>ns = n # ns'\<close> s(6) r_def]
        by (elim exE conjE) (rule that)
      show ?thesis
      proof (rule fin [OF _ pl'(2,3)])
        show "addToPeerlist K aeq srt net pl ids = Some pl'"
          using s(1) pl'(1) r p o1(6) unfolding pl1_def by (simp add: addToPeerlist_def t_def Let_def)
      qed (use pl' in \<open>auto simp: pl1_def\<close>)
    qed
  qed
qed

end

end
