(* ===== verification/Peer_Ops.thy ===== *)
theory Peer_Ops
  imports Peer_Merge
begin

text \<open>
  The other operations of the peer list (\<open>popClosestQueued\<close>, \<open>queriedPeer\<close>, \<open>unreachablePeer\<close>,
  \<open>enqueueUnreachablePeer\<close>) as operations on the sequence of its peers, and the properties of the
  peer list.
\<close>

section \<open>The other operations\<close>

text \<open>The first peer with a given identifier string changes.\<close>

fun upd_first :: "string \<Rightarrow> (('k, 'a) nodeInfo \<Rightarrow> ('k, 'a) nodeInfo) \<Rightarrow> ('k, 'a) nodeInfo list \<Rightarrow> ('k, 'a) nodeInfo list" where
  "upd_first s f [] = []"
| "upd_first s f (p # ps) = (if nodeString (ni_id p) = s then f p # ps else p # upd_first s f ps)"

text \<open>The queued peer that is closest to the target is asked next; its addresses are those that the
  endpoint returns now.\<close>

fun upd_queued :: "(('k, 'a) nodeInfo \<Rightarrow> ('k, 'a) nodeInfo) \<Rightarrow> ('k, 'a) nodeInfo list \<Rightarrow> ('k, 'a) nodeInfo list" where
  "upd_queued f [] = []"
| "upd_queued f (p # ps) = (if is_queued p then f p # ps else p # upd_queued f ps)"

definition asked :: "('k, 'a) network \<Rightarrow> bool \<Rightarrow> ('k, 'a) nodeInfo \<Rightarrow> ('k, 'a) nodeInfo" where
  "asked net e p =
     (if e then p\<lparr>ni_addrs := (case fst (net (ni_id p)) of Some i \<Rightarrow> infoAddresses i | None \<Rightarrow> ni_addrs p),
                  ni_status := waiting\<rparr>
      else p\<lparr>ni_status := waiting\<rparr>)"

definition failed_peer :: "('k, 'a) nodeInfo \<Rightarrow> ('k, 'a) nodeInfo" where
  "failed_peer p =
     (if ni_status p = waiting then
        if ni_tryAgainOnFailure p then p\<lparr>ni_tryAgainOnFailure := False, ni_status := queued\<rparr>
        else p\<lparr>ni_status := unreachable\<rparr>
      else p)"

definition answered_peer :: "('k, 'a) nodeInfo \<Rightarrow> ('k, 'a) nodeInfo" where
  "answered_peer p = (if ni_status p = waiting then p\<lparr>ni_status := queried\<rparr> else p)"

lemma upd_first_split:
  "\<forall>p \<in> set us. nodeString (ni_id p) \<noteq> s \<Longrightarrow> nodeString (ni_id p) = s \<Longrightarrow> upd_first s f (us @ p # vs) = us @ f p # vs"
  by (induction us) auto

lemma upd_first_none: "\<forall>p \<in> set us. nodeString (ni_id p) \<noteq> s \<Longrightarrow> upd_first s f us = us"
  by (induction us) auto

lemma upd_queued_split:
  "\<forall>p \<in> set us. \<not> is_queued p \<Longrightarrow> is_queued p \<Longrightarrow> upd_queued f (us @ p # vs) = us @ f p # vs"
  by (induction us) auto

lemma find_split:
  "List.find P xs = Some x \<Longrightarrow> \<exists>us vs. xs = us @ x # vs \<and> P x \<and> (\<forall>u \<in> set us. \<not> P u)"
proof (induction xs)
  case (Cons y ys)
  show ?case
  proof (cases "P y")
    case True
    with Cons.prems show ?thesis by (intro exI [of _ "[]"] exI [of _ ys]) auto
  next
    case False
    with Cons obtain us vs where "ys = us @ x # vs" "P x" "\<forall>u \<in> set us. \<not> P u" by auto
    with False show ?thesis by (intro exI [of _ "y # us"] exI [of _ vs]) auto
  qed
qed simp

lemma first_queued_mem: "first_queued st xs = Some q \<Longrightarrow> q \<in> set xs \<and> is_queued (st ! q)"
  by (induction xs) (auto split: if_splits)

lemma linked_suffix: "linked st p (us @ r # vs) \<Longrightarrow> linked st (Some r) (r # vs)"
  by (induction us arbitrary: p) auto

context peer_list_env
begin

lemma peers_ok_distinct: "peers_ok K valid bits pl rs \<Longrightarrow> distinct rs"
  unfolding peers_ok_def by (elim conjE) (rule sorted_refs_distinct)

text \<open>A peer changes and keeps its place; the two summaries of the queued peers follow.\<close>

lemma peers_ok_update:
  assumes ok: "peers_ok K valid bits pl (us @ r # vs)"
    and n: "ni_next n = ni_next (pl_store pl ! r)" "ni_distance n = ni_distance (pl_store pl ! r)"
      "ni_id n = ni_id (pl_store pl ! r)"
    and pl': "pl_store pl' = (pl_store pl)[r := n]" "pl_closest pl' = pl_closest pl" "pl_target pl' = pl_target pl"
      "pl_closestQueued pl' = first_queued ((pl_store pl)[r := n]) (us @ r # vs)"
      "pl_queuedCount pl' = pl_queuedCount pl - of_bool (is_queued (pl_store pl ! r)) + of_bool (is_queued n)"
  shows "peers_ok K valid bits pl' (us @ r # vs)"
    "peers pl = map (\<lambda>x. body (pl_store pl ! x)) us @ body (pl_store pl ! r) # map (\<lambda>x. body (pl_store pl ! x)) vs"
    "peers pl' = map (\<lambda>x. body (pl_store pl ! x)) us @ body n # map (\<lambda>x. body (pl_store pl ! x)) vs"
proof -
  let ?st = "pl_store pl" and ?st' = "(pl_store pl)[r := n]" and ?rs = "us @ r # vs"
  have l: "linked ?st (pl_closest pl) ?rs" using ok by (simp add: peers_ok_def)
  have d: "distinct ?rs" using ok by (rule peers_ok_distinct)
  have r: "r < length ?st" using linked_bound [OF l] by simp
  have other: "?st' ! x = ?st ! x" if "x \<noteq> r" for x using that by simp
  have same: "ni_distance (?st' ! x) = ni_distance (?st ! x)" "ni_id (?st' ! x) = ni_id (?st ! x)"
    "ni_next (?st' ! x) = ni_next (?st ! x)" for x
    using n r by (cases "x = r"; simp)+
  have cnt: "count_queued ?st' us = count_queued ?st us" "count_queued ?st' vs = count_queued ?st vs"
    using d by (metis count_queued_cong disjoint_insert(1) distinct.simps(2) distinct_append list.set(2) nth_list_update_neq)+
  show okf: "peers_ok K valid bits pl' ?rs"
    unfolding peers_ok_def pl'
  proof (intro conjI ballI)
    show "linked ?st' (pl_closest pl) ?rs" by (rule linked_cong [OF l]) (simp_all add: same(3))
    show "sorted_wrt (<) (map (nd ?st') ?rs)" using ok unfolding peers_ok_def ndist_def same(1) by blast
    show "node_ok K valid (pl_target pl) (?st' ! x)" if "x \<in> set ?rs" for x
      using ok that unfolding peers_ok_def node_ok_def peer_key_def same by blast
    show "pl_queuedCount pl - of_bool (is_queued (?st ! r)) + of_bool (is_queued n) = count_queued ?st' ?rs"
      using ok cnt r by (simp add: peers_ok_def count_queued_append)
  qed (use ok in \<open>auto simp: peers_ok_def\<close>)
  show "peers pl = map (\<lambda>x. body (?st ! x)) us @ body (?st ! r) # map (\<lambda>x. body (?st ! x)) vs"
    by (simp add: peers_def peers_ok_refs [OF ok])
  show "peers pl' = map (\<lambda>x. body (?st ! x)) us @ body n # map (\<lambda>x. body (?st ! x)) vs"
    using d r pl'(1) by (auto simp: peers_def peers_ok_refs [OF okf] nth_list_update)
qed

lemma first_queued_update:
  assumes "r < length st" "r \<notin> set us" "r \<notin> set vs"
  shows "first_queued (st[r := n]) (us @ r # vs) =
    (case first_queued st us of Some q \<Rightarrow> Some q | None \<Rightarrow> if is_queued n then Some r else first_queued st vs)"
proof -
  have "first_queued (st[r := n]) us = first_queued st us" "first_queued (st[r := n]) vs = first_queued st vs"
    using assms by (metis first_queued_cong nth_list_update_neq)+
  with assms(1) show ?thesis by (simp add: first_queued_append split: option.splits)
qed

lemma pop_empty: "pl_closestQueued pl = None \<Longrightarrow> popClosestQueued net pl = Some (pl, None)"
  by (simp add: popClosestQueued_def)

lemma popClosestQueued_law:
  assumes inv: "pl_inv K valid bits pl" and q: "pl_closestQueued pl = Some r"
    and addr: "pl_endpoint pl \<Longrightarrow> fst (net (ni_id (pl_store pl ! r))) \<noteq> None"
  shows "\<exists>pl' us p vs. popClosestQueued net pl = Some (pl', Some (ni_id p)) \<and> pl_inv K valid bits pl' \<and>
    peers pl = us @ p # vs \<and> is_queued p \<and> (\<forall>u \<in> set us. \<not> is_queued u) \<and> peers pl' = us @ asked net (pl_endpoint pl) p # vs \<and>
    pl_target pl' = pl_target pl \<and> pl_endpoint pl' = pl_endpoint pl \<and> pl_queuedCount pl' = pl_queuedCount pl - 1"
proof -
  let ?st = "pl_store pl" and ?n = "pl_store pl ! r"
  define rs where "rs = peer_refs pl"
  have ok0: "peers_ok K valid bits pl rs" using inv by (simp add: pl_inv_def rs_def)
  then have "first_queued ?st rs = Some r" using q by (simp add: peers_ok_def)
  then obtain us vs where rs: "rs = us @ r # vs" "is_queued ?n" "\<forall>u \<in> set us. \<not> is_queued (?st ! u)"
    unfolding first_queued_def by (drule_tac find_split) (elim exE conjE)
  have ok: "peers_ok K valid bits pl (us @ r # vs)" using ok0 rs by simp
  then have l: "linked ?st (pl_closest pl) (us @ r # vs)" and d: "distinct (us @ r # vs)"
    by (simp add: peers_ok_def) (rule peers_ok_distinct [OF ok])
  have r: "r < length ?st" using linked_bound [OF l] by simp
  have lr: "linked ?st (Some r) (r # vs)" using l by (rule linked_suffix)
  define n where "n = asked net (pl_endpoint pl) ?n"
  have n: "ni_next n = ni_next ?n" "ni_distance n = ni_distance ?n" "ni_id n = ni_id ?n" "ni_status n = waiting"
    "body n = asked net (pl_endpoint pl) (body ?n)"
    by (simp_all add: n_def asked_def body_def split: option.splits)
  let ?st' = "?st[r := n]"
  have "linked ?st' (Some r) (r # vs)" using r by (intro linked_cong [OF lr]) (auto simp: nth_list_update n(1))
  then have f: "findNextQueued ?st' (Some r) = Some (first_queued ?st' vs)"
    using findNextQueued_law [of ?st' "Some r" "r # vs"] r n(4) by simp
  define pl' where "pl' = pl\<lparr>pl_store := ?st', pl_queuedCount := pl_queuedCount pl - 1, pl_closestQueued := first_queued ?st' vs\<rparr>"
  have "first_queued ?st us = None" using rs(3) by (simp add: first_queued_None)
  moreover have "first_queued ?st' vs = first_queued ?st vs"     using d by (metis distinct.simps(2) distinct_append first_queued_cong nth_list_update_neq)
  ultimately have fq: "first_queued ?st' vs = first_queued ?st' (us @ r # vs)"
    using first_queued_update [of r ?st us vs n] r d n(4) by simp
  note U = peers_ok_update [OF ok n(1-3), of pl']
  have okf: "peers_ok K valid bits pl' (us @ r # vs)" "peers pl' = map (\<lambda>x. body (?st ! x)) us @ body n # map (\<lambda>x. body (?st ! x)) vs"
    using U fq rs(2) n(4) by (simp_all add: pl'_def)
  have pk: "popClosestQueued net pl = Some (pl', Some (ni_id (body ?n)))"
  proof (cases "pl_endpoint pl")
    case False
    then show ?thesis using q f r
      by (simp add: popClosestQueued_def popPeer_def setStatus_def pl'_def n_def asked_def)
  next
    case True
    then obtain i where i: "fst (net (ni_id ?n)) = Some i" using addr by blast
    have "skipLoop net pl r = Some (pl, Some (r, i))" by (subst skipLoop.simps) (simp add: i)
    with True q f r i show ?thesis
      by (simp add: popClosestQueued_def popPeer_def setStatus_def pl'_def n_def asked_def)
  qed
  show ?thesis
    by (rule exI [of _ pl'], rule exI [of _ "map (\<lambda>x. body (?st ! x)) us"], rule exI [of _ "body ?n"],
        rule exI [of _ "map (\<lambda>x. body (?st ! x)) vs"])
      (use pk okf pl_invI U(2) rs n(5) fq in \<open>auto simp: pl'_def peers_def peers_ok_refs [OF ok]\<close>)
qed


text \<open>The peer with the identifier of a message, as the two operations find it.\<close>

lemma find_peer_cases:
  assumes "pl_inv K valid bits pl"
  obtains (absent) "findByString (pl_store pl) s (pl_closest pl) = Some None"
      "\<forall>p \<in> set (peers pl). nodeString (ni_id p) \<noteq> s"
  | (present) us r vs where "findByString (pl_store pl) s (pl_closest pl) = Some (Some r)"
      "peers_ok K valid bits pl (us @ r # vs)" "nodeString (ni_id (pl_store pl ! r)) = s"
      "\<forall>u \<in> set us. nodeString (ni_id (pl_store pl ! u)) \<noteq> s"
proof -
  define rs where "rs = peer_refs pl"
  have ok: "peers_ok K valid bits pl rs" using assms by (simp add: pl_inv_def rs_def)
  then have f: "findByString (pl_store pl) s (pl_closest pl) =
      Some (List.find (\<lambda>r. nodeString (ni_id (pl_store pl ! r)) = s) rs)"
    by (intro findByString_law) (simp add: peers_ok_def)
  show thesis
  proof (cases "List.find (\<lambda>r. nodeString (ni_id (pl_store pl ! r)) = s) rs")
    case None
    with f show thesis by (intro absent) (auto simp: set_peers [OF ok] find_None_iff)
  next
    case (Some r)
    from find_split [OF this] obtain us vs where "rs = us @ r # vs"
      "nodeString (ni_id (pl_store pl ! r)) = s" "\<forall>u \<in> set us. nodeString (ni_id (pl_store pl ! u)) \<noteq> s"
      by (elim exE conjE)
    with f Some ok show thesis by (intro present [of r us vs]) simp_all
  qed
qed

text \<open>The peer at \<open>r\<close> takes on a status other than queued.\<close>

lemma setStatus_law:
  assumes ok: "peers_ok K valid bits pl (us @ r # vs)" and "\<not> is_queued (pl_store pl ! r)" "t \<noteq> queued"
  shows "pl_inv K valid bits (setStatus pl r t)"
    "peers pl = map (\<lambda>x. body (pl_store pl ! x)) us @ body (pl_store pl ! r) # map (\<lambda>x. body (pl_store pl ! x)) vs"
    "peers (setStatus pl r t) = map (\<lambda>x. body (pl_store pl ! x)) us @
      (body (pl_store pl ! r))\<lparr>ni_status := t\<rparr> # map (\<lambda>x. body (pl_store pl ! x)) vs"
proof -
  let ?n = "(pl_store pl ! r)\<lparr>ni_status := t\<rparr>"
  have l: "linked (pl_store pl) (pl_closest pl) (us @ r # vs)" using ok by (simp add: peers_ok_def)
  have r: "r < length (pl_store pl)" using linked_bound [OF l] by simp
  have "pl_closestQueued pl = first_queued (pl_store pl) (us @ r # vs)" using ok by (simp add: peers_ok_def)
  then have "pl_closestQueued pl = first_queued ((pl_store pl)[r := ?n]) (us @ r # vs)"
    using first_queued_update [of r "pl_store pl" us vs ?n] r peers_ok_distinct [OF ok] assms(2,3)
    by (simp add: first_queued_append split: option.splits)
  then have U: "peers_ok K valid bits (setStatus pl r t) (us @ r # vs)"
    "peers (setStatus pl r t) = map (\<lambda>x. body (pl_store pl ! x)) us @ body ?n # map (\<lambda>x. body (pl_store pl ! x)) vs"
    using peers_ok_update [OF ok, of ?n "setStatus pl r t"] assms(2,3) by (simp_all add: setStatus_def)
  show "pl_inv K valid bits (setStatus pl r t)" by (rule pl_invI [OF U(1)])
  show "peers pl = map (\<lambda>x. body (pl_store pl ! x)) us @ body (pl_store pl ! r) # map (\<lambda>x. body (pl_store pl ! x)) vs"
    by (simp add: peers_def peers_ok_refs [OF ok])
  show "peers (setStatus pl r t) = map (\<lambda>x. body (pl_store pl ! x)) us @
      (body (pl_store pl ! r))\<lparr>ni_status := t\<rparr> # map (\<lambda>x. body (pl_store pl ! x)) vs"
    using U(2) by (simp add: body_def)
qed

lemma upd_first_refs:
  assumes "peers_ok K valid bits pl (us @ r # vs)" "nodeString (ni_id (pl_store pl ! r)) = s"
    "\<forall>u \<in> set us. nodeString (ni_id (pl_store pl ! u)) \<noteq> s"
  shows "upd_first s f (peers pl) = map (\<lambda>x. body (pl_store pl ! x)) us @ f (body (pl_store pl ! r)) #
    map (\<lambda>x. body (pl_store pl ! x)) vs"
  using assms(2,3) by (auto simp: peers_def peers_ok_refs [OF assms(1)] intro!: upd_first_split)

lemma upd_first_same:
  assumes "peers_ok K valid bits pl (us @ r # vs)" "nodeString (ni_id (pl_store pl ! r)) = s"
    "\<forall>u \<in> set us. nodeString (ni_id (pl_store pl ! u)) \<noteq> s" "f (body (pl_store pl ! r)) = body (pl_store pl ! r)"
  shows "upd_first s f (peers pl) = peers pl"
  using assms(4) by (simp add: upd_first_refs [OF assms(1-3)]) (simp add: peers_def peers_ok_refs [OF assms(1)])

lemma queriedPeer_law:
  assumes inv: "pl_inv K valid bits pl"
  shows "\<exists>pl'. queriedPeer pl nid = Some pl' \<and> pl_inv K valid bits pl' \<and>
    peers pl' = upd_first (nodeString nid) answered_peer (peers pl) \<and>
    pl_target pl' = pl_target pl \<and> pl_endpoint pl' = pl_endpoint pl \<and> pl_queuedCount pl' = pl_queuedCount pl"
  using inv
proof (cases rule: find_peer_cases [of _ "nodeString nid"])
  case absent
  then show ?thesis using inv by (simp add: queriedPeer_def upd_first_none)
next
  case (present us r vs)
  show ?thesis
  proof (cases "ni_status (pl_store pl ! r) = waiting")
    case True
    then show ?thesis using present(1) setStatus_law(1,3) [OF present(2), of queried]
      by (auto simp: queriedPeer_def upd_first_refs [OF present(2-4)] answered_peer_def setStatus_def)
  next
    case False
    then have "upd_first (nodeString nid) answered_peer (peers pl) = peers pl"
      by (intro upd_first_same [OF present(2-4)]) (simp add: answered_peer_def)
    then show ?thesis using False present(1) inv by (simp add: queriedPeer_def)
  qed
qed

lemma enqueue_law:
  assumes ok: "peers_ok K valid bits pl (us @ r # vs)" and st: "\<not> is_queued (pl_store pl ! r)"
    and q: "pl_closestQueued pl = Some q"
  shows "\<exists>pl'. enqueueUnreachablePeer K pl (Some r) = Some pl' \<and> pl_inv K valid bits pl' \<and>
    peers pl' = map (\<lambda>x. body (pl_store pl ! x)) us @
      (body (pl_store pl ! r))\<lparr>ni_tryAgainOnFailure := False, ni_status := queued\<rparr> # map (\<lambda>x. body (pl_store pl ! x)) vs \<and>
    pl_target pl' = pl_target pl \<and> pl_endpoint pl' = pl_endpoint pl \<and> pl_queuedCount pl' = pl_queuedCount pl + 1"
proof -
  let ?st = "pl_store pl" and ?n = "(pl_store pl ! r)\<lparr>ni_tryAgainOnFailure := False, ni_status := queued\<rparr>"
  note d = peers_ok_distinct [OF ok]
  have l: "linked ?st (pl_closest pl) (us @ r # vs)" "valid (pl_target pl)" "sorted_wrt (<) (map (nd ?st) (us @ r # vs))"
    and nok: "\<And>x. x \<in> set (us @ r # vs) \<Longrightarrow> node_ok K valid (pl_target pl) (?st ! x)"
    and fq: "first_queued ?st (us @ r # vs) = Some q"
    using ok q unfolding peers_ok_def by auto
  have r: "r < length ?st" using linked_bound [OF l(1)] by simp
  have mem: "q \<in> set (us @ r # vs)" "is_queued (?st ! q)"
    using first_queued_mem [OF fq] by auto
  then have qr: "q \<noteq> r" using st by auto
  have vd: "valid (ni_distance (?st ! x))" if "x \<in> set (us @ r # vs)" for x using node_ok_valid [OF nok [OF that] l(2)] .
  have cmp: "Compare K (ni_distance ?n) (ni_distance (?st[r := ?n] ! q)) = Some (sgn (int (nd ?st r) - int (nd ?st q)))"
    using ndist_compare [of ?n "?st ! q"] vd mem(1) qr by (simp add: ndist_def)
  have pos: "nd ?st r < nd ?st q \<longleftrightarrow> first_queued ?st us = None"
  proof (cases "first_queued ?st us")
    case None
    then have "first_queued ?st vs = Some q" using fq st by (simp add: first_queued_append)
    then have "q \<in> set vs" using first_queued_mem by blast
    with l(3) None show ?thesis by (auto simp: sorted_wrt_append)
  next
    case (Some x)
    then have "first_queued ?st us = Some q" using fq by (simp add: first_queued_append)
    then have "q \<in> set us" using first_queued_mem by blast
    with l(3) Some show ?thesis by (auto simp: sorted_wrt_append)
  qed
  define pl' where "pl' = pl\<lparr>pl_store := ?st[r := ?n], pl_queuedCount := pl_queuedCount pl + 1,
      pl_closestQueued := (if nd ?st r < nd ?st q then Some r else Some q)\<rparr>"
  have e: "enqueueUnreachablePeer K pl (Some r) = Some pl'"
    using st q cmp r by (auto simp: enqueueUnreachablePeer_def Let_def pl'_def sgn_if)
  have "pl_closestQueued pl' = first_queued (?st[r := ?n]) (us @ r # vs)"
    using first_queued_update [of r ?st us vs ?n] r d pos fq by (auto simp: pl'_def first_queued_append split: option.splits)
  then have U: "peers_ok K valid bits pl' (us @ r # vs)"
    "peers pl' = map (\<lambda>x. body (?st ! x)) us @ body ?n # map (\<lambda>x. body (?st ! x)) vs"
    using peers_ok_update [OF ok, of ?n pl'] st by (simp_all add: pl'_def)
  then show ?thesis using e pl_invI [OF U(1)] by (auto simp: pl'_def body_def)
qed

text \<open>A failed peer that is to be tried again is queued; this dereferences \<open>closestQueued\<close>, which is
  nil when no peer is queued.\<close>

lemma unreachablePeer_law:
  assumes inv: "pl_inv K valid bits pl"
  shows "unreachablePeer K pl nid = None \<longleftrightarrow>
      pl_closestQueued pl = None \<and>
      (\<exists>p. List.find (\<lambda>p. nodeString (ni_id p) = nodeString nid) (peers pl) = Some p \<and>
        ni_status p = waiting \<and> ni_tryAgainOnFailure p)" (is ?panic)
    and "unreachablePeer K pl nid = Some pl' \<Longrightarrow> pl_inv K valid bits pl' \<and>
      peers pl' = upd_first (nodeString nid) failed_peer (peers pl) \<and>
      pl_target pl' = pl_target pl \<and> pl_endpoint pl' = pl_endpoint pl" (is "_ \<Longrightarrow> ?ok")
proof -
  have "?panic \<and> (unreachablePeer K pl nid = Some pl' \<longrightarrow> ?ok)"
    using inv
  proof (cases rule: find_peer_cases [of _ "nodeString nid"])
    case absent
    then have "List.find (\<lambda>p. nodeString (ni_id p) = nodeString nid) (peers pl) = None" by (simp add: find_None_iff)
    with absent show ?thesis using inv by (auto simp: unreachablePeer_def upd_first_none)
  next
    case (present us r vs)
    let ?n = "pl_store pl ! r"
    have ps: "peers pl = map (\<lambda>x. body (pl_store pl ! x)) us @ body ?n # map (\<lambda>x. body (pl_store pl ! x)) vs"
      by (simp add: peers_def peers_ok_refs [OF present(2)])
    have fnd: "List.find (\<lambda>p. nodeString (ni_id p) = nodeString nid) (peers pl) = Some (body ?n)"
      using present(3,4) unfolding ps by (induction us) auto
    consider (no) "ni_status ?n \<noteq> waiting" | (unreach) "ni_status ?n = waiting" "\<not> ni_tryAgainOnFailure ?n"
      | (again) "ni_status ?n = waiting" "ni_tryAgainOnFailure ?n" by blast
    then show ?thesis
    proof cases
      case no
      then have "upd_first (nodeString nid) failed_peer (peers pl) = peers pl"
        by (intro upd_first_same [OF present(2-4)]) (simp add: failed_peer_def)
      then show ?thesis using no present(1) inv by (auto simp: unreachablePeer_def fnd)
    next
      case unreach
      then show ?thesis using present(1) setStatus_law(1,3) [OF present(2), of unreachable]
        by (auto simp: unreachablePeer_def fnd upd_first_refs [OF present(2-4)] failed_peer_def setStatus_def)
    next
      case again
      then have u: "unreachablePeer K pl nid = enqueueUnreachablePeer K pl (Some r)"
        using present(1) by (simp add: unreachablePeer_def)
      show ?thesis
      proof (cases "pl_closestQueued pl")
        case None
        then show ?thesis using again by (simp add: u fnd enqueueUnreachablePeer_def)
      next
        case (Some q)
        then show ?thesis using enqueue_law [OF present(2) _ Some] again
          by (auto simp: u fnd upd_first_refs [OF present(2-4)] failed_peer_def)
      qed
    qed
  qed
  then show ?panic and "unreachablePeer K pl nid = Some pl' \<Longrightarrow> ?ok" by blast+
qed

end


sublocale kad_key \<subseteq> plist: peer_list_env K valid len bits sliceStable
  by (intro peer_list_env.intro kad_key_axioms insertion.slice_sort_axioms)

section \<open>Properties\<close>

text \<open>C12: If no unreachable peer of the list is found again with an address that it did not have when
  it was asked, \<open>addToPeerlist\<close> ends and keeps the invariant of the list (strict order by distance,
  \<open>closestQueued\<close> the first queued peer, \<open>queuedCount\<close> their number): the new peers are queued, each
  key once, and the old ones keep their status and addresses; a waiting one that is found again with
  a fresh address is marked to be tried again. (An unreachable peer with a fresh address is queued
  again, and the pointer to the closest queued peer can be lost: \<open>peerlist_loses_queued\<close>.)\<close>

theorem peerlist_add:
  assumes "kad_key K valid len bits" and "slice_sort srt" and "pl_inv K valid bits pl" and "net_ok net"
    and "\<forall>i. Some i \<in> set ids \<longrightarrow> valid (nodeKey i)"
    and "\<forall>p \<in> set (peers pl). peer_key p \<in> nodeKey ` usable ids \<longrightarrow> \<not> revives aeq net (pl_endpoint pl) p"
  shows "\<exists>pl'. addToPeerlist K aeq srt net pl ids = Some pl' \<and> pl_inv K valid bits pl' \<and>
    added_peers K aeq net pl ids (peers pl')"
proof -
  have env: "peer_list_env K valid len bits srt" using assms(1,2) by (rule peer_list_env.intro)
  show ?thesis using peer_list_env.addToPeerlist_law [OF env assms(3,4), of ids aeq] assms(5,6) by blast
qed

definition pnode8 :: "key8 \<Rightarrow> key8 NodeID" where
  "pnode8 k = \<lparr>nodeKey = k, nodeString = Key8_HexString k\<rparr>"

declare mergeLoop.simps [code] countLoop.simps [code] findNextQueued.simps [code] skipLoop.simps [code] findByString.simps [code]

definition plnet8 :: "nat list \<Rightarrow> (key8, nat) network" where
  "plnet8 as i = (Some \<lparr>infoID = i, infoAddresses = as\<rparr>, None)"

definition peerlist8 :: "(key8, nat) PeerList" where
  "peerlist8 = the (do {
     pl \<leftarrow> addToPeerlist Key8 (=) sliceStable (plnet8 [1]) (newPeerList 0 True) [Some (pnode8 2), None, Some (pnode8 1), Some (pnode8 2)];
     (pl1, _) \<leftarrow> popClosestQueued (plnet8 [1]) pl;
     unreachablePeer Key8 pl1 (pnode8 1)
   })"

lemma peerlist8_inv: "pl_inv Key8 (\<lambda>_. True) word_bits peerlist8"
  by code_simp

lemma peerlist8_peers: "map (\<lambda>p. (peer_key p, ni_status p, ni_addrs p)) (peers peerlist8) = [(1, unreachable, [1]), (2, queued, [])]"
  by code_simp


lemma plnet8_ok: "net_ok (plnet8 as)"
  by (simp add: net_ok_def plnet8_def)

theorem peerlist_add_witness:
  "\<exists>pl'. addToPeerlist Key8 (=) sliceStable (plnet8 [1]) peerlist8 [Some (pnode8 4), Some (pnode8 1)] = Some pl' \<and>
     peer_key ` set (peers pl') = {1, 2, 4}"
proof -
  have us: "usable [Some (pnode8 4), Some (pnode8 1)] = {pnode8 4, pnode8 1}"
  proof -
    have "nodeString (pnode8 4) \<noteq> ''''" "nodeString (pnode8 1) \<noteq> ''''" by code_simp+
    then show ?thesis by (auto simp: usable_def)
  qed
  have keys: "peer_key ` set (peers peerlist8) = {1, 2}"
    using arg_cong [OF peerlist8_peers, of "\<lambda>xs. fst ` set xs"] by (simp add: image_image)
  have rv: "list_all (\<lambda>p. \<not> revives (=) (plnet8 [1]) (pl_endpoint peerlist8) p) (peers peerlist8)"
    by code_simp
  from peerlist_add [OF key8.kad_key_axioms insertion.slice_sort_axioms peerlist8_inv plnet8_ok [of "[1]"],
      of "[Some (pnode8 4), Some (pnode8 1)]" "(=)"] rv
  show ?thesis unfolding added_peers_def us keys by (auto simp: list_all_iff pnode8_def)
qed

text \<open>C30: \<open>popClosestQueued\<close> returns the queued peer that is closest to the target, which is waiting
  from then on with the addresses that the endpoint knows, and nil exactly when no peer is queued,
  if every queued peer has an address.\<close>

theorem peerlist_pop:
  assumes "kad_key K valid len bits" and "pl_inv K valid bits pl"
    and "\<forall>p \<in> set (peers pl). is_queued p \<and> pl_endpoint pl \<longrightarrow> fst (net (ni_id p)) \<noteq> None"
  shows "if \<exists>p \<in> set (peers pl). is_queued p
    then \<exists>pl' us p vs. popClosestQueued net pl = Some (pl', Some (ni_id p)) \<and> pl_inv K valid bits pl' \<and>
      peers pl = us @ p # vs \<and> is_queued p \<and> (\<forall>u \<in> set us. \<not> is_queued u) \<and>
      peers pl' = us @ asked net (pl_endpoint pl) p # vs
    else popClosestQueued net pl = Some (pl, None)"
proof -
  have env: "peer_list_env K valid len bits sliceStable"
    using assms(1) insertion.slice_sort_axioms by (rule peer_list_env.intro)
  have ok: "peers_ok K valid bits pl (peer_refs pl)" using assms(2) by (simp add: pl_inv_def)
  note set = peer_list_env.set_peers [OF env ok]
  have cq: "pl_closestQueued pl = first_queued (pl_store pl) (peer_refs pl)" using ok by (simp add: peers_ok_def)
  show ?thesis
  proof (cases "pl_closestQueued pl")
    case None
    then have "\<not> (\<exists>p \<in> set (peers pl). is_queued p)" using cq first_queued_None [of "pl_store pl" "peer_refs pl"] by (auto simp: set)
    then show ?thesis using peer_list_env.pop_empty [OF env None] by (simp only: if_False)
  next
    case (Some r)
    then have r: "r \<in> set (peer_refs pl)" "is_queued (pl_store pl ! r)" using cq first_queued_mem by metis+
    then have "body (pl_store pl ! r) \<in> set (peers pl)" by (auto simp: set)
    with r(2) assms(3) have "pl_endpoint pl \<Longrightarrow> fst (net (ni_id (pl_store pl ! r))) \<noteq> None" by fastforce
    with peer_list_env.popClosestQueued_law [OF env assms(2) Some, of net] show ?thesis by auto
  qed
qed

theorem peerlist_pop_witness:
  "\<exists>pl' p. popClosestQueued (plnet8 [1]) peerlist8 = Some (pl', Some (ni_id p)) \<and> is_queued p \<and> p \<in> set (peers peerlist8)"
proof -
  have a: "\<forall>p \<in> set (peers peerlist8). is_queued p \<and> pl_endpoint peerlist8 \<longrightarrow> fst (plnet8 [1] (ni_id p)) \<noteq> None"
    by (simp add: plnet8_def)
  have "list_ex is_queued (peers peerlist8)" by code_simp
  then have "\<exists>p \<in> set (peers peerlist8). is_queued p" by (simp add: list_ex_iff)
  with peerlist_pop [OF key8.kad_key_axioms peerlist8_inv a] show ?thesis by (simp only: if_True) auto
qed

text \<open>C31: \<open>unreachablePeer\<close> makes a waiting peer unreachable, or queues it again if a fresh address
  was found meanwhile. It panics exactly when it has to queue the peer again and no peer is queued.\<close>

theorem peerlist_unreachable:
  assumes "kad_key K valid len bits" and "pl_inv K valid bits pl"
  shows "(unreachablePeer K pl nid = None \<longleftrightarrow>
      (\<forall>p \<in> set (peers pl). \<not> is_queued p) \<and>
      (\<exists>p. List.find (\<lambda>p. nodeString (ni_id p) = nodeString nid) (peers pl) = Some p \<and>
        ni_status p = waiting \<and> ni_tryAgainOnFailure p)) \<and>
    (\<forall>pl'. unreachablePeer K pl nid = Some pl' \<longrightarrow>
      pl_inv K valid bits pl' \<and> peers pl' = upd_first (nodeString nid) failed_peer (peers pl))"
proof -
  have env: "peer_list_env K valid len bits sliceStable"
    using assms(1) insertion.slice_sort_axioms by (rule peer_list_env.intro)
  have ok: "peers_ok K valid bits pl (peer_refs pl)" using assms(2) by (simp add: pl_inv_def)
  have cq: "pl_closestQueued pl = None \<longleftrightarrow> (\<forall>p \<in> set (peers pl). \<not> is_queued p)"
    using ok first_queued_None [of "pl_store pl" "peer_refs pl"]
    by (auto simp: peer_list_env.set_peers [OF env ok] peers_ok_def)
  note law = peer_list_env.unreachablePeer_law [OF env assms(2), of nid]
  show ?thesis unfolding law(1) cq by (intro conjI allI impI) (simp_all add: law(2))
qed

definition waiting8 :: "(key8, nat) PeerList" where
  "waiting8 = the (do {
     pl \<leftarrow> addToPeerlist Key8 (=) sliceStable (plnet8 [1]) (newPeerList 0 True) [Some (pnode8 1)];
     (pl1, _) \<leftarrow> popClosestQueued (plnet8 [1]) pl;
     addToPeerlist Key8 (=) sliceStable (plnet8 [1, 2]) pl1 [Some (pnode8 1)]
   })"

theorem peerlist_unreachable_witness:
  "pl_inv Key8 (\<lambda>_. True) word_bits waiting8 \<and> unreachablePeer Key8 waiting8 (pnode8 1) = None \<and>
   (\<exists>p \<in> set (peers waiting8). ni_tryAgainOnFailure p)"
proof -
  have inv: "pl_inv Key8 (\<lambda>_. True) word_bits waiting8" by code_simp
  have none: "unreachablePeer Key8 waiting8 (pnode8 1) = None" by code_simp
  from peerlist_unreachable [OF key8.kad_key_axioms inv, of "pnode8 1"] inv none show ?thesis
    by (auto dest: find_split)
qed

text \<open>What \<open>addToPeerlist\<close> does with an unreachable peer that has a fresh address, in a list where
  another peer is queued: both peers are queued and counted, but \<open>closestQueued\<close> is nil, so that no
  peer is ever asked again.\<close>

theorem peerlist_loses_queued:
  "\<exists>pl. addToPeerlist Key8 (=) sliceStable (plnet8 [1, 2]) peerlist8 [Some (pnode8 1), Some (pnode8 2)] = Some pl \<and>
     map (\<lambda>p. (peer_key p, ni_status p)) (peers pl) = [(1, queued), (2, queued)] \<and> pl_queuedCount pl = 2 \<and>
     popClosestQueued (plnet8 [1, 2]) pl = Some (pl, None)"
proof -
  have "map_option (\<lambda>pl. (map (\<lambda>p. (peer_key p, ni_status p)) (peers pl), pl_queuedCount pl, pl_closestQueued pl))
      (addToPeerlist Key8 (=) sliceStable (plnet8 [1, 2]) peerlist8 [Some (pnode8 1), Some (pnode8 2)]) =
      Some ([(1, queued), (2, queued)], 2, None)" by code_simp
  then show ?thesis by (auto simp: key8.plist.pop_empty)
qed

end
