(* ===== verification/Simple_Query.thy ===== *)
theory Simple_Query
  imports Peer_Ops
begin

text \<open>
  The query of \<open>query/simplequery/query.go\<close> and its options (\<open>options.go\<close>).

  \<^item> What the query reads from outside is an argument: \<open>ctxErr n\<close> is what the \<open>n\<close>-th reading of
    \<open>q.ctx.Err()\<close> in a call returns (the context can be cancelled between two of them; the two of
    \<open>checkIfDone\<close> itself count as one), \<open>net\<close> what the endpoint knows, \<open>sendErr\<close> the error that
    \<open>SendRequestHandleResponse\<close> returns at once for a peer (\<open>None\<close>: the request is on its way and its handler will be called later).
  \<^item> What it does to the outside is a list of effects: an action for \<open>newRequest\<close> given to the
    scheduler, a request given to the endpoint, a call of \<open>notifyFailureFn\<close>.
  \<^item> \<open>handleResultFn\<close> is code of the caller: it acts on a state \<open>'h\<close> of its own.
\<close>

section \<open>Options\<close>

record ('k, 'a, 'h) HandleResult =
  handleResult :: "'h \<Rightarrow> 'k NodeID \<Rightarrow> ('k, 'a) Response \<Rightarrow> 'h \<times> bool \<times> 'k NodeID option list"

text \<open>A pointer, an interface or a function that may be nil is an option. Of the endpoint it matters
  whether it is a \<open>NetworkedEndpoint\<close>; the scheduler and the failure callback are opaque.\<close>

record ('k, 'a, 'h, 'rt) SQConfig =
  cfgProtocolID :: string
  cfgNumberUsefulCloserPeers :: int
  cfgConcurrency :: int
  cfgRequestTimeout :: duration
  cfgPeerstoreTTL :: duration
  cfgHandleResultsFunc :: "('k, 'a, 'h) HandleResult option"
  cfgNotifyFailureFunc :: "unit option"
  cfgRoutingTable :: "'rt option"
  cfgEndpoint :: "bool option"
  cfgScheduler :: "unit option"

type_synonym ('k, 'a, 'h, 'rt) SQOption = "('k, 'a, 'h, 'rt) SQConfig \<Rightarrow> string + ('k, 'a, 'h, 'rt) SQConfig"

definition zeroConfig :: "('k, 'a, 'h, 'rt) SQConfig" where
  "zeroConfig =
     \<lparr>cfgProtocolID = '''', cfgNumberUsefulCloserPeers = 0, cfgConcurrency = 0, cfgRequestTimeout = 0,
      cfgPeerstoreTTL = 0, cfgHandleResultsFunc = None, cfgNotifyFailureFunc = None, cfgRoutingTable = None,
      cfgEndpoint = None, cfgScheduler = None\<rparr>"

fun applyLoop ::
  "nat \<Rightarrow> ('k, 'a, 'h, 'rt) SQConfig \<Rightarrow> ('k, 'a, 'h, 'rt) SQOption list \<Rightarrow> string + ('k, 'a, 'h, 'rt) SQConfig" where
  "applyLoop i cfg [] = Inr cfg"
| "applyLoop i cfg (opt # opts) =
     (case opt cfg of
        Inl err \<Rightarrow> Inl (''SimpleQuery option '' @ digitsBase 10 i @ '' failed: '' @ err)
      | Inr cfg' \<Rightarrow> applyLoop (Suc i) cfg' opts)"

definition Config_Apply ::
  "('k, 'a, 'h, 'rt) SQConfig \<Rightarrow> ('k, 'a, 'h, 'rt) SQOption list \<Rightarrow> string + ('k, 'a, 'h, 'rt) SQConfig" where
  "Config_Apply cfg opts =
     (case applyLoop 0 cfg opts of
        Inl err \<Rightarrow> Inl err
      | Inr c \<Rightarrow>
          if cfgRoutingTable c = None then Inl ''SimpleQuery option RoutingTable cannot be nil''
          else if cfgEndpoint c = None then Inl ''SimpleQuery option Endpoint cannot be nil''
          else if cfgScheduler c = None then Inl ''SimpleQuery option Scheduler cannot be nil''
          else Inr c)"

definition defaultHandleResult :: "('k, 'a, 'h) HandleResult" where
  "defaultHandleResult = \<lparr>handleResult = (\<lambda>h nid resp. (h, False, map (\<lambda>n. Some (infoID n)) (CloserNodes resp)))\<rparr>"

definition SQDefaultConfig :: "('k, 'a, 'h, 'rt) SQOption" where
  "SQDefaultConfig cfg = Inr (cfg\<lparr>
     cfgNumberUsefulCloserPeers := 20, cfgConcurrency := 10, cfgRequestTimeout := Second,
     cfgPeerstoreTTL := 30 * Minute, cfgHandleResultsFunc := Some defaultHandleResult,
     cfgNotifyFailureFunc := Some ()\<rparr>)"

definition WithProtocolID :: "string \<Rightarrow> ('k, 'a, 'h, 'rt) SQOption" where
  "WithProtocolID pid cfg = Inr (cfg\<lparr>cfgProtocolID := pid\<rparr>)"

definition WithNumberUsefulCloserPeers :: "int \<Rightarrow> ('k, 'a, 'h, 'rt) SQOption" where
  "WithNumberUsefulCloserPeers n cfg =
     (if n \<le> 0 then Inl ''NumberUsefulCloserPeers must be positive''
      else Inr (cfg\<lparr>cfgNumberUsefulCloserPeers := n\<rparr>))"

definition WithConcurrency :: "int \<Rightarrow> ('k, 'a, 'h, 'rt) SQOption" where
  "WithConcurrency n cfg =
     (if n \<le> 0 then Inl ''concurrency parameter must be positive'' else Inr (cfg\<lparr>cfgConcurrency := n\<rparr>))"

definition WithRequestTimeout :: "duration \<Rightarrow> ('k, 'a, 'h, 'rt) SQOption" where
  "WithRequestTimeout timeout cfg = Inr (cfg\<lparr>cfgRequestTimeout := timeout\<rparr>)"

definition WithPeerstoreTTL :: "duration \<Rightarrow> ('k, 'a, 'h, 'rt) SQOption" where
  "WithPeerstoreTTL ttl cfg = Inr (cfg\<lparr>cfgPeerstoreTTL := ttl\<rparr>)"

definition WithHandleResultsFunc :: "('k, 'a, 'h) HandleResult option \<Rightarrow> ('k, 'a, 'h, 'rt) SQOption" where
  "WithHandleResultsFunc fn cfg =
     (if fn = None then Inl ''HandleResultsFunc cannot be nil'' else Inr (cfg\<lparr>cfgHandleResultsFunc := fn\<rparr>))"

definition WithNotifyFailureFunc :: "unit option \<Rightarrow> ('k, 'a, 'h, 'rt) SQOption" where
  "WithNotifyFailureFunc fn cfg =
     (if fn = None then Inl ''NotifyFailureFunc cannot be nil'' else Inr (cfg\<lparr>cfgNotifyFailureFunc := fn\<rparr>))"

definition WithRoutingTable :: "'rt option \<Rightarrow> ('k, 'a, 'h, 'rt) SQOption" where
  "WithRoutingTable rt cfg =
     (if rt = None then Inl ''SimpleQuery option RoutingTable cannot be nil'' else Inr (cfg\<lparr>cfgRoutingTable := rt\<rparr>))"

definition WithEndpoint :: "bool option \<Rightarrow> ('k, 'a, 'h, 'rt) SQOption" where
  "WithEndpoint ep cfg =
     (if ep = None then Inl ''SimpleQuery option Endpoint cannot be nil'' else Inr (cfg\<lparr>cfgEndpoint := ep\<rparr>))"

definition WithScheduler :: "unit option \<Rightarrow> ('k, 'a, 'h, 'rt) SQOption" where
  "WithScheduler sched cfg =
     (if sched = None then Inl ''SimpleQuery option Scheduler cannot be nil'' else Inr (cfg\<lparr>cfgScheduler := sched\<rparr>))"

section \<open>The query\<close>

record ('k, 'm) Request =
  Target :: 'k
  reqMessage :: 'm

record ('k, 'm, 'a, 'h, 'rt) SimpleQuery =
  sq_self :: "'k NodeID"
  sq_done :: bool
  sq_protoID :: string
  sq_req :: "('k, 'm) Request"
  sq_concurrency :: int
  sq_peerstoreTTL :: duration
  sq_timeout :: duration
  sq_rt :: 'rt
  sq_inflightRequests :: int
  sq_peerlist :: "('k, 'a) PeerList"
  sq_handleResultFn :: "('k, 'a, 'h) HandleResult option"
  sq_notifyFailureFn :: "unit option"

datatype ('k, 'm) SQEffect =
    EnqueueNewRequest
  | SendRequest string "'k NodeID" "('k, 'm) Request" duration
  | NotifyFailure

definition checkIfDone ::
  "string option \<Rightarrow> ('k, 'm, 'a, 'h, 'rt) SimpleQuery \<Rightarrow> ('k, 'm, 'a, 'h, 'rt) SimpleQuery \<times> string option" where
  "checkIfDone ctxErr q =
     (if sq_done q then (q, Some ''query done'')
      else case ctxErr of
          Some e \<Rightarrow> (q\<lparr>sq_done := True\<rparr>, Some e)
        | None \<Rightarrow> (q, None))"

definition enqueueNewRequests ::
  "('k, 'm, 'a, 'h, 'rt) SimpleQuery \<Rightarrow> (('k, 'm, 'a, 'h, 'rt) SimpleQuery \<times> ('k, 'm) SQEffect list) option" where
  "enqueueNewRequests q =
     (let free = sq_concurrency q - sq_inflightRequests q;
          newRequestsToSend = (if pl_queuedCount (sq_peerlist q) < free then pl_queuedCount (sq_peerlist q) else free) in
      if newRequestsToSend = 0 \<and> sq_inflightRequests q = 0 then do {
        _ \<leftarrow> sq_notifyFailureFn q;
        Some (q\<lparr>sq_done := True\<rparr>, [NotifyFailure])
      }
      else Some (q\<lparr>sq_inflightRequests := sq_inflightRequests q + newRequestsToSend\<rparr>,
                 replicate (nat newRequestsToSend) EnqueueNewRequest))"

definition decInflight :: "('k, 'm, 'a, 'h, 'rt) SimpleQuery \<Rightarrow> ('k, 'm, 'a, 'h, 'rt) SimpleQuery" where
  "decInflight q = q\<lparr>sq_inflightRequests := sq_inflightRequests q - 1\<rparr>"

definition requestError ::
  "'k Key \<Rightarrow> ('k, 'rt, 'z) RoutingTable_scheme \<Rightarrow> (nat \<Rightarrow> string option) \<Rightarrow> ('k, 'm, 'a, 'h, 'rt) SimpleQuery \<Rightarrow> 'k NodeID \<Rightarrow>
   (('k, 'm, 'a, 'h, 'rt) SimpleQuery \<times> ('k, 'm) SQEffect list) option" where
  "requestError K RT ctxErr q nid = do {
     let q1 = decInflight q;
     q2 \<leftarrow> (if ctxErr 0 = None then do {
              (rt, _) \<leftarrow> RemoveKey RT (sq_rt q1) (nodeKey nid);
              Some (q1\<lparr>sq_rt := rt\<rparr>)
            } else Some q1);
     let (q3, err) = checkIfDone (ctxErr 1) q2;
     (case err of
        Some e \<Rightarrow> Some (q3, [])
      | None \<Rightarrow> do {
          pl \<leftarrow> unreachablePeer K (sq_peerlist q3) nid;
          enqueueNewRequests (q3\<lparr>sq_peerlist := pl\<rparr>)
        })
   }"

definition newRequest ::
  "'k Key \<Rightarrow> ('k, 'rt, 'z) RoutingTable_scheme \<Rightarrow> ('k, 'a) network \<Rightarrow> (nat \<Rightarrow> string option) \<Rightarrow> ('k NodeID \<Rightarrow> string option) \<Rightarrow>
   ('k, 'm, 'a, 'h, 'rt) SimpleQuery \<Rightarrow> (('k, 'm, 'a, 'h, 'rt) SimpleQuery \<times> ('k, 'm) SQEffect list) option" where
  "newRequest K RT net ctxErr sendErr q = do {
     let (q1, err) = checkIfDone (ctxErr 0) q;
     (case err of
        Some e \<Rightarrow> Some (decInflight q1, [])
      | None \<Rightarrow> do {
          (pl, nid) \<leftarrow> popClosestQueued net (sq_peerlist q1);
          let q2 = q1\<lparr>sq_peerlist := pl\<rparr>;
          (case nid of
             None \<Rightarrow> Some (decInflight q2, [])
           | Some i \<Rightarrow> do {
               let send = SendRequest (sq_protoID q2) i (sq_req q2) (sq_timeout q2);
               (case sendErr i of
                  Some e \<Rightarrow> do {
                    (q3, effs) \<leftarrow> requestError K RT (\<lambda>n. ctxErr (n + 1)) q2 i;
                    Some (q3, send # effs)
                  }
                | None \<Rightarrow> Some (q2, [send]))
             })
        })
   }"

text \<open>The loop that drops the local node from the identifiers that the handler returned.\<close>

fun dropSelf :: "'k Key \<Rightarrow> 'k NodeID \<Rightarrow> 'k NodeID option list \<Rightarrow> 'k NodeID option list option" where
  "dropSelf K self [] = Some []"
| "dropSelf K self (i # is) = do {
     n \<leftarrow> i;
     eq \<leftarrow> Equal K (nodeKey self) (nodeKey n);
     rest \<leftarrow> dropSelf K self is;
     Some (if \<not> eq then i # rest else rest)
   }"

definition handleResponse ::
  "'k Key \<Rightarrow> ('k, 'rt, 'z) RoutingTable_scheme \<Rightarrow> ('a \<Rightarrow> 'a \<Rightarrow> bool) \<Rightarrow> sliceSort \<Rightarrow> ('k, 'a) network \<Rightarrow> (nat \<Rightarrow> string option) \<Rightarrow>
   ('k, 'm, 'a, 'h, 'rt) SimpleQuery \<Rightarrow> 'h \<Rightarrow> 'k NodeID \<Rightarrow> ('k, 'a) Response option \<Rightarrow>
   (('k, 'm, 'a, 'h, 'rt) SimpleQuery \<times> 'h \<times> ('k, 'm) SQEffect list) option" where
  "handleResponse K RT aeq srt net ctxErr q h nid resp = do {
     let (q1, err) = checkIfDone (ctxErr 0) q;
     (case (err, resp) of
        (Some e, _) \<Rightarrow> Some (q1, h, [])
      | (None, None) \<Rightarrow> do { (q2, effs) \<leftarrow> requestError K RT (\<lambda>n. ctxErr (n + 1)) q1 nid; Some (q2, h, effs) }
      | (None, Some r) \<Rightarrow> do {
          q2 \<leftarrow> (if length (CloserNodes r) > 0 then do {
                   (rt, _) \<leftarrow> AddNode RT (sq_rt q1) nid;
                   Some (q1\<lparr>sq_rt := rt\<rparr>)
                 } else Some q1);
          let q3 = decInflight q2;
          pl \<leftarrow> queriedPeer (sq_peerlist q3) nid;
          let q4 = q3\<lparr>sq_peerlist := pl\<rparr>;
          fn \<leftarrow> sq_handleResultFn q4;
          let (h1, stop, usefulNodeIDs) = handleResult fn h nid r;
          if stop then Some (q4\<lparr>sq_done := True\<rparr>, h1, [])
          else do {
            useful \<leftarrow> dropSelf K (sq_self q4) usefulNodeIDs;
            pl1 \<leftarrow> addToPeerlist K aeq srt net (sq_peerlist q4) useful;
            (q5, effs) \<leftarrow> enqueueNewRequests (q4\<lparr>sq_peerlist := pl1\<rparr>);
            Some (q5, h1, effs)
          }
        })
   }"

definition NewSimpleQuery ::
  "'k Key \<Rightarrow> ('k, 'rt, 'z) RoutingTable_scheme \<Rightarrow> ('a \<Rightarrow> 'a \<Rightarrow> bool) \<Rightarrow> sliceSort \<Rightarrow> ('k, 'a) network \<Rightarrow> 'k NodeID \<Rightarrow>
   ('k, 'm) Request \<Rightarrow> ('k, 'a, 'h, 'rt) SQOption list \<Rightarrow>
   (string + ('k, 'm, 'a, 'h, 'rt) SimpleQuery \<times> ('k, 'm) SQEffect list) option" where
  "NewSimpleQuery K RT aeq srt net self req opts =
     (case Config_Apply zeroConfig (SQDefaultConfig # opts) of
        Inl err \<Rightarrow> Some (Inl err)
      | Inr cfg \<Rightarrow> do {
          rt \<leftarrow> cfgRoutingTable cfg;
          networked \<leftarrow> cfgEndpoint cfg;
          closestPeers \<leftarrow> NearestNodes RT rt (Target req) (cfgNumberUsefulCloserPeers cfg);
          if closestPeers = [] then Some (Inl ''no peers in routing table'')
          else do {
            pl \<leftarrow> addToPeerlist K aeq srt net (newPeerList (Target req) networked) (map Some closestPeers);
            (q, effs) \<leftarrow> enqueueNewRequests
              \<lparr>sq_self = self, sq_done = False, sq_protoID = cfgProtocolID cfg, sq_req = req,
               sq_concurrency = cfgConcurrency cfg, sq_peerstoreTTL = cfgPeerstoreTTL cfg,
               sq_timeout = cfgRequestTimeout cfg, sq_rt = rt, sq_inflightRequests = 0, sq_peerlist = pl,
               sq_handleResultFn = cfgHandleResultsFunc cfg, sq_notifyFailureFn = cfgNotifyFailureFunc cfg\<rparr>;
            Some (Inr (q, effs))
          }
        })"

end
