(* ===== verification/Simple_Query_Run.thy ===== *)
theory Simple_Query_Run
  imports Simple_Query
begin

text \<open>
  The query of \<open>query/simplequery\<close> in its surroundings: the events that can happen to it, the states
  it reaches, the invariant of these states and its properties.
\<close>

section \<open>The query and its surroundings\<close>

text \<open>
  The query runs as a state machine: an action in the scheduler's queue runs \<open>newRequest\<close>, and the
  handler of an open request is called once, with a response or an error. Which comes next, what the
  context returns, what the endpoint knows at that moment and what the peers answer is up to the
  surroundings.
\<close>

record ('k, 'm, 'a, 'h, 'rt) SQWorld =
  w_q :: "('k, 'm, 'a, 'h, 'rt) SimpleQuery"
  w_h :: 'h
  w_actions :: nat
  w_open :: "'k NodeID list"
  w_asked :: "'k NodeID list"
  w_failures :: nat

datatype ('k, 'a) SQEvent =
    RunAction "nat \<Rightarrow> string option" "('k, 'a) network" "'k NodeID \<Rightarrow> string option"
  | Respond "nat \<Rightarrow> string option" "('k, 'a) network" "'k NodeID" "('k, 'a) Response option"
  | Fail "nat \<Rightarrow> string option" "'k NodeID"

fun applyEffect ::
  "('k NodeID \<Rightarrow> string option) \<Rightarrow> ('k, 'm) SQEffect \<Rightarrow> ('k, 'm, 'a, 'h, 'rt) SQWorld \<Rightarrow> ('k, 'm, 'a, 'h, 'rt) SQWorld" where
  "applyEffect se EnqueueNewRequest w = w\<lparr>w_actions := w_actions w + 1\<rparr>"
| "applyEffect se (SendRequest pid i req t) w =
     w\<lparr>w_asked := w_asked w @ [i], w_open := (if se i = None then w_open w @ [i] else w_open w)\<rparr>"
| "applyEffect se NotifyFailure w = w\<lparr>w_failures := w_failures w + 1\<rparr>"

fun sq_enabled :: "('k, 'a) SQEvent \<Rightarrow> ('k, 'm, 'a, 'h, 'rt) SQWorld \<Rightarrow> bool" where
  "sq_enabled (RunAction ce net se) w \<longleftrightarrow> w_actions w > 0"
| "sq_enabled (Respond ce net i resp) w \<longleftrightarrow> i \<in> set (w_open w)"
| "sq_enabled (Fail ce i) w \<longleftrightarrow> i \<in> set (w_open w)"

fun sq_exec ::
  "'k Key \<Rightarrow> ('k, 'rt, 'z) RoutingTable_scheme \<Rightarrow> ('a \<Rightarrow> 'a \<Rightarrow> bool) \<Rightarrow> sliceSort \<Rightarrow>
   ('k, 'a) SQEvent \<Rightarrow> ('k, 'm, 'a, 'h, 'rt) SQWorld \<Rightarrow> ('k, 'm, 'a, 'h, 'rt) SQWorld option" where
  "sq_exec K RT aeq srt (RunAction ce net se) w = do {
     (q, effs) \<leftarrow> newRequest K RT net ce se (w_q w);
     Some (fold (applyEffect se) effs (w\<lparr>w_q := q, w_actions := w_actions w - 1\<rparr>))
   }"
| "sq_exec K RT aeq srt (Respond ce net i resp) w = do {
     (q, h, effs) \<leftarrow> handleResponse K RT aeq srt net ce (w_q w) (w_h w) i resp;
     Some (fold (applyEffect (\<lambda>_. None)) effs (w\<lparr>w_q := q, w_h := h, w_open := remove1 i (w_open w)\<rparr>))
   }"
| "sq_exec K RT aeq srt (Fail ce i) w = do {
     (q, effs) \<leftarrow> requestError K RT ce (w_q w) i;
     Some (fold (applyEffect (\<lambda>_. None)) effs (w\<lparr>w_q := q, w_open := remove1 i (w_open w)\<rparr>))
   }"

text \<open>The identifiers in use: their keys are valid, and their strings tell them apart.\<close>

definition ids_ok :: "('k \<Rightarrow> bool) \<Rightarrow> ('k NodeID \<Rightarrow> bool) \<Rightarrow> bool" where
  "ids_ok valid idok \<longleftrightarrow> (\<forall>i. idok i \<longrightarrow> valid (nodeKey i)) \<and>
     (\<forall>i j. idok i \<and> idok j \<and> nodeString i = nodeString j \<longrightarrow> nodeKey i = nodeKey j)"

definition resp_ok :: "('k NodeID \<Rightarrow> bool) \<Rightarrow> ('k, 'a) Response \<Rightarrow> bool" where
  "resp_ok idok r \<longleftrightarrow> (\<forall>n \<in> set (CloserNodes r). idok (infoID n))"

definition handler_ok :: "('k NodeID \<Rightarrow> bool) \<Rightarrow> ('k, 'a, 'h) HandleResult \<Rightarrow> bool" where
  "handler_ok idok fn \<longleftrightarrow> (\<forall>h i r. idok i \<and> resp_ok idok r \<longrightarrow>
     (\<forall>j \<in> set (snd (snd (handleResult fn h i r))). \<exists>k. j = Some k \<and> idok k))"

text \<open>
  What an event must be like at the moment that it comes, for a list that asks a networked endpoint for
  addresses. When a request is sent the endpoint has an address for every peer that is still to be asked.
  When an answer comes the endpoint returns a node info or an error, and no address for a peer that was
  asked, and has not answered, that was not there when it was asked. The identifiers in an answer are
  in use. Otherwise the endpoint is free to learn and to forget.
\<close>

definition known_queued :: "('k, 'a) network \<Rightarrow> ('k, 'a) PeerList \<Rightarrow> bool" where
  "known_queued net pl \<longleftrightarrow> (pl_endpoint pl \<longrightarrow> (\<forall>p \<in> set (peers pl). is_queued p \<longrightarrow> fst (net (ni_id p)) \<noteq> None))"

definition nothing_fresh :: "('a \<Rightarrow> 'a \<Rightarrow> bool) \<Rightarrow> ('k, 'a) network \<Rightarrow> ('k, 'a) PeerList \<Rightarrow> bool" where
  "nothing_fresh aeq net pl \<longleftrightarrow> net_ok net \<and>
     (pl_endpoint pl \<longrightarrow> (\<forall>p \<in> set (peers pl). ni_status p \<in> {waiting, unreachable} \<longrightarrow> \<not> fresh_addr aeq net p))"

fun event_ok ::
  "('k NodeID \<Rightarrow> bool) \<Rightarrow> ('a \<Rightarrow> 'a \<Rightarrow> bool) \<Rightarrow> ('k, 'a) SQEvent \<Rightarrow> ('k, 'm, 'a, 'h, 'rt) SQWorld \<Rightarrow> bool" where
  "event_ok idok aeq (RunAction ce net se) w \<longleftrightarrow> known_queued net (sq_peerlist (w_q w))"
| "event_ok idok aeq (Respond ce net i resp) w \<longleftrightarrow> nothing_fresh aeq net (sq_peerlist (w_q w)) \<and>
     (case resp of None \<Rightarrow> True | Some r \<Rightarrow> resp_ok idok r)"
| "event_ok idok aeq (Fail ce i) w \<longleftrightarrow> True"

definition start_world :: "('k, 'm, 'a, 'h, 'rt) SimpleQuery \<Rightarrow> ('k, 'm) SQEffect list \<Rightarrow> 'h \<Rightarrow> ('k, 'm, 'a, 'h, 'rt) SQWorld" where
  "start_world q effs h =
     fold (applyEffect (\<lambda>_. None)) effs \<lparr>w_q = q, w_h = h, w_actions = 0, w_open = [], w_asked = [], w_failures = 0\<rparr>"

text \<open>The states that a query can reach.\<close>

inductive sq_reach ::
  "'k Key \<Rightarrow> ('k, 'rt, 'z) RoutingTable_scheme \<Rightarrow> ('a \<Rightarrow> 'a \<Rightarrow> bool) \<Rightarrow> sliceSort \<Rightarrow>
   ('k NodeID \<Rightarrow> bool) \<Rightarrow> ('k, 'm, 'a, 'h, 'rt) SQWorld \<Rightarrow> ('k, 'm, 'a, 'h, 'rt) SQWorld \<Rightarrow> bool"
  for K RT aeq srt idok w0 where
  sq_start: "sq_reach K RT aeq srt idok w0 w0"
| sq_step: "sq_reach K RT aeq srt idok w0 w \<Longrightarrow> event_ok idok aeq ev w \<Longrightarrow> sq_enabled ev w \<Longrightarrow>
    sq_exec K RT aeq srt ev w = Some w' \<Longrightarrow> sq_reach K RT aeq srt idok w0 w'"

section \<open>The invariant\<close>

definition peer_steady :: "('k NodeID \<Rightarrow> bool) \<Rightarrow> 'k NodeID \<Rightarrow> ('k, 'a) nodeInfo \<Rightarrow> bool" where
  "peer_steady idok self p \<longleftrightarrow> idok (ni_id p) \<and> nodeKey (ni_id p) \<noteq> nodeKey self \<and> \<not> ni_tryAgainOnFailure p"

text \<open>The books of a query that is not done, for the actions and open requests around it.\<close>

definition sq_core ::
  "'k Key \<Rightarrow> ('k \<Rightarrow> bool) \<Rightarrow> ('k \<Rightarrow> bool list) \<Rightarrow> ('k NodeID \<Rightarrow> bool) \<Rightarrow>
   ('k, 'm, 'a, 'h, 'rt) SimpleQuery \<Rightarrow> nat \<Rightarrow> 'k NodeID list \<Rightarrow> 'k NodeID list \<Rightarrow> bool" where
  "sq_core K valid bits idok q acts opn ask \<longleftrightarrow>
     (let pl = sq_peerlist q; ps = set (peers pl) in
      \<not> sq_done q \<and> pl_inv K valid bits pl \<and>
      (\<forall>p \<in> ps. peer_steady idok (sq_self q) p) \<and>
      ni_id ` {p \<in> ps. ni_status p = waiting} = set opn \<and> distinct (map nodeKey opn) \<and>
      nodeKey ` set ask = peer_key ` {p \<in> ps. \<not> is_queued p} \<and> distinct (map nodeKey ask) \<and>
      sq_inflightRequests q = int acts + int (length opn) \<and> sq_inflightRequests q \<le> sq_concurrency q \<and>
      0 < sq_concurrency q \<and> idok (sq_self q) \<and> sq_notifyFailureFn q \<noteq> None \<and>
      (\<exists>fn. sq_handleResultFn q = Some fn \<and> handler_ok idok fn))"

definition sq_busy :: "('k, 'm, 'a, 'h, 'rt) SimpleQuery \<Rightarrow> nat \<Rightarrow> bool" where
  "sq_busy q acts \<longleftrightarrow> sq_inflightRequests q = sq_concurrency q \<or> pl_queuedCount (sq_peerlist q) \<le> int acts"

definition sq_inv ::
  "'k Key \<Rightarrow> ('k \<Rightarrow> bool) \<Rightarrow> ('k \<Rightarrow> bool list) \<Rightarrow> ('rt \<Rightarrow> bool) \<Rightarrow> ('k NodeID \<Rightarrow> bool) \<Rightarrow>
   ('k, 'm, 'a, 'h, 'rt) SQWorld \<Rightarrow> bool" where
  "sq_inv K valid bits rtinv idok w \<longleftrightarrow>
     rtinv (sq_rt (w_q w)) \<and> (\<forall>i \<in> set (w_open w). idok i) \<and> distinct (map nodeKey (w_asked w)) \<and>
     nodeKey (sq_self (w_q w)) \<notin> nodeKey ` set (w_asked w) \<and>
     w_failures w \<le> 1 \<and>
     (\<not> sq_done (w_q w) \<longrightarrow> w_failures w = 0 \<and>
        sq_core K valid bits idok (w_q w) (w_actions w) (w_open w) (w_asked w) \<and> sq_busy (w_q w) (w_actions w))"

locale simple_query_env = peer_list_env K valid len bits srt + routing_table RT valid bits rtinv contents
  for K :: "'k Key" and valid len bits srt and RT :: "('k, 'rt, 'z) RoutingTable_scheme" and rtinv contents
begin

lemma nothing_fresh_again:
  assumes "nothing_fresh aeq net pl" "p \<in> set (peers pl)"
  shows "\<not> revives aeq net (pl_endpoint pl) p" "again aeq net (pl_endpoint pl) p = p"
  using assms by (auto simp: nothing_fresh_def revives_def again_def)

lemma peers_distinct: "pl_inv K valid bits pl \<Longrightarrow> distinct (map peer_key (peers pl))"
proof -
  assume "pl_inv K valid bits pl"
  then have ok: "peers_ok K valid bits pl (peer_refs pl)" by (simp add: pl_inv_def)
  let ?rs = "peer_refs pl" and ?st = "pl_store pl" and ?t = "pl_target pl"
  have t: "valid ?t" and nok: "\<And>r. r \<in> set ?rs \<Longrightarrow> node_ok K valid ?t (?st ! r)"
    and s: "sorted_wrt (<) (map (nd ?st) ?rs)" using ok by (auto simp: peers_ok_def)
  have "map (nd ?st) ?rs = map (\<lambda>k. dist k ?t) (map peer_key (peers pl))"
    using nok t by (auto simp: peers_def node_ok_dist)
  with s show ?thesis by (metis distinct_map strict_sorted_iff)
qed

lemma queuedCount_law: "pl_inv K valid bits pl \<Longrightarrow> pl_queuedCount pl = int (length (filter is_queued (peers pl)))"
  by (simp add: pl_inv_def peers_ok_def peers_def count_queued_def filter_map o_def)

text \<open>The scheduler is given as many actions as there is room and there are queued peers for.\<close>

lemma enqueueNewRequests_law:
  assumes core: "sq_core K valid bits idok q acts opn ask"
  obtains (failed) "enqueueNewRequests q = Some (q\<lparr>sq_done := True\<rparr>, [NotifyFailure])"
      "acts = 0" "opn = []" "\<forall>p \<in> set (peers (sq_peerlist q)). \<not> is_queued p"
  | (more) n where "enqueueNewRequests q =
        Some (q\<lparr>sq_inflightRequests := sq_inflightRequests q + int n\<rparr>, replicate n EnqueueNewRequest)"
      "sq_core K valid bits idok (q\<lparr>sq_inflightRequests := sq_inflightRequests q + int n\<rparr>) (acts + n) opn ask"
      "sq_busy (q\<lparr>sq_inflightRequests := sq_inflightRequests q + int n\<rparr>) (acts + n)"
proof -
  define c where "c = pl_queuedCount (sq_peerlist q)"
  have I: "sq_inflightRequests q = int acts + int (length opn)" "sq_inflightRequests q \<le> sq_concurrency q"
    "0 < sq_concurrency q" "sq_notifyFailureFn q = Some ()" "pl_inv K valid bits (sq_peerlist q)"
    using core by (auto simp: sq_core_def Let_def)
  have c: "c = int (length (filter is_queued (peers (sq_peerlist q))))"
    unfolding c_def by (rule queuedCount_law [OF I(5)])
  define n where "n = nat (min c (sq_concurrency q - sq_inflightRequests q))"
  have n: "int n = (if c < sq_concurrency q - sq_inflightRequests q then c else sq_concurrency q - sq_inflightRequests q)"
    using I(2) c by (auto simp: n_def)
  show thesis
  proof (cases "n = 0 \<and> sq_inflightRequests q = 0")
    case True
    then have "c = 0" using n I(3) by (auto split: if_splits)
    then have "\<forall>p \<in> set (peers (sq_peerlist q)). \<not> is_queued p" using c by (auto simp: filter_empty_conv)
    moreover have "enqueueNewRequests q = Some (q\<lparr>sq_done := True\<rparr>, [NotifyFailure])"
      using True I(3,4) \<open>c = 0\<close> by (simp add: enqueueNewRequests_def Let_def c_def)
    moreover have "acts = 0" "length opn = 0" using True I(1) by linarith+
    then have "acts = 0" "opn = []" by simp_all
    ultimately show thesis by (intro failed)
  next
    case False
    let ?q = "q\<lparr>sq_inflightRequests := sq_inflightRequests q + int n\<rparr>"
    have "enqueueNewRequests q = Some (?q, replicate n EnqueueNewRequest)"
      unfolding enqueueNewRequests_def Let_def c_def [symmetric] n [symmetric]
      by (simp only: of_nat_eq_0_iff False if_False nat_int)
    moreover have "sq_core K valid bits idok ?q (acts + n) opn ask"
      using core n by (auto simp: sq_core_def Let_def)
    moreover have "sq_busy ?q (acts + n)" using n I(1) by (auto simp: sq_busy_def c_def split: if_splits)
    ultimately show thesis by (rule more)
  qed
qed

end


text \<open>The peer of an open request is the first one with its identifier string.\<close>

lemma upd_first_set:
  assumes "p \<in> set ps" "nodeString (ni_id p) = s" "\<And>q. q \<in> set ps \<Longrightarrow> nodeString (ni_id q) = s \<Longrightarrow> q = p"
    "distinct ps"
  shows "set (upd_first s f ps) = insert (f p) (set ps - {p})"
  using assms
proof (induction ps)
  case (Cons a ps)
  show ?case
  proof (cases "nodeString (ni_id a) = s")
    case True
    then have "a = p" using Cons.prems(3) by simp
    with True Cons.prems(4) show ?thesis by auto
  next
    case False
    have ap: "a \<noteq> p" using False Cons.prems(2) by auto
    have "set (upd_first s f ps) = insert (f p) (set ps - {p})"
    proof (rule Cons.IH [OF _ Cons.prems(2)])
      show "p \<in> set ps" using Cons.prems(1) ap by simp
      show "q = p" if "q \<in> set ps" "nodeString (ni_id q) = s" for q
        by (rule Cons.prems(3)) (simp_all add: that)
      show "distinct ps" using Cons.prems(4) by simp
    qed
    with ap show ?thesis using False by (simp add: insert_Diff_if insert_commute)
  qed
qed simp

context simple_query_env
begin

lemma open_peer:
  assumes ids: "ids_ok valid idok" and core: "sq_core K valid bits idok q acts opn ask" and i: "i \<in> set opn"
  obtains p where "p \<in> set (peers (sq_peerlist q))" "ni_id p = i" "ni_status p = waiting" "\<not> ni_tryAgainOnFailure p" "idok i"
    "\<And>f. set (upd_first (nodeString i) f (peers (sq_peerlist q))) = insert (f p) (set (peers (sq_peerlist q)) - {p})"
    "List.find (\<lambda>p. nodeString (ni_id p) = nodeString i) (peers (sq_peerlist q)) = Some p"
proof -
  let ?ps = "peers (sq_peerlist q)"
  have C: "pl_inv K valid bits (sq_peerlist q)" "\<And>p. p \<in> set ?ps \<Longrightarrow> peer_steady idok (sq_self q) p"
    "ni_id ` {p \<in> set ?ps. ni_status p = waiting} = set opn"
    using core by (auto simp: sq_core_def Let_def)
  have "i \<in> ni_id ` {p \<in> set ?ps. ni_status p = waiting}" unfolding C(3) by (rule i)
  then obtain p where p: "p \<in> set ?ps" "ni_id p = i" "ni_status p = waiting" by auto
  have d: "distinct (map peer_key ?ps)" by (rule peers_distinct [OF C(1)])
  have uniq: "q = p" if q: "q \<in> set ?ps" "nodeString (ni_id q) = nodeString i" for q
  proof -
    have "peer_key q = peer_key p"
      using q p ids C(2) [OF q(1)] C(2) [OF p(1)] by (auto simp: ids_ok_def peer_steady_def peer_key_def)
    with d q(1) p(1) show "q = p" by (auto simp: distinct_map inj_on_def)
  qed
  have fnd: "List.find (\<lambda>p. nodeString (ni_id p) = nodeString i) ?ps = Some p"
  proof (cases "List.find (\<lambda>p. nodeString (ni_id p) = nodeString i) ?ps")
    case None
    with p show ?thesis by (auto simp: find_None_iff)
  next
    case (Some x)
    from find_split [OF this] obtain us vs where "?ps = us @ x # vs" "nodeString (ni_id x) = nodeString i" by (elim exE conjE)
    then show ?thesis using uniq [of x] Some by simp
  qed
  have "distinct ?ps" using d by (simp add: distinct_map)
  then have us: "set (upd_first (nodeString i) f ?ps) = insert (f p) (set ?ps - {p})" for f
    using upd_first_set [OF p(1) _ uniq] p(2) by simp
  have "\<not> ni_tryAgainOnFailure p" "idok i" using C(2) [OF p(1)] p(2) by (simp_all add: peer_steady_def)
  then show thesis by (rule that [OF p _ _ us fnd])
qed

text \<open>A request is over: its peer gets another status, and the books are kept.\<close>

lemma close_request:
  assumes core: "sq_core K valid bits idok q acts opn ask" and i: "i \<in> set opn"
    and p: "p \<in> set (peers (sq_peerlist q))" "ni_id p = i" "ni_status p = waiting"
    and pl': "pl_inv K valid bits pl'" "set (peers pl') = insert (p\<lparr>ni_status := s\<rparr>) (set (peers (sq_peerlist q)) - {p})"
      "pl_endpoint pl' = pl_endpoint (sq_peerlist q)"
    and s: "s = queried \<or> s = unreachable"
    and q': "q' = q\<lparr>sq_inflightRequests := sq_inflightRequests q - 1, sq_rt := rt, sq_peerlist := pl'\<rparr>"
  shows "sq_core K valid bits idok q' acts (remove1 i opn) ask"
proof -
  let ?ps = "set (peers (sq_peerlist q))" and ?p = "p\<lparr>ni_status := s\<rparr>"
  have C: "pl_inv K valid bits (sq_peerlist q)" "\<And>p. p \<in> ?ps \<Longrightarrow> peer_steady idok (sq_self q) p"
    "ni_id ` {p \<in> ?ps. ni_status p = waiting} = set opn" "distinct (map nodeKey opn)"
    "nodeKey ` set ask = peer_key ` {p \<in> ?ps. \<not> is_queued p}" "sq_inflightRequests q = int acts + int (length opn)"
    using core by (auto simp: sq_core_def Let_def)
  have d: "distinct (map peer_key (peers (sq_peerlist q)))" by (rule peers_distinct [OF C(1)])
  have ne: "ni_id x \<noteq> i" if "x \<in> ?ps" "x \<noteq> p" for x
    using that p d by (auto simp: distinct_map inj_on_def peer_key_def)
  have "ni_id ` {x \<in> set (peers pl'). ni_status x = waiting} = set opn - {i}"
    unfolding pl'(2) C(3) [symmetric] using s p ne by auto
  moreover have "peer_key ` {x \<in> set (peers pl'). \<not> is_queued x} = peer_key ` {p \<in> ?ps. \<not> is_queued p}"
  proof -
    have "{x \<in> set (peers pl'). \<not> is_queued x} = insert ?p ({x \<in> ?ps. \<not> is_queued x} - {p})"
      unfolding pl'(2) using s by auto
    moreover have "peer_key ` insert ?p S = peer_key ` insert p S" for S by (simp add: peer_key_def)
    moreover have "insert p ({x \<in> ?ps. \<not> is_queued x} - {p}) = {x \<in> ?ps. \<not> is_queued x}" using p by auto
    ultimately show ?thesis by (simp only:)
  qed
  moreover have "peer_steady idok (sq_self q) x" if "x \<in> set (peers pl')" for x
    using that C(2) p s unfolding pl'(2,3) by (fastforce simp: peer_steady_def)
  moreover have "distinct opn" "int (length (remove1 i opn)) = int (length opn) - 1"
    using C(4) i by (simp_all add: distinct_map length_remove1) (cases opn; simp)
  moreover from this have "distinct (map nodeKey (remove1 i opn))" "set (remove1 i opn) = set opn - {i}"
    using C(4) by (auto simp: distinct_map inj_on_def)
  ultimately show ?thesis using core pl'(1) unfolding q'
    by (simp add: sq_core_def Let_def)
qed

lemma requestError_law:
  assumes ids: "ids_ok valid idok" and core: "sq_core K valid bits idok q acts opn ask" and i: "i \<in> set opn"
    and rt: "rtinv (sq_rt q)"
  shows "\<exists>q' effs. requestError K RT ctxErr q i = Some (q', effs) \<and> rtinv (sq_rt q') \<and> sq_self q' = sq_self q \<and>
    (sq_done q' \<and> (effs = [] \<or> effs = [NotifyFailure]) \<or>
     (\<exists>n. effs = replicate n EnqueueNewRequest \<and>
       sq_core K valid bits idok q' (acts + n) (remove1 i opn) ask \<and> sq_busy q' (acts + n)))"
proof -
  obtain p where p: "p \<in> set (peers (sq_peerlist q))" "ni_id p = i" "ni_status p = waiting" "\<not> ni_tryAgainOnFailure p" "idok i"
    "\<And>f. set (upd_first (nodeString i) f (peers (sq_peerlist q))) = insert (f p) (set (peers (sq_peerlist q)) - {p})"
    "List.find (\<lambda>p. nodeString (ni_id p) = nodeString i) (peers (sq_peerlist q)) = Some p"
    by (rule open_peer [OF ids core i]) (rule that)
  have vi: "valid (nodeKey i)" using ids p(5) unfolding ids_ok_def by blast
  have nd: "\<not> sq_done q" and inv: "pl_inv K valid bits (sq_peerlist q)" using core by (auto simp: sq_core_def Let_def)
  obtain rt' where rt': "RemoveKey RT (sq_rt q) (nodeKey i) = Some (rt', nodeKey i \<in> dom (contents (sq_rt q)))" "rtinv rt'"
    using RemoveKey_law [OF rt vi] by blast
  define rt1 where "rt1 = (if ctxErr 0 = None then rt' else sq_rt q)"
  have rt1: "rtinv rt1" using rt rt'(2) by (simp add: rt1_def)
  show ?thesis
  proof (cases "ctxErr 1")
    case (Some e)
    then have "requestError K RT ctxErr q i =
        Some (q\<lparr>sq_inflightRequests := sq_inflightRequests q - 1, sq_rt := rt1, sq_done := True\<rparr>, [])"
      using nd rt' by (simp add: requestError_def checkIfDone_def decInflight_def rt1_def Let_def)
    then show ?thesis using rt1 by simp
  next
    case None
    have "unreachablePeer K (sq_peerlist q) i \<noteq> None"
      using unreachablePeer_law(1) [OF inv, of i] p(4,7) by auto
    then obtain pl' where u: "unreachablePeer K (sq_peerlist q) i = Some pl'" by blast
    have fp: "failed_peer p = p\<lparr>ni_status := unreachable\<rparr>" using p by (simp add: failed_peer_def)
    have pl': "pl_inv K valid bits pl'" "set (peers pl') = insert (p\<lparr>ni_status := unreachable\<rparr>) (set (peers (sq_peerlist q)) - {p})"
      "pl_endpoint pl' = pl_endpoint (sq_peerlist q)"
      using unreachablePeer_law(2) [OF inv u] p(6) [of failed_peer] fp by simp_all
    define q1 where "q1 = q\<lparr>sq_inflightRequests := sq_inflightRequests q - 1, sq_rt := rt1, sq_peerlist := pl'\<rparr>"
    have core1: "sq_core K valid bits idok q1 acts (remove1 i opn) ask"
      by (rule close_request [OF core i p(1-3) pl' _ q1_def]) simp
    have eq: "requestError K RT ctxErr q i = enqueueNewRequests q1"
      using None nd u rt' by (simp add: requestError_def checkIfDone_def decInflight_def q1_def rt1_def Let_def)
    from core1 show ?thesis
    proof (cases rule: enqueueNewRequests_law)
      case failed
      then show ?thesis using rt1 by (simp add: eq q1_def)
    next
      case (more n)
      show ?thesis unfolding eq more(1) using more(2,3) rt1 by (auto simp: q1_def)
    qed
  qed
qed

end


context simple_query_env
begin

lemma core_pop:
  assumes core: "sq_core K valid bits idok q acts opn ask" and net: "known_queued net (sq_peerlist q)"
  shows "popClosestQueued net (sq_peerlist q) = Some (sq_peerlist q, None) \<and>
      (\<forall>p \<in> set (peers (sq_peerlist q)). \<not> is_queued p) \<or>
    (\<exists>pl' us p vs. popClosestQueued net (sq_peerlist q) = Some (pl', Some (ni_id p)) \<and> pl_inv K valid bits pl' \<and>
      peers (sq_peerlist q) = us @ p # vs \<and> is_queued p \<and> (\<forall>u \<in> set us. \<not> is_queued u) \<and>
      peers pl' = us @ asked net (pl_endpoint (sq_peerlist q)) p # vs \<and>
      pl_endpoint pl' = pl_endpoint (sq_peerlist q) \<and> pl_queuedCount pl' = pl_queuedCount (sq_peerlist q) - 1)"
proof -
  let ?pl = "sq_peerlist q"
  have inv: "pl_inv K valid bits ?pl" using core by (simp add: sq_core_def Let_def)
  then have ok: "peers_ok K valid bits ?pl (peer_refs ?pl)" by (simp add: pl_inv_def)
  show ?thesis
  proof (cases "pl_closestQueued ?pl")
    case None
    moreover have "\<forall>p \<in> set (peers ?pl). \<not> is_queued p"
      using None ok first_queued_None [of "pl_store ?pl" "peer_refs ?pl"] by (auto simp: set_peers [OF ok] peers_ok_def)
    ultimately show ?thesis using pop_empty by blast
  next
    case (Some r)
    have "r \<in> set (peer_refs ?pl)" "is_queued (pl_store ?pl ! r)"
      using Some ok first_queued_mem [of "pl_store ?pl" "peer_refs ?pl" r] by (auto simp: peers_ok_def)
    then have "body (pl_store ?pl ! r) \<in> set (peers ?pl)" "is_queued (body (pl_store ?pl ! r))" by (auto simp: set_peers [OF ok])
    then have "pl_endpoint ?pl \<Longrightarrow> fst (net (ni_id (pl_store ?pl ! r))) \<noteq> None" using net unfolding known_queued_def by fastforce
    from popClosestQueued_law [OF inv Some, of net, OF this] show ?thesis by blast
  qed
qed

text \<open>A request for the closest queued peer: it is waiting from now on.\<close>

lemma open_request:
  assumes core: "sq_core K valid bits idok q (Suc acts) opn ask"
    and pl': "pl_inv K valid bits pl'" "peers (sq_peerlist q) = us @ p # vs" "is_queued p"
      "peers pl' = us @ asked net (pl_endpoint (sq_peerlist q)) p # vs" "pl_endpoint pl' = pl_endpoint (sq_peerlist q)"
  shows "sq_core K valid bits idok (q\<lparr>sq_peerlist := pl'\<rparr>) acts (opn @ [ni_id p]) (ask @ [ni_id p])"
    "ni_id p \<notin> set opn" "nodeKey (ni_id p) \<noteq> nodeKey (sq_self q)" "idok (ni_id p)"
proof -
  let ?ps = "set (peers (sq_peerlist q))" and ?p = "asked net (pl_endpoint (sq_peerlist q)) p"
  have C: "pl_inv K valid bits (sq_peerlist q)" "\<And>p. p \<in> ?ps \<Longrightarrow> peer_steady idok (sq_self q) p"
    "ni_id ` {p \<in> ?ps. ni_status p = waiting} = set opn" "distinct (map nodeKey opn)"
    "nodeKey ` set ask = peer_key ` {p \<in> ?ps. \<not> is_queued p}" "distinct (map nodeKey ask)"
    using core by (auto simp: sq_core_def Let_def)
  have p: "p \<in> ?ps" "peer_steady idok (sq_self q) p" using C(2) pl'(2) by auto
  then show "nodeKey (ni_id p) \<noteq> nodeKey (sq_self q)" "idok (ni_id p)" by (simp_all add: peer_steady_def)
  have d: "distinct (map peer_key (us @ p # vs))" using peers_distinct [OF C(1)] pl'(2) by simp
  have np: "peer_key p \<notin> peer_key ` {x \<in> ?ps. \<not> is_queued x}" using d pl'(2,3) by auto
  have "nodeKey ` set opn = peer_key ` {x \<in> ?ps. ni_status x = waiting}"
    unfolding C(3) [symmetric] by (auto simp: peer_key_def image_image)
  then have no: "nodeKey (ni_id p) \<notin> nodeKey ` set opn" using np by (auto simp: peer_key_def)
  then show "ni_id p \<notin> set opn" by auto
  have a: "ni_id ?p = ni_id p" "ni_status ?p = waiting" "peer_key ?p = peer_key p" "\<not> is_queued ?p"
    by (simp_all add: asked_def peer_key_def)
  have ps': "set (peers pl') = insert ?p (?ps - {p})"
  proof -
    have "p \<notin> set us" "p \<notin> set vs" using d by auto
    then show ?thesis unfolding pl'(2,4) by auto
  qed
  have "peer_steady idok (sq_self q) ?p"
    using p(2) by (simp add: peer_steady_def asked_def)
  then have "peer_steady idok (sq_self q) x" if "x \<in> set (peers pl')" for x
    using that C(2) unfolding ps' pl'(5) by blast
  moreover have "ni_id ` {x \<in> set (peers pl'). ni_status x = waiting} = insert (ni_id p) (set opn)"
  proof -
    have "{x \<in> set (peers pl'). ni_status x = waiting} = insert ?p {x \<in> ?ps. ni_status x = waiting}"
      unfolding ps' using a(2) pl'(3) by auto
    then show ?thesis using C(3) a(1) by simp
  qed
  moreover have "peer_key ` {x \<in> set (peers pl'). \<not> is_queued x} = insert (peer_key p) (nodeKey ` set ask)"
  proof -
    have "{x \<in> set (peers pl'). \<not> is_queued x} = insert ?p {x \<in> ?ps. \<not> is_queued x}"
      unfolding ps' using a(4) pl'(3) by auto
    then show ?thesis using C(5) a(3) by simp
  qed
  ultimately show "sq_core K valid bits idok (q\<lparr>sq_peerlist := pl'\<rparr>) acts (opn @ [ni_id p]) (ask @ [ni_id p])"
    using core pl'(1) np no C(5) by (simp add: sq_core_def Let_def peer_key_def)
qed

lemma newRequest_law:
  assumes ids: "ids_ok valid idok" and net: "known_queued net (sq_peerlist q)" and rt: "rtinv (sq_rt q)"
    and core: "sq_core K valid bits idok q (Suc acts) opn ask" and busy: "sq_busy q (Suc acts)"
  shows "\<exists>q' effs. newRequest K RT net ctxErr sendErr q = Some (q', effs) \<and> rtinv (sq_rt q') \<and> sq_self q' = sq_self q \<and>
    (sq_done q' \<and> effs = [] \<or>
     effs = [] \<and> sq_core K valid bits idok q' acts opn ask \<and> sq_busy q' acts \<or>
     (\<exists>i rest. effs = SendRequest (sq_protoID q) i (sq_req q) (sq_timeout q) # rest \<and> idok i \<and>
       nodeKey i \<notin> nodeKey ` set ask \<and> nodeKey i \<noteq> nodeKey (sq_self q) \<and>
       (sq_done q' \<and> (rest = [] \<or> rest = [NotifyFailure]) \<or>
        (\<exists>n. rest = replicate n EnqueueNewRequest \<and>
          sq_core K valid bits idok q' (acts + n) (if sendErr i = None then opn @ [i] else opn) (ask @ [i]) \<and>
          sq_busy q' (acts + n)))))"
proof -
  have nd: "\<not> sq_done q" using core by (simp add: sq_core_def Let_def)
  show ?thesis
  proof (cases "ctxErr 0")
    case (Some e)
    then show ?thesis using nd rt by (simp add: newRequest_def checkIfDone_def decInflight_def)
  next
    case None
    from core_pop [OF core net] show ?thesis
    proof (elim disjE exE conjE)
      assume pop: "popClosestQueued net (sq_peerlist q) = Some (sq_peerlist q, None)"
        and none: "\<forall>p \<in> set (peers (sq_peerlist q)). \<not> is_queued p"
      have "newRequest K RT net ctxErr sendErr q = Some (decInflight q, [])"
        using None nd pop by (simp add: newRequest_def checkIfDone_def decInflight_def)
      moreover have "sq_core K valid bits idok (decInflight q) acts opn ask"
        using core by (auto simp: sq_core_def Let_def decInflight_def)
      moreover have "sq_busy (decInflight q) acts"
        using queuedCount_law [of "sq_peerlist q"] core none
        by (auto simp: sq_busy_def decInflight_def sq_core_def Let_def filter_empty_conv)
      ultimately show ?thesis using rt by (auto simp: decInflight_def)
    next
      fix pl' us p vs
      assume pop: "popClosestQueued net (sq_peerlist q) = Some (pl', Some (ni_id p))" and pl: "pl_inv K valid bits pl'"
        "peers (sq_peerlist q) = us @ p # vs" "is_queued p" "peers pl' = us @ asked net (pl_endpoint (sq_peerlist q)) p # vs"
        "pl_endpoint pl' = pl_endpoint (sq_peerlist q)" and c: "pl_queuedCount pl' = pl_queuedCount (sq_peerlist q) - 1"
      let ?q = "q\<lparr>sq_peerlist := pl'\<rparr>" and ?i = "ni_id p"
      note o = open_request [OF core pl]
      have fresh: "nodeKey ?i \<notin> nodeKey ` set ask" using o(1) by (auto simp: sq_core_def Let_def)
      show ?thesis
      proof (cases "sendErr ?i")
        case None
        then have "newRequest K RT net ctxErr sendErr q =
            Some (?q, [SendRequest (sq_protoID q) ?i (sq_req q) (sq_timeout q)])"
          using \<open>ctxErr 0 = None\<close> nd pop by (simp add: newRequest_def checkIfDone_def Let_def)
        moreover have "sq_busy ?q acts" using busy c by (auto simp: sq_busy_def)
        ultimately show ?thesis using o fresh None rt
          by (intro exI conjI disjI2 exI [of _ ?i] exI [of _ "[]"] exI [of _ 0]) auto
      next
        case (Some e)
        have "?i \<in> set (opn @ [?i])" "remove1 ?i (opn @ [?i]) = opn" using o(2) by (auto simp: remove1_append)
        then obtain q' effs where r: "requestError K RT (\<lambda>n. ctxErr (n + 1)) ?q ?i = Some (q', effs)" "rtinv (sq_rt q')" "sq_self q' = sq_self q"
          "sq_done q' \<and> (effs = [] \<or> effs = [NotifyFailure]) \<or>
           (\<exists>n. effs = replicate n EnqueueNewRequest \<and>
             sq_core K valid bits idok q' (acts + n) opn (ask @ [?i]) \<and> sq_busy q' (acts + n))"
          using requestError_law [OF ids o(1), of ?i "\<lambda>n. ctxErr (n + 1)"] rt by auto
        have "newRequest K RT net ctxErr sendErr q =
            Some (q', SendRequest (sq_protoID q) ?i (sq_req q) (sq_timeout q) # effs)"
          using \<open>ctxErr 0 = None\<close> nd pop Some r(1) by (simp add: newRequest_def checkIfDone_def Let_def)
        then show ?thesis using o(3,4) fresh Some r(2-4) by auto
      qed
    qed
  qed
qed

end


context simple_query_env
begin

lemma dropSelf_law:
  assumes "valid (nodeKey self)" "\<And>j. j \<in> set ids \<Longrightarrow> \<exists>k. j = Some k \<and> valid (nodeKey k)"
  shows "dropSelf K self ids = Some (filter (\<lambda>j. nodeKey (the j) \<noteq> nodeKey self) ids)"
  using assms(2)
proof (induction ids)
  case (Cons j ids)
  then obtain k where "j = Some k" "valid (nodeKey k)" by force
  moreover have "dropSelf K self ids = Some (filter (\<lambda>j. nodeKey (the j) \<noteq> nodeKey self) ids)"
    using Cons.prems by (intro Cons.IH) simp
  ultimately show ?case using assms(1) by (auto simp: Equal_law)
qed simp

text \<open>Adding peers keeps the books: the known peers do not change, the new ones are queued.\<close>

lemma add_core:
  assumes ids: "ids_ok valid idok" and net: "nothing_fresh aeq net (sq_peerlist q)"
    and core: "sq_core K valid bits idok q acts opn ask"
    and new: "\<And>j. j \<in> set js \<Longrightarrow> \<exists>k. j = Some k \<and> idok k \<and> nodeKey k \<noteq> nodeKey (sq_self q)"
  shows "\<exists>pl'. addToPeerlist K aeq srt net (sq_peerlist q) js = Some pl' \<and>
    sq_core K valid bits idok (q\<lparr>sq_peerlist := pl'\<rparr>) acts opn ask"
proof -
  let ?pl = "sq_peerlist q" and ?ps = "set (peers (sq_peerlist q))"
  have C: "pl_inv K valid bits ?pl" "\<And>p. p \<in> ?ps \<Longrightarrow> peer_steady idok (sq_self q) p"
    using core by (auto simp: sq_core_def Let_def)
  have k: "Some k \<in> set js \<Longrightarrow> idok k \<and> nodeKey k \<noteq> nodeKey (sq_self q)" for k using new by blast
  have nok: "net_ok net" using net by (simp add: nothing_fresh_def)
  have vk: "Some k \<in> set js \<Longrightarrow> valid (nodeKey k)" for k using k ids unfolding ids_ok_def by blast
  obtain pl' where pl': "addToPeerlist K aeq srt net ?pl js = Some pl'" "pl_inv K valid bits pl'"
    "added_peers K aeq net ?pl js (peers pl')" "pl_endpoint pl' = pl_endpoint ?pl"
    using addToPeerlist_law [OF C(1) nok vk, of js aeq] nothing_fresh_again(1) [OF net] by blast
  have keys: "peer_key ` set (peers pl') = peer_key ` ?ps \<union> nodeKey ` usable js"
    using pl'(3) by (simp add: added_peers_def)
  have old: "p \<in> ?ps" if p: "p \<in> set (peers pl')" "peer_key p \<in> peer_key ` ?ps" for p
  proof -
    obtain x where x: "x \<in> ?ps" "p = (if peer_key x \<in> nodeKey ` usable js then again aeq net (pl_endpoint ?pl) x else x)"
      using pl'(3) p unfolding added_peers_def by (metis (no_types, lifting))
    with nothing_fresh_again(2) [OF net x(1)] show ?thesis by auto
  qed
  have newp: "p \<in> new_peer K (pl_target ?pl) ` usable js" if "p \<in> set (peers pl')" "peer_key p \<notin> peer_key ` ?ps" for p
    using pl'(3) that unfolding added_peers_def by (metis (no_types, lifting))
  have sub: "?ps \<subseteq> set (peers pl')"
  proof
    fix x assume x: "x \<in> ?ps"
    then have "peer_key x \<in> peer_key ` set (peers pl')" unfolding keys by blast
    then obtain p where p: "p \<in> set (peers pl')" "peer_key p = peer_key x" by (metis imageE)
    then have "p \<in> ?ps" using old x by simp
    then have "p = x" using peers_distinct [OF C(1)] p(2) x by (auto simp: distinct_map inj_on_def)
    with p(1) show "x \<in> set (peers pl')" by simp
  qed
  have q: "is_queued p \<and> peer_steady idok (sq_self q) p" if m: "p \<in> set (peers pl')" "p \<notin> ?ps" for p
  proof -
    have "peer_key p \<notin> peer_key ` ?ps" using old m by blast
    then obtain i where "i \<in> usable js" "p = new_peer K (pl_target ?pl) i" using newp [OF m(1)] by auto
    then show ?thesis using k by (auto simp: usable_def peer_steady_def)
  qed
  have "{p \<in> set (peers pl'). \<not> is_queued p} = {p \<in> ?ps. \<not> is_queued p}"
    "{p \<in> set (peers pl'). ni_status p = waiting} = {p \<in> ?ps. ni_status p = waiting}"
    using sub q by (fastforce, fastforce)
  moreover have "\<forall>p \<in> set (peers pl'). peer_steady idok (sq_self q) p"
    using q C(2) pl'(4) by auto
  ultimately show ?thesis using core pl'(1,2) by (simp add: sq_core_def Let_def)
qed

lemma handleResponse_law:
  assumes ids: "ids_ok valid idok" and net: "nothing_fresh aeq net (sq_peerlist q)" and rt: "rtinv (sq_rt q)"
    and core: "sq_core K valid bits idok q acts opn ask" and i: "i \<in> set opn"
    and resp: "\<forall>r. resp = Some r \<longrightarrow> resp_ok idok r"
  shows "\<exists>q' h' effs. handleResponse K RT aeq srt net ctxErr q h i resp = Some (q', h', effs) \<and> rtinv (sq_rt q') \<and>
    sq_self q' = sq_self q \<and>
    (sq_done q' \<and> (effs = [] \<or> effs = [NotifyFailure]) \<or>
     (\<exists>n. effs = replicate n EnqueueNewRequest \<and>
       sq_core K valid bits idok q' (acts + n) (remove1 i opn) ask \<and> sq_busy q' (acts + n)))"
proof -
  have nd: "\<not> sq_done q" and inv: "pl_inv K valid bits (sq_peerlist q)" and self: "idok (sq_self q)"
    using core by (auto simp: sq_core_def Let_def)
  obtain fn where fn: "sq_handleResultFn q = Some fn" "handler_ok idok fn" using core by (auto simp: sq_core_def Let_def)
  obtain p where p: "p \<in> set (peers (sq_peerlist q))" "ni_id p = i" "ni_status p = waiting" "\<not> ni_tryAgainOnFailure p" "idok i"
    "\<And>f. set (upd_first (nodeString i) f (peers (sq_peerlist q))) = insert (f p) (set (peers (sq_peerlist q)) - {p})"
    "List.find (\<lambda>p. nodeString (ni_id p) = nodeString i) (peers (sq_peerlist q)) = Some p"
    by (rule open_peer [OF ids core i]) (rule that)
  have vi: "valid (nodeKey i)" using ids p(5) unfolding ids_ok_def by blast
  consider (cancelled) e where "ctxErr 0 = Some e" | (nil) "ctxErr 0 = None" "resp = None" | (answer) r where "ctxErr 0 = None" "resp = Some r"
    by (cases "ctxErr 0"; cases resp) auto
  then show ?thesis
  proof cases
    case cancelled
    then show ?thesis using nd rt by (simp add: handleResponse_def checkIfDone_def)
  next
    case nil
    then show ?thesis using requestError_law [OF ids core i rt, of "\<lambda>n. ctxErr (n + 1)"] nd
      by (force simp: handleResponse_def checkIfDone_def)
  next
    case (answer r)
    define qa where "qa = (if length (CloserNodes r) > 0 then do { (rt, _) \<leftarrow> AddNode RT (sq_rt q) i; Some (q\<lparr>sq_rt := rt\<rparr>) } else Some q)"
    have "\<exists>rt'. qa = Some (q\<lparr>sq_rt := rt'\<rparr>) \<and> rtinv rt'"
    proof (cases "length (CloserNodes r) > 0")
      case True
      then show ?thesis using AddNode_law [OF rt vi] by (auto simp: qa_def)
    next
      case False
      then show ?thesis using rt by (intro exI [of _ "sq_rt q"]) (simp add: qa_def)
    qed
    then obtain rt' where rt': "qa = Some (q\<lparr>sq_rt := rt'\<rparr>)" "rtinv rt'" by blast
    have hR: "handleResponse K RT aeq srt net ctxErr q h i resp = do {
          q2 \<leftarrow> qa;
          let q3 = decInflight q2;
          pl \<leftarrow> queriedPeer (sq_peerlist q3) i;
          let q4 = q3\<lparr>sq_peerlist := pl\<rparr>;
          fn \<leftarrow> sq_handleResultFn q4;
          let (h1, stop, usefulNodeIDs) = handleResult fn h i r;
          if stop then Some (q4\<lparr>sq_done := True\<rparr>, h1, [])
          else do {
            useful \<leftarrow> dropSelf K (sq_self q4) usefulNodeIDs;
            pl1 \<leftarrow> addToPeerlist K aeq srt net (sq_peerlist q4) useful;
            (q5, effs) \<leftarrow> enqueueNewRequests (q4\<lparr>sq_peerlist := pl1\<rparr>);
            Some (q5, h1, effs)
          }
        }"
      using nd by (simp only: handleResponse_def checkIfDone_def answer qa_def if_False option.case prod.case Let_def)
    obtain pl' where u: "queriedPeer (sq_peerlist q) i = Some pl'" "pl_inv K valid bits pl'"
      "peers pl' = upd_first (nodeString i) answered_peer (peers (sq_peerlist q))" "pl_endpoint pl' = pl_endpoint (sq_peerlist q)"
      using queriedPeer_law [OF inv, of i] by blast
    have ap: "answered_peer p = p\<lparr>ni_status := queried\<rparr>" using p(3) by (simp add: answered_peer_def)
    define q1 where "q1 = q\<lparr>sq_rt := rt', sq_inflightRequests := sq_inflightRequests q - 1, sq_peerlist := pl'\<rparr>"
    have q1: "q1 = q\<lparr>sq_inflightRequests := sq_inflightRequests q - 1, sq_rt := rt', sq_peerlist := pl'\<rparr>" by (simp add: q1_def)
    have core1: "sq_core K valid bits idok q1 acts (remove1 i opn) ask"
      using u(3) p(6) [of answered_peer] ap by (intro close_request [OF core i p(1-3) u(2) _ u(4) _ q1]) auto
    obtain h1 stop js where hr: "handleResult fn h i r = (h1, stop, js)" by (metis prod_cases3)
    show ?thesis
    proof (cases stop)
      case True
      then have "handleResponse K RT aeq srt net ctxErr q h i resp = Some (q1\<lparr>sq_done := True\<rparr>, h1, [])"
        using u(1) fn(1) hr by (simp add: hR rt'(1) decInflight_def q1_def Let_def)
      then show ?thesis using rt'(2) by (simp add: q1_def)
    next
      case False
      let ?js = "filter (\<lambda>j. nodeKey (the j) \<noteq> nodeKey (sq_self q)) js"
      have "\<forall>j \<in> set js. \<exists>k. j = Some k \<and> idok k"
        using fn(2) resp [rule_format, OF answer(2)] p(5) hr unfolding handler_ok_def by (metis snd_conv)
      then have js: "\<And>j. j \<in> set js \<Longrightarrow> \<exists>k. j = Some k \<and> idok k" by blast
      have ds: "dropSelf K (sq_self q) js = Some ?js"
        using ids self js unfolding ids_ok_def by (intro dropSelf_law) blast+
      have jj: "\<And>j. j \<in> set ?js \<Longrightarrow> \<exists>k. j = Some k \<and> idok k \<and> nodeKey k \<noteq> nodeKey (sq_self q1)"
        using js by (fastforce simp: q1_def)
      have pq: "sq_peerlist q1 = pl'" by (simp add: q1_def)
      have "nothing_fresh aeq net (sq_peerlist q1)"
        using net u(3,4) p(6) [of answered_peer] ap unfolding pq by (auto simp: nothing_fresh_def)
      with pq obtain pl2 where a: "addToPeerlist K aeq srt net pl' ?js = Some pl2"
        "sq_core K valid bits idok (q1\<lparr>sq_peerlist := pl2\<rparr>) acts (remove1 i opn) ask"
        using add_core [OF ids _ core1, of aeq net ?js] jj by auto
      let ?q2 = "q1\<lparr>sq_peerlist := pl2\<rparr>"
      have eq: "handleResponse K RT aeq srt net ctxErr q h i resp =
          do { (q5, effs) \<leftarrow> enqueueNewRequests ?q2; Some (q5, h1, effs) }"
        using u(1) fn(1) hr False ds a(1) by (simp add: hR rt'(1) decInflight_def q1_def Let_def)
      from a(2) show ?thesis
      proof (cases rule: enqueueNewRequests_law)
        case failed
        then show ?thesis using rt'(2) by (simp add: eq q1_def)
      next
        case (more n)
        show ?thesis unfolding eq more(1) using more(2,3) rt'(2) by (auto simp: q1_def)
      qed
    qed
  qed
qed

end


section \<open>Every step keeps the invariant\<close>

lemma fold_enqueue:
  "fold (applyEffect se) (replicate n EnqueueNewRequest) w = w\<lparr>w_actions := w_actions w + n\<rparr>"
  by (induction n arbitrary: w) auto

context simple_query_env
begin

lemma sq_exec_law:
  assumes ids: "ids_ok valid idok"
    and inv: "sq_inv K valid bits rtinv idok w" and ev: "event_ok idok aeq ev w" "sq_enabled ev w"
  shows "\<exists>w'. sq_exec K RT aeq srt ev w = Some w' \<and> sq_inv K valid bits rtinv idok w'"
proof -
  have I: "rtinv (sq_rt (w_q w))" "\<And>i. i \<in> set (w_open w) \<Longrightarrow> idok i" "distinct (map nodeKey (w_asked w))"
    "nodeKey (sq_self (w_q w)) \<notin> nodeKey ` set (w_asked w)" "w_failures w \<le> 1"
    "\<not> sq_done (w_q w) \<Longrightarrow> w_failures w = 0"
    "\<not> sq_done (w_q w) \<Longrightarrow> sq_core K valid bits idok (w_q w) (w_actions w) (w_open w) (w_asked w)"
    "\<not> sq_done (w_q w) \<Longrightarrow> sq_busy (w_q w) (w_actions w)"
    using inv by (auto simp: sq_inv_def)
  have sub: "\<And>i j. j \<in> set (remove1 i (w_open w)) \<Longrightarrow> idok j" using I(2) by (meson notin_set_remove1)
  show ?thesis
  proof (cases "sq_done (w_q w)")
    case True
    have rk: "\<exists>rt'. RemoveKey RT (sq_rt (w_q w)) (nodeKey i) = Some (rt', nodeKey i \<in> dom (contents (sq_rt (w_q w)))) \<and> rtinv rt'"
      if "i \<in> set (w_open w)" for i
    proof -
      have "valid (nodeKey i)" using I(2) [OF that] ids unfolding ids_ok_def by blast
      from RemoveKey_law [OF I(1) this] show ?thesis by blast
    qed
    show ?thesis
    proof (cases ev)
      case (RunAction ce net se)
      then show ?thesis using True I by (simp add: newRequest_def checkIfDone_def decInflight_def sq_inv_def)
    next
      case (Respond ce net i resp)
      then show ?thesis using True I sub by (simp add: handleResponse_def checkIfDone_def sq_inv_def)
    next
      case (Fail ce i)
      with ev(2) rk [of i] obtain rt' where
        "RemoveKey RT (sq_rt (w_q w)) (nodeKey i) = Some (rt', nodeKey i \<in> dom (contents (sq_rt (w_q w))))" "rtinv rt'" by auto
      then show ?thesis using Fail True I sub
        by (cases "ce 0") (simp_all add: requestError_def checkIfDone_def decInflight_def sq_inv_def Let_def)
    qed
  next
    case False
    note core = I(7) [OF False] and busy = I(8) [OF False] and nofail = I(6) [OF False]
    have closed: "sq_inv K valid bits rtinv idok
        (fold (applyEffect (\<lambda>_. None)) effs (w\<lparr>w_q := q', w_h := h', w_open := remove1 i (w_open w)\<rparr>))"
      if "rtinv (sq_rt q')" "sq_self q' = sq_self (w_q w)"
        "sq_done q' \<and> (effs = [] \<or> effs = [NotifyFailure]) \<or>
         (\<exists>n. effs = replicate n EnqueueNewRequest \<and>
           sq_core K valid bits idok q' (w_actions w + n) (remove1 i (w_open w)) (w_asked w) \<and> sq_busy q' (w_actions w + n))"
      for q' h' effs i
      using that(3)
    proof (elim disjE exE conjE)
      fix n assume "effs = replicate n EnqueueNewRequest"
        "sq_core K valid bits idok q' (w_actions w + n) (remove1 i (w_open w)) (w_asked w)" "sq_busy q' (w_actions w + n)"
      then show ?thesis using that(1,2) I sub nofail by (simp add: sq_inv_def fold_enqueue del: fold_replicate)
    qed (use that(1,2) I sub nofail in \<open>simp_all add: sq_inv_def\<close>)
    show ?thesis
    proof (cases ev)
      case (Respond ce net i resp)
      with ev have i: "i \<in> set (w_open w)" and r: "\<forall>r. resp = Some r \<longrightarrow> resp_ok idok r"
        and net: "nothing_fresh aeq net (sq_peerlist (w_q w))" by auto
      from handleResponse_law [where resp = resp and h = "w_h w" and ctxErr = ce, OF ids net I(1) core i r]
      obtain q' h' effs where q': "handleResponse K RT aeq srt net ce (w_q w) (w_h w) i resp = Some (q', h', effs)"
        "rtinv (sq_rt q')" "sq_self q' = sq_self (w_q w)"
        "sq_done q' \<and> (effs = [] \<or> effs = [NotifyFailure]) \<or>
         (\<exists>n. effs = replicate n EnqueueNewRequest \<and>
           sq_core K valid bits idok q' (w_actions w + n) (remove1 i (w_open w)) (w_asked w) \<and> sq_busy q' (w_actions w + n))"
        by (elim exE conjE) (rule that)
      then show ?thesis using Respond closed [OF q'(2-4)] by simp
    next
      case (Fail ce i)
      with ev have i: "i \<in> set (w_open w)" by auto
      from requestError_law [OF ids core i I(1), where ctxErr = ce]
      obtain q' effs where q': "requestError K RT ce (w_q w) i = Some (q', effs)"
        "rtinv (sq_rt q')" "sq_self q' = sq_self (w_q w)"
        "sq_done q' \<and> (effs = [] \<or> effs = [NotifyFailure]) \<or>
         (\<exists>n. effs = replicate n EnqueueNewRequest \<and>
           sq_core K valid bits idok q' (w_actions w + n) (remove1 i (w_open w)) (w_asked w) \<and> sq_busy q' (w_actions w + n))"
        by (elim exE conjE) (rule that)
      then show ?thesis using Fail closed [OF q'(2-4), of "w_h w"] by simp
    next
      case (RunAction ce net se)
      with ev obtain acts where a: "w_actions w = Suc acts" and net: "known_queued net (sq_peerlist (w_q w))"
        by (auto simp: gr0_conv_Suc)
      from newRequest_law [OF ids net I(1) core [unfolded a] busy [unfolded a], where ctxErr = ce and sendErr = se]
      obtain q' effs where q': "newRequest K RT net ce se (w_q w) = Some (q', effs)" "rtinv (sq_rt q')" "sq_self q' = sq_self (w_q w)"
        and c: "sq_done q' \<and> effs = [] \<or>
          effs = [] \<and> sq_core K valid bits idok q' acts (w_open w) (w_asked w) \<and> sq_busy q' acts \<or>
          (\<exists>i rest. effs = SendRequest (sq_protoID (w_q w)) i (sq_req (w_q w)) (sq_timeout (w_q w)) # rest \<and> idok i \<and>
            nodeKey i \<notin> nodeKey ` set (w_asked w) \<and> nodeKey i \<noteq> nodeKey (sq_self (w_q w)) \<and>
            (sq_done q' \<and> (rest = [] \<or> rest = [NotifyFailure]) \<or>
             (\<exists>n. rest = replicate n EnqueueNewRequest \<and>
               sq_core K valid bits idok q' (acts + n) (if se i = None then w_open w @ [i] else w_open w) (w_asked w @ [i]) \<and>
               sq_busy q' (acts + n))))"
        by (elim exE conjE) (rule that)
      have ex: "sq_exec K RT aeq srt ev w =
          Some (fold (applyEffect se) effs (w\<lparr>w_q := q', w_actions := acts\<rparr>))"
        using RunAction q'(1) a by simp
      show ?thesis using c
      proof (elim disjE exE conjE)
        fix i rest n assume "effs = SendRequest (sq_protoID (w_q w)) i (sq_req (w_q w)) (sq_timeout (w_q w)) # rest" "idok i"
          "nodeKey i \<notin> nodeKey ` set (w_asked w)" "nodeKey i \<noteq> nodeKey (sq_self (w_q w))" "rest = replicate n EnqueueNewRequest"
          "sq_core K valid bits idok q' (acts + n) (if se i = None then w_open w @ [i] else w_open w) (w_asked w @ [i])"
          "sq_busy q' (acts + n)"
        then show ?thesis unfolding ex using q'(2,3) I nofail by (auto simp: sq_inv_def fold_enqueue simp del: fold_replicate)
      qed (unfold ex, use q'(2,3) I nofail in \<open>auto simp: sq_inv_def\<close>)
    qed
  qed
qed

lemma sq_reach_inv:
  assumes "ids_ok valid idok" "sq_inv K valid bits rtinv idok w0"
    and "sq_reach K RT aeq srt idok w0 w"
  shows "sq_inv K valid bits rtinv idok w"
  using assms(3)
proof induction
  case sq_start
  then show ?case by (rule assms(2))
next
  case (sq_step w ev w')
  then show ?case using sq_exec_law [OF assms(1), of w aeq ev] by auto
qed

end


section \<open>The start\<close>

text \<open>The options that \<open>options.go\<close> offers; a handler has to return known identifiers.\<close>

inductive std_option :: "('k NodeID \<Rightarrow> bool) \<Rightarrow> ('k, 'a, 'h, 'rt) SQOption \<Rightarrow> bool" for idok where
  "std_option idok (WithProtocolID pid)"
| "std_option idok (WithNumberUsefulCloserPeers n)"
| "std_option idok (WithConcurrency n)"
| "std_option idok (WithRequestTimeout d)"
| "std_option idok (WithPeerstoreTTL d)"
| "(\<And>f. fn = Some f \<Longrightarrow> handler_ok idok f) \<Longrightarrow> std_option idok (WithHandleResultsFunc fn)"
| "std_option idok (WithNotifyFailureFunc nf)"
| "std_option idok (WithRoutingTable rt)"
| "std_option idok (WithEndpoint ep)"
| "std_option idok (WithScheduler sched)"

definition config_ok :: "('k NodeID \<Rightarrow> bool) \<Rightarrow> ('k, 'a, 'h, 'rt) SQConfig \<Rightarrow> bool" where
  "config_ok idok c \<longleftrightarrow> 0 < cfgNumberUsefulCloserPeers c \<and> 0 < cfgConcurrency c \<and> cfgNotifyFailureFunc c \<noteq> None \<and>
     (\<exists>fn. cfgHandleResultsFunc c = Some fn \<and> handler_ok idok fn)"

lemmas with_defs = WithProtocolID_def WithNumberUsefulCloserPeers_def WithConcurrency_def WithRequestTimeout_def
  WithPeerstoreTTL_def WithHandleResultsFunc_def WithNotifyFailureFunc_def WithRoutingTable_def WithEndpoint_def WithScheduler_def

lemma std_option_config:
  "std_option idok opt \<Longrightarrow> config_ok idok c \<Longrightarrow> opt c = Inr c' \<Longrightarrow> config_ok idok c'"
  by (induction rule: std_option.induct) (auto simp: with_defs config_ok_def split: if_splits)

lemma applyLoop_config:
  "\<forall>opt \<in> set opts. std_option idok opt \<Longrightarrow> config_ok idok c \<Longrightarrow> applyLoop i c opts = Inr c' \<Longrightarrow> config_ok idok c'"
proof (induction opts arbitrary: i c)
  case (Cons opt opts)
  then obtain c1 where c1: "opt c = Inr c1" by (auto split: sum.splits)
  with Cons.prems have "config_ok idok c1" using std_option_config [of idok opt c c1] by auto
  moreover have "applyLoop (Suc i) c1 opts = Inr c'" using Cons.prems c1 by simp
  ultimately show ?case using Cons.IH [of c1 "Suc i"] Cons.prems(1) by simp
qed simp

lemma default_handler_ok: "handler_ok idok defaultHandleResult"
  by (auto simp: handler_ok_def defaultHandleResult_def resp_ok_def)

lemma Config_Apply_ok:
  assumes "\<forall>opt \<in> set opts. std_option idok opt" "Config_Apply zeroConfig (SQDefaultConfig # opts) = Inr c"
  shows "config_ok idok c" "cfgRoutingTable c \<noteq> None" "cfgEndpoint c \<noteq> None" "cfgScheduler c \<noteq> None"
proof -
  obtain d where d: "SQDefaultConfig zeroConfig = Inr (d :: ('a, 'b, 'c, 'd) SQConfig)" "config_ok idok d"
    by (simp add: SQDefaultConfig_def config_ok_def default_handler_ok)
  then have "applyLoop 1 d opts = Inr c" "cfgRoutingTable c \<noteq> None" "cfgEndpoint c \<noteq> None" "cfgScheduler c \<noteq> None"
    using assms(2) by (auto simp: Config_Apply_def split: sum.splits if_splits)
  with d(2) assms(1) show "config_ok idok c" "cfgRoutingTable c \<noteq> None" "cfgEndpoint c \<noteq> None" "cfgScheduler c \<noteq> None"
    using applyLoop_config [of opts idok d 1 c] by auto
qed

context simple_query_env
begin

lemma newPeerList_inv: "valid t \<Longrightarrow> pl_inv K valid bits (newPeerList t e)" "peers (newPeerList t e) = []"
  by (simp_all add: newPeerList_def peers_def peer_refs_def peers_ok_def pl_inv_def)

lemma NewSimpleQuery_law:
  assumes ids: "ids_ok valid idok" and net: "net_ok net" and self: "idok self" and t: "valid (Target req)"
    and opts: "\<forall>opt \<in> set opts. std_option idok opt"
    and rts: "\<And>cfg rt. Config_Apply zeroConfig (SQDefaultConfig # opts) = Inr cfg \<Longrightarrow> cfgRoutingTable cfg = Some rt \<Longrightarrow>
      rtinv rt \<and> (\<forall>n \<in> ran (contents rt). idok n \<and> nodeKey n \<noteq> nodeKey self)"
  shows "\<exists>r. NewSimpleQuery K RT aeq srt net self req opts = Some r \<and>
    (\<forall>q effs. r = Inr (q, effs) \<longrightarrow> sq_self q = self \<and> sq_inv K valid bits rtinv idok (start_world q effs h))"
proof (cases "Config_Apply zeroConfig (SQDefaultConfig # opts)")
  case (Inl e)
  then show ?thesis by (simp add: NewSimpleQuery_def)
next
  case (Inr cfg)
  note C = Config_Apply_ok [OF opts Inr]
  then obtain rt e where rt: "cfgRoutingTable cfg = Some rt" and ep: "cfgEndpoint cfg = Some e" by auto
  have R: "rtinv rt" "\<And>n. n \<in> ran (contents rt) \<Longrightarrow> idok n \<and> nodeKey n \<noteq> nodeKey self" using rts [OF Inr rt] by auto
  have pos: "0 < cfgNumberUsefulCloserPeers cfg" "0 < cfgConcurrency cfg" "cfgNotifyFailureFunc cfg \<noteq> None"
    and fn: "\<exists>fn. cfgHandleResultsFunc cfg = Some fn \<and> handler_ok idok fn"
    using C(1) by (auto simp: config_ok_def)
  obtain ns where ns: "NearestNodes RT rt (Target req) (cfgNumberUsefulCloserPeers cfg) = Some ns" "set ns \<subseteq> ran (contents rt)"
    using NearestNodes_law [OF R(1) t pos(1)] by blast
  show ?thesis
  proof (cases "ns = []")
    case True
    then show ?thesis using Inr rt ep ns(1) by (simp add: NewSimpleQuery_def)
  next
    case False
    let ?q = "\<lambda>pl. \<lparr>sq_self = self, sq_done = False, sq_protoID = cfgProtocolID cfg, sq_req = req,
               sq_concurrency = cfgConcurrency cfg, sq_peerstoreTTL = cfgPeerstoreTTL cfg,
               sq_timeout = cfgRequestTimeout cfg, sq_rt = rt, sq_inflightRequests = 0, sq_peerlist = pl,
               sq_handleResultFn = cfgHandleResultsFunc cfg, sq_notifyFailureFn = cfgNotifyFailureFunc cfg\<rparr>"
    have "sq_core K valid bits idok (?q (newPeerList (Target req) e)) 0 [] []"
      using pos fn self by (simp add: sq_core_def Let_def newPeerList_inv(1) [OF t] newPeerList_inv(2))
    moreover have "nothing_fresh aeq net (sq_peerlist (?q (newPeerList (Target req) e)))"
      using net by (simp add: nothing_fresh_def newPeerList_inv(2))
    ultimately have "nothing_fresh aeq net (sq_peerlist (?q (newPeerList (Target req) e)))"
      "sq_core K valid bits idok (?q (newPeerList (Target req) e)) 0 [] []" by blast+
    from add_core [OF ids this, of "map Some ns"] R(2) ns(2)
    obtain pl where pl: "addToPeerlist K aeq srt net (newPeerList (Target req) e) (map Some ns) = Some pl"
      "sq_core K valid bits idok (?q pl) 0 [] []" by fastforce
    have eq: "NewSimpleQuery K RT aeq srt net self req opts = map_option Inr (enqueueNewRequests (?q pl))"
      using Inr rt ep ns(1) False pl(1) by (simp add: NewSimpleQuery_def split: option.splits prod.splits bind_splits)
    from pl(2) show ?thesis
    proof (cases rule: enqueueNewRequests_law)
      case failed
      then show ?thesis unfolding eq using R(1) by (simp add: sq_inv_def start_world_def)
    next
      case (more n)
      then show ?thesis unfolding eq more(1) using R(1) by (simp add: sq_inv_def start_world_def fold_enqueue del: fold_replicate)
    qed
  qed
qed

end

sublocale kad_key \<subseteq> trie_sq: simple_query_env K valid len bits sliceStable "TrieRT_methods K" "trie_rt_inv valid bits" trie_rt_contents
  by (intro simple_query_env.intro plist.peer_list_env_axioms trt.routing_table_axioms)


sublocale kad_key \<subseteq> simple_sq: simple_query_env K valid len bits sliceStable "SimpleRT_methods K" "simple_rt_inv valid bits" simple_rt_contents
  by (intro simple_query_env.intro plist.peer_list_env_axioms srt.routing_table_axioms)

section \<open>Properties\<close>

lemma reached_inv:
  assumes "kad_key K valid len bits" and "slice_sort srt" and "routing_table RT valid bits rtinv contents"
    and "ids_ok valid idok" and "net_ok net" and "idok self" and "valid (Target req)"
    and "\<forall>opt \<in> set opts. std_option idok opt"
    and "\<forall>cfg rt. Config_Apply zeroConfig (SQDefaultConfig # opts) = Inr cfg \<and> cfgRoutingTable cfg = Some rt \<longrightarrow>
      rtinv rt \<and> (\<forall>n \<in> ran (contents rt). idok n \<and> nodeKey n \<noteq> nodeKey self)"
    and "NewSimpleQuery K RT aeq srt net self req opts = Some (Inr (q, effs))"
    and "sq_reach K RT aeq srt idok (start_world q effs h) w"
  shows "sq_inv K valid bits rtinv idok w"
proof -
  have env: "simple_query_env K valid len bits srt RT rtinv contents"
    using assms(1-3) by (intro simple_query_env.intro peer_list_env.intro)
  have "sq_inv K valid bits rtinv idok (start_world q effs h)"
    using simple_query_env.NewSimpleQuery_law [OF env assms(4-8), where h = h and aeq = aeq] assms(9,10) by auto
  then show ?thesis by (rule simple_query_env.sq_reach_inv [OF env assms(4) _ assms(11)])
qed


text \<open>C33: A query that is not done and has no action scheduled and no request open has asked every
  peer it knows of: it never stops early. As before in the runs whose events meet \<open>event_ok\<close>; when an
  endpoint has fresh addresses, a queued peer can be lost (\<open>peerlist_loses_queued\<close>).\<close>

theorem simplequery_asks_all:
  assumes "kad_key K valid len bits" and "slice_sort srt" and "routing_table RT valid bits rtinv contents"
    and "ids_ok valid idok" and "net_ok net" and "idok self" and "valid (Target req)"
    and "\<forall>opt \<in> set opts. std_option idok opt"
    and "\<forall>cfg rt. Config_Apply zeroConfig (SQDefaultConfig # opts) = Inr cfg \<and> cfgRoutingTable cfg = Some rt \<longrightarrow>
      rtinv rt \<and> (\<forall>n \<in> ran (contents rt). idok n \<and> nodeKey n \<noteq> nodeKey self)"
    and "NewSimpleQuery K RT aeq srt net self req opts = Some (Inr (q, effs))"
    and "sq_reach K RT aeq srt idok (start_world q effs h) w"
    and "\<not> sq_done (w_q w)" and "w_actions w = 0" and "w_open w = []"
  shows "peer_key ` set (peers (sq_peerlist (w_q w))) = nodeKey ` set (w_asked w)"
proof -
  have env: "simple_query_env K valid len bits srt RT rtinv contents"
    using assms(1-3) by (intro simple_query_env.intro peer_list_env.intro)
  have inv: "sq_inv K valid bits rtinv idok w" by (rule reached_inv [OF assms(1-11)])
  then have c: "sq_core K valid bits idok (w_q w) 0 [] (w_asked w)" "sq_busy (w_q w) 0"
    using assms(12-14) by (auto simp: sq_inv_def)
  then have "int (length (filter is_queued (peers (sq_peerlist (w_q w))))) \<le> 0"
    using simple_query_env.queuedCount_law [OF env, of "sq_peerlist (w_q w)"] by (auto simp: sq_core_def Let_def sq_busy_def)
  then have "{p \<in> set (peers (sq_peerlist (w_q w))). \<not> is_queued p} = set (peers (sq_peerlist (w_q w)))"
    by (auto simp: filter_empty_conv)
  with c(1) show ?thesis by (simp add: sq_core_def Let_def)
qed

text \<open>C34: When the last thing a query waits for is a scheduled action, and every peer that it knows has been
  asked already, then this action leaves the query idle for good: it is not done, nothing is scheduled or
  open, nothing can happen to it any more, and the failure is never notified. Such states are reached
  because \<open>enqueueNewRequests\<close> counts the peers that earlier actions will take, and
  \<open>newRequest\<close> does not call it when it finds no peer.\<close>

theorem simplequery_failure_lost:
  assumes "kad_key K valid len bits" and "slice_sort srt" and "routing_table RT valid bits rtinv contents"
    and "ids_ok valid idok" and "net_ok net" and "idok self" and "valid (Target req)"
    and "\<forall>opt \<in> set opts. std_option idok opt"
    and "\<forall>cfg rt. Config_Apply zeroConfig (SQDefaultConfig # opts) = Inr cfg \<and> cfgRoutingTable cfg = Some rt \<longrightarrow>
      rtinv rt \<and> (\<forall>n \<in> ran (contents rt). idok n \<and> nodeKey n \<noteq> nodeKey self)"
    and "NewSimpleQuery K RT aeq srt net self req opts = Some (Inr (q, effs))"
    and "sq_reach K RT aeq srt idok (start_world q effs h) w"
    and "\<not> sq_done (w_q w)" and "w_actions w = 1" and "w_open w = []"
    and "\<forall>p \<in> set (peers (sq_peerlist (w_q w))). \<not> is_queued p" and "ce 0 = None"
  shows "\<exists>w'. sq_exec K RT aeq srt (RunAction ce net' se) w = Some w' \<and> (\<forall>ev. \<not> sq_enabled ev w') \<and>
    \<not> sq_done (w_q w') \<and> w_failures w' = 0 \<and> w_asked w' = w_asked w \<and>
    peer_key ` set (peers (sq_peerlist (w_q w'))) = nodeKey ` set (w_asked w')"
proof -
  have env: "simple_query_env K valid len bits srt RT rtinv contents"
    using assms(1-3) by (intro simple_query_env.intro peer_list_env.intro)
  have inv: "sq_inv K valid bits rtinv idok w" by (rule reached_inv [OF assms(1-11)])
  then have c: "sq_core K valid bits idok (w_q w) 1 [] (w_asked w)" "w_failures w = 0"
    using assms(12-14) by (auto simp: sq_inv_def)
  have "known_queued net' (sq_peerlist (w_q w))" using assms(15) by (auto simp: known_queued_def)
  from simple_query_env.core_pop [OF env c(1) this]
  have pop: "popClosestQueued net' (sq_peerlist (w_q w)) = Some (sq_peerlist (w_q w), None)" using assms(15) by auto
  define w' where "w' = w\<lparr>w_q := decInflight (w_q w), w_actions := 0\<rparr>"
  have "sq_exec K RT aeq srt (RunAction ce net' se) w = Some w'"
    using assms(12,13,16) pop by (simp add: newRequest_def checkIfDone_def decInflight_def w'_def Let_def)
  moreover have "\<not> sq_enabled ev w'" for ev using assms(14) by (cases ev) (simp_all add: w'_def)
  moreover have "{p \<in> set (peers (sq_peerlist (w_q w))). \<not> is_queued p} = set (peers (sq_peerlist (w_q w)))"
    using assms(15) by auto
  then have "peer_key ` set (peers (sq_peerlist (w_q w'))) = nodeKey ` set (w_asked w')"
    using c(1) by (simp add: sq_core_def Let_def w'_def decInflight_def)
  ultimately show ?thesis using assms(12) c(2) by (intro exI [of _ w']) (simp_all add: w'_def decInflight_def)
qed

definition sqtable8 :: "key8 TrieRT" where
  "sqtable8 = TrieRT_New (pnode8 0) None\<lparr>rt_trie :=
     Trie (Some (Trie None None (Some 3) (Some (pnode8 3))))
          (Some (Trie None None (Some 130) (Some (pnode8 130)))) None None\<rparr>"

definition sqopts8 :: "(key8, nat, unit, key8 TrieRT) SQOption list" where
  "sqopts8 = [WithRoutingTable (Some sqtable8), WithEndpoint (Some True), WithScheduler (Some ())]"

definition sqworld8 :: "(key8, unit, nat, unit, key8 TrieRT) SQWorld" where
  "sqworld8 =
     (case NewSimpleQuery Key8 (TrieRT_methods Key8) (=) sliceStable (plnet8 [1]) (pnode8 0) \<lparr>Target = 7, reqMessage = ()\<rparr> sqopts8 of
        Some (Inr (q, effs)) \<Rightarrow> start_world q effs ())"

fun sq_run ::
  "'k Key \<Rightarrow> ('k, 'rt, 'z) RoutingTable_scheme \<Rightarrow> ('a \<Rightarrow> 'a \<Rightarrow> bool) \<Rightarrow> sliceSort \<Rightarrow>
   ('k, 'm, 'a, 'h, 'rt) SQWorld \<Rightarrow> ('k, 'a) SQEvent list \<Rightarrow> ('k, 'm, 'a, 'h, 'rt) SQWorld option" where
  "sq_run K RT aeq srt w [] = Some w"
| "sq_run K RT aeq srt w (ev # evs) =
     (if sq_enabled ev w then do { w' \<leftarrow> sq_exec K RT aeq srt ev w; sq_run K RT aeq srt w' evs } else None)"

section \<open>Witnesses\<close>

lemma sq_run_reach:
  "sq_reach K RT aeq srt idok w0 (w :: ('k, 'm, 'a, 'h, 'rt) SQWorld) \<Longrightarrow>
   \<forall>ev \<in> set evs. \<forall>v :: ('k, 'm, 'a, 'h, 'rt) SQWorld. event_ok idok aeq ev v \<Longrightarrow>
   sq_run K RT aeq srt w evs = Some w' \<Longrightarrow> sq_reach K RT aeq srt idok w0 w'"
proof (induction evs arbitrary: w)
  case (Cons ev evs)
  then obtain w1 where w1: "sq_enabled ev w" "sq_exec K RT aeq srt ev w = Some w1" "sq_run K RT aeq srt w1 evs = Some w'"
    by (auto split: if_splits bind_splits)
  have "event_ok idok aeq ev w" using Cons.prems(2) by simp
  then have "sq_reach K RT aeq srt idok w0 w1" using sq_step [OF Cons.prems(1)] w1(1,2) by blast
  with w1(3) Cons.prems(2) show ?case using Cons.IH [of w1] by simp
qed simp

definition idok8 :: "key8 NodeID \<Rightarrow> bool" where
  "idok8 i \<longleftrightarrow> i = pnode8 (nodeKey i)"

lemma idok8_node [simp]: "idok8 (pnode8 k)"
  by (simp add: idok8_def pnode8_def)

lemma ids_ok8: "ids_ok (\<lambda>_. True) idok8"
proof -
  have "nodeKey i = nodeKey j" if "idok8 i" "idok8 j" "nodeString i = nodeString j" for i j
  proof (rule key8.HexString_inj)
    have "nodeString i = Key8_HexString (nodeKey i)" "nodeString j = Key8_HexString (nodeKey j)"
      using that(1,2) by (metis idok8_def pnode8_def NodeID.select_convs(2))+
    with that(3) show "HexString Key8 (nodeKey i) = HexString Key8 (nodeKey j)"
      by (simp add: HexString_def Key8_def)
  qed simp_all
  then show ?thesis by (auto simp: ids_ok_def)
qed

lemma sqtable8_inv: "trie_rt_inv (\<lambda>_. True) word_bits sqtable8"
proof -
  have "trie_inv (\<lambda>_. True) word_bits [] (rt_trie sqtable8)" by code_simp
  then have "view_inv (\<lambda>_. True) word_bits sqtable8"
    by (simp add: view_inv_def sqtable8_def pnode8_def)
  then show ?thesis
    by (simp add: trie_rt_inv_def sqtable8_def TrieRT_New_def TrieRT_apply_def TrieRT_DefaultConfig_def)
qed

lemma sqtable8_contents: "trie_rt_contents sqtable8 = [3 \<mapsto> pnode8 3, 130 \<mapsto> pnode8 130]"
  by (auto simp: trie_rt_contents_def sqtable8_def fun_eq_iff)

lemma sqopts8_std: "\<forall>opt \<in> set sqopts8. std_option idok8 opt"
  by (auto simp: sqopts8_def intro: std_option.intros)

lemma sqopts8_table:
  "\<forall>cfg rt. Config_Apply zeroConfig (SQDefaultConfig # sqopts8) = Inr cfg \<and> cfgRoutingTable cfg = Some rt \<longrightarrow>
     trie_rt_inv (\<lambda>_. True) word_bits rt \<and> (\<forall>n \<in> ran (trie_rt_contents rt). idok8 n \<and> nodeKey n \<noteq> nodeKey (pnode8 0))"
proof -
  have rt: "rt = sqtable8" if "Config_Apply zeroConfig (SQDefaultConfig # sqopts8) = Inr cfg" "cfgRoutingTable cfg = Some rt" for cfg rt
  proof -
    have "map_sum id cfgRoutingTable (Config_Apply zeroConfig (SQDefaultConfig # sqopts8)) = Inr (Some sqtable8)"
      by (simp add: sqopts8_def Config_Apply_def SQDefaultConfig_def with_defs)
    with that show ?thesis by simp
  qed
  have "ran (trie_rt_contents sqtable8) = {pnode8 3, pnode8 130}"
    unfolding sqtable8_contents by (simp add: ran_map_upd insert_commute)
  moreover have "idok8 (pnode8 3)" "idok8 (pnode8 130)" "nodeKey (pnode8 3) \<noteq> nodeKey (pnode8 0)" "nodeKey (pnode8 130) \<noteq> nodeKey (pnode8 0)"
    by (simp_all, simp_all add: pnode8_def)
  ultimately have "\<forall>n \<in> ran (trie_rt_contents sqtable8). idok8 n \<and> nodeKey n \<noteq> nodeKey (pnode8 0)" by simp
  with rt sqtable8_inv show ?thesis by blast
qed

lemma sqworld8_start:
  "\<exists>q effs. NewSimpleQuery Key8 (TrieRT_methods Key8) (=) sliceStable (plnet8 [1]) (pnode8 0) \<lparr>Target = 7, reqMessage = ()\<rparr> sqopts8 =
     Some (Inr (q, effs)) \<and> sqworld8 = start_world q effs ()"
proof -
  have "case NewSimpleQuery Key8 (TrieRT_methods Key8) (=) sliceStable (plnet8 [1]) (pnode8 0) \<lparr>Target = 7, reqMessage = ()\<rparr> sqopts8 of
      Some (Inr _) \<Rightarrow> True | _ \<Rightarrow> False" by code_simp
  then show ?thesis by (auto simp: sqworld8_def split: option.splits sum.splits)
qed

text \<open>Runs of this query in which the endpoint has an address for everyone.\<close>

definition ask8 :: "string option \<Rightarrow> (key8, nat) SQEvent" where
  "ask8 err = RunAction (\<lambda>_. None) (plnet8 [1]) (\<lambda>_. err)"

definition run8 :: "(key8, nat) SQEvent list \<Rightarrow> (key8, unit, nat, unit, key8 TrieRT) SQWorld" where
  "run8 evs = the (sq_run Key8 (TrieRT_methods Key8) (=) sliceStable sqworld8 evs)"

lemma ask8_ok: "event_ok idok8 (=) (ask8 err) w"
  by (simp add: ask8_def known_queued_def plnet8_def)

lemma run8_reach:
  assumes "\<not> Option.is_none (sq_run Key8 (TrieRT_methods Key8) (=) sliceStable sqworld8 (map ask8 errs))"
  shows "\<exists>q effs. NewSimpleQuery Key8 (TrieRT_methods Key8) (=) sliceStable (plnet8 [1]) (pnode8 0)
      \<lparr>Target = 7, reqMessage = ()\<rparr> sqopts8 = Some (Inr (q, effs)) \<and>
    sq_reach Key8 (TrieRT_methods Key8) (=) sliceStable idok8 (start_world q effs ()) (run8 (map ask8 errs))"
proof -
  obtain q effs where q: "NewSimpleQuery Key8 (TrieRT_methods Key8) (=) sliceStable (plnet8 [1]) (pnode8 0)
      \<lparr>Target = 7, reqMessage = ()\<rparr> sqopts8 = Some (Inr (q, effs))" "sqworld8 = start_world q effs ()"
    using sqworld8_start by blast
  have "sq_run Key8 (TrieRT_methods Key8) (=) sliceStable sqworld8 (map ask8 errs) = Some (run8 (map ask8 errs))"
    using assms by (simp add: run8_def Option.is_none_def)
  then have "sq_reach Key8 (TrieRT_methods Key8) (=) sliceStable idok8 (start_world q effs ()) (run8 (map ask8 errs))"
    unfolding q(2) by (rule sq_run_reach [OF sq_start, rotated]) (auto simp: ask8_ok intro!: allI)
  with q(1) show ?thesis by blast
qed



theorem simplequery_asks_all_witness:
  "let w = run8 (map ask8 [Some ''no route'', Some ''no route'', Some ''no route'']) in
   peer_key ` set (peers (sq_peerlist (w_q w))) = nodeKey ` set (w_asked w) \<and> length (w_asked w) = 2"
proof -
  let ?w = "run8 (map ask8 [Some ''no route'', Some ''no route'', Some ''no route''])"
  have s: "\<not> sq_done (w_q ?w)" "w_actions ?w = 0" "w_open ?w = []" "length (w_asked ?w) = 2" by code_simp+
  have "\<not> Option.is_none (sq_run Key8 (TrieRT_methods Key8) (=) sliceStable sqworld8
      (map ask8 [Some ''no route'', Some ''no route'', Some ''no route'']))" by code_simp
  from run8_reach [OF this] obtain q effs where q: "NewSimpleQuery Key8 (TrieRT_methods Key8) (=) sliceStable (plnet8 [1]) (pnode8 0)
      \<lparr>Target = 7, reqMessage = ()\<rparr> sqopts8 = Some (Inr (q, effs))"
    "sq_reach Key8 (TrieRT_methods Key8) (=) sliceStable idok8 (start_world q effs ()) ?w" by blast
  from simplequery_asks_all [OF key8.kad_key_axioms insertion.slice_sort_axioms key8.trt.routing_table_axioms ids_ok8 plnet8_ok
      idok8_node TrueI sqopts8_std sqopts8_table q s(1-3)] s(4)
  show ?thesis by (simp add: Let_def)
qed

text \<open>A query of two peers to which no request can be sent: the error of the first request schedules an
  action for the second peer although one is scheduled already.\<close>

theorem simplequery_failure_lost_witness:
  "let w = run8 (map ask8 [Some ''no route'', Some ''no route'']) in
   \<exists>w'. sq_exec Key8 (TrieRT_methods Key8) (=) sliceStable (ask8 (Some ''no route'')) w = Some w' \<and>
     (\<forall>ev. \<not> sq_enabled ev w') \<and> \<not> sq_done (w_q w') \<and> w_failures w' = 0"
proof -
  let ?w = "run8 (map ask8 [Some ''no route'', Some ''no route''])"
  have s: "\<not> sq_done (w_q ?w)" "w_actions ?w = 1" "w_open ?w = []" by code_simp+
  have "list_all (\<lambda>p. \<not> is_queued p) (peers (sq_peerlist (w_q ?w)))" by code_simp
  then have n: "\<forall>p \<in> set (peers (sq_peerlist (w_q ?w))). \<not> is_queued p" by (simp only: list_all_iff)
  have "\<not> Option.is_none (sq_run Key8 (TrieRT_methods Key8) (=) sliceStable sqworld8
      (map ask8 [Some ''no route'', Some ''no route'']))" by code_simp
  from run8_reach [OF this] obtain q effs where q: "NewSimpleQuery Key8 (TrieRT_methods Key8) (=) sliceStable (plnet8 [1]) (pnode8 0)
      \<lparr>Target = 7, reqMessage = ()\<rparr> sqopts8 = Some (Inr (q, effs))"
    "sq_reach Key8 (TrieRT_methods Key8) (=) sliceStable idok8 (start_world q effs ()) ?w" by blast
  from simplequery_failure_lost [OF key8.kad_key_axioms insertion.slice_sort_axioms key8.trt.routing_table_axioms ids_ok8 plnet8_ok
      idok8_node TrueI sqopts8_std sqopts8_table q s n, of "\<lambda>_. None" "plnet8 [1]" "\<lambda>_. Some ''no route''"]
  show ?thesis unfolding Let_def ask8_def by (simp only: simp_thms) blast
qed

text \<open>C32: With the options of \<open>options.go\<close> a configuration is accepted only with a positive number of
  peers, a positive concurrency, a handler, a failure callback, a routing table, an endpoint and a
  scheduler; and any of them rejected by its option makes \<open>NewSimpleQuery\<close> fail.\<close>

theorem simplequery_config:
  assumes "\<forall>opt \<in> set opts. std_option idok opt"
  shows "case Config_Apply zeroConfig (SQDefaultConfig # opts) of
      Inr c \<Rightarrow> 0 < cfgNumberUsefulCloserPeers c \<and> 0 < cfgConcurrency c \<and> cfgHandleResultsFunc c \<noteq> None \<and>
        cfgNotifyFailureFunc c \<noteq> None \<and> cfgRoutingTable c \<noteq> None \<and> cfgEndpoint c \<noteq> None \<and> cfgScheduler c \<noteq> None \<and>
        (\<forall>opt \<in> set opts. \<forall>c. \<exists>c'. opt c = Inr c')
    | Inl e \<Rightarrow> NewSimpleQuery K RT aeq srt net self req opts = Some (Inl e)"
proof -
  have total: "\<exists>c'. opt d' = Inr c'" if "std_option idok opt" "opt d = Inr e" for opt d d' e
    using that by (induction rule: std_option.induct) (auto simp: with_defs split: if_splits)
  have all: "\<forall>opt \<in> set os. \<forall>c. \<exists>c'. opt c = Inr c'"
    if "applyLoop i d os = Inr c" "\<forall>opt \<in> set os. std_option idok opt" for i d os c
    using that
  proof (induction os arbitrary: i d)
    case (Cons opt os)
    then obtain d1 where "opt d = Inr d1" "applyLoop (Suc i) d1 os = Inr c" by (auto split: sum.splits)
    with Cons show ?case using total [of opt d] by (auto simp del: applyLoop.simps)
  qed simp
  show ?thesis
  proof (cases "Config_Apply zeroConfig (SQDefaultConfig # opts)")
    case (Inl e)
    then show ?thesis by (simp add: NewSimpleQuery_def)
  next
    case (Inr c)
    then obtain d where "applyLoop 1 d opts = Inr c"
      by (auto simp: Config_Apply_def SQDefaultConfig_def split: sum.splits if_splits)
    from all [OF this assms] Config_Apply_ok [OF assms Inr] Inr show ?thesis by (auto simp: config_ok_def)
  qed
qed

theorem simplequery_config_witness:
  "\<exists>e. NewSimpleQuery Key8 (TrieRT_methods Key8) (=) sliceStable (plnet8 [1]) (pnode8 0) \<lparr>Target = 7, reqMessage = ()\<rparr>
     (WithConcurrency 0 # sqopts8) = Some (Inl e)"
proof -
  have std: "\<forall>opt \<in> set (WithConcurrency 0 # sqopts8). std_option idok8 opt"
    using sqopts8_std by (auto intro: std_option.intros)
  have no: "\<not> (\<exists>c'. (WithConcurrency 0 :: (key8, nat, unit, key8 TrieRT) SQOption) zeroConfig = Inr c')"
    by (simp add: WithConcurrency_def)
  show ?thesis
    using simplequery_config [OF std, of Key8 "TrieRT_methods Key8" "(=)" sliceStable "plnet8 [1]" "pnode8 0" "\<lparr>Target = 7, reqMessage = ()\<rparr>"] no
    by (cases "Config_Apply zeroConfig (SQDefaultConfig # WithConcurrency 0 # sqopts8)") auto
qed

end
