(* ===== verification/Sim_Endpoint.thy ===== *)
theory Sim_Endpoint
  imports Kad_Key Event_Scheduler
begin

text \<open>
  The simulated network of the package \<open>sim\<close>: the messages of \<open>message.go\<close>, the router of
  \<open>router.go\<close> and the endpoints of \<open>endpoint.go\<close>.

  \<^item> Router, endpoints and schedulers refer to each other by pointers. The record \<open>World\<close> holds all of
    them: the schedulers and the endpoints are stores, a pointer is an index; there is one router,
    and an endpoint says whether it has it (\<open>ep_router\<close>; the constructor accepts a nil router).
  \<^item> A closure that is given to a scheduler is a value of \<open>SimAction\<close> with the variables it captures;
    \<open>runAction\<close> says what it does when it runs.
  \<^item> A request handler is a value of type \<open>'q\<close>, and the parameter \<open>serve\<close> says what it answers in a
    world. A response handler is a value of type \<open>'f\<close>; its calls are recorded in \<open>w_calls\<close>, and
    what it does is the business of the program around the network.
  \<^item> The scheduler is any implementation \<open>E\<close> of the interface \<open>Scheduler\<close>, on a state and a reading of
    the clock.
  \<^item> A nil interface or function is \<open>None\<close>, and so is a panic in a result. The stream identifiers are
    machine words, as the code has them.
\<close>

section \<open>Messages, errors and the endpoint interface\<close>

type_synonym StreamID = "64 word"

type_synonym ProtocolID = string

datatype Connectedness = NotConnected | Connected | CanConnect | CannotConnect

datatype EndpointError =
  ErrCannotConnect | ErrUnknownPeer | ErrInvalidPeer | ErrTimeout | ErrNilRequestHandler |
  ErrNilResponseHandler | ErrResponseReceivedAfterTimeout

datatype SimError = ErrNotNetworkedEndpoint | ErrUnknownMessageFormat | ErrInvalidResponseType

datatype NetError = EndpointErr EndpointError | SimErr SimError | OtherErr string

record ('k, 'a) Message =
  msg_target :: 'k
  msg_closerPeers :: "('k, 'a) NodeInfo list"

definition NewRequest :: "'k \<Rightarrow> ('k, 'a) Message" where
  "NewRequest target = \<lparr>msg_target = target, msg_closerPeers = []\<rparr>"

text \<open>The target of a response is the zero value of the key type.\<close>

definition NewResponse :: "'k \<Rightarrow> ('k, 'a) NodeInfo list \<Rightarrow> ('k, 'a) Message" where
  "NewResponse zeroKey closerPeers = \<lparr>msg_target = zeroKey, msg_closerPeers = closerPeers\<rparr>"

definition Message_Target :: "('k, 'a) Message \<Rightarrow> 'k" where
  "Message_Target m = msg_target m"

definition Message_EmptyResponse :: "'k \<Rightarrow> ('k, 'a) Message" where
  "Message_EmptyResponse zeroKey = \<lparr>msg_target = zeroKey, msg_closerPeers = []\<rparr>"

definition Message_CloserNodes :: "('k, 'a) Message \<Rightarrow> ('k, 'a) NodeInfo list" where
  "Message_CloserNodes m = msg_closerPeers m"

text \<open>A \<open>kad.Message\<close> is any value. What the package asks of it, with type assertions, is whether it
  is a \<open>*Message\<close> and whether it has the methods of a \<open>kad.Response\<close>.\<close>

datatype ('k, 'a, 'm) AnyMessage =
  NilMessage
| SimMessage "('k, 'a) Message"
| ResponseMessage 'm "('k, 'a) Response"
| OtherMessage 'm

fun asResponse :: "('k, 'a, 'm) AnyMessage \<Rightarrow> ('k, 'a) Response option" where
  "asResponse NilMessage = None"
| "asResponse (SimMessage m) = Some \<lparr>CloserNodes = Message_CloserNodes m\<rparr>"
| "asResponse (ResponseMessage _ r) = Some r"
| "asResponse (OtherMessage _) = None"

section \<open>The state\<close>

record Router =
  r_currStream :: StreamID
  r_peers :: "(string \<times> nat) list"
  r_scheds :: "(string \<times> nat) list"

record ('k, 'a, 'f, 'q, 'h) Endpoint =
  ep_self :: "'k NodeID"
  ep_sched :: nat
  ep_peerstore :: "(string \<times> ('k, 'a) NodeInfo) list"
  ep_connStatus :: "(string \<times> Connectedness) list"
  ep_serverProtos :: "(ProtocolID \<times> 'q option) list"
  ep_streamFollowup :: "(StreamID \<times> 'f option) list"
  ep_streamTimeout :: "(StreamID \<times> 'h option) list"
  ep_router :: bool

datatype ('k, 'a, 'm, 'f, 'x) SimAction =
  DeliverAction "'k NodeID" "'k NodeID" ProtocolID StreamID "('k, 'a, 'm) AnyMessage"
| ResponseAction "'f option" "('k, 'a, 'm) AnyMessage option" "NetError option"
| TimeoutAction nat StreamID
| AppAction 'x

datatype ('k, 'a, 'm, 'f, 'x) Call =
  HandlerCall 'f "('k, 'a, 'm) AnyMessage option" "NetError option"
| AppCall 'x

record ('k, 'a, 'm, 'f, 'q, 'h, 'x, 's, 'u) World =
  w_now :: time
  w_scheds :: "'s list"
  w_router :: Router
  w_endpoints :: "('k, 'a, 'f, 'q, 'h) Endpoint list"
  w_app :: 'u
  w_calls :: "('k, 'a, 'm, 'f, 'x) Call list"

type_synonym ('k, 'a, 'm, 'f, 'h, 'x, 's) NetScheduler =
  "('s \<times> time, 'h, ('k, 'a, 'm, 'f, 'x) SimAction) Scheduler"

text \<open>Reading and writing through a pointer.\<close>

definition endpointAt ::
  "('k, 'a, 'm, 'f, 'q, 'h, 'x, 's, 'u) World \<Rightarrow> nat \<Rightarrow> ('k, 'a, 'f, 'q, 'h) Endpoint option" where
  "endpointAt w e = (if e < length (w_endpoints w) then Some (w_endpoints w ! e) else None)"

definition setEndpoint ::
  "nat \<Rightarrow> ('k, 'a, 'f, 'q, 'h) Endpoint \<Rightarrow> ('k, 'a, 'm, 'f, 'q, 'h, 'x, 's, 'u) World \<Rightarrow>
   ('k, 'a, 'm, 'f, 'q, 'h, 'x, 's, 'u) World" where
  "setEndpoint e ep w = w\<lparr>w_endpoints := (w_endpoints w)[e := ep]\<rparr>"

definition onSched ::
  "nat \<Rightarrow> ('s \<times> time \<Rightarrow> (('s \<times> time) \<times> 'r) option) \<Rightarrow> ('k, 'a, 'm, 'f, 'q, 'h, 'x, 's, 'u) World \<Rightarrow>
   (('k, 'a, 'm, 'f, 'q, 'h, 'x, 's, 'u) World \<times> 'r) option" where
  "onSched i m w =
     (if i < length (w_scheds w)
      then do { ((s, _), r) \<leftarrow> m (w_scheds w ! i, w_now w); Some (w\<lparr>w_scheds := (w_scheds w)[i := s]\<rparr>, r) }
      else None)"

definition enqueueOn ::
  "('k, 'a, 'm, 'f, 'h, 'x, 's) NetScheduler \<Rightarrow> nat \<Rightarrow> ('k, 'a, 'm, 'f, 'x) SimAction \<Rightarrow>
   ('k, 'a, 'm, 'f, 'q, 'h, 'x, 's, 'u) World \<Rightarrow> ('k, 'a, 'm, 'f, 'q, 'h, 'x, 's, 'u) World option" where
  "enqueueOn E i a w =
     map_option fst (onSched i (\<lambda>sw. map_option (\<lambda>sw'. (sw', ())) (schEnqueueAction E sw a)) w)"

section \<open>The router\<close>

definition NewRouter :: Router where
  "NewRouter = \<lparr>r_currStream = 1, r_peers = [], r_scheds = []\<rparr>"

definition Router_AddPeer :: "Router \<Rightarrow> 'k NodeID \<Rightarrow> nat \<Rightarrow> nat \<Rightarrow> Router" where
  "Router_AddPeer r n peer sched =
     r\<lparr>r_peers := AList.update (nodeString n) peer (r_peers r),
       r_scheds := AList.update (nodeString n) sched (r_scheds r)\<rparr>"

definition Router_RemovePeer :: "Router \<Rightarrow> 'k NodeID \<Rightarrow> Router" where
  "Router_RemovePeer r n =
     r\<lparr>r_peers := AList.delete (nodeString n) (r_peers r), r_scheds := AList.delete (nodeString n) (r_scheds r)\<rparr>"

definition Router_SendMessage ::
  "('k, 'a, 'm, 'f, 'h, 'x, 's) NetScheduler \<Rightarrow> 'k NodeID \<Rightarrow> 'k NodeID \<Rightarrow> ProtocolID \<Rightarrow> StreamID \<Rightarrow>
   ('k, 'a, 'm) AnyMessage \<Rightarrow> ('k, 'a, 'm, 'f, 'q, 'h, 'x, 's, 'u) World \<Rightarrow>
   (('k, 'a, 'm, 'f, 'q, 'h, 'x, 's, 'u) World \<times> (NetError + StreamID)) option" where
  "Router_SendMessage E frm to protoID sid msg w =
     (case map_of (r_peers (w_router w)) (nodeString to) of
        None \<Rightarrow> Some (w, Inl (EndpointErr ErrUnknownPeer))
      | Some _ \<Rightarrow>
          (let (sid', w1) =
             (if sid = 0
              then (r_currStream (w_router w),
                w\<lparr>w_router := (w_router w)\<lparr>r_currStream := r_currStream (w_router w) + 1\<rparr>\<rparr>)
              else (sid, w))
           in do {
             i \<leftarrow> map_of (r_scheds (w_router w1)) (nodeString to);
             w2 \<leftarrow> enqueueOn E i (DeliverAction frm to protoID sid' msg) w1;
             Some (w2, Inr sid')
           }))"

section \<open>The endpoint\<close>

definition NewEndpoint ::
  "'k NodeID \<Rightarrow> nat \<Rightarrow> bool \<Rightarrow> ('k, 'a, 'm, 'f, 'q, 'h, 'x, 's, 'u) World \<Rightarrow>
   ('k, 'a, 'm, 'f, 'q, 'h, 'x, 's, 'u) World \<times> nat" where
  "NewEndpoint self sched router w =
     (let e = length (w_endpoints w);
        w1 = w\<lparr>w_endpoints := w_endpoints w @
          [\<lparr>ep_self = self, ep_sched = sched, ep_peerstore = [], ep_connStatus = [], ep_serverProtos = [],
            ep_streamFollowup = [], ep_streamTimeout = [], ep_router = router\<rparr>]\<rparr>
      in (if router then w1\<lparr>w_router := Router_AddPeer (w_router w1) self e sched\<rparr> else w1, e))"

definition DialPeer ::
  "('k, 'a, 'f, 'q, 'h) Endpoint \<Rightarrow> 'k NodeID \<Rightarrow> ('k, 'a, 'f, 'q, 'h) Endpoint \<times> NetError option" where
  "DialPeer ep n =
     (case map_of (ep_connStatus ep) (nodeString n) of
        Some Connected \<Rightarrow> (ep, None)
      | Some CanConnect \<Rightarrow> (ep\<lparr>ep_connStatus := AList.update (nodeString n) Connected (ep_connStatus ep)\<rparr>, None)
      | _ \<Rightarrow> (ep, Some (EndpointErr ErrUnknownPeer)))"

definition MaybeAddToPeerstore ::
  "('k, 'a, 'f, 'q, 'h) Endpoint \<Rightarrow> ('k, 'a) NodeInfo \<Rightarrow> duration \<Rightarrow>
   ('k, 'a, 'f, 'q, 'h) Endpoint \<times> NetError option" where
  "MaybeAddToPeerstore ep info ttl =
     (let strNodeID = nodeString (infoID info);
        ep1 = (if map_of (ep_peerstore ep) strNodeID = None
          then ep\<lparr>ep_peerstore := AList.update strNodeID info (ep_peerstore ep)\<rparr> else ep);
        ep2 = (if map_of (ep_connStatus ep1) strNodeID = None
          then ep1\<lparr>ep_connStatus := AList.update strNodeID CanConnect (ep_connStatus ep1)\<rparr> else ep1)
      in (ep2, None))"

text \<open>The last part of \<open>SendRequestHandleResponse\<close>, after the request has gone out on the stream \<open>sid\<close>:
  the handler and the timeout are stored under the stream.\<close>

definition registerStream ::
  "('k, 'a, 'm, 'f, 'h, 'x, 's) NetScheduler \<Rightarrow> nat \<Rightarrow> ('k, 'a, 'f, 'q, 'h) Endpoint \<Rightarrow> StreamID \<Rightarrow> duration \<Rightarrow>
   'f option \<Rightarrow> ('k, 'a, 'm, 'f, 'q, 'h, 'x, 's, 'u) World \<Rightarrow>
   ('k, 'a, 'm, 'f, 'q, 'h, 'x, 's, 'u) World option" where
  "registerStream E e ep sid timeout handleResp w =
     (let ep2 = ep\<lparr>ep_streamFollowup := AList.update sid handleResp (ep_streamFollowup ep)\<rparr>
      in if timeout \<noteq> 0
         then do {
           (w', h) \<leftarrow> onSched (ep_sched ep2) (\<lambda>sw. ScheduleActionIn E sw timeout (TimeoutAction e sid)) w;
           Some (setEndpoint e (ep2\<lparr>ep_streamTimeout := AList.update sid h (ep_streamTimeout ep2)\<rparr>) w')
         }
         else Some (setEndpoint e ep2 w))"

definition SendRequestHandleResponse ::
  "('k, 'a, 'm, 'f, 'h, 'x, 's) NetScheduler \<Rightarrow> nat \<Rightarrow> ProtocolID \<Rightarrow> 'k NodeID \<Rightarrow> ('k, 'a, 'm) AnyMessage \<Rightarrow>
   duration \<Rightarrow> 'f option \<Rightarrow> ('k, 'a, 'm, 'f, 'q, 'h, 'x, 's, 'u) World \<Rightarrow>
   (('k, 'a, 'm, 'f, 'q, 'h, 'x, 's, 'u) World \<times> NetError option) option" where
  "SendRequestHandleResponse E e protoID n req timeout handleResp w = do {
     ep \<leftarrow> endpointAt w e;
     (case DialPeer ep n of
        (_, Some err) \<Rightarrow> do {
          w' \<leftarrow> enqueueOn E (ep_sched ep) (ResponseAction handleResp None (Some err)) w;
          Some (w', None)
        }
      | (ep1, None) \<Rightarrow> do {
          addr \<leftarrow> map_of (ep_peerstore ep1) (nodeString n);
          (w2, sent) \<leftarrow> (if ep_router ep1
            then Router_SendMessage E (ep_self ep1) (infoID addr) protoID 0 req (setEndpoint e ep1 w) else None);
          (case sent of
             Inl err \<Rightarrow> do {
               w' \<leftarrow> enqueueOn E (ep_sched ep1) (ResponseAction handleResp None (Some err)) w2;
               Some (w', None)
             }
           | Inr sid \<Rightarrow> do {
               w' \<leftarrow> registerStream E e ep1 sid timeout handleResp w2;
               Some (w', None)
             })
        })
   }"

text \<open>The action that \<open>SendRequestHandleResponse\<close> schedules for the timeout.\<close>

definition runTimeout ::
  "nat \<Rightarrow> StreamID \<Rightarrow> ('k, 'a, 'm, 'f, 'q, 'h, 'x, 's, 'u) World \<Rightarrow>
   ('k, 'a, 'm, 'f, 'q, 'h, 'x, 's, 'u) World option" where
  "runTimeout e sid w = do {
     ep \<leftarrow> endpointAt w e;
     let w1 = setEndpoint e (ep\<lparr>ep_streamFollowup := AList.delete sid (ep_streamFollowup ep),
       ep_streamTimeout := AList.delete sid (ep_streamTimeout ep)\<rparr>) w;
     (case map_of (ep_streamFollowup ep) sid of
        Some (Some handleFn) \<Rightarrow>
          Some (w1\<lparr>w_calls := w_calls w1 @ [HandlerCall handleFn None (Some (EndpointErr ErrTimeout))]\<rparr>)
      | _ \<Rightarrow> Some w1)
   }"

definition Connectedness_of :: "('k, 'a, 'f, 'q, 'h) Endpoint \<Rightarrow> 'k NodeID \<Rightarrow> Connectedness" where
  "Connectedness_of ep n =
     (case map_of (ep_connStatus ep) (nodeString n) of None \<Rightarrow> NotConnected | Some s \<Rightarrow> s)"

text \<open>\<open>asInfo\<close> says whether the dynamic type of the identifier is a \<open>NodeInfo\<close> itself.\<close>

definition NetworkAddress ::
  "('k NodeID \<Rightarrow> ('k, 'a) NodeInfo option) \<Rightarrow> ('k, 'a, 'f, 'q, 'h) Endpoint \<Rightarrow> 'k NodeID \<Rightarrow>
   NetError + ('k, 'a) NodeInfo" where
  "NetworkAddress asInfo ep n =
     (case map_of (ep_peerstore ep) (nodeString n) of
        Some ai \<Rightarrow> Inr ai
      | None \<Rightarrow>
          (case asInfo n of
             Some na \<Rightarrow> Inr na
           | None \<Rightarrow> Inl (EndpointErr ErrUnknownPeer)))"

definition Endpoint_Key :: "('k, 'a, 'f, 'q, 'h) Endpoint \<Rightarrow> 'k" where
  "Endpoint_Key ep = nodeKey (ep_self ep)"

text \<open>The loop over the closer nodes of a response.\<close>

definition learnNode ::
  "('k, 'a) NodeInfo \<Rightarrow> ('k, 'a, 'f, 'q, 'h) Endpoint \<Rightarrow> ('k, 'a, 'f, 'q, 'h) Endpoint" where
  "learnNode p ep =
     ep\<lparr>ep_peerstore := AList.update (nodeString (infoID p)) p (ep_peerstore ep),
       ep_connStatus := AList.update (nodeString (infoID p)) CanConnect (ep_connStatus ep)\<rparr>"

definition handleResponseMessage ::
  "('k, 'a, 'm, 'f, 'h, 'x, 's) NetScheduler \<Rightarrow> nat \<Rightarrow> ('k, 'a, 'f, 'q, 'h) Endpoint \<Rightarrow> StreamID \<Rightarrow> 'f option \<Rightarrow>
   ('k, 'a, 'm) AnyMessage \<Rightarrow> ('k, 'a, 'm, 'f, 'q, 'h, 'x, 's, 'u) World \<Rightarrow>
   ('k, 'a, 'm, 'f, 'q, 'h, 'x, 's, 'u) World option" where
  "handleResponseMessage E e ep sid followup msg w = do {
     w1 \<leftarrow> (case map_of (ep_streamTimeout ep) sid of
        Some timeout \<Rightarrow> map_option fst (onSched (ep_sched ep) (\<lambda>sw. schRemovePlannedAction E sw timeout) w)
      | None \<Rightarrow> Some w);
     let ep1 = ep\<lparr>ep_streamFollowup := AList.delete sid (ep_streamFollowup ep),
       ep_streamTimeout := AList.delete sid (ep_streamTimeout ep)\<rparr>;
     let (ep2, resp, err) = (case asResponse msg of
        Some r \<Rightarrow> (fold learnNode (CloserNodes r) ep1, Some msg, None)
      | None \<Rightarrow> (ep1, None, Some (SimErr ErrInvalidResponseType)));
     let w2 = setEndpoint e ep2 w1;
     if followup \<noteq> None then enqueueOn E (ep_sched ep2) (ResponseAction followup resp err) w2 else Some w2
   }"

definition HandleMessage ::
  "('k, 'a, 'm, 'f, 'h, 'x, 's) NetScheduler \<Rightarrow>
   ('q \<Rightarrow> ('k, 'a, 'm, 'f, 'q, 'h, 'x, 's, 'u) World \<Rightarrow> 'k NodeID \<Rightarrow> ('k, 'a, 'm) AnyMessage \<Rightarrow>
    (NetError + ('k, 'a, 'm) AnyMessage) option) \<Rightarrow>
   nat \<Rightarrow> 'k NodeID \<Rightarrow> ProtocolID \<Rightarrow> StreamID \<Rightarrow> ('k, 'a, 'm) AnyMessage \<Rightarrow>
   ('k, 'a, 'm, 'f, 'q, 'h, 'x, 's, 'u) World \<Rightarrow> ('k, 'a, 'm, 'f, 'q, 'h, 'x, 's, 'u) World option" where
  "HandleMessage E serve e n protoID sid msg w = do {
     ep \<leftarrow> endpointAt w e;
     (case map_of (ep_streamFollowup ep) sid of
        Some followup \<Rightarrow> handleResponseMessage E e ep sid followup msg w
      | None \<Rightarrow>
          (case map_of (ep_serverProtos ep) protoID of
             Some (Some handler) \<Rightarrow> do {
               answer \<leftarrow> serve handler w n msg;
               (case answer of
                  Inl err \<Rightarrow> Some w
                | Inr resp \<Rightarrow>
                    (if ep_router ep
                     then map_option fst (Router_SendMessage E (ep_self ep) n protoID sid resp w) else None))
             }
           | _ \<Rightarrow> Some w))
   }"

definition AddRequestHandler ::
  "('k, 'a, 'f, 'q, 'h) Endpoint \<Rightarrow> ProtocolID \<Rightarrow> 'q option \<Rightarrow>
   ('k, 'a, 'f, 'q, 'h) Endpoint \<times> NetError option" where
  "AddRequestHandler ep protoID reqHandler =
     (if reqHandler = None then (ep, Some (EndpointErr ErrNilRequestHandler))
      else (ep\<lparr>ep_serverProtos := AList.update protoID reqHandler (ep_serverProtos ep)\<rparr>, None))"

definition RemoveRequestHandler ::
  "('k, 'a, 'f, 'q, 'h) Endpoint \<Rightarrow> ProtocolID \<Rightarrow> ('k, 'a, 'f, 'q, 'h) Endpoint" where
  "RemoveRequestHandler ep protoID = ep\<lparr>ep_serverProtos := AList.delete protoID (ep_serverProtos ep)\<rparr>"

section \<open>The actions\<close>

fun runAction ::
  "('k, 'a, 'm, 'f, 'h, 'x, 's) NetScheduler \<Rightarrow>
   ('q \<Rightarrow> ('k, 'a, 'm, 'f, 'q, 'h, 'x, 's, 'u) World \<Rightarrow> 'k NodeID \<Rightarrow> ('k, 'a, 'm) AnyMessage \<Rightarrow>
    (NetError + ('k, 'a, 'm) AnyMessage) option) \<Rightarrow>
   ('k, 'a, 'm, 'f, 'x) SimAction \<Rightarrow>
   ('k, 'a, 'm, 'f, 'q, 'h, 'x, 's, 'u) World \<Rightarrow> ('k, 'a, 'm, 'f, 'q, 'h, 'x, 's, 'u) World option" where
  "runAction E serve (DeliverAction frm to protoID sid msg) w = do {
     peer \<leftarrow> map_of (r_peers (w_router w)) (nodeString to);
     HandleMessage E serve peer frm protoID sid msg w
   }"
| "runAction E serve (ResponseAction handleResp resp err) w = do {
     f \<leftarrow> handleResp;
     Some (w\<lparr>w_calls := w_calls w @ [HandlerCall f resp err]\<rparr>)
   }"
| "runAction E serve (TimeoutAction e sid) w = runTimeout e sid w"
| "runAction E serve (AppAction x) w = Some (w\<lparr>w_calls := w_calls w @ [AppCall x]\<rparr>)"

end
