(* ===== verification/Sim_Server.thy ===== *)
theory Sim_Server
  imports Sim_Endpoint TrieRT SimpleRT
begin

text \<open>
  The server of \<open>sim/server.go\<close>. It answers a request for a target with the nodes of its routing
  table nearest to it, as far as its endpoint knows their addresses.

  \<^item> The routing table is any implementation \<open>RT\<close> of the interface, the table a value in the server.
  \<^item> Of the endpoint the server only calls \<open>NetworkAddress\<close>; the method bound to the endpoint is the
    argument \<open>networkAddress\<close>.
  \<^item> \<open>zeroKey\<close> is the zero value of the key type.
\<close>

section \<open>The server\<close>

record ('rt, 'e) Server =
  sv_rt :: 'rt
  sv_endpoint :: 'e
  sv_peerstoreTTL :: duration
  sv_numberOfCloserPeersToSend :: int

record ServerConfig =
  sc_PeerstoreTTL :: duration
  sc_NumberUsefulCloserPeers :: int

definition DefaultServerConfig :: ServerConfig where
  "DefaultServerConfig = \<lparr>sc_PeerstoreTTL = Second, sc_NumberUsefulCloserPeers = 4\<rparr>"

definition NewServer :: "'rt \<Rightarrow> 'e \<Rightarrow> ServerConfig option \<Rightarrow> ('rt, 'e) Server" where
  "NewServer rt endpoint cfg =
     (let c = (case cfg of None \<Rightarrow> DefaultServerConfig | Some c \<Rightarrow> c)
      in \<lparr>sv_rt = rt, sv_endpoint = endpoint, sv_peerstoreTTL = sc_PeerstoreTTL c,
          sv_numberOfCloserPeersToSend = sc_NumberUsefulCloserPeers c\<rparr>)"

text \<open>The loop over the nodes; a node without an address is left out.\<close>

fun peerAddrs :: "('k NodeID \<Rightarrow> NetError + ('k, 'a) NodeInfo) \<Rightarrow> 'k NodeID list \<Rightarrow> ('k, 'a) NodeInfo list" where
  "peerAddrs networkAddress [] = []"
| "peerAddrs networkAddress (p # ps) =
     (case networkAddress p of
        Inl err \<Rightarrow> peerAddrs networkAddress ps
      | Inr na \<Rightarrow> na # peerAddrs networkAddress ps)"

definition HandleFindNodeRequest ::
  "('k, 'rt, 'z) RoutingTable_scheme \<Rightarrow> 'k \<Rightarrow> ('k NodeID \<Rightarrow> NetError + ('k, 'a) NodeInfo) \<Rightarrow> ('rt, 'e) Server \<Rightarrow>
   'k NodeID \<Rightarrow> ('k, 'a, 'm) AnyMessage \<Rightarrow> (NetError + ('k, 'a, 'm) AnyMessage) option" where
  "HandleFindNodeRequest RT zeroKey networkAddress s rpeer msg =
     (case msg of
        SimMessage m \<Rightarrow> do {
          nodes \<leftarrow> NearestNodes RT (sv_rt s) (Message_Target m) (sv_numberOfCloserPeersToSend s);
          Some (Inr (SimMessage (NewResponse zeroKey (peerAddrs networkAddress nodes))))
        }
      | _ \<Rightarrow> Some (Inl (SimErr ErrUnknownMessageFormat)))"

definition HandleRequest ::
  "('k, 'rt, 'z) RoutingTable_scheme \<Rightarrow> 'k \<Rightarrow> ('k NodeID \<Rightarrow> NetError + ('k, 'a) NodeInfo) \<Rightarrow> ('rt, 'e) Server \<Rightarrow>
   'k NodeID \<Rightarrow> ('k, 'a, 'm) AnyMessage \<Rightarrow> (NetError + ('k, 'a, 'm) AnyMessage) option" where
  "HandleRequest RT zeroKey networkAddress s rpeer msg =
     (case msg of
        SimMessage m \<Rightarrow> HandleFindNodeRequest RT zeroKey networkAddress s rpeer msg
      | _ \<Rightarrow> Some (Inl (SimErr ErrUnknownMessageFormat)))"

section \<open>What it answers\<close>

lemma set_peerAddrs: "set (peerAddrs na ns) = {a. \<exists>n \<in> set ns. na n = Inr a}"
  by (induction ns) (auto split: sum.splits)

lemma length_peerAddrs: "length (peerAddrs na ns) \<le> length ns"
  by (induction ns) (auto split: sum.splits)

text \<open>The order of the nodes is kept, as far as the addresses are those of the nodes.\<close>

lemma sorted_peerAddrs:
  assumes "sorted_wrt (\<lambda>a b. d (nodeKey a) < d (nodeKey b)) ns"
    and "\<And>n a. na n = Inr a \<Longrightarrow> nodeKey (infoID a) = nodeKey n"
  shows "sorted_wrt (\<lambda>a b. d (nodeKey (infoID a)) < d (nodeKey (infoID b))) (peerAddrs na ns)"
  using assms(1) by (induction ns) (auto simp: set_peerAddrs assms(2) split: sum.splits)

context routing_table_nearest
begin

lemma HandleRequest_nearest:
  assumes "inv (sv_rt s)" "valid target" "0 < sv_numberOfCloserPeersToSend s"
    and "\<And>n a. na n = Inr a \<Longrightarrow> nodeKey (infoID a) = nodeKey n"
  shows "\<exists>as. HandleRequest RT zeroKey na s rpeer (SimMessage (NewRequest target)) =
      Some (Inr (SimMessage (NewResponse zeroKey as))) \<and>
    int (length as) \<le> sv_numberOfCloserPeersToSend s \<and>
    sorted_wrt (\<lambda>a b. bdist bits (nodeKey (infoID a)) target < bdist bits (nodeKey (infoID b)) target) as \<and>
    set as = {a. \<exists>n \<in> ran (contents (sv_rt s)).
      int (card (nearer (sv_rt s) target n)) < sv_numberOfCloserPeersToSend s \<and> na n = Inr a}"
proof -
  obtain ns where ns: "NearestNodes RT (sv_rt s) target (sv_numberOfCloserPeersToSend s) = Some ns"
    "int (length ns) \<le> sv_numberOfCloserPeersToSend s"
    "sorted_wrt (\<lambda>a b. bdist bits (nodeKey a) target < bdist bits (nodeKey b) target) ns"
    "set ns = {n \<in> ran (contents (sv_rt s)). int (card (nearer (sv_rt s) target n)) < sv_numberOfCloserPeersToSend s}"
    using NearestNodes_rank [OF assms(1-3)] by blast
  have "HandleRequest RT zeroKey na s rpeer (SimMessage (NewRequest target)) =
      Some (Inr (SimMessage (NewResponse zeroKey (peerAddrs na ns))))"
    by (simp add: HandleRequest_def HandleFindNodeRequest_def Message_Target_def NewRequest_def ns(1))
  moreover have "sorted_wrt (\<lambda>a b. bdist bits (nodeKey (infoID a)) target < bdist bits (nodeKey (infoID b)) target) (peerAddrs na ns)"
    by (rule sorted_peerAddrs [OF ns(3) assms(4)])
  moreover have "int (length (peerAddrs na ns)) \<le> sv_numberOfCloserPeersToSend s"
    using length_peerAddrs [of na ns] ns(2) by simp
  ultimately show ?thesis by (intro exI [of _ "peerAddrs na ns"]) (auto simp: set_peerAddrs ns(4))
qed

end

section \<open>Properties\<close>

text \<open>The simulated server answers a request with the nodes of its routing table that are
  among the nearest to the target, as many as it is configured for, in the order of their distance;
  exactly those whose address the endpoint does not know are missing. Any other message is an error.
  The routing table may be any one whose \<open>NearestNodes\<close> returns the nearest nodes, as that of
  \<open>triert\<close> does.\<close>

theorem sim_server_reply:
  assumes "routing_table_nearest RT valid bits rtinv contents" and "rtinv (sv_rt s)"
    and "valid target" and "0 < sv_numberOfCloserPeersToSend s"
    and "\<And>n a. networkAddress n = Inr a \<Longrightarrow> nodeKey (infoID a) = nodeKey n"
  shows "(\<exists>as. HandleRequest RT zeroKey networkAddress s rpeer (SimMessage (NewRequest target)) =
        Some (Inr (SimMessage (NewResponse zeroKey as))) \<and>
      int (length as) \<le> sv_numberOfCloserPeersToSend s \<and>
      sorted_wrt (\<lambda>a b. bdist bits (nodeKey (infoID a)) target < bdist bits (nodeKey (infoID b)) target) as \<and>
      set as = {a. \<exists>n \<in> ran (contents (sv_rt s)).
        int (card {p \<in> ran (contents (sv_rt s)).
          bdist bits (nodeKey p) target < bdist bits (nodeKey n) target}) < sv_numberOfCloserPeersToSend s \<and>
        networkAddress n = Inr a}) \<and>
    HandleRequest RT zeroKey networkAddress s rpeer (OtherMessage other) =
      Some (Inl (SimErr ErrUnknownMessageFormat))"
  using routing_table_nearest.HandleRequest_nearest [OF assms, where zeroKey = zeroKey and rpeer = rpeer]
  unfolding routing_table_nearest.nearer_def [OF assms(1)] by (simp add: HandleRequest_def)

text \<open>A server with the default configuration over the table that holds the nodes 3 and 130, and an
  endpoint that knows an address of node 130 only.\<close>

definition server8 :: "(key8 TrieRT, unit) Server" where
  "server8 = NewServer triert8 () None"

definition address8 :: "key8 NodeID \<Rightarrow> NetError + (key8, nat) NodeInfo" where
  "address8 n = (if nodeKey n = 130 then Inr \<lparr>infoID = n, infoAddresses = [7]\<rparr>
     else Inl (EndpointErr ErrUnknownPeer))"

abbreviation request8 :: "(key8, nat, unit) AnyMessage" where
  "request8 \<equiv> SimMessage (NewRequest 128)"

theorem sim_server_reply_witness:
  "HandleRequest (TrieRT_methods Key8) 0 address8 server8 (node8 5) request8 =
    Some (Inr (SimMessage (NewResponse 0 [\<lparr>infoID = node8 130, infoAddresses = [7]\<rparr>])))"
proof -
  let ?n = "\<lparr>infoID = node8 130, infoAddresses = [7]\<rparr>"
  have s: "sv_rt server8 = triert8" "sv_numberOfCloserPeersToSend server8 = 4"
    by (simp_all add: server8_def NewServer_def DefaultServerConfig_def)
  have r: "ran (trie_rt_contents triert8) = {node8 3, node8 130}" by (auto simp: triert8_contents ran_map_upd)
  have few: "int (card {p \<in> {node8 3, node8 130}. P p}) < 4" for P
  proof -
    have "card {p \<in> {node8 3, node8 130}. P p} \<le> card {node8 3, node8 130}" by (rule card_mono) auto
    then show ?thesis by (simp add: card_insert_if split: if_splits)
  qed
  obtain as where as: "HandleRequest (TrieRT_methods Key8) 0 address8 server8 (node8 5) request8 =
      Some (Inr (SimMessage (NewResponse 0 as)))"
    "sorted_wrt (\<lambda>a b. bdist word_bits (nodeKey (infoID a)) 128 < bdist word_bits (nodeKey (infoID b)) 128) as"
    "set as = {?n}"
  proof -
    have own: "nodeKey (infoID a) = nodeKey n" if "address8 n = Inr a" for n a
      using that by (auto simp: address8_def split: if_splits)
    have known: "{a. \<exists>n \<in> {node8 3, node8 130}. address8 n = Inr a} = {?n}" by (auto simp: address8_def node8_def)
    have inv: "trie_rt_inv (\<lambda>_. True) word_bits (sv_rt server8)" "0 < sv_numberOfCloserPeersToSend server8"
      using triert8_inv by (simp_all add: s)
    note R = sim_server_reply [OF key8.trt.routing_table_nearest_axioms inv(1) TrueI inv(2) own,
        where target = 128 and networkAddress = address8 and zeroKey = 0 and rpeer = "node8 5", THEN conjunct1]
    have "\<exists>as. HandleRequest (TrieRT_methods Key8) 0 address8 server8 (node8 5) request8 =
        Some (Inr (SimMessage (NewResponse 0 as))) \<and> int (length as) \<le> 4 \<and>
      sorted_wrt (\<lambda>a b. bdist word_bits (nodeKey (infoID a)) 128 < bdist word_bits (nodeKey (infoID b)) 128) as \<and>
      set as = {?n}"
      using R by (simp only: s r few known simp_thms implies_True_equals triv_forall_equality True_implies_equals)
    then show thesis by (elim exE conjE) (rule that)
  qed
  have "distinct as" using as(2) by (induction as) auto
  then have "length as = 1" using distinct_card [of as] by (simp add: as(3))
  then have "as = [?n]" using as(3) by (cases as) auto
  with as(1) show ?thesis by simp
qed

end
