(* ===== verification/Sim_Network.thy ===== *)
theory Sim_Network
  imports Sim_Server
begin

text \<open>
  The simulated network as a whole. A world holds simple schedulers, and everything that can happen
  in it is an operation \<open>NetOp\<close>: the calls that the program around the network makes, the passing
  of time, a run of one action by one of the schedulers, and the question when its next action is due. \<open>net_reach\<close> is the set of reachable
  worlds, with the sequence of operations that leads there.

  \<^item> What a response handler does when it is called is any sequence of operations that follows.
  \<^item> \<open>net_sched\<close> is what the endpoints rely on in a scheduler; \<open>netSched\<close> is the simple scheduler.
  \<^item> The invariant \<open>net_inv\<close> connects the streams of the endpoints with the actions that are queued
    or planned; the conservation law of the response handlers rests on it.
\<close>

section \<open>The scheduler that the network uses\<close>

locale net_sched =
  fixes E :: "('s \<times> time, 'h, 'act) Scheduler"
    and sinv :: "'s \<Rightarrow> bool"
    and queued :: "'s \<Rightarrow> 'act list"
    and plan :: "'s \<Rightarrow> ('h, 'act) planned list"
    and issued :: "'s \<Rightarrow> 'h set"
  assumes now_law: "schNow E (s, t) = t"
    and enqueue_law: "sinv s \<Longrightarrow> schEnqueueAction E (s, t) a = Some sw \<Longrightarrow>
      \<exists>s'. sw = (s', t) \<and> sinv s' \<and> queued s' = queued s @ [a] \<and> plan s' = plan s \<and> issued s' = issued s"
    and schedule_law: "sinv s \<Longrightarrow> t \<le> t' \<Longrightarrow>
      \<exists>s' h xs ys. schScheduleAction E (s, t) t' a = Some ((s', t), Some h) \<and> sinv s' \<and> queued s' = queued s \<and>
        plan s = xs @ ys \<and> plan s' = xs @ (h, t', a) # ys \<and> h \<notin> issued s \<and> issued s' = insert h (issued s)"
    and remove_law: "sinv s \<Longrightarrow>
      \<exists>s'. schRemovePlannedAction E (s, t) (Some h) = Some ((s', t), h \<in> fst ` set (plan s)) \<and> sinv s' \<and>
        queued s' = queued s \<and> plan s' = filter (\<lambda>e. fst e \<noteq> h) (plan s) \<and> issued s' = issued s"
    and remove_nil: "sinv s \<Longrightarrow> schRemovePlannedAction E (s, t) None = Some ((s, t), False)"
    and plan_issued: "sinv s \<Longrightarrow> fst ` set (plan s) \<subseteq> issued s"
begin

definition acts :: "'s \<Rightarrow> 'act list" where
  "acts s = queued s @ map act (plan s)"

text \<open>\<open>ScheduleActionIn\<close> either plans the action under a fresh handle or enqueues it.\<close>

lemma ScheduleActionIn_law:
  assumes "sinv s" "ScheduleActionIn E (s, t) d a = Some (sw, ho)"
  shows "\<exists>s'. sw = (s', t) \<and> sinv s' \<and> mset (acts s') = add_mset a (mset (acts s)) \<and> issued s \<subseteq> issued s' \<and>
    (case ho of
       None \<Rightarrow> plan s' = plan s
     | Some h \<Rightarrow> h \<in> issued s' \<and> h \<notin> issued s \<and> (\<exists>t'. set (plan s') = insert (h, t', a) (set (plan s))))"
proof (cases "d \<le> 0")
  case True
  with assms(2) obtain sw' where "schEnqueueAction E (s, t) a = Some sw'" "sw = sw'" "ho = None"
    by (auto simp: ScheduleActionIn_def bind_eq_Some)
  with enqueue_law [OF assms(1)] show ?thesis by (fastforce simp: acts_def)
next
  case False
  then have "t \<le> t + d" by simp
  from schedule_law [OF assms(1) this, of a] obtain s' h xs ys where
    "schScheduleAction E (s, t) (t + d) a = Some ((s', t), Some h)" "sinv s'" "queued s' = queued s"
    "plan s = xs @ ys" "plan s' = xs @ (h, t + d, a) # ys" "h \<notin> issued s" "issued s' = insert h (issued s)" by blast
  with False assms(2) show ?thesis by (auto simp: ScheduleActionIn_def now_law acts_def)
qed

end

definition netSched :: "(('b ChanQueue, 'b SimplePlanner) SimpleScheduler \<times> time, nat, 'b) Scheduler" where
  "netSched = SimpleScheduler_methods ChanQueue_methods SimplePlanner_methods (\<lambda>_ _. None) (\<lambda>t. t)"

abbreviation sched_queued :: "('b ChanQueue, 'b SimplePlanner) SimpleScheduler \<Rightarrow> 'b list" where
  "sched_queued s \<equiv> cq_queue (ss_queue s)"

abbreviation sched_plan :: "('b ChanQueue, 'b SimplePlanner) SimpleScheduler \<Rightarrow> (nat, 'b) planned list" where
  "sched_plan s \<equiv> simple_plan (ss_planner s)"

abbreviation sched_issued :: "('b ChanQueue, 'b SimplePlanner) SimpleScheduler \<Rightarrow> nat set" where
  "sched_issued s \<equiv> {..< length (sp_store (ss_planner s))}"

lemma schedule_store:
  assumes "SimplePlanner_ScheduleAction p t a = Some (p', ho)"
  shows "ho = Some (length (sp_store p))" "length (sp_store p') = Suc (length (sp_store p))"
  using assms by (auto simp: SimplePlanner_ScheduleAction_def Let_def bind_eq_Some split: option.splits if_splits)

lemma unlinkLoop_store: "unlinkLoop st a c = Some r \<Longrightarrow> length (fst r) = length st"
  by (erule unlinkLoop.raw_induct [rotated]) (auto split: option.splits if_splits)

lemma remove_store: "SimplePlanner_RemoveAction p h = Some (p', b) \<Longrightarrow> length (sp_store p') = length (sp_store p)"
  by (auto simp: SimplePlanner_RemoveAction_def bind_eq_Some dest: unlinkLoop_store split: option.splits if_splits)

lemma pop_store: "SimplePlanner_PopOverdueActions now p = Some (p', as) \<Longrightarrow> length (sp_store p') = length (sp_store p)"
  by (auto simp: SimplePlanner_PopOverdueActions_def bind_eq_Some)


interpretation nets: net_sched netSched scheduler_inv sched_queued sched_plan sched_issued
proof
  fix s :: "('b ChanQueue, 'b SimplePlanner) SimpleScheduler" and t t' :: time and a h sw
  show "schNow netSched (s, t) = t" by (simp add: netSched_def SimpleScheduler_methods_def)
  assume s: "scheduler_inv s"
  then have q: "chan_inv (ss_queue s)" and p: "simple_planner_inv (ss_planner s)" by (simp_all add: scheduler_inv_def)
  show "\<exists>s'. sw = (s', t) \<and> scheduler_inv s' \<and> sched_queued s' = sched_queued s @ [a] \<and>
      sched_plan s' = sched_plan s \<and> sched_issued s' = sched_issued s"
    if "schEnqueueAction netSched (s, t) a = Some sw"
    using that q p by (auto simp: netSched_def SimpleScheduler_methods_def SimpleScheduler_EnqueueAction_def
        bind_eq_Some ChanQueue_methods_def ChanQueue_Enqueue_def scheduler_inv_def chan_inv_def split: if_splits)
  show "\<exists>s' h xs ys. schScheduleAction netSched (s, t) t' a = Some ((s', t), Some h) \<and> scheduler_inv s' \<and>
      sched_queued s' = sched_queued s \<and> sched_plan s = xs @ ys \<and> sched_plan s' = xs @ (h, t', a) # ys \<and>
      h \<notin> sched_issued s \<and> sched_issued s' = insert h (sched_issued s)" if "t \<le> t'"
  proof -
    obtain p' h xs ys where P: "SimplePlanner_ScheduleAction (ss_planner s) t' a = Some (p', Some h)"
      "simple_planner_inv p'" "sched_plan s = xs @ ys" "simple_plan p' = xs @ (h, t', a) # ys"
      using simple_Schedule [OF p] by blast
    have "schScheduleAction netSched (s, t) t' a = Some ((s\<lparr>ss_planner := p'\<rparr>, t), Some h)"
      using that P(1) by (simp add: netSched_def SimpleScheduler_methods_def SimpleScheduler_ScheduleAction_def SimplePlanner_methods_def)
    with schedule_store [OF P(1)] P q show ?thesis
      by (intro exI [of _ "s\<lparr>ss_planner := p'\<rparr>"] exI [of _ h] exI [of _ xs] exI [of _ ys])
        (auto simp: scheduler_inv_def lessThan_Suc)
  qed
  show "\<exists>s'. schRemovePlannedAction netSched (s, t) (Some h) = Some ((s', t), h \<in> fst ` set (sched_plan s)) \<and>
      scheduler_inv s' \<and> sched_queued s' = sched_queued s \<and>
      sched_plan s' = filter (\<lambda>e. fst e \<noteq> h) (sched_plan s) \<and> sched_issued s' = sched_issued s"
  proof -
    obtain p' where P: "SimplePlanner_RemoveAction (ss_planner s) (Some h) = Some (p', h \<in> fst ` set (sched_plan s))"
      "simple_planner_inv p'" "simple_plan p' = filter (\<lambda>e. fst e \<noteq> h) (sched_plan s)"
      using simple_Remove [OF p] by blast
    with remove_store [OF P(1)] q show ?thesis
      by (intro exI [of _ "s\<lparr>ss_planner := p'\<rparr>"])
        (simp add: netSched_def SimpleScheduler_methods_def SimpleScheduler_RemovePlannedAction_def SimplePlanner_methods_def
          scheduler_inv_def)
  qed
  show "schRemovePlannedAction netSched (s, t) None = Some ((s, t), False)"
    by (simp add: netSched_def SimpleScheduler_methods_def SimpleScheduler_RemovePlannedAction_def SimplePlanner_methods_def
        SimplePlanner_RemoveAction_def)
  show "fst ` set (sched_plan s) \<subseteq> sched_issued s"
    using p chain_bound [of "sp_store (ss_planner s)" "sp_NextAction (ss_planner s)" "pointers (ss_planner s)"]
    by (auto simp: simple_plan_def simple_planner_inv_def)
qed


section \<open>The operations on the world\<close>

type_synonym ('k, 'a, 'm, 'f, 'x) NetSched =
  "(('k, 'a, 'm, 'f, 'x) SimAction ChanQueue, ('k, 'a, 'm, 'f, 'x) SimAction SimplePlanner) SimpleScheduler"

type_synonym ('k, 'a, 'm, 'f, 'q, 'x, 'u) NetWorld =
  "('k, 'a, 'm, 'f, 'q, nat, 'x, ('k, 'a, 'm, 'f, 'x) NetSched, 'u) World"

type_synonym ('k, 'a, 'm, 'f, 'q, 'x, 'u) Serve =
  "'q \<Rightarrow> ('k, 'a, 'm, 'f, 'q, 'x, 'u) NetWorld \<Rightarrow> 'k NodeID \<Rightarrow> ('k, 'a, 'm) AnyMessage \<Rightarrow>
   (NetError + ('k, 'a, 'm) AnyMessage) option"

text \<open>One action that scheduler \<open>i\<close> runs: it sees the world with the scheduler as it is by then.\<close>

definition runOn ::
  "('k, 'a, 'm, 'f, 'q, 'x, 'u) Serve \<Rightarrow> nat \<Rightarrow> ('k, 'a, 'm, 'f, 'x) SimAction \<Rightarrow>
   ('k, 'a, 'm, 'f, 'x) NetSched \<times> ('k, 'a, 'm, 'f, 'q, 'x, 'u) NetWorld \<Rightarrow>
   (('k, 'a, 'm, 'f, 'x) NetSched \<times> ('k, 'a, 'm, 'f, 'q, 'x, 'u) NetWorld) option" where
  "runOn serve i a sw = do {
     w \<leftarrow> runAction netSched serve a ((snd sw)\<lparr>w_scheds := (w_scheds (snd sw))[i := fst sw]\<rparr>);
     Some (w_scheds w ! i, w)
   }"

definition World_RunOne ::
  "('k, 'a, 'm, 'f, 'q, 'x, 'u) Serve \<Rightarrow> nat \<Rightarrow> ('k, 'a, 'm, 'f, 'q, 'x, 'u) NetWorld \<Rightarrow>
   (('k, 'a, 'm, 'f, 'q, 'x, 'u) NetWorld \<times> bool) option" where
  "World_RunOne serve i w =
     (if i < length (w_scheds w)
      then do {
        ((s, w'), ran) \<leftarrow>
          SimpleScheduler_RunOne ChanQueue_methods SimplePlanner_methods (runOn serve i) w_now (w_scheds w ! i, w);
        Some (w'\<lparr>w_scheds := (w_scheds w')[i := s]\<rparr>, ran)
      }
      else None)"

text \<open>The method \<open>NextActionTime\<close> of a scheduler, which moves its overdue actions into its queue.\<close>

definition World_NextActionTime ::
  "nat \<Rightarrow> ('k, 'a, 'm, 'f, 'q, 'x, 'u) NetWorld \<Rightarrow> (('k, 'a, 'm, 'f, 'q, 'x, 'u) NetWorld \<times> time) option" where
  "World_NextActionTime i w =
     (if i < length (w_scheds w)
      then do {
        (s, t) \<leftarrow> SimpleScheduler_NextActionTime ChanQueue_methods SimplePlanner_methods (w_now w) (w_scheds w ! i);
        Some (w\<lparr>w_scheds := (w_scheds w)[i := s]\<rparr>, t)
      }
      else None)"

datatype ('k, 'a, 'm, 'f, 'q, 'x, 'u) NetOp =
  NewSchedulerOp
| NewEndpointOp "'k NodeID" nat bool
| AddPeerOp "'k NodeID" nat nat
| RemovePeerOp "'k NodeID"
| DialPeerOp nat "'k NodeID"
| PeerstoreOp nat "('k, 'a) NodeInfo" duration
| SendOp nat ProtocolID "'k NodeID" "('k, 'a, 'm) AnyMessage" duration "'f option"
| AddHandlerOp nat ProtocolID "'q option"
| RemoveHandlerOp nat ProtocolID
| EnqueueOp nat 'x
| ScheduleOp nat duration 'x
| AppOp 'u
| AdvanceOp duration
| RunOp nat
| PollOp nat

text \<open>A change of one endpoint.\<close>

definition onEndpoint ::
  "nat \<Rightarrow> (('k, 'a, 'f, 'q, 'h) Endpoint \<Rightarrow> ('k, 'a, 'f, 'q, 'h) Endpoint) \<Rightarrow>
   ('k, 'a, 'm, 'f, 'q, 'h, 'x, 's, 'u) World \<Rightarrow> ('k, 'a, 'm, 'f, 'q, 'h, 'x, 's, 'u) World option" where
  "onEndpoint e g w = map_option (\<lambda>ep. setEndpoint e (g ep) w) (endpointAt w e)"

fun netStep ::
  "('k, 'a, 'm, 'f, 'q, 'x, 'u) Serve \<Rightarrow> ('k, 'a, 'm, 'f, 'q, 'x, 'u) NetOp \<Rightarrow>
   ('k, 'a, 'm, 'f, 'q, 'x, 'u) NetWorld \<Rightarrow> ('k, 'a, 'm, 'f, 'q, 'x, 'u) NetWorld option" where
  "netStep serve NewSchedulerOp w = do { s \<leftarrow> NewSimpleScheduler; Some (w\<lparr>w_scheds := w_scheds w @ [s]\<rparr>) }"
| "netStep serve (NewEndpointOp n i router) w =
     (if i < length (w_scheds w) then Some (fst (NewEndpoint n i router w)) else None)"
| "netStep serve (AddPeerOp n e i) w =
     (if e < length (w_endpoints w) \<and> i < length (w_scheds w)
      then Some (w\<lparr>w_router := Router_AddPeer (w_router w) n e i\<rparr>) else None)"
| "netStep serve (RemovePeerOp n) w = Some (w\<lparr>w_router := Router_RemovePeer (w_router w) n\<rparr>)"
| "netStep serve (DialPeerOp e n) w = onEndpoint e (\<lambda>ep. fst (DialPeer ep n)) w"
| "netStep serve (PeerstoreOp e info ttl) w = onEndpoint e (\<lambda>ep. fst (MaybeAddToPeerstore ep info ttl)) w"
| "netStep serve (SendOp e p n req timeout f) w =
     map_option fst (SendRequestHandleResponse netSched e p n req timeout f w)"
| "netStep serve (AddHandlerOp e p q) w = onEndpoint e (\<lambda>ep. fst (AddRequestHandler ep p q)) w"
| "netStep serve (RemoveHandlerOp e p) w = onEndpoint e (\<lambda>ep. RemoveRequestHandler ep p) w"
| "netStep serve (EnqueueOp i x) w = enqueueOn netSched i (AppAction x) w"
| "netStep serve (ScheduleOp i d x) w = map_option fst (onSched i (\<lambda>sw. ScheduleActionIn netSched sw d (AppAction x)) w)"
| "netStep serve (AppOp u) w = Some (w\<lparr>w_app := u\<rparr>)"
| "netStep serve (AdvanceOp d) w = (if 0 \<le> d then Some (w\<lparr>w_now := w_now w + d\<rparr>) else None)"
| "netStep serve (RunOp i) w = map_option fst (World_RunOne serve i w)"
| "netStep serve (PollOp i) w = map_option fst (World_NextActionTime i w)"

definition newWorld :: "time \<Rightarrow> 'u \<Rightarrow> ('k, 'a, 'm, 'f, 'q, 'x, 'u) NetWorld" where
  "newWorld now u = \<lparr>w_now = now, w_scheds = [], w_router = NewRouter, w_endpoints = [], w_app = u, w_calls = []\<rparr>"

inductive net_reach ::
  "('k, 'a, 'm, 'f, 'q, 'x, 'u) Serve \<Rightarrow> ('k, 'a, 'm, 'f, 'q, 'x, 'u) NetOp list \<Rightarrow>
   ('k, 'a, 'm, 'f, 'q, 'x, 'u) NetWorld \<Rightarrow> bool" for serve where
  net_start: "net_reach serve [] (newWorld now u)"
| net_step: "net_reach serve tr w \<Longrightarrow> netStep serve op w = Some w' \<Longrightarrow> net_reach serve (tr @ [op]) w'"


section \<open>Counting response handlers\<close>

fun asks :: "'f \<Rightarrow> ('k, 'a, 'm, 'f, 'x) SimAction \<Rightarrow> bool" where
  "asks f (ResponseAction (Some g) _ _) \<longleftrightarrow> g = f"
| "asks f _ \<longleftrightarrow> False"

definition count_asks :: "'f \<Rightarrow> ('k, 'a, 'm, 'f, 'x) SimAction list \<Rightarrow> nat" where
  "count_asks f xs = length (filter (asks f) xs)"

definition streams :: "'f \<Rightarrow> ('k, 'a, 'f, 'q, 'h) Endpoint \<Rightarrow> nat" where
  "streams f ep = length (filter (\<lambda>e. snd e = Some f) (ep_streamFollowup ep))"

text \<open>The streams that no timeout will close.\<close>

definition untimed_streams :: "'f \<Rightarrow> ('k, 'a, 'f, 'q, 'h) Endpoint \<Rightarrow> nat" where
  "untimed_streams f ep =
     length (filter (\<lambda>e. snd e = Some f \<and> fst e \<notin> fst ` set (ep_streamTimeout ep)) (ep_streamFollowup ep))"

definition held ::
  "('s \<Rightarrow> ('k, 'a, 'm, 'f, 'x) SimAction list) \<Rightarrow> 'f \<Rightarrow> ('k, 'a, 'm, 'f, 'q, 'h, 'x, 's, 'u) World \<Rightarrow> nat" where
  "held acts f w = sum_list (map (streams f) (w_endpoints w)) + sum_list (map (\<lambda>s. count_asks f (acts s)) (w_scheds w))"

definition untimed :: "'f \<Rightarrow> ('k, 'a, 'm, 'f, 'q, 'h, 'x, 's, 'u) World \<Rightarrow> nat" where
  "untimed f w = sum_list (map (untimed_streams f) (w_endpoints w))"

fun is_call :: "'f \<Rightarrow> ('k, 'a, 'm, 'f, 'x) Call \<Rightarrow> bool" where
  "is_call f (HandlerCall g _ _) \<longleftrightarrow> g = f"
| "is_call f (AppCall _) \<longleftrightarrow> False"

definition called :: "'f \<Rightarrow> ('k, 'a, 'm, 'f, 'q, 'h, 'x, 's, 'u) World \<Rightarrow> nat" where
  "called f w = length (filter (is_call f) (w_calls w))"

lemma count_asks_append [simp]: "count_asks f (xs @ ys) = count_asks f xs + count_asks f ys"
  by (simp add: count_asks_def)

lemma count_asks_mset: "mset xs = mset ys \<Longrightarrow> count_asks f xs = count_asks f ys"
  unfolding count_asks_def by (metis mset_filter size_mset)

lemma count_asks_simps [simp]: "count_asks f [] = 0"
  "count_asks f (a # xs) = (if asks f a then 1 else 0) + count_asks f xs"
  by (simp_all add: count_asks_def)

lemma sum_list_map_update:
  fixes g :: "'b \<Rightarrow> nat"
  shows "i < length xs \<Longrightarrow> sum_list (map g (xs[i := x])) + g (xs ! i) = sum_list (map g xs) + g x"
  by (induction xs arbitrary: i) (auto split: nat.splits)

section \<open>The invariant\<close>

definition ep_static :: "nat \<Rightarrow> StreamID \<Rightarrow> ('k, 'a, 'f, 'q, 'h) Endpoint \<Rightarrow> bool" where
  "ep_static n next ep \<longleftrightarrow>
     ep_sched ep < n \<and>
     distinct (map fst (ep_streamFollowup ep)) \<and> distinct (map fst (ep_streamTimeout ep)) \<and>
     fst ` set (ep_streamTimeout ep) \<subseteq> fst ` set (ep_streamFollowup ep) \<and>
     fst ` set (ep_connStatus ep) = fst ` set (ep_peerstore ep) \<and>
     (\<forall>(s, info) \<in> set (ep_peerstore ep). nodeString (infoID info) = s) \<and>
     (\<forall>sid \<in> fst ` set (ep_streamFollowup ep). unat sid < unat next)"

definition router_ok :: "nat \<Rightarrow> nat \<Rightarrow> Router \<Rightarrow> bool" where
  "router_ok ne ns r \<longleftrightarrow>
     fst ` set (r_scheds r) = fst ` set (r_peers r) \<and>
     snd ` set (r_peers r) \<subseteq> {..<ne} \<and> snd ` set (r_scheds r) \<subseteq> {..<ns} \<and>
     r_currStream r \<noteq> 0"

locale sim_net = net_sched E sinv queued plan issued
  for E :: "('k, 'a, 'm, 'f, 'h, 'x, 's) NetScheduler"
    and sinv :: "'s \<Rightarrow> bool" and queued plan and issued :: "'s \<Rightarrow> 'h set"
begin

definition sched_ok :: "'s \<Rightarrow> bool" where
  "sched_ok s \<longleftrightarrow> sinv s \<and> (\<forall>e \<in> set (plan s). \<forall>f. \<not> asks f (act e))"

text \<open>A stream with a timeout has its action with the scheduler, or it is being run (\<open>X\<close>); its handle
  is that of no other action.\<close>

definition timed_ok ::
  "('k, 'a, 'm, 'f, 'x) SimAction set \<Rightarrow> 's \<Rightarrow> nat \<Rightarrow> ('k, 'a, 'f, 'q, 'h) Endpoint \<Rightarrow> bool" where
  "timed_ok X s e ep \<longleftrightarrow> (\<forall>sid ho. (sid, ho) \<in> set (ep_streamTimeout ep) \<longrightarrow>
     TimeoutAction e sid \<in> set (acts s) \<union> X \<and>
     (\<forall>h. ho = Some h \<longrightarrow> h \<in> issued s \<and> (\<forall>en \<in> set (plan s). fst en = h \<longrightarrow> act en = TimeoutAction e sid)))"

definition net_inv ::
  "('k, 'a, 'm, 'f, 'x) SimAction set \<Rightarrow> ('k, 'a, 'm, 'f, 'q, 'h, 'x, 's, 'u) World \<Rightarrow> bool" where
  "net_inv X w \<longleftrightarrow>
     (\<forall>s \<in> set (w_scheds w). sched_ok s) \<and>
     (\<forall>e < length (w_endpoints w).
        ep_static (length (w_scheds w)) (r_currStream (w_router w)) (w_endpoints w ! e) \<and>
        timed_ok X (w_scheds w ! ep_sched (w_endpoints w ! e)) e (w_endpoints w ! e)) \<and>
     router_ok (length (w_endpoints w)) (length (w_scheds w)) (w_router w)"

lemma net_inv_sched: "net_inv X w \<Longrightarrow> i < length (w_scheds w) \<Longrightarrow> sched_ok (w_scheds w ! i)"
  by (simp add: net_inv_def)

lemma net_inv_endpoint:
  assumes "net_inv X w" "endpointAt w e = Some ep"
  shows "ep_static (length (w_scheds w)) (r_currStream (w_router w)) ep"
    "timed_ok X (w_scheds w ! ep_sched ep) e ep" "ep_sched ep < length (w_scheds w)"
    "e < length (w_endpoints w)" "ep = w_endpoints w ! e"
proof -
  show e: "e < length (w_endpoints w)" "ep = w_endpoints w ! e"
    using assms(2) by (auto simp: endpointAt_def split: if_splits)
  then show st: "ep_static (length (w_scheds w)) (r_currStream (w_router w)) ep"
    "timed_ok X (w_scheds w ! ep_sched ep) e ep" using assms(1) by (simp_all add: net_inv_def)
  from st(1) show "ep_sched ep < length (w_scheds w)" by (simp add: ep_static_def)
qed

text \<open>A scheduler changes: \<open>Y\<close> are the actions it gives up.\<close>

lemma net_inv_set_sched:
  fixes w :: "('k, 'a, 'm, 'f, 'q, 'h, 'x, 's, 'u) World"
  assumes w: "net_inv X w" and i: "i < length (w_scheds w)" and s: "sched_ok s"
    and a: "set (acts (w_scheds w ! i)) \<subseteq> set (acts s) \<union> Y"
    and h: "issued (w_scheds w ! i) \<subseteq> issued s"
    and p: "\<And>en. en \<in> set (plan s) \<Longrightarrow> en \<in> set (plan (w_scheds w ! i)) \<or> fst en \<notin> issued (w_scheds w ! i)"
  shows "net_inv (X \<union> Y) (w\<lparr>w_scheds := (w_scheds w)[i := s]\<rparr>)"
proof -
  have "timed_ok (X \<union> Y) ((w_scheds w)[i := s] ! ep_sched ep) e ep"
    if e: "timed_ok X (w_scheds w ! ep_sched ep) e ep" for e and ep :: "('k, 'a, 'f, 'q, 'h) Endpoint"
  proof (cases "ep_sched ep = i")
    case True
    then have "(w_scheds w)[i := s] ! ep_sched ep = s" using i by simp
    moreover have "timed_ok (X \<union> Y) s e ep"
      unfolding timed_ok_def
    proof (intro allI impI conjI ballI)
      fix sid ho assume m: "(sid, ho) \<in> set (ep_streamTimeout ep)"
      with e True have t: "TimeoutAction e sid \<in> set (acts (w_scheds w ! i)) \<union> X"
        "\<And>h. ho = Some h \<Longrightarrow> h \<in> issued (w_scheds w ! i) \<and>
          (\<forall>en \<in> set (plan (w_scheds w ! i)). fst en = h \<longrightarrow> act en = TimeoutAction e sid)"
        unfolding timed_ok_def by blast+
      show "TimeoutAction e sid \<in> set (acts s) \<union> (X \<union> Y)" using t(1) a by blast
      fix h' assume h': "ho = Some h'"
      with t(2) h show "h' \<in> issued s" by blast
      fix en assume "en \<in> set (plan s)" "fst en = h'"
      with p [of en] t(2) [OF h'] show "act en = TimeoutAction e sid" by auto
    qed
    ultimately show ?thesis by simp
  qed (use e in \<open>auto simp: timed_ok_def\<close>)
  moreover have "\<forall>s' \<in> set ((w_scheds w)[i := s]). sched_ok s'"
    using w s by (auto simp: net_inv_def dest!: set_update_subset_insert [THEN subsetD])
  ultimately show ?thesis using w by (simp add: net_inv_def)
qed

text \<open>An endpoint changes, and \<open>Y\<close> are actions that it no longer needs.\<close>

lemma net_inv_set_endpoint:
  assumes w: "net_inv (X \<union> Y) w" and ep: "endpointAt w e = Some ep"
    and s: "ep_static (length (w_scheds w)) (r_currStream (w_router w)) ep'"
    and t: "timed_ok X (w_scheds w ! ep_sched ep') e ep'"
    and y: "\<And>a. a \<in> Y \<Longrightarrow> (\<exists>sid. a = TimeoutAction e sid) \<or> (\<forall>e' sid. a \<noteq> TimeoutAction e' sid)"
  shows "net_inv X (setEndpoint e ep' w)"
proof -
  have "timed_ok X (w_scheds w ! ep_sched (w_endpoints w ! e')) e' (w_endpoints w ! e')"
    if "e' < length (w_endpoints w)" "e' \<noteq> e" for e'
  proof -
    have "timed_ok (X \<union> Y) (w_scheds w ! ep_sched (w_endpoints w ! e')) e' (w_endpoints w ! e')"
      using w that(1) by (simp add: net_inv_def)
    moreover have "TimeoutAction e' sid \<notin> Y" for sid using y that(2) by blast
    ultimately show ?thesis unfolding timed_ok_def by blast
  qed
  with assms show ?thesis
    by (auto simp: net_inv_def setEndpoint_def endpointAt_def nth_list_update split: if_splits)
qed

end


text \<open>Changes of the schedulers only.\<close>

definition only_scheds ::
  "('k, 'a, 'm, 'f, 'q, 'h, 'x, 's, 'u) World \<Rightarrow> ('k, 'a, 'm, 'f, 'q, 'h, 'x, 's, 'u) World \<Rightarrow> bool" where
  "only_scheds w w' \<longleftrightarrow> w' = w\<lparr>w_scheds := w_scheds w'\<rparr> \<and> length (w_scheds w') = length (w_scheds w)"

lemma only_schedsD:
  assumes "only_scheds w w'"
  shows "w_now w' = w_now w" "w_router w' = w_router w" "w_endpoints w' = w_endpoints w" "w_app w' = w_app w"
    "w_calls w' = w_calls w" "length (w_scheds w') = length (w_scheds w)" "endpointAt w' e = endpointAt w e"
proof -
  obtain ss where w': "w' = w\<lparr>w_scheds := ss\<rparr>" using assms unfolding only_scheds_def by blast
  then show "w_now w' = w_now w" "w_router w' = w_router w" "w_endpoints w' = w_endpoints w" "w_app w' = w_app w"
    "w_calls w' = w_calls w" "endpointAt w' e = endpointAt w e" by (simp_all add: endpointAt_def)
  show "length (w_scheds w') = length (w_scheds w)" using assms by (simp add: only_scheds_def)
qed

lemma held_set_sched:
  assumes "i < length (w_scheds w)"
  shows "held ac f (w\<lparr>w_scheds := (w_scheds w)[i := s]\<rparr>) + count_asks f (ac (w_scheds w ! i)) =
    held ac f w + count_asks f (ac s)"
  using sum_list_map_update [OF assms, of "\<lambda>s. count_asks f (ac s)" s] by (simp add: held_def)

lemma held_set_endpoint:
  assumes "endpointAt w e = Some ep"
  shows "held ac f (setEndpoint e ep' w) + streams f ep = held ac f w + streams f ep'"
  using assms sum_list_map_update [of e "w_endpoints w" "streams f" ep']
  by (auto simp: held_def setEndpoint_def endpointAt_def split: if_splits)

lemma untimed_set_endpoint:
  assumes "endpointAt w e = Some ep"
  shows "untimed f (setEndpoint e ep' w) + untimed_streams f ep = untimed f w + untimed_streams f ep'"
  using assms sum_list_map_update [of e "w_endpoints w" "untimed_streams f" ep']
  by (auto simp: untimed_def setEndpoint_def endpointAt_def split: if_splits)

lemma setEndpoint_sel [simp]:
  "w_now (setEndpoint e ep w) = w_now w" "w_router (setEndpoint e ep w) = w_router w"
  "w_scheds (setEndpoint e ep w) = w_scheds w" "w_app (setEndpoint e ep w) = w_app w"
  "w_calls (setEndpoint e ep w) = w_calls w" "length (w_endpoints (setEndpoint e ep w)) = length (w_endpoints w)"
  by (simp_all add: setEndpoint_def)

lemma endpointAt_setEndpoint: "e < length (w_endpoints w) \<Longrightarrow> endpointAt (setEndpoint e ep w) e = Some ep"
  by (simp add: endpointAt_def setEndpoint_def)

lemma setEndpoint_twice [simp]: "setEndpoint e b (setEndpoint e a w) = setEndpoint e b w"
  by (simp add: setEndpoint_def)

context sim_net
begin

lemma onSched_cases:
  assumes "onSched i op w = Some (w', r)"
  obtains s t where "i < length (w_scheds w)" "op (w_scheds w ! i, w_now w) = Some ((s, t), r)"
    "w' = w\<lparr>w_scheds := (w_scheds w)[i := s]\<rparr>"
  using assms by (auto simp: onSched_def bind_eq_Some split: if_splits)

lemma enqueueOn_law:
  assumes w: "net_inv X w" and q: "enqueueOn E i a w = Some w'"
  shows "net_inv X w'" "only_scheds w w'" "held acts f w' = held acts f w + (if asks f a then 1 else 0)"
proof -
  obtain s t where i: "i < length (w_scheds w)" and s: "schEnqueueAction E (w_scheds w ! i, w_now w) a = Some (s, t)"
    and w': "w' = w\<lparr>w_scheds := (w_scheds w)[i := s]\<rparr>"
    using q by (auto simp: enqueueOn_def elim!: onSched_cases)
  have ok: "sched_ok (w_scheds w ! i)" using net_inv_sched [OF w i] .
  with enqueue_law [OF _ s] have s': "sinv s" "queued s = queued (w_scheds w ! i) @ [a]" "plan s = plan (w_scheds w ! i)"
    "issued s = issued (w_scheds w ! i)" by (auto simp: sched_ok_def)
  have "net_inv (X \<union> {}) w'" unfolding w'
    by (rule net_inv_set_sched [OF w i]) (use ok s' in \<open>auto simp: sched_ok_def acts_def\<close>)
  then show "net_inv X w'" by simp
  show "only_scheds w w'" by (simp add: only_scheds_def w')
  show "held acts f w' = held acts f w + (if asks f a then 1 else 0)"
    using held_set_sched [OF i, of acts f s] unfolding w' by (auto simp: acts_def s')
qed

text \<open>Scheduling an action that asks for no handler.\<close>

lemma scheduleOn_law:
  assumes w: "net_inv X w" and a: "\<And>f. \<not> asks f a" and q: "onSched i (\<lambda>sw. ScheduleActionIn E sw d a) w = Some (w', ho)"
  shows "net_inv X w'" "only_scheds w w'" "held acts f w' = held acts f w" "i < length (w_scheds w)"
    "a \<in> set (acts (w_scheds w' ! i))"
    "ho = Some h \<Longrightarrow> h \<in> issued (w_scheds w' ! i) \<and> (\<forall>en \<in> set (plan (w_scheds w' ! i)). fst en = h \<longrightarrow> act en = a)"
proof -
  obtain s t where i: "i < length (w_scheds w)" and s: "ScheduleActionIn E (w_scheds w ! i, w_now w) d a = Some ((s, t), ho)"
    and w': "w' = w\<lparr>w_scheds := (w_scheds w)[i := s]\<rparr>"
    using q by (rule onSched_cases)
  have ok: "sched_ok (w_scheds w ! i)" using net_inv_sched [OF w i] .
  from ScheduleActionIn_law [OF _ s] ok have s': "sinv s" "mset (acts s) = add_mset a (mset (acts (w_scheds w ! i)))"
    "issued (w_scheds w ! i) \<subseteq> issued s"
    "ho = None \<Longrightarrow> plan s = plan (w_scheds w ! i)"
    "\<And>h. ho = Some h \<Longrightarrow> h \<in> issued s \<and> h \<notin> issued (w_scheds w ! i) \<and>
      (\<exists>t'. set (plan s) = insert (h, t', a) (set (plan (w_scheds w ! i))))"
    by (auto simp: sched_ok_def split: option.splits)
  have set_acts: "set (acts s) = insert a (set (acts (w_scheds w ! i)))" using s'(2) by (metis set_mset_add_mset_insert set_mset_mset)
  have new: "en \<in> set (plan (w_scheds w ! i)) \<or> (ho = Some (fst en) \<and> fst en \<notin> issued (w_scheds w ! i) \<and> act en = a)"
    if "en \<in> set (plan s)" for en
    using that s'(4,5) by (cases ho) fastforce+
  have "sched_ok s" using ok s'(1) new a unfolding sched_ok_def by metis
  then have "net_inv (X \<union> {}) w'" unfolding w'
    by (intro net_inv_set_sched [OF w i]) (use s'(3) new set_acts in auto)
  then show "net_inv X w'" by simp
  show "only_scheds w w'" by (simp add: only_scheds_def w')
  show "held acts f w' = held acts f w"
    using held_set_sched [OF i, of acts f s] a count_asks_mset [of "acts s" "a # acts (w_scheds w ! i)" f] s'(2)
    unfolding w' by (simp add: count_asks_def)
  show "i < length (w_scheds w)" by (rule i)
  show "a \<in> set (acts (w_scheds w' ! i))" using i set_acts by (simp add: w')
  show "h \<in> issued (w_scheds w' ! i) \<and> (\<forall>en \<in> set (plan (w_scheds w' ! i)). fst en = h \<longrightarrow> act en = a)" if h: "ho = Some h"
    using s'(5) [OF h] plan_issued [of "w_scheds w ! i"] ok new i by (fastforce simp: w' sched_ok_def)
qed

text \<open>Removing the timeout of a stream of endpoint \<open>e\<close>.\<close>

lemma removeOn_law:
  assumes w: "net_inv X w" and ep: "endpointAt w e = Some ep" and m: "map_of (ep_streamTimeout ep) sid = Some ho"
  shows "\<exists>w' b. onSched (ep_sched ep) (\<lambda>sw. schRemovePlannedAction E sw ho) w = Some (w', b) \<and>
    net_inv (X \<union> {TimeoutAction e sid}) w' \<and> only_scheds w w' \<and> (\<forall>f. held acts f w' = held acts f w)"
proof -
  note epw = net_inv_endpoint [OF w ep]
  let ?i = "ep_sched ep"
  have ok: "sched_ok (w_scheds w ! ?i)" using net_inv_sched [OF w epw(3)] .
  have same: "w\<lparr>w_scheds := (w_scheds w)[?i := w_scheds w ! ?i]\<rparr> = w" by simp
  show ?thesis
  proof (cases ho)
    case None
    with remove_nil ok have "onSched ?i (\<lambda>sw. schRemovePlannedAction E sw ho) w = Some (w, False)"
      using epw(3) same by (simp add: onSched_def sched_ok_def del: list_update_id)
    moreover have "net_inv (X \<union> {TimeoutAction e sid}) w"
      using w unfolding net_inv_def timed_ok_def by blast
    ultimately show ?thesis by (auto simp: only_scheds_def)
  next
    case (Some h)
    have own: "act en = TimeoutAction e sid" if "en \<in> set (plan (w_scheds w ! ?i))" "fst en = h" for en
      using epw(2) map_of_SomeD [OF m] that Some unfolding timed_ok_def by blast
    from remove_law [of "w_scheds w ! ?i" "w_now w" h] ok obtain s where
      s: "schRemovePlannedAction E (w_scheds w ! ?i, w_now w) (Some h) = Some ((s, w_now w), h \<in> fst ` set (plan (w_scheds w ! ?i)))"
      "sinv s" "queued s = queued (w_scheds w ! ?i)" "plan s = filter (\<lambda>en. fst en \<noteq> h) (plan (w_scheds w ! ?i))"
      "issued s = issued (w_scheds w ! ?i)" by (auto simp: sched_ok_def)
    have "net_inv (X \<union> {TimeoutAction e sid}) (w\<lparr>w_scheds := (w_scheds w)[?i := s]\<rparr>)"
      by (rule net_inv_set_sched [OF w epw(3)]) (use ok s own in \<open>auto simp: sched_ok_def acts_def\<close>)
    moreover have "onSched ?i (\<lambda>sw. schRemovePlannedAction E sw ho) w =
        Some (w\<lparr>w_scheds := (w_scheds w)[?i := s]\<rparr>, h \<in> fst ` set (plan (w_scheds w ! ?i)))"
      using s(1) epw(3) Some by (simp add: onSched_def)
    moreover have "count_asks f (acts s) = count_asks f (acts (w_scheds w ! ?i))" for f
    proof -
      have "count_asks f (map act (plan (w_scheds w ! ?i))) = 0" "count_asks f (map act (plan s)) = 0"
        using ok by (auto simp: count_asks_def sched_ok_def filter_empty_conv s(4))
      then show ?thesis by (simp add: acts_def s(3))
    qed
    ultimately show ?thesis using held_set_sched [OF epw(3), of acts _ s] by (auto simp: only_scheds_def)
  qed
qed

end


section \<open>Streams of an endpoint\<close>

lemma filter_delete_count:
  assumes "distinct (map fst m)"
  shows "length (filter P (AList.delete k m)) +
      (case map_of m k of None \<Rightarrow> 0 | Some v \<Rightarrow> if P (k, v) then 1 else 0) = length (filter P m)"
  using assms
proof (induction m)
  case (Cons e m)
  show ?case
  proof (cases "fst e = k")
    case True
    with Cons.prems have "k \<notin> fst ` set m" by (auto simp: image_iff)
    with True show ?thesis by (cases e) auto
  next
    case False
    with Cons show ?thesis by (cases e) (auto split: option.splits)
  qed
qed simp

text \<open>The endpoint after the stream \<open>sid\<close> was closed.\<close>

definition close_stream :: "StreamID \<Rightarrow> ('k, 'a, 'f, 'q, 'h) Endpoint \<Rightarrow> ('k, 'a, 'f, 'q, 'h) Endpoint" where
  "close_stream sid ep = ep\<lparr>ep_streamFollowup := AList.delete sid (ep_streamFollowup ep),
     ep_streamTimeout := AList.delete sid (ep_streamTimeout ep)\<rparr>"

lemma close_stream_law:
  assumes "ep_static n next ep"
  shows "ep_static n next (close_stream sid ep)"
    and "streams f (close_stream sid ep) + (if map_of (ep_streamFollowup ep) sid = Some (Some f) then 1 else 0) = streams f ep"
    and "untimed_streams f (close_stream sid ep) \<le> untimed_streams f ep"
proof -
  show "ep_static n next (close_stream sid ep)"
    using assms by (auto simp: ep_static_def close_stream_def keys_delete distinct_delete_keys set_delete)
  have "distinct (map fst (ep_streamFollowup ep))" using assms by (simp add: ep_static_def)
  from filter_delete_count [OF this, of "\<lambda>e. snd e = Some f" sid]
  show "streams f (close_stream sid ep) + (if map_of (ep_streamFollowup ep) sid = Some (Some f) then 1 else 0) = streams f ep"
    by (auto simp: streams_def close_stream_def split: option.splits if_splits)
  have "filter (\<lambda>e. snd e = Some f \<and> fst e \<notin> fst ` set (ep_streamTimeout ep) - {sid}) (AList.delete sid (ep_streamFollowup ep)) =
      filter (\<lambda>e. snd e = Some f \<and> fst e \<notin> fst ` set (ep_streamTimeout ep)) (AList.delete sid (ep_streamFollowup ep))"
    by (rule filter_cong) (auto simp: set_delete)
  then show "untimed_streams f (close_stream sid ep) \<le> untimed_streams f ep"
    using filter_delete_count [OF \<open>distinct (map fst (ep_streamFollowup ep))\<close>,
        of "\<lambda>e. snd e = Some f \<and> fst e \<notin> fst ` set (ep_streamTimeout ep)" sid]
    by (simp add: untimed_streams_def close_stream_def keys_delete)
qed

text \<open>The endpoint after the stream \<open>sid\<close> was opened, with or without a timeout.\<close>

definition open_stream ::
  "StreamID \<Rightarrow> 'f option \<Rightarrow> 'h option option \<Rightarrow> ('k, 'a, 'f, 'q, 'h) Endpoint \<Rightarrow> ('k, 'a, 'f, 'q, 'h) Endpoint" where
  "open_stream sid g to ep =
     (let ep2 = ep\<lparr>ep_streamFollowup := AList.update sid g (ep_streamFollowup ep)\<rparr>
      in case to of None \<Rightarrow> ep2 | Some h \<Rightarrow> ep2\<lparr>ep_streamTimeout := AList.update sid h (ep_streamTimeout ep2)\<rparr>)"

lemma open_stream_law:
  assumes "ep_static n sid ep" "unat sid < unat next"
  shows "ep_static n next (open_stream sid g to ep)"
    and "streams f (open_stream sid g to ep) = streams f ep + (if g = Some f then 1 else 0)"
    and "untimed_streams f (open_stream sid g to ep) = untimed_streams f ep + (if g = Some f \<and> to = None then 1 else 0)"
    and "sid \<notin> fst ` set (ep_streamTimeout ep)"
proof -
  have new: "sid \<notin> fst ` set (ep_streamFollowup ep)" using assms(1) unfolding ep_static_def by blast
  then show new2: "sid \<notin> fst ` set (ep_streamTimeout ep)" using assms(1) unfolding ep_static_def by blast
  note defs = open_stream_def Let_def update_new [OF new] update_new [OF new2]
  show "ep_static n next (open_stream sid g to ep)"
    using assms new new2 by (auto simp: defs ep_static_def split: option.splits)
  show "streams f (open_stream sid g to ep) = streams f ep + (if g = Some f then 1 else 0)"
    by (auto simp: defs streams_def split: option.splits)
  have "filter (\<lambda>e. snd e = Some f \<and> fst e \<noteq> sid \<and> fst e \<notin> fst ` set (ep_streamTimeout ep)) (ep_streamFollowup ep) =
      filter (\<lambda>e. snd e = Some f \<and> fst e \<notin> fst ` set (ep_streamTimeout ep)) (ep_streamFollowup ep)"
    using new by (intro filter_cong) auto
  then show "untimed_streams f (open_stream sid g to ep) = untimed_streams f ep + (if g = Some f \<and> to = None then 1 else 0)"
    using new2 by (auto simp: defs untimed_streams_def split: option.splits)
qed

lemma keys_update_known: "map_of m k = Some v \<Longrightarrow> fst ` set (AList.update k v' m) = fst ` set m"
  by (metis insert_absorb keys_update map_of_eq_None_iff option.distinct(1))

lemma set_update_sub: "set (AList.update k v m) \<subseteq> insert (k, v) (set m)"
  by (induction m) auto

text \<open>Dialing and learning of nodes leave the streams alone.\<close>

lemma same_streams:
  assumes "ep_streamFollowup ep' = ep_streamFollowup ep" "ep_streamTimeout ep' = ep_streamTimeout ep"
  shows "streams f ep' = streams f ep" "untimed_streams f ep' = untimed_streams f ep"
  by (simp_all add: streams_def untimed_streams_def assms)

lemma DialPeer_law:
  assumes "DialPeer ep n = (ep', err)" "ep_static m next ep"
  shows "ep_static m next ep'" "ep_streamFollowup ep' = ep_streamFollowup ep" "ep_streamTimeout ep' = ep_streamTimeout ep"
    "ep_sched ep' = ep_sched ep" "err \<noteq> None \<Longrightarrow> ep' = ep" "ep_self ep' = ep_self ep" "ep_router ep' = ep_router ep"
    "err = None \<Longrightarrow> \<exists>info. map_of (ep_peerstore ep') (nodeString n) = Some info \<and> nodeString (infoID info) = nodeString n"
proof -
  obtain cs where cs: "ep' = ep\<lparr>ep_connStatus := cs\<rparr>" "fst ` set cs = fst ` set (ep_connStatus ep)"
  proof (cases "map_of (ep_connStatus ep) (nodeString n) = Some CanConnect")
    case True
    with that [of "AList.update (nodeString n) Connected (ep_connStatus ep)"] keys_update_known [OF True] assms(1)
    show thesis by (auto simp: DialPeer_def)
  next
    case False
    with that [of "ep_connStatus ep"] assms(1) show thesis
      by (auto simp: DialPeer_def split: option.splits Connectedness.splits)
  qed
  then show "ep_streamFollowup ep' = ep_streamFollowup ep" "ep_streamTimeout ep' = ep_streamTimeout ep"
    "ep_sched ep' = ep_sched ep" "ep_self ep' = ep_self ep" "ep_router ep' = ep_router ep" by simp_all
  show "err \<noteq> None \<Longrightarrow> ep' = ep" using assms(1) by (auto simp: DialPeer_def split: option.splits Connectedness.splits)
  show "ep_static m next ep'" using assms(2) cs by (simp add: ep_static_def)
  show "\<exists>info. map_of (ep_peerstore ep') (nodeString n) = Some info \<and> nodeString (infoID info) = nodeString n"
    if "err = None"
  proof -
    have "nodeString n \<in> fst ` set (ep_connStatus ep)"
      using assms(1) that by (auto simp: DialPeer_def split: option.splits dest!: map_of_SomeD intro: rev_image_eqI)
    then have "nodeString n \<in> fst ` set (ep_peerstore ep)" using assms(2) by (simp add: ep_static_def)
    then obtain info where "map_of (ep_peerstore ep) (nodeString n) = Some info"
      by (metis map_of_eq_None_iff not_None_eq)
    with cs(1) assms(2) map_of_SomeD show ?thesis by (fastforce simp: ep_static_def)
  qed
qed

lemma learnNode_static: "ep_static m next ep \<Longrightarrow> ep_static m next (learnNode p ep)"
  by (auto simp: ep_static_def learnNode_def keys_update dest!: set_update_sub [THEN subsetD])

lemma learnNode_law:
  assumes "ep_static m next ep"
  shows "ep_static m next (fold learnNode ps ep)" "ep_streamFollowup (fold learnNode ps ep) = ep_streamFollowup ep"
    "ep_streamTimeout (fold learnNode ps ep) = ep_streamTimeout ep" "ep_sched (fold learnNode ps ep) = ep_sched ep"
proof -
  show "ep_static m next (fold learnNode ps ep)" using assms by (induction ps arbitrary: ep) (auto simp: learnNode_static)
  show "ep_streamFollowup (fold learnNode ps ep) = ep_streamFollowup ep"
    "ep_streamTimeout (fold learnNode ps ep) = ep_streamTimeout ep" "ep_sched (fold learnNode ps ep) = ep_sched ep"
    by (induction ps arbitrary: ep) (simp_all add: learnNode_def)
qed


context sim_net
begin

lemma SendMessage_law:
  assumes w: "net_inv X w" and small: "unat (r_currStream (w_router w)) + 1 < 2 ^ 64"
    and q: "Router_SendMessage E frm to p sid msg w = Some (w', r)"
  shows "net_inv X w'" "w_endpoints w' = w_endpoints w" "w_calls w' = w_calls w" "held acts f w' = held acts f w"
    "length (w_scheds w') = length (w_scheds w)"
    "unat (r_currStream (w_router w')) \<le> unat (r_currStream (w_router w)) + 1"
    "unat (r_currStream (w_router w)) \<le> unat (r_currStream (w_router w'))"
    "r = Inr sid' \<Longrightarrow> sid = 0 \<Longrightarrow>
      sid' = r_currStream (w_router w) \<and> unat (r_currStream (w_router w')) = unat sid' + 1"
proof -
  let ?r = "w_router w"
  let ?w1 = "w\<lparr>w_router := ?r\<lparr>r_currStream := r_currStream ?r + 1\<rparr>\<rparr>"
  have suc: "unat (r_currStream ?r + 1) = unat (r_currStream ?r) + 1" using small by (simp add: unat_word_ariths)
  have "net_inv X ?w1"
    using w suc unfolding net_inv_def ep_static_def router_ok_def by (auto simp: less_Suc_eq unat_eq_zero [symmetric])
  have "net_inv X w' \<and> w_endpoints w' = w_endpoints w \<and> w_calls w' = w_calls w \<and> held acts f w' = held acts f w \<and>
    length (w_scheds w') = length (w_scheds w) \<and>
    (w_router w' = ?r \<or> w_router w' = w_router ?w1) \<and>
    (r = Inr sid' \<and> sid = 0 \<longrightarrow> sid' = r_currStream ?r \<and> w_router w' = w_router ?w1)"
  proof (cases "map_of (r_peers ?r) (nodeString to)")
    case None
    with q w show ?thesis by (auto simp: Router_SendMessage_def)
  next
    case (Some e)
    define w1 where "w1 = (if sid = 0 then ?w1 else w)"
    have w1: "net_inv X w1" using w \<open>net_inv X ?w1\<close> by (simp add: w1_def)
    obtain i w2 where i: "enqueueOn E i (DeliverAction frm to p (if sid = 0 then r_currStream ?r else sid) msg) w1 = Some w2"
      and w2: "w' = w2" "r = Inr (if sid = 0 then r_currStream ?r else sid)"
      using q Some by (auto simp: Router_SendMessage_def w1_def bind_eq_Some Let_def split: if_splits)
    note L = enqueueOn_law [OF w1 i]
    have "held acts f w1 = held acts f w" by (simp add: w1_def held_def)
    with L(1) L(3) [of f] only_schedsD [OF L(2)] w2 show ?thesis by (auto simp: w1_def)
  qed
  then show "net_inv X w'" "w_endpoints w' = w_endpoints w" "w_calls w' = w_calls w" "held acts f w' = held acts f w"
    "length (w_scheds w') = length (w_scheds w)"
    "unat (r_currStream (w_router w')) \<le> unat (r_currStream (w_router w)) + 1"
    "unat (r_currStream (w_router w)) \<le> unat (r_currStream (w_router w'))"
    "r = Inr sid' \<Longrightarrow> sid = 0 \<Longrightarrow>
      sid' = r_currStream (w_router w) \<and> unat (r_currStream (w_router w')) = unat sid' + 1"
    using suc by auto
qed

text \<open>One step keeps the invariant; it accounts for every response handler: \<open>d\<close> are the handlers that
  it takes on, \<open>u\<close> those without a timeout.\<close>

definition net_next ::
  "('f \<Rightarrow> nat) \<Rightarrow> ('f \<Rightarrow> nat) \<Rightarrow> ('k, 'a, 'm, 'f, 'q, 'h, 'x, 's, 'u) World \<Rightarrow>
   ('k, 'a, 'm, 'f, 'q, 'h, 'x, 's, 'u) World \<Rightarrow> bool" where
  "net_next d u w w' \<longleftrightarrow> net_inv {} w' \<and>
     (\<forall>f. held acts f w' + called f w' = held acts f w + called f w + d f) \<and>
     (\<forall>f. untimed f w' \<le> untimed f w + u f) \<and>
     unat (r_currStream (w_router w')) \<le> unat (r_currStream (w_router w)) + 1"

definition one :: "'f option \<Rightarrow> 'f \<Rightarrow> nat" where
  "one g f = (if g = Some f then 1 else 0)"

lemma Dial_world:
  assumes w: "net_inv {} w" and ep: "endpointAt w e = Some ep" and d: "DialPeer ep n = (ep1, err)"
  shows "net_inv {} (setEndpoint e ep1 w)" "held acts f (setEndpoint e ep1 w) = held acts f w"
    "untimed f (setEndpoint e ep1 w) = untimed f w"
proof -
  note epw = net_inv_endpoint [OF w ep]
  note D = DialPeer_law [OF d epw(1)]
  show "net_inv {} (setEndpoint e ep1 w)"
    by (rule net_inv_set_endpoint [where Y = "{}", OF _ ep]) (use w D epw in \<open>auto simp: timed_ok_def\<close>)
  show "held acts f (setEndpoint e ep1 w) = held acts f w" "untimed f (setEndpoint e ep1 w) = untimed f w"
    using held_set_endpoint [OF ep, of acts f ep1] untimed_set_endpoint [OF ep, of f ep1] same_streams [OF D(2,3), of f]
    by simp_all
qed

end


lemma asks_response [simp]: "asks f (ResponseAction g resp err) \<longleftrightarrow> g = Some f"
  by (cases g) auto

context sim_net
begin

lemma Send_law:
  assumes w: "net_inv {} w" and small: "unat (r_currStream (w_router w)) + 1 < 2 ^ 64"
    and q: "SendRequestHandleResponse E e p n req timeout g w = Some (w', er)"
  shows "net_next (one g) (if timeout = 0 then one g else (\<lambda>_. 0)) w w'"
proof -
  obtain ep where ep: "endpointAt w e = Some ep"
    using q by (cases "endpointAt w e") (simp_all add: SendRequestHandleResponse_def)
  obtain ep1 err where d: "DialPeer ep n = (ep1, err)" by fastforce
  note epw = net_inv_endpoint [OF w ep]
  note D = DialPeer_law [OF d epw(1)] and DW = Dial_world [OF w ep d]
  let ?w1 = "setEndpoint e ep1 w"
  have failed: "net_next (one g) (if timeout = 0 then one g else (\<lambda>_. 0)) w w'"
    if "net_inv {} wi" "enqueueOn E i (ResponseAction g None er') wi = Some w'" "w_calls wi = w_calls w"
      "\<And>f. held acts f wi = held acts f w" "\<And>f. untimed f wi = untimed f w"
      "unat (r_currStream (w_router wi)) \<le> unat (r_currStream (w_router w)) + 1" for wi i er'
    using enqueueOn_law [OF that(1,2)] only_schedsD [OF enqueueOn_law(2) [OF that(1,2)]] that(3-6)
    by (auto simp: net_next_def one_def called_def untimed_def)
  show ?thesis
  proof (cases err)
    case (Some er')
    with q ep d obtain i where "enqueueOn E i (ResponseAction g None (Some er')) w = Some w'"
      by (auto simp: SendRequestHandleResponse_def bind_eq_Some)
    then show ?thesis by (rule failed [OF w]) simp_all
  next
    case None
    with q ep d obtain to w2 sent where
      s: "Router_SendMessage E (ep_self ep1) to p 0 req ?w1 = Some (w2, sent)"
      and sent: "(case sent of
          Inl err \<Rightarrow> do { w' \<leftarrow> enqueueOn E (ep_sched ep1) (ResponseAction g None (Some err)) w2; Some (w', None) }
        | Inr sid \<Rightarrow> do { w' \<leftarrow> registerStream E e ep1 sid timeout g w2; Some (w', None) }) = Some (w', er)"
      by (auto simp: SendRequestHandleResponse_def bind_eq_Some split: if_split_asm)
    have small1: "unat (r_currStream (w_router ?w1)) + 1 < 2 ^ 64" using small by simp
    note S = SendMessage_law [OF DW(1) small1 s]
    have e2: "endpointAt w2 e = Some ep1" using epw(4) S(2) by (simp add: endpointAt_def setEndpoint_def)
    have u2: "untimed f w2 = untimed f w" for f using DW(3) [of f] S(2) by (simp add: untimed_def)
    show ?thesis
    proof (cases sent)
      case (Inl er')
      with sent obtain i where "enqueueOn E i (ResponseAction g None (Some er')) w2 = Some w'" by (auto simp: bind_eq_Some)
      from failed [OF S(1) this] S(3,4,6) DW(2) u2 show ?thesis by simp
    next
      case (Inr sid)
      have rest: "registerStream E e ep1 sid timeout g w2 = Some w'" using sent Inr by (auto simp: bind_eq_Some)
      have sid: "sid = r_currStream (w_router w)" "unat (r_currStream (w_router w2)) = unat sid + 1"
        using S(8) [OF Inr refl] by simp_all
      note st1 = net_inv_endpoint(1,2) [OF S(1) e2]
      have st: "ep_static (length (w_scheds w2)) sid ep1" using D(1) S(5) sid(1) by simp
      have opened: "net_next (one g) (if ho = None then one g else (\<lambda>_. 0)) w (setEndpoint e (open_stream sid g ho ep1) w3)"
        if w3: "net_inv {} w3" "only_scheds w2 w3" "\<And>f. held acts f w3 = held acts f w2"
          and t: "timed_ok {} (w_scheds w3 ! ep_sched ep1) e (open_stream sid g ho ep1)" for ho w3
      proof -
        note os = only_schedsD [OF w3(2)]
        have e3: "endpointAt w3 e = Some ep1" using e2 os(7) by simp
        have small3: "unat sid < unat (r_currStream (w_router w3))" using sid(2) os(2) by simp
        note O = open_stream_law [OF st [folded os(6)] small3]
        have same: "ep_sched (open_stream sid g ho ep1) = ep_sched ep1"
          by (simp add: open_stream_def Let_def split: option.split)
        have "net_inv {} (setEndpoint e (open_stream sid g ho ep1) w3)"
          by (rule net_inv_set_endpoint [where Y = "{}", OF _ e3]) (use w3(1) O(1) t same in simp_all)
        moreover have "w_calls w3 = w_calls w" "unat (r_currStream (w_router w3)) \<le> unat (r_currStream (w_router w)) + 1"
          "\<And>f. untimed f w3 = untimed f w" "\<And>f. held acts f w3 = held acts f w"
          using os S(3,4,6) u2 w3(3) DW(2) by (simp_all add: untimed_def)
        ultimately show ?thesis
          using held_set_endpoint [OF e3, of acts _ "open_stream sid g ho ep1"]
            untimed_set_endpoint [OF e3, of _ "open_stream sid g ho ep1"] O(2,3)
          unfolding net_next_def by (fastforce simp: one_def called_def)
      qed
      show ?thesis
      proof (cases "timeout = 0")
        case True
        have "timed_ok {} (w_scheds w2 ! ep_sched ep1) e (open_stream sid g None ep1)"
          using st1(2) by (simp add: timed_ok_def open_stream_def Let_def)
        from opened [OF S(1) _ _ this] rest True show ?thesis
          by (simp add: only_scheds_def open_stream_def registerStream_def Let_def)
      next
        case False
        with rest obtain w3 h where w3: "onSched (ep_sched ep1) (\<lambda>sw. ScheduleActionIn E sw timeout (TimeoutAction e sid)) w2 = Some (w3, h)"
          and w': "w' = setEndpoint e (open_stream sid g (Some h) ep1) w3"
          by (auto simp: bind_eq_Some open_stream_def registerStream_def Let_def)
        have "\<not> asks f (TimeoutAction e sid)" for f :: 'f by simp
        note C = scheduleOn_law [OF S(1) this w3]
        have "endpointAt w3 e = Some ep1" using e2 only_schedsD(7) [OF C(2)] by simp
        from net_inv_endpoint(2) [OF C(1) this] C(5,6) open_stream_law(4) [OF st, of "r_currStream (w_router w2)"] sid(2)
        have "timed_ok {} (w_scheds w3 ! ep_sched ep1) e (open_stream sid g (Some h) ep1)"
          by (auto simp: timed_ok_def open_stream_def Let_def update_new)
        from opened [OF C(1-3) this] w' False show ?thesis by simp
      qed
    qed
  qed
qed

end


lemma called_append [simp]:
  "called f (w\<lparr>w_calls := cs @ [HandlerCall g resp err]\<rparr>) = called f (w\<lparr>w_calls := cs\<rparr>) + (if g = f then 1 else 0)"
  "called f (w\<lparr>w_calls := cs @ [AppCall x]\<rparr>) = called f (w\<lparr>w_calls := cs\<rparr>)"
  by (simp_all add: called_def)

lemma called_same [simp]: "called f (w\<lparr>w_calls := w_calls v\<rparr>) = called f v" "called f (setEndpoint e ep w) = called f w"
  by (simp_all add: called_def)

context sim_net
begin

lemma calls_update [simp]:
  "net_inv X (w\<lparr>w_calls := cs\<rparr>) = net_inv X w" "held acts f (w\<lparr>w_calls := cs\<rparr>) = held acts f w"
  "untimed f (w\<lparr>w_calls := cs\<rparr>) = untimed f w"
  by (simp_all add: net_inv_def held_def untimed_def)

lemma net_nextI:
  assumes "net_inv {} w'" "\<And>f. held acts f w' + called f w' = held acts f w + called f w + d f"
    "\<And>f. untimed f w' \<le> untimed f w + u f"
    "unat (r_currStream (w_router w')) \<le> unat (r_currStream (w_router w)) + 1"
  shows "net_next d u w w'"
  using assms by (simp add: net_next_def)

text \<open>Closing a stream of an endpoint, whose timeout the scheduler need not have any more.\<close>

lemma close_world:
  assumes w: "net_inv {TimeoutAction e sid} w" and ep: "endpointAt w e = Some ep"
  shows "net_inv {} (setEndpoint e (fold learnNode ps (close_stream sid ep)) w)"
    "held acts f (setEndpoint e (fold learnNode ps (close_stream sid ep)) w) +
       (if map_of (ep_streamFollowup ep) sid = Some (Some f) then 1 else 0) = held acts f w"
    "untimed f (setEndpoint e (fold learnNode ps (close_stream sid ep)) w) \<le> untimed f w"
proof -
  let ?ep' = "fold learnNode ps (close_stream sid ep)"
  note epw = net_inv_endpoint [OF w ep]
  note C = close_stream_law [OF epw(1)] and L = learnNode_law [OF close_stream_law(1) [OF epw(1), of sid], of ps]
  have same: "ep_sched ?ep' = ep_sched ep" using L(4) by (simp add: close_stream_def)
  have "timed_ok {} (w_scheds w ! ep_sched ep) e ?ep'"
    using epw(2) unfolding timed_ok_def L(3) by (auto simp: close_stream_def set_delete)
  then show "net_inv {} (setEndpoint e ?ep' w)"
    by (intro net_inv_set_endpoint [where Y = "{TimeoutAction e sid}", OF _ ep]) (use w L(1) same in auto)
  note S = same_streams [OF L(2,3), of f]
  show "held acts f (setEndpoint e ?ep' w) + (if map_of (ep_streamFollowup ep) sid = Some (Some f) then 1 else 0) = held acts f w"
    using held_set_endpoint [OF ep, of acts f ?ep'] C(2) [of f sid] S(1) by (simp split: if_splits)
  show "untimed f (setEndpoint e ?ep' w) \<le> untimed f w"
    using untimed_set_endpoint [OF ep, of f ?ep'] C(3) [of f sid] S(2) by simp
qed

lemma net_inv_more: "net_inv X w \<Longrightarrow> net_inv (insert a X) w"
  unfolding net_inv_def timed_ok_def by blast

lemma net_inv_less: "net_inv (insert a X) w \<Longrightarrow> (\<And>e sid. a \<noteq> TimeoutAction e sid) \<Longrightarrow> net_inv X w"
  unfolding net_inv_def timed_ok_def by blast

lemma runTimeout_law:
  assumes w: "net_inv {TimeoutAction e sid} w" and q: "runTimeout e sid w = Some w'"
  shows "net_next (\<lambda>_. 0) (\<lambda>_. 0) w w'"
proof -
  obtain ep where ep: "endpointAt w e = Some ep" using q by (cases "endpointAt w e") (simp_all add: runTimeout_def)
  let ?w1 = "setEndpoint e (close_stream sid ep) w"
  note C = close_world [OF w ep, where ps = "[]", simplified]
  show ?thesis
  proof (cases "map_of (ep_streamFollowup ep) sid")
    case None
    with q ep have "w' = ?w1" by (simp add: runTimeout_def close_stream_def)
    with None C show ?thesis by (intro net_nextI) simp_all
  next
    case (Some g)
    show ?thesis
    proof (cases g)
      case None
      with q ep Some have "w' = ?w1" by (simp add: runTimeout_def close_stream_def)
      with None Some C show ?thesis by (intro net_nextI) simp_all
    next
      case g: (Some fn)
      with q ep Some have "w' = ?w1\<lparr>w_calls := w_calls w @ [HandlerCall fn None (Some (EndpointErr ErrTimeout))]\<rparr>"
        by (simp add: runTimeout_def close_stream_def)
      moreover have "held acts f ?w1 + (if fn = f then 1 else 0) = held acts f w" for f using C(2) [of f] g Some by simp
      ultimately show ?thesis using C(1,3) by (intro net_nextI) (simp_all add: add.commute add.left_commute)
    qed
  qed
qed

lemma handleResponseMessage_law:
  assumes w: "net_inv {} w" and ep: "endpointAt w e = Some ep" and m: "map_of (ep_streamFollowup ep) sid = Some g"
    and q: "handleResponseMessage E e ep sid g msg w = Some w'"
  shows "net_next (\<lambda>_. 0) (\<lambda>_. 0) w w'"
proof -
  obtain w1 where w1: "net_inv {TimeoutAction e sid} w1" "only_scheds w w1" "\<And>f. held acts f w1 = held acts f w"
    and t: "(case map_of (ep_streamTimeout ep) sid of
        Some timeout \<Rightarrow> map_option fst (onSched (ep_sched ep) (\<lambda>sw. schRemovePlannedAction E sw timeout) w)
      | None \<Rightarrow> Some w) = Some w1"
  proof (cases "map_of (ep_streamTimeout ep) sid")
    case None
    with that [of w] net_inv_more [OF w] show thesis by (simp add: only_scheds_def)
  next
    case (Some ho)
    with removeOn_law [OF w ep Some] that show thesis by auto
  qed
  note os = only_schedsD [OF w1(2)]
  have ep1: "endpointAt w1 e = Some ep" using ep os(7) by simp
  obtain ps resp err where r: "(case asResponse msg of
      Some r \<Rightarrow> (fold learnNode (CloserNodes r) (close_stream sid ep), Some msg, None)
    | None \<Rightarrow> (close_stream sid ep, None, Some (SimErr ErrInvalidResponseType))) =
      (fold learnNode ps (close_stream sid ep), resp, err)"
    by (cases "asResponse msg") (simp_all, metis fold_simps(1))
  let ?ep' = "fold learnNode ps (close_stream sid ep)"
  let ?w2 = "setEndpoint e ?ep' w1"
  have w': "(if g \<noteq> None then enqueueOn E (ep_sched ?ep') (ResponseAction g resp err) ?w2 else Some ?w2) = Some w'"
    using q t r by (simp add: handleResponseMessage_def close_stream_def [symmetric] Let_def)
  note C = close_world [OF w1(1) ep1]
  have u: "untimed f w1 = untimed f w" for f using os(3) by (simp add: untimed_def)
  show ?thesis
  proof (cases g)
    case None
    then have eq: "w' = ?w2" using w' by simp
    have "called f w' = called f w" for f using os(5) by (simp add: eq called_def)
    with C(1,3) C(2) [of _ ps] w1(3) u os(2) m None show ?thesis by (intro net_nextI) (simp_all add: eq)
  next
    case (Some fn)
    with w' have en: "enqueueOn E (ep_sched ?ep') (ResponseAction g resp err) ?w2 = Some w'" by simp
    note Q = enqueueOn_law [OF C(1) en] and os2 = only_schedsD [OF enqueueOn_law(2) [OF C(1) en]]
    have "untimed f w' = untimed f ?w2" for f using os2(3) by (simp add: untimed_def)
    moreover have "held acts f w' = held acts f w" for f
      using Q(3) [of f] C(2) [of f ps] w1(3) [of f] m Some by (auto split: if_splits)
    moreover have "called f w' = called f w" for f using os(5) os2(5) by (simp add: called_def)
    ultimately show ?thesis using Q(1) C(3) [of _ ps] u os(2) os2(2) by (intro net_nextI) simp_all
  qed
qed

lemma HandleMessage_law:
  assumes w: "net_inv {} w" and small: "unat (r_currStream (w_router w)) + 1 < 2 ^ 64"
    and q: "HandleMessage E serve e n p sid msg w = Some w'"
  shows "net_next (\<lambda>_. 0) (\<lambda>_. 0) w w'"
proof -
  obtain ep where ep: "endpointAt w e = Some ep" using q by (cases "endpointAt w e") (simp_all add: HandleMessage_def)
  have idle: "net_next (\<lambda>_. 0) (\<lambda>_. 0) w w" using w by (simp add: net_next_def)
  show ?thesis
  proof (cases "map_of (ep_streamFollowup ep) sid")
    case (Some g)
    with q ep handleResponseMessage_law [OF w ep Some] show ?thesis by (simp add: HandleMessage_def)
  next
    case None
    show ?thesis
    proof (cases "\<exists>frm to p sid msg r. Router_SendMessage E frm to p sid msg w = Some (w', r)")
      case True
      then obtain frm to p sid msg r where "Router_SendMessage E frm to p sid msg w = Some (w', r)" by blast
      note S = SendMessage_law [OF w small this]
      have "untimed f w' = untimed f w" for f using S(2) by (simp add: untimed_def)
      with S(1,3,4,6) show ?thesis by (simp add: net_next_def called_def)
    next
      case False
      with q ep None have "w' = w"
        by (auto simp: HandleMessage_def bind_eq_Some split: option.split_asm sum.split_asm if_split_asm)
          (metis sum.exhaust)
      with idle show ?thesis by simp
    qed
  qed
qed

lemma runAction_law:
  assumes w: "net_inv {a} w" and small: "unat (r_currStream (w_router w)) + 1 < 2 ^ 64"
    and q: "runAction E serve a w = Some w'"
  shows "net_next (\<lambda>f. if asks f a then 1 else 0) (\<lambda>_. 0) w w'"
proof (cases a)
  case (DeliverAction frm to p sid msg)
  with net_inv_less [OF w] have w0: "net_inv {} w" by simp
  from q DeliverAction obtain e where "HandleMessage E serve e frm p sid msg w = Some w'"
    by (auto simp: bind_eq_Some)
  from HandleMessage_law [OF w0 small this] DeliverAction show ?thesis by simp
next
  case (ResponseAction g resp err)
  with net_inv_less [OF w] have "net_inv {} w" by simp
  with q ResponseAction show ?thesis
    by (auto simp: bind_eq_Some intro!: net_nextI)
next
  case (TimeoutAction e sid)
  with runTimeout_law [of e sid w w'] w q show ?thesis by simp
next
  case (AppAction x)
  with net_inv_less [OF w] have "net_inv {} w" by simp
  with q AppAction show ?thesis by (auto intro!: net_nextI)
qed

end


section \<open>The network of simple schedulers\<close>

interpretation net: sim_net netSched scheduler_inv sched_queued sched_plan sched_issued
  by (rule sim_net.intro [OF nets.net_sched_axioms])

abbreviation sched_acts :: "('b ChanQueue, 'b SimplePlanner) SimpleScheduler \<Rightarrow> 'b list" where
  "sched_acts \<equiv> nets.acts"

lemma move_store:
  "moveOverdueActions ChanQueue_methods SimplePlanner_methods now s = Some s' \<Longrightarrow> sched_issued s' = sched_issued s"
  by (auto simp: moveOverdueActions_def bind_eq_Some SimplePlanner_methods_def dest!: pop_store)

lemma move_taken:
  assumes s: "scheduler_inv s" and m: "moveOverdueActions ChanQueue_methods SimplePlanner_methods now s = Some s1"
  shows "scheduler_inv s1" "sched_queued s1 = ready_actions now s" "sched_plan s1 = later_plan now s"
    "sched_issued s1 = sched_issued s" "mset (sched_acts s1) = mset (sched_acts s)" "set (sched_plan s1) \<subseteq> set (sched_plan s)"
proof -
  have "length (css.overdue now s) \<le> chan_room (ss_queue s)"
    using css.move_law(2) [of s now] s m by (fastforce simp: css_eq(1) not_less)
  with css.move_law(1) [of s now] s m show s1: "scheduler_inv s1" "sched_queued s1 = ready_actions now s"
    "sched_plan s1 = later_plan now s" by (auto simp: css_eq)
  show "sched_issued s1 = sched_issued s" by (rule move_store [OF m])
  have "mset (sched_acts s) = mset (ready_actions now s) + mset (map act (later_plan now s))"
    using arg_cong [OF multiset_partition [of "mset (sched_plan s)" "\<lambda>e. due e \<le> now"], of "image_mset act"]
    by (simp add: nets.acts_def ready_actions_def later_plan_def not_le)
  then show "mset (sched_acts s1) = mset (sched_acts s)" by (simp add: nets.acts_def s1)
  show "set (sched_plan s1) \<subseteq> set (sched_plan s)" by (auto simp: s1 later_plan_def)
qed

text \<open>A run of a simple scheduler that returns: the first action that is ready is taken out and run.\<close>

lemma RunOne_taken:
  assumes s: "scheduler_inv s"
    and q: "SimpleScheduler_RunOne ChanQueue_methods SimplePlanner_methods run clk (s, w) = Some ((t, w'), did)"
  shows "\<exists>s'. scheduler_inv s' \<and> sched_issued s' = sched_issued s \<and> set (sched_plan s') \<subseteq> set (sched_plan s) \<and>
    sched_queued s' = tl (ready_actions (clk w) s) \<and> sched_plan s' = later_plan (clk w) s \<and>
    mset (sched_acts s) = mset (take 1 (ready_actions (clk w) s)) + mset (sched_acts s') \<and>
    (case ready_actions (clk w) s of
       [] \<Rightarrow> t = s' \<and> w' = w \<and> \<not> did
     | a # _ \<Rightarrow> run a (s', w) = Some (t, w') \<and> did)"
proof -
  let ?now = "clk w"
  obtain s1 where m: "moveOverdueActions ChanQueue_methods SimplePlanner_methods ?now s = Some s1"
    using q by (cases "moveOverdueActions ChanQueue_methods SimplePlanner_methods ?now s")
      (simp_all add: SimpleScheduler_RunOne_def)
  note M = move_taken [OF s m]
  define s' where "s' = s1\<lparr>ss_queue := (ss_queue s1)\<lparr>cq_queue := tl (sched_queued s1)\<rparr>\<rparr>"
  have inv: "scheduler_inv s'" using M(1) by (auto simp: s'_def scheduler_inv_def chan_inv_def)
  have ms: "mset (sched_acts s) = mset (take 1 (ready_actions ?now s)) + mset (sched_acts s')"
    unfolding M(5) [symmetric] by (cases "ready_actions ?now s") (simp_all add: s'_def nets.acts_def M(2,3))
  have st: "sched_issued s' = sched_issued s" using M(4) by (simp add: s'_def)
  have pl: "set (sched_plan s') \<subseteq> set (sched_plan s)" "sched_plan s' = later_plan ?now s"
    "sched_queued s' = tl (ready_actions ?now s)" using M(6) by (auto simp: s'_def M(2,3))
  show ?thesis
  proof (cases "ready_actions ?now s")
    case Nil
    then have "s1 = s'" by (simp add: s'_def M(2))
    moreover have "eqDequeue ChanQueue_methods (ss_queue s1) = Some (ss_queue s1, None)"
      using Nil by (simp add: ChanQueue_methods_def ChanQueue_Dequeue_def ChanQueue_Empty_def M(2))
    ultimately have "t = s'" "w' = w" "\<not> did" using q m by (auto simp: SimpleScheduler_RunOne_def)
    with inv st pl ms Nil show ?thesis by (intro exI [of _ s']) auto
  next
    case (Cons a rest)
    with q m have "run a (s', w) = Some (t, w')" "did"
      by (auto simp: SimpleScheduler_RunOne_def ChanQueue_methods_def ChanQueue_Dequeue_def ChanQueue_Empty_def M(2)
          bind_eq_Some s'_def)
    with inv st pl ms Cons show ?thesis by (intro exI [of _ s']) auto
  qed
qed

text \<open>The action \<open>a\<close> is taken from scheduler \<open>i\<close>.\<close>

lemma take_action:
  assumes w: "net.net_inv {} w" and i: "i < length (w_scheds w)" and s: "scheduler_inv s'"
    "sched_issued s' = sched_issued (w_scheds w ! i)" "set (sched_plan s') \<subseteq> set (sched_plan (w_scheds w ! i))"
    and ms: "mset (sched_acts (w_scheds w ! i)) = mset as + mset (sched_acts s')"
  shows "net.net_inv (set as) (w\<lparr>w_scheds := (w_scheds w)[i := s']\<rparr>)"
    "held sched_acts f w = held sched_acts f (w\<lparr>w_scheds := (w_scheds w)[i := s']\<rparr>) + count_asks f as"
proof -
  have ok: "net.sched_ok (w_scheds w ! i)" by (rule net.net_inv_sched [OF w i])
  have sub: "set (sched_acts (w_scheds w ! i)) \<subseteq> set (sched_acts s') \<union> set as"
    using arg_cong [OF ms, of set_mset] by auto
  have "net.net_inv ({} \<union> set as) (w\<lparr>w_scheds := (w_scheds w)[i := s']\<rparr>)"
    by (rule net.net_inv_set_sched [OF w i _ sub]) (use ok s in \<open>auto simp: net.sched_ok_def\<close>)
  then show "net.net_inv (set as) (w\<lparr>w_scheds := (w_scheds w)[i := s']\<rparr>)" by simp
  have "count_asks f (sched_acts (w_scheds w ! i)) = count_asks f (as @ sched_acts s')"
    using ms by (intro count_asks_mset) simp
  with held_set_sched [OF i, of sched_acts f s']
  show "held sched_acts f w = held sched_acts f (w\<lparr>w_scheds := (w_scheds w)[i := s']\<rparr>) + count_asks f as" by simp
qed

lemma World_RunOne_law:
  assumes w: "net.net_inv {} w" and small: "unat (r_currStream (w_router w)) + 1 < 2 ^ 64"
    and q: "World_RunOne serve i w = Some (w', did)"
  shows "net.net_next (\<lambda>_. 0) (\<lambda>_. 0) w w'"
proof -
  obtain t v where i: "i < length (w_scheds w)"
    and r: "SimpleScheduler_RunOne ChanQueue_methods SimplePlanner_methods (runOn serve i) w_now (w_scheds w ! i, w) = Some ((t, v), did)"
    and w': "w' = v\<lparr>w_scheds := (w_scheds v)[i := t]\<rparr>"
    using q by (auto simp: World_RunOne_def bind_eq_Some split: if_splits)
  have s: "scheduler_inv (w_scheds w ! i)" using net.net_inv_sched [OF w i] by (simp add: net.sched_ok_def)
  obtain s' where s': "scheduler_inv s'" "sched_issued s' = sched_issued (w_scheds w ! i)"
    "set (sched_plan s') \<subseteq> set (sched_plan (w_scheds w ! i))"
    "mset (sched_acts (w_scheds w ! i)) = mset (take 1 (ready_actions (w_now w) (w_scheds w ! i))) + mset (sched_acts s')"
    and run: "case ready_actions (w_now w) (w_scheds w ! i) of
       [] \<Rightarrow> t = s' \<and> v = w \<and> \<not> did
     | a # _ \<Rightarrow> runOn serve i a (s', w) = Some (t, v) \<and> did"
    using RunOne_taken [OF s r] by blast
  let ?w1 = "w\<lparr>w_scheds := (w_scheds w)[i := s']\<rparr>"
  note T = take_action [OF w i s'(1-4)]
  show ?thesis
  proof (cases "ready_actions (w_now w) (w_scheds w ! i)")
    case Nil
    with run w' have "w' = ?w1" by simp
    with T Nil show ?thesis by (intro net.net_nextI) (simp_all add: called_def untimed_def)
  next
    case (Cons a rest)
    with run obtain u where u: "runAction netSched serve a ?w1 = Some u" "t = w_scheds u ! i" "v = u"
      by (auto simp: runOn_def bind_eq_Some)
    then have "w' = u" using w' by simp
    with u(1) have u: "runAction netSched serve a ?w1 = Some w'" by simp
    have "net.net_inv {a} ?w1" "unat (r_currStream (w_router ?w1)) + 1 < 2 ^ 64"
      using T(1) Cons small by simp_all
    from net.runAction_law [OF this u] T(2) Cons show ?thesis
      by (auto simp: net.net_next_def called_def untimed_def)
  qed
qed

lemma World_NextActionTime_law:
  assumes w: "net.net_inv {} w" and q: "World_NextActionTime i w = Some (w', t)"
  shows "net.net_next (\<lambda>_. 0) (\<lambda>_. 0) w w'"
proof -
  obtain s where i: "i < length (w_scheds w)" and w': "w' = w\<lparr>w_scheds := (w_scheds w)[i := s]\<rparr>"
    and m: "moveOverdueActions ChanQueue_methods SimplePlanner_methods (w_now w) (w_scheds w ! i) = Some s"
    using q by (auto simp: World_NextActionTime_def SimpleScheduler_NextActionTime_def Let_def bind_eq_Some split: if_splits)
  have "scheduler_inv (w_scheds w ! i)" using net.net_inv_sched [OF w i] by (simp add: net.sched_ok_def)
  note M = move_taken [OF this m]
  have "mset (sched_acts (w_scheds w ! i)) = mset [] + mset (sched_acts s)" by (simp add: M(5))
  from take_action [OF w i M(1,4,6) this] show ?thesis
    by (intro net.net_nextI) (simp_all add: w' called_def untimed_def)
qed

section \<open>Every operation keeps the books\<close>

context sim_net
begin

lemma endpoint_world:
  assumes w: "net_inv {} w" and ep: "endpointAt w e = Some ep"
    and st: "ep_static (length (w_scheds w)) (r_currStream (w_router w)) ep'"
    and same: "ep_streamFollowup ep' = ep_streamFollowup ep" "ep_streamTimeout ep' = ep_streamTimeout ep"
      "ep_sched ep' = ep_sched ep"
  shows "net_next (\<lambda>_. 0) (\<lambda>_. 0) w (setEndpoint e ep' w)"
proof -
  note epw = net_inv_endpoint [OF w ep]
  have "net_inv {} (setEndpoint e ep' w)"
    by (rule net_inv_set_endpoint [where Y = "{}", OF _ ep st]) (use w epw(2) same in \<open>auto simp: timed_ok_def\<close>)
  then show ?thesis
    using held_set_endpoint [OF ep, of acts _ ep'] untimed_set_endpoint [OF ep, of _ ep'] same_streams [OF same(1,2)]
    by (intro net_nextI) simp_all
qed

lemma net_next_then:
  assumes "net_next d u w w1" "net_next (\<lambda>_. 0) (\<lambda>_. 0) w1 w2" "r_currStream (w_router w2) = r_currStream (w_router w1)"
  shows "net_next d u w w2"
  using assms unfolding net_next_def by (auto intro: order_trans)

lemma router_world:
  assumes w: "net_inv {} w" and r: "router_ok (length (w_endpoints w)) (length (w_scheds w)) r'"
    "r_currStream r' = r_currStream (w_router w)"
  shows "net_next (\<lambda>_. 0) (\<lambda>_. 0) w (w\<lparr>w_router := r'\<rparr>)"
  using assms by (intro net_nextI) (simp_all add: net_inv_def held_def untimed_def called_def)

end

lemma values_update: "snd ` set m \<subseteq> {..<n} \<Longrightarrow> v < n \<Longrightarrow> snd ` set (AList.update k v m) \<subseteq> {..<n}"
  by (induction m) auto

lemma values_delete: "snd ` set m \<subseteq> {..<n} \<Longrightarrow> snd ` set (AList.delete k m) \<subseteq> {..<n}"
  by (auto simp: set_delete)

lemma router_AddPeer:
  assumes "router_ok ne ns r" "e < ne" "i < ns"
  shows "router_ok ne ns (Router_AddPeer r n e i)" "r_currStream (Router_AddPeer r n e i) = r_currStream r"
  using assms by (simp_all add: router_ok_def Router_AddPeer_def keys_update values_update)

lemma router_RemovePeer:
  assumes "router_ok ne ns r"
  shows "router_ok ne ns (Router_RemovePeer r n)" "r_currStream (Router_RemovePeer r n) = r_currStream r"
  using assms by (simp_all add: router_ok_def Router_RemovePeer_def keys_delete values_delete)

lemma MaybeAdd_law:
  assumes "ep_static m next ep" and "ep' = fst (MaybeAddToPeerstore ep info ttl)"
  shows "ep_static m next ep'" "ep_streamFollowup ep' = ep_streamFollowup ep" "ep_streamTimeout ep' = ep_streamTimeout ep"
    "ep_sched ep' = ep_sched ep"
proof -
  let ?s = "nodeString (infoID info)"
  have k: "map_of (ep_connStatus ep) ?s = None \<longleftrightarrow> map_of (ep_peerstore ep) ?s = None"
    using assms(1) by (simp add: ep_static_def map_of_eq_None_iff)
  show "ep_static m next ep'"
    using assms k set_update_sub [of ?s info "ep_peerstore ep"]
    by (auto simp: MaybeAddToPeerstore_def Let_def ep_static_def keys_update split: if_splits)
  show "ep_streamFollowup ep' = ep_streamFollowup ep" "ep_streamTimeout ep' = ep_streamTimeout ep" "ep_sched ep' = ep_sched ep"
    using assms(2) by (simp_all add: MaybeAddToPeerstore_def Let_def)
qed

lemma NewSimpleScheduler_ok:
  assumes "NewSimpleScheduler = Some s"
  shows "net.sched_ok s" "sched_acts s = []"
  using assms by (auto simp: NewSimplePlanner_inv NewSimpleScheduler_def NewChanQueue_def DefaultChanqueueCapacity_def net.sched_ok_def scheduler_inv_def
      chan_inv_def nets.acts_def)

lemma NewScheduler_world:
  assumes w: "net.net_inv {} w" and s: "NewSimpleScheduler = Some s"
  shows "net.net_next (\<lambda>_. 0) (\<lambda>_. 0) w (w\<lparr>w_scheds := w_scheds w @ [s]\<rparr>)"
proof -
  have "net.net_inv {} (w\<lparr>w_scheds := w_scheds w @ [s]\<rparr>)"
    using w NewSimpleScheduler_ok [OF s] unfolding net.net_inv_def
    by (auto simp: ep_static_def nth_append router_ok_def less_Suc_eq)
  then show ?thesis using NewSimpleScheduler_ok(2) [OF s]
    by (intro net.net_nextI) (simp_all add: held_def untimed_def called_def)
qed

lemma NewEndpoint_world:
  assumes w: "net.net_inv {} w" and i: "i < length (w_scheds w)"
  shows "net.net_next (\<lambda>_. 0) (\<lambda>_. 0) w (fst (NewEndpoint n i router w))"
proof -
  let ?ep = "\<lparr>ep_self = n, ep_sched = i, ep_peerstore = [], ep_connStatus = [], ep_serverProtos = [],
    ep_streamFollowup = [], ep_streamTimeout = [], ep_router = router\<rparr>"
  let ?w1 = "w\<lparr>w_endpoints := w_endpoints w @ [?ep]\<rparr>"
  have "router_ok (Suc (length (w_endpoints w))) (length (w_scheds w)) (w_router w)"
    using w by (auto simp: net.net_inv_def router_ok_def less_Suc_eq)
  with w i have inv: "net.net_inv {} ?w1"
    unfolding net.net_inv_def by (auto simp: nth_append net.timed_ok_def ep_static_def less_Suc_eq)
  have one: "net.net_next (\<lambda>_. 0) (\<lambda>_. 0) w ?w1"
    using inv by (intro net.net_nextI) (simp_all add: held_def untimed_def called_def streams_def untimed_streams_def)
  have "net.net_next (\<lambda>_. 0) (\<lambda>_. 0) ?w1 (?w1\<lparr>w_router := Router_AddPeer (w_router w) n (length (w_endpoints w)) i\<rparr>)"
    by (rule net.router_world [OF inv])
      (use router_AddPeer [of "Suc (length (w_endpoints w))" "length (w_scheds w)" "w_router w" "length (w_endpoints w)" i n]
        \<open>router_ok (Suc (length (w_endpoints w))) (length (w_scheds w)) (w_router w)\<close> i in simp_all)
  from net.net_next_then [OF one this] one show ?thesis
    by (cases router) (simp_all add: NewEndpoint_def Let_def Router_AddPeer_def)
qed

text \<open>The handler that an operation gives to the network, and the one it gives without a timeout.\<close>

fun sent_handler :: "('k, 'a, 'm, 'f, 'q, 'x, 'u) NetOp \<Rightarrow> 'f option" where
  "sent_handler (SendOp _ _ _ _ _ f) = f"
| "sent_handler _ = None"

fun timed_handler :: "('k, 'a, 'm, 'f, 'q, 'x, 'u) NetOp \<Rightarrow> 'f option" where
  "timed_handler (SendOp _ _ _ _ timeout f) = (if timeout = 0 then None else f)"
| "timed_handler _ = None"

lemma netStep_law:
  assumes w: "net.net_inv {} w" and small: "unat (r_currStream (w_router w)) + 1 < 2 ^ 64"
    and q: "netStep serve op w = Some w'"
  shows "net.net_next (net.one (sent_handler op))
    (if timed_handler op = sent_handler op then (\<lambda>_. 0) else net.one (sent_handler op)) w w'"
proof -
  have none: "net.one None = (\<lambda>_. 0)" by (simp add: net.one_def fun_eq_iff)
  have ro: "router_ok (length (w_endpoints w)) (length (w_scheds w)) (w_router w)" using w by (simp add: net.net_inv_def)
  show ?thesis
  proof (cases op)
    case NewSchedulerOp
    with q obtain s where "NewSimpleScheduler = Some s" "w' = w\<lparr>w_scheds := w_scheds w @ [s]\<rparr>" by (auto simp: bind_eq_Some)
    with NewScheduler_world [OF w] NewSchedulerOp show ?thesis by (simp add: none)
  next
    case (NewEndpointOp n i r)
    with q NewEndpoint_world [OF w, of i n r] show ?thesis by (auto simp: none split: if_splits)
  next
    case (AddPeerOp n e i)
    with q have "w' = w\<lparr>w_router := Router_AddPeer (w_router w) n e i\<rparr>" "e < length (w_endpoints w)" "i < length (w_scheds w)"
      by (auto split: if_splits)
    with net.router_world [OF w router_AddPeer [OF ro, of e i n]] AddPeerOp show ?thesis by (simp add: none)
  next
    case (RemovePeerOp n)
    with q net.router_world [OF w router_RemovePeer [OF ro]] show ?thesis by (auto simp: none)
  next
    case (DialPeerOp e n)
    with q obtain ep where ep: "endpointAt w e = Some ep" "w' = setEndpoint e (fst (DialPeer ep n)) w"
      by (auto simp: onEndpoint_def)
    note st = net.net_inv_endpoint(1) [OF w ep(1)]
    obtain ep' err where d: "DialPeer ep n = (ep', err)" by fastforce
    from net.endpoint_world [OF w ep(1) DialPeer_law(1-4) [OF d st]] ep d DialPeerOp show ?thesis by (simp add: none)
  next
    case (PeerstoreOp e info ttl)
    with q obtain ep where ep: "endpointAt w e = Some ep" "w' = setEndpoint e (fst (MaybeAddToPeerstore ep info ttl)) w"
      by (auto simp: onEndpoint_def)
    from net.endpoint_world [OF w ep(1) MaybeAdd_law [OF net.net_inv_endpoint(1) [OF w ep(1)] refl]] ep PeerstoreOp
    show ?thesis by (simp add: none)
  next
    case (SendOp e p n req timeout f)
    with q obtain er where "SendRequestHandleResponse netSched e p n req timeout f w = Some (w', er)" by auto
    from net.Send_law [OF w small this] SendOp show ?thesis by (auto simp: none split: if_splits)
  next
    case (AddHandlerOp e p h)
    with q obtain ep where ep: "endpointAt w e = Some ep" "w' = setEndpoint e (fst (AddRequestHandler ep p h)) w"
      by (auto simp: onEndpoint_def)
    from net.endpoint_world [OF w ep(1), of "fst (AddRequestHandler ep p h)"] net.net_inv_endpoint(1) [OF w ep(1)] ep AddHandlerOp
    show ?thesis by (simp add: none AddRequestHandler_def ep_static_def split: if_splits)
  next
    case (RemoveHandlerOp e p)
    with q obtain ep where ep: "endpointAt w e = Some ep" "w' = setEndpoint e (RemoveRequestHandler ep p) w"
      by (auto simp: onEndpoint_def)
    from net.endpoint_world [OF w ep(1), of "RemoveRequestHandler ep p"] net.net_inv_endpoint(1) [OF w ep(1)] ep RemoveHandlerOp
    show ?thesis by (simp add: none RemoveRequestHandler_def ep_static_def)
  next
    case (EnqueueOp i x)
    with q have "enqueueOn netSched i (AppAction x) w = Some w'" by simp
    from net.enqueueOn_law [OF w this] only_schedsD [OF net.enqueueOn_law(2) [OF w this]] EnqueueOp show ?thesis
      by (intro net.net_nextI) (simp_all add: none called_def untimed_def)
  next
    case (ScheduleOp i d x)
    with q obtain h where "onSched i (\<lambda>sw. ScheduleActionIn netSched sw d (AppAction x)) w = Some (w', h)" by auto
    note L = net.scheduleOn_law [OF w _ this, simplified] and os = only_schedsD [OF net.scheduleOn_law(2) [OF w _ this, simplified]]
    from L(1,3) os ScheduleOp show ?thesis by (intro net.net_nextI) (simp_all add: none called_def untimed_def)
  next
    case (AppOp u)
    with q w show ?thesis by (auto simp: none net.net_inv_def held_def called_def untimed_def intro!: net.net_nextI)
  next
    case (AdvanceOp d)
    with q w show ?thesis
      by (auto simp: none net.net_inv_def held_def called_def untimed_def intro!: net.net_nextI split: if_splits)
  next
    case (RunOp i)
    with q obtain did where "World_RunOne serve i w = Some (w', did)" by auto
    from World_RunOne_law [OF w small this] RunOp show ?thesis by (simp add: none)
  next
    case (PollOp i)
    with q obtain t where "World_NextActionTime i w = Some (w', t)" by auto
    from World_NextActionTime_law [OF w this] PollOp show ?thesis by (simp add: none)
  qed
qed


definition requests :: "'f \<Rightarrow> ('k, 'a, 'm, 'f, 'q, 'x, 'u) NetOp list \<Rightarrow> nat" where
  "requests f tr = length (filter (\<lambda>op. sent_handler op = Some f) tr)"

definition timed_requests :: "'f \<Rightarrow> ('k, 'a, 'm, 'f, 'q, 'x, 'u) NetOp list \<Rightarrow> nat" where
  "timed_requests f tr = length (filter (\<lambda>op. timed_handler op = Some f) tr)"

definition net_idle :: "('k, 'a, 'm, 'f, 'q, 'x, 'u) NetWorld \<Rightarrow> bool" where
  "net_idle w \<longleftrightarrow> list_all (\<lambda>s. sched_queued s = [] \<and> sched_plan s = []) (w_scheds w)"

lemma timed_sent: "timed_handler op = Some f \<Longrightarrow> sent_handler op = Some f"
  by (cases op) (auto split: if_splits)

lemma net_reach_inv:
  assumes "net_reach serve tr w" "length tr + 1 < 2 ^ 64"
  shows "net.net_inv {} w \<and> unat (r_currStream (w_router w)) \<le> length tr + 1 \<and>
    called f w + held sched_acts f w = requests f tr \<and> untimed f w + timed_requests f tr \<le> requests f tr"
  using assms
proof (induction rule: net_reach.induct)
  case (net_start now u)
  then show ?case
    by (simp add: newWorld_def net.net_inv_def router_ok_def NewRouter_def requests_def timed_requests_def called_def held_def
        untimed_def)
next
  case (net_step tr w op w')
  then have IH: "net.net_inv {} w" "unat (r_currStream (w_router w)) \<le> length tr + 1"
    "called f w + held sched_acts f w = requests f tr" "untimed f w + timed_requests f tr \<le> requests f tr" by simp_all
  have small: "unat (r_currStream (w_router w)) + 1 < 2 ^ 64" using IH(2) net_step.prems by simp
  note N = netStep_law [OF IH(1) small net_step.hyps(2), unfolded net.net_next_def]
  have S: "net.net_inv {} w'" "unat (r_currStream (w_router w')) \<le> unat (r_currStream (w_router w)) + 1"
    "held sched_acts f w' + called f w' = held sched_acts f w + called f w + (if sent_handler op = Some f then 1 else 0)"
    using N by (simp_all add: net.one_def)
  have S4: "untimed f w' \<le> untimed f w + (if timed_handler op = sent_handler op then 0 else if sent_handler op = Some f then 1 else 0)"
    using N [THEN conjunct2, THEN conjunct2, THEN conjunct1, THEN spec, of f]
    by (cases "timed_handler op = sent_handler op") (simp_all add: net.one_def)
  have "called f w' + held sched_acts f w' = requests f (tr @ [op])"
    using S(3) IH(3) by (cases "sent_handler op = Some f") (simp_all add: requests_def)
  moreover have "untimed f w' + timed_requests f (tr @ [op]) \<le> requests f (tr @ [op])"
    using S4 IH(4) timed_sent [of op f] by (auto simp: requests_def timed_requests_def split: if_splits)
  ultimately show ?case using S(1,2) IH(2) by simp
qed

lemma idle_streams:
  assumes "net.net_inv {} w" "net_idle w"
  shows "held sched_acts f w = untimed f w"
proof -
  have none: "sched_acts s = []" if "s \<in> set (w_scheds w)" for s
    using assms(2) that by (auto simp: net_idle_def list_all_iff nets.acts_def)
  have "streams f ep = untimed_streams f ep" if m: "ep \<in> set (w_endpoints w)" for ep
  proof -
    obtain e where e: "e < length (w_endpoints w)" "ep = w_endpoints w ! e" using m by (metis in_set_conv_nth)
    then have "endpointAt w e = Some ep" by (simp add: endpointAt_def)
    note I = net.net_inv_endpoint [OF assms(1) this]
    have "sched_acts (w_scheds w ! ep_sched ep) = []" using none I(3) by simp
    then have "set (ep_streamTimeout ep) = {}" using I(2) by (cases "ep_streamTimeout ep") (auto simp: net.timed_ok_def)
    then show ?thesis by (simp add: streams_def untimed_streams_def)
  qed
  then have "sum_list (map (streams f) (w_endpoints w)) = sum_list (map (untimed_streams f) (w_endpoints w))"
    by (intro arg_cong [of _ _ sum_list]) simp
  moreover have "sum_list (map (\<lambda>s. count_asks f (sched_acts s)) (w_scheds w)) = 0"
    using none by (simp add: sum_list_eq_0_iff)
  ultimately show ?thesis by (simp add: held_def untimed_def)
qed

end
