(* ===== verification/Sim_Run.thy ===== *)
theory Sim_Run
  imports Sim_Network
begin

text \<open>
  Runs of the simulated network: the servers of \<open>sim/server.go\<close> as its request handlers, sequences
  of operations, and what happens to a request and its answer.
\<close>

section \<open>The servers in the network\<close>

text \<open>The program around the network keeps the servers; a request handler is an index into them. A
  server answers with what the endpoint it belongs to knows.\<close>

definition simServe ::
  "('k, 'rt, 'z) RoutingTable_scheme \<Rightarrow> 'k \<Rightarrow> ('k NodeID \<Rightarrow> ('k, 'a) NodeInfo option) \<Rightarrow>
   ('k, 'a, 'm, 'f, nat, 'x, ('rt, nat) Server list) Serve" where
  "simServe RT zeroKey asInfo q w n msg =
     (if q < length (w_app w)
      then do {
        ep \<leftarrow> endpointAt w (sv_endpoint (w_app w ! q));
        HandleRequest RT zeroKey (NetworkAddress asInfo ep) (w_app w ! q) n msg
      }
      else None)"

fun netRun ::
  "('k, 'a, 'm, 'f, 'q, 'x, 'u) Serve \<Rightarrow> ('k, 'a, 'm, 'f, 'q, 'x, 'u) NetOp list \<Rightarrow>
   ('k, 'a, 'm, 'f, 'q, 'x, 'u) NetWorld \<Rightarrow> ('k, 'a, 'm, 'f, 'q, 'x, 'u) NetWorld option" where
  "netRun serve [] w = Some w"
| "netRun serve (op # ops) w = do { w' \<leftarrow> netStep serve op w; netRun serve ops w' }"

lemma netRun_append: "netRun serve (xs @ ys) w = do { w' \<leftarrow> netRun serve xs w; netRun serve ys w' }"
  by (induction xs arbitrary: w) (simp_all split: Option.bind_split)

lemma netRun_reach:
  "net_reach serve tr w \<Longrightarrow> netRun serve ops w = Some w' \<Longrightarrow> net_reach serve (tr @ ops) w'"
proof (induction ops arbitrary: tr w)
  case (Cons op ops)
  then obtain w1 where w1: "netStep serve op w = Some w1" "netRun serve ops w1 = Some w'" by (auto simp: bind_eq_Some)
  from Cons.IH [OF net_step [OF Cons.prems(1) w1(1)] w1(2)] show ?case by simp
qed simp

section \<open>Forward steps\<close>

text \<open>A scheduler with one more action in its queue, and one less.\<close>

definition put_action :: "'b \<Rightarrow> ('b ChanQueue, 'b SimplePlanner) SimpleScheduler \<Rightarrow> ('b ChanQueue, 'b SimplePlanner) SimpleScheduler" where
  "put_action a s = s\<lparr>ss_queue := (ss_queue s)\<lparr>cq_queue := sched_queued s @ [a]\<rparr>\<rparr>"

definition tl_action :: "('b ChanQueue, 'b SimplePlanner) SimpleScheduler \<Rightarrow> ('b ChanQueue, 'b SimplePlanner) SimpleScheduler" where
  "tl_action s = s\<lparr>ss_queue := (ss_queue s)\<lparr>cq_queue := tl (sched_queued s)\<rparr>\<rparr>"

text \<open>A scheduler that accepts at least one more action.\<close>

definition has_room :: "('b ChanQueue, 'b SimplePlanner) SimpleScheduler \<Rightarrow> bool" where
  "has_room s \<longleftrightarrow> scheduler_inv s \<and> \<not> cq_closed (ss_queue s) \<and> length (sched_queued s) < cq_capacity (ss_queue s)"

lemma tl_put [simp]: "sched_queued s = [] \<Longrightarrow> tl_action (put_action a s) = s"
  by (simp add: tl_action_def put_action_def)

lemma put_action_sel [simp]: "sched_queued (put_action a s) = sched_queued s @ [a]" "ss_planner (put_action a s) = ss_planner s"
  by (simp_all add: put_action_def)

lemma put_action_inv: "has_room s \<Longrightarrow> scheduler_inv (put_action a s)"
  by (auto simp: has_room_def put_action_def scheduler_inv_def chan_inv_def)

lemma enqueue_forward:
  assumes "i < length (w_scheds w)" "has_room (w_scheds w ! i)"
  shows "enqueueOn netSched i a w = Some (w\<lparr>w_scheds := (w_scheds w)[i := put_action a (w_scheds w ! i)]\<rparr>)"
  using assms by (simp add: enqueueOn_def onSched_def netSched_def SimpleScheduler_methods_def SimpleScheduler_EnqueueAction_def
      ChanQueue_methods_def ChanQueue_Enqueue_def has_room_def put_action_def)

text \<open>A run when no planned action is due: the first of the queue.\<close>

lemma pop_none:
  assumes "simple_planner_inv p" "\<forall>e \<in> set (simple_plan p). now < due e"
  shows "SimplePlanner_PopOverdueActions now p = Some (p, [])"
proof (cases "sp_NextAction p")
  case None
  then show ?thesis by (simp add: SimplePlanner_PopOverdueActions_def overdueLoop.simps)
next
  case (Some c)
  then have "c \<in> set (pointers p)"
    using assms(1) by (cases "pointers p") (auto simp: simple_planner_inv_def)
  with assms(2) have "now < sta_time (sp_store p ! c)" by (auto simp: simple_plan_def planned_at_def)
  then show ?thesis
    by (simp add: SimplePlanner_PopOverdueActions_def overdueLoop.simps [of _ _ "Some c"] Some)
qed

lemma RunOne_forward:
  assumes i: "i < length (w_scheds w)" and s: "scheduler_inv (w_scheds w ! i)"
    and a: "sched_queued (w_scheds w ! i) = a # rest" and p: "\<forall>e \<in> set (sched_plan (w_scheds w ! i)). w_now w < due e"
  shows "World_RunOne serve i w =
    map_option (\<lambda>w'. (w', True)) (runAction netSched serve a (w\<lparr>w_scheds := (w_scheds w)[i := tl_action (w_scheds w ! i)]\<rparr>))"
proof -
  let ?s = "w_scheds w ! i"
  have "moveOverdueActions ChanQueue_methods SimplePlanner_methods (w_now w) ?s = Some ?s"
    using pop_none [of "ss_planner ?s" "w_now w"] s p
    by (simp add: moveOverdueActions_def SimplePlanner_methods_def scheduler_inv_def EnqueueMany_def ChanQueue_methods_def)
  moreover have "eqDequeue ChanQueue_methods (ss_queue ?s) = Some ((ss_queue ?s)\<lparr>cq_queue := rest\<rparr>, Some a)"
    using a by (simp add: ChanQueue_methods_def ChanQueue_Dequeue_def ChanQueue_Empty_def)
  moreover have "?s\<lparr>ss_queue := (ss_queue ?s)\<lparr>cq_queue := rest\<rparr>\<rparr> = tl_action ?s" using a by (simp add: tl_action_def)
  ultimately show ?thesis using i
    by (simp add: World_RunOne_def SimpleScheduler_RunOne_def runOn_def split: Option.bind_split)
qed


lemma schedule_forward:
  assumes i: "i < length (w_scheds w)" and s: "has_room (w_scheds w ! i)" and d: "0 < d"
  shows "\<exists>p' h xs ys. onSched i (\<lambda>sw. ScheduleActionIn netSched sw d a) w =
      Some (w\<lparr>w_scheds := (w_scheds w)[i := (w_scheds w ! i)\<lparr>ss_planner := p'\<rparr>]\<rparr>, Some h) \<and>
    has_room ((w_scheds w ! i)\<lparr>ss_planner := p'\<rparr>) \<and>
    sched_plan (w_scheds w ! i) = xs @ ys \<and> simple_plan p' = xs @ (h, w_now w + d, a) # ys"
proof -
  let ?s = "w_scheds w ! i"
  obtain p' h xs ys where P: "SimplePlanner_ScheduleAction (ss_planner ?s) (w_now w + d) a = Some (p', Some h)"
    "simple_planner_inv p'" "sched_plan ?s = xs @ ys" "simple_plan p' = xs @ (h, w_now w + d, a) # ys"
    using simple_Schedule [of "ss_planner ?s" "w_now w + d" a] s by (auto simp: has_room_def scheduler_inv_def)
  with i s d show ?thesis
    by (intro exI [of _ p'] exI [of _ h] exI [of _ xs] exI [of _ ys])
      (simp add: onSched_def ScheduleActionIn_def netSched_def SimpleScheduler_methods_def SimpleScheduler_ScheduleAction_def
        SimplePlanner_methods_def has_room_def scheduler_inv_def)
qed

lemma remove_forward:
  assumes i: "i < length (w_scheds w)" and s: "has_room (w_scheds w ! i)"
  shows "\<exists>p' b. onSched i (\<lambda>sw. schRemovePlannedAction netSched sw (Some h)) w =
      Some (w\<lparr>w_scheds := (w_scheds w)[i := (w_scheds w ! i)\<lparr>ss_planner := p'\<rparr>]\<rparr>, b) \<and>
    has_room ((w_scheds w ! i)\<lparr>ss_planner := p'\<rparr>) \<and>
    simple_plan p' = filter (\<lambda>e. fst e \<noteq> h) (sched_plan (w_scheds w ! i))"
proof -
  let ?s = "w_scheds w ! i"
  obtain p' where P: "SimplePlanner_RemoveAction (ss_planner ?s) (Some h) = Some (p', h \<in> fst ` set (sched_plan ?s))"
    "simple_planner_inv p'" "simple_plan p' = filter (\<lambda>e. fst e \<noteq> h) (sched_plan ?s)"
    using simple_Remove [of "ss_planner ?s" h] s by (auto simp: has_room_def scheduler_inv_def)
  with i s show ?thesis
    by (intro exI [of _ p'] exI [of _ "h \<in> fst ` set (sched_plan ?s)"])
      (simp add: onSched_def netSched_def SimpleScheduler_methods_def SimpleScheduler_RemovePlannedAction_def
        SimplePlanner_methods_def has_room_def scheduler_inv_def)
qed

text \<open>A message to a peer that the router knows.\<close>

lemma SendMessage_forward:
  assumes "map_of (r_peers (w_router w)) (nodeString to) = Some e" "map_of (r_scheds (w_router w)) (nodeString to) = Some j"
    "j < length (w_scheds w)" "has_room (w_scheds w ! j)" "sid \<noteq> 0"
  shows "Router_SendMessage netSched frm to p sid msg w =
    Some (w\<lparr>w_scheds := (w_scheds w)[j := put_action (DeliverAction frm to p sid msg) (w_scheds w ! j)]\<rparr>, Inr sid)"
  using assms by (simp add: Router_SendMessage_def Let_def enqueue_forward)

lemma SendMessage_forward_new:
  assumes "map_of (r_peers (w_router w)) (nodeString to) = Some e" "map_of (r_scheds (w_router w)) (nodeString to) = Some j"
    "j < length (w_scheds w)" "has_room (w_scheds w ! j)"
  shows "Router_SendMessage netSched frm to p 0 msg w =
    Some (w\<lparr>w_router := (w_router w)\<lparr>r_currStream := r_currStream (w_router w) + 1\<rparr>,
        w_scheds := (w_scheds w)[j := put_action (DeliverAction frm to p (r_currStream (w_router w)) msg) (w_scheds w ! j)]\<rparr>,
      Inr (r_currStream (w_router w)))"
  using assms by (simp add: Router_SendMessage_def Let_def enqueue_forward)

section \<open>A message that is a request\<close>

text \<open>Scheduler \<open>i\<close> delivers a message to the endpoint \<open>e\<close>, which does not wait for it and answers it.\<close>

lemma answer_forward:
  assumes i: "i < length (w_scheds w)" and s: "scheduler_inv (w_scheds w ! i)"
    and q: "sched_queued (w_scheds w ! i) = [DeliverAction frm to p sid msg]"
    and pl: "\<forall>en \<in> set (sched_plan (w_scheds w ! i)). w_now w < due en"
    and to: "map_of (r_peers (w_router w)) (nodeString to) = Some e" and ep: "endpointAt w e = Some ep"
    and new: "map_of (ep_streamFollowup ep) sid = None"
    and h: "map_of (ep_serverProtos ep) p = Some (Some hq)" "ep_router ep" and sid: "sid \<noteq> 0"
    and serve: "serve hq (w\<lparr>w_scheds := (w_scheds w)[i := tl_action (w_scheds w ! i)]\<rparr>) frm msg = Some (Inr reply)"
    and frm: "map_of (r_peers (w_router w)) (nodeString frm) = Some e'" "map_of (r_scheds (w_router w)) (nodeString frm) = Some j"
    and j: "j < length (w_scheds w)" "j \<noteq> i" "has_room (w_scheds w ! j)"
  shows "netStep serve (RunOp i) w = Some (w\<lparr>w_scheds := (w_scheds w)[i := tl_action (w_scheds w ! i),
    j := put_action (DeliverAction (ep_self ep) frm p sid reply) (w_scheds w ! j)]\<rparr>)"
proof -
  let ?w1 = "w\<lparr>w_scheds := (w_scheds w)[i := tl_action (w_scheds w ! i)]\<rparr>"
  have "endpointAt ?w1 e = Some ep" using ep by (simp add: endpointAt_def split: if_splits)
  moreover have "Router_SendMessage netSched (ep_self ep) frm p sid reply ?w1 = Some (?w1\<lparr>w_scheds := (w_scheds ?w1)[j :=
      put_action (DeliverAction (ep_self ep) frm p sid reply) (w_scheds ?w1 ! j)]\<rparr>, Inr sid)"
    by (rule SendMessage_forward) (use frm j sid in simp_all)
  ultimately have "runAction netSched serve (DeliverAction frm to p sid msg) ?w1 =
      Some (?w1\<lparr>w_scheds := (w_scheds ?w1)[j := put_action (DeliverAction (ep_self ep) frm p sid reply) (w_scheds ?w1 ! j)]\<rparr>)"
    using to new h serve by (simp add: HandleMessage_def)
  then show ?thesis using RunOne_forward [OF i s q pl, of serve] j by simp
qed


text \<open>An answer on its way to an endpoint \<open>a\<close> that does not wait for it any more. Both endpoints serve
  the protocol, with handlers \<open>ha\<close> and \<open>hb\<close>.\<close>

definition usable :: "('b ChanQueue, 'b SimplePlanner) SimpleScheduler \<Rightarrow> bool" where
  "usable s \<longleftrightarrow> scheduler_inv s \<and> \<not> cq_closed (ss_queue s) \<and> 0 < cq_capacity (ss_queue s)"

definition serves :: "nat \<Rightarrow> ProtocolID \<Rightarrow> StreamID \<Rightarrow> 'q \<Rightarrow> ('k, 'a, 'm, 'f, 'q, 'x, 'u) NetWorld \<Rightarrow> bool" where
  "serves e p sid h w \<longleftrightarrow>
     e < length (w_endpoints w) \<and>
     (let ep = w_endpoints w ! e; i = ep_sched ep in
        map_of (ep_streamFollowup ep) sid = None \<and> map_of (ep_serverProtos ep) p = Some (Some h) \<and> ep_router ep \<and>
        map_of (r_peers (w_router w)) (nodeString (ep_self ep)) = Some e \<and>
        map_of (r_scheds (w_router w)) (nodeString (ep_self ep)) = Some i \<and> i < length (w_scheds w) \<and>
        usable (w_scheds w ! i) \<and> (\<forall>en \<in> set (sched_plan (w_scheds w ! i)). w_now w < due en))"

definition late_answer ::
  "nat \<Rightarrow> nat \<Rightarrow> ProtocolID \<Rightarrow> StreamID \<Rightarrow> 'q \<Rightarrow> 'q \<Rightarrow> ('k, 'a, 'm, 'f, 'q, 'x, 'u) NetWorld \<Rightarrow> bool" where
  "late_answer a b p sid ha hb w \<longleftrightarrow>
     sid \<noteq> 0 \<and> serves a p sid ha w \<and> serves b p sid hb w \<and>
     (let ea = w_endpoints w ! a; eb = w_endpoints w ! b in
        ep_sched ea \<noteq> ep_sched eb \<and> sched_queued (w_scheds w ! ep_sched eb) = [] \<and>
        (case sched_queued (w_scheds w ! ep_sched ea) of
           [DeliverAction frm to p' sid' (SimMessage _)] \<Rightarrow> frm = ep_self eb \<and> to = ep_self ea \<and> p' = p \<and> sid' = sid
         | _ \<Rightarrow> False))"

lemma usable_simps: "usable s \<Longrightarrow> usable (tl_action s)" "usable s \<Longrightarrow> sched_queued s = [] \<Longrightarrow> usable (put_action d s)"
  "usable s \<Longrightarrow> sched_queued s = [] \<Longrightarrow> has_room s"
  "sched_plan (tl_action s) = sched_plan s" "sched_queued (tl_action s) = tl (sched_queued s)"
  by (auto simp: usable_def has_room_def tl_action_def put_action_def scheduler_inv_def chan_inv_def)

text \<open>One exchange: \<open>a\<close> treats the late answer as a request and answers it, and so does \<open>b\<close>.\<close>

lemma late_answer_step:
  assumes l: "late_answer a b p sid ha hb w"
    and answers: "\<And>v n m h. w_endpoints v = w_endpoints w \<Longrightarrow> w_app v = w_app w \<Longrightarrow> h \<in> {ha, hb} \<Longrightarrow>
      \<exists>r. serve h v n (SimMessage m) = Some (Inr (SimMessage r))"
  shows "\<exists>w'. netStep serve (RunOp (ep_sched (w_endpoints w ! a))) w = Some w' \<and> late_answer b a p sid hb ha w' \<and>
    w_endpoints w' = w_endpoints w \<and> w_app w' = w_app w \<and> w_calls w' = w_calls w \<and> w_now w' = w_now w"
proof -
  let ?ea = "w_endpoints w ! a" and ?eb = "w_endpoints w ! b"
  let ?i = "ep_sched ?ea" and ?j = "ep_sched ?eb"
  let ?w1 = "w\<lparr>w_scheds := (w_scheds w)[?i := tl_action (w_scheds w ! ?i)]\<rparr>"
  obtain m where q: "sched_queued (w_scheds w ! ?i) = [DeliverAction (ep_self ?eb) (ep_self ?ea) p sid (SimMessage m)]"
    using l by (auto simp: late_answer_def Let_def split: list.splits SimAction.splits AnyMessage.splits)
  have sa: "serves a p sid ha w" and sb: "serves b p sid hb w" and ne: "?i \<noteq> ?j" and sid: "sid \<noteq> 0"
    and qb: "sched_queued (w_scheds w ! ?j) = []" using l by (simp_all add: late_answer_def Let_def)
  obtain r where r: "serve ha ?w1 (ep_self ?eb) (SimMessage m) = Some (Inr (SimMessage r))"
    using answers [of ?w1 ha "ep_self ?eb" m] by auto
  let ?w2 = "w\<lparr>w_scheds := (w_scheds w)[?i := tl_action (w_scheds w ! ?i),
      ?j := put_action (DeliverAction (ep_self ?ea) (ep_self ?eb) p sid (SimMessage r)) (w_scheds w ! ?j)]\<rparr>"
  have "netStep serve (RunOp ?i) w = Some ?w2"
    using sa sb unfolding serves_def Let_def
    by (intro answer_forward [OF _ _ q, where hq = ha and e = a and ep = ?ea and e' = b])
      (use ne sid r qb in \<open>auto simp: endpointAt_def usable_def intro: usable_simps(3)\<close>)
  moreover have "late_answer b a p sid hb ha ?w2"
    using sa sb ne sid q qb by (auto simp: late_answer_def serves_def Let_def usable_simps)
  ultimately show ?thesis by (intro exI [of _ ?w2]) simp
qed

lemma late_answer_exchange:
  assumes l: "late_answer a b p sid ha hb w"
    and answers: "\<And>v n m h. w_endpoints v = w_endpoints w \<Longrightarrow> w_app v = w_app w \<Longrightarrow> h \<in> {ha, hb} \<Longrightarrow>
      \<exists>r. serve h v n (SimMessage m) = Some (Inr (SimMessage r))"
  shows "\<exists>w'. netRun serve [RunOp (ep_sched (w_endpoints w ! a)), RunOp (ep_sched (w_endpoints w ! b))] w = Some w' \<and>
    late_answer a b p sid ha hb w' \<and> w_endpoints w' = w_endpoints w \<and> w_app w' = w_app w \<and> w_calls w' = w_calls w \<and> w_now w' = w_now w"
proof -
  obtain w1 where w1: "netStep serve (RunOp (ep_sched (w_endpoints w ! a))) w = Some w1" "late_answer b a p sid hb ha w1"
    "w_endpoints w1 = w_endpoints w" "w_app w1 = w_app w" "w_calls w1 = w_calls w" "w_now w1 = w_now w"
    using late_answer_step [where serve = serve, OF l answers] by blast
  have "\<exists>r. serve h v n (SimMessage m) = Some (Inr (SimMessage r))"
    if "w_endpoints v = w_endpoints w1" "w_app v = w_app w1" "h \<in> {hb, ha}" for v n m h
    using answers [of v h n m] that w1(3,4) by auto
  from late_answer_step [where serve = serve, OF w1(2) this] w1 show ?thesis by auto
qed


section \<open>A request and its answer\<close>

text \<open>A scheduler without overdue actions, and one with an action in its queue.\<close>

definition settled :: "nat \<Rightarrow> ('k, 'a, 'm, 'f, 'q, 'x, 'u) NetWorld \<Rightarrow> bool" where
  "settled i w \<longleftrightarrow> i < length (w_scheds w) \<and> scheduler_inv (w_scheds w ! i) \<and>
     (\<forall>en \<in> set (sched_plan (w_scheds w ! i)). w_now w < due en)"

definition busy :: "nat \<Rightarrow> ('k, 'a, 'm, 'f, 'q, 'x, 'u) NetWorld \<Rightarrow> bool" where
  "busy i w \<longleftrightarrow> sched_queued (w_scheds w ! i) \<noteq> []"

lemma delete_update: "k \<notin> fst ` set m \<Longrightarrow> AList.delete k (AList.update k v m) = m"
  by (simp add: update_new AList.delete_eq filter_id_conv) force

lemma close_open:
  assumes "ep_static n sid ep"
  shows "close_stream sid (open_stream sid g to ep) = ep"
proof -
  have 1: "sid \<notin> fst ` set (ep_streamFollowup ep)" using assms unfolding ep_static_def by blast
  then have 2: "sid \<notin> fst ` set (ep_streamTimeout ep)" using assms unfolding ep_static_def by blast
  with 1 show ?thesis by (auto simp: delete_update close_stream_def open_stream_def Let_def split: option.splits)
qed

text \<open>The client \<open>a\<close> is ready to send a request to the node \<open>n\<close>, whose endpoint is \<open>b\<close>: it has been
  told about \<open>n\<close>, both are attached to the router under their names, with schedulers of their own that
  have nothing to do.\<close>

definition attached :: "nat \<Rightarrow> 'k NodeID \<Rightarrow> nat \<Rightarrow> ('k, 'a, 'm, 'f, 'q, 'x, 'u) NetWorld \<Rightarrow> bool" where
  "attached e n i w \<longleftrightarrow>
     e < length (w_endpoints w) \<and> ep_router (w_endpoints w ! e) \<and> i < length (w_scheds w) \<and>
     map_of (r_peers (w_router w)) (nodeString n) = Some e \<and> map_of (r_scheds (w_router w)) (nodeString n) = Some i \<and>
     usable (w_scheds w ! i) \<and> sched_queued (w_scheds w ! i) = [] \<and> sched_plan (w_scheds w ! i) = []"

definition ready_pair ::
  "nat \<Rightarrow> nat \<Rightarrow> 'k NodeID \<Rightarrow> nat \<Rightarrow> ('k, 'a, 'm, 'f, 'q, 'x, 'u) NetWorld \<Rightarrow> bool" where
  "ready_pair a b n j w \<longleftrightarrow>
     a \<noteq> b \<and> ep_sched (w_endpoints w ! a) \<noteq> j \<and>
     attached a (ep_self (w_endpoints w ! a)) (ep_sched (w_endpoints w ! a)) w \<and> attached b n j w \<and>
     map_of (ep_connStatus (w_endpoints w ! a)) (nodeString n) \<in> {Some Connected, Some CanConnect}"

text \<open>Sending: the request is in the queue of the server's scheduler, the stream is open, and its
  timeout is planned if there is one.\<close>

lemma send_forward:
  assumes w: "net.net_inv {} w" and small: "unat (r_currStream (w_router w)) + 1 < 2 ^ 64"
    and r: "ready_pair a b n j w" and t: "0 \<le> timeout"
  shows "\<exists>to ea1 ho s.
    netStep serve (SendOp a p n req timeout (Some f)) w = Some (w\<lparr>
      w_router := (w_router w)\<lparr>r_currStream := r_currStream (w_router w) + 1\<rparr>,
      w_scheds := (w_scheds w)[j := put_action (DeliverAction (ep_self (w_endpoints w ! a)) to p (r_currStream (w_router w)) req) (w_scheds w ! j),
        ep_sched (w_endpoints w ! a) := s],
      w_endpoints := (w_endpoints w)[a := open_stream (r_currStream (w_router w)) (Some f) ho ea1]\<rparr>) \<and>
    nodeString to = nodeString n \<and> fst (DialPeer (w_endpoints w ! a) n) = ea1 \<and>
    usable s \<and> sched_queued s = [] \<and>
    (case ho of
       None \<Rightarrow> sched_plan s = []
     | Some ho' \<Rightarrow> \<exists>h. ho' = Some h \<and> 0 < timeout \<and>
         sched_plan s = [(h, w_now w + timeout, TimeoutAction a (r_currStream (w_router w)))])"
proof -
  let ?ea = "w_endpoints w ! a" and ?sid = "r_currStream (w_router w)"
  let ?i = "ep_sched ?ea"
  have at: "attached a (ep_self ?ea) ?i w" "attached b n j w" "?i \<noteq> j"
    and conn: "map_of (ep_connStatus ?ea) (nodeString n) \<in> {Some Connected, Some CanConnect}"
    using r by (auto simp: ready_pair_def)
  have ep: "endpointAt w a = Some ?ea" using at(1) by (simp add: endpointAt_def attached_def)
  note epw = net.net_inv_endpoint [OF w ep]
  obtain ea1 where d: "DialPeer ?ea n = (ea1, None)"
    using conn by (auto simp: DialPeer_def)
  note D = DialPeer_law [OF d epw(1)]
  obtain info where info: "map_of (ep_peerstore ea1) (nodeString n) = Some info" "nodeString (infoID info) = nodeString n"
    using D(8) by blast
  let ?to = "infoID info" and ?w1 = "setEndpoint a ea1 w"
  let ?d = "DeliverAction (ep_self ?ea) ?to p ?sid req"
  let ?w2 = "?w1\<lparr>w_router := (w_router w)\<lparr>r_currStream := ?sid + 1\<rparr>, w_scheds := (w_scheds w)[j := put_action ?d (w_scheds w ! j)]\<rparr>"
  have sent: "Router_SendMessage netSched (ep_self ?ea) ?to p 0 req ?w1 = Some (?w2, Inr ?sid)"
    using SendMessage_forward_new [of ?w1 ?to b j] at(2) info(2) by (simp add: attached_def usable_simps)
  have router: "ep_router ea1" "ep_self ea1 = ep_self ?ea" "ep_sched ea1 = ?i" using D at(1) by (simp_all add: attached_def)
  have step: "netStep serve (SendOp a p n req timeout (Some f)) w = registerStream netSched a ea1 ?sid timeout (Some f) ?w2"
    using ep d info(1) router sent
    by (cases "registerStream netSched a ea1 ?sid timeout (Some f) ?w2") (simp_all add: SendRequestHandleResponse_def)
  have s2: "w_scheds ?w2 ! ?i = w_scheds w ! ?i" "?i < length (w_scheds ?w2)" using at by (simp_all add: attached_def)
  have ui: "usable (w_scheds w ! ?i)" "sched_queued (w_scheds w ! ?i) = []" "sched_plan (w_scheds w ! ?i) = []"
    using at(1) by (simp_all add: attached_def)
  show ?thesis
  proof (cases "timeout = 0")
    case True
    then have "netStep serve (SendOp a p n req timeout (Some f)) w = Some (setEndpoint a (open_stream ?sid (Some f) None ea1) ?w2)"
      unfolding step by (simp add: registerStream_def open_stream_def)
    moreover have "(w_scheds w)[j := put_action ?d (w_scheds w ! j), ?i := w_scheds w ! ?i] = (w_scheds w)[j := put_action ?d (w_scheds w ! j)]"
      by (subst list_update_swap) (use at(3) in simp_all)
    ultimately have "netStep serve (SendOp a p n req timeout (Some f)) w = Some (w\<lparr>
        w_router := (w_router w)\<lparr>r_currStream := ?sid + 1\<rparr>,
        w_scheds := (w_scheds w)[j := put_action ?d (w_scheds w ! j), ?i := w_scheds w ! ?i],
        w_endpoints := (w_endpoints w)[a := open_stream ?sid (Some f) None ea1]\<rparr>)"
      by (simp only: setEndpoint_def) simp
    then show ?thesis
      by (intro exI conjI, assumption) (simp_all add: d info(2) ui)
  next
    case False
    with t have pos: "0 < timeout" by simp
    have "has_room (w_scheds ?w2 ! ?i)" using s2(1) ui by (simp add: usable_simps)
    from schedule_forward [OF s2(2) this pos, of "TimeoutAction a ?sid"] obtain p' h xs ys where
      P: "onSched ?i (\<lambda>sw. ScheduleActionIn netSched sw timeout (TimeoutAction a ?sid)) ?w2 =
          Some (?w2\<lparr>w_scheds := (w_scheds ?w2)[?i := (w_scheds w ! ?i)\<lparr>ss_planner := p'\<rparr>]\<rparr>, Some h)"
        "has_room ((w_scheds w ! ?i)\<lparr>ss_planner := p'\<rparr>)" "simple_plan p' = [(h, w_now w + timeout, TimeoutAction a ?sid)]"
      unfolding s2(1) ui(3) by auto
    have "netStep serve (SendOp a p n req timeout (Some f)) w = Some (setEndpoint a (open_stream ?sid (Some f) (Some (Some h)) ea1)
        (?w2\<lparr>w_scheds := (w_scheds ?w2)[?i := (w_scheds w ! ?i)\<lparr>ss_planner := p'\<rparr>]\<rparr>))"
      unfolding step using False P(1) router(3) by (simp add: registerStream_def open_stream_def)
    moreover have "usable ((w_scheds w ! ?i)\<lparr>ss_planner := p'\<rparr>)" using P(2) ui(1) by (auto simp: usable_def has_room_def)
    ultimately show ?thesis using d info(2) ui P(3) pos
      by (intro exI [of _ ?to] exI [of _ ea1] exI [of _ "Some (Some h)"] exI [of _ "(w_scheds w ! ?i)\<lparr>ss_planner := p'\<rparr>"])
        (simp add: setEndpoint_def)
  qed
qed


lemma fold_learn_sched: "ep_sched (fold learnNode ps ep) = ep_sched ep"
  by (induction ps arbitrary: ep) (simp_all add: learnNode_def)

text \<open>Receiving: the answer is delivered to the endpoint that waits for it, and its handler is called.\<close>

lemma response_forward:
  assumes i: "i < length (w_scheds w)" and s: "usable (w_scheds w ! i)"
    and q: "sched_queued (w_scheds w ! i) = [DeliverAction frm to p sid msg]"
    and pl: "\<forall>en \<in> set (sched_plan (w_scheds w ! i)). w_now w < due en"
    and to: "map_of (r_peers (w_router w)) (nodeString to) = Some e" and ep: "endpointAt w e = Some ep"
    and wait: "map_of (ep_streamFollowup ep) sid = Some (Some f)" "ep_sched ep = i"
    and ho: "map_of (ep_streamTimeout ep) sid = ho" "\<And>ho'. ho = Some ho' \<Longrightarrow> \<exists>h. ho' = Some h"
    and r: "asResponse msg = Some r"
  shows "\<exists>s'. netStep serve (RunOp i) w =
      Some (w\<lparr>w_endpoints := (w_endpoints w)[e := fold learnNode (CloserNodes r) (close_stream sid ep)],
        w_scheds := (w_scheds w)[i := put_action (ResponseAction (Some f) (Some msg) None) s']\<rparr>) \<and>
    netStep serve (RunOp i) (w\<lparr>w_endpoints := (w_endpoints w)[e := fold learnNode (CloserNodes r) (close_stream sid ep)],
        w_scheds := (w_scheds w)[i := put_action (ResponseAction (Some f) (Some msg) None) s']\<rparr>) =
      Some (w\<lparr>w_endpoints := (w_endpoints w)[e := fold learnNode (CloserNodes r) (close_stream sid ep)],
        w_scheds := (w_scheds w)[i := s'],
        w_calls := w_calls w @ [HandlerCall f (Some msg) None]\<rparr>) \<and>
    usable s' \<and> sched_queued s' = [] \<and>
    sched_plan s' = (case ho of Some (Some h) \<Rightarrow> filter (\<lambda>en. fst en \<noteq> h) (sched_plan (w_scheds w ! i)) | _ \<Rightarrow> sched_plan (w_scheds w ! i))"
proof -
  let ?s0 = "w_scheds w ! i"
  let ?w1 = "w\<lparr>w_scheds := (w_scheds w)[i := tl_action ?s0]\<rparr>"
  let ?ep' = "fold learnNode (CloserNodes r) (close_stream sid ep)"
  have ep1: "endpointAt ?w1 e = Some ep" using ep by (simp add: endpointAt_def split: if_splits)
  have s1: "usable (tl_action ?s0)" "sched_queued (tl_action ?s0) = []" "has_room (tl_action ?s0)"
    using s q by (simp_all add: usable_simps)
  have "\<exists>s1. (case map_of (ep_streamTimeout ep) sid of
        Some timeout \<Rightarrow> map_option fst (onSched (ep_sched ep) (\<lambda>sw. schRemovePlannedAction netSched sw timeout) ?w1)
      | None \<Rightarrow> Some ?w1) = Some (w\<lparr>w_scheds := (w_scheds w)[i := s1]\<rparr>) \<and> usable s1 \<and> sched_queued s1 = [] \<and>
    sched_plan s1 = (case ho of Some (Some h) \<Rightarrow> filter (\<lambda>en. fst en \<noteq> h) (sched_plan ?s0) | _ \<Rightarrow> sched_plan ?s0)"
  proof (cases ho)
    case None
    with ho s1 show ?thesis by (intro exI [of _ "tl_action ?s0"]) (simp add: usable_simps)
  next
    case (Some ho')
    with ho(2) obtain h where h: "ho' = Some h" by blast
    have "has_room (w_scheds ?w1 ! i)" using s1(3) i by simp
    from remove_forward [of i ?w1 h] i this obtain p' b where
      R: "onSched i (\<lambda>sw. schRemovePlannedAction netSched sw (Some h)) ?w1 =
          Some (?w1\<lparr>w_scheds := (w_scheds ?w1)[i := (tl_action ?s0)\<lparr>ss_planner := p'\<rparr>]\<rparr>, b)"
        "has_room ((tl_action ?s0)\<lparr>ss_planner := p'\<rparr>)" "simple_plan p' = filter (\<lambda>e. fst e \<noteq> h) (sched_plan ?s0)"
      by (auto simp: usable_simps)
    moreover have "usable ((tl_action ?s0)\<lparr>ss_planner := p'\<rparr>)" using R(2) s1(1) by (auto simp: usable_def has_room_def)
    ultimately show ?thesis using Some h ho(1) wait(2) s1(2)
      by (intro exI [of _ "(tl_action ?s0)\<lparr>ss_planner := p'\<rparr>"]) simp
  qed
  then obtain s1 where s1: "(case map_of (ep_streamTimeout ep) sid of
        Some timeout \<Rightarrow> map_option fst (onSched (ep_sched ep) (\<lambda>sw. schRemovePlannedAction netSched sw timeout) ?w1)
      | None \<Rightarrow> Some ?w1) = Some (w\<lparr>w_scheds := (w_scheds w)[i := s1]\<rparr>)" "usable s1" "sched_queued s1 = []"
    "sched_plan s1 = (case ho of Some (Some h) \<Rightarrow> filter (\<lambda>en. fst en \<noteq> h) (sched_plan ?s0) | _ \<Rightarrow> sched_plan ?s0)" by blast
  let ?w2 = "w\<lparr>w_scheds := (w_scheds w)[i := s1], w_endpoints := (w_endpoints w)[e := ?ep']\<rparr>"
  let ?w3 = "?w2\<lparr>w_scheds := (w_scheds w)[i := put_action (ResponseAction (Some f) (Some msg) None) s1]\<rparr>"
  have "ep_sched ?ep' = i"
    using wait(2) by (simp add: fold_learn_sched close_stream_def)
  moreover have "enqueueOn netSched i (ResponseAction (Some f) (Some msg) None) ?w2 = Some ?w3"
    using enqueue_forward [of i ?w2] i s1(2,3) by (simp add: usable_simps)
  ultimately have "handleResponseMessage netSched e ep sid (Some f) msg ?w1 = Some ?w3"
    using s1(1) r by (simp add: handleResponseMessage_def close_stream_def [symmetric] setEndpoint_def)
  then have "runAction netSched serve (DeliverAction frm to p sid msg) ?w1 = Some ?w3"
    using to ep1 wait(1) by (simp add: HandleMessage_def)
  then have one: "netStep serve (RunOp i) w = Some ?w3"
    using RunOne_forward [OF i _ q pl, of serve] s by (simp add: usable_def)
  have w3: "w_scheds ?w3 ! i = put_action (ResponseAction (Some f) (Some msg) None) s1" "i < length (w_scheds ?w3)"
    using i by simp_all
  have "set (sched_plan s1) \<subseteq> set (sched_plan ?s0)" by (auto simp: s1(4) split: option.splits)
  then have "\<forall>en \<in> set (sched_plan (w_scheds ?w3 ! i)). w_now ?w3 < due en" using pl i by auto
  moreover have "scheduler_inv (w_scheds ?w3 ! i)" "sched_queued (w_scheds ?w3 ! i) = [ResponseAction (Some f) (Some msg) None]"
    using usable_simps(2) [OF s1(2,3)] s1(3) i by (simp_all add: usable_def)
  ultimately have "netStep serve (RunOp i) ?w3 = Some (?w2\<lparr>w_calls := w_calls w @ [HandlerCall f (Some msg) None]\<rparr>)"
    using RunOne_forward [OF w3(2), of _ "[]" serve] s1(3) i by simp
  moreover have "?w3 = w\<lparr>w_endpoints := (w_endpoints w)[e := ?ep'],
      w_scheds := (w_scheds w)[i := put_action (ResponseAction (Some f) (Some msg) None) s1]\<rparr>" by simp
  moreover have "?w2\<lparr>w_calls := w_calls w @ [HandlerCall f (Some msg) None]\<rparr> = w\<lparr>w_endpoints := (w_endpoints w)[e := ?ep'],
      w_scheds := (w_scheds w)[i := s1], w_calls := w_calls w @ [HandlerCall f (Some msg) None]\<rparr>"
    by (rule World.equality) simp_all
  ultimately show ?thesis using one s1 by (intro exI [of _ s1]) (simp only: simp_thms)
qed


lemma open_stream_sel:
  "map_of (ep_streamFollowup (open_stream sid g to ep)) sid = Some g"
  "map_of (ep_streamTimeout (open_stream sid g (Some h) ep)) sid = Some h"
  "ep_streamTimeout (open_stream sid g None ep) = ep_streamTimeout ep"
  "ep_sched (open_stream sid g to ep) = ep_sched ep"
  by (simp_all add: open_stream_def Let_def update_conv' split: option.split)

lemma request_forward:
  assumes w: "net.net_inv {} w" and small: "unat (r_currStream (w_router w)) + 1 < 2 ^ 64"
    and r: "ready_pair a b n j w" and t: "0 \<le> timeout"
    and hq: "map_of (ep_serverProtos (w_endpoints w ! b)) p = Some (Some hq)"
    and serve: "\<forall>v. length (w_endpoints v) = length (w_endpoints w) \<longrightarrow> w_endpoints v ! b = w_endpoints w ! b \<longrightarrow>
      w_app v = w_app w \<longrightarrow> serve hq v (ep_self (w_endpoints w ! a)) req = Some (Inr reply)"
    and resp: "asResponse reply = Some resp"
  shows "\<exists>w1 w2 w3 w'. netStep serve (SendOp a p n req timeout (Some f)) w = Some w1 \<and>
      netStep serve (RunOp j) w1 = Some w2 \<and> netStep serve (RunOp (ep_sched (w_endpoints w ! a))) w2 = Some w3 \<and>
      netStep serve (RunOp (ep_sched (w_endpoints w ! a))) w3 = Some w' \<and>
      (\<forall>v \<in> {w1, w2, w3, w'}. w_now v = w_now w \<and> settled (ep_sched (w_endpoints w ! a)) v \<and> settled j v) \<and>
      map (busy (ep_sched (w_endpoints w ! a))) [w1, w2, w3, w'] = [False, True, True, False] \<and>
      map (busy j) [w1, w2, w3, w'] = [True, False, False, False] \<and>
      w_calls w' = w_calls w @ [HandlerCall f (Some reply) None] \<and>
      w_endpoints w' = (w_endpoints w)[a := fold learnNode (CloserNodes resp) (fst (DialPeer (w_endpoints w ! a) n))] \<and>
      sched_acts (w_scheds w' ! j) = [] \<and> sched_acts (w_scheds w' ! ep_sched (w_endpoints w ! a)) = []"
proof -
  let ?ea = "w_endpoints w ! a" and ?eb = "w_endpoints w ! b" and ?sid = "r_currStream (w_router w)"
  let ?i = "ep_sched ?ea"
  obtain to ea1 ho s where send: "netStep serve (SendOp a p n req timeout (Some f)) w = Some (w\<lparr>
      w_router := (w_router w)\<lparr>r_currStream := ?sid + 1\<rparr>,
      w_scheds := (w_scheds w)[j := put_action (DeliverAction (ep_self ?ea) to p ?sid req) (w_scheds w ! j), ?i := s],
      w_endpoints := (w_endpoints w)[a := open_stream ?sid (Some f) ho ea1]\<rparr>)"
    and to: "nodeString to = nodeString n" and ea1: "fst (DialPeer ?ea n) = ea1" and s: "usable s" "sched_queued s = []"
    and plan: "case ho of None \<Rightarrow> sched_plan s = []
      | Some ho' \<Rightarrow> \<exists>h. ho' = Some h \<and> 0 < timeout \<and> sched_plan s = [(h, w_now w + timeout, TimeoutAction a ?sid)]"
    using send_forward [OF w small r t, of serve p req f] by blast
  let ?d = "DeliverAction (ep_self ?ea) to p ?sid req" and ?d' = "DeliverAction (ep_self ?eb) (ep_self ?ea) p ?sid reply"
  let ?w1 = "w\<lparr>w_router := (w_router w)\<lparr>r_currStream := ?sid + 1\<rparr>,
    w_scheds := (w_scheds w)[j := put_action ?d (w_scheds w ! j), ?i := s],
    w_endpoints := (w_endpoints w)[a := open_stream ?sid (Some f) ho ea1]\<rparr>"
  let ?w2 = "?w1\<lparr>w_scheds := (w_scheds ?w1)[j := tl_action (w_scheds ?w1 ! j), ?i := put_action ?d' (w_scheds ?w1 ! ?i)]\<rparr>"
  have at: "attached a (ep_self ?ea) ?i w" "attached b n j w" "?i \<noteq> j" "a \<noteq> b" using r by (simp_all add: ready_pair_def)
  have lens: "a < length (w_endpoints w)" "b < length (w_endpoints w)" "?i < length (w_scheds w)" "j < length (w_scheds w)"
    using at(1,2) by (simp_all add: attached_def)
  have epa: "endpointAt w a = Some ?ea" and epb: "endpointAt w b = Some ?eb" using lens by (simp_all add: endpointAt_def)
  have sid0: "?sid \<noteq> 0" using w by (simp add: net.net_inv_def router_ok_def)
  have newb: "map_of (ep_streamFollowup ?eb) ?sid = None"
    using net.net_inv_endpoint(1) [OF w epb] unfolding ep_static_def map_of_eq_None_iff by blast
  have later: "\<forall>en \<in> set (sched_plan s). w_now w < due en" using plan by (auto split: option.splits)
  have sj: "w_scheds ?w1 ! j = put_action ?d (w_scheds w ! j)" "w_scheds ?w1 ! ?i = s" using lens at(3) by simp_all
  have jq: "usable (w_scheds w ! j)" "sched_queued (w_scheds w ! j) = []" "sched_plan (w_scheds w ! j) = []"
    using at(2) by (simp_all add: attached_def)
  have two: "netStep serve (RunOp j) ?w1 = Some ?w2"
  proof (rule answer_forward [where to = to and e = b and ep = ?eb and hq = hq and e' = a and msg = req])
    show "scheduler_inv (w_scheds ?w1 ! j)" unfolding sj using usable_simps(2) [OF jq(1,2)] by (simp add: usable_def)
    show "sched_queued (w_scheds ?w1 ! j) = [?d]" unfolding sj using jq by simp
    show "\<forall>en \<in> set (sched_plan (w_scheds ?w1 ! j)). w_now ?w1 < due en" unfolding sj using jq by simp
    show "endpointAt ?w1 b = Some ?eb" using lens at(4) by (simp add: endpointAt_def)
    show "serve hq (?w1\<lparr>w_scheds := (w_scheds ?w1)[j := tl_action (w_scheds ?w1 ! j)]\<rparr>) (ep_self ?ea) req = Some (Inr reply)"
      using at(4) by (intro serve [rule_format]) simp_all
    show "has_room (w_scheds ?w1 ! ?i)" unfolding sj using s by (simp add: usable_simps)
  qed (use at lens to newb hq sid0 in \<open>simp_all add: attached_def\<close>)
  have si: "w_scheds ?w2 ! ?i = put_action ?d' s" using lens at(3) by simp
  obtain err where d: "DialPeer ?ea n = (ea1, err)" using ea1 by (cases "DialPeer ?ea n") simp
  note D = DialPeer_law [OF d net.net_inv_endpoint(1) [OF w epa]]
  have fresh: "map_of (ep_streamTimeout ea1) ?sid = None"
  proof -
    have "?sid \<notin> fst ` set (ep_streamFollowup ea1)" using D(1) unfolding ep_static_def by blast
    then have "?sid \<notin> fst ` set (ep_streamTimeout ea1)" using D(1) unfolding ep_static_def by blast
    then show ?thesis by (simp add: map_of_eq_None_iff)
  qed
  let ?ep' = "fold learnNode (CloserNodes resp) (close_stream ?sid (open_stream ?sid (Some f) ho ea1))"
  let ?w3 = "\<lambda>s'. ?w2\<lparr>w_endpoints := (w_endpoints ?w2)[a := ?ep'],
      w_scheds := (w_scheds ?w2)[?i := put_action (ResponseAction (Some f) (Some reply) None) s']\<rparr>"
  let ?w4 = "\<lambda>s'. ?w2\<lparr>w_endpoints := (w_endpoints ?w2)[a := ?ep'], w_scheds := (w_scheds ?w2)[?i := s'],
      w_calls := w_calls ?w2 @ [HandlerCall f (Some reply) None]\<rparr>"
  have "\<exists>s'. netStep serve (RunOp ?i) ?w2 = Some (?w3 s') \<and> netStep serve (RunOp ?i) (?w3 s') = Some (?w4 s') \<and>
    usable s' \<and> sched_queued s' = [] \<and>
    sched_plan s' = (case ho of
      Some (Some h) \<Rightarrow> filter (\<lambda>en. fst en \<noteq> h) (sched_plan (w_scheds ?w2 ! ?i)) | _ \<Rightarrow> sched_plan (w_scheds ?w2 ! ?i))"
  proof (rule response_forward [where sid = ?sid])
    show "usable (w_scheds ?w2 ! ?i)" unfolding si by (rule usable_simps(2) [OF s])
    show "sched_queued (w_scheds ?w2 ! ?i) = [?d']" unfolding si using s by simp
    show "\<forall>en \<in> set (sched_plan (w_scheds ?w2 ! ?i)). w_now ?w2 < due en" unfolding si using later by simp
    show "endpointAt ?w2 a = Some (open_stream ?sid (Some f) ho ea1)" using lens by (simp add: endpointAt_def)
    show "map_of (ep_streamTimeout (open_stream ?sid (Some f) ho ea1)) ?sid = ho"
      using fresh by (cases ho) (simp_all add: open_stream_sel)
    show "\<exists>h. ho' = Some h" if "ho = Some ho'" for ho' using plan that by auto
  qed (use at lens resp D(4) in \<open>simp_all add: attached_def open_stream_sel\<close>)
  then obtain s' where three: "netStep serve (RunOp ?i) ?w2 = Some (?w3 s')" "netStep serve (RunOp ?i) (?w3 s') = Some (?w4 s')"
    "usable s'" "sched_queued s' = []"
    "sched_plan s' = (case ho of
      Some (Some h) \<Rightarrow> filter (\<lambda>en. fst en \<noteq> h) (sched_plan (w_scheds ?w2 ! ?i)) | _ \<Rightarrow> sched_plan (w_scheds ?w2 ! ?i))"
    by (elim exE conjE) (rule that)
  have closed: "close_stream ?sid (open_stream ?sid (Some f) ho ea1) = ea1" by (rule close_open [OF D(1)])
  have idle: "sched_plan s' = []" using three(5) plan unfolding si by (auto split: option.splits)
  have ok: "scheduler_inv s" "scheduler_inv (put_action ?d' s)" "scheduler_inv s'"
      "scheduler_inv (put_action (ResponseAction (Some f) (Some reply) None) s')"
      "scheduler_inv (w_scheds w ! j)" "scheduler_inv (put_action ?d (w_scheds w ! j))"
    using s(1) three(3) jq(1) usable_simps(2) [OF s] usable_simps(2) [OF three(3,4)] usable_simps(2) [OF jq(1,2)]
    by (simp_all add: usable_def)
  have calm: "\<forall>v \<in> {?w1, ?w2, ?w3 s', ?w4 s'}. w_now v = w_now w \<and> settled ?i v \<and> settled j v"
    using lens at(3) jq later idle ok by (simp add: settled_def)
  have turns: "map (busy ?i) [?w1, ?w2, ?w3 s', ?w4 s'] = [False, True, True, False]"
    "map (busy j) [?w1, ?w2, ?w3 s', ?w4 s'] = [True, False, False, False]"
    using lens at(3) jq s three(4) by (simp_all add: busy_def)
  have final: "w_calls (?w4 s') = w_calls w @ [HandlerCall f (Some reply) None]"
    "w_endpoints (?w4 s') = (w_endpoints w)[a := fold learnNode (CloserNodes resp) (fst (DialPeer ?ea n))]"
    "sched_acts (w_scheds (?w4 s') ! j) = []" "sched_acts (w_scheds (?w4 s') ! ?i) = []"
    using lens at(3) jq three(4) idle closed ea1 by (simp_all add: nets.acts_def)
  show ?thesis
    by (intro exI conjI) (rule send two three(1,2) calm turns final)+
qed


section \<open>What an action leaves alone\<close>

text \<open>The calls of the network keep the schedulers in order, and they leave the clock and the program's
  own state alone.\<close>

definition scheds_inv :: "('k, 'a, 'm, 'f, 'q, 'x, 'u) NetWorld \<Rightarrow> bool" where
  "scheds_inv w \<longleftrightarrow> list_all scheduler_inv (w_scheds w)"

definition keeps :: "('k, 'a, 'm, 'f, 'q, 'x, 'u) NetWorld \<Rightarrow> ('k, 'a, 'm, 'f, 'q, 'x, 'u) NetWorld \<Rightarrow> bool" where
  "keeps w w' \<longleftrightarrow>
     w_app w' = w_app w \<and> w_now w' = w_now w \<and> length (w_scheds w') = length (w_scheds w) \<and>
     (scheds_inv w \<longrightarrow> scheds_inv w')"

lemma keeps_refl [simp]: "keeps w w"
  by (simp add: keeps_def)

lemma keeps_trans [trans]: "keeps w v \<Longrightarrow> keeps v u \<Longrightarrow> keeps w u"
  by (simp add: keeps_def)

lemma keeps_update [simp]: "keeps w (w\<lparr>w_router := r\<rparr>)" "keeps w (w\<lparr>w_calls := c\<rparr>)" "keeps w (setEndpoint e ep w)"
  "keeps w (setEndpoint e ep w\<lparr>w_calls := c\<rparr>)"
  by (simp_all add: keeps_def scheds_inv_def setEndpoint_def)

lemma keeps_set_sched: "(scheduler_inv (w_scheds w ! i) \<Longrightarrow> scheduler_inv s) \<Longrightarrow> keeps w (w\<lparr>w_scheds := (w_scheds w)[i := s]\<rparr>)"
  by (cases "i < length (w_scheds w)") (auto simp: keeps_def scheds_inv_def list_all_length nth_list_update)

lemma keeps_onSched:
  assumes "onSched i op w = Some (w', r)" and "\<And>s' t. op (w_scheds w ! i, w_now w) = Some ((s', t), r) \<Longrightarrow>
    scheduler_inv (w_scheds w ! i) \<Longrightarrow> scheduler_inv s'"
  shows "keeps w w'"
proof -
  obtain s' t where op: "op (w_scheds w ! i, w_now w) = Some ((s', t), r)" and w': "w' = w\<lparr>w_scheds := (w_scheds w)[i := s']\<rparr>"
    using assms(1) by (auto simp: onSched_def bind_eq_Some split: if_splits)
  show ?thesis unfolding w' by (rule keeps_set_sched) (rule assms(2) [OF op])
qed

lemma keeps_enqueueOn:
  assumes "enqueueOn netSched i a w = Some w'"
  shows "keeps w w'"
proof -
  obtain r where r: "onSched i (\<lambda>sw. map_option (\<lambda>sw'. (sw', ())) (schEnqueueAction netSched sw a)) w = Some (w', r)"
    using assms by (auto simp: enqueueOn_def)
  show ?thesis
  proof (rule keeps_onSched [OF r])
    fix s' t
    assume "map_option (\<lambda>sw'. (sw', ())) (schEnqueueAction netSched (w_scheds w ! i, w_now w) a) = Some ((s', t), r)"
      and s: "scheduler_inv (w_scheds w ! i)"
    then have "schEnqueueAction netSched (w_scheds w ! i, w_now w) a = Some (s', t)" by auto
    from nets.enqueue_law [OF s this] show "scheduler_inv s'" by blast
  qed
qed

lemma keeps_scheduleOn:
  assumes "onSched i (\<lambda>sw. ScheduleActionIn netSched sw d a) w = Some (w', r)"
  shows "keeps w w'"
proof (rule keeps_onSched [OF assms])
  fix s' t
  assume q: "ScheduleActionIn netSched (w_scheds w ! i, w_now w) d a = Some ((s', t), r)" and s: "scheduler_inv (w_scheds w ! i)"
  from nets.ScheduleActionIn_law [OF s q] show "scheduler_inv s'" by blast
qed

lemma keeps_removeOn:
  assumes "onSched i (\<lambda>sw. schRemovePlannedAction netSched sw t) w = Some (w', r)"
  shows "keeps w w'"
proof (rule keeps_onSched [OF assms])
  fix s' u
  assume q: "schRemovePlannedAction netSched (w_scheds w ! i, w_now w) t = Some ((s', u), r)" and s: "scheduler_inv (w_scheds w ! i)"
  show "scheduler_inv s'"
  proof (cases t)
    case None
    with q nets.remove_nil [OF s, of "w_now w"] s show ?thesis by simp
  next
    case (Some h)
    with q nets.remove_law [OF s, of "w_now w" h] show ?thesis by auto
  qed
qed

lemma keeps_SendMessage:
  assumes "Router_SendMessage netSched frm to p sid msg w = Some (w', r)"
  shows "keeps w w'"
proof -
  have "w' = w \<or> (\<exists>i a v. keeps w v \<and> enqueueOn netSched i a v = Some w')"
    using assms keeps_refl keeps_update(1) unfolding Router_SendMessage_def
    by (cases "sid = 0") (fastforce simp: bind_eq_Some Let_def split: option.splits)+
  then show ?thesis using keeps_enqueueOn keeps_trans keeps_refl by blast
qed

lemma keeps_registerStream:
  assumes "registerStream netSched e ep sid timeout g w = Some w'"
  shows "keeps w w'"
proof (cases "timeout = 0")
  case False
  with assms obtain v h ep' where
    "onSched (ep_sched ep) (\<lambda>sw. ScheduleActionIn netSched sw timeout (TimeoutAction e sid)) w = Some (v, h)"
    "w' = setEndpoint e ep' v" by (auto simp: registerStream_def Let_def bind_eq_Some)
  then show ?thesis using keeps_trans [OF keeps_scheduleOn keeps_update(3)] by blast
qed (use assms in \<open>auto simp: registerStream_def\<close>)

lemma keeps_Send:
  assumes "SendRequestHandleResponse netSched e p n req timeout g w = Some (w', er)"
  shows "keeps w w'"
proof -
  obtain ep where ep: "endpointAt w e = Some ep"
    using assms by (auto simp: SendRequestHandleResponse_def bind_eq_Some)
  obtain ep1 d where d: "DialPeer ep n = (ep1, d)" by fastforce
  show ?thesis
  proof (cases d)
    case (Some err)
    with assms ep d show ?thesis by (auto simp: SendRequestHandleResponse_def bind_eq_Some dest: keeps_enqueueOn)
  next
    case None
    with assms ep d obtain addr where addr: "map_of (ep_peerstore ep1) (nodeString n) = Some addr" "ep_router ep1"
      by (auto simp: SendRequestHandleResponse_def bind_eq_Some split: if_splits)
    with assms ep d None obtain w2 sent where
      snd: "Router_SendMessage netSched (ep_self ep1) (infoID addr) p 0 req (setEndpoint e ep1 w) = Some (w2, sent)"
      by (auto simp: SendRequestHandleResponse_def bind_eq_Some)
    have "keeps w w2" by (rule keeps_trans [OF keeps_update(3) keeps_SendMessage [OF snd]])
    moreover have "keeps w2 w'"
      using assms ep d None addr snd
      by (cases sent) (auto simp: SendRequestHandleResponse_def bind_eq_Some dest!: keeps_enqueueOn keeps_registerStream)
    ultimately show ?thesis by (rule keeps_trans)
  qed
qed

lemma keeps_handleResponse:
  assumes "handleResponseMessage netSched e ep sid g msg w = Some w'"
  shows "keeps w w'"
proof -
  obtain w1 where w1: "(case map_of (ep_streamTimeout ep) sid of
      Some t \<Rightarrow> map_option fst (onSched (ep_sched ep) (\<lambda>sw. schRemovePlannedAction netSched sw t) w) | None \<Rightarrow> Some w) = Some w1"
    using assms by (auto simp: handleResponseMessage_def bind_eq_Some)
  have "keeps w w1" using w1 by (auto dest!: keeps_removeOn split: option.splits)
  moreover have "keeps w1 w'"
    using assms w1 unfolding handleResponseMessage_def
    by (cases "asResponse msg"; cases g) (auto simp: Let_def dest!: keeps_enqueueOn intro: keeps_trans [OF keeps_update(3)])
  ultimately show ?thesis by (rule keeps_trans)
qed

lemma keeps_HandleMessage:
  assumes "HandleMessage netSched serve e n p sid msg w = Some w'"
  shows "keeps w w'"
proof -
  obtain ep where ep: "endpointAt w e = Some ep" using assms by (auto simp: HandleMessage_def bind_eq_Some)
  show ?thesis
  proof (cases "map_of (ep_streamFollowup ep) sid")
    case (Some g)
    with assms ep show ?thesis by (auto simp: HandleMessage_def dest: keeps_handleResponse)
  next
    case None
    show ?thesis
    proof (cases "\<exists>q. map_of (ep_serverProtos ep) p = Some (Some q)")
      case True
      then obtain q answer where q: "map_of (ep_serverProtos ep) p = Some (Some q)" "serve q w n msg = Some answer"
        using assms ep None by (auto simp: HandleMessage_def bind_eq_Some)
      with assms ep None show ?thesis
        by (cases answer) (auto simp: HandleMessage_def dest: keeps_SendMessage split: if_splits)
    qed (use assms ep None in \<open>auto simp: HandleMessage_def split: option.splits\<close>)
  qed
qed

lemma keeps_runTimeout:
  assumes "runTimeout e sid w = Some w'"
  shows "keeps w w'"
proof -
  obtain ep where ep: "endpointAt w e = Some ep" using assms by (auto simp: runTimeout_def bind_eq_Some)
  then show ?thesis
    using assms by (cases "\<exists>g. map_of (ep_streamFollowup ep) sid = Some (Some g)")
      (auto simp: runTimeout_def Let_def split: option.splits)
qed

lemma keeps_runAction: "runAction netSched serve a w = Some w' \<Longrightarrow> keeps w w'"
  by (cases a) (auto simp: bind_eq_Some dest: keeps_HandleMessage keeps_runTimeout)

text \<open>One action that a scheduler runs, and the question for the next one.\<close>

lemma keeps_RunOne:
  assumes "World_RunOne serve i w = Some (w', did)"
  shows "keeps w w'"
proof -
  obtain t v where i: "i < length (w_scheds w)"
    and r: "SimpleScheduler_RunOne ChanQueue_methods SimplePlanner_methods (runOn serve i) w_now (w_scheds w ! i, w) = Some ((t, v), did)"
    and w': "w' = v\<lparr>w_scheds := (w_scheds v)[i := t]\<rparr>"
    using assms by (auto simp: World_RunOne_def bind_eq_Some split: if_splits)
  obtain s1 where m: "moveOverdueActions ChanQueue_methods SimplePlanner_methods (w_now w) (w_scheds w ! i) = Some s1"
    using r by (cases "moveOverdueActions ChanQueue_methods SimplePlanner_methods (w_now w) (w_scheds w ! i)")
      (simp_all add: SimpleScheduler_RunOne_def)
  let ?s' = "s1\<lparr>ss_queue := (ss_queue s1)\<lparr>cq_queue := tl (sched_queued s1)\<rparr>\<rparr>"
  have k: "keeps w (w\<lparr>w_scheds := (w_scheds w)[i := ?s']\<rparr>)"
  proof (rule keeps_set_sched)
    assume "scheduler_inv (w_scheds w ! i)"
    from move_taken(1) [OF this m] show "scheduler_inv ?s'" by (auto simp: scheduler_inv_def chan_inv_def)
  qed
  show ?thesis
  proof (cases "sched_queued s1")
    case Nil
    then have "t = ?s'" "v = w"
      using r m by (auto simp: SimpleScheduler_RunOne_def ChanQueue_methods_def ChanQueue_Dequeue_def ChanQueue_Empty_def)
    with k w' show ?thesis by simp
  next
    case (Cons a rest)
    then have "runOn serve i a (?s', w) = Some (t, v)"
      using r m by (auto simp: SimpleScheduler_RunOne_def ChanQueue_methods_def ChanQueue_Dequeue_def ChanQueue_Empty_def bind_eq_Some)
    then have "runAction netSched serve a (w\<lparr>w_scheds := (w_scheds w)[i := ?s']\<rparr>) = Some w'"
      using w' by (auto simp: runOn_def bind_eq_Some)
    from keeps_trans [OF k keeps_runAction [OF this]] show ?thesis .
  qed
qed

lemma keeps_Poll:
  assumes "World_NextActionTime i w = Some (w', t)"
  shows "keeps w w'"
proof -
  obtain s where w': "w' = w\<lparr>w_scheds := (w_scheds w)[i := s]\<rparr>"
    and m: "moveOverdueActions ChanQueue_methods SimplePlanner_methods (w_now w) (w_scheds w ! i) = Some s"
    using assms by (auto simp: World_NextActionTime_def SimpleScheduler_NextActionTime_def Let_def bind_eq_Some split: if_splits)
  show ?thesis unfolding w' by (rule keeps_set_sched) (rule move_taken(1) [OF _ m])
qed

lemma app_netStep:
  assumes "netStep serve op w = Some w'" "\<And>u. op \<noteq> AppOp u"
  shows "w_app w' = w_app w"
proof -
  have "w_app w' = w_app w \<or> keeps w w'"
    using assms by (cases op) (auto simp: bind_eq_Some onEndpoint_def setEndpoint_def NewEndpoint_def Let_def
      dest: keeps_RunOne keeps_Send keeps_scheduleOn keeps_enqueueOn keeps_Poll split: if_splits)
  then show ?thesis by (auto simp: keeps_def)
qed

lemma app_netRun:
  "netRun serve ops w = Some w' \<Longrightarrow> list_all (\<lambda>op. case op of AppOp _ \<Rightarrow> False | _ \<Rightarrow> True) ops \<Longrightarrow> w_app w' = w_app w"
proof (induction ops arbitrary: w)
  case (Cons op ops)
  then obtain w1 where w1: "netStep serve op w = Some w1" "netRun serve ops w1 = Some w'" by (auto simp: bind_eq_Some)
  have "w_app w1 = w_app w" by (rule app_netStep [OF w1(1)]) (use Cons.prems(2) in auto)
  with Cons.IH [OF w1(2)] Cons.prems(2) show ?case by simp
qed simp

end
