(* ===== verification/Simulator.thy ===== *)
theory Simulator
  imports Event_Planner
begin

text \<open>
  The simulator of \<open>sim/simulator.go\<close>: it runs the actions of a set of schedulers in the order of
  their times, on a clock that it sets itself.

  \<^item> A scheduler is an identifier of type \<open>'i\<close>, as the code compares them by identity; what its methods
    do to the world \<open>'w\<close>, and the mock clock, is the record \<open>SimMethods\<close>. A panic is \<open>None\<close>.
  \<^item> The loops of \<open>Run\<close> need not end; they are partial functions, and \<open>None\<close> is also the result of a
    run that does not end.
  \<^item> The schedulers of the simulator do not change during \<open>Run\<close>: the actions have no access to it.
\<close>

section \<open>The set of schedulers\<close>

record ('s, 'i) Simulator =
  simAdd :: "'s \<Rightarrow> 'i \<Rightarrow> 's"
  simRemove :: "'s \<Rightarrow> 'i \<Rightarrow> 's option"

fun AddSchedulers :: "('s, 'i) Simulator \<Rightarrow> 's \<Rightarrow> 'i list \<Rightarrow> 's" where
  "AddSchedulers S s [] = s"
| "AddSchedulers S s (sched # rest) = AddSchedulers S (simAdd S s sched) rest"

fun RemoveSchedulers :: "('s, 'i) Simulator \<Rightarrow> 's \<Rightarrow> 'i list \<Rightarrow> 's option" where
  "RemoveSchedulers S s [] = Some s"
| "RemoveSchedulers S s (sched # rest) = do { s' \<leftarrow> simRemove S s sched; RemoveSchedulers S s' rest }"

record 'i LiteSimulator =
  ls_schedulers :: "'i list"

definition NewLiteSimulator :: "'i LiteSimulator" where
  "NewLiteSimulator = \<lparr>ls_schedulers = []\<rparr>"

definition LiteSimulator_Add :: "'i LiteSimulator \<Rightarrow> 'i \<Rightarrow> 'i LiteSimulator" where
  "LiteSimulator_Add s sched = s\<lparr>ls_schedulers := ls_schedulers s @ [sched]\<rparr>"

text \<open>The loop of \<open>Remove\<close> ranges over the slice as it was, an array \<open>arr\<close>; \<open>append\<close> shifts the
  entries within this array, of which the slice \<open>s.schedulers\<close> is the first \<open>m\<close> entries. Slicing from
  \<open>i + 1\<close> panics when that is more than \<open>m\<close>.\<close>

function removeSched :: "'i \<Rightarrow> nat \<Rightarrow> 'i list \<Rightarrow> nat \<Rightarrow> ('i list \<times> nat) option" where
  "removeSched sched i arr m =
     (if length arr \<le> i then Some (arr, m)
      else if arr ! i = sched
      then (if m < i + 1 then None
            else removeSched sched (i + 1) (take i arr @ drop (i + 1) (take m arr) @ drop (m - 1) arr) (m - 1))
      else removeSched sched (i + 1) arr m)"
  by pat_completeness auto
termination
  by (relation "measure (\<lambda>(_, i, arr, _). length arr - i)") auto

declare removeSched.simps [simp del]

definition LiteSimulator_Remove :: "'i LiteSimulator \<Rightarrow> 'i \<Rightarrow> 'i LiteSimulator option" where
  "LiteSimulator_Remove s sched = do {
     (arr, m) \<leftarrow> removeSched sched 0 (ls_schedulers s) (length (ls_schedulers s));
     Some (s\<lparr>ls_schedulers := take m arr\<rparr>)
   }"

definition LiteSimulator_methods :: "('i LiteSimulator, 'i) Simulator" where
  "LiteSimulator_methods = \<lparr>simAdd = LiteSimulator_Add, simRemove = LiteSimulator_Remove\<rparr>"

section \<open>The run\<close>

record ('i, 'w) SimMethods =
  smRunOne :: "'i \<Rightarrow> 'w \<Rightarrow> 'w option"
  smNextActionTime :: "'i \<Rightarrow> 'w \<Rightarrow> ('w \<times> time) option"
  smNow :: "'w \<Rightarrow> time"
  smSet :: "time \<Rightarrow> 'w \<Rightarrow> 'w"

fun nextTimes :: "('i, 'w) SimMethods \<Rightarrow> 'i list \<Rightarrow> 'w \<Rightarrow> ('w \<times> time list) option" where
  "nextTimes M [] w = Some (w, [])"
| "nextTimes M (sched # rest) w = do {
     (w1, t) \<leftarrow> smNextActionTime M sched w;
     (w2, ts) \<leftarrow> nextTimes M rest w1;
     Some (w2, t # ts)
   }"

fun minTimeLoop :: "time list \<Rightarrow> time \<Rightarrow> time" where
  "minTimeLoop [] minTime = minTime"
| "minTimeLoop (t # ts) minTime = minTimeLoop ts (if t < minTime then t else minTime)"

definition upNextAt :: "time \<Rightarrow> time list \<Rightarrow> nat list" where
  "upNextAt minTime nextActions = filter (\<lambda>k. nextActions ! k = minTime) [0..<length nextActions]"

fun runBatch :: "('i, 'w) SimMethods \<Rightarrow> 'i list \<Rightarrow> nat list \<Rightarrow> 'w \<Rightarrow> 'w option" where
  "runBatch M scheds [] w = Some w"
| "runBatch M scheds (k # ks) w =
     (if k < length scheds
      then do { w' \<leftarrow> smRunOne M (scheds ! k) w; runBatch M scheds ks w' }
      else None)"

text \<open>The loop that asks every scheduler again, from position \<open>k\<close> on.\<close>

fun askAgain ::
  "('i, 'w) SimMethods \<Rightarrow> time \<Rightarrow> nat \<Rightarrow> 'i list \<Rightarrow> nat list \<Rightarrow> time list \<Rightarrow> 'w \<Rightarrow> ('w \<times> nat list \<times> time list) option" where
  "askAgain M minTime k [] upNext nextActions w = Some (w, upNext, nextActions)"
| "askAgain M minTime k (sched # rest) upNext nextActions w = do {
     (w', t) \<leftarrow> smNextActionTime M sched w;
     if t = minTime then askAgain M minTime (k + 1) rest (upNext @ [k]) nextActions w'
     else if k < length nextActions then askAgain M minTime (k + 1) rest upNext (nextActions[k := t]) w'
     else None
   }"

partial_function (option) batchLoop ::
  "('i, 'w) SimMethods \<Rightarrow> 'i list \<Rightarrow> time \<Rightarrow> nat list \<Rightarrow> time list \<Rightarrow> 'w \<Rightarrow> ('w \<times> time list) option" where
  "batchLoop M scheds minTime upNext nextActions w =
     (if upNext = [] then Some (w, nextActions)
      else do {
        w1 \<leftarrow> runBatch M scheds upNext w;
        (w2, up', next') \<leftarrow> askAgain M minTime 0 scheds [] nextActions w1;
        batchLoop M scheds minTime up' next' w2
      })"

partial_function (option) dispatchLoop ::
  "('i, 'w) SimMethods \<Rightarrow> 'i list \<Rightarrow> time list \<Rightarrow> 'w \<Rightarrow> 'w option" where
  "dispatchLoop M scheds nextActions w =
     (if nextActions = [] then Some w
      else let minTime = minTimeLoop nextActions MaxTime in
        if minTime = MaxTime then Some w
        else do {
          (w', next') \<leftarrow> batchLoop M scheds minTime (upNextAt minTime nextActions) nextActions
            (if smNow M w < minTime then smSet M minTime w else w);
          dispatchLoop M scheds next' w'
        })"

definition LiteSimulator_Run :: "('i, 'w) SimMethods \<Rightarrow> 'i LiteSimulator \<Rightarrow> 'w \<Rightarrow> 'w option" where
  "LiteSimulator_Run M s w = do {
     (w1, nextActions) \<leftarrow> nextTimes M (ls_schedulers s) w;
     dispatchLoop M (ls_schedulers s) nextActions w1
   }"

section \<open>Removal\<close>

text \<open>The loop from position \<open>i\<close>, when the entries before it are others.\<close>

lemma removeSched_absent:
  "sched \<notin> set (drop i arr) \<Longrightarrow> removeSched sched i arr m = Some (arr, m)"
proof (induction "length arr - i" arbitrary: i)
  case 0
  then show ?case by (simp add: removeSched.simps)
next
  case (Suc n)
  then have i: "i < length arr" by simp
  then have "drop i arr = arr ! i # drop (i + 1) arr" by (simp add: Cons_nth_drop_Suc)
  with Suc.prems have "arr ! i \<noteq> sched" "sched \<notin> set (drop (i + 1) arr)" by auto
  with Suc.hyps i show ?case by (subst removeSched.simps) auto
qed

lemma removeSched_distinct:
  assumes "arr = xs @ sched # ys" "sched \<notin> set xs" "sched \<notin> set ys" "i \<le> length xs"
  shows "\<exists>arr'. removeSched sched i arr (length arr) = Some (arr', length arr - 1) \<and> take (length arr - 1) arr' = xs @ ys"
  using assms(4)
proof (induction "length xs - i" arbitrary: i)
  case 0
  then have i: "i = length xs" by simp
  have "removeSched sched i arr (length arr) =
      removeSched sched (i + 1) (xs @ ys @ drop (length arr - 1) arr) (length arr - 1)"
    using assms(1) i by (subst removeSched.simps) simp
  also have "\<dots> = Some (xs @ ys @ drop (length arr - 1) arr, length arr - 1)"
  proof (rule removeSched_absent)
    have "sched \<notin> set (drop 1 (ys @ drop (length arr - 1) arr))"
    proof (cases ys rule: rev_cases)
      case Nil
      then show ?thesis by (simp add: assms(1))
    next
      case (snoc zs z)
      then have "drop (length arr - 1) arr = [z]" by (simp add: assms(1))
      with snoc assms(3) show ?thesis by (auto dest: in_set_dropD)
    qed
    then show "sched \<notin> set (drop (i + 1) (xs @ ys @ drop (length arr - 1) arr))" by (simp add: i)
  qed
  finally show ?case by (simp add: assms(1))
next
  case (Suc n)
  then have i: "i < length xs" by simp
  then have "arr ! i \<noteq> sched" using assms(1,2) by (auto simp: nth_append in_set_conv_nth)
  with Suc i assms(1) show ?case by (subst removeSched.simps) auto
qed

lemma LiteSimulator_Remove_distinct:
  assumes "distinct (ls_schedulers s)"
  shows "LiteSimulator_Remove s sched = Some (s\<lparr>ls_schedulers := remove1 sched (ls_schedulers s)\<rparr>)"
proof (cases "sched \<in> set (ls_schedulers s)")
  case True
  then obtain xs ys where xs: "ls_schedulers s = xs @ sched # ys" "sched \<notin> set xs" by (meson split_list_first)
  moreover have "sched \<notin> set ys" using assms xs by simp
  ultimately show ?thesis using removeSched_distinct [OF xs(1,2), of 0]
    by (auto simp: LiteSimulator_Remove_def remove1_append)
next
  case False
  then show ?thesis by (simp add: LiteSimulator_Remove_def removeSched_absent remove1_idem)
qed

lemma AddSchedulers_law: "ls_schedulers (AddSchedulers LiteSimulator_methods s scheds) = ls_schedulers s @ scheds"
  by (induction scheds arbitrary: s) (simp_all add: LiteSimulator_methods_def LiteSimulator_Add_def)

lemma RemoveSchedulers_law:
  "distinct (ls_schedulers s) \<Longrightarrow>
   RemoveSchedulers LiteSimulator_methods s scheds = Some (s\<lparr>ls_schedulers := fold remove1 scheds (ls_schedulers s)\<rparr>)"
  by (induction scheds arbitrary: s) (simp_all add: LiteSimulator_methods_def LiteSimulator_Remove_distinct)

lemma fold_remove1_append: "distinct (xs @ ys) \<Longrightarrow> fold remove1 ys (xs @ ys) = xs"
  by (induction ys arbitrary: xs) (auto simp: remove1_append)

lemma Add_Remove:
  assumes "distinct (ls_schedulers s @ scheds)"
  shows "RemoveSchedulers LiteSimulator_methods (AddSchedulers LiteSimulator_methods s scheds) scheds = Some s"
  using RemoveSchedulers_law [of "AddSchedulers LiteSimulator_methods s scheds" scheds] fold_remove1_append [OF assms] assms
  by (simp add: AddSchedulers_law)

lemma Remove_twice: "LiteSimulator_Remove (LiteSimulator_Add (LiteSimulator_Add NewLiteSimulator sched) sched) sched = None"
  by (simp add: LiteSimulator_Remove_def LiteSimulator_Add_def NewLiteSimulator_def removeSched.simps)

section \<open>The order of the run\<close>

text \<open>What the run relies on in the schedulers. \<open>due_at i w\<close> is the time at which \<open>i\<close> has its next action to
  run; asking one scheduler does not change the answer of another.\<close>

locale aware_schedulers =
  fixes M :: "('i, 'w) SimMethods"
    and winv :: "'w \<Rightarrow> bool"
    and due_at :: "'i \<Rightarrow> 'w \<Rightarrow> time"
  assumes next_law: "winv w \<Longrightarrow> smNextActionTime M i w = Some (w', t) \<Longrightarrow>
      winv w' \<and> t = due_at i w \<and> smNow M w' = smNow M w \<and> (\<forall>j. due_at j w' = due_at j w)"
    and run_law: "winv w \<Longrightarrow> smRunOne M i w = Some w' \<Longrightarrow> winv w' \<and> smNow M w' = smNow M w"
    and set_law: "winv w \<Longrightarrow> smNow M w \<le> t \<Longrightarrow> winv (smSet M t w) \<and> smNow M (smSet M t w) = t"
begin

text \<open>A discrete-event simulation: schedulers are asked and run while the clock stands still, and the
  clock only moves to the earliest time at which one of them has an action.\<close>

inductive sim_step :: "'i set \<Rightarrow> 'w \<Rightarrow> 'w \<Rightarrow> bool" for S where
  sim_ask: "i \<in> S \<Longrightarrow> smNextActionTime M i w = Some (w', t) \<Longrightarrow> sim_step S w w'"
| sim_run: "i \<in> S \<Longrightarrow> smRunOne M i w = Some w' \<Longrightarrow> sim_step S w w'"
| sim_tick: "i \<in> S \<Longrightarrow> due_at i w = t \<Longrightarrow> (\<And>j. j \<in> S \<Longrightarrow> t \<le> due_at j w) \<Longrightarrow> smNow M w < t \<Longrightarrow>
    sim_step S w (smSet M t w)"

abbreviation sim_steps :: "'i set \<Rightarrow> 'w \<Rightarrow> 'w \<Rightarrow> bool" where
  "sim_steps S \<equiv> (sim_step S)\<^sup>*\<^sup>*"

lemma nextTimes_law:
  "winv w \<Longrightarrow> nextTimes M xs w = Some (w', ts) \<Longrightarrow> set xs \<subseteq> S \<Longrightarrow>
   winv w' \<and> ts = map (\<lambda>i. due_at i w) xs \<and> smNow M w' = smNow M w \<and> (\<forall>j. due_at j w' = due_at j w) \<and> sim_steps S w w'"
proof (induction xs arbitrary: w w' ts)
  case (Cons x xs)
  then obtain w1 t ts1 where q: "smNextActionTime M x w = Some (w1, t)" "nextTimes M xs w1 = Some (w', ts1)" "ts = t # ts1"
    by (auto simp: bind_eq_Some)
  note N = next_law [OF Cons.prems(1) q(1)]
  have "winv w1" using N by blast
  have "x \<in> S" using Cons.prems(3) by simp
  note step = sim_ask [OF this q(1)]
  have "winv w' \<and> ts1 = map (\<lambda>i. due_at i w1) xs \<and> smNow M w' = smNow M w1 \<and> (\<forall>j. due_at j w' = due_at j w1) \<and> sim_steps S w1 w'"
    using Cons.IH [OF \<open>winv w1\<close> q(2)] Cons.prems(3) by simp
  with N q(3) converse_rtranclp_into_rtranclp [of "sim_step S", OF step] show ?case by simp
qed simp

lemma runBatch_law:
  "winv w \<Longrightarrow> runBatch M xs ks w = Some w' \<Longrightarrow> set xs \<subseteq> S \<Longrightarrow> winv w' \<and> smNow M w' = smNow M w \<and> sim_steps S w w'"
proof (induction ks arbitrary: w)
  case (Cons k ks)
  then obtain w1 where q: "smRunOne M (xs ! k) w = Some w1" "runBatch M xs ks w1 = Some w'" "k < length xs"
    by (auto simp: bind_eq_Some split: if_splits)
  note R = run_law [OF Cons.prems(1) q(1)]
  have "xs ! k \<in> S" using q(3) Cons.prems(3) nth_mem by blast
  note step = sim_run [OF this q(1)]
  have "winv w' \<and> smNow M w' = smNow M w1 \<and> sim_steps S w1 w'" using Cons.IH [OF _ q(2) Cons.prems(3)] R by simp
  with R converse_rtranclp_into_rtranclp [of "sim_step S", OF step] show ?case by simp
qed simp

lemma askAgain_law:
  "winv w \<Longrightarrow> askAgain M minTime k xs up next w = Some (w', up', next') \<Longrightarrow> set xs \<subseteq> S \<Longrightarrow> length next = k + length xs \<Longrightarrow>
   winv w' \<and> smNow M w' = smNow M w \<and> (\<forall>j. due_at j w' = due_at j w) \<and> sim_steps S w w' \<and>
   up' = up @ filter (\<lambda>m. due_at (xs ! (m - k)) w = minTime) [k ..< k + length xs] \<and>
   next' = take k next @ map (\<lambda>m. if due_at (xs ! (m - k)) w = minTime then next ! m else due_at (xs ! (m - k)) w) [k ..< k + length xs]"
proof (induction xs arbitrary: k up "next" w)
  case (Cons x xs)
  obtain w1 t where q: "smNextActionTime M x w = Some (w1, t)"
    using Cons.prems(2) by (auto simp: bind_eq_Some)
  note N = next_law [OF Cons.prems(1) q]
  have t: "t = due_at x w" and w1: "winv w1" "smNow M w1 = smNow M w" "\<And>j. due_at j w1 = due_at j w" using N by auto
  have step: "sim_step S w w1" using sim_ask [OF _ q] Cons.prems(3) by auto
  have ix: "(x # xs) ! (m - k) = xs ! (m - Suc k)" if "m \<in> set [Suc k ..< k + length (x # xs)]" for m
    using that by (cases "m - k") (auto simp: Suc_diff_le diff_Suc split: nat.splits)
  define n1 where "n1 = (if t = minTime then next else next[k := t])"
  define up1 where "up1 = (if t = minTime then up @ [k] else up)"
  have r: "askAgain M minTime (k + 1) xs up1 n1 w1 = Some (w', up', next')"
    using Cons.prems(2,4) q by (auto simp: n1_def up1_def split: if_splits)
  have l1: "length n1 = k + 1 + length xs" using Cons.prems(4) by (simp add: n1_def)
  have sub: "set xs \<subseteq> S" using Cons.prems(3) by simp
  note IH = Cons.IH [OF w1(1) r sub l1, unfolded w1(3)]
  have up: "[k ..< k + length (x # xs)] = k # [Suc k ..< k + length (x # xs)]" by (subst upt_conv_Cons) simp_all
  have k: "k < length next" using Cons.prems(4) by simp
  have "up' = up @ filter (\<lambda>m. due_at ((x # xs) ! (m - k)) w = minTime) [k ..< k + length (x # xs)]"
  proof -
    have "filter (\<lambda>m. due_at ((x # xs) ! (m - k)) w = minTime) [Suc k ..< k + length (x # xs)] =
        filter (\<lambda>m. due_at (xs ! (m - Suc k)) w = minTime) [Suc k ..< k + length (x # xs)]"
      by (rule filter_cong [OF refl]) (simp only: ix)
    with IH show ?thesis unfolding up by (auto simp: up1_def t)
  qed
  moreover have "next' = take k next @
      map (\<lambda>m. if due_at ((x # xs) ! (m - k)) w = minTime then next ! m else due_at ((x # xs) ! (m - k)) w) [k ..< k + length (x # xs)]"
  proof -
    have "map (\<lambda>m. if due_at ((x # xs) ! (m - k)) w = minTime then next ! m else due_at ((x # xs) ! (m - k)) w) [Suc k ..< k + length (x # xs)] =
        map (\<lambda>m. if due_at (xs ! (m - Suc k)) w = minTime then n1 ! m else due_at (xs ! (m - Suc k)) w) [Suc k ..< k + length (x # xs)]"
    proof (rule map_cong [OF refl])
      fix m
      assume m: "m \<in> set [Suc k ..< k + length (x # xs)]"
      then have "m \<noteq> k" by auto
      then have "n1 ! m = next ! m" by (simp add: n1_def)
      then show "(if due_at ((x # xs) ! (m - k)) w = minTime then next ! m else due_at ((x # xs) ! (m - k)) w) =
          (if due_at (xs ! (m - Suc k)) w = minTime then n1 ! m else due_at (xs ! (m - Suc k)) w)"
        by (simp only: ix [OF m])
    qed
    moreover have "take (k + 1) n1 = take k next @ [if t = minTime then next ! k else t]"
      using k by (simp add: n1_def take_Suc_conv_app_nth)
    ultimately show ?thesis using IH unfolding up by (simp add: t)
  qed
  moreover have "sim_steps S w w'" using IH step by (meson converse_rtranclp_into_rtranclp)
  ultimately show ?case using IH w1(2) by (intro conjI allI) simp_all
qed simp

lemma batchLoop_law:
  "batchLoop M' xs' minTime up nx w = Some r \<Longrightarrow> M' = M \<Longrightarrow> xs' = xs \<Longrightarrow> winv w \<Longrightarrow> set xs \<subseteq> S \<Longrightarrow>
   length nx = length xs \<Longrightarrow> (up = [] \<Longrightarrow> nx = map (\<lambda>i. due_at i w) xs) \<Longrightarrow>
   winv (fst r) \<and> smNow M (fst r) = smNow M w \<and> snd r = map (\<lambda>i. due_at i (fst r)) xs \<and> sim_steps S w (fst r)"
proof (induction rule: batchLoop.raw_induct [rotated, consumes 1, case_names 1])
  case (1 loop M' xs' minTime up nx w r)
  note w = 1(5) and sub = 1(6) and l = 1(7)
  show ?case
  proof (cases "up = []")
    case True
    with 1 show ?thesis by auto
  next
    case False
    with 1(2-4) obtain w1 w2 up2 n2 where q: "runBatch M xs up w = Some w1"
      "askAgain M minTime 0 xs [] nx w1 = Some (w2, up2, n2)" "loop M xs minTime up2 n2 w2 = Some r"
      by (auto simp: bind_eq_Some)
    note R = runBatch_law [OF w q(1) sub]
    have A: "winv w2 \<and> smNow M w2 = smNow M w1 \<and> (\<forall>j. due_at j w2 = due_at j w1) \<and> sim_steps S w1 w2 \<and>
        up2 = filter (\<lambda>m. due_at (xs ! m) w1 = minTime) [0 ..< length xs] \<and>
        n2 = map (\<lambda>m. if due_at (xs ! m) w1 = minTime then nx ! m else due_at (xs ! m) w1) [0 ..< length xs]"
      using askAgain_law [OF _ q(2) sub] R l by simp
    have n2: "n2 = map (\<lambda>i. due_at i w2) xs" if "up2 = []"
    proof -
      have "\<forall>m < length xs. due_at (xs ! m) w1 \<noteq> minTime" using that A by (simp add: filter_empty_conv)
      with A show ?thesis by (auto intro!: nth_equalityI)
    qed
    have "winv (fst r) \<and> smNow M (fst r) = smNow M w2 \<and> snd r = map (\<lambda>i. due_at i (fst r)) xs \<and> sim_steps S w2 (fst r)"
      using 1(1) [OF q(3) refl refl _ sub _ n2] A by simp
    moreover have "sim_steps S w w2" using R A by (meson rtranclp_trans)
    ultimately show ?thesis using R A by (auto intro: rtranclp_trans)
  qed
qed

lemma minTime_law:
  "minTimeLoop ts m \<le> m \<and> (\<forall>t \<in> set ts. minTimeLoop ts m \<le> t) \<and> minTimeLoop ts m \<in> insert m (set ts)"
proof (induction ts m rule: minTimeLoop.induct)
  case (2 t ts m)
  then show ?case by (cases "t < m") auto
qed simp

lemma dispatchLoop_law:
  "dispatchLoop M' xs' nx w = Some w' \<Longrightarrow> M' = M \<Longrightarrow> xs' = xs \<Longrightarrow> winv w \<Longrightarrow> set xs = S \<Longrightarrow>
   nx = map (\<lambda>i. due_at i w) xs \<Longrightarrow>
   winv w' \<and> smNow M w \<le> smNow M w' \<and> sim_steps S w w' \<and> (\<forall>i \<in> set xs. MaxTime \<le> due_at i w')"
proof (induction rule: dispatchLoop.raw_induct [rotated, consumes 1, case_names 1])
  case (1 loop M' xs' nx w w')
  note w = 1(5) and sub = 1(6) and nx = 1(7)
  let ?t = "minTimeLoop nx MaxTime"
  note mt = minTime_law [of nx MaxTime]
  show ?case
  proof (cases "nx = [] \<or> ?t = MaxTime")
    case True
    with 1 have "w' = w" by (auto simp: Let_def split: if_splits)
    moreover have "\<forall>i \<in> set xs. MaxTime \<le> due_at i w" using True mt by (auto simp: nx)
    ultimately show ?thesis using w by simp
  next
    case False
    define v where "v = (if smNow M w < ?t then smSet M ?t w else w)"
    from False 1(2-4) obtain w1 n1 where q: "batchLoop M xs ?t (upNextAt ?t nx) nx v = Some (w1, n1)"
      "loop M xs n1 w1 = Some w'"
      by (auto simp: bind_eq_Some Let_def v_def split: if_splits)
    have in_nx: "?t \<in> set nx" using False mt by auto
    then obtain k where k: "k < length nx" "nx ! k = ?t" by (auto simp: in_set_conv_nth)
    then have "k \<in> set (upNextAt ?t nx)" by (simp add: upNextAt_def)
    then have up: "upNextAt ?t nx \<noteq> []" by auto
    have v: "winv v \<and> smNow M w \<le> smNow M v" using set_law [OF w, of ?t] w by (auto simp: v_def)
    have step: "sim_steps S w v"
    proof (cases "smNow M w < ?t")
      case True
      obtain i where i: "i \<in> set xs" "due_at i w = ?t" using in_nx by (auto simp: nx)
      have "sim_step S w (smSet M ?t w)"
        by (rule sim_tick [OF _ i(2) _ True]) (use i sub mt in \<open>auto simp: nx\<close>)
      then show ?thesis using True by (simp add: v_def)
    qed (simp add: v_def)
    have B: "winv w1 \<and> smNow M w1 = smNow M v \<and> n1 = map (\<lambda>i. due_at i w1) xs \<and> sim_steps S v w1"
      using batchLoop_law [OF q(1) refl refl conjunct1 [OF v] equalityD1 [OF sub]] up by (simp add: nx)
    with 1(1) [OF q(2) refl refl _ sub] have C:
      "winv w' \<and> smNow M w1 \<le> smNow M w' \<and> sim_steps S w1 w' \<and> (\<forall>i \<in> set xs. MaxTime \<le> due_at i w')" by blast
    have "smNow M w \<le> smNow M w1" using B v by simp
    with C have "smNow M w \<le> smNow M w'" by linarith
    with B C step show ?thesis by (meson rtranclp_trans)
  qed
qed

lemma Run_law:
  assumes "winv w" "LiteSimulator_Run M s w = Some w'"
  shows "winv w' \<and> smNow M w \<le> smNow M w' \<and> sim_steps (set (ls_schedulers s)) w w' \<and>
    (\<forall>i \<in> set (ls_schedulers s). MaxTime \<le> due_at i w')"
proof -
  obtain w1 nx where q: "nextTimes M (ls_schedulers s) w = Some (w1, nx)" "dispatchLoop M (ls_schedulers s) nx w1 = Some w'"
    using assms(2) by (auto simp: LiteSimulator_Run_def bind_eq_Some)
  note N = nextTimes_law [OF assms(1) q(1) order_refl]
  have "nx = map (\<lambda>i. due_at i w1) (ls_schedulers s)" "winv w1" using N by auto
  from dispatchLoop_law [OF q(2) refl refl this(2) refl this(1)] N show ?thesis
    by (metis rtranclp_trans)
qed

end

end
