(* ===== verification/Sim_Simulation.thy ===== *)
theory Sim_Simulation
  imports Sim_Run Simulator
begin

text \<open>
  The simulator on the schedulers of the simulated network: what its run does in terms of the
  operations of the network, when it comes to an end and when it does not.
\<close>

section \<open>The network as a set of schedulers\<close>

definition netSim ::
  "('k, 'a, 'm, 'f, 'q, 'x, 'u) Serve \<Rightarrow> (nat, ('k, 'a, 'm, 'f, 'q, 'x, 'u) NetWorld) SimMethods" where
  "netSim serve =
     \<lparr>smRunOne = (\<lambda>i w. map_option fst (World_RunOne serve i w)), smNextActionTime = World_NextActionTime,
      smNow = w_now, smSet = (\<lambda>t w. w\<lparr>w_now := t\<rparr>)\<rparr>"

text \<open>The time of the first action of a scheduler.\<close>

definition plan_due :: "('b ChanQueue, 'b SimplePlanner) SimpleScheduler \<Rightarrow> time" where
  "plan_due s = (case sched_plan s of [] \<Rightarrow> MaxTime | e # _ \<Rightarrow> due e)"

definition net_due :: "nat \<Rightarrow> ('k, 'a, 'm, 'f, 'q, 'x, 'u) NetWorld \<Rightarrow> time" where
  "net_due i w =
     (let s = w_scheds w ! i in
      if ready_actions (w_now w) s \<noteq> [] then w_now w
      else case later_plan (w_now w) s of [] \<Rightarrow> MaxTime | e # _ \<Rightarrow> due e)"

lemma netSim_sel [simp]: "smRunOne (netSim serve) i w = map_option fst (World_RunOne serve i w)"
  "smNextActionTime (netSim serve) i w = World_NextActionTime i w" "smNow (netSim serve) = w_now"
  "smSet (netSim serve) t w = w\<lparr>w_now := t\<rparr>"
  by (simp_all add: netSim_def)

lemma planner_next: "scheduler_inv s \<Longrightarrow> SimplePlanner_NextActionTime (ss_planner s) = plan_due s"
  using sp.Next_law [of "ss_planner s"] by (simp add: scheduler_inv_def plan_due_def SimplePlanner_methods_def)

lemma chan_Empty: "Empty ChanQueue_methods q \<longleftrightarrow> cq_queue q = []"
  by (simp add: Empty_def ChanQueue_methods_def ChanQueue_Empty_def)

lemma planner_methods_next: "apNextActionTime SimplePlanner_methods = SimplePlanner_NextActionTime"
  by (simp add: SimplePlanner_methods_def)

lemma World_NextActionTime_due:
  assumes "scheds_inv w" "World_NextActionTime i w = Some (w', t)"
  shows "t = net_due i w \<and> (\<forall>j. net_due j w' = net_due j w)"
proof -
  obtain s where i: "i < length (w_scheds w)" and w': "w' = w\<lparr>w_scheds := (w_scheds w)[i := s]\<rparr>"
    and m: "moveOverdueActions ChanQueue_methods SimplePlanner_methods (w_now w) (w_scheds w ! i) = Some s"
    and t: "t = (if sched_queued s \<noteq> [] then w_now w else SimplePlanner_NextActionTime (ss_planner s))"
    using assms(2) by (auto simp: World_NextActionTime_def SimpleScheduler_NextActionTime_def Let_def bind_eq_Some
      chan_Empty planner_methods_next split: if_splits)
  have "scheduler_inv (w_scheds w ! i)" using assms(1) i by (simp add: scheds_inv_def list_all_length)
  note M = move_taken [OF this m]
  have "ready_actions (w_now w) s = ready_actions (w_now w) (w_scheds w ! i)"
    "later_plan (w_now w) s = later_plan (w_now w) (w_scheds w ! i)"
    unfolding ready_actions_def [of _ s] later_plan_def [of _ s] M(2,3) by (auto simp: later_plan_def ready_actions_def filter_empty_conv)
  then have "net_due j w' = net_due j w" for j
    using i by (cases "j = i") (simp_all add: net_due_def w' Let_def)
  moreover have "t = net_due i w"
    by (simp add: t net_due_def Let_def M(2,3) planner_next [OF M(1)] plan_due_def)
  ultimately show ?thesis by simp
qed

lemma netSim_next:
  "scheds_inv w \<Longrightarrow> smNextActionTime (netSim serve) i w = Some (w', t) \<Longrightarrow>
   scheds_inv w' \<and> t = net_due i w \<and> smNow (netSim serve) w' = smNow (netSim serve) w \<and> (\<forall>j. net_due j w' = net_due j w)"
  using World_NextActionTime_due [of w i w' t] keeps_Poll [of i w w' t] by (simp add: keeps_def)

lemma netSim_run:
  assumes "scheds_inv w" "smRunOne (netSim serve) i w = Some w'"
  shows "scheds_inv w' \<and> smNow (netSim serve) w' = smNow (netSim serve) w"
proof -
  obtain did where "World_RunOne serve i w = Some (w', did)" using assms(2) by auto
  from keeps_RunOne [OF this] assms(1) show ?thesis by (simp add: keeps_def)
qed

lemma netSim_set:
  "scheds_inv w \<Longrightarrow> smNow (netSim serve) w \<le> t \<Longrightarrow>
   scheds_inv (smSet (netSim serve) t w) \<and> smNow (netSim serve) (smSet (netSim serve) t w) = t"
  by (simp add: scheds_inv_def)

interpretation netsim: aware_schedulers "netSim serve" scheds_inv net_due for serve
  by (rule aware_schedulers.intro [OF netSim_next netSim_run netSim_set])

section \<open>A run is a sequence of operations\<close>

text \<open>The operations that a simulator of the schedulers \<open>S\<close> performs.\<close>

fun sim_op :: "nat set \<Rightarrow> ('k, 'a, 'm, 'f, 'q, 'x, 'u) NetOp \<Rightarrow> bool" where
  "sim_op S (RunOp i) \<longleftrightarrow> i \<in> S"
| "sim_op S (PollOp i) \<longleftrightarrow> i \<in> S"
| "sim_op S (AdvanceOp d) \<longleftrightarrow> 0 < d"
| "sim_op S _ \<longleftrightarrow> False"

lemma sim_step_op: "netsim.sim_step serve S w w' \<Longrightarrow> \<exists>op. netStep serve op w = Some w' \<and> sim_op S op"
proof (induction rule: netsim.sim_step.induct)
  case (sim_ask i w w' t)
  then show ?case by (intro exI [of _ "PollOp i"]) simp
next
  case (sim_run i w w')
  then show ?case by (intro exI [of _ "RunOp i"]) simp
next
  case (sim_tick i w t)
  then show ?case by (intro exI [of _ "AdvanceOp (t - w_now w)"]) simp
qed

lemma sim_steps_ops: "netsim.sim_steps serve S w w' \<Longrightarrow> \<exists>ops. netRun serve ops w = Some w' \<and> (\<forall>op \<in> set ops. sim_op S op)"
proof (induction rule: converse_rtranclp_induct)
  case base
  then show ?case by (intro exI [of _ "[]"]) simp
next
  case (step w v)
  from sim_step_op [OF step.hyps(1)] obtain op where op: "netStep serve op w = Some v" "sim_op S op" by blast
  from step.IH obtain ops where "netRun serve ops v = Some w'" "\<forall>op \<in> set ops. sim_op S op" by blast
  with op show ?case by (intro exI [of _ "op # ops"]) simp
qed

lemma sim_ops_requests: "\<forall>op \<in> set ops. sim_op S op \<Longrightarrow> requests f ops = 0 \<and> timed_requests f ops = 0"
proof (induction ops)
  case (Cons op ops)
  then show ?case by (cases op) (simp_all add: requests_def timed_requests_def)
qed (simp_all add: requests_def timed_requests_def)

text \<open>The actions that a run leaves are planned for the end of time.\<close>

lemma due_none:
  assumes "w_now w < MaxTime" "MaxTime \<le> net_due i w"
  shows "sched_queued (w_scheds w ! i) = []" "\<forall>en \<in> set (sched_plan (w_scheds w ! i)). w_now w < due en"
  using assms by (auto simp: net_due_def Let_def ready_actions_def filter_empty_conv split: if_splits)

lemma due_far:
  assumes "scheduler_inv (w_scheds w ! i)" "w_now w < MaxTime" "MaxTime \<le> net_due i w" "en \<in> set (sched_plan (w_scheds w ! i))"
  shows "MaxTime \<le> due en"
proof -
  have all: "\<forall>en \<in> set (sched_plan (w_scheds w ! i)). w_now w < due en" using due_none [OF assms(2,3)] by simp
  then have l: "later_plan (w_now w) (w_scheds w ! i) = sched_plan (w_scheds w ! i)" by (simp add: later_plan_def)
  obtain e es where e: "sched_plan (w_scheds w ! i) = e # es" using assms(4) by (cases "sched_plan (w_scheds w ! i)") auto
  have "MaxTime \<le> due e" using assms(2,3) l e by (auto simp: net_due_def Let_def split: if_splits)
  moreover have "sorted (map due (sched_plan (w_scheds w ! i)))"
    using assms(1) by (auto simp: scheduler_inv_def intro: sp.plan_sorted)
  ultimately show ?thesis using assms(4) e by (auto intro: order_trans)
qed

section \<open>Two schedulers\<close>

text \<open>A scheduler without overdue actions answers with its state unchanged.\<close>

lemma poll_settled:
  assumes "settled i w"
  shows "World_NextActionTime i w = Some (w, if busy i w then w_now w else plan_due (w_scheds w ! i))"
proof -
  let ?s = "w_scheds w ! i"
  have i: "i < length (w_scheds w)" and s: "scheduler_inv ?s" and p: "\<forall>en \<in> set (sched_plan ?s). w_now w < due en"
    using assms by (simp_all add: settled_def)
  have "moveOverdueActions ChanQueue_methods SimplePlanner_methods (w_now w) ?s = Some ?s"
    using pop_none [OF _ p] s
    by (simp add: moveOverdueActions_def SimplePlanner_methods_def scheduler_inv_def EnqueueMany_def ChanQueue_methods_def)
  moreover have "Empty ChanQueue_methods (ss_queue ?s) \<longleftrightarrow> \<not> busy i w" "apNextActionTime SimplePlanner_methods (ss_planner ?s) = plan_due ?s"
    using planner_next [OF s] by (simp_all add: chan_Empty planner_methods_next busy_def)
  ultimately show ?thesis using i
    by (simp add: World_NextActionTime_def SimpleScheduler_NextActionTime_def Let_def)
qed

lemma plan_due_later: "settled i w \<Longrightarrow> w_now w < MaxTime \<Longrightarrow> w_now w < plan_due (w_scheds w ! i)"
  by (auto simp: settled_def plan_due_def split: list.splits)

text \<open>The times of two settled schedulers as the run keeps them.\<close>

definition due2 :: "nat \<Rightarrow> nat \<Rightarrow> ('k, 'a, 'm, 'f, 'q, 'x, 'u) NetWorld \<Rightarrow> time list" where
  "due2 i j w = map (\<lambda>k. if busy k w then w_now w else plan_due (w_scheds w ! k)) [i, j]"

definition busy2 :: "nat \<Rightarrow> nat \<Rightarrow> ('k, 'a, 'm, 'f, 'q, 'x, 'u) NetWorld \<Rightarrow> nat list" where
  "busy2 i j w = (if busy i w then [0] else []) @ (if busy j w then [1] else [])"

lemma ask_settled:
  assumes "settled i w" "settled j w" "w_now w < MaxTime"
  shows "\<exists>na'. askAgain (netSim serve) (w_now w) 0 [i, j] [] [t0, t1] w = Some (w, busy2 i j w, na') \<and>
    length na' = 2 \<and> (\<not> busy i w \<longrightarrow> \<not> busy j w \<longrightarrow> na' = due2 i j w)"
  using plan_due_later [OF assms(1,3)] plan_due_later [OF assms(2,3)]
  by (auto simp: poll_settled [OF assms(1)] poll_settled [OF assms(2)] busy2_def due2_def)

lemma batch_step:
  assumes "netStep serve (RunOp ([i, j] ! k)) w = Some w1" "k < 2" "settled i w1" "settled j w1" "w_now w1 < MaxTime"
    "length na = 2"
  shows "\<exists>na'. batchLoop (netSim serve) [i, j] (w_now w1) [k] na w = batchLoop (netSim serve) [i, j] (w_now w1) (busy2 i j w1) na' w1 \<and>
    length na' = 2 \<and> (\<not> busy i w1 \<longrightarrow> \<not> busy j w1 \<longrightarrow> na' = due2 i j w1)"
proof -
  obtain t0 t1 where na: "na = [t0, t1]" using assms(6) by (auto simp: numeral_2_eq_2 length_Suc_conv)
  obtain na' where a: "askAgain (netSim serve) (w_now w1) 0 [i, j] [] na w1 = Some (w1, busy2 i j w1, na')"
    "length na' = 2" "\<not> busy i w1 \<longrightarrow> \<not> busy j w1 \<longrightarrow> na' = due2 i j w1"
    using ask_settled [OF assms(3-5), of serve t0 t1] unfolding na by blast
  have "runBatch (netSim serve) [i, j] [k] w = Some w1" using assms(1,2) by (auto simp: bind_eq_Some)
  with a show ?thesis by (intro exI [of _ na']) (subst batchLoop.simps, simp del: runBatch.simps askAgain.simps)
qed

text \<open>The run from a world in which both are settled and one has an action to run.\<close>

lemma run_settled:
  assumes "settled i w" "settled j w" "w_now w < MaxTime" "busy i w \<noteq> busy j w"
  shows "LiteSimulator_Run (netSim serve) \<lparr>ls_schedulers = [i, j]\<rparr> w =
    do { (w', next') \<leftarrow> batchLoop (netSim serve) [i, j] (w_now w) (busy2 i j w) (due2 i j w) w;
      dispatchLoop (netSim serve) [i, j] next' w' }"
proof -
  have nx: "nextTimes (netSim serve) [i, j] w = Some (w, due2 i j w)"
    by (simp add: poll_settled [OF assms(1)] poll_settled [OF assms(2)] due2_def)
  have later: "w_now w < plan_due (w_scheds w ! i)" "w_now w < plan_due (w_scheds w ! j)"
    using plan_due_later assms(1-3) by auto
  have mt: "minTimeLoop (due2 i j w) MaxTime = w_now w" using assms(3,4) later by (auto simp: due2_def)
  have up: "upNextAt (w_now w) (due2 i j w) = busy2 i j w"
    using assms(4) later by (auto simp: upNextAt_def due2_def busy2_def)
  have "due2 i j w \<noteq> []" by (simp add: due2_def)
  with assms(3) show ?thesis
    by (simp add: LiteSimulator_Run_def nx dispatchLoop.simps [of _ _ "due2 i j w"] mt up Let_def del: nextTimes.simps)
qed

section \<open>The run of a request\<close>

text \<open>When neither scheduler has anything left, the run ends.\<close>

lemma run_end:
  assumes "w_now w < MaxTime" "sched_acts (w_scheds w ! i) = []" "sched_acts (w_scheds w ! j) = []"
  shows "dispatchLoop (netSim serve) [i, j] (due2 i j w) w = Some w"
proof -
  have "due2 i j w = [MaxTime, MaxTime]" using assms by (simp add: due2_def busy_def nets.acts_def plan_due_def)
  then show ?thesis by (subst dispatchLoop.simps) (simp add: Let_def)
qed

lemma request_run:
  assumes "net.net_inv {} w" "unat (r_currStream (w_router w)) + 1 < 2 ^ 64" "ready_pair a b n j w" "0 \<le> timeout"
    and "map_of (ep_serverProtos (w_endpoints w ! b)) p = Some (Some hq)"
    and "\<forall>v. length (w_endpoints v) = length (w_endpoints w) \<longrightarrow> w_endpoints v ! b = w_endpoints w ! b \<longrightarrow>
      w_app v = w_app w \<longrightarrow> serve hq v (ep_self (w_endpoints w ! a)) req = Some (Inr reply)"
    and "asResponse reply = Some resp" and now: "w_now w < MaxTime"
  shows "\<exists>w1 w'. netStep serve (SendOp a p n req timeout (Some f)) w = Some w1 \<and>
      LiteSimulator_Run (netSim serve) \<lparr>ls_schedulers = [ep_sched (w_endpoints w ! a), j]\<rparr> w1 = Some w' \<and>
      w_now w' = w_now w \<and> w_calls w' = w_calls w @ [HandlerCall f (Some reply) None] \<and>
      w_endpoints w' = (w_endpoints w)[a := fold learnNode (CloserNodes resp) (fst (DialPeer (w_endpoints w ! a) n))] \<and>
      sched_acts (w_scheds w' ! j) = [] \<and> sched_acts (w_scheds w' ! ep_sched (w_endpoints w ! a)) = []"
proof -
  let ?i = "ep_sched (w_endpoints w ! a)"
  obtain w1 w2 w3 w' where send: "netStep serve (SendOp a p n req timeout (Some f)) w = Some w1"
    and st: "netStep serve (RunOp j) w1 = Some w2" "netStep serve (RunOp ?i) w2 = Some w3" "netStep serve (RunOp ?i) w3 = Some w'"
    and ok: "\<forall>v \<in> {w1, w2, w3, w'}. w_now v = w_now w \<and> settled ?i v \<and> settled j v"
    and turns: "map (busy ?i) [w1, w2, w3, w'] = [False, True, True, False]" "map (busy j) [w1, w2, w3, w'] = [True, False, False, False]"
    and final: "w_calls w' = w_calls w @ [HandlerCall f (Some reply) None]"
      "w_endpoints w' = (w_endpoints w)[a := fold learnNode (CloserNodes resp) (fst (DialPeer (w_endpoints w ! a) n))]"
      "sched_acts (w_scheds w' ! j) = []" "sched_acts (w_scheds w' ! ?i) = []"
    using request_forward [where f = f and serve = serve and req = req, OF assms(1-7)]
    by (elim exE conjE) (rule that)
  have now': "w_now w1 = w_now w" "w_now w2 = w_now w" "w_now w3 = w_now w" "w_now w' = w_now w" using ok by simp_all
  have set: "settled ?i w1" "settled j w1" "settled ?i w2" "settled j w2" "settled ?i w3" "settled j w3" "settled ?i w'" "settled j w'"
    using ok by simp_all
  have up: "busy2 ?i j w1 = [1]" "busy2 ?i j w2 = [0]" "busy2 ?i j w3 = [0]" "busy2 ?i j w' = []"
    using turns by (simp_all add: busy2_def)
  have run: "LiteSimulator_Run (netSim serve) \<lparr>ls_schedulers = [?i, j]\<rparr> w1 =
    do { (v, next') \<leftarrow> batchLoop (netSim serve) [?i, j] (w_now w) [1] (due2 ?i j w1) w1;
      dispatchLoop (netSim serve) [?i, j] next' v }"
    using run_settled [OF set(1,2)] turns now now' up(1) by simp
  have "netStep serve (RunOp ([?i, j] ! 1)) w1 = Some w2" using st(1) by simp
  from batch_step [OF this _ set(3,4), of "due2 ?i j w1"] now now' up obtain n2 where
    b2: "batchLoop (netSim serve) [?i, j] (w_now w) [1] (due2 ?i j w1) w1 = batchLoop (netSim serve) [?i, j] (w_now w) [0] n2 w2" "length n2 = 2"
    by (auto simp: due2_def)
  have "netStep serve (RunOp ([?i, j] ! 0)) w2 = Some w3" using st(2) by simp
  from batch_step [OF this _ set(5,6) _ b2(2)] now now' up obtain n3 where
    b3: "batchLoop (netSim serve) [?i, j] (w_now w) [0] n2 w2 = batchLoop (netSim serve) [?i, j] (w_now w) [0] n3 w3" "length n3 = 2"
    by auto
  have "netStep serve (RunOp ([?i, j] ! 0)) w3 = Some w'" using st(3) by simp
  from batch_step [OF this _ set(7,8) _ b3(2)] now now' up turns have
    b4: "batchLoop (netSim serve) [?i, j] (w_now w) [0] n3 w3 = batchLoop (netSim serve) [?i, j] (w_now w) [] (due2 ?i j w') w'"
    by auto
  have "batchLoop (netSim serve) [?i, j] (w_now w) [] (due2 ?i j w') w' = Some (w', due2 ?i j w')" by (subst batchLoop.simps) simp
  with run b2(1) b3(1) b4 run_end [OF _ final(4,3), of serve] now now' have
    "LiteSimulator_Run (netSim serve) \<lparr>ls_schedulers = [?i, j]\<rparr> w1 = Some w'" by simp
  with send now'(4) final show ?thesis by blast
qed

section \<open>A run that does not end\<close>

lemma late_turn:
  assumes "late_answer a b p sid ha hb w"
  shows "settled (ep_sched (w_endpoints w ! a)) w" "settled (ep_sched (w_endpoints w ! b)) w"
    "busy (ep_sched (w_endpoints w ! a)) w" "\<not> busy (ep_sched (w_endpoints w ! b)) w"
  using assms by (auto simp: late_answer_def serves_def settled_def usable_def busy_def Let_def)

text \<open>The loop over the batches at one instant, from a late answer on: it has no result.\<close>

lemma late_batch:
  "batchLoop M xs mt up na w = Some r \<Longrightarrow> M = netSim serve \<Longrightarrow> xs = [i, j] \<Longrightarrow> mt = w_now w \<Longrightarrow> w_now w < MaxTime \<Longrightarrow>
   (up = [0] \<and> late_answer a b p sid ha hb w \<or> up = [1] \<and> late_answer b a p sid hb ha w) \<Longrightarrow>
   i = ep_sched (w_endpoints w ! a) \<Longrightarrow> j = ep_sched (w_endpoints w ! b) \<Longrightarrow> w_endpoints w = E \<Longrightarrow> w_app w = u \<Longrightarrow>
   (\<And>v n m h. w_endpoints v = E \<Longrightarrow> w_app v = u \<Longrightarrow> h \<in> {ha, hb} \<Longrightarrow>
     \<exists>r. serve h v n (SimMessage m) = Some (Inr (SimMessage r))) \<Longrightarrow> length na = 2 \<Longrightarrow> False"
proof (induction rule: batchLoop.raw_induct [rotated, consumes 1, case_names 1])
  case (1 loop M xs mt up na w r)
  note eq = 1(3-5) and now = 1(6) and late = 1(7) and ij = 1(8,9) and env = 1(10,11) and answers = 1(12) and l = 1(13)
  have ans: "\<exists>r. serve h v n (SimMessage m) = Some (Inr (SimMessage r))"
    if "w_endpoints v = w_endpoints w" "w_app v = w_app w" "h \<in> {ha, hb}" for v n m h
    using answers [of v h n m] that env by simp
  then have ans': "\<exists>r. serve h v n (SimMessage m) = Some (Inr (SimMessage r))"
    if "w_endpoints v = w_endpoints w" "w_app v = w_app w" "h \<in> {hb, ha}" for v n m h
    using that by (simp add: insert_commute)
  obtain k w1 where w1: "up = [k]" "k < 2" "netStep serve (RunOp ([i, j] ! k)) w = Some w1" "w_endpoints w1 = w_endpoints w"
    "w_app w1 = w_app w" "w_now w1 = w_now w" "settled i w1" "settled j w1"
    "busy2 i j w1 = [0] \<and> late_answer a b p sid ha hb w1 \<or> busy2 i j w1 = [1] \<and> late_answer b a p sid hb ha w1"
    using late
  proof
    assume up: "up = [0] \<and> late_answer a b p sid ha hb w"
    obtain v where v: "netStep serve (RunOp i) w = Some v" "late_answer b a p sid hb ha v" "w_endpoints v = w_endpoints w"
      "w_app v = w_app w" "w_now v = w_now w"
      using late_answer_step [where serve = serve, OF conjunct2 [OF up] ans] ij(1) by blast
    from late_turn [OF v(2)] v(3) ij have "settled i v" "settled j v" "busy2 i j v = [1]" by (simp_all add: busy2_def)
    with that [of 0 v] up v show thesis by simp
  next
    assume up: "up = [1] \<and> late_answer b a p sid hb ha w"
    obtain v where v: "netStep serve (RunOp j) w = Some v" "late_answer a b p sid ha hb v" "w_endpoints v = w_endpoints w"
      "w_app v = w_app w" "w_now v = w_now w"
      using late_answer_step [where serve = serve, OF conjunct2 [OF up] ans'] ij(2) by blast
    from late_turn [OF v(2)] v(3) ij have "settled i v" "settled j v" "busy2 i j v = [0]" by (simp_all add: busy2_def)
    with that [of 1 v] up v show thesis by simp
  qed
  obtain t0 t1 where na: "na = [t0, t1]" using l by (auto simp: numeral_2_eq_2 length_Suc_conv)
  obtain na' where a: "askAgain (netSim serve) (w_now w1) 0 [i, j] [] na w1 = Some (w1, busy2 i j w1, na')" "length na' = 2"
    using ask_settled [OF w1(7,8), of serve t0 t1] now w1(6) unfolding na by auto
  have "runBatch (netSim serve) [i, j] [k] w = Some w1" using w1(2,3) by (auto simp: bind_eq_Some)
  with 1(2) a(1) eq w1(1,6) have "loop (netSim serve) [i, j] (w_now w1) (busy2 i j w1) na' w1 = Some r"
    by (simp del: runBatch.simps askAgain.simps)
  moreover have "w_now w1 < MaxTime" "i = ep_sched (w_endpoints w1 ! a)" "j = ep_sched (w_endpoints w1 ! b)"
    "w_endpoints w1 = E" "w_app w1 = u" using now w1(4-6) ij env by simp_all
  ultimately show ?case by (rule 1(1) [OF _ refl refl refl _ w1(9) _ _ _ _ answers a(2)])
qed

lemma late_run:
  assumes late: "late_answer a b p sid ha hb w" and now: "w_now w < MaxTime"
    and ans: "\<And>v n m h. w_endpoints v = w_endpoints w \<Longrightarrow> w_app v = w_app w \<Longrightarrow> h \<in> {ha, hb} \<Longrightarrow>
      \<exists>r. serve h v n (SimMessage m) = Some (Inr (SimMessage r))"
  shows "LiteSimulator_Run (netSim serve) \<lparr>ls_schedulers = [ep_sched (w_endpoints w ! a), ep_sched (w_endpoints w ! b)]\<rparr> w = None"
proof -
  let ?i = "ep_sched (w_endpoints w ! a)" and ?j = "ep_sched (w_endpoints w ! b)"
  note T = late_turn [OF late]
  have up: "busy2 ?i ?j w = [0]" using T by (simp add: busy2_def)
  have "batchLoop (netSim serve) [?i, ?j] (w_now w) [0] (due2 ?i ?j w) w = None"
  proof (rule ccontr)
    assume "batchLoop (netSim serve) [?i, ?j] (w_now w) [0] (due2 ?i ?j w) w \<noteq> None"
    then obtain r where "batchLoop (netSim serve) [?i, ?j] (w_now w) [0] (due2 ?i ?j w) w = Some r" by blast
    from late_batch [OF this refl refl refl now _ refl refl refl refl ans] late show False by (simp add: due2_def)
  qed
  with run_settled [OF T(1,2) now] T up show ?thesis by simp
qed

text \<open>Any number of exchanges.\<close>

lemma late_exchanges:
  assumes "late_answer a b p sid ha hb w"
    and "\<And>v n m h. w_endpoints v = w_endpoints w \<Longrightarrow> w_app v = w_app w \<Longrightarrow> h \<in> {ha, hb} \<Longrightarrow>
      \<exists>r. serve h v n (SimMessage m) = Some (Inr (SimMessage r))"
  shows "\<exists>w'. netRun serve (concat (replicate k
        [RunOp (ep_sched (w_endpoints w ! a)), RunOp (ep_sched (w_endpoints w ! b))])) w = Some w' \<and>
      late_answer a b p sid ha hb w' \<and> sched_queued (w_scheds w' ! ep_sched (w_endpoints w ! a)) \<noteq> [] \<and>
      w_calls w' = w_calls w \<and> w_now w' = w_now w"
proof -
  let ?ops = "[RunOp (ep_sched (w_endpoints w ! a)), RunOp (ep_sched (w_endpoints w ! b))]"
  have "\<exists>w'. netRun serve (concat (replicate k ?ops)) v = Some w' \<and> late_answer a b p sid ha hb w' \<and>
      w_endpoints w' = w_endpoints v \<and> w_calls w' = w_calls v \<and> w_now w' = w_now v"
    if "late_answer a b p sid ha hb v" "w_endpoints v = w_endpoints w" "w_app v = w_app w" for v
    using that
  proof (induction k arbitrary: v)
    case (Suc k)
    have "\<exists>r. serve h u n (SimMessage m) = Some (Inr (SimMessage r))"
      if "w_endpoints u = w_endpoints v" "w_app u = w_app v" "h \<in> {ha, hb}" for u n m h
      using assms(2) [of u h n m] that Suc.prems(2,3) by simp
    from late_answer_exchange [where serve = serve, OF Suc.prems(1) this] obtain v1 where
      v1: "netRun serve ?ops v = Some v1" "late_answer a b p sid ha hb v1" "w_endpoints v1 = w_endpoints v"
        "w_app v1 = w_app v" "w_calls v1 = w_calls v" "w_now v1 = w_now v"
      using Suc.prems(2) by auto
    have "netRun serve (concat (replicate (Suc k) ?ops)) v = netRun serve (concat (replicate k ?ops)) v1"
      by (simp only: replicate.simps concat.simps netRun_append v1(1) bind.bind_lunit)
    with Suc.IH [OF v1(2)] v1 Suc.prems(2,3) show ?case by (simp del: netRun.simps)
  qed simp
  from this [OF assms(1) refl refl] obtain w' where w': "netRun serve (concat (replicate k ?ops)) w = Some w'"
    "late_answer a b p sid ha hb w'" "w_endpoints w' = w_endpoints w" "w_calls w' = w_calls w" "w_now w' = w_now w" by blast
  moreover have "sched_queued (w_scheds w' ! ep_sched (w_endpoints w ! a)) \<noteq> []"
    using w'(2,3) by (auto simp: late_answer_def Let_def)
  ultimately show ?thesis by blast
qed

end
