(* ===== verification/Sim_Theorems.thy ===== *)
theory Sim_Theorems
  imports Sim_Simulation
begin

text \<open>
  What the simulated network guarantees, on every run: the accounting of the response handlers, the
  request and its answer, and an answer that comes too late. A network of two nodes with keys of 8
  bits shows the properties at work.
\<close>

section \<open>A small network\<close>

text \<open>Two nodes with keys of 8 bits. Both serve the protocol \<open>p\<close> from the same table, and endpoint 0
  has been told about the node of endpoint 1.\<close>

declare overdueLoop.simps [code] insertAfter.simps [code] unlinkLoop.simps [code]
  batchLoop.simps [code] dispatchLoop.simps [code]

type_synonym op8 = "(key8, nat, unit, nat, nat, unit, (key8 TrieRT, nat) Server list) NetOp"

type_synonym world8 = "(key8, nat, unit, nat, nat, unit, (key8 TrieRT, nat) Server list) NetWorld"

definition serve8 :: "(key8, nat, unit, nat, nat, unit, (key8 TrieRT, nat) Server list) Serve" where
  "serve8 = simServe (TrieRT_methods Key8) 0 (\<lambda>_. None)"

definition peer8 :: "key8 \<Rightarrow> key8 NodeID" where
  "peer8 k = \<lparr>nodeKey = k, nodeString = Key8_HexString k\<rparr>"

definition start8 :: "op8 list" where
  "start8 = [NewSchedulerOp, NewSchedulerOp, NewEndpointOp (peer8 1) 0 True, NewEndpointOp (peer8 130) 1 True,
     AddHandlerOp 0 ''p'' (Some 0), AddHandlerOp 1 ''p'' (Some 1),
     PeerstoreOp 0 \<lparr>infoID = peer8 130, infoAddresses = [7]\<rparr> 0]"

definition new8 :: world8 where
  "new8 = newWorld 0 [NewServer triert8 0 None, NewServer triert8 1 None]"

definition world8 :: "op8 list \<Rightarrow> world8" where
  "world8 ops = the (netRun serve8 (start8 @ ops) new8)"

lemma world8_reach:
  "netRun serve8 (start8 @ ops) new8 \<noteq> None \<Longrightarrow> net_reach serve8 (start8 @ ops) (world8 ops)"
  using netRun_reach [OF net_start, of serve8 "start8 @ ops"] by (auto simp: world8_def new8_def)

definition request_ops8 :: "op8 list" where
  "request_ops8 = [SendOp 0 ''p'' (peer8 130) request8 5 (Some 7), AdvanceOp 5, RunOp 0, RunOp 1]"

lemma late8_run: "netRun serve8 (start8 @ request_ops8) new8 \<noteq> None"
  by code_simp

section \<open>Properties\<close>

text \<open>C9: The response handlers of the simulated network are accounted for. In every reachable world,
  whatever the program around it did, a handler has been called as often as it was given to a
  request, less the requests it still waits for, so never more often. When all schedulers have come
  to rest, it has been called for every request that had a timeout: an answer and a timeout exclude
  each other, and one of them comes. (Stream identifiers are 64 bit wide and not used twice before
  that many operations.)\<close>

theorem sim_handlers_called:
  assumes "net_reach serve tr w" and "length tr + 1 < 2 ^ 64"
  shows "called f w + held sched_acts f w = requests f tr \<and> (net_idle w \<longrightarrow> timed_requests f tr \<le> called f w)"
  using net_reach_inv [OF assms, of f] idle_streams [of w f] by auto

definition timeout_ops8 :: "op8 list" where
  "timeout_ops8 = [SendOp 0 ''p'' (peer8 130) request8 5 (Some 7), AdvanceOp 5, RunOp 0]"

theorem sim_handlers_called_witness:
  "called 7 (world8 timeout_ops8) = 1 \<and> held sched_acts 7 (world8 timeout_ops8) = 0"
proof -
  have "netRun serve8 (start8 @ timeout_ops8) new8 \<noteq> None" by code_simp
  from sim_handlers_called [OF world8_reach [OF this], of 7]
  have "called 7 (world8 timeout_ops8) + held sched_acts 7 (world8 timeout_ops8) = requests 7 (start8 @ timeout_ops8)"
    by (simp add: start8_def timeout_ops8_def)
  moreover have "requests 7 (start8 @ timeout_ops8) = 1" by (simp add: requests_def start8_def timeout_ops8_def)
  moreover have "called 7 (world8 timeout_ops8) = 1" by code_simp
  ultimately show ?thesis by simp
qed

text \<open>C11: A request that is sent to a server of the network is answered. After the client has sent it,
  the simulator on the two schedulers comes to an end, with the clock where it was: no step panics, the
  response handler is called once, with the nodes of the server's routing table that are nearest to the
  target, in order, as far as the server's endpoint knows their addresses; the client's endpoint has
  learned exactly these nodes, no trace of the stream or its timeout is left in it, and both schedulers
  have nothing left to do.\<close>

theorem sim_request_answered:
  fixes w :: "('k, 'a, 'm, 'f, nat, 'x, ('rt, nat) Server list) NetWorld"
  assumes "routing_table_nearest RT valid bits rtinv contents"
    and "net_reach (simServe RT zeroKey asInfo) tr w" and "length tr + 2 < 2 ^ 64" and "w_now w < MaxTime"
    and "ready_pair a b n j w" and "0 \<le> timeout"
    and "map_of (ep_serverProtos (w_endpoints w ! b)) p = Some (Some q)"
    and "q < length (w_app w)" and "sv_endpoint (w_app w ! q) = b"
    and "rtinv (sv_rt (w_app w ! q))" and "valid target" and "0 < sv_numberOfCloserPeersToSend (w_app w ! q)"
    and "\<And>n' addr. NetworkAddress asInfo (w_endpoints w ! b) n' = Inr addr \<Longrightarrow> nodeKey (infoID addr) = nodeKey n'"
  shows "\<exists>w1 w' as. netStep (simServe RT zeroKey asInfo)
        (SendOp a p n (SimMessage (NewRequest target)) timeout (Some f)) w = Some w1 \<and>
      LiteSimulator_Run (netSim (simServe RT zeroKey asInfo)) \<lparr>ls_schedulers = [ep_sched (w_endpoints w ! a), j]\<rparr> w1 = Some w' \<and>
      w_now w' = w_now w \<and>
      w_calls w' = w_calls w @ [HandlerCall f (Some (SimMessage (NewResponse zeroKey as))) None] \<and>
      w_endpoints w' = (w_endpoints w)[a := fold learnNode as (fst (DialPeer (w_endpoints w ! a) n))] \<and>
      sched_acts (w_scheds w' ! j) = [] \<and> sched_acts (w_scheds w' ! ep_sched (w_endpoints w ! a)) = [] \<and>
      int (length as) \<le> sv_numberOfCloserPeersToSend (w_app w ! q) \<and>
      sorted_wrt (\<lambda>x y. bdist bits (nodeKey (infoID x)) target < bdist bits (nodeKey (infoID y)) target) as \<and>
      set as = {x. \<exists>n' \<in> ran (contents (sv_rt (w_app w ! q))).
        int (card {p \<in> ran (contents (sv_rt (w_app w ! q))).
          bdist bits (nodeKey p) target < bdist bits (nodeKey n') target}) < sv_numberOfCloserPeersToSend (w_app w ! q) \<and>
        NetworkAddress asInfo (w_endpoints w ! b) n' = Inr x}"
proof -
  let ?sv = "w_app w ! q" and ?me = "ep_self (w_endpoints w ! a)"
  have here: "endpointAt v b = Some (w_endpoints w ! b)"
    if "length (w_endpoints v) = length (w_endpoints w)" "w_endpoints v ! b = w_endpoints w ! b" for v
    using that assms(5) by (simp add: endpointAt_def ready_pair_def attached_def)
  obtain as where as: "simServe RT zeroKey asInfo q w ?me (SimMessage (NewRequest target)) =
      Some (Inr (SimMessage (NewResponse zeroKey as)))"
    "int (length as) \<le> sv_numberOfCloserPeersToSend ?sv \<and>
     sorted_wrt (\<lambda>x y. bdist bits (nodeKey (infoID x)) target < bdist bits (nodeKey (infoID y)) target) as \<and>
     set as = {x. \<exists>n' \<in> ran (contents (sv_rt ?sv)).
        int (card {p \<in> ran (contents (sv_rt ?sv)).
          bdist bits (nodeKey p) target < bdist bits (nodeKey n') target}) < sv_numberOfCloserPeersToSend ?sv \<and>
        NetworkAddress asInfo (w_endpoints w ! b) n' = Inr x}"
    using routing_table_nearest.HandleRequest_nearest [OF assms(1,10-13), where zeroKey = zeroKey and rpeer = ?me]
    unfolding routing_table_nearest.nearer_def [OF assms(1)]
    by (simp add: simServe_def here assms(8,9)) blast
  note inv = net_reach_inv [OF assms(2), of f]
  have w: "net.net_inv {} w" "unat (r_currStream (w_router w)) + 1 < 2 ^ 64" using inv assms(3) by linarith+
  have served: "\<forall>v :: ('k, 'a, 'm, 'f, nat, 'x, ('rt, nat) Server list) NetWorld.
      length (w_endpoints v) = length (w_endpoints w) \<longrightarrow> w_endpoints v ! b = w_endpoints w ! b \<longrightarrow> w_app v = w_app w \<longrightarrow>
      simServe RT zeroKey asInfo q v ?me (SimMessage (NewRequest target)) = Some (Inr (SimMessage (NewResponse zeroKey as)))"
    using as(1) assms(8,9) by (simp add: simServe_def here here [of w])
  have resp: "asResponse (SimMessage (NewResponse zeroKey as)) = Some \<lparr>CloserNodes = as\<rparr>"
    by (simp add: Message_CloserNodes_def NewResponse_def)
  obtain w1 w' where "netStep (simServe RT zeroKey asInfo) (SendOp a p n (SimMessage (NewRequest target)) timeout (Some f)) w = Some w1"
    "LiteSimulator_Run (netSim (simServe RT zeroKey asInfo)) \<lparr>ls_schedulers = [ep_sched (w_endpoints w ! a), j]\<rparr> w1 = Some w'"
    "w_now w' = w_now w" "w_calls w' = w_calls w @ [HandlerCall f (Some (SimMessage (NewResponse zeroKey as))) None]"
    "w_endpoints w' = (w_endpoints w)[a := fold learnNode (CloserNodes \<lparr>CloserNodes = as\<rparr>) (fst (DialPeer (w_endpoints w ! a) n))]"
    "sched_acts (w_scheds w' ! j) = []" "sched_acts (w_scheds w' ! ep_sched (w_endpoints w ! a)) = []"
    using request_run [where f = f and req = "SimMessage (NewRequest target)" and serve = "simServe RT zeroKey asInfo",
      OF w assms(5-7) served resp assms(4)]
    by (elim exE conjE) (rule that)
  with as(2) show ?thesis by (intro exI [of _ w1] exI [of _ w'] exI [of _ as]) (simp only: simp_thms Response.simps)
qed

definition send8 :: op8 where
  "send8 = SendOp 0 ''p'' (peer8 130) (SimMessage (NewRequest 128)) 5 (Some 7)"

theorem sim_request_answered_witness:
  "\<exists>w1 w' as. netStep serve8 send8 (world8 []) = Some w1 \<and>
     LiteSimulator_Run (netSim serve8) \<lparr>ls_schedulers = [0, 1]\<rparr> w1 = Some w' \<and>
     w_calls w' = [HandlerCall 7 (Some (SimMessage (NewResponse 0 as))) None] \<and> length as \<le> 4"
proof -
  have run: "netRun serve8 (start8 @ []) new8 \<noteq> None" by code_simp
  then have w: "netRun serve8 (start8 @ []) new8 = Some (world8 [])" by (auto simp: world8_def)
  have ready: "ready_pair 0 1 (peer8 130) 1 (world8 [])" by code_simp
  have sel: "map_of (ep_serverProtos (w_endpoints (world8 []) ! 1)) ''p'' = Some (Some 1)"
    "ep_sched (w_endpoints (world8 []) ! 0) = 0" "ep_peerstore (w_endpoints (world8 []) ! 1) = []" "w_calls (world8 []) = []"
    "w_now (world8 []) = 0"
    by code_simp+
  have app: "w_app (world8 []) = [NewServer triert8 0 None, NewServer triert8 1 None]"
    using app_netRun [OF w] by (simp add: start8_def new8_def newWorld_def)
  have sv: "1 < length (w_app (world8 []))" "sv_endpoint (w_app (world8 []) ! 1) = 1" "sv_rt (w_app (world8 []) ! 1) = triert8"
    "sv_numberOfCloserPeersToSend (w_app (world8 []) ! 1) = 4"
    by (simp_all add: app NewServer_def DefaultServerConfig_def)
  have rtinv: "trie_rt_inv (\<lambda>_. True) word_bits (sv_rt (w_app (world8 []) ! 1))" by (simp only: sv triert8_inv)
  have addr: "nodeKey (infoID x) = nodeKey n'"
    if "NetworkAddress (\<lambda>_. None) (w_endpoints (world8 []) ! 1) n' = Inr x" for n' x
    using that unfolding NetworkAddress_def sel by simp
  have small: "length (start8 @ []) + 2 < 2 ^ 64" by (simp add: start8_def)
  have now: "w_now (world8 []) < MaxTime" by (simp add: sel MaxTime_def Second_def)
  have "\<exists>w1 w' as. netStep serve8 send8 (world8 []) = Some w1 \<and>
      LiteSimulator_Run (netSim serve8) \<lparr>ls_schedulers = [0, 1]\<rparr> w1 = Some w' \<and>
      w_calls w' = w_calls (world8 []) @ [HandlerCall 7 (Some (SimMessage (NewResponse 0 as))) None] \<and> int (length as) \<le> 4"
    using sim_request_answered [OF key8.trt.routing_table_nearest_axioms world8_reach [OF run, unfolded serve8_def]
      _ now ready _ sel(1) sv(1,2) rtinv TrueI _ addr, of 5 128 7] small
    by (simp only: sv sel serve8_def send8_def) fastforce
  then show ?thesis by (simp add: sel)
qed

text \<open>C35: An answer that arrives after its timeout starts an exchange that never ends. The endpoint has
  dropped the stream, so that it takes the late answer for a request; when both endpoints serve the
  protocol with handlers that answer any message of the package, as its servers do, each answers the
  answer of the other. After any number of exchanges the same situation holds again: there is always an
  action to run, no response handler is ever called, and the clock does not advance. A simulator on the
  two schedulers does not return.\<close>

theorem sim_late_answer:
  assumes "late_answer a b p sid ha hb w" and "w_now w < MaxTime"
    and "\<And>v n m h. w_endpoints v = w_endpoints w \<Longrightarrow> w_app v = w_app w \<Longrightarrow> h \<in> {ha, hb} \<Longrightarrow>
      \<exists>r. serve h v n (SimMessage m) = Some (Inr (SimMessage r))"
  shows "(\<exists>w'. netRun serve (concat (replicate k
        [RunOp (ep_sched (w_endpoints w ! a)), RunOp (ep_sched (w_endpoints w ! b))])) w = Some w' \<and>
      late_answer a b p sid ha hb w' \<and> sched_queued (w_scheds w' ! ep_sched (w_endpoints w ! a)) \<noteq> [] \<and>
      w_calls w' = w_calls w \<and> w_now w' = w_now w) \<and>
    LiteSimulator_Run (netSim serve)
      \<lparr>ls_schedulers = [ep_sched (w_endpoints w ! a), ep_sched (w_endpoints w ! b)]\<rparr> w = None"
  using late_exchanges [where serve = serve, OF assms(1,3)] late_run [where serve = serve, OF assms] by blast

theorem sim_late_answer_witness:
  "late_answer 0 1 ''p'' 1 0 1 (world8 request_ops8) \<and>
   (\<forall>k. \<exists>w'. netRun serve8 (concat (replicate k [RunOp 0, RunOp 1])) (world8 request_ops8) = Some w' \<and>
     sched_queued (w_scheds w' ! 0) \<noteq> []) \<and>
   LiteSimulator_Run (netSim serve8) \<lparr>ls_schedulers = [0, 1]\<rparr> (world8 request_ops8) = None"
proof -
  let ?w = "world8 request_ops8"
  have late: "late_answer 0 1 ''p'' 1 0 1 ?w" by code_simp
  have w: "netRun serve8 (start8 @ request_ops8) new8 = Some ?w" using late8_run by (auto simp: world8_def)
  have sel: "ep_sched (w_endpoints ?w ! 0) = 0" "ep_sched (w_endpoints ?w ! 1) = 1" "length (w_endpoints ?w) = 2" "w_now ?w = 5"
    by code_simp+
  have app: "w_app ?w = [NewServer triert8 0 None, NewServer triert8 1 None]"
    using app_netRun [OF w] by (simp add: start8_def request_ops8_def new8_def newWorld_def)
  have answers: "\<exists>r. serve8 h v n (SimMessage m) = Some (Inr (SimMessage r))"
    if v: "w_endpoints v = w_endpoints ?w" "w_app v = w_app ?w" "h \<in> {0, 1}" for v n m h
  proof -
    obtain ns where "NearestNodes (TrieRT_methods Key8) triert8 (Message_Target m) 4 = Some ns"
      using key8.trt.NearestNodes_rank [OF triert8_inv TrueI, of 4 "Message_Target m"] by auto
    with v sel(3) show ?thesis
      by (auto simp: serve8_def simServe_def app endpointAt_def NewServer_def DefaultServerConfig_def HandleRequest_def
        HandleFindNodeRequest_def)
  qed
  have now: "w_now ?w < MaxTime" by (simp add: sel MaxTime_def Second_def)
  note late_all = sim_late_answer [where serve = serve8, OF late now answers, unfolded sel]
  show ?thesis using late late_all [THEN conjunct1] late_all [THEN conjunct2] by blast
qed

text \<open>C36: A run of the simulator that returns is a discrete-event simulation: it is a sequence of
  operations of the network, in which the clock only moves forward, to the earliest time at which one of
  the schedulers has an action. When it returns, no scheduler of the simulator has an action queued or
  planned before the end of time. If the simulator has all schedulers, every request with a timeout
  that was sent before has then been answered or has timed out.\<close>

theorem simulator_run:
  assumes "net_reach serve tr w" and "length tr + 1 < 2 ^ 64"
    and "LiteSimulator_Run (netSim serve) s w = Some w'"
  shows "netsim.sim_steps serve (set (ls_schedulers s)) w w' \<and> w_now w \<le> w_now w' \<and>
    (\<exists>ops. netRun serve ops w = Some w' \<and> net_reach serve (tr @ ops) w' \<and>
      (\<forall>op \<in> set ops. sim_op (set (ls_schedulers s)) op) \<and>
      (w_now w' < MaxTime \<longrightarrow>
        (\<forall>i \<in> set (ls_schedulers s). i < length (w_scheds w') \<longrightarrow> sched_queued (w_scheds w' ! i) = [] \<and>
          (\<forall>en \<in> set (sched_plan (w_scheds w' ! i)). MaxTime \<le> due en)) \<and>
        (set (ls_schedulers s) = {..< length (w_scheds w')} \<longrightarrow>
          (\<forall>sch \<in> set (w_scheds w'). \<forall>en \<in> set (sched_plan sch). due en < MaxTime) \<longrightarrow>
          length (tr @ ops) + 1 < 2 ^ 64 \<longrightarrow> timed_requests f tr \<le> called f w')))"
proof -
  let ?S = "set (ls_schedulers s)"
  have "net.net_inv {} w" using net_reach_inv [OF assms(1,2)] by blast
  then have "scheds_inv w" by (auto simp: scheds_inv_def net.net_inv_def net.sched_ok_def list_all_iff)
  from netsim.Run_law [OF this assms(3)]
  have R: "scheds_inv w'" "w_now w \<le> w_now w'" "netsim.sim_steps serve ?S w w'" "\<forall>i \<in> ?S. MaxTime \<le> net_due i w'" by auto
  obtain ops where ops: "netRun serve ops w = Some w'" "\<forall>op \<in> set ops. sim_op ?S op"
    using sim_steps_ops [OF R(3)] by blast
  have reach: "net_reach serve (tr @ ops) w'" by (rule netRun_reach [OF assms(1) ops(1)])
  have idle: "sched_queued (w_scheds w' ! i) = [] \<and> (\<forall>en \<in> set (sched_plan (w_scheds w' ! i)). MaxTime \<le> due en)"
    if "w_now w' < MaxTime" "i \<in> ?S" "i < length (w_scheds w')" for i
    using R(1) that due_none(1) [OF that(1), of i] due_far [OF _ that(1), of i] R(4)
    by (auto simp: scheds_inv_def list_all_length)
  have "timed_requests f tr \<le> called f w'"
    if now: "w_now w' < MaxTime" and all: "?S = {..< length (w_scheds w')}"
      and far: "\<forall>sch \<in> set (w_scheds w'). \<forall>en \<in> set (sched_plan sch). due en < MaxTime" and l: "length (tr @ ops) + 1 < 2 ^ 64"
  proof -
    have "sched_queued sch = [] \<and> sched_plan sch = []" if m: "sch \<in> set (w_scheds w')" for sch
    proof -
      obtain i where i: "i < length (w_scheds w')" "sch = w_scheds w' ! i" using m by (metis in_set_conv_nth)
      have I: "sched_queued sch = []" "\<forall>en \<in> set (sched_plan sch). MaxTime \<le> due en"
        using idle [OF now _ i(1)] all i by simp_all
      have "sched_plan sch = []"
      proof (cases "sched_plan sch")
        case (Cons e es)
        then have "MaxTime \<le> due e" "due e < MaxTime" using I(2) far m by simp_all
        then show ?thesis by simp
      qed
      with I(1) show ?thesis by simp
    qed
    then have "net_idle w'" by (simp add: net_idle_def list_all_iff)
    moreover have "timed_requests f (tr @ ops) = timed_requests f tr"
      using sim_ops_requests [OF ops(2), of f] by (simp add: timed_requests_def)
    ultimately show ?thesis using net_reach_inv [OF reach l, of f] idle_streams [of w' f] by auto
  qed
  with R(2,3) ops reach idle show ?thesis by (intro conjI exI [of _ ops]) blast+
qed

theorem simulator_run_witness:
  "\<exists>w'. LiteSimulator_Run (netSim serve8) \<lparr>ls_schedulers = [0, 1]\<rparr> (world8 [send8]) = Some w' \<and>
     netsim.sim_steps serve8 {0, 1} (world8 [send8]) w' \<and> 0 \<le> w_now w'"
proof -
  have run: "netRun serve8 (start8 @ [send8]) new8 \<noteq> None" by code_simp
  have "LiteSimulator_Run (netSim serve8) \<lparr>ls_schedulers = [0, 1]\<rparr> (world8 [send8]) \<noteq> None" by code_simp
  then obtain w' where w': "LiteSimulator_Run (netSim serve8) \<lparr>ls_schedulers = [0, 1]\<rparr> (world8 [send8]) = Some w'" by blast
  have "w_now (world8 [send8]) = 0" by code_simp
  moreover have "length (start8 @ [send8]) + 1 < 2 ^ 64" by (simp add: start8_def)
  ultimately show ?thesis using simulator_run [OF world8_reach [OF run] _ w', where f = 7] w' by (simp add: insert_commute)
qed

text \<open>Schedulers that are added to a simulator and removed again leave it as it was, if none of
  them is added twice, and \<open>Remove\<close> takes out the one that it is given. A scheduler that was added twice in
  succession makes \<open>Remove\<close> panic: the loop goes on over the slice that it has shortened.\<close>

theorem simulator_schedulers:
  assumes "distinct (ls_schedulers s @ scheds)"
  shows "RemoveSchedulers LiteSimulator_methods (AddSchedulers LiteSimulator_methods s scheds) scheds = Some s \<and>
    LiteSimulator_Remove s sched = Some (s\<lparr>ls_schedulers := remove1 sched (ls_schedulers s)\<rparr>) \<and>
    LiteSimulator_Remove (LiteSimulator_Add (LiteSimulator_Add NewLiteSimulator sched) sched) sched = None"
  using Add_Remove [OF assms] LiteSimulator_Remove_distinct [of s sched] Remove_twice [of sched] assms by simp

theorem simulator_schedulers_witness:
  "RemoveSchedulers LiteSimulator_methods (AddSchedulers LiteSimulator_methods \<lparr>ls_schedulers = [3, 1 :: nat]\<rparr> [4, 2]) [4, 2] =
     Some \<lparr>ls_schedulers = [3, 1]\<rparr> \<and>
   LiteSimulator_Remove \<lparr>ls_schedulers = [3, 1 :: nat]\<rparr> 3 = Some \<lparr>ls_schedulers = [1]\<rparr>"
  using simulator_schedulers [of "\<lparr>ls_schedulers = [3, 1 :: nat]\<rparr>" "[4, 2]" 3] by simp

end
