(* ===== verification/Full_Simulation.thy ===== *)
theory Full_Simulation
  imports Sim_Simulation Simple_Query_Run
begin

text \<open>
  The parts at work together: the query of \<open>query/simplequery\<close> on the endpoint of a node of the simulated
  network, run by the simulator, as \<open>examples/fullsim/findnode.go\<close> sets it up.

  \<^item> The world \<open>QWorld\<close> has the network, the query and the state of the handler of its results. The query
    shares its routing table with the server of its node; a response handler of the network is
    the peer that the request went to, and an action of the program is \<open>newRequest\<close>.
  \<^item> The calls that an action of a scheduler makes into the query are performed right after the action,
    before the scheduler is used again. The context of the query is not cancelled.
\<close>

section \<open>The query in the network\<close>

type_synonym ('k, 'a, 'm, 'rt) QNet =
  "('k, 'a, 'm, 'k NodeID, nat, unit, ('rt, nat) Server list) NetWorld"

type_synonym ('k, 'a, 'm, 'h, 'rt) NetQuery = "('k, ('k, 'a, 'm) AnyMessage, 'a, 'h, 'rt) SimpleQuery"

record ('k, 'a, 'm, 'h, 'rt) QWorld =
  qw_net :: "('k, 'a, 'm, 'rt) QNet"
  qw_query :: "('k, 'a, 'm, 'h, 'rt) NetQuery"
  qw_handled :: 'h
  qw_failures :: nat

text \<open>What the program fixes: the methods of the types, the endpoint \<open>qe\<close> of the query and the server
  \<open>qs\<close> whose routing table it shares.\<close>

record ('k, 'a, 'rt) QEnv =
  q_key :: "'k Key"
  q_table :: "('k, 'rt) RoutingTable"
  q_addrEqual :: "'a \<Rightarrow> 'a \<Rightarrow> bool"
  q_sort :: sliceSort
  q_zero :: 'k
  q_endpoint :: nat
  q_server :: nat

definition envServe :: "('k, 'a, 'rt) QEnv \<Rightarrow> ('k, 'a, 'm, 'k NodeID, nat, unit, ('rt, nat) Server list) Serve" where
  "envServe Q = simServe (q_table Q) (q_zero Q) (\<lambda>_. None)"

text \<open>The endpoint as the query sees it.\<close>

definition endpointNet :: "('k, 'a, 'f, 'q, 'h) Endpoint \<Rightarrow> ('k, 'a) network" where
  "endpointNet ep i =
     (case NetworkAddress (\<lambda>_. None) ep i of
        Inl err \<Rightarrow> (None, Some ''unknown peer'')
      | Inr na \<Rightarrow> (Some na, None))"

text \<open>
  The endpoint meets what the properties of the query ask of its surroundings (\<open>event_ok\<close>), as it learns
  the nodes of an answer before the query sees it: it does not forget a peer, and a peer has a fresh
  address only if an answer gave it one.
\<close>

lemma endpointNet_ok: "net_ok (endpointNet ep)"
  by (simp add: net_ok_def endpointNet_def split: sum.splits)

lemma endpointNet_learn:
  "endpointNet (learnNode p ep) i = (if nodeString i = nodeString (infoID p) then (Some p, None) else endpointNet ep i)"
  by (simp add: endpointNet_def NetworkAddress_def learnNode_def update_conv')

lemma learn_known_queued: "known_queued (endpointNet ep) pl \<Longrightarrow> known_queued (endpointNet (learnNode p ep)) pl"
  by (simp add: known_queued_def endpointNet_learn)

lemma learn_nothing_fresh:
  assumes "nothing_fresh aeq (endpointNet ep) pl"
    and "\<And>x a. x \<in> set (peers pl) \<Longrightarrow> nodeString (ni_id x) = nodeString (infoID p) \<Longrightarrow> a \<in> set (infoAddresses p) \<Longrightarrow>
      list_ex (aeq a) (ni_addrs x)"
  shows "nothing_fresh aeq (endpointNet (learnNode p ep)) pl"
  using assms by (auto simp: nothing_fresh_def endpointNet_ok fresh_addr_def endpointNet_learn list_ex_iff)

fun effectOp :: "nat \<Rightarrow> nat \<Rightarrow> ('k, ('k, 'a, 'm) AnyMessage) SQEffect \<Rightarrow>
   ('k, 'a, 'm, 'k NodeID, nat, unit, ('rt, nat) Server list) NetOp list" where
  "effectOp e sched EnqueueNewRequest = [EnqueueOp sched ()]"
| "effectOp e sched (SendRequest pid i req timeout) = [SendOp e pid i (reqMessage req) timeout (Some i)]"
| "effectOp e sched NotifyFailure = []"

text \<open>The effects of the query on the network, and its routing table given back to the server.\<close>

definition applyQuery ::
  "('k, 'a, 'rt) QEnv \<Rightarrow> nat \<Rightarrow> ('k, 'a, 'm, 'h, 'rt) NetQuery \<Rightarrow> 'h \<Rightarrow> ('k, ('k, 'a, 'm) AnyMessage) SQEffect list \<Rightarrow>
   ('k, 'a, 'm, 'h, 'rt) QWorld \<Rightarrow> ('k, 'a, 'm, 'h, 'rt) QWorld option" where
  "applyQuery Q sched q h effs w = do {
     net \<leftarrow> netRun (envServe Q) (concat (map (effectOp (q_endpoint Q) sched) effs)) (qw_net w);
     Some \<lparr>qw_net = net\<lparr>w_app := (w_app net)[q_server Q := (w_app net ! q_server Q)\<lparr>sv_rt := sq_rt q\<rparr>]\<rparr>,
       qw_query = q, qw_handled = h, qw_failures = qw_failures w + length (filter (\<lambda>x. x = NotifyFailure) effs)\<rparr>
   }"

text \<open>A call into the query: \<open>newRequest\<close>, or the response handler of a request.\<close>

definition queryCall ::
  "('k, 'a, 'rt) QEnv \<Rightarrow> ('k, 'a, 'm, 'k NodeID, unit) Call \<Rightarrow> ('k, 'a, 'm, 'h, 'rt) QWorld \<Rightarrow>
   ('k, 'a, 'm, 'h, 'rt) QWorld option" where
  "queryCall Q call w = do {
     ep \<leftarrow> endpointAt (qw_net w) (q_endpoint Q);
     (case call of
        AppCall _ \<Rightarrow> do {
          (q, effs) \<leftarrow> newRequest (q_key Q) (q_table Q) (endpointNet ep) (\<lambda>_. None) (\<lambda>_. None) (qw_query w);
          applyQuery Q (ep_sched ep) q (qw_handled w) effs w
        }
      | HandlerCall i resp (Some err) \<Rightarrow> do {
          (q, effs) \<leftarrow> requestError (q_key Q) (q_table Q) (\<lambda>_. None) (qw_query w) i;
          applyQuery Q (ep_sched ep) q (qw_handled w) effs w
        }
      | HandlerCall i resp None \<Rightarrow> do {
          (q, h, effs) \<leftarrow> handleResponse (q_key Q) (q_table Q) (q_addrEqual Q) (q_sort Q) (endpointNet ep) (\<lambda>_. None)
            (qw_query w) (qw_handled w) i (Option.bind resp asResponse);
          applyQuery Q (ep_sched ep) q h effs w
        })
   }"

fun queryCalls ::
  "('k, 'a, 'rt) QEnv \<Rightarrow> ('k, 'a, 'm, 'k NodeID, unit) Call list \<Rightarrow> ('k, 'a, 'm, 'h, 'rt) QWorld \<Rightarrow>
   ('k, 'a, 'm, 'h, 'rt) QWorld option" where
  "queryCalls Q [] w = Some w"
| "queryCalls Q (c # cs) w = do { w' \<leftarrow> queryCall Q c w; queryCalls Q cs w' }"

definition QWorld_RunOne ::
  "('k, 'a, 'rt) QEnv \<Rightarrow> nat \<Rightarrow> ('k, 'a, 'm, 'h, 'rt) QWorld \<Rightarrow> ('k, 'a, 'm, 'h, 'rt) QWorld option" where
  "QWorld_RunOne Q i w = do {
     (net, _) \<leftarrow> World_RunOne (envServe Q) i (qw_net w);
     queryCalls Q (drop (length (w_calls (qw_net w))) (w_calls net)) (w\<lparr>qw_net := net\<rparr>)
   }"

definition querySim :: "('k, 'a, 'rt) QEnv \<Rightarrow> (nat, ('k, 'a, 'm, 'h, 'rt) QWorld) SimMethods" where
  "querySim Q =
     \<lparr>smRunOne = QWorld_RunOne Q,
      smNextActionTime = (\<lambda>i w. map_option (\<lambda>(net, t). (w\<lparr>qw_net := net\<rparr>, t)) (World_NextActionTime i (qw_net w))),
      smNow = (\<lambda>w. w_now (qw_net w)),
      smSet = (\<lambda>t w. w\<lparr>qw_net := (qw_net w)\<lparr>w_now := t\<rparr>\<rparr>)\<rparr>"

section \<open>A run of the query is a run of the network\<close>

text \<open>A transition of the network by its operations, at one instant.\<close>

definition net_moves ::
  "('k, 'a, 'm, 'f, 'q, 'x, 'u) Serve \<Rightarrow> ('k, 'a, 'm, 'f, 'q, 'x, 'u) NetWorld \<Rightarrow> ('k, 'a, 'm, 'f, 'q, 'x, 'u) NetWorld \<Rightarrow> bool" where
  "net_moves serve v v' \<longleftrightarrow> (scheds_inv v \<longrightarrow> scheds_inv v') \<and> w_now v' = w_now v \<and> (\<exists>ops. netRun serve ops v = Some v')"

lemma net_moves_refl: "net_moves serve v v"
  unfolding net_moves_def by (metis netRun.simps(1))

lemma net_moves_trans: "net_moves serve v v1 \<Longrightarrow> net_moves serve v1 v2 \<Longrightarrow> net_moves serve v v2"
  unfolding net_moves_def by (metis netRun_append Option.bind_lunit)

lemma net_moves_step: "netStep serve op v = Some v' \<Longrightarrow> keeps v v' \<Longrightarrow> net_moves serve v v'"
  unfolding net_moves_def keeps_def by (intro conjI exI [of _ "[op]"]) auto

lemma effect_moves:
  "netRun serve (concat (map (effectOp e i) effs)) v = Some v' \<Longrightarrow> net_moves serve v v'"
proof (induction effs arbitrary: v)
  case (Cons eff effs)
  then obtain v1 where v1: "netRun serve (effectOp e i eff) v = Some v1" "netRun serve (concat (map (effectOp e i) effs)) v1 = Some v'"
    by (auto simp: netRun_append bind_eq_Some)
  have "net_moves serve v v1"
  proof (cases eff)
    case EnqueueNewRequest
    with v1(1) have s: "netStep serve (EnqueueOp i ()) v = Some v1" by (auto simp: bind_eq_Some)
    then show ?thesis by (intro net_moves_step [OF s]) (auto dest: keeps_enqueueOn)
  next
    case (SendRequest pid n req timeout)
    with v1(1) have s: "netStep serve (SendOp e pid n (reqMessage req) timeout (Some n)) v = Some v1" by (auto simp: bind_eq_Some)
    then show ?thesis by (intro net_moves_step [OF s]) (auto dest: keeps_Send)
  next
    case NotifyFailure
    with v1(1) show ?thesis by (simp add: net_moves_refl)
  qed
  with Cons.IH [OF v1(2)] show ?case by (rule net_moves_trans [rotated])
qed (simp add: net_moves_refl)

lemma applyQuery_moves:
  assumes "applyQuery Q i q h effs w = Some w'"
  shows "net_moves (envServe Q) (qw_net w) (qw_net w')"
proof -
  obtain v where v: "netRun (envServe Q) (concat (map (effectOp (q_endpoint Q) i) effs)) (qw_net w) = Some v"
    and w': "qw_net w' = v\<lparr>w_app := (w_app v)[q_server Q := (w_app v ! q_server Q)\<lparr>sv_rt := sq_rt q\<rparr>]\<rparr>"
    using assms by (auto simp: applyQuery_def bind_eq_Some)
  have "net_moves (envServe Q) v (qw_net w')"
    unfolding net_moves_def by (intro conjI exI [of _ "[AppOp (w_app (qw_net w'))]"]) (simp_all add: w' scheds_inv_def)
  then show ?thesis by (rule net_moves_trans [OF effect_moves [OF v]])
qed

lemma queryCall_moves:
  "queryCall Q c w = Some w' \<Longrightarrow> net_moves (envServe Q) (qw_net w) (qw_net w')"
proof (cases c)
  case (HandlerCall i resp err)
  then show "queryCall Q c w = Some w' \<Longrightarrow> net_moves (envServe Q) (qw_net w) (qw_net w')"
    by (cases err) (auto simp: queryCall_def bind_eq_Some dest: applyQuery_moves)
qed (auto simp: queryCall_def bind_eq_Some dest: applyQuery_moves)

lemma queryCalls_moves:
  "queryCalls Q cs w = Some w' \<Longrightarrow> net_moves (envServe Q) (qw_net w) (qw_net w')"
  by (induction cs arbitrary: w) (auto simp: net_moves_refl bind_eq_Some dest: queryCall_moves intro: net_moves_trans)

lemma QWorld_RunOne_moves:
  assumes "QWorld_RunOne Q i w = Some w'"
  shows "net_moves (envServe Q) (qw_net w) (qw_net w')"
proof -
  obtain v did where v: "World_RunOne (envServe Q) i (qw_net w) = Some (v, did)"
    "queryCalls Q (drop (length (w_calls (qw_net w))) (w_calls v)) (w\<lparr>qw_net := v\<rparr>) = Some w'"
    using assms by (auto simp: QWorld_RunOne_def bind_eq_Some)
  have "net_moves (envServe Q) (qw_net w) v"
    by (rule net_moves_step [of _ "RunOp i"]) (use v(1) keeps_RunOne [OF v(1)] in simp_all)
  with queryCalls_moves [OF v(2)] show ?thesis by (auto intro: net_moves_trans)
qed

lemma querySim_sel [simp]: "smRunOne (querySim Q) = QWorld_RunOne Q"
  "smNow (querySim Q) w = w_now (qw_net w)" "smSet (querySim Q) t w = w\<lparr>qw_net := (qw_net w)\<lparr>w_now := t\<rparr>\<rparr>"
  "smNextActionTime (querySim Q) i w = Some (w', t) \<longleftrightarrow>
     (\<exists>v. World_NextActionTime i (qw_net w) = Some (v, t) \<and> w' = w\<lparr>qw_net := v\<rparr>)"
  by (auto simp: querySim_def)

lemma querySim_next:
  "scheds_inv (qw_net w) \<Longrightarrow> smNextActionTime (querySim Q) i w = Some (w', t) \<Longrightarrow>
   scheds_inv (qw_net w') \<and> t = net_due i (qw_net w) \<and> smNow (querySim Q) w' = smNow (querySim Q) w \<and>
   (\<forall>j. net_due j (qw_net w') = net_due j (qw_net w))"
  using netSim_next [of "qw_net w" "envServe Q" i "qw_net w'" t] by auto

lemma querySim_run:
  "scheds_inv (qw_net w) \<Longrightarrow> smRunOne (querySim Q) i w = Some w' \<Longrightarrow>
   scheds_inv (qw_net w') \<and> smNow (querySim Q) w' = smNow (querySim Q) w"
  using QWorld_RunOne_moves [of Q i w w'] by (simp add: net_moves_def)

lemma querySim_set:
  "scheds_inv (qw_net w) \<Longrightarrow> smNow (querySim Q) w \<le> t \<Longrightarrow>
   scheds_inv (qw_net (smSet (querySim Q) t w)) \<and> smNow (querySim Q) (smSet (querySim Q) t w) = t"
  by (simp add: scheds_inv_def)

interpretation qsim: aware_schedulers "querySim Q" "\<lambda>w. scheds_inv (qw_net w)" "\<lambda>i w. net_due i (qw_net w)" for Q
  by (rule aware_schedulers.intro [OF querySim_next querySim_run querySim_set])

lemma qsim_step_run: "qsim.sim_step Q S w w' \<Longrightarrow> \<exists>ops. netRun (envServe Q) ops (qw_net w) = Some (qw_net w')"
proof (induction rule: qsim.sim_step.induct)
  case (sim_ask i w w' t)
  then show ?case by (intro exI [of _ "[PollOp i]"]) auto
next
  case (sim_run i w w')
  then show ?case using QWorld_RunOne_moves [of Q i w w'] by (auto simp: net_moves_def)
next
  case (sim_tick i w t)
  then show ?case by (intro exI [of _ "[AdvanceOp (t - w_now (qw_net w))]"]) simp
qed

lemma qsim_steps_run: "qsim.sim_steps Q S w w' \<Longrightarrow> \<exists>ops. netRun (envServe Q) ops (qw_net w) = Some (qw_net w')"
proof (induction rule: rtranclp_induct)
  case base
  show ?case by (intro exI [of _ "[]"]) simp
next
  case (step v u)
  then obtain ops ops' where "netRun (envServe Q) ops (qw_net w) = Some (qw_net v)" "netRun (envServe Q) ops' (qw_net v) = Some (qw_net u)"
    using qsim_step_run by metis
  then show ?case by (intro exI [of _ "ops @ ops'"]) (simp add: netRun_append)
qed

section \<open>The example\<close>

text \<open>The nodes of the example are the keys from 0 on, without addresses; scheduler, endpoint and
  server of node \<open>k\<close> have the index \<open>k\<close>.\<close>

definition nodeOf :: "nat \<Rightarrow> key8 NodeID" where
  "nodeOf k = \<lparr>nodeKey = word_of_nat k, nodeString = Key8_HexString (word_of_nat k)\<rparr>"

definition infoOf :: "nat \<Rightarrow> (key8, unit) NodeInfo" where
  "infoOf k = \<lparr>infoID = nodeOf k, infoAddresses = []\<rparr>"

definition protoID :: string where
  "protoID = ''/test/1.0.0''"

definition examplePeerstoreTTL :: duration where
  "examplePeerstoreTTL = 10 * 60 * Second"

type_synonym exampleNet = "(key8, unit, unit, key8 SimpleRT) QNet"

type_synonym exampleWorld = "(key8, unit, unit, key8 NodeID list \<times> bool, key8 SimpleRT) QWorld"

definition exampleEnv :: "(key8, unit, key8 SimpleRT) QEnv" where
  "exampleEnv = \<lparr>q_key = Key8, q_table = RoutingTable.truncate (SimpleRT_methods Key8), q_addrEqual = (\<lambda>_ _. True),
     q_sort = sliceStable, q_zero = 0, q_endpoint = 0, q_server = 0\<rparr>"

definition addToTable :: "nat \<Rightarrow> key8 NodeID \<Rightarrow> exampleNet \<Rightarrow> exampleNet option" where
  "addToTable k n net = do {
     (rt, _) \<leftarrow> SimpleRT_AddNode Key8 (sv_rt (w_app net ! k)) n;
     Some (net\<lparr>w_app := (w_app net)[k := (w_app net ! k)\<lparr>sv_rt := rt\<rparr>]\<rparr>)
   }"

definition connectNodes :: "nat \<Rightarrow> nat \<Rightarrow> exampleNet \<Rightarrow> exampleNet option" where
  "connectNodes n0 n1 net = do {
     net \<leftarrow> netStep (envServe exampleEnv) (PeerstoreOp n0 (infoOf n1) examplePeerstoreTTL) net;
     net \<leftarrow> addToTable n0 (nodeOf n1) net;
     net \<leftarrow> netStep (envServe exampleEnv) (PeerstoreOp n1 (infoOf n0) examplePeerstoreTTL) net;
     addToTable n1 (nodeOf n0) net
   }"

text \<open>The handler of the results notes who answered and whether the node was found.\<close>

definition handleResFn :: "key8 \<Rightarrow> (key8, unit, key8 NodeID list \<times> bool) HandleResult" where
  "handleResFn wanted = \<lparr>handleResult = (\<lambda>(seen, success) i resp.
     if list_ex (\<lambda>peer. nodeKey (infoID peer) = wanted) (CloserNodes resp) then ((seen @ [i], True), True, [])
     else ((seen @ [i], success), False, map (\<lambda>peer. Some (infoID peer)) (CloserNodes resp)))\<rparr>"

definition exampleNodes :: "exampleNet option" where
  "exampleNodes = do {
     net \<leftarrow> netRun (envServe exampleEnv)
       (concat (map (\<lambda>k. [NewSchedulerOp, NewEndpointOp (nodeOf k) k True, AddHandlerOp k protoID (Some k)]) [0, 1, 2, 3]))
       (newWorld 0 (map (\<lambda>k. NewServer (SimpleRT_New (nodeOf k) 2) k (Some DefaultServerConfig)) [0, 1, 2, 3]));
     net \<leftarrow> connectNodes 0 1 net;
     net \<leftarrow> connectNodes 1 2 net;
     connectNodes 2 3 net
   }"

definition exampleOptions :: "key8 SimpleRT \<Rightarrow> (key8, unit, key8 NodeID list \<times> bool, key8 SimpleRT) SQOption list" where
  "exampleOptions rt =
     [WithProtocolID protoID, WithConcurrency 1, WithRequestTimeout Second, WithHandleResultsFunc (Some (handleResFn (nodeKey (nodeOf 3)))),
      WithRoutingTable (Some rt), WithEndpoint (Some True), WithScheduler (Some ())]"

definition exampleQuery ::
  "exampleNet \<Rightarrow> ((key8, unit, unit, key8 NodeID list \<times> bool, key8 SimpleRT) NetQuery \<times> (key8, (key8, unit, unit) AnyMessage) SQEffect list) option" where
  "exampleQuery net = do {
     ep \<leftarrow> endpointAt net 0;
     r \<leftarrow> NewSimpleQuery (q_key exampleEnv) (q_table exampleEnv) (q_addrEqual exampleEnv) (q_sort exampleEnv) (endpointNet ep)
       (nodeOf 0) \<lparr>Target = nodeKey (nodeOf 3), reqMessage = SimMessage (NewRequest (nodeKey (nodeOf 3)))\<rparr>
       (exampleOptions (sv_rt (w_app net ! 0)));
     (case r of Inl err \<Rightarrow> None | Inr q \<Rightarrow> Some q)
   }"

definition exampleStart :: "exampleWorld option" where
  "exampleStart = do {
     net \<leftarrow> exampleNodes;
     (q, effs) \<leftarrow> exampleQuery net;
     applyQuery exampleEnv 0 q ([], False) effs \<lparr>qw_net = net, qw_query = q, qw_handled = ([], False), qw_failures = 0\<rparr>
   }"

definition findNode :: "exampleWorld option" where
  "findNode = do {
     w \<leftarrow> exampleStart;
     LiteSimulator_Run (querySim exampleEnv) (AddSchedulers LiteSimulator_methods NewLiteSimulator [0, 1, 2, 3]) w
   }"

section \<open>Properties\<close>

text \<open>A simple query that is run by the simulator on the endpoint of a node only does to the network what the
  network's operations do, so that everything proved of the network holds of it: when the simulator
  returns, the schedulers are idle, the clock has not gone back, and every peer that the query
  asked has been the subject of as many handler calls as requests were sent to it, less those
  that the network still owes. Each request of the query is answered at most once.\<close>

theorem query_on_network:
  assumes "net_reach (envServe Q) tr (qw_net w)" and "length tr + 1 < 2 ^ 64"
    and "LiteSimulator_Run (querySim Q) s w = Some w'"
  shows "w_now (qw_net w) \<le> w_now (qw_net w') \<and>
    (w_now (qw_net w') < MaxTime \<longrightarrow> (\<forall>i \<in> set (ls_schedulers s). i < length (w_scheds (qw_net w')) \<longrightarrow>
       sched_queued (w_scheds (qw_net w') ! i) = [] \<and>
       (\<forall>en \<in> set (sched_plan (w_scheds (qw_net w') ! i)). MaxTime \<le> due en))) \<and>
    (\<exists>ops. net_reach (envServe Q) (tr @ ops) (qw_net w') \<and>
      (length (tr @ ops) + 1 < 2 ^ 64 \<longrightarrow>
        (\<forall>i. called i (qw_net w') + held sched_acts i (qw_net w') = requests i (tr @ ops))))"
proof -
  have "net.net_inv {} (qw_net w)" using net_reach_inv [OF assms(1,2)] by blast
  then have "scheds_inv (qw_net w)" by (auto simp: scheds_inv_def net.net_inv_def net.sched_ok_def list_all_iff)
  from qsim.Run_law [OF this assms(3)]
  have R: "scheds_inv (qw_net w')" "w_now (qw_net w) \<le> w_now (qw_net w')" "qsim.sim_steps Q (set (ls_schedulers s)) w w'"
    "\<forall>i \<in> set (ls_schedulers s). MaxTime \<le> net_due i (qw_net w')" by auto
  obtain ops where ops: "netRun (envServe Q) ops (qw_net w) = Some (qw_net w')" using qsim_steps_run [OF R(3)] by blast
  note reach = netRun_reach [OF assms(1) ops]
  have "sched_queued (w_scheds (qw_net w') ! i) = [] \<and> (\<forall>en \<in> set (sched_plan (w_scheds (qw_net w') ! i)). MaxTime \<le> due en)"
    if "w_now (qw_net w') < MaxTime" "i \<in> set (ls_schedulers s)" "i < length (w_scheds (qw_net w'))" for i
    using R(1) that due_none(1) [OF that(1), of i] due_far [OF _ that(1), of i] R(4)
    by (auto simp: scheds_inv_def list_all_length)
  moreover have "called i (qw_net w') + held sched_acts i (qw_net w') = requests i (tr @ ops)" if "length (tr @ ops) + 1 < 2 ^ 64" for i
    using net_reach_inv [OF reach that, of i] by blast
  ultimately show ?thesis using R(2) reach by blast
qed

declare overdueLoop.simps [code] insertAfter.simps [code] unlinkLoop.simps [code] splitLoop.simps [code]
  batchLoop.simps [code] dispatchLoop.simps [code]

lemma findNode_run:
  "map_option (\<lambda>w. (qw_handled w, sq_done (qw_query w), qw_failures w, w_now (qw_net w),
      list_all (\<lambda>sch. sched_queued sch = [] \<and> sched_plan sch = []) (w_scheds (qw_net w)))) findNode =
    Some (([nodeOf 1, nodeOf 2], True), True, 0, 0, True)"
  by code_simp

text \<open>The full simulation of the repository ends as its comments say: the simulator returns; node 0 has asked
  node 1, which it knows, and then node 2, of which node 1 told it, and has found node 3; the query is done
  without a failure, no time has passed, and nothing is left with the schedulers.\<close>

theorem findNode_success:
  "\<exists>w. findNode = Some w \<and> qw_handled w = ([nodeOf 1, nodeOf 2], True) \<and> sq_done (qw_query w) \<and> qw_failures w = 0 \<and>
     w_now (qw_net w) = 0 \<and> list_all (\<lambda>sch. sched_queued sch = [] \<and> sched_plan sch = []) (w_scheds (qw_net w))"
  using findNode_run by auto

section \<open>The example is a reachable network\<close>

lemma addToTable_step: "addToTable k n v = Some v' \<Longrightarrow> netStep (envServe exampleEnv) (AppOp (w_app v')) v = Some v'"
  by (auto simp: addToTable_def bind_eq_Some)

lemma connectNodes_run:
  "connectNodes a b v = Some v' \<Longrightarrow> \<exists>ops. length ops = 4 \<and> netRun (envServe exampleEnv) ops v = Some v'"
proof -
  assume "connectNodes a b v = Some v'"
  then obtain v1 v2 v3 where v: "netStep (envServe exampleEnv) (PeerstoreOp a (infoOf b) examplePeerstoreTTL) v = Some v1"
    "addToTable a (nodeOf b) v1 = Some v2"
    "netStep (envServe exampleEnv) (PeerstoreOp b (infoOf a) examplePeerstoreTTL) v2 = Some v3"
    "addToTable b (nodeOf a) v3 = Some v'"
    by (auto simp: connectNodes_def bind_eq_Some simp del: netStep.simps)
  then show ?thesis
    by (intro exI [of _ "[PeerstoreOp a (infoOf b) examplePeerstoreTTL, AppOp (w_app v2),
        PeerstoreOp b (infoOf a) examplePeerstoreTTL, AppOp (w_app v')]"])
      (simp add: addToTable_step del: netStep.simps)
qed

lemma exampleNodes_reach:
  assumes "exampleNodes = Some v"
  shows "\<exists>tr. length tr = 24 \<and> net_reach (envServe exampleEnv) tr v"
proof -
  let ?ops = "concat (map (\<lambda>k. [NewSchedulerOp, NewEndpointOp (nodeOf k) k True, AddHandlerOp k protoID (Some k)]) [0, 1, 2, 3])"
  obtain v0 v1 v2 where v: "netRun (envServe exampleEnv) ?ops
      (newWorld 0 (map (\<lambda>k. NewServer (SimpleRT_New (nodeOf k) 2) k (Some DefaultServerConfig)) [0, 1, 2, 3])) = Some v0"
    "connectNodes 0 1 v0 = Some v1" "connectNodes 1 2 v1 = Some v2" "connectNodes 2 3 v2 = Some v"
    using assms by (auto simp: exampleNodes_def bind_eq_Some simp del: netRun.simps concat.simps list.map)
  from netRun_reach [OF net_start v(1)] have "net_reach (envServe exampleEnv) ?ops v0" by simp
  moreover obtain o1 o2 o3 where "netRun (envServe exampleEnv) o1 v0 = Some v1" "netRun (envServe exampleEnv) o2 v1 = Some v2"
    "netRun (envServe exampleEnv) o3 v2 = Some v" and o: "length o1 = 4" "length o2 = 4" "length o3 = 4"
    using connectNodes_run [OF v(2)] connectNodes_run [OF v(3)] connectNodes_run [OF v(4)] by blast
  ultimately have "net_reach (envServe exampleEnv) (((?ops @ o1) @ o2) @ o3) v" by (meson netRun_reach)
  moreover have "length (((?ops @ o1) @ o2) @ o3) = 24" using o by simp
  ultimately show ?thesis by blast
qed

lemma exampleQuery_one:
  "case Option.bind exampleNodes exampleQuery of None \<Rightarrow> False | Some (q, effs) \<Rightarrow> effs = [EnqueueNewRequest]"
  by code_simp

lemma exampleStart_reach:
  assumes "exampleStart = Some w"
  shows "\<exists>tr. length tr = 26 \<and> net_reach (envServe exampleEnv) tr (qw_net w)"
proof -
  obtain v where n: "exampleNodes = Some v" using assms by (cases exampleNodes) (simp_all add: exampleStart_def)
  obtain q effs where m: "exampleQuery v = Some (q, effs)"
    using assms unfolding exampleStart_def n by (cases "exampleQuery v") auto
  have "applyQuery exampleEnv 0 q ([], False) effs \<lparr>qw_net = v, qw_query = q, qw_handled = ([], False), qw_failures = 0\<rparr> = Some w"
    using assms unfolding exampleStart_def n by (simp add: m)
  note v = n m this
  obtain tr where tr: "length tr = 24" "net_reach (envServe exampleEnv) tr v" using exampleNodes_reach [OF v(1)] by blast
  have "effs = [EnqueueNewRequest]" using exampleQuery_one unfolding v(1) by (simp add: v(2))
  with v(3) obtain u where u: "netRun (envServe exampleEnv) [EnqueueOp 0 ()] v = Some u"
    and w: "qw_net w = u\<lparr>w_app := (w_app u)[q_server exampleEnv := (w_app u ! q_server exampleEnv)\<lparr>sv_rt := sq_rt q\<rparr>]\<rparr>"
    by (auto simp: applyQuery_def bind_eq_Some simp del: netRun.simps)
  have "netRun (envServe exampleEnv) [AppOp (w_app (qw_net w))] u = Some (qw_net w)" by (simp add: w)
  then have "netRun (envServe exampleEnv) ([EnqueueOp 0 ()] @ [AppOp (w_app (qw_net w))]) v = Some (qw_net w)"
    unfolding netRun_append u by (simp only: Option.bind.simps)
  from netRun_reach [OF tr(2) this] tr(1) show ?thesis by (intro exI [of _ "tr @ ([EnqueueOp 0 ()] @ [AppOp (w_app (qw_net w))])"]) simp
qed

theorem query_on_network_witness:
  "\<exists>w w'. exampleStart = Some w \<and> findNode = Some w' \<and> qw_handled w' = ([nodeOf 1, nodeOf 2], True) \<and>
     (\<exists>tr. net_reach (envServe exampleEnv) tr (qw_net w'))"
proof -
  obtain w' where f: "findNode = Some w'" "qw_handled w' = ([nodeOf 1, nodeOf 2], True)" using findNode_run by auto
  obtain w where "exampleStart = Some w" using f(1) unfolding findNode_def by (cases exampleStart) auto
  note w = this f(1)
  then have run: "LiteSimulator_Run (querySim exampleEnv) (AddSchedulers LiteSimulator_methods NewLiteSimulator [0, 1, 2, 3]) w = Some w'"
    using w(2) unfolding findNode_def w(1) by (simp only: Option.bind.simps)
  obtain tr where tr: "length tr = 26" "net_reach (envServe exampleEnv) tr (qw_net w)" using exampleStart_reach [OF w(1)] by blast
  have "length tr + 1 < 2 ^ 64" by (simp add: tr(1))
  from query_on_network [OF tr(2) this run] have "\<exists>tr. net_reach (envServe exampleEnv) tr (qw_net w')" by blast
  with w f(2) show ?thesis by blast
qed

end
