(* ===== verification/Libp2p_Messages.thy ===== *)
theory Libp2p_Messages
  imports Sim_Endpoint Key_Types
begin

text \<open>
  The messages and identifiers of the package \<open>libp2p\<close>: \<open>peerid.go\<close>, \<open>addrinfo.go\<close>, \<open>errors.go\<close> and
  \<open>helpers.go\<close>.

  \<^item> A \<open>peer.ID\<close> is a Go string that is used as a sequence of bytes; a multiaddress is a value of type
    \<open>'a\<close>. What the code calls of go-libp2p, go-multihash and go-multiaddr is the record \<open>Libp2p\<close>, and
    \<open>libp2p_laws\<close> is what their documentation promises.
  \<^item> The dynamic type of a \<open>kad.NodeID\<close> is not part of the record of its methods; the argument
    \<open>asPeerID\<close> is the type assertion to \<open>*PeerID\<close>.
  \<^item> Of the generated \<open>message.pb.go\<close> the code uses the fields of the structs and their getters.
\<close>

section \<open>Identifiers\<close>

type_synonym PeerID = "8 word list"

record 'a Libp2p =
  sha256 :: "8 word list \<Rightarrow> 8 word list"
  peerString :: "PeerID \<Rightarrow> string"
  peerMarshal :: "PeerID \<Rightarrow> 8 word list"
  peerUnmarshal :: "8 word list \<Rightarrow> PeerID option"
  multiaddrParse :: "8 word list \<Rightarrow> 'a option"
  multiaddrBytes :: "'a \<Rightarrow> 8 word list"

definition libp2p_laws :: "'a Libp2p \<Rightarrow> bool" where
  "libp2p_laws L \<longleftrightarrow>
     (\<forall>b. length (sha256 L b) = 32) \<and>
     (\<forall>a. multiaddrParse L (multiaddrBytes L a) = Some a)"

text \<open>An identifier that is a multihash: it can be read back from its bytes.\<close>

definition valid_peer :: "'a Libp2p \<Rightarrow> PeerID \<Rightarrow> bool" where
  "valid_peer L p \<longleftrightarrow> peerUnmarshal L (peerMarshal L p) = Some p"

definition NewPeerID :: "PeerID \<Rightarrow> PeerID" where
  "NewPeerID p = p"

definition PeerID_Key :: "'a Libp2p \<Rightarrow> PeerID \<Rightarrow> key256 option" where
  "PeerID_Key L p = NewKey256 (sha256 L p)"

definition PeerID_NodeID :: "'a Libp2p \<Rightarrow> PeerID \<Rightarrow> key256 NodeID option" where
  "PeerID_NodeID L p = map_option (\<lambda>k. \<lparr>nodeKey = k, nodeString = peerString L p\<rparr>) (PeerID_Key L p)"

record 'a AddrInfo =
  ai_ID :: PeerID
  ai_Addrs :: "'a list"
  ai_id :: PeerID

definition NewAddrInfo :: "PeerID \<Rightarrow> 'a list \<Rightarrow> 'a AddrInfo" where
  "NewAddrInfo p addrs = \<lparr>ai_ID = p, ai_Addrs = addrs, ai_id = NewPeerID p\<rparr>"

definition AddrInfo_Key :: "'a Libp2p \<Rightarrow> 'a AddrInfo \<Rightarrow> key256 option" where
  "AddrInfo_Key L ai = PeerID_Key L (ai_id ai)"

definition AddrInfo_String :: "'a Libp2p \<Rightarrow> 'a AddrInfo \<Rightarrow> string" where
  "AddrInfo_String L ai = peerString L (ai_id ai)"

definition AddrInfo_PeerID :: "'a AddrInfo \<Rightarrow> PeerID" where
  "AddrInfo_PeerID ai = ai_id ai"

definition AddrInfo_ID :: "'a Libp2p \<Rightarrow> 'a AddrInfo \<Rightarrow> key256 NodeID option" where
  "AddrInfo_ID L ai = PeerID_NodeID L (ai_id ai)"

definition AddrInfo_Addresses :: "'a AddrInfo \<Rightarrow> 'a list" where
  "AddrInfo_Addresses ai = ai_Addrs ai"

datatype Libp2pError =
  ErrNotPeerAddrInfo | ErrRequirePeerID | ErrRequireProtoKadMessage | ErrRequireProtoKadResponse | ErrNoValidAddresses

section \<open>Messages\<close>

text \<open>The fields of the protobuf structs; an enum is an int32.\<close>

record PbPeer =
  pb_Id :: "8 word list"
  pb_Addrs :: "8 word list list"
  pb_Connection :: "32 word"

record PbMessage =
  pb_Type :: "32 word"
  pb_Key :: "8 word list"
  pb_CloserPeers :: "PbPeer list"

definition emptyMessage :: PbMessage where
  "emptyMessage = \<lparr>pb_Type = 0, pb_Key = [], pb_CloserPeers = []\<rparr>"

definition Message_FIND_NODE :: "32 word" where
  "Message_FIND_NODE = 4"

text \<open>The integers of the constants of \<open>Connectedness\<close>, which the conversion to the enum keeps.\<close>

fun Connectedness_int :: "Connectedness \<Rightarrow> int" where
  "Connectedness_int NotConnected = 0"
| "Connectedness_int Connected = 1"
| "Connectedness_int CanConnect = 2"
| "Connectedness_int CannotConnect = 3"

definition FindPeerRequest :: "'a Libp2p \<Rightarrow> PeerID \<Rightarrow> PbMessage" where
  "FindPeerRequest L p = emptyMessage\<lparr>pb_Type := Message_FIND_NODE, pb_Key := peerMarshal L p\<rparr>"

text \<open>What the code calls of a \<open>NetworkedEndpoint\<close>. The address is \<open>None\<close> when its dynamic type is not
  \<open>*AddrInfo\<close>, the connectedness \<open>None\<close> when the method panics.\<close>

record 'a PbEndpoint =
  pbNetworkAddress :: "key256 NodeID \<Rightarrow> NetError + 'a AddrInfo option"
  pbConnectedness :: "key256 NodeID \<Rightarrow> (NetError + Connectedness) option"

fun pbPeersLoop ::
  "'a Libp2p \<Rightarrow> (key256 NodeID \<Rightarrow> PeerID option) \<Rightarrow> 'a PbEndpoint \<Rightarrow> key256 NodeID list \<Rightarrow> PbPeer list option" where
  "pbPeersLoop L asPeerID e [] = Some []"
| "pbPeersLoop L asPeerID e (n # ns) = do {
     p \<leftarrow> asPeerID n;
     (case pbNetworkAddress e n of
        Inl err \<Rightarrow> pbPeersLoop L asPeerID e ns
      | Inr na \<Rightarrow> do {
          info \<leftarrow> na;
          conn \<leftarrow> pbConnectedness e n;
          (case conn of
             Inl err \<Rightarrow> pbPeersLoop L asPeerID e ns
           | Inr c \<Rightarrow> do {
               rest \<leftarrow> pbPeersLoop L asPeerID e ns;
               Some (\<lparr>pb_Id = p, pb_Addrs = map (multiaddrBytes L) (ai_Addrs info),
                 pb_Connection = word_of_int (Connectedness_int c)\<rparr> # rest)
             })
        })
   }"

definition NodeIDsToPbPeers ::
  "'a Libp2p \<Rightarrow> (key256 NodeID \<Rightarrow> PeerID option) \<Rightarrow> key256 NodeID list \<Rightarrow> 'a PbEndpoint option \<Rightarrow> PbPeer list option" where
  "NodeIDsToPbPeers L asPeerID peers e =
     (case e of
        None \<Rightarrow> Some []
      | Some e' \<Rightarrow> if peers = [] then Some [] else pbPeersLoop L asPeerID e' peers)"

definition FindPeerResponse ::
  "'a Libp2p \<Rightarrow> (key256 NodeID \<Rightarrow> PeerID option) \<Rightarrow> key256 NodeID list \<Rightarrow> 'a PbEndpoint option \<Rightarrow> PbMessage option" where
  "FindPeerResponse L asPeerID peers e =
     map_option (\<lambda>pbs. emptyMessage\<lparr>pb_Type := Message_FIND_NODE, pb_CloserPeers := pbs\<rparr>) (NodeIDsToPbPeers L asPeerID peers e)"

definition PbMessage_Target :: "'a Libp2p \<Rightarrow> PbMessage \<Rightarrow> key256 option" where
  "PbMessage_Target L msg =
     (case peerUnmarshal L (pb_Key msg) of
        None \<Rightarrow> Some ZeroKey256
      | Some p \<Rightarrow> PeerID_Key L p)"

definition PbMessage_EmptyResponse :: PbMessage where
  "PbMessage_EmptyResponse = emptyMessage"

text \<open>The loop that keeps the addresses that can be read.\<close>

fun parseAddrs :: "'a Libp2p \<Rightarrow> 8 word list list \<Rightarrow> 'a list" where
  "parseAddrs L [] = []"
| "parseAddrs L (b # bs) = (case multiaddrParse L b of None \<Rightarrow> parseAddrs L bs | Some a \<Rightarrow> a # parseAddrs L bs)"

definition PBPeerToPeerInfo :: "'a Libp2p \<Rightarrow> PbPeer \<Rightarrow> Libp2pError + 'a AddrInfo" where
  "PBPeerToPeerInfo L pbp =
     (let addrs = parseAddrs L (pb_Addrs pbp)
      in if addrs = [] then Inl ErrNoValidAddresses else Inr (NewAddrInfo (pb_Id pbp) addrs))"

fun ParsePeers :: "'a Libp2p \<Rightarrow> PbPeer list \<Rightarrow> 'a AddrInfo list" where
  "ParsePeers L [] = []"
| "ParsePeers L (p # ps) =
     (case PBPeerToPeerInfo L p of Inl err \<Rightarrow> ParsePeers L ps | Inr info \<Rightarrow> info # ParsePeers L ps)"

definition PbMessage_CloserNodes :: "'a Libp2p \<Rightarrow> PbMessage \<Rightarrow> 'a AddrInfo list" where
  "PbMessage_CloserNodes L msg = (if pb_CloserPeers msg = [] then [] else ParsePeers L (pb_CloserPeers msg))"

section \<open>What arrives of an answer\<close>

text \<open>The peers of an answer, as its receiver sees them: those whose address and connectedness the
  sender's endpoint knows, with at least one address.\<close>

definition told ::
  "(key256 NodeID \<Rightarrow> PeerID option) \<Rightarrow> 'a PbEndpoint \<Rightarrow> key256 NodeID \<Rightarrow> 'a AddrInfo option" where
  "told asPeerID e n =
     (case (asPeerID n, pbNetworkAddress e n, pbConnectedness e n) of
        (Some p, Inr (Some info), Some (Inr _)) \<Rightarrow> if ai_Addrs info = [] then None else Some (NewAddrInfo p (ai_Addrs info))
      | _ \<Rightarrow> None)"

text \<open>The type assertions hold for the node and the endpoint does not panic: the identifier is a
  \<open>*PeerID\<close>, and if the endpoint knows its address, this is an \<open>*AddrInfo\<close> and the connectedness is
  told. This is all that the loop needs of a node.\<close>

definition tells :: "(key256 NodeID \<Rightarrow> PeerID option) \<Rightarrow> 'a PbEndpoint \<Rightarrow> key256 NodeID \<Rightarrow> bool" where
  "tells asPeerID e n \<longleftrightarrow> asPeerID n \<noteq> None \<and>
     (case pbNetworkAddress e n of Inl err \<Rightarrow> True | Inr na \<Rightarrow> na \<noteq> None \<and> pbConnectedness e n \<noteq> None)"

lemma pbPeersLoop_panics: "pbPeersLoop L asPeerID e ns = None \<longleftrightarrow> \<not> list_all (tells asPeerID e) ns"
proof (induction ns)
  case (Cons n ns)
  then show ?case
    by (cases "asPeerID n"; cases "pbNetworkAddress e n")
      (auto simp: tells_def bind_eq_None_conv split: sum.split option.split)
qed simp

lemma FindPeerResponse_panics:
  "FindPeerResponse L asPeerID ns (Some e) = None \<longleftrightarrow> \<not> list_all (tells asPeerID e) ns"
  using pbPeersLoop_panics [of L asPeerID e ns] by (cases ns) (simp_all add: FindPeerResponse_def NodeIDsToPbPeers_def)

lemma parse_bytes: "libp2p_laws L \<Longrightarrow> parseAddrs L (map (multiaddrBytes L) as) = as"
  by (induction as) (simp_all add: libp2p_laws_def)

lemma pbPeersLoop_told:
  assumes "libp2p_laws L" "list_all (tells asPeerID e) ns"
  shows "\<exists>pbs. pbPeersLoop L asPeerID e ns = Some pbs \<and> ParsePeers L pbs = List.map_filter (told asPeerID e) ns"
  using assms(2)
proof (induction ns)
  case (Cons n ns)
  then obtain pbs where IH: "pbPeersLoop L asPeerID e ns = Some pbs" "ParsePeers L pbs = List.map_filter (told asPeerID e) ns"
    by auto
  obtain p where p: "asPeerID n = Some p" using Cons.prems by (auto simp: tells_def)
  show ?case
  proof (cases "pbNetworkAddress e n")
    case (Inl err)
    then have "told asPeerID e n = None" by (simp add: told_def split: option.split)
    with Inl p IH show ?thesis by (simp add: map_filter_simps)
  next
    case (Inr na)
    with Cons.prems obtain info where na: "na = Some info" by (cases na) (auto simp: tells_def)
    obtain conn where pc: "pbConnectedness e n = Some conn" using Cons.prems Inr by (auto simp: tells_def)
    show ?thesis
    proof (cases conn)
      case conn: (Inl err)
      then have "told asPeerID e n = None" by (simp add: told_def Inr na p pc)
      with conn pc p Inr na IH show ?thesis by (simp add: map_filter_simps)
    next
      case conn: (Inr c)
      then have "told asPeerID e n = (if ai_Addrs info = [] then None else Some (NewAddrInfo p (ai_Addrs info)))"
        by (simp add: told_def Inr na p pc)
      with conn pc p Inr na IH parse_bytes [OF assms(1)] show ?thesis
        by (simp add: map_filter_simps PBPeerToPeerInfo_def)
    qed
  qed
qed (simp add: map_filter_simps)

lemma FindPeerResponse_told:
  assumes "libp2p_laws L" "list_all (tells asPeerID e) ns"
  shows "\<exists>msg. FindPeerResponse L asPeerID ns (Some e) = Some msg \<and> pb_Type msg = Message_FIND_NODE \<and>
    PbMessage_CloserNodes L msg = List.map_filter (told asPeerID e) ns"
proof -
  obtain pbs where pbs: "pbPeersLoop L asPeerID e ns = Some pbs" "ParsePeers L pbs = List.map_filter (told asPeerID e) ns"
    using pbPeersLoop_told [OF assms] by blast
  then have "NodeIDsToPbPeers L asPeerID ns (Some e) = Some pbs" by (cases ns) (simp_all add: NodeIDsToPbPeers_def)
  with pbs(2) show ?thesis
    by (cases pbs) (auto simp: FindPeerResponse_def PbMessage_CloserNodes_def emptyMessage_def)
qed

lemma FindPeerRequest_target:
  "valid_peer L p \<Longrightarrow> PbMessage_Target L (FindPeerRequest L p) = PeerID_Key L p"
  by (simp add: FindPeerRequest_def PbMessage_Target_def valid_peer_def)

lemma PeerID_Key_law: "libp2p_laws L \<Longrightarrow> \<exists>k. PeerID_Key L p = Some k \<and> valid256 k"
  by (simp add: libp2p_laws_def PeerID_Key_def NewKey256_def valid256_def)

section \<open>Properties\<close>

text \<open>C37: The messages of the find-node protocol survive the wire. A request for a valid peer has the key of
  that peer as its target. A response is made without a panic when all its nodes are peer IDs whose addresses are
  of the package's own type, and its receiver reads back the peers in order, each with all its
  addresses; exactly the peers that the sender's endpoint does not know, or knows without an address,
  are missing.\<close>

theorem libp2p_messages_roundtrip:
  assumes "libp2p_laws L" and "valid_peer L p" and "list_all (tells asPeerID e) ns"
  shows "PbMessage_Target L (FindPeerRequest L p) = PeerID_Key L p \<and> PeerID_Key L p \<noteq> None \<and>
    (\<exists>msg. FindPeerResponse L asPeerID ns (Some e) = Some msg \<and>
      PbMessage_CloserNodes L msg = List.map_filter (told asPeerID e) ns)"
  using FindPeerRequest_target [OF assms(2)] PeerID_Key_law [OF assms(1), of p] FindPeerResponse_told [OF assms(1,3)] by auto

text \<open>A library whose hash fills up with zeroes and whose identifiers have at most 32 bytes; the
  addresses are single bytes.\<close>

definition lib8 :: "8 word Libp2p" where
  "lib8 = \<lparr>sha256 = (\<lambda>b. take 32 b @ replicate (32 - length b) 0), peerString = map (\<lambda>w. char_of (unat w)),
     peerMarshal = (\<lambda>p. p), peerUnmarshal = (\<lambda>b. if length b \<le> 32 then Some b else None),
     multiaddrParse = (\<lambda>b. case b of [a] \<Rightarrow> Some a | _ \<Rightarrow> None), multiaddrBytes = (\<lambda>a. [a])\<rparr>"

definition pnode256 :: "8 word \<Rightarrow> key256 NodeID" where
  "pnode256 b = \<lparr>nodeKey = Key256Ptr (Some (b # replicate 31 0)), nodeString = [char_of (unat b)]\<rparr>"

definition asPeer8 :: "key256 NodeID \<Rightarrow> PeerID option" where
  "asPeer8 n = map_option (\<lambda>b. [hd b]) (key256_b (nodeKey n))"

text \<open>The endpoint knows an address of the node of 7, no address of that of 9, and no other node.\<close>

definition pbend8 :: "8 word PbEndpoint" where
  "pbend8 = \<lparr>pbNetworkAddress = (\<lambda>n. if n = pnode256 7 then Inr (Some (NewAddrInfo [7] [3, 4]))
       else if n = pnode256 9 then Inr (Some (NewAddrInfo [9] [])) else Inl (EndpointErr ErrUnknownPeer)),
     pbConnectedness = (\<lambda>_. Some (Inr CanConnect))\<rparr>"

lemma lib8_laws: "libp2p_laws lib8" "valid_peer lib8 [b]"
  by (auto simp: libp2p_laws_def valid_peer_def lib8_def)

lemma pbend8_tells: "tells asPeer8 pbend8 (pnode256 b)"
  by (simp add: tells_def asPeer8_def pnode256_def pbend8_def)

theorem libp2p_messages_roundtrip_witness:
  "PbMessage_Target lib8 (FindPeerRequest lib8 [5]) = Some (nodeKey (pnode256 5)) \<and>
   (\<exists>msg. FindPeerResponse lib8 asPeer8 [pnode256 7, pnode256 8, pnode256 9] (Some pbend8) = Some msg \<and>
     PbMessage_CloserNodes lib8 msg = [NewAddrInfo [7] [3, 4]])"
proof -
  have "list_all (tells asPeer8 pbend8) [pnode256 7, pnode256 8, pnode256 9]" by (simp add: pbend8_tells)
  note R = libp2p_messages_roundtrip [OF lib8_laws(1) lib8_laws(2) [of 5] this]
  have "PeerID_Key lib8 [5] = Some (nodeKey (pnode256 5))" by code_simp
  moreover have "List.map_filter (told asPeer8 pbend8) [pnode256 7, pnode256 8, pnode256 9] = [NewAddrInfo [7] [3, 4]]" by code_simp
  ultimately show ?thesis using R by simp
qed

end
