(* ===== verification/Basic_Server.thy ===== *)
theory Basic_Server
  imports Libp2p_Messages Sim_Server
begin

text \<open>
  The server of \<open>server/basicserver\<close>. It answers find-node requests in two formats: the messages of
  the package \<open>sim\<close> and those of the package \<open>libp2p\<close>. The keys are \<open>Key256\<close>.

  \<^item> The routing table is any implementation \<open>RT\<close> of the interface, the table a value in the server.
  \<^item> Of its endpoint the server calls \<open>NetworkAddress\<close>, and for an answer in the format of \<open>libp2p\<close> it
    asks whether it is a \<open>NetworkedEndpoint\<close> of multiaddresses: \<open>be_networked\<close> is what the type
    assertion yields, \<open>None\<close> when it fails.
  \<^item> An option is a function; \<open>None\<close> in the result of the constructor is the nil pointer, elsewhere a panic.
\<close>

section \<open>Configuration\<close>

record BSConfig =
  bc_PeerstoreTTL :: duration
  bc_NumberUsefulCloserPeers :: int

type_synonym BSOption = "BSConfig \<Rightarrow> string + BSConfig"

definition emptyBSConfig :: BSConfig where
  "emptyBSConfig = \<lparr>bc_PeerstoreTTL = 0, bc_NumberUsefulCloserPeers = 0\<rparr>"

fun BSConfig_applyLoop :: "nat \<Rightarrow> BSConfig \<Rightarrow> BSOption list \<Rightarrow> string + BSConfig" where
  "BSConfig_applyLoop i cfg [] = Inr cfg"
| "BSConfig_applyLoop i cfg (opt # opts) =
     (case opt cfg of
        Inl err \<Rightarrow> Inl (''BasicServer option '' @ digitsBase 10 i @ '' failed: '' @ err)
      | Inr cfg' \<Rightarrow> BSConfig_applyLoop (Suc i) cfg' opts)"

definition BSConfig_Apply :: "BSConfig \<Rightarrow> BSOption list \<Rightarrow> string + BSConfig" where
  "BSConfig_Apply cfg opts = BSConfig_applyLoop 0 cfg opts"

definition BSDefaultConfig :: BSOption where
  "BSDefaultConfig cfg = Inr (cfg\<lparr>bc_PeerstoreTTL := 30 * 60 * Second, bc_NumberUsefulCloserPeers := 20\<rparr>)"

definition BSWithPeerstoreTTL :: "duration \<Rightarrow> BSOption" where
  "BSWithPeerstoreTTL ttl cfg = Inr (cfg\<lparr>bc_PeerstoreTTL := ttl\<rparr>)"

definition BSWithNumberUsefulCloserPeers :: "int \<Rightarrow> BSOption" where
  "BSWithNumberUsefulCloserPeers n cfg = Inr (cfg\<lparr>bc_NumberUsefulCloserPeers := n\<rparr>)"

section \<open>The server\<close>

datatype BasicServerError =
  BasicErrNotNetworkedEndpoint | BasicErrUnknownMessageFormat | ErrIpfsV1InvalidPeerID |
  ErrIpfsV1InvalidRequest | ErrSimMessageNilTarget

record ('a, 'ma) BSEndpoint =
  be_networkAddress :: "key256 NodeID \<Rightarrow> NetError + (key256, 'a) NodeInfo"
  be_networked :: "'ma PbEndpoint option"

record ('rt, 'a, 'ma) BasicServer =
  bs_rt :: 'rt
  bs_endpoint :: "('a, 'ma) BSEndpoint"
  bs_peerstoreTTL :: duration
  bs_numberOfCloserPeersToSend :: int

definition NewBasicServer :: "'rt \<Rightarrow> ('a, 'ma) BSEndpoint \<Rightarrow> BSOption list \<Rightarrow> ('rt, 'a, 'ma) BasicServer option" where
  "NewBasicServer rt endpoint options =
     (case BSConfig_Apply emptyBSConfig (BSDefaultConfig # options) of
        Inl err \<Rightarrow> None
      | Inr cfg \<Rightarrow> Some \<lparr>bs_rt = rt, bs_endpoint = endpoint, bs_peerstoreTTL = bc_PeerstoreTTL cfg,
          bs_numberOfCloserPeersToSend = bc_NumberUsefulCloserPeers cfg\<rparr>)"

text \<open>The dynamic types of a message that the server tells apart.\<close>

datatype ('a, 'm) BSMessage = SimMsg "(key256, 'a) Message" | Libp2pMsg PbMessage | UnknownMsg 'm

text \<open>The target of a request, by its format; the outer \<open>None\<close> is a panic.\<close>

definition BasicServer_target :: "'ma Libp2p \<Rightarrow> ('a, 'm) BSMessage \<Rightarrow> (BasicServerError + key256) option" where
  "BasicServer_target L msg =
     (case msg of
        SimMsg m \<Rightarrow> Some (Inr (Message_Target m))
      | Libp2pMsg m \<Rightarrow>
          (case peerUnmarshal L (pb_Key m) of
             None \<Rightarrow> Some (Inl ErrIpfsV1InvalidPeerID)
           | Some p \<Rightarrow> map_option Inr (PeerID_Key L (NewPeerID p)))
      | UnknownMsg m \<Rightarrow> Some (Inl BasicErrUnknownMessageFormat))"

text \<open>The answer to a request, in its own format.\<close>

definition BasicServer_reply ::
  "'ma Libp2p \<Rightarrow> (key256 NodeID \<Rightarrow> PeerID option) \<Rightarrow> ('a, 'ma) BSEndpoint \<Rightarrow> key256 NodeID list \<Rightarrow>
   ('a, 'm) BSMessage \<Rightarrow> (BasicServerError + ('a, 'm) BSMessage) option" where
  "BasicServer_reply L asPeerID e peers msg =
     (case msg of
        SimMsg m \<Rightarrow> Some (Inr (SimMsg (NewResponse (Key256Ptr None) (peerAddrs (be_networkAddress e) peers))))
      | Libp2pMsg m \<Rightarrow>
          (case be_networked e of
             None \<Rightarrow> Some (Inl BasicErrNotNetworkedEndpoint)
           | Some nEndpoint \<Rightarrow> map_option (\<lambda>r. Inr (Libp2pMsg r)) (FindPeerResponse L asPeerID peers (Some nEndpoint)))
      | UnknownMsg m \<Rightarrow> Some (Inl BasicErrUnknownMessageFormat))"

definition BasicServer_HandleFindNodeRequest ::
  "(key256, 'rt, 'z) RoutingTable_scheme \<Rightarrow> 'ma Libp2p \<Rightarrow> (key256 NodeID \<Rightarrow> PeerID option) \<Rightarrow> ('rt, 'a, 'ma) BasicServer \<Rightarrow>
   key256 NodeID \<Rightarrow> ('a, 'm) BSMessage \<Rightarrow> (BasicServerError + ('a, 'm) BSMessage) option" where
  "BasicServer_HandleFindNodeRequest RT L asPeerID s rpeer msg = do {
     target \<leftarrow> BasicServer_target L msg;
     (case target of
        Inl err \<Rightarrow> Some (Inl err)
      | Inr t \<Rightarrow> do {
          peers \<leftarrow> NearestNodes RT (bs_rt s) t (bs_numberOfCloserPeersToSend s);
          BasicServer_reply L asPeerID (bs_endpoint s) peers msg
        })
   }"

definition BasicServer_HandleRequest ::
  "(key256, 'rt, 'z) RoutingTable_scheme \<Rightarrow> 'ma Libp2p \<Rightarrow> (key256 NodeID \<Rightarrow> PeerID option) \<Rightarrow> ('rt, 'a, 'ma) BasicServer \<Rightarrow>
   key256 NodeID \<Rightarrow> ('a, 'm) BSMessage \<Rightarrow> (BasicServerError + ('a, 'm) BSMessage) option" where
  "BasicServer_HandleRequest RT L asPeerID s rpeer msg =
     (case msg of
        SimMsg m \<Rightarrow> BasicServer_HandleFindNodeRequest RT L asPeerID s rpeer msg
      | Libp2pMsg m \<Rightarrow>
          if pb_Type m = Message_FIND_NODE then BasicServer_HandleFindNodeRequest RT L asPeerID s rpeer msg
          else Some (Inl ErrIpfsV1InvalidRequest)
      | UnknownMsg m \<Rightarrow> Some (Inl BasicErrUnknownMessageFormat))"

lemmas basic_server_defs = BasicServer_HandleRequest_def BasicServer_HandleFindNodeRequest_def
  BasicServer_target_def BasicServer_reply_def NewPeerID_def

section \<open>What it answers\<close>

text \<open>A server whose table holds only peers that its endpoint can describe.\<close>

definition serves_peers :: "('rt \<Rightarrow> key256 \<rightharpoonup> key256 NodeID) \<Rightarrow> (key256 NodeID \<Rightarrow> PeerID option) \<Rightarrow> ('rt, 'a, 'ma) BasicServer \<Rightarrow> bool" where
  "serves_peers contents asPeerID s \<longleftrightarrow>
     (\<forall>e n. be_networked (bs_endpoint s) = Some e \<and> n \<in> ran (contents (bs_rt s)) \<longrightarrow> tells asPeerID e n)"

lemma HandleRequest_sim_format:
  "BasicServer_HandleRequest RT L asPeerID s rpeer (SimMsg m) =
     map_option (\<lambda>ns. Inr (SimMsg (NewResponse (Key256Ptr None) (peerAddrs (be_networkAddress (bs_endpoint s)) ns))))
       (NearestNodes RT (bs_rt s) (Message_Target m) (bs_numberOfCloserPeersToSend s))"
  by (simp add: basic_server_defs map_option_case split: option.splits)

lemma HandleRequest_libp2p_format:
  assumes "peerUnmarshal L (pb_Key m) = Some p" "PeerID_Key L p = Some k" "pb_Type m = Message_FIND_NODE"
    and "NearestNodes RT (bs_rt s) k (bs_numberOfCloserPeersToSend s) = Some ns"
  shows "BasicServer_HandleRequest RT L asPeerID s rpeer (Libp2pMsg m) =
    (case be_networked (bs_endpoint s) of
       None \<Rightarrow> Some (Inl BasicErrNotNetworkedEndpoint)
     | Some e \<Rightarrow> map_option (\<lambda>r. Inr (Libp2pMsg r)) (FindPeerResponse L asPeerID ns (Some e)))"
  using assms by (simp add: basic_server_defs)

context routing_table_nearest
begin

lemma NearestNodes_some:
  "inv rt \<Longrightarrow> valid k \<Longrightarrow> 0 < m \<Longrightarrow> \<exists>ns. NearestNodes RT rt k m = Some ns \<and> set ns \<subseteq> ran (contents rt)"
  using NearestNodes_rank by blast

end

section \<open>Properties\<close>

text \<open>C38: A server with a networked endpoint, a positive number of peers to send and a table of peers that
  the endpoint can describe answers a find-node request of the wire format with the peers of its routing
  table that are among the nearest to the key of the requested peer, as many as it is configured for and in
  the order of their distance; the receiver reads all of them but those whose addresses the endpoint
  does not know. A request of the simulated format for the same key is answered from the same list.\<close>

theorem basic_server_find_node:
  assumes "routing_table_nearest RT valid256 bits rtinv contents" and "rtinv (bs_rt s)"
    and "0 < bs_numberOfCloserPeersToSend s" and "libp2p_laws L" and "valid_peer L p"
    and "be_networked (bs_endpoint s) = Some e" and "serves_peers contents asPeerID s"
  shows "\<exists>k ns resp. PeerID_Key L p = Some k \<and>
    sorted_wrt (\<lambda>a b. bdist bits (nodeKey a) k < bdist bits (nodeKey b) k) ns \<and>
    set ns = {n \<in> ran (contents (bs_rt s)).
      int (card {n' \<in> ran (contents (bs_rt s)). bdist bits (nodeKey n') k < bdist bits (nodeKey n) k})
        < bs_numberOfCloserPeersToSend s} \<and>
    BasicServer_HandleRequest RT L asPeerID s rpeer (Libp2pMsg (FindPeerRequest L p) :: ('a, 'm) BSMessage) =
      Some (Inr (Libp2pMsg resp)) \<and>
    PbMessage_CloserNodes L resp = List.map_filter (told asPeerID e) ns \<and>
    BasicServer_HandleRequest RT L asPeerID s rpeer (SimMsg (NewRequest k) :: ('a, 'm) BSMessage) =
      Some (Inr (SimMsg (NewResponse (Key256Ptr None) (peerAddrs (be_networkAddress (bs_endpoint s)) ns))))"
proof -
  obtain k where k: "PeerID_Key L p = Some k" "valid256 k" using PeerID_Key_law [OF assms(4)] by blast
  obtain ns where ns: "NearestNodes RT (bs_rt s) k (bs_numberOfCloserPeersToSend s) = Some ns"
    "sorted_wrt (\<lambda>a b. bdist bits (nodeKey a) k < bdist bits (nodeKey b) k) ns"
    "set ns = {n \<in> ran (contents (bs_rt s)).
      int (card {n' \<in> ran (contents (bs_rt s)). bdist bits (nodeKey n') k < bdist bits (nodeKey n) k})
        < bs_numberOfCloserPeersToSend s}"
    using routing_table_nearest.NearestNodes_rank [OF assms(1,2) k(2) assms(3)]
    unfolding routing_table_nearest.nearer_def [OF assms(1)] by blast
  then have "list_all (tells asPeerID e) ns" using assms(6,7) by (auto simp: serves_peers_def list_all_iff)
  then obtain resp where "FindPeerResponse L asPeerID ns (Some e) = Some resp"
    "PbMessage_CloserNodes L resp = List.map_filter (told asPeerID e) ns"
    using FindPeerResponse_told [OF assms(4)] by blast
  with k ns assms(5,6) show ?thesis
    by (intro exI [of _ k] exI [of _ ns] exI [of _ resp])
      (simp add: HandleRequest_libp2p_format [OF _ k(1) _ ns(1)] HandleRequest_sim_format
        FindPeerRequest_def valid_peer_def Message_Target_def NewRequest_def emptyMessage_def)
qed

text \<open>C39: What the basic server does with each request, its errors and its panics, for a positive number
  of peers to send and a target that is a key of 32 bytes (or nil). It answers a request of the simulated
  format. It rejects messages of an unknown type, messages of \<open>libp2p\<close> that are not find-node requests,
  those whose key is not a peer ID, and all of them if its endpoint is not a networked one for
  multiaddresses, each with its error. Any other find-node request of \<open>libp2p\<close> makes it panic exactly if
  one of the nearest nodes in its table is not a \<open>*PeerID\<close>, or has an address that the endpoint knows
  but that is not an \<open>*AddrInfo\<close> or whose connectedness makes the endpoint panic; otherwise it is answered.\<close>

theorem basic_server_errors:
  assumes "routing_table_nearest RT valid256 bits rtinv contents" and "rtinv (bs_rt s)"
    and "0 < bs_numberOfCloserPeersToSend s" and "libp2p_laws L"
    and "\<forall>m. msg = SimMsg m \<longrightarrow> valid256 (Message_Target m)"
    and "answer = BasicServer_HandleRequest RT L asPeerID s rpeer msg"
  shows "case msg of
      SimMsg m \<Rightarrow> \<exists>resp. answer = Some (Inr (SimMsg resp))
    | UnknownMsg m \<Rightarrow> answer = Some (Inl BasicErrUnknownMessageFormat)
    | Libp2pMsg m \<Rightarrow>
        if pb_Type m \<noteq> Message_FIND_NODE then answer = Some (Inl ErrIpfsV1InvalidRequest)
        else case (peerUnmarshal L (pb_Key m), be_networked (bs_endpoint s)) of
            (None, _) \<Rightarrow> answer = Some (Inl ErrIpfsV1InvalidPeerID)
          | (Some p, None) \<Rightarrow> answer = Some (Inl BasicErrNotNetworkedEndpoint)
          | (Some p, Some e) \<Rightarrow> \<exists>k ns. PeerID_Key L p = Some k \<and>
              NearestNodes RT (bs_rt s) k (bs_numberOfCloserPeersToSend s) = Some ns \<and>
              (if list_all (tells asPeerID e) ns then \<exists>resp. answer = Some (Inr (Libp2pMsg resp)) else answer = None)"
proof (cases msg)
  case (SimMsg m)
  then show ?thesis
    using routing_table_nearest.NearestNodes_some [OF assms(1,2) _ assms(3)] assms(5,6) by (force simp: HandleRequest_sim_format)
next
  case (UnknownMsg m)
  then show ?thesis using assms(6) by (simp add: basic_server_defs)
next
  case (Libp2pMsg m)
  show ?thesis
  proof (cases "pb_Type m = Message_FIND_NODE \<and> peerUnmarshal L (pb_Key m) \<noteq> None")
    case False
    with Libp2pMsg show ?thesis using assms(6) by (auto simp: basic_server_defs)
  next
    case True
    then obtain p where p: "peerUnmarshal L (pb_Key m) = Some p" by blast
    obtain k where k: "PeerID_Key L p = Some k" "valid256 k" using PeerID_Key_law [OF assms(4)] by blast
    obtain ns where ns: "NearestNodes RT (bs_rt s) k (bs_numberOfCloserPeersToSend s) = Some ns"
      using routing_table_nearest.NearestNodes_some [OF assms(1,2) k(2) assms(3)] by blast
    have answer: "answer = (case be_networked (bs_endpoint s) of
       None \<Rightarrow> Some (Inl BasicErrNotNetworkedEndpoint)
     | Some e \<Rightarrow> map_option (\<lambda>r. Inr (Libp2pMsg r)) (FindPeerResponse L asPeerID ns (Some e)))"
      using HandleRequest_libp2p_format [OF p k(1) _ ns] True Libp2pMsg assms(6) by simp
    show ?thesis
    proof (cases "be_networked (bs_endpoint s)")
      case None
      then show ?thesis using Libp2pMsg True p answer by simp
    next
      case (Some e)
      have "if list_all (tells asPeerID e) ns then \<exists>resp. answer = Some (Inr (Libp2pMsg resp)) else answer = None"
        using FindPeerResponse_panics [of L asPeerID ns e] Some answer by auto
      then show ?thesis using Libp2pMsg True p Some k(1) ns by auto
    qed
  qed
qed

section \<open>A server\<close>

text \<open>A server with the default options over a table that holds the peers of 7 and 130; its endpoint
  knows an address of 7 only.\<close>

definition table256 :: "key256 TrieRT" where
  "table256 = TrieRT_New (pnode256 0) None\<lparr>rt_trie :=
     Trie (Some (Trie None None (Some (nodeKey (pnode256 7))) (Some (pnode256 7))))
       (Some (Trie None None (Some (nodeKey (pnode256 130))) (Some (pnode256 130)))) None None\<rparr>"

definition bsend8 :: "(nat, 8 word) BSEndpoint" where
  "bsend8 = \<lparr>be_networkAddress = (\<lambda>n. if n = pnode256 7 then Inr \<lparr>infoID = n, infoAddresses = [3]\<rparr>
       else Inl (EndpointErr ErrUnknownPeer)), be_networked = Some pbend8\<rparr>"

definition basic8 :: "(key256 TrieRT, nat, 8 word) BasicServer" where
  "basic8 = the (NewBasicServer table256 bsend8 [BSWithPeerstoreTTL 1])"

lemma basic8_simps: "bs_rt basic8 = table256" "bs_endpoint basic8 = bsend8" "bs_numberOfCloserPeersToSend basic8 = 20"
  by (simp_all add: basic8_def NewBasicServer_def BSConfig_Apply_def BSDefaultConfig_def BSWithPeerstoreTTL_def emptyBSConfig_def)

lemma table256_inv: "trie_rt_inv valid256 bits256 table256"
proof -
  have "trie_inv valid256 bits256 [] (rt_trie table256)" by code_simp
  then have "view_inv valid256 bits256 table256"
    by (simp add: view_inv_def table256_def pnode256_def valid256_def TrieRT_New_def TrieRT_apply_def)
  then show ?thesis
    by (simp add: trie_rt_inv_def table256_def TrieRT_New_def TrieRT_apply_def TrieRT_DefaultConfig_def)
qed

lemma table256_contents:
  "trie_rt_contents table256 = [nodeKey (pnode256 7) \<mapsto> pnode256 7, nodeKey (pnode256 130) \<mapsto> pnode256 130]"
proof -
  have "nodeKey (pnode256 7) \<noteq> nodeKey (pnode256 130)" by (simp add: pnode256_def)
  then show ?thesis by (simp add: trie_rt_contents_def table256_def fun_eq_iff)
qed

lemma ran_table256: "ran (trie_rt_contents table256) = {pnode256 7, pnode256 130}"
proof -
  have "nodeKey (pnode256 7) \<noteq> nodeKey (pnode256 130)" by (simp add: pnode256_def)
  then show ?thesis by (auto simp: table256_contents ran_map_upd)
qed

lemma basic8_serves: "serves_peers trie_rt_contents asPeer8 basic8"
  by (auto simp: serves_peers_def basic8_simps bsend8_def ran_table256 pbend8_tells)

theorem basic_server_find_node_witness:
  "\<exists>resp. BasicServer_HandleRequest (TrieRT_methods Key256) lib8 asPeer8 basic8 (pnode256 1)
      (Libp2pMsg (FindPeerRequest lib8 [5]) :: (nat, unit) BSMessage) = Some (Inr (Libp2pMsg resp)) \<and>
    NewAddrInfo [7] [3, 4] \<in> set (PbMessage_CloserNodes lib8 resp)"
proof -
  have few: "int (card {p \<in> {pnode256 7, pnode256 130}. P p}) < 20" for P
  proof -
    have "card {p \<in> {pnode256 7, pnode256 130}. P p} \<le> card {pnode256 7, pnode256 130}" by (rule card_mono) auto
    then show ?thesis by (simp add: card_insert_if split: if_splits)
  qed
  have inv: "trie_rt_inv valid256 bits256 (bs_rt basic8)" "0 < bs_numberOfCloserPeersToSend basic8"
    "be_networked (bs_endpoint basic8) = Some pbend8"
    using table256_inv by (simp_all add: basic8_simps bsend8_def)
  note R = basic_server_find_node [OF key256.trt.routing_table_nearest_axioms inv(1,2) lib8_laws(1) lib8_laws(2) [of 5]
        inv(3) basic8_serves, where rpeer = "pnode256 1" and 'm = unit, unfolded basic8_simps ran_table256]
  obtain k ns resp where ns: "set ns = {n \<in> {pnode256 7, pnode256 130}.
      int (card {n' \<in> {pnode256 7, pnode256 130}. bdist bits256 (nodeKey n') k < bdist bits256 (nodeKey n) k}) < 20}"
    and R: "BasicServer_HandleRequest (TrieRT_methods Key256) lib8 asPeer8 basic8 (pnode256 1)
      (Libp2pMsg (FindPeerRequest lib8 [5]) :: (nat, unit) BSMessage) = Some (Inr (Libp2pMsg resp))"
      "PbMessage_CloserNodes lib8 resp = List.map_filter (told asPeer8 pbend8) ns"
    using R by (elim exE conjE) (rule that)
  have "pnode256 7 \<in> set ns" unfolding ns using few by simp
  moreover
  have "told asPeer8 pbend8 (pnode256 7) = Some (NewAddrInfo [7] [3, 4])" by code_simp
  ultimately have "NewAddrInfo [7] [3, 4] \<in> set (List.map_filter (told asPeer8 pbend8) ns)"
    by (force simp: map_filter_def)
  with R show ?thesis by auto
qed

text \<open>A table whose nodes are not all peer IDs makes the server panic.\<close>

theorem basic_server_errors_witness:
  "BasicServer_HandleRequest (TrieRT_methods Key256) lib8 (\<lambda>_. None) basic8 (pnode256 1)
      (Libp2pMsg (FindPeerRequest lib8 [5]) :: (nat, unit) BSMessage) = None"
proof -
  have inv: "trie_rt_inv valid256 bits256 (bs_rt basic8)" "0 < bs_numberOfCloserPeersToSend basic8"
    using table256_inv by (simp_all add: basic8_simps)
  have m: "pb_Type (FindPeerRequest lib8 [5]) = Message_FIND_NODE" "peerUnmarshal lib8 (pb_Key (FindPeerRequest lib8 [5])) = Some [5]"
    "be_networked (bs_endpoint basic8) = Some pbend8"
    by (simp_all add: FindPeerRequest_def emptyMessage_def lib8_def basic8_simps bsend8_def)
  obtain k ns where ns: "PeerID_Key lib8 [5] = Some k" "NearestNodes (TrieRT_methods Key256) table256 k 20 = Some ns"
    "\<not> list_all (tells (\<lambda>_. None) pbend8) ns \<Longrightarrow> BasicServer_HandleRequest (TrieRT_methods Key256) lib8 (\<lambda>_. None) basic8 (pnode256 1)
      (Libp2pMsg (FindPeerRequest lib8 [5]) :: (nat, unit) BSMessage) = None"
    using basic_server_errors [OF key256.trt.routing_table_nearest_axioms inv lib8_laws(1) _ refl, where rpeer = "pnode256 1" and
        asPeerID = "\<lambda>_. None" and msg = "Libp2pMsg (FindPeerRequest lib8 [5]) :: (nat, unit) BSMessage"] m
    by (auto simp: basic8_simps split: if_splits)
  have k: "valid256 k" using PeerID_Key_law [OF lib8_laws(1), of "[5]"] ns(1) by auto
  have "length ns = 2"
    using key256.trt.NearestNodes_count [OF table256_inv k _ ns(2)] by (simp add: table256_contents pnode256_def)
  then have "\<not> list_all (tells (\<lambda>_. None) pbend8) ns" by (cases ns) (simp_all add: tells_def)
  with ns(3) show ?thesis by simp
qed

end
