(* ===== verification/Libp2p_Endpoint.thy ===== *)
theory Libp2p_Endpoint
  imports Libp2p_Messages Sim_Network
begin

text \<open>
  The endpoint of \<open>libp2p/libp2pendpoint.go\<close>.

  \<^item> The libp2p host is the record \<open>Host\<close> of the methods that the code calls, on a state \<open>'h\<close> that
    may change at any time. \<open>hostConnectedness\<close> is \<open>None\<close> for a value that is none of the four constants.
  \<^item> A type assertion is an argument: \<open>asPeerID\<close> for an identifier, an option for a message
    that has to be of the protobuf kind, an option for a \<open>NodeInfo\<close> that has to be an \<open>*AddrInfo\<close>.
  \<^item> A goroutine is a value of \<open>Task\<close>, which says how far it has come and which variables it still
    holds; \<open>taskStep\<close> makes its next call. What the host or the stream answers to the call is the argument
    \<open>Outcome\<close>. A call that blocks is a step that is not made. The contexts are not modelled: that
    one is cancelled shows in the outcomes only.
  \<^item> The world holds the host, the scheduler and the goroutines; an action that the endpoint gives to the
    scheduler is a value of \<open>LAction\<close> with the variables that the closure captures. Calls of
    handlers are recorded in \<open>lw_calls\<close>.
  \<^item> \<open>RunOne\<close> of the scheduler is one step, as is the action that it runs.
\<close>

section \<open>The host\<close>

record ('h, 'a, 'q) Host =
  hostID :: "'h \<Rightarrow> PeerID"
  hostConnectedness :: "'h \<Rightarrow> PeerID \<Rightarrow> Connectedness option"
  hostConnect :: "'h \<Rightarrow> PeerID \<Rightarrow> 'h \<times> string option"
  storeAddrs :: "'h \<Rightarrow> PeerID \<Rightarrow> 'a list"
  storePeerInfo :: "'h \<Rightarrow> PeerID \<Rightarrow> PeerID \<times> 'a list"
  storeAddAddrs :: "'h \<Rightarrow> PeerID \<Rightarrow> 'a list \<Rightarrow> duration \<Rightarrow> 'h"
  hostSetStreamHandler :: "'h \<Rightarrow> ProtocolID \<Rightarrow> 'q \<Rightarrow> 'h"
  hostRemoveStreamHandler :: "'h \<Rightarrow> ProtocolID \<Rightarrow> 'h"

datatype LError = NetErr NetError | LibErr Libp2pError

definition getPeerID :: "(key256 NodeID \<Rightarrow> PeerID option) \<Rightarrow> key256 NodeID \<Rightarrow> NetError + PeerID" where
  "getPeerID asPeerID n =
     (case asPeerID n of Some p \<Rightarrow> Inr p | None \<Rightarrow> Inl (EndpointErr ErrInvalidPeer))"

text \<open>The part of \<open>DialPeer\<close> after the type assertion.\<close>

definition dialHost :: "('h, 'a, 'q) Host \<Rightarrow> 'h \<Rightarrow> PeerID \<Rightarrow> 'h \<times> NetError option" where
  "dialHost H h p =
     (if hostConnectedness H h p = Some Connected then (h, None)
      else case hostConnect H h p of
        (h', Some err) \<Rightarrow> (h', Some (OtherErr err))
      | (h', None) \<Rightarrow> (h', None))"

definition L_DialPeer ::
  "('h, 'a, 'q) Host \<Rightarrow> (key256 NodeID \<Rightarrow> PeerID option) \<Rightarrow> 'h \<Rightarrow> key256 NodeID \<Rightarrow> 'h \<times> NetError option" where
  "L_DialPeer H asPeerID h n =
     (case getPeerID asPeerID n of
        Inl err \<Rightarrow> (h, Some err)
      | Inr p \<Rightarrow> dialHost H h p)"

definition L_MaybeAddToPeerstore ::
  "('h, 'a, 'q) Host \<Rightarrow> 'h \<Rightarrow> 'a AddrInfo option \<Rightarrow> duration \<Rightarrow> 'h \<times> NetError option" where
  "L_MaybeAddToPeerstore H h info ttl =
     (case info of
        None \<Rightarrow> (h, Some (EndpointErr ErrInvalidPeer))
      | Some ai \<Rightarrow>
          if AddrInfo_PeerID ai = hostID H h \<or> hostConnectedness H h (AddrInfo_PeerID ai) = Some Connected
          then (h, None)
          else (storeAddAddrs H h (AddrInfo_PeerID ai) (ai_Addrs ai) ttl, None))"

definition L_Connectedness ::
  "('h, 'a, 'q) Host \<Rightarrow> (key256 NodeID \<Rightarrow> PeerID option) \<Rightarrow> 'h \<Rightarrow> key256 NodeID \<Rightarrow> (NetError + Connectedness) option" where
  "L_Connectedness H asPeerID h n =
     (case getPeerID asPeerID n of
        Inl err \<Rightarrow> Some (Inl err)
      | Inr p \<Rightarrow> map_option Inr (hostConnectedness H h p))"

definition L_PeerInfo ::
  "('h, 'a, 'q) Host \<Rightarrow> (key256 NodeID \<Rightarrow> PeerID option) \<Rightarrow> 'h \<Rightarrow> key256 NodeID \<Rightarrow> NetError + PeerID \<times> 'a list" where
  "L_PeerInfo H asPeerID h n =
     (case getPeerID asPeerID n of
        Inl err \<Rightarrow> Inl err
      | Inr p \<Rightarrow> Inr (storePeerInfo H h p))"

definition L_Key :: "'a Libp2p \<Rightarrow> ('h, 'a, 'q) Host \<Rightarrow> 'h \<Rightarrow> key256 option" where
  "L_Key L H h = PeerID_Key L (hostID H h)"

definition L_NetworkAddress ::
  "('h, 'a, 'q) Host \<Rightarrow> (key256 NodeID \<Rightarrow> PeerID option) \<Rightarrow> 'h \<Rightarrow> key256 NodeID \<Rightarrow> NetError + 'a AddrInfo" where
  "L_NetworkAddress H asPeerID h n =
     (case L_PeerInfo H asPeerID h n of
        Inl err \<Rightarrow> Inl err
      | Inr ai \<Rightarrow> Inr (NewAddrInfo (fst ai) (snd ai)))"

text \<open>The endpoint as the messages of the package see it.\<close>

definition Libp2pEndpoint_methods ::
  "('h, 'a, 'q) Host \<Rightarrow> (key256 NodeID \<Rightarrow> PeerID option) \<Rightarrow> 'h \<Rightarrow> 'a PbEndpoint" where
  "Libp2pEndpoint_methods H asPeerID h =
     \<lparr>pbNetworkAddress = (\<lambda>n. map_sum id Some (L_NetworkAddress H asPeerID h n)),
      pbConnectedness = L_Connectedness H asPeerID h\<rparr>"

text \<open>It answers for every peer whose connectedness is one of the four values, with the addresses of the
  peerstore.\<close>

lemma endpoint_tells:
  "asPeerID n = Some p \<Longrightarrow> hostConnectedness H h p \<noteq> None \<Longrightarrow> tells asPeerID (Libp2pEndpoint_methods H asPeerID h) n"
  by (simp add: tells_def Libp2pEndpoint_methods_def L_NetworkAddress_def L_PeerInfo_def L_Connectedness_def getPeerID_def)

lemma endpoint_told:
  assumes "asPeerID n = Some p" "hostConnectedness H h p \<noteq> None"
  shows "told asPeerID (Libp2pEndpoint_methods H asPeerID h) n =
    (if snd (storePeerInfo H h p) = [] then None else Some (NewAddrInfo p (snd (storePeerInfo H h p))))"
  using assms by (auto simp: told_def Libp2pEndpoint_methods_def L_NetworkAddress_def L_PeerInfo_def L_Connectedness_def
      getPeerID_def NewAddrInfo_def)

section \<open>The world of an endpoint\<close>

datatype ('h, 'f, 'q, 'm, 'x) LAction =
  RespAction 'f "'m option" "NetError option"
| TimeoutAct 'f
| ReportAction 'f bool
| ServeAction 'q PeerID "((string + 'm) \<times> 'h \<times> string option) list"
| OtherAction 'x

datatype ('f, 'm, 'x) LCall =
  RespCall 'f "'m option" "NetError option"
| ReportCall 'f bool
| StreamCall PeerID "'m list"
| OtherCall 'x

datatype ('f, 't, 'm) Task =
  SendStart PeerID 'm 'm duration 'f
| SendWrite 'm 'm duration 'f
| SendTimer 'm duration 'f
| SendRead "'t option option" 'f
| SendRemove "'t option" 'm "NetError option" 'f
| SendAnswer "'m option" "NetError option" 'f
| DialStart PeerID "'f option"
| DialReport bool 'f
| TaskDone

datatype 'm Outcome = Done | Failed string | Read 'm "string option"

record ('h, 'f, 't, 'q, 'm, 'x, 's) LWorld =
  lw_host :: 'h
  lw_now :: time
  lw_sched :: 's
  lw_tasks :: "('f, 't, 'm) Task list"
  lw_calls :: "('f, 'm, 'x) LCall list"

type_synonym ('h, 'f, 't, 'q, 'm, 'x, 's) LScheduler = "('s \<times> time, 't, ('h, 'f, 'q, 'm, 'x) LAction) Scheduler"

definition onLSched ::
  "('s \<times> time \<Rightarrow> (('s \<times> time) \<times> 'r) option) \<Rightarrow> ('h, 'f, 't, 'q, 'm, 'x, 's) LWorld \<Rightarrow>
   (('h, 'f, 't, 'q, 'm, 'x, 's) LWorld \<times> 'r) option" where
  "onLSched m w = do { ((s, _), r) \<leftarrow> m (lw_sched w, lw_now w); Some (w\<lparr>lw_sched := s\<rparr>, r) }"

definition lEnqueue ::
  "('h, 'f, 't, 'q, 'm, 'x, 's) LScheduler \<Rightarrow> ('h, 'f, 'q, 'm, 'x) LAction \<Rightarrow> ('h, 'f, 't, 'q, 'm, 'x, 's) LWorld \<Rightarrow>
   ('h, 'f, 't, 'q, 'm, 'x, 's) LWorld option" where
  "lEnqueue E a w = map_option fst (onLSched (\<lambda>sw. map_option (\<lambda>sw'. (sw', ())) (schEnqueueAction E sw a)) w)"

definition goTask :: "('f, 't, 'm) Task \<Rightarrow> ('h, 'f, 't, 'q, 'm, 'x, 's) LWorld \<Rightarrow> ('h, 'f, 't, 'q, 'm, 'x, 's) LWorld" where
  "goTask t w = w\<lparr>lw_tasks := lw_tasks w @ [t]\<rparr>"

section \<open>Requests and dials\<close>

text \<open>\<open>req\<close> and \<open>resp\<close> are \<open>None\<close> when they are not of the protobuf kind.\<close>

definition L_SendRequestHandleResponse ::
  "('h, 'a, 'q) Host \<Rightarrow> (key256 NodeID \<Rightarrow> PeerID option) \<Rightarrow> key256 NodeID \<Rightarrow> 'm option \<Rightarrow> 'm option \<Rightarrow> duration \<Rightarrow>
   'f option \<Rightarrow> ('h, 'f, 't, 'q, 'm, 'x, 's) LWorld \<Rightarrow> ('h, 'f, 't, 'q, 'm, 'x, 's) LWorld \<times> LError option" where
  "L_SendRequestHandleResponse H asPeerID n req resp timeout handler w =
     (case resp of
        None \<Rightarrow> (w, Some (LibErr ErrRequireProtoKadResponse))
      | Some protoResp \<Rightarrow>
     (case req of
        None \<Rightarrow> (w, Some (LibErr ErrRequireProtoKadMessage))
      | Some protoReq \<Rightarrow>
     (case asPeerID n of
        None \<Rightarrow> (w, Some (LibErr ErrRequirePeerID))
      | Some p \<Rightarrow>
          if storeAddrs H (lw_host w) p = [] then (w, Some (NetErr (EndpointErr ErrUnknownPeer)))
          else (case handler of
             None \<Rightarrow> (w, Some (NetErr (EndpointErr ErrNilResponseHandler)))
           | Some f \<Rightarrow> (goTask (SendStart p protoReq protoResp timeout f) w, None)))))"

definition AsyncDialAndReport ::
  "('h, 'a, 'q) Host \<Rightarrow> (key256 NodeID \<Rightarrow> PeerID option) \<Rightarrow> key256 NodeID \<Rightarrow> 'f option \<Rightarrow>
   ('h, 'f, 't, 'q, 'm, 'x, 's) LWorld \<Rightarrow> ('h, 'f, 't, 'q, 'm, 'x, 's) LWorld \<times> LError option" where
  "AsyncDialAndReport H asPeerID n report w =
     (case getPeerID asPeerID n of
        Inl err \<Rightarrow> (w, Some (NetErr err))
      | Inr p \<Rightarrow>
          if hostConnectedness H (lw_host w) p = Some Connected
          then (case report of
             None \<Rightarrow> (w, None)
           | Some f \<Rightarrow> (w\<lparr>lw_calls := lw_calls w @ [ReportCall f True]\<rparr>, None))
          else (goTask (DialStart p report) w, None))"

text \<open>The next call of a goroutine. The steps of a request are: open the stream, write the request, schedule
  the timeout, read the answer, remove the timeout, and hand the answer to the scheduler.\<close>

fun taskStep ::
  "('h, 'f, 't, 'q, 'm, 'x, 's) LScheduler \<Rightarrow> ('h, 'a, 'q) Host \<Rightarrow> 'm Outcome \<Rightarrow> ('f, 't, 'm) Task \<Rightarrow>
   ('h, 'f, 't, 'q, 'm, 'x, 's) LWorld \<Rightarrow> (('h, 'f, 't, 'q, 'm, 'x, 's) LWorld \<times> ('f, 't, 'm) Task) option" where
  "taskStep E H (Failed err) (SendStart p req resp timeout f) w = Some (w, SendAnswer None (Some (OtherErr err)) f)"
| "taskStep E H Done (SendStart p req resp timeout f) w = Some (w, SendWrite req resp timeout f)"
| "taskStep E H (Failed err) (SendWrite req resp timeout f) w = Some (w, SendAnswer None (Some (OtherErr err)) f)"
| "taskStep E H Done (SendWrite req resp timeout f) w = Some (w, SendTimer resp timeout f)"
| "taskStep E H o' (SendTimer resp timeout f) w =
     (if timeout \<noteq> 0
      then do {
        (w', h) \<leftarrow> onLSched (\<lambda>sw. ScheduleActionIn E sw timeout (TimeoutAct f)) w;
        Some (w', SendRead (Some h) f)
      }
      else Some (w, SendRead None f))"
| "taskStep E H (Read m err) (SendRead timeoutEvent f) w =
     (case timeoutEvent of
        Some h \<Rightarrow> Some (w, SendRemove h m (map_option OtherErr err) f)
      | None \<Rightarrow> Some (w, SendAnswer (Some m) (map_option OtherErr err) f))"
| "taskStep E H o' (SendRemove h m err f) w = do {
     (w', removed) \<leftarrow> onLSched (\<lambda>sw. schRemovePlannedAction E sw h) w;
     Some (w', if removed then SendAnswer (Some m) err f else TaskDone)
   }"
| "taskStep E H o' (SendAnswer m err f) w = do { w' \<leftarrow> lEnqueue E (RespAction f m err) w; Some (w', TaskDone) }"
| "taskStep E H o' (DialStart p report) w =
     (case dialHost H (lw_host w) p of (h', err) \<Rightarrow>
        Some (w\<lparr>lw_host := h'\<rparr>, case report of Some f \<Rightarrow> DialReport (err = None) f | None \<Rightarrow> TaskDone))"
| "taskStep E H o' (DialReport success f) w = do { w' \<leftarrow> lEnqueue E (ReportAction f success) w; Some (w', TaskDone) }"
| "taskStep E H _ _ w = None"

section \<open>Serving streams\<close>

text \<open>The loop over the messages of a stream. Each element is what reading a message yields, the host at
  that moment, of which the peer info of the requester is read, and what writing the answer yields;
  the end of the list is the end of the stream. \<open>serve\<close> is the handler, with \<open>None\<close> for an answer that is not of the protobuf kind. The result is the
  list of the messages written.\<close>

fun streamLoop ::
  "('h \<Rightarrow> 'm \<Rightarrow> string + 'm option) \<Rightarrow> ((string + 'm) \<times> 'h \<times> string option) list \<Rightarrow> 'm list" where
  "streamLoop serve [] = []"
| "streamLoop serve ((Inl err, _) # rest) = []"
| "streamLoop serve ((Inr m, h, werr) # rest) =
     (case serve h m of
        Inl err \<Rightarrow> []
      | Inr None \<Rightarrow> []
      | Inr (Some resp) \<Rightarrow> (case werr of Some err \<Rightarrow> [] | None \<Rightarrow> resp # streamLoop serve rest))"

definition L_AddRequestHandler ::
  "('h, 'a, 'q) Host \<Rightarrow> ProtocolID \<Rightarrow> bool \<Rightarrow> 'q option \<Rightarrow> 'h \<Rightarrow> 'h \<times> LError option" where
  "L_AddRequestHandler H protoID isProto reqHandler h =
     (if \<not> isProto then (h, Some (LibErr ErrRequireProtoKadMessage))
      else (case reqHandler of
        None \<Rightarrow> (h, Some (NetErr (EndpointErr ErrNilRequestHandler)))
      | Some q \<Rightarrow> (hostSetStreamHandler H h protoID q, None)))"

definition L_RemoveRequestHandler :: "('h, 'a, 'q) Host \<Rightarrow> ProtocolID \<Rightarrow> 'h \<Rightarrow> 'h" where
  "L_RemoveRequestHandler H protoID h = hostRemoveStreamHandler H h protoID"

text \<open>The action that the stream handler enqueues when the host has a stream from \<open>remote\<close>.\<close>

definition streamHandler ::
  "('h, 'f, 't, 'q, 'm, 'x, 's) LScheduler \<Rightarrow> 'q \<Rightarrow> PeerID \<Rightarrow> ((string + 'm) \<times> 'h \<times> string option) list \<Rightarrow>
   ('h, 'f, 't, 'q, 'm, 'x, 's) LWorld \<Rightarrow> ('h, 'f, 't, 'q, 'm, 'x, 's) LWorld option" where
  "streamHandler E q remote msgs w = lEnqueue E (ServeAction q remote msgs) w"

definition runLAction ::
  "('h, 'a, 'q) Host \<Rightarrow> ('q \<Rightarrow> 'a AddrInfo \<Rightarrow> 'm \<Rightarrow> string + 'm option) \<Rightarrow> ('h, 'f, 'q, 'm, 'x) LAction \<Rightarrow>
   ('h, 'f, 't, 'q, 'm, 'x, 's) LWorld \<Rightarrow> ('h, 'f, 't, 'q, 'm, 'x, 's) LWorld" where
  "runLAction H serve a w = w\<lparr>lw_calls := lw_calls w @
     [case a of
        RespAction f m err \<Rightarrow> RespCall f m err
      | TimeoutAct f \<Rightarrow> RespCall f None (Some (EndpointErr ErrTimeout))
      | ReportAction f success \<Rightarrow> ReportCall f success
      | ServeAction q remote msgs \<Rightarrow>
          StreamCall remote (streamLoop
            (\<lambda>h. let ai = storePeerInfo H h remote in serve q (NewAddrInfo (fst ai) (snd ai))) msgs)
      | OtherAction x \<Rightarrow> OtherCall x]\<rparr>"

section \<open>Everything that can happen\<close>

type_synonym ('h, 'f, 'q, 'm, 'x) LSched =
  "(('h, 'f, 'q, 'm, 'x) LAction ChanQueue, ('h, 'f, 'q, 'm, 'x) LAction SimplePlanner) SimpleScheduler"

type_synonym ('h, 'f, 'q, 'm, 'x) LNet = "('h, 'f, nat, 'q, 'm, 'x, ('h, 'f, 'q, 'm, 'x) LSched) LWorld"

datatype ('h, 'f, 'q, 'm, 'x) LOp =
  RequestOp "key256 NodeID" "'m option" "'m option" duration "'f option"
| AsyncDialOp "key256 NodeID" "'f option"
| HostOp 'h
| TaskOp nat "'m Outcome"
| StreamOp 'q PeerID "((string + 'm) \<times> 'h \<times> string option) list"
| EnqueueActionOp 'x
| ScheduleActionOp duration 'x
| PassOp duration
| RunOneOp

definition runLOn ::
  "('h, 'a, 'q) Host \<Rightarrow> ('q \<Rightarrow> 'a AddrInfo \<Rightarrow> 'm \<Rightarrow> string + 'm option) \<Rightarrow> ('h, 'f, 'q, 'm, 'x) LAction \<Rightarrow>
   ('h, 'f, 'q, 'm, 'x) LSched \<times> ('h, 'f, 'q, 'm, 'x) LNet \<Rightarrow> (('h, 'f, 'q, 'm, 'x) LSched \<times> ('h, 'f, 'q, 'm, 'x) LNet) option" where
  "runLOn H serve a sw = Some (fst sw, runLAction H serve a (snd sw))"

text \<open>A step yields the error that a request returned.\<close>

fun lStep ::
  "('h, 'a, 'q) Host \<Rightarrow> (key256 NodeID \<Rightarrow> PeerID option) \<Rightarrow> ('q \<Rightarrow> 'a AddrInfo \<Rightarrow> 'm \<Rightarrow> string + 'm option) \<Rightarrow>
   ('h, 'f, 'q, 'm, 'x) LOp \<Rightarrow> ('h, 'f, 'q, 'm, 'x) LNet \<Rightarrow> (('h, 'f, 'q, 'm, 'x) LNet \<times> LError option) option" where
  "lStep H asPeerID serve (RequestOp n req resp timeout f) w =
     Some (L_SendRequestHandleResponse H asPeerID n req resp timeout f w)"
| "lStep H asPeerID serve (AsyncDialOp n f) w = Some (AsyncDialAndReport H asPeerID n f w)"
| "lStep H asPeerID serve (HostOp h) w = Some (w\<lparr>lw_host := h\<rparr>, None)"
| "lStep H asPeerID serve (TaskOp i out) w =
     (if i < length (lw_tasks w)
      then do {
        (w', t) \<leftarrow> taskStep netSched H out (lw_tasks w ! i) w;
        Some (w'\<lparr>lw_tasks := (lw_tasks w')[i := t]\<rparr>, None)
      }
      else None)"
| "lStep H asPeerID serve (StreamOp q remote msgs) w = map_option (\<lambda>w'. (w', None)) (streamHandler netSched q remote msgs w)"
| "lStep H asPeerID serve (EnqueueActionOp x) w = map_option (\<lambda>w'. (w', None)) (lEnqueue netSched (OtherAction x) w)"
| "lStep H asPeerID serve (ScheduleActionOp d x) w =
     map_option (\<lambda>(w', _). (w', None)) (onLSched (\<lambda>sw. ScheduleActionIn netSched sw d (OtherAction x)) w)"
| "lStep H asPeerID serve (PassOp d) w = (if d < 0 then None else Some (w\<lparr>lw_now := lw_now w + d\<rparr>, None))"
| "lStep H asPeerID serve RunOneOp w = do {
     ((s, w'), _) \<leftarrow> SimpleScheduler_RunOne ChanQueue_methods SimplePlanner_methods (runLOn H serve) lw_now (lw_sched w, w);
     Some (w'\<lparr>lw_sched := s\<rparr>, None)
   }"

definition newLWorld :: "'h \<Rightarrow> time \<Rightarrow> ('h, 'f, 'q, 'm, 'x) LSched \<Rightarrow> ('h, 'f, 'q, 'm, 'x) LNet" where
  "newLWorld h t s = \<lparr>lw_host = h, lw_now = t, lw_sched = s, lw_tasks = [], lw_calls = []\<rparr>"

text \<open>The reachable worlds, with the operations that lead there and what they returned.\<close>

inductive libp2p_reach ::
  "('h, 'a, 'q) Host \<Rightarrow> (key256 NodeID \<Rightarrow> PeerID option) \<Rightarrow> ('q \<Rightarrow> 'a AddrInfo \<Rightarrow> 'm \<Rightarrow> string + 'm option) \<Rightarrow>
   (('h, 'f, 'q, 'm, 'x) LOp \<times> LError option) list \<Rightarrow> ('h, 'f, 'q, 'm, 'x) LNet \<Rightarrow> bool"
  for H asPeerID serve where
  start: "NewSimpleScheduler = Some s \<Longrightarrow> libp2p_reach H asPeerID serve [] (newLWorld h t s)"
| step: "libp2p_reach H asPeerID serve tr w \<Longrightarrow> lStep H asPeerID serve op w = Some (w', r) \<Longrightarrow>
    libp2p_reach H asPeerID serve (tr @ [(op, r)]) w'"

section \<open>Counting the calls of a response handler\<close>

fun l_asks :: "'f \<Rightarrow> ('h, 'f, 'q, 'm, 'x) LAction \<Rightarrow> bool" where
  "l_asks f (RespAction g m err) \<longleftrightarrow> g = f"
| "l_asks f (TimeoutAct g) \<longleftrightarrow> g = f"
| "l_asks f a \<longleftrightarrow> False"

fun is_resp :: "'f \<Rightarrow> ('f, 'm, 'x) LCall \<Rightarrow> bool" where
  "is_resp f (RespCall g m err) \<longleftrightarrow> g = f"
| "is_resp f c \<longleftrightarrow> False"

text \<open>A goroutine that will itself see to a call of the handler.\<close>

fun will_answer :: "'f \<Rightarrow> ('f, 't, 'm) Task \<Rightarrow> bool" where
  "will_answer f (SendStart p req resp timeout g) \<longleftrightarrow> g = f"
| "will_answer f (SendWrite req resp timeout g) \<longleftrightarrow> g = f"
| "will_answer f (SendTimer resp timeout g) \<longleftrightarrow> g = f"
| "will_answer f (SendRead None g) \<longleftrightarrow> g = f"
| "will_answer f (SendAnswer m err g) \<longleftrightarrow> g = f"
| "will_answer f t \<longleftrightarrow> False"

fun accepts :: "'f \<Rightarrow> ('h, 'f, 'q, 'm, 'x) LOp \<times> LError option \<Rightarrow> bool" where
  "accepts f (RequestOp n req resp timeout (Some g), None) \<longleftrightarrow> g = f"
| "accepts f _ \<longleftrightarrow> False"

definition count_if :: "('a \<Rightarrow> bool) \<Rightarrow> 'a list \<Rightarrow> nat" where
  "count_if P xs = length (filter P xs)"

lemma count_if_simps [simp]: "count_if P [] = 0" "count_if P (x # xs) = (if P x then 1 else 0) + count_if P xs"
  "count_if P (xs @ ys) = count_if P xs + count_if P ys"
  by (simp_all add: count_if_def)

lemma count_if_mset: "mset xs = mset ys \<Longrightarrow> count_if P xs = count_if P ys"
  unfolding count_if_def by (metis mset_filter size_mset)

lemma count_if_update:
  "i < length xs \<Longrightarrow> count_if P (xs[i := y]) + (if P (xs ! i) then 1 else 0) = count_if P xs + (if P y then 1 else 0)"
  by (induction xs arbitrary: i) (fastforce split: nat.splits simp: nth_Cons)+

definition handled :: "'f \<Rightarrow> ('h, 'f, 'q, 'm, 'x) LNet \<Rightarrow> nat" where
  "handled f w = count_if (is_resp f) (lw_calls w)"

text \<open>The calls that are still to come: those with the scheduler and those with the goroutines.\<close>

definition awaited :: "'f \<Rightarrow> ('h, 'f, 'q, 'm, 'x) LNet \<Rightarrow> nat" where
  "awaited f w = count_if (l_asks f) (nets.acts (lw_sched w)) + count_if (will_answer f) (lw_tasks w)"

text \<open>The handles that goroutines hold are those of their own timeout.\<close>

fun task_ok :: "('h, 'f, 'q, 'm, 'x) LSched \<Rightarrow> ('f, nat, 'm) Task \<Rightarrow> bool" where
  "task_ok s (SendRead (Some (Some h)) f) \<longleftrightarrow>
     h \<in> sched_issued s \<and> (\<forall>en \<in> set (sched_plan s). fst en = h \<longrightarrow> act en = TimeoutAct f)"
| "task_ok s (SendRemove (Some h) m err f) \<longleftrightarrow>
     h \<in> sched_issued s \<and> (\<forall>en \<in> set (sched_plan s). fst en = h \<longrightarrow> act en = TimeoutAct f)"
| "task_ok s t \<longleftrightarrow> True"

definition l_inv :: "('h, 'f, 'q, 'm, 'x) LNet \<Rightarrow> bool" where
  "l_inv w \<longleftrightarrow> scheduler_inv (lw_sched w) \<and> (\<forall>t \<in> set (lw_tasks w). task_ok (lw_sched w) t)"

text \<open>From \<open>w\<close> to \<open>w'\<close> the invariant holds on, and \<open>n f\<close> new calls of \<open>f\<close> are owed.\<close>

definition l_next :: "('f \<Rightarrow> nat) \<Rightarrow> ('h, 'f, 'q, 'm, 'x) LNet \<Rightarrow> ('h, 'f, 'q, 'm, 'x) LNet \<Rightarrow> bool" where
  "l_next n w w' \<longleftrightarrow> l_inv w' \<and> (\<forall>f. handled f w' + awaited f w' = handled f w + awaited f w + n f)"

lemma task_ok_mono:
  "task_ok s t \<Longrightarrow> sched_issued s \<subseteq> sched_issued s' \<Longrightarrow>
   (\<And>en. en \<in> set (sched_plan s') \<Longrightarrow> en \<in> set (sched_plan s) \<or> fst en \<notin> sched_issued s) \<Longrightarrow> task_ok s' t"
  by (cases "(s, t)" rule: task_ok.cases) (auto; blast)+

section \<open>The scheduler of the endpoint\<close>

lemma onLSched_cases:
  assumes "onLSched m w = Some (w', r)"
  obtains s t where "m (lw_sched w, lw_now w) = Some ((s, t), r)" "w' = w\<lparr>lw_sched := s\<rparr>"
  using assms by (auto simp: onLSched_def bind_eq_Some)

lemma l_sched_sel [simp]:
  "lw_tasks (w\<lparr>lw_sched := s\<rparr>) = lw_tasks w" "handled f (w\<lparr>lw_sched := s\<rparr>) = handled f w"
  by (simp_all add: handled_def)

lemma lEnqueue_law:
  fixes w :: "('h, 'f, 'q, 'm, 'x) LNet"
  assumes w: "l_inv w" and q: "lEnqueue netSched a w = Some w'"
  shows "l_inv w'" "lw_tasks w' = lw_tasks w" "handled f w' = handled f w"
    "awaited f w' = awaited f w + (if l_asks f a then 1 else 0)"
proof -
  obtain s t where s: "schEnqueueAction netSched (lw_sched w, lw_now w) a = Some (s, t)" "w' = w\<lparr>lw_sched := s\<rparr>"
    using q by (auto simp: lEnqueue_def elim!: onLSched_cases)
  have inv: "scheduler_inv (lw_sched w)" using w by (simp add: l_inv_def)
  from nets.enqueue_law [OF inv s(1)] have s': "scheduler_inv s" "sched_queued s = sched_queued (lw_sched w) @ [a]"
    "sched_plan s = sched_plan (lw_sched w)" "sched_issued s = sched_issued (lw_sched w)" by auto
  have "task_ok s t" if "task_ok (lw_sched w) t" for t :: "('f, nat, 'm) Task"
    by (rule task_ok_mono [OF that]) (auto simp: s')
  with w s' show "l_inv w'" by (auto simp: l_inv_def s(2))
  show "lw_tasks w' = lw_tasks w" "handled f w' = handled f w" by (simp_all add: s(2))
  show "awaited f w' = awaited f w + (if l_asks f a then 1 else 0)"
    by (simp add: awaited_def s(2) nets.acts_def s')
qed

lemma lSchedule_law:
  fixes w :: "('h, 'f, 'q, 'm, 'x) LNet"
  assumes w: "l_inv w" and q: "onLSched (\<lambda>sw. ScheduleActionIn netSched sw d a) w = Some (w', ho)"
  shows "l_inv w'" "lw_tasks w' = lw_tasks w" "handled f w' = handled f w"
    "awaited f w' = awaited f w + (if l_asks f a then 1 else 0)"
    "a = TimeoutAct g \<Longrightarrow> task_ok (lw_sched w') (SendRead (Some ho) g :: ('f, nat, 'm) Task)"
proof -
  obtain s t where s: "ScheduleActionIn netSched (lw_sched w, lw_now w) d a = Some ((s, t), ho)" "w' = w\<lparr>lw_sched := s\<rparr>"
    using q by (rule onLSched_cases)
  have inv: "scheduler_inv (lw_sched w)" using w by (simp add: l_inv_def)
  from nets.ScheduleActionIn_law [OF inv s(1)] have s': "scheduler_inv s"
    "mset (nets.acts s) = add_mset a (mset (nets.acts (lw_sched w)))" "sched_issued (lw_sched w) \<subseteq> sched_issued s"
    "ho = None \<Longrightarrow> sched_plan s = sched_plan (lw_sched w)"
    "\<And>h. ho = Some h \<Longrightarrow> h \<in> sched_issued s \<and> h \<notin> sched_issued (lw_sched w) \<and>
      (\<exists>t'. set (sched_plan s) = insert (h, t', a) (set (sched_plan (lw_sched w))))"
    by (auto split: option.splits)
  have new: "en \<in> set (sched_plan (lw_sched w)) \<or> (ho = Some (fst en) \<and> fst en \<notin> sched_issued (lw_sched w) \<and> act en = a)"
    if "en \<in> set (sched_plan s)" for en
    using that s'(4,5) by (cases ho) fastforce+
  have "task_ok s t" if "task_ok (lw_sched w) t" for t :: "('f, nat, 'm) Task"
    by (rule task_ok_mono [OF that s'(3)]) (use new in blast)
  with w s' show "l_inv w'" by (auto simp: l_inv_def s(2))
  show "lw_tasks w' = lw_tasks w" "handled f w' = handled f w" by (simp_all add: s(2))
  show "awaited f w' = awaited f w + (if l_asks f a then 1 else 0)"
    using count_if_mset [of "nets.acts s" "a # nets.acts (lw_sched w)" "l_asks f"] s'(2) by (simp add: awaited_def s(2))
  show "task_ok (lw_sched w') (SendRead (Some ho) g :: ('f, nat, 'm) Task)" if a: "a = TimeoutAct g"
  proof (cases ho)
    case (Some h)
    with s'(5) [OF Some] new nets.plan_issued [OF inv] a show ?thesis by (fastforce simp: s(2))
  qed simp
qed

text \<open>The plan holds every handle once, so that removing a planned action removes one.\<close>

lemma distinct_plan: "scheduler_inv s \<Longrightarrow> distinct (map fst (sched_plan s))"
  by (simp add: scheduler_inv_def simple_planner_inv_def simple_plan_def comp_def)

lemma filter_one:
  assumes "distinct (map fst xs)" "e \<in> set xs"
  shows "\<exists>us vs. xs = us @ e # vs \<and> filter (\<lambda>x. fst x \<noteq> fst e) xs = us @ vs"
proof -
  obtain us vs where xs: "xs = us @ e # vs" using split_list [OF assms(2)] by blast
  then have "fst e \<notin> fst ` set (us @ vs)" using assms(1) by auto
  then have "filter (\<lambda>x. fst x \<noteq> fst e) (us @ vs) = us @ vs" by (intro filter_True) (metis imageI)
  with xs show ?thesis by auto
qed

lemma lRemove_law:
  fixes w :: "('h, 'f, 'q, 'm, 'x) LNet"
  assumes w: "l_inv w" and t: "task_ok (lw_sched w) (SendRemove ho m err g :: ('f, nat, 'm) Task)"
    and q: "onLSched (\<lambda>sw. schRemovePlannedAction netSched sw ho) w = Some (w', b)"
  shows "l_inv w'" "lw_tasks w' = lw_tasks w" "handled f w' = handled f w"
    "awaited f w' + (if b \<and> g = f then 1 else 0) = awaited f w"
proof -
  obtain s u where s: "schRemovePlannedAction netSched (lw_sched w, lw_now w) ho = Some ((s, u), b)" "w' = w\<lparr>lw_sched := s\<rparr>"
    using q by (rule onLSched_cases)
  have inv: "scheduler_inv (lw_sched w)" using w by (simp add: l_inv_def)
  show "lw_tasks w' = lw_tasks w" "handled f w' = handled f w" by (simp_all add: s(2))
  have "l_inv w' \<and> awaited f w' + (if b \<and> g = f then 1 else 0) = awaited f w"
  proof (cases ho)
    case None
    with nets.remove_nil [OF inv] s have "w' = w" "\<not> b" by auto
    with w show ?thesis by simp
  next
    case (Some h)
    from nets.remove_law [OF inv, of "lw_now w" h] s(1) Some have s': "scheduler_inv s"
      "sched_queued s = sched_queued (lw_sched w)" "sched_issued s = sched_issued (lw_sched w)"
      "sched_plan s = filter (\<lambda>e. fst e \<noteq> h) (sched_plan (lw_sched w))" "b \<longleftrightarrow> h \<in> fst ` set (sched_plan (lw_sched w))"
      by auto
    have "task_ok s t" if "task_ok (lw_sched w) t" for t :: "('f, nat, 'm) Task"
      by (rule task_ok_mono [OF that]) (auto simp: s')
    then have l: "l_inv w'" using w s' by (auto simp: l_inv_def s(2))
    show ?thesis
    proof (cases b)
      case False
      then have "sched_plan s = sched_plan (lw_sched w)" using s'(4,5) by (force simp: filter_id_conv)
      with l False s' show ?thesis by (simp add: awaited_def s(2) nets.acts_def)
    next
      case True
      then obtain e where e: "e \<in> set (sched_plan (lw_sched w))" "fst e = h" using s'(5) by auto
      then have "act e = TimeoutAct g" using t Some by simp
      moreover obtain us vs where "sched_plan (lw_sched w) = us @ e # vs" "sched_plan s = us @ vs"
        using filter_one [OF distinct_plan [OF inv] e(1)] s'(4) e(2) by auto
      ultimately show ?thesis using l True s' by (simp add: awaited_def s(2) nets.acts_def)
    qed
  qed
  then show "l_inv w'" "awaited f w' + (if b \<and> g = f then 1 else 0) = awaited f w" by simp_all
qed

section \<open>The goroutines\<close>

lemma set_task_law:
  assumes w: "l_inv w" and i: "i < length (lw_tasks w)" and t: "task_ok (lw_sched w) t"
  shows "l_inv (w\<lparr>lw_tasks := (lw_tasks w)[i := t]\<rparr>)"
    "handled f (w\<lparr>lw_tasks := (lw_tasks w)[i := t]\<rparr>) = handled f w"
    "awaited f (w\<lparr>lw_tasks := (lw_tasks w)[i := t]\<rparr>) + (if will_answer f (lw_tasks w ! i) then 1 else 0) =
     awaited f w + (if will_answer f t then 1 else 0)"
  using w t count_if_update [OF i, of "will_answer f" t] set_update_subset_insert [of "lw_tasks w" i t]
  by (auto simp: l_inv_def handled_def awaited_def)

lemma taskStep_law:
  assumes w: "l_inv w" and i: "i < length (lw_tasks w)"
    and q: "taskStep netSched H out (lw_tasks w ! i) w = Some (w', t)"
  shows "l_next (\<lambda>_. 0) w (w'\<lparr>lw_tasks := (lw_tasks w')[i := t]\<rparr>)"
proof -
  let ?t = "lw_tasks w ! i"
  have ok: "task_ok (lw_sched w) ?t" using w i by (simp add: l_inv_def)
  have "l_inv w' \<and> lw_tasks w' = lw_tasks w \<and> task_ok (lw_sched w') t \<and> (\<forall>f. handled f w' = handled f w \<and>
      awaited f w' + (if will_answer f t then 1 else 0) = awaited f w + (if will_answer f ?t then 1 else 0))"
  proof (cases ?t)
    case (SendTimer resp timeout g)
    show ?thesis
    proof (cases "timeout = 0")
      case False
      with q SendTimer obtain ho where s: "onLSched (\<lambda>sw. ScheduleActionIn netSched sw timeout (TimeoutAct g)) w = Some (w', ho)"
        "t = SendRead (Some ho) g" by (auto simp: bind_eq_Some)
      from lSchedule_law [OF w s(1)] SendTimer s(2) show ?thesis by auto
    qed (use q w SendTimer in auto)
  next
    case (SendRead te g)
    with q w ok show ?thesis by (cases out; cases te) (auto elim: task_ok.elims)
  next
    case (SendRemove ho m err g)
    with q obtain b where s: "onLSched (\<lambda>sw. schRemovePlannedAction netSched sw ho) w = Some (w', b)"
      "t = (if b then SendAnswer (Some m) err g else TaskDone)" by (auto simp: bind_eq_Some)
    from ok SendRemove have "task_ok (lw_sched w) (SendRemove ho m err g)" by simp
    note R = lRemove_law [OF w this s(1)]
    from R(1-3) SendRemove s(2) show ?thesis by (simp add: R(4) [symmetric])
  next
    case (SendAnswer m err g)
    with q have s: "lEnqueue netSched (RespAction g m err) w = Some w'" "t = TaskDone" by (auto simp: bind_eq_Some)
    from lEnqueue_law [OF w s(1)] SendAnswer s(2) show ?thesis by auto
  next
    case (DialReport b g)
    with q have s: "lEnqueue netSched (ReportAction g b) w = Some w'" "t = TaskDone" by (auto simp: bind_eq_Some)
    from lEnqueue_law [OF w s(1)] DialReport s(2) show ?thesis by auto
  next
    case (DialStart p r)
    with q w show ?thesis by (auto simp: l_inv_def handled_def awaited_def split: prod.splits option.splits)
  qed (use q w in \<open>cases out; auto\<close>)+
  then have w': "l_inv w'" "i < length (lw_tasks w')" "lw_tasks w' ! i = ?t" "task_ok (lw_sched w') t"
    and n: "handled f w' = handled f w"
      "awaited f w' + (if will_answer f t then 1 else 0) = awaited f w + (if will_answer f ?t then 1 else 0)" for f
    using i by auto
  note S = set_task_law [OF w'(1,2,4)]
  have "awaited f (w'\<lparr>lw_tasks := (lw_tasks w')[i := t]\<rparr>) = awaited f w" for f
    using S(3) [of f] n(2) [of f] by (simp add: w'(3))
  with S(1,2) n(1) show ?thesis by (simp add: l_next_def)
qed

section \<open>Every step\<close>

lemma l_nextI:
  assumes "l_inv w'" "\<And>f. handled f w' = handled f w + a f" "\<And>f. awaited f w' + a f = awaited f w + n f"
  shows "l_next n w w'"
  using assms by (simp add: l_next_def) (metis add.assoc add.commute)

lemma Request_law:
  assumes w: "l_inv w" and q: "L_SendRequestHandleResponse H asPeerID n req resp timeout h w = (w', r)"
  shows "l_next (\<lambda>f. if accepts f (RequestOp n req resp timeout h :: ('h, 'f, 'q, 'm, 'x) LOp, r) then 1 else 0) w w'"
  using w q by (auto simp: L_SendRequestHandleResponse_def l_next_def l_inv_def handled_def awaited_def goTask_def
      split: option.splits if_splits)

lemma AsyncDial_law:
  assumes w: "l_inv w" and q: "AsyncDialAndReport H asPeerID n h w = (w', r)"
  shows "l_next (\<lambda>_. 0) w w'"
  using w q by (auto simp: AsyncDialAndReport_def l_next_def l_inv_def handled_def awaited_def goTask_def
      split: option.splits if_splits sum.splits)

lemma Run_step_law:
  fixes w :: "('h, 'f, 'q, 'm, 'x) LNet"
  assumes w: "l_inv w"
    and q: "SimpleScheduler_RunOne ChanQueue_methods SimplePlanner_methods (runLOn H serve) lw_now (lw_sched w, w) = Some ((s, v), did)"
  shows "l_next (\<lambda>_. 0) w (v\<lparr>lw_sched := s\<rparr>)"
proof -
  have inv: "scheduler_inv (lw_sched w)" using w by (simp add: l_inv_def)
  obtain s' where s': "scheduler_inv s'" "sched_issued s' = sched_issued (lw_sched w)"
    "set (sched_plan s') \<subseteq> set (sched_plan (lw_sched w))"
    "mset (nets.acts (lw_sched w)) = mset (take 1 (ready_actions (lw_now w) (lw_sched w))) + mset (nets.acts s')"
    and run: "case ready_actions (lw_now w) (lw_sched w) of
       [] \<Rightarrow> s = s' \<and> v = w \<and> \<not> did
     | a # _ \<Rightarrow> runLOn H serve a (s', w) = Some (s, v) \<and> did"
    using RunOne_taken [OF inv q] by blast
  have "s = s'" using run by (cases "ready_actions (lw_now w) (lw_sched w)") (simp_all add: runLOn_def)
  have tasks: "lw_tasks v = lw_tasks w"
    using run by (cases "ready_actions (lw_now w) (lw_sched w)") (auto simp: runLOn_def runLAction_def)
  have calls: "handled f v = handled f w + count_if (l_asks f) (take 1 (ready_actions (lw_now w) (lw_sched w)))" for f
  proof (cases "ready_actions (lw_now w) (lw_sched w)")
    case (Cons a rest)
    with run show ?thesis by (cases a) (auto simp: runLOn_def runLAction_def handled_def Let_def)
  qed (use run in simp)
  have "count_if (l_asks f) (nets.acts (lw_sched w)) =
      count_if (l_asks f) (take 1 (ready_actions (lw_now w) (lw_sched w))) + count_if (l_asks f) (nets.acts s')" for f
    using count_if_mset [of "nets.acts (lw_sched w)" "take 1 (ready_actions (lw_now w) (lw_sched w)) @ nets.acts s'" "l_asks f"] s'(4)
    by simp
  moreover have "task_ok s' t" if "task_ok (lw_sched w) t" for t :: "('f, nat, 'm) Task"
    by (rule task_ok_mono [OF that]) (use s' in auto)
  ultimately show ?thesis using w s'(1) tasks
    by (intro l_nextI [where a = "\<lambda>f. count_if (l_asks f) (take 1 (ready_actions (lw_now w) (lw_sched w)))"])
      (auto simp: l_inv_def \<open>s = s'\<close> calls awaited_def)
qed

lemma lStep_law:
  fixes w :: "('h, 'f, 'q, 'm, 'x) LNet"
  assumes w: "l_inv w" and q: "lStep H asPeerID serve op w = Some (w', r)"
  shows "l_next (\<lambda>f. if accepts f (op, r) then 1 else 0) w w'"
proof (cases op)
  case (RequestOp n req resp timeout h)
  with q Request_law [OF w] show ?thesis by simp
next
  case (AsyncDialOp n h)
  with q AsyncDial_law [OF w] show ?thesis by simp
next
  case (TaskOp i out)
  with q obtain v t where "i < length (lw_tasks w)" "taskStep netSched H out (lw_tasks w ! i) w = Some (v, t)"
    "w' = v\<lparr>lw_tasks := (lw_tasks v)[i := t]\<rparr>" by (auto simp: bind_eq_Some split: if_splits)
  with taskStep_law [OF w] TaskOp show ?thesis by simp
next
  case (RunOneOp)
  with q obtain s v did where "SimpleScheduler_RunOne ChanQueue_methods SimplePlanner_methods (runLOn H serve) lw_now (lw_sched w, w) = Some ((s, v), did)"
    "w' = v\<lparr>lw_sched := s\<rparr>" by (auto simp: bind_eq_Some)
  with Run_step_law [OF w] RunOneOp show ?thesis by simp
next
  case (StreamOp g remote msgs)
  with q have e: "lEnqueue netSched (ServeAction g remote msgs) w = Some w'" by (simp add: streamHandler_def)
  show ?thesis using lEnqueue_law [OF w e] StreamOp by (simp add: l_next_def)
next
  case (EnqueueActionOp x)
  with q have e: "lEnqueue netSched (OtherAction x) w = Some w'" by simp
  show ?thesis using lEnqueue_law [OF w e] EnqueueActionOp by (simp add: l_next_def)
next
  case (ScheduleActionOp d x)
  with q obtain ho where e: "onLSched (\<lambda>sw. ScheduleActionIn netSched sw d (OtherAction x)) w = Some (w', ho)" by auto
  show ?thesis using lSchedule_law(1-4) [OF w e] ScheduleActionOp by (simp add: l_next_def)
qed (use q w in \<open>auto simp: l_next_def l_inv_def handled_def awaited_def split: if_splits\<close>)

lemma libp2p_reach_inv:
  assumes "libp2p_reach H asPeerID serve tr w"
  shows "l_inv w \<and> handled f w + awaited f w = count_if (accepts f) tr"
  using assms
proof (induction rule: libp2p_reach.induct)
  case (start s h t)
  then have "scheduler_inv s" "nets.acts s = []"
    by (auto simp: NewSimplePlanner_inv NewSimpleScheduler_def NewChanQueue_def DefaultChanqueueCapacity_def scheduler_inv_def
        chan_inv_def nets.acts_def)
  then show ?case by (simp add: newLWorld_def l_inv_def handled_def awaited_def)
next
  case (step tr w op w' r)
  from lStep_law [of w H asPeerID serve op w' r] step show ?case by (auto simp: l_next_def)
qed

text \<open>The goroutine of a request that waits for its answer and has left the rest to its timeout, or has
  done its work.\<close>

fun settled_task :: "('f, 't, 'm) Task \<Rightarrow> bool" where
  "settled_task TaskDone \<longleftrightarrow> True"
| "settled_task (SendRead (Some h) f) \<longleftrightarrow> True"
| "settled_task t \<longleftrightarrow> False"

definition libp2p_rest :: "('h, 'f, 'q, 'm, 'x) LNet \<Rightarrow> bool" where
  "libp2p_rest w \<longleftrightarrow> nets.acts (lw_sched w) = [] \<and> list_all settled_task (lw_tasks w)"

lemma rest_awaited:
  fixes w :: "('h, 'f, 'q, 'm, 'x) LNet"
  shows "libp2p_rest w \<Longrightarrow> awaited f w = 0"
proof -
  have "\<not> will_answer f t" if "settled_task t" for t :: "('f, nat, 'm) Task"
    using that by (cases t rule: settled_task.cases) auto
  then show "awaited f w = 0" if "libp2p_rest w"
    using that by (auto simp: libp2p_rest_def awaited_def count_if_def list_all_iff filter_empty_conv)
qed

section \<open>Properties\<close>

text \<open>C10: In every reachable state of an endpoint of libp2p, whatever the host and the streams answer and however
  the goroutines, the scheduler and the timeouts interleave, a response handler has been called as
  often as requests with it were accepted, less the calls that are still owed by a goroutine or by an
  action of the scheduler. At rest, when the scheduler holds nothing and no goroutine can do more than
  wait for an answer that is too late, every accepted request has had exactly one call.\<close>

theorem libp2p_handler_once:
  assumes "libp2p_reach H asPeerID serve tr w"
  shows "handled f w + awaited f w = count_if (accepts f) tr \<and>
    (libp2p_rest w \<longrightarrow> handled f w = count_if (accepts f) tr)"
  using libp2p_reach_inv [OF assms, of f] rest_awaited [of w f] by auto

text \<open>A host without connections that knows an address of every peer; its state is nothing.\<close>

definition host8 :: "(unit, 8 word, unit) Host" where
  "host8 = \<lparr>hostID = (\<lambda>_. [1]), hostConnectedness = (\<lambda>_ _. Some NotConnected), hostConnect = (\<lambda>h _. (h, None)),
     storeAddrs = (\<lambda>_ _. [3]), storePeerInfo = (\<lambda>_ p. (p, [3])), storeAddAddrs = (\<lambda>h _ _ _. h),
     hostSetStreamHandler = (\<lambda>h _ _. h), hostRemoveStreamHandler = (\<lambda>h _. h)\<rparr>"

fun lRun ::
  "('h, 'a, 'q) Host \<Rightarrow> (key256 NodeID \<Rightarrow> PeerID option) \<Rightarrow> ('q \<Rightarrow> 'a AddrInfo \<Rightarrow> 'm \<Rightarrow> string + 'm option) \<Rightarrow>
   ('h, 'f, 'q, 'm, 'x) LOp list \<Rightarrow> ('h, 'f, 'q, 'm, 'x) LNet \<Rightarrow>
   ((('h, 'f, 'q, 'm, 'x) LOp \<times> LError option) list \<times> ('h, 'f, 'q, 'm, 'x) LNet) option" where
  "lRun H asPeerID serve [] w = Some ([], w)"
| "lRun H asPeerID serve (op # ops) w = do {
     (w', r) \<leftarrow> lStep H asPeerID serve op w;
     (tr, v) \<leftarrow> lRun H asPeerID serve ops w';
     Some ((op, r) # tr, v)
   }"

lemma lRun_reach:
  assumes "libp2p_reach H asPeerID serve tr0 w" "lRun H asPeerID serve ops w = Some (tr, v)"
  shows "libp2p_reach H asPeerID serve (tr0 @ tr) v"
  using assms
proof (induction ops arbitrary: tr0 w tr)
  case (Cons op ops)
  then obtain w' r tr' where "lStep H asPeerID serve op w = Some (w', r)" "lRun H asPeerID serve ops w' = Some (tr', v)"
    "tr = (op, r) # tr'" by (auto simp: bind_eq_Some)
  with Cons.IH [OF libp2p_reach.step [OF Cons.prems(1)]] show ?case by fastforce
qed simp

text \<open>Two requests: the answer to the first, with handler 1, arrives; that to the second comes after its timeout.\<close>

definition ops8 :: "(unit, nat, unit, nat, unit) LOp list" where
  "ops8 = [RequestOp (pnode256 7) (Some 0) (Some 0) 5 (Some 1), RequestOp (pnode256 9) (Some 0) (Some 0) 5 (Some 2),
     RequestOp (pnode256 9) (Some 0) None 5 (Some 3),
     TaskOp 0 Done, TaskOp 0 Done, TaskOp 1 Done, TaskOp 0 Done, TaskOp 1 Done, TaskOp 1 Done,
     TaskOp 0 (Read 77 None), TaskOp 0 Done, TaskOp 0 Done, PassOp 5, RunOneOp, RunOneOp, TaskOp 1 (Read 78 None), TaskOp 1 Done]"

definition lnet8 :: "(unit, nat, unit, nat, unit) LNet" where
  "lnet8 = newLWorld () 0 (the NewSimpleScheduler)"

lemma lnet8_reach: "libp2p_reach host8 asPeer8 serve [] lnet8"
  using libp2p_reach.start [of "the NewSimpleScheduler"] unfolding lnet8_def
  by (simp add: NewSimpleScheduler_def NewChanQueue_def DefaultChanqueueCapacity_def)

declare insertAfter.simps [code] unlinkLoop.simps [code] overdueLoop.simps [code]

lemma ops8_run:
  "case lRun host8 asPeer8 (\<lambda>_ _ _. Inl []) ops8 lnet8 of
     None \<Rightarrow> False
   | Some (tr, w) \<Rightarrow> nets.acts (lw_sched w) = [] \<and> lw_tasks w = [TaskDone, TaskDone] \<and>
       lw_calls w = [RespCall 1 (Some 77) None, RespCall 2 None (Some (EndpointErr ErrTimeout))] \<and>
       snd (tr ! 2) = Some (LibErr ErrRequireProtoKadResponse)"
  unfolding nets.acts_def
  by code_simp

theorem libp2p_handler_once_witness:
  "\<exists>tr (w :: (unit, nat, unit, nat, unit) LNet). libp2p_reach host8 asPeer8 (\<lambda>_ _ _. Inl []) tr w \<and> libp2p_rest w \<and>
     lw_calls w = [RespCall 1 (Some 77) None, RespCall 2 None (Some (EndpointErr ErrTimeout))] \<and>
     (\<forall>f. handled f w = count_if (accepts f) tr)"
proof -
  obtain tr w where run: "lRun host8 asPeer8 (\<lambda>_ _ _. Inl []) ops8 lnet8 = Some (tr, w)"
    and w: "nets.acts (lw_sched w) = []" "lw_tasks w = [TaskDone, TaskDone]"
    "lw_calls w = [RespCall 1 (Some 77) None, RespCall 2 None (Some (EndpointErr ErrTimeout))]"
    using ops8_run by (auto split: option.splits)
  from lRun_reach [OF lnet8_reach run] have reach: "libp2p_reach host8 asPeer8 (\<lambda>_ _ _. Inl []) tr w" by simp
  moreover have "libp2p_rest w" by (simp add: libp2p_rest_def w)
  ultimately show ?thesis using libp2p_handler_once [OF reach] w(3) by blast
qed

end
