(* ===== verification/Kad_Test.thy ===== *)
theory Kad_Test
  imports Key_Types Event_Queue
begin

text \<open>
  The package \<open>internal/kadtest\<close>, which the tests and the simulations of the repository build their
  keys, nodes and messages with (\<open>ids.go\<close>, \<open>message.go\<close>, \<open>rand.go\<close>), and the actions of
  \<open>event/testaction.go\<close>.

  \<^item> The number that the random generator returns is an argument; so is the hash function of a
    \<open>StringID\<close>.
  \<^item> The addresses of an \<open>Info\<close> are the list of the slice; \<open>RemoveAddr\<close> works on the array behind it.
\<close>

section \<open>Random keys with a prefix\<close>

text \<open>\<open>strconv.ParseInt(s, 2, 32)\<close>: an optional sign and binary digits. Any error is \<open>None\<close>.\<close>

fun binDigits :: "nat \<Rightarrow> string \<Rightarrow> nat option" where
  "binDigits n [] = Some n"
| "binDigits n (c # cs) =
     (if c = CHR ''0'' then binDigits (2 * n) cs
      else if c = CHR ''1'' then binDigits (2 * n + 1) cs
      else None)"

definition ParseUint2 :: "string \<Rightarrow> nat option" where
  "ParseUint2 s = (if s = [] then None else binDigits 0 s)"

definition ParseInt2 :: "string \<Rightarrow> int option" where
  "ParseInt2 s =
     (case s of
        [] \<Rightarrow> None
      | c # cs \<Rightarrow> do {
          un \<leftarrow> ParseUint2 (if c = CHR ''+'' \<or> c = CHR ''-'' then cs else s);
          if c = CHR ''-'' then if un > 2 ^ 31 then None else Some (- int un)
          else if un \<ge> 2 ^ 31 then None else Some (int un)
        })"

text \<open>The argument \<open>kk\<close> is the random key.\<close>

definition RandomKeyWithPrefix :: "key32 \<Rightarrow> string \<Rightarrow> key32 option" where
  "RandomKeyWithPrefix kk s =
     (if s = [] then Some kk
      else let prefixbits = length s
           in if prefixbits > 32 then None
              else do {
                n \<leftarrow> ParseInt2 s;
                let prefix = push_bit (32 - prefixbits) (word_of_int n);
                let v = drop_bit prefixbits (push_bit prefixbits kk);
                Some (or v prefix)
              })"

definition Key256WithLeadingBytes :: "8 word list \<Rightarrow> key256 option" where
  "Key256WithLeadingBytes inb =
     (if length inb > 32 then None else NewKey256 (inb @ replicate (32 - length inb) 0))"

definition bitChars :: "bool list \<Rightarrow> string" where
  "bitChars bs = map (\<lambda>b. if b then CHR ''1'' else CHR ''0'') bs"

lemma length_bitChars [simp]: "length (bitChars bs) = length bs" "bitChars bs = [] \<longleftrightarrow> bs = []"
  by (simp_all add: bitChars_def)

lemma binDigits_bits: "binDigits n (bitChars bs) = Some (n * 2 ^ length bs + bval bs)"
  by (induction bs arbitrary: n) (simp_all add: bitChars_def algebra_simps)

lemma ParseInt2_bits:
  assumes "bs \<noteq> []"
  shows "ParseInt2 (bitChars bs) = (if bval bs \<ge> 2 ^ 31 then None else Some (int (bval bs)))"
proof -
  have "ParseUint2 (bitChars bs) = Some (bval bs)" using assms by (simp add: ParseUint2_def binDigits_bits)
  moreover obtain c cs where "bitChars bs = c # cs" "c = CHR ''0'' \<or> c = CHR ''1''"
    using assms by (cases bs) (auto simp: bitChars_def)
  ultimately show ?thesis by (auto simp: ParseInt2_def)
qed

lemma bval_large: "length bs \<le> 32 \<Longrightarrow> bval bs \<ge> 2 ^ 31 \<longleftrightarrow> length bs = 32 \<and> hd bs"
proof (cases bs)
  case (Cons b cs)
  assume len: "length bs \<le> 32"
  have cs: "bval cs < 2 ^ length cs" by (rule bval_less)
  show ?thesis
  proof (cases "length cs = 31")
    case True
    with cs have "bval cs < 2 ^ 31" by simp
    with True show ?thesis by (simp add: Cons)
  next
    case False
    with len have "length bs \<le> 31" by (simp add: Cons)
    then have "(2 :: nat) ^ length bs \<le> 2 ^ 31" by (rule power_increasing) simp
    with bval_less [of bs] False show ?thesis by (simp add: Cons)
  qed
qed simp

lemma bit_bval: "i < length bs \<Longrightarrow> bit (bval bs) i = bs ! (length bs - Suc i)"
proof -
  let ?b = "rev (map (bit (bval bs)) [0..<length bs])"
  have "bval ?b = bval bs" using bval_less [of bs] by (simp add: bval_bits_nat take_bit_nat_eq_self)
  then have "?b = bs" by (simp add: bval_eq_iff)
  then have "bs ! (length bs - Suc i) = ?b ! (length bs - Suc i)" by simp
  moreover assume "i < length bs"
  ultimately show ?thesis by (simp add: rev_nth)
qed

lemma word_bits_prefix:
  fixes r :: key32
  assumes "length bs \<le> 32"
  shows "word_bits (or (drop_bit (length bs) (push_bit (length bs) r)) (push_bit (32 - length bs) (word_of_int (int (bval bs))))) =
    bs @ drop (length bs) (word_bits r)"
proof (rule nth_equalityI)
  fix i assume "i < length (word_bits (or (drop_bit (length bs) (push_bit (length bs) r))
    (push_bit (32 - length bs) (word_of_int (int (bval bs))))))"
  then have i: "i < 32" by simp
  have high: "bit (word_of_int (int (bval bs)) :: key32) m \<longleftrightarrow> m < length bs \<and> bs ! (length bs - Suc m)" if "m < 32" for m
  proof -
    have "\<not> bit (bval bs) m" if "\<not> m < length bs"
      using that bval_less [of bs] by (metis bit_take_bit_iff take_bit_nat_eq_self)
    with that show ?thesis by (cases "m < length bs") (simp_all add: bit_bval bit_of_nat_iff)
  qed
  show "word_bits (or (drop_bit (length bs) (push_bit (length bs) r))
      (push_bit (32 - length bs) (word_of_int (int (bval bs))))) ! i = (bs @ drop (length bs) (word_bits r)) ! i"
    using assms i high [of "length bs - Suc i"]
    by (cases "i < length bs")
      (auto simp: word_bits_nth nth_append bit_or_iff bit_drop_bit_eq bit_push_bit_iff)
qed (use assms in simp)

section \<open>Nodes\<close>

record 'k TestID =
  tid_key :: 'k

definition NewID :: "'k \<Rightarrow> 'k TestID" where
  "NewID k = \<lparr>tid_key = k\<rparr>"

definition ID_Key :: "'k TestID \<Rightarrow> 'k" where
  "ID_Key i = tid_key i"

definition ID_Equal :: "'k Key \<Rightarrow> 'k TestID \<Rightarrow> 'k \<Rightarrow> bool option" where
  "ID_Equal K i other = map_option (\<lambda>c. c = 0) (Compare K (tid_key i) other)"

definition ID_String :: "'k Key \<Rightarrow> 'k TestID \<Rightarrow> string option" where
  "ID_String K i = HexString K (tid_key i)"

text \<open>A \<open>StringID\<close> with its bytes; \<open>sha\<close> is the SHA-256 of the standard library.\<close>

type_synonym StringID = "8 word list"

definition NewStringID :: "8 word list \<Rightarrow> StringID" where
  "NewStringID s = s"

definition StringID_Key :: "(8 word list \<Rightarrow> 8 word list) \<Rightarrow> StringID \<Rightarrow> key256 option" where
  "StringID_Key sha s = NewKey256 (sha s)"

definition StringID_Equal :: "StringID \<Rightarrow> 8 word list \<Rightarrow> bool" where
  "StringID_Equal s other \<longleftrightarrow> s = other"

record ('k, 'a) Info =
  inf_id :: "'k TestID"
  inf_addrs :: "'a list"

definition NewInfo :: "'k TestID \<Rightarrow> 'a list \<Rightarrow> ('k, 'a) Info" where
  "NewInfo i addrs = \<lparr>inf_id = i, inf_addrs = addrs\<rparr>"

definition AddAddr :: "('k, 'a) Info \<Rightarrow> 'a \<Rightarrow> ('k, 'a) Info" where
  "AddAddr a addr = a\<lparr>inf_addrs := inf_addrs a @ [addr]\<rparr>"

text \<open>The loop over the array \<open>arr\<close>: \<open>i\<close> is the index that is read, \<open>w\<close> the index that is written next.\<close>

function removeAddrLoop :: "('a \<Rightarrow> 'a \<Rightarrow> bool) \<Rightarrow> 'a \<Rightarrow> nat \<Rightarrow> nat \<Rightarrow> 'a list \<Rightarrow> nat \<times> 'a list" where
  "removeAddrLoop eq addr i w arr =
     (if i < length arr then
        if \<not> eq (arr ! i) addr then removeAddrLoop eq addr (Suc i) (Suc w) (arr[w := arr ! i])
        else removeAddrLoop eq addr (Suc i) w arr
      else (w, arr))"
  by pat_completeness auto
termination
  by (relation "measure (\<lambda>(eq, addr, i, w, arr). length arr - i)") auto

declare removeAddrLoop.simps [simp del]

definition RemoveAddr :: "('a \<Rightarrow> 'a \<Rightarrow> bool) \<Rightarrow> ('k, 'a) Info \<Rightarrow> 'a \<Rightarrow> ('k, 'a) Info" where
  "RemoveAddr eq a addr =
     (let (w, arr) = removeAddrLoop eq addr 0 0 (inf_addrs a) in a\<lparr>inf_addrs := List.take w arr\<rparr>)"

definition Info_ID :: "('k, 'a) Info \<Rightarrow> 'k TestID" where
  "Info_ID a = inf_id a"

definition Info_Addresses :: "('k, 'a) Info \<Rightarrow> 'a list" where
  "Info_Addresses a = inf_addrs a"

lemma removeAddrLoop_filter:
  assumes "w \<le> i" "i \<le> length arr"
  shows "(case removeAddrLoop eq addr i w arr of (w', arr') \<Rightarrow> List.take w' arr') =
    List.take w arr @ filter (\<lambda>a. \<not> eq a addr) (drop i arr)"
  using assms
proof (induction eq addr i w arr rule: removeAddrLoop.induct)
  case (1 eq addr i w arr)
  show ?case
  proof (cases "i < length arr")
    case True
    then have d: "drop i arr = arr ! i # drop (Suc i) arr" by (simp add: Cons_nth_drop_Suc)
    show ?thesis
    proof (cases "eq (arr ! i) addr")
      case True
      with 1 \<open>i < length arr\<close> d show ?thesis by (simp add: removeAddrLoop.simps [of eq addr i])
    next
      case False
      moreover have "List.take (Suc w) (arr[w := arr ! i]) = List.take w arr @ [arr ! i]"
        using True 1(3) by (simp add: take_Suc_conv_app_nth)
      moreover have "drop (Suc i) (arr[w := arr ! i]) = drop (Suc i) arr" using 1(3) by simp
      ultimately show ?thesis using 1 True d by (simp add: removeAddrLoop.simps [of eq addr i])
    qed
  next
    case False
    then have "removeAddrLoop eq addr i w arr = (w, arr)" by (simp add: removeAddrLoop.simps)
    with False show ?thesis by simp
  qed
qed

text \<open>All occurrences of the address are removed, and the order of the others is kept.\<close>

lemma RemoveAddr_filter: "inf_addrs (RemoveAddr eq a addr) = filter (\<lambda>x. \<not> eq x addr) (inf_addrs a)"
  using removeAddrLoop_filter [of 0 0 "inf_addrs a" eq addr]
  by (auto simp: RemoveAddr_def split: prod.splits)

section \<open>Messages\<close>

type_synonym StrAddr = string

definition StrAddr_Equal :: "StrAddr \<Rightarrow> StrAddr \<Rightarrow> bool" where
  "StrAddr_Equal a b \<longleftrightarrow> a = b"

record 'k TestRequest =
  treq_target :: 'k
  treq_id :: string

definition TestRequest_new :: "string \<Rightarrow> 'k \<Rightarrow> 'k TestRequest" where
  "TestRequest_new i target = \<lparr>treq_target = target, treq_id = i\<rparr>"

definition Request_Target :: "'k TestRequest \<Rightarrow> 'k" where
  "Request_Target r = treq_target r"

definition Request_ID :: "'k TestRequest \<Rightarrow> string" where
  "Request_ID r = treq_id r"

record 'k TestResponse =
  tres_id :: string
  tres_closer :: "('k, StrAddr) NodeInfo list"

definition Request_EmptyResponse :: "'k TestResponse" where
  "Request_EmptyResponse = \<lparr>tres_id = [], tres_closer = []\<rparr>"

definition TestResponse_new :: "string \<Rightarrow> ('k, StrAddr) NodeInfo list \<Rightarrow> 'k TestResponse" where
  "TestResponse_new i closer = \<lparr>tres_id = i, tres_closer = closer\<rparr>"

definition Response_ID :: "'k TestResponse \<Rightarrow> string" where
  "Response_ID r = tres_id r"

definition Response_CloserNodes :: "'k TestResponse \<Rightarrow> ('k, StrAddr) NodeInfo list" where
  "Response_CloserNodes r = tres_closer r"

section \<open>Actions\<close>

record FuncAction =
  fa_Ran :: bool
  fa_Int :: int

definition NewFuncAction :: "int \<Rightarrow> FuncAction" where
  "NewFuncAction i = \<lparr>fa_Ran = False, fa_Int = i\<rparr>"

definition FuncAction_Run :: "FuncAction \<Rightarrow> FuncAction" where
  "FuncAction_Run a = a\<lparr>fa_Ran := True\<rparr>"

section \<open>Properties\<close>

text \<open>C40: A key for a prefix of bits begins with that prefix, and its other bits are those of the random
  key; so the key is in the bucket that a simulation wants it in. This fails for the prefixes of 32
  bits that begin with a one, although the documentation allows 32 bits: they do not fit the signed integer
  that the digits are read into, and the function panics, as it does for longer prefixes.\<close>

theorem random_key_prefix:
  "if 32 < length bs \<or> length bs = 32 \<and> hd bs then RandomKeyWithPrefix r (bitChars bs) = None
   else \<exists>k. RandomKeyWithPrefix r (bitChars bs) = Some k \<and> word_bits k = bs @ drop (length bs) (word_bits r)"
proof (cases "bs = [] \<or> 32 < length bs")
  case False
  then show ?thesis using bval_large [of bs] word_bits_prefix [of bs r]
    by (auto simp: RandomKeyWithPrefix_def ParseInt2_bits Let_def)
qed (auto simp: RandomKeyWithPrefix_def)

end
