(* ===== verification/Spec2Isabelle.thy ===== *)
theory Spec2Isabelle
  imports Query_Pool Bootstrap Probe Event_Scheduler Simple_Query_Run Sim_Theorems Full_Simulation Basic_Server Libp2p_Endpoint Kad_Test
begin

text \<open>
  A verification library for go-kademlia, a Kademlia distributed hash table in Go. All paths are relative
  to \<open>src/\<close>. This theory imports all others and holds their documentation; the properties stand in the
  theories of the parts that they are about, each after a text that states it.

  \<^bold>\<open>The program.\<close> Nodes have keys of a fixed number of bits, and the distance of two keys is their
  XOR. A routing table keeps known nodes (\<open>routing/triert\<close> a trie, \<open>routing/simplert\<close> buckets). A query
  walks towards a target: it asks the nearest known nodes for nearer ones. There are two
  generations of queries: \<open>query/\<close> and the state machines of \<open>routing/\<close> are driven by events from outside
  and return what is to be done; \<open>query/simplequery\<close> itself calls an endpoint and a scheduler of the package
  \<open>event\<close>. Endpoints send requests and call handlers: \<open>sim\<close> is a simulated network with a simulator of
  discrete events, \<open>libp2p\<close> the real one. The servers \<open>sim/server.go\<close> and \<open>server/basicserver\<close> answer
  requests from a routing table.

  \<^bold>\<open>Foundations.\<close>
  \<^item> \<open>Kad_Prelude\<close>: lemma collections, times, Go maps, bit strings and their values.
  \<^item> \<open>Go_Heap\<close>: the package \<open>container/heap\<close> of the Go library over the locale \<open>heap_interface\<close>.
  \<^item> \<open>Kad_Key\<close>, \<open>Key_Types\<close>: \<open>kad/kad.go\<close>, \<open>key/op.go\<close>, \<open>key/key.go\<close>. The contract of the key interface is the
    locale \<open>kad_key\<close>, in terms of the bit string of a key; it is interpreted for \<open>Key8\<close>, \<open>Key32\<close> and
    \<open>Key256\<close>. Everything later is proved for any key type with this contract.

  \<^bold>\<open>Routing tables.\<close>
  \<^item> \<open>Kad_Trie\<close>: \<open>key/trie/trie.go\<close>. Well-formedness is \<open>trie_inv\<close>; adding and removing keep it and act on
    the entries as on a map, the sharing and the destructive versions agree, \<open>Closest\<close> is equal to
    sorting all entries by distance, \<open>Equal\<close> decides equality of the key sets.
  \<^item> \<open>Routing_Table\<close>: the interface with three contracts of growing strength as locales.
  \<^item> \<open>TrieRT\<close>, \<open>SimpleRT\<close>: the two tables, both refinements of a map; limits of the buckets, the nearest
    nodes, the splitting of the last bucket ends. \<open>TrieRT.AddNode\<close> evaluates its filter before it takes the
    lock; the step relation \<open>rt_reach\<close> interleaves the filters and insertions of several calls, and the
    limit of a bucket is proved for it.

  \<^bold>\<open>State machines.\<close> A step takes the time and an event and returns the new state and a report.
  \<^item> \<open>Node_Iter\<close>, \<open>Query\<close>, \<open>Query_Pool\<close>: \<open>query/node.go\<close>, \<open>iter.go\<close>, \<open>query.go\<close>, \<open>pool.go\<close>. Invariants, absence of
    panics from the constructor on under every sequence of events, what each report means, that
    no node is contacted twice (with the iterator by distance), and the limits of concurrency. The
    pool and the bootstrap report a timeout by the time since the start of a query.
  \<^item> \<open>Bootstrap\<close>, \<open>Include\<close>, \<open>Node_Value_List\<close>, \<open>Probe\<close>: the files of these names in \<open>routing/\<close>. Include and
    probe are refinements of abstract machines on finite sets and maps; where the code panics, the
    theorem says exactly when. The abstract probe times a check out as the code does, at full concurrency
    only, which is not what the documentation of \<open>Probe\<close> says.

  \<^bold>\<open>Events.\<close> \<open>Event_Queue\<close>, \<open>Event_Planner\<close>, \<open>Event_Scheduler\<close>: the files of \<open>event/\<close>. The channel is a bounded queue,
  the linked list of the planner refines a sequence sorted by time, the scheduler runs what is
  ready in order, and blocks exactly when that does not fit into the channel. Contracts are the locales \<open>event_queue\<close>, \<open>aware_planner\<close>, \<open>simple_scheduler\<close>.

  \<^bold>\<open>The simple query.\<close> \<open>Peer_List\<close>, \<open>Peer_Merge\<close>, \<open>Peer_Ops\<close>: \<open>query/simplequery/peerlist.go\<close>, a linked list in a store.
  \<open>Simple_Query\<close>, \<open>Simple_Query_Run\<close>: \<open>query.go\<close> and \<open>options.go\<close>, and everything that can happen to a query
  as a step relation \<open>sq_reach\<close>. What the endpoint knows is read anew at each event; the properties hold of
  the runs whose events meet \<open>event_ok\<close> (addresses for the peers still to be asked, no fresh ones for those
  that were asked and have not answered). What goes wrong outside of it is stated of the list itself:
  \<open>peerlist_unreachable\<close> says when \<open>unreachablePeer\<close> panics, \<open>peerlist_loses_queued\<close> is an example of a list that
  loses its queued peers.

  \<^bold>\<open>The simulated network.\<close>
  \<^item> \<open>Sim_Endpoint\<close>, \<open>Sim_Server\<close>: messages, router, endpoint, server of \<open>sim/\<close>, in one record \<open>World\<close>.
  \<^item> \<open>Sim_Network\<close>: the operations on the world, reachability, and an invariant that connects the open
    streams with the actions of the schedulers: calls of response handlers are conserved.
  \<^item> \<open>Sim_Run\<close>: a request and its answer, step by step.
  \<^item> \<open>Simulator\<close>, \<open>Sim_Simulation\<close>: \<open>sim/simulator.go\<close> over any schedulers (locale \<open>aware_schedulers\<close>) and on
    those of the network. \<open>Sim_Theorems\<close>: the properties.

  \<^item> \<open>Full_Simulation\<close>: a simple query on an endpoint of the network, run by the simulator: it moves the
    network by the network's operations, and learning the nodes of an answer keeps the conditions of
    \<open>event_ok\<close>. The example \<open>examples/fullsim/findnode.go\<close> is evaluated and finds its node.

  \<^bold>\<open>libp2p.\<close>
  \<^item> \<open>Libp2p_Messages\<close>: identifiers, addresses and the find-node messages; requests and
    responses survive the wire.
  \<^item> \<open>Basic_Server\<close>: \<open>server/basicserver\<close>, which answers with the nearest nodes of any routing table; its
    errors, and exactly when the type assertions of \<open>libp2p/helpers.go\<close> make it panic.
  \<^item> \<open>Libp2p_Endpoint\<close>: \<open>libp2p/libp2pendpoint.go\<close>. Its goroutines are tasks that make one call a step, in any
    interleaving with the scheduler and the network; every accepted request has one call of
    its handler.

  \<open>Kad_Test\<close>: the keys, nodes and messages of \<open>internal/kadtest\<close>.

  \<^bold>\<open>How Go is modelled.\<close>
  \<^item> A type parameter with methods, or an interface, is a record of methods (a dictionary) that is an
    argument. An object of which only some methods are used (\<open>NodeID\<close>, \<open>NodeInfo\<close>, \<open>Response\<close>) is the record of
    what they return. An optional method that a type assertion looks for is an optional field;
    a type assertion on a value is an argument of the definition.
  \<^item> A method with a receiver takes the state and returns it. \<open>None\<close> in the result is a panic, a call
    that blocks for ever or a loop that does not end; an error value is \<open>Inl\<close> or the optional
    component that the code returns. Loops whose end depends on the data are partial functions with
    value \<open>None\<close> if they do not end; that they end is proved where they do. No fuel is used.
  \<^item> Objects that are shared through pointers and changed live in a store (a list), and a pointer is
    an index; where the code compares pointers, the model has \<open>Same\<close> and \<open>Fresh\<close>.
  \<^item> An \<open>int\<close> is an integer without bounds (it counts elements in memory), keys and stream
    identifiers are machine words; times and durations are integers of nanoseconds.
  \<^item> A Go map is an association list; iteration over one is only used where the order is
    irrelevant, or has the order as a parameter. \<open>sort.Slice\<close> is a parameter with a contract (locale \<open>slice_sort\<close>).
  \<^item> A mutex makes what it guards one step. The clock is read once in a step.
  \<^item> A closure that is given to a scheduler is a value of a datatype with the variables that it
    captures. Calls out of a component that return nothing are recorded as effects. Contexts, tracing
    spans and log output are left out.
  \<^item> Packages outside the repository are parameters. The laws that are assumed of them are \<open>libp2p_laws\<close>
    (a hash has 32 bytes; parsing a multiaddress inverts writing it) and \<open>valid_peer\<close> (an identifier can be read back from
    its bytes). The host and the streams of libp2p may answer anything.

  \<^bold>\<open>Not modelled.\<close>
  \<^item> \<open>examples/\<close> but for \<open>fullsim/findnode.go\<close>: programs that connect the parts, print and use the live network.
  \<^item> \<open>libp2p/message.pb.go\<close>: generated; the fields that the code uses are the record \<open>PbMessage\<close>. \<open>libp2p/util.go\<close> and
    \<open>proto_msg.go\<close> wrap calls of the protobuf library, which are outcomes of the steps of the endpoint.
  \<^item> \<open>util/tracing.go\<close>, the benchmark and context helpers of \<open>internal/kadtest\<close>, the interfaces \<open>RoutingProtocol\<close> and
    \<open>RecordProtocol\<close> of \<open>kad/kad.go\<close>, which nothing implements, and \<open>IntAction\<close>, which does nothing.
\<close>

end
